(* ===== verification/Prelude.thy ===== *)
theory Prelude
  imports Main "HOL-Library.Char_ord" "HOL-Library.List_Lexorder" "HOL-Library.AList"
begin

text \<open>
  The Python runtime the modelled sources rely on, and the lemmas and proof collections the
  components share.

  Strings are \<open>char list\<close>; a \<open>char\<close> stands for one code point in the range 0 to 255
  (Latin-1), so \<open>length\<close> counts code points as Python does. The character classes below are
  those of Python's \<open>str\<close> methods on that range. A Python exception is the left summand of a sum
  type, a dictionary is an association list in insertion order (updated with
  \<open>AList.update\<close>, as \<open>d[k] = v\<close> does), and \<open>sorted\<close> on strings is
  \<open>sort\<close> for the lexicographic order of code points.
\<close>

named_theorems py_str \<open>equations of the string functions\<close>
named_theorems res_simps \<open>equations of the result combinators\<close>

section \<open>Results\<close>

definition rbind :: "'e + 'a \<Rightarrow> ('a \<Rightarrow> 'e + 'b) \<Rightarrow> 'e + 'b" where
  "rbind r f = (case r of Inl e \<Rightarrow> Inl e | Inr x \<Rightarrow> f x)"

fun rmap :: "('a \<Rightarrow> 'e + 'b) \<Rightarrow> 'a list \<Rightarrow> 'e + 'b list" where
  "rmap f [] = Inr []"
| "rmap f (x # xs) = rbind (f x) (\<lambda>y. rbind (rmap f xs) (\<lambda>ys. Inr (y # ys)))"

definition is_ok :: "'e + 'a \<Rightarrow> bool" where
  "is_ok r = (case r of Inl _ \<Rightarrow> False | Inr _ \<Rightarrow> True)"

definition of_option :: "'e \<Rightarrow> 'a option \<Rightarrow> 'e + 'a" where
  "of_option e x = (case x of None \<Rightarrow> Inl e | Some y \<Rightarrow> Inr y)"

lemma rbind_simps [simp, res_simps]:
  "rbind (Inl e) f = Inl e" "rbind (Inr x) f = f x"
  by (simp_all add: rbind_def)

lemma rbind_Inr_iff [res_simps]: "rbind r f = Inr y \<longleftrightarrow> (\<exists>x. r = Inr x \<and> f x = Inr y)"
  by (cases r) auto

lemma rbind_Inl_iff [res_simps]:
  "rbind r f = Inl e \<longleftrightarrow> r = Inl e \<or> (\<exists>x. r = Inr x \<and> f x = Inl e)"
  by (cases r) auto

lemma is_ok_simps [simp, res_simps]: "is_ok (Inl e) = False" "is_ok (Inr x) = True"
  by (simp_all add: is_ok_def)

lemma is_ok_iff: "is_ok r \<longleftrightarrow> (\<exists>x. r = Inr x)"
  by (cases r) auto

lemma of_option_simps [simp, res_simps]:
  "of_option e None = Inl e" "of_option e (Some x) = Inr x"
  by (simp_all add: of_option_def)

lemma rmap_Inr_iff:
  "rmap f xs = Inr ys \<longleftrightarrow> list_all2 (\<lambda>x y. f x = Inr y) xs ys"
  by (induction xs arbitrary: ys) (auto simp: rbind_Inr_iff list_all2_Cons1)

lemma rmap_length: "rmap f xs = Inr ys \<Longrightarrow> length ys = length xs"
  by (auto simp: rmap_Inr_iff dest: list_all2_lengthD)

lemma rmap_append:
  "rmap f (xs @ ys) = rbind (rmap f xs) (\<lambda>a. rbind (rmap f ys) (\<lambda>b. Inr (a @ b)))"
proof (induction xs)
  case Nil
  show ?case by (cases "rmap f ys") simp_all
next
  case (Cons x xs)
  then show ?case
    by (cases "f x"; cases "rmap f xs"; cases "rmap f ys") simp_all
qed

lemma rmap_total: "rmap (\<lambda>x. Inr (f x)) xs = Inr (map f xs)"
  by (induction xs) simp_all

lemma rmap_map: "rmap f (map g xs) = rmap (\<lambda>x. f (g x)) xs"
  by (induction xs) simp_all

lemma rmap_InrD:
  assumes "rmap f xs = Inr ys" and "\<And>x y. x \<in> set xs \<Longrightarrow> f x = Inr y \<Longrightarrow> P x \<and> y = g x"
  shows "ys = map g xs \<and> (\<forall>x \<in> set xs. P x)"
  using assms
proof (induction xs arbitrary: ys)
  case (Cons x xs)
  from Cons.prems(1) obtain y zs where "f x = Inr y" "rmap f xs = Inr zs" "ys = y # zs"
    by (auto simp: rbind_Inr_iff)
  with Cons.IH [of zs] Cons.prems(2) [of x y] Cons.prems(2) show ?case by simp
qed simp

lemma rmap_cong [fundef_cong]:
  "xs = ys \<Longrightarrow> (\<And>x. x \<in> set ys \<Longrightarrow> f x = g x) \<Longrightarrow> rmap f xs = rmap g ys"
  by (induction xs arbitrary: ys) (auto intro!: arg_cong2 [where f = rbind])

section \<open>Slices\<close>

text \<open>\<open>xs[:n]\<close> for an integer \<open>n\<close>: a negative one counts from the end.\<close>

definition py_prefix :: "int \<Rightarrow> 'a list \<Rightarrow> 'a list" where
  "py_prefix n xs = (if 0 \<le> n then take (nat n) xs else take (length xs - nat (- n)) xs)"

section \<open>Serialisable data\<close>

text \<open>
  The contract of a pair \<open>to_dict\<close>/\<open>from_dict\<close>: decoding what was encoded gives the
  value back, for the values the encoder is meant for.
\<close>

locale codec =
  fixes enc :: "'a \<Rightarrow> 'j"
    and dec :: "'j \<Rightarrow> 'e + 'a"
    and ok :: "'a \<Rightarrow> bool"
  assumes dec_enc: "ok x \<Longrightarrow> dec (enc x) = Inr x"
begin

lemma enc_inj: "ok x \<Longrightarrow> ok y \<Longrightarrow> enc x = enc y \<Longrightarrow> x = y"
  by (metis dec_enc sum.inject(2))

lemma dec_enc_list: "\<forall>x \<in> set xs. ok x \<Longrightarrow> rmap dec (map enc xs) = Inr xs"
  by (induction xs) (auto simp: dec_enc)

lemma enc_list_inj:
  "\<forall>x \<in> set xs. ok x \<Longrightarrow> \<forall>x \<in> set ys. ok x \<Longrightarrow> map enc xs = map enc ys \<Longrightarrow> xs = ys"
  by (metis dec_enc_list sum.inject(2))

end

section \<open>Characters\<close>

definition code :: "char \<Rightarrow> int" where
  "code c = of_char c"

definition in_ranges :: "(int \<times> int) list \<Rightarrow> int \<Rightarrow> bool" where
  "in_ranges rs n = list_ex (\<lambda>(l, h). l \<le> n \<and> n \<le> h) rs"

definition space_ranges :: "(int \<times> int) list" where
  "space_ranges = [(9, 13), (28, 32), (133, 133), (160, 160)]"

definition digit_ranges :: "(int \<times> int) list" where
  "digit_ranges = [(48, 57)]"

definition alpha_ranges :: "(int \<times> int) list" where
  "alpha_ranges = [(65, 90), (97, 122), (170, 170), (181, 181), (186, 186),
                   (192, 214), (216, 246), (248, 255)]"

definition alnum_ranges :: "(int \<times> int) list" where
  "alnum_ranges = digit_ranges @ alpha_ranges @ [(178, 179), (185, 185), (188, 190)]"

definition word_ranges :: "(int \<times> int) list" where
  "word_ranges = (95, 95) # alnum_ranges"

definition eol_ranges :: "(int \<times> int) list" where
  "eol_ranges = [(10, 13), (28, 30), (133, 133)]"

lemmas range_defs = space_ranges_def digit_ranges_def alpha_ranges_def alnum_ranges_def
  word_ranges_def eol_ranges_def in_ranges_def

definition is_space :: "char \<Rightarrow> bool" where
  "is_space c = in_ranges space_ranges (code c)"

definition is_digit :: "char \<Rightarrow> bool" where
  "is_digit c = in_ranges digit_ranges (code c)"

definition is_alnum :: "char \<Rightarrow> bool" where
  "is_alnum c = in_ranges alnum_ranges (code c)"

definition is_word :: "char \<Rightarrow> bool" where
  "is_word c = in_ranges word_ranges (code c)"

text \<open>The characters at which \<open>str.splitlines\<close> ends a line.\<close>

definition is_eol :: "char \<Rightarrow> bool" where
  "is_eol c = in_ranges eol_ranges (code c)"

abbreviation LF :: char where "LF \<equiv> CHR 0x0A"
abbreviation CR :: char where "CR \<equiv> CHR 0x0D"

definition lower_char :: "char \<Rightarrow> char" where
  "lower_char c = (if in_ranges [(65, 90), (192, 214), (216, 222)] (code c)
                   then char_of (code c + 32) else c)"

definition lower :: "string \<Rightarrow> string" where
  "lower s = map lower_char s"

lemma code_char_of: "0 \<le> n \<Longrightarrow> n < 256 \<Longrightarrow> code (char_of n) = n"
  by (simp add: code_def)

lemma code_less [simp]: "code c < 256" "0 \<le> code c"
proof -
  have "code c = int (of_char c)" by (cases c) (simp add: code_def)
  moreover have "of_char c < (256 :: nat)" by simp
  ultimately show "code c < 256" "0 \<le> code c" by linarith+
qed

lemma code_inject [simp]: "code a = code b \<longleftrightarrow> a = b"
  by (simp add: code_def)

lemma lower_char_idem [simp]: "lower_char (lower_char c) = lower_char c"
  by (auto simp: lower_char_def in_ranges_def code_char_of)

lemma lower_idem [simp]: "lower (lower s) = lower s"
  by (simp add: lower_def)

lemma length_lower [simp]: "length (lower s) = length s"
  by (simp add: lower_def)

lemma lower_append [simp]: "lower (s @ t) = lower s @ lower t"
  by (simp add: lower_def)

section \<open>String methods\<close>

definition lstrip :: "string \<Rightarrow> string" where
  "lstrip s = dropWhile is_space s"

definition rstrip :: "string \<Rightarrow> string" where
  "rstrip s = rev (dropWhile is_space (rev s))"

definition strip :: "string \<Rightarrow> string" where
  "strip s = rstrip (lstrip s)"

definition startswith :: "string \<Rightarrow> string \<Rightarrow> bool" where
  "startswith s p = (take (length p) s = p)"

definition endswith :: "string \<Rightarrow> string \<Rightarrow> bool" where
  "endswith s p = (length p \<le> length s \<and> drop (length s - length p) s = p)"

fun contains :: "string \<Rightarrow> string \<Rightarrow> bool" where
  "contains p [] = (p = [])"
| "contains p (c # s) = (startswith (c # s) p \<or> contains p s)"

fun join :: "string \<Rightarrow> string list \<Rightarrow> string" where
  "join sep [] = []"
| "join sep [x] = x"
| "join sep (x # y # xs) = x @ sep @ join sep (y # xs)"

text \<open>\<open>s.split(c)\<close> for a one-character separator.\<close>

fun split_on :: "char \<Rightarrow> string \<Rightarrow> string list" where
  "split_on c [] = [[]]"
| "split_on c (x # s) =
     (if x = c then [] # split_on c s
      else case split_on c s of [] \<Rightarrow> [[x]] | l # ls \<Rightarrow> (x # l) # ls)"

text \<open>\<open>s.split()\<close>: the runs of non-space characters.\<close>

fun split_ws :: "string \<Rightarrow> string list" where
  "split_ws [] = []"
| "split_ws (x # s) =
     (if is_space x then split_ws s
      else case s of
        [] \<Rightarrow> [[x]]
      | y # _ \<Rightarrow> (if is_space y then [x] # split_ws s
                 else case split_ws s of [] \<Rightarrow> [[x]] | l # ls \<Rightarrow> (x # l) # ls))"

text \<open>\<open>s.split(c, 1)[0]\<close>.\<close>

definition before_first :: "char \<Rightarrow> string \<Rightarrow> string" where
  "before_first c s = takeWhile (\<lambda>x. x \<noteq> c) s"

text \<open>\<open>s.rsplit(c, 1)[0]\<close>: all of \<open>s\<close> without the separator.\<close>

definition before_last :: "char \<Rightarrow> string \<Rightarrow> string" where
  "before_last c s = (if c \<in> set s then rev (tl (dropWhile (\<lambda>x. x \<noteq> c) (rev s))) else s)"

text \<open>\<open>s.replace(old, new)\<close> for a non-empty \<open>old\<close>.\<close>

function replace :: "string \<Rightarrow> string \<Rightarrow> string \<Rightarrow> string" where
  "replace old new s =
     (case s of
        [] \<Rightarrow> []
      | c # t \<Rightarrow> (if old \<noteq> [] \<and> startswith s old
                 then new @ replace old new (drop (length old) s)
                 else c # replace old new t))"
  by pat_completeness auto
termination
  by (relation "measure (\<lambda>(old, new, s). length s)") auto

declare replace.simps [simp del]

text \<open>\<open>str.splitlines(keepends=True)\<close> and \<open>str.splitlines()\<close>.\<close>

fun splitlines_keep :: "string \<Rightarrow> string list" where
  "splitlines_keep [] = []"
| "splitlines_keep (c # s) =
     (if c = CR \<and> s \<noteq> [] \<and> hd s = LF then [CR, LF] # splitlines_keep (tl s)
      else if is_eol c then [c] # splitlines_keep s
      else case splitlines_keep s of [] \<Rightarrow> [[c]] | l # ls \<Rightarrow> (c # l) # ls)"

definition strip_eol :: "string \<Rightarrow> string" where
  "strip_eol l =
     (if l = [] then []
      else if last l = LF \<and> butlast l \<noteq> [] \<and> last (butlast l) = CR then butlast (butlast l)
      else if is_eol (last l) then butlast l else l)"

definition splitlines :: "string \<Rightarrow> string list" where
  "splitlines s = map strip_eol (splitlines_keep s)"

lemma concat_splitlines_keep [simp]: "concat (splitlines_keep s) = s"
proof (induction s rule: splitlines_keep.induct)
  case (2 c s)
  show ?case
  proof (cases "c = CR \<and> s \<noteq> [] \<and> hd s = LF")
    case True
    then obtain t where "s = LF # t" by (cases s) auto
    with True 2 show ?thesis by simp
  next
    case False
    with 2 show ?thesis by (cases "splitlines_keep s") auto
  qed
qed simp

lemma splitlines_keep_nonempty: "\<forall>l \<in> set (splitlines_keep s). l \<noteq> []"
proof (induction s rule: splitlines_keep.induct)
  case (2 c s)
  show ?case
  proof (cases "c = CR \<and> s \<noteq> [] \<and> hd s = LF")
    case True
    with 2 show ?thesis by simp
  next
    case False
    with 2 have ih: "\<forall>l \<in> set (splitlines_keep s). l \<noteq> []" by blast
    have "splitlines_keep (c # s) =
      (if is_eol c then [c] # splitlines_keep s
       else case splitlines_keep s of [] \<Rightarrow> [[c]] | l # ls \<Rightarrow> (c # l) # ls)"
      by (simp only: splitlines_keep.simps if_not_P [OF False])
    with ih show ?thesis by (simp split: list.split)
  qed
qed simp

section \<open>Numbers as text\<close>

definition digit_char :: "nat \<Rightarrow> char" where
  "digit_char d = char_of (48 + int d)"

fun str_nat :: "nat \<Rightarrow> string" where
  "str_nat n = (if n < 10 then [digit_char n] else str_nat (n div 10) @ [digit_char (n mod 10)])"

declare str_nat.simps [simp del]

definition str_int :: "int \<Rightarrow> string" where
  "str_int i = (if i < 0 then CHR ''-'' # str_nat (nat (- i)) else str_nat (nat i))"

definition nat_of_digits :: "string \<Rightarrow> nat" where
  "nat_of_digits s = foldl (\<lambda>n c. 10 * n + nat (code c - 48)) 0 s"

lemma nat_of_digits_snoc: "nat_of_digits (s @ [c]) = 10 * nat_of_digits s + nat (code c - 48)"
  by (simp add: nat_of_digits_def)

lemma code_digit_char: "d < 10 \<Longrightarrow> code (digit_char d) = 48 + int d"
  by (simp add: digit_char_def code_char_of)

lemma nat_of_digits_str_nat [simp]: "nat_of_digits (str_nat n) = n"
proof (induction n rule: str_nat.induct)
  case (1 n)
  show ?case
  proof (cases "n < 10")
    case True
    then show ?thesis
      by (subst str_nat.simps) (simp add: nat_of_digits_def code_digit_char)
  next
    case False
    with "1.IH" show ?thesis
      by (subst str_nat.simps) (simp add: nat_of_digits_snoc code_digit_char)
  qed
qed

lemma str_nat_nonempty [simp]: "str_nat n \<noteq> []"
  by (subst str_nat.simps) simp

lemma str_nat_digits: "\<forall>c \<in> set (str_nat n). is_digit c"
proof (induction n rule: str_nat.induct)
  case (1 n)
  have d: "is_digit (digit_char d)" if "d < 10" for d
    using that by (simp add: is_digit_def range_defs code_digit_char)
  show ?case
    by (subst str_nat.simps) (use 1 d in auto)
qed

lemma str_nat_inj: "str_nat m = str_nat n \<longleftrightarrow> m = n"
  by (metis nat_of_digits_str_nat)

section \<open>Splitting and joining\<close>

lemma split_on_none: "c \<notin> set s \<Longrightarrow> split_on c s = [s]"
  by (induction s) auto

lemma split_on_append_sep: "c \<notin> set x \<Longrightarrow> split_on c (x @ c # s) = x # split_on c s"
  by (induction x) auto

lemma split_on_join:
  "\<forall>x \<in> set xs. c \<notin> set x \<Longrightarrow> xs \<noteq> [] \<Longrightarrow> split_on c (join [c] xs) = xs"
  by (induction xs rule: induct_list012) (auto simp: split_on_none split_on_append_sep)

lemma split_on_no_sep: "\<forall>x \<in> set (split_on c s). c \<notin> set x"
  by (induction s) (auto split: list.splits)

lemma split_on_nonempty [simp]: "split_on c s \<noteq> []"
  by (cases s) (auto split: list.splits)

lemma join_append:
  "xs \<noteq> [] \<Longrightarrow> ys \<noteq> [] \<Longrightarrow> join sep (xs @ ys) = join sep xs @ sep @ join sep ys"
proof (induction xs rule: induct_list012)
  case (2 x)
  then show ?case by (cases ys) simp_all
qed simp_all

lemma join_split_on [simp]: "join [c] (split_on c s) = s"
proof (induction s)
  case (Cons x s)
  obtain l ls where "split_on c s = l # ls" by (metis split_on_nonempty list.exhaust)
  with Cons show ?case by (cases ls) auto
qed simp

text \<open>Splitting the joined lines at the line feeds gives the lines back, those with line feeds of their
  own in pieces.\<close>

lemma split_on_join_lines:
  "ls \<noteq> [] \<Longrightarrow> split_on c (join [c] ls) = concat (map (split_on c) ls)"
proof (induction ls rule: induct_list012)
  case (3 x y zs)
  have "split_on c (u @ c # v) = split_on c u @ split_on c v" for u v
  proof (induction u)
    case (Cons a u)
    obtain l ls where "split_on c u = l # ls" by (metis split_on_nonempty list.exhaust)
    with Cons show ?case by simp
  qed simp
  with 3 show ?case by simp
qed simp_all

lemma split_lines_id: "\<forall>x \<in> set xs. c \<notin> set x \<Longrightarrow> concat (map (split_on c) xs) = xs"
  by (induction xs) (simp_all add: split_on_none)

section \<open>Integers read from text\<close>

text \<open>\<open>int(s)\<close>: surrounding blanks, a sign, digits with single underscores between them.\<close>

definition py_digits :: "string \<Rightarrow> nat option" where
  "py_digits u =
     (if list_all (\<lambda>g. g \<noteq> [] \<and> list_all is_digit g) (split_on CHR ''_'' u)
      then Some (nat_of_digits (concat (split_on CHR ''_'' u))) else None)"

definition py_int :: "string \<Rightarrow> int option" where
  "py_int s =
     (case strip s of
        [] \<Rightarrow> None
      | c # u \<Rightarrow>
          (if c = CHR ''-'' then map_option (\<lambda>n. - int n) (py_digits u)
           else if c = CHR ''+'' then map_option int (py_digits u)
           else map_option int (py_digits (c # u))))"

lemma is_digit_code: "is_digit c \<longleftrightarrow> 48 \<le> code c \<and> code c \<le> 57"
  by (simp add: is_digit_def range_defs)

lemma digit_facts: "is_digit c \<Longrightarrow> \<not> is_space c" "is_digit c \<Longrightarrow> c \<notin> set ''_+-''"
proof -
  have "code CHR ''_'' = 95" "code CHR ''+'' = 43" "code CHR ''-'' = 45" by code_simp+
  then show "is_digit c \<Longrightarrow> \<not> is_space c" "is_digit c \<Longrightarrow> c \<notin> set ''_+-''"
    by (auto simp: is_digit_code is_space_def range_defs)
qed

lemma strip_no_space: "\<forall>c \<in> set s. \<not> is_space c \<Longrightarrow> strip s = s"
proof -
  assume "\<forall>c \<in> set s. \<not> is_space c"
  then have "dropWhile is_space s = s" "dropWhile is_space (rev s) = rev s"
    by (metis dropWhile_eq_self_iff hd_in_set set_rev)+
  then show ?thesis by (simp add: strip_def lstrip_def rstrip_def)
qed

lemma py_digits_str_nat [simp]: "py_digits (str_nat n) = Some n"
proof -
  have d: "\<forall>c \<in> set (str_nat n). is_digit c" by (rule str_nat_digits)
  then have "CHR ''_'' \<notin> set (str_nat n)" using digit_facts(2) by fastforce
  then show ?thesis using d by (simp add: py_digits_def split_on_none list_all_iff)
qed

lemma py_int_str_int [simp]: "py_int (str_int i) = Some i"
proof -
  have sp: "strip (str_nat n) = str_nat n" "strip (CHR ''-'' # str_nat n) = CHR ''-'' # str_nat n" for n
  proof -
    have "\<not> is_space CHR ''-''" by code_simp
    then show "strip (str_nat n) = str_nat n" "strip (CHR ''-'' # str_nat n) = CHR ''-'' # str_nat n"
      using str_nat_digits [of n] digit_facts(1) by (auto intro!: strip_no_space)
  qed
  show ?thesis
  proof (cases "i < 0")
    case True
    then show ?thesis using sp(2) [of "nat (- i)"] by (simp add: str_int_def py_int_def)
  next
    case False
    obtain c u where cu: "str_nat (nat i) = c # u" by (cases "str_nat (nat i)") auto
    then have "is_digit c" using str_nat_digits [of "nat i"] by simp
    then have "c \<noteq> CHR ''-''" "c \<noteq> CHR ''+''" using digit_facts(2) by fastforce+
    then show ?thesis
      using False sp(1) [of "nat i"] py_digits_str_nat [of "nat i"] cu by (simp add: str_int_def py_int_def)
  qed
qed

section \<open>Indexing\<close>

text \<open>\<open>xs[i]\<close> for a possibly negative index.\<close>

definition py_nth :: "'a list \<Rightarrow> int \<Rightarrow> 'a option" where
  "py_nth xs i =
     (let j = (if i < 0 then i + int (length xs) else i) in
      if 0 \<le> j \<and> j < int (length xs) then Some (xs ! nat j) else None)"

lemma py_nth_int: "i < length xs \<Longrightarrow> py_nth xs (int i) = Some (xs ! i)"
  by (simp add: py_nth_def)

section \<open>Commas outside parentheses\<close>

text \<open>The items of a comma-separated text, blanks off, where a comma inside parentheses separates nothing.\<close>

fun split_top :: "int \<Rightarrow> string \<Rightarrow> string \<Rightarrow> string list" where
  "split_top depth cur [] = [strip cur]"
| "split_top depth cur (c # s) =
     (let depth = (if c = CHR ''('' then depth + 1 else if c = CHR '')'' then depth - 1 else depth) in
      if c = CHR '','' \<and> depth = 0 then strip cur # split_top depth [] s
      else split_top depth (cur @ [c]) s)"

text \<open>Text with balanced parentheses and no comma outside them.\<close>

fun bal :: "nat \<Rightarrow> string \<Rightarrow> bool" where
  "bal d [] = (d = 0)"
| "bal d (c # s) =
     (if c = CHR ''('' then bal (d + 1) s
      else if c = CHR '')'' then 0 < d \<and> bal (d - 1) s
      else (c = CHR '','' \<longrightarrow> 0 < d) \<and> bal d s)"

lemma split_top_step:
  "split_top k cur (CHR ''('' # s) = split_top (k + 1) (cur @ ''('') s"
  "split_top k cur (CHR '')'' # s) = split_top (k - 1) (cur @ '')'') s"
  "c \<notin> set ''()'' \<Longrightarrow> c = CHR '','' \<longrightarrow> k \<noteq> 0 \<Longrightarrow> split_top k cur (c # s) = split_top k (cur @ [c]) s"
  by (auto simp: Let_def)

lemma split_top_bal: "bal d s \<Longrightarrow> split_top (int d) cur (s @ rest) = split_top 0 (cur @ s) rest"
proof (induction s arbitrary: d cur)
  case (Cons c s)
  consider "c = CHR ''(''" | "c = CHR '')''" | "c \<notin> set ''()''" by auto
  then show ?case
  proof cases
    case 1
    with Cons.prems Cons.IH [of "d + 1" "cur @ ''(''"] show ?thesis
      by (simp add: split_top_step add.commute del: split_top.simps)
  next
    case 2
    with Cons.prems have b: "bal (d - 1) s" and d: "int d - 1 = int (d - 1)" by auto
    have "split_top (int d) cur ((c # s) @ rest) = split_top (int (d - 1)) (cur @ '')'') (s @ rest)"
      unfolding 2 append_Cons split_top_step d ..
    with Cons.IH [OF b] 2 show ?thesis by simp
  next
    case 3
    with Cons.prems have "bal d s" "c = CHR '','' \<longrightarrow> int d \<noteq> 0" by auto
    with 3 Cons.IH [of d "cur @ [c]"] show ?thesis
      by (simp add: split_top_step(3) del: split_top.simps)
  qed
qed simp

lemma split_top_join: "\<forall>s \<in> set ss. bal 0 s \<Longrightarrow> ss \<noteq> [] \<Longrightarrow> split_top 0 [] (join '','' ss) = map strip ss"
proof (induction ss rule: induct_list012)
  case (2 s)
  then show ?case using split_top_bal [of 0 s "[]" "[]"] by simp
next
  case (3 s t ss)
  then show ?case using split_top_bal [of 0 s "[]" "CHR '','' # join '','' (t # ss)"] by (simp add: Let_def)
qed simp

text \<open>\<open>xs[n:]\<close> for an integer \<open>n\<close>, and \<open>s.partition(c)[2]\<close>.\<close>

definition py_suffix :: "int \<Rightarrow> 'a list \<Rightarrow> 'a list" where
  "py_suffix n xs = (if 0 \<le> n then drop (nat n) xs else drop (length xs - nat (- n)) xs)"

definition after_char :: "char \<Rightarrow> string \<Rightarrow> string" where
  "after_char c s = drop 1 (dropWhile (\<lambda>x. x \<noteq> c) s)"

end
