(* ===== verification/Unformatted.thy ===== *)
theory Unformatted
  imports Prelude "HOL-Library.Word"
begin

text \<open>
  \<open>src/dace_fortran/unformatted.py\<close>: reading and writing Fortran sequential-unformatted
  files, whose records are framed as length, payload, length.

  A file is its list of bytes. The element type is numpy's (\<open>dtype\<close>), which is not part of the
  repository: its item size, encoder and decoder are parameters of the definitions, and the
  locale \<open>dtype\<close> states what numpy documents about them. The record markers are \<open>int32\<close> in
  little-endian order (\<open>struct.pack('<i', ...)\<close>), which \<open>np.int32\<close> reads on the little-endian
  hosts the code runs on; \<open>enc_i32\<close>/\<open>dec_i32\<close> model them and are themselves an instance of
  \<open>dtype\<close>. The \<open>path\<close> argument only appears in messages and is left out.
\<close>

type_synonym byte = "8 word"

datatype unformatted_error =
    NegativeLength int
  | SmallerThanFrame nat
  | ExceedsFile nat nat
  | MarkersDisagree int int
  | TrailingBytes nat
  | TruncatedMarker nat
  | RunsPastEnd nat
  | WrongCount nat nat
  | BufferNotMultiple nat   \<comment> \<open>the \<open>ValueError\<close> of \<open>np.frombuffer\<close>\<close>
  | StructPackRange nat     \<comment> \<open>the \<open>struct.error\<close> of \<open>struct.pack\<close>\<close>

section \<open>Markers\<close>

fun le_val :: "byte list \<Rightarrow> int" where
  "le_val [] = 0"
| "le_val (b # bs) = uint b + 256 * le_val bs"

definition dec_i32 :: "byte list \<Rightarrow> int" where
  "dec_i32 bs = (let v = le_val bs in if v \<ge> 2 ^ 31 then v - 2 ^ 32 else v)"

definition enc_i32 :: "int \<Rightarrow> byte list" where
  "enc_i32 i = [word_of_int i, word_of_int (i div 256), word_of_int (i div 256 div 256),
                word_of_int (i div 256 div 256 div 256)]"

lemma length_enc_i32 [simp]: "length (enc_i32 i) = 4"
  by (simp add: enc_i32_def)

lemma le_val_enc_i32: "le_val (enc_i32 i) = i mod 2 ^ 32"
proof -
  have step: "j mod 256 + 256 * (j div 256 mod k) = j mod (256 * k)" if "0 \<le> k" for j k :: int
    using zmod_zmult2_eq [OF that, of j 256] by simp
  have u: "uint (word_of_int j :: byte) = j mod 256" for j
    by (simp add: uint_word_of_int)
  have "le_val (enc_i32 i) = i mod (256 * (256 * (256 * 256)))"
    by (simp only: enc_i32_def le_val.simps u mult_zero_right add_0_right step)
  then show ?thesis by simp
qed

lemma dec_enc_i32:
  assumes "- (2 ^ 31) \<le> i" and "i < 2 ^ 31"
  shows "dec_i32 (enc_i32 i) = i"
proof (cases "0 \<le> i")
  case True
  with assms have "i mod 2 ^ 32 = i" by simp
  with assms show ?thesis by (simp only: dec_i32_def le_val_enc_i32 Let_def) simp
next
  case False
  with assms have "(i + 2 ^ 32) mod 2 ^ 32 = i + 2 ^ 32" by (intro mod_pos_pos_trivial) simp_all
  then have "i mod 2 ^ 32 = i + 2 ^ 32" by simp
  with assms show ?thesis by (simp only: dec_i32_def le_val_enc_i32 Let_def) simp
qed

section \<open>Elements\<close>

text \<open>\<open>np.frombuffer\<close>: the buffer cut into items, each decoded.\<close>

fun chunks :: "nat \<Rightarrow> (byte list \<Rightarrow> 'v) \<Rightarrow> nat \<Rightarrow> byte list \<Rightarrow> 'v list" where
  "chunks sz dec 0 bs = []"
| "chunks sz dec (Suc n) bs = dec (take sz bs) # chunks sz dec n (drop sz bs)"

definition frombuffer ::
  "nat \<Rightarrow> (byte list \<Rightarrow> 'v) \<Rightarrow> byte list \<Rightarrow> unformatted_error + 'v list" where
  "frombuffer sz dec bs =
     (if length bs mod sz \<noteq> 0 then Inl (BufferNotMultiple (length bs))
      else Inr (chunks sz dec (length bs div sz) bs))"

locale dtype =
  fixes itemsize :: nat
    and enc :: "'v \<Rightarrow> byte list"
    and dec :: "byte list \<Rightarrow> 'v"
    and representable :: "'v \<Rightarrow> bool"
  assumes itemsize_pos: "0 < itemsize"
    and enc_length: "length (enc v) = itemsize"
    and dec_enc_item: "representable v \<Longrightarrow> dec (enc v) = v"
begin

lemma tobytes_length: "length (concat (map enc vs)) = length vs * itemsize"
  by (induction vs) (simp_all add: enc_length)

lemma chunks_tobytes:
  "\<forall>v \<in> set vs. representable v \<Longrightarrow>
     chunks itemsize dec (length vs) (concat (map enc vs)) = vs"
  by (induction vs) (simp_all add: enc_length dec_enc_item)

lemma frombuffer_tobytes:
  "\<forall>v \<in> set vs. representable v \<Longrightarrow> frombuffer itemsize dec (concat (map enc vs)) = Inr vs"
  using itemsize_pos by (simp add: frombuffer_def tobytes_length chunks_tobytes)

end

definition i32_range :: "int \<Rightarrow> bool" where
  "i32_range i = (- (2 ^ 31) \<le> i \<and> i < 2 ^ 31)"

interpretation i32: dtype 4 enc_i32 dec_i32 i32_range
  by unfold_locales (simp_all add: dec_enc_i32 i32_range_def)

section \<open>Reading and writing\<close>

definition payload_len :: "int \<Rightarrow> nat \<Rightarrow> unformatted_error + nat" where
  "payload_len marker itemsize =
     (if marker < 0 then Inl (NegativeLength marker)
      else if itemsize > 1 \<and> nat marker mod itemsize \<noteq> 0 then Inr (nat marker * itemsize)
      else Inr (nat marker))"

definition read_record ::
  "nat \<Rightarrow> (byte list \<Rightarrow> 'v) \<Rightarrow> byte list \<Rightarrow> unformatted_error + 'v list" where
  "read_record itemsize dec raw =
     (if length raw < 8 then Inl (SmallerThanFrame (length raw))
      else let head = dec_i32 (take 4 raw) in
        rbind (payload_len head itemsize) (\<lambda>n.
          if 4 + n + 4 > length raw then Inl (ExceedsFile n (length raw))
          else rbind (frombuffer itemsize dec (take n (drop 4 raw))) (\<lambda>values.
            let tail = dec_i32 (take 4 (drop (4 + n) raw)) in
            if tail \<noteq> head then Inl (MarkersDisagree head tail)
            else if 8 + n \<noteq> length raw then Inl (TrailingBytes (length raw - (8 + n)))
            else Inr values)))"

text \<open>
  The generator yields each record before it checks the record's trailing marker: the result is
  the list of what was yielded and the exception that ended the iteration, if any.
\<close>

function read_records_from ::
  "nat \<Rightarrow> (byte list \<Rightarrow> 'v) \<Rightarrow> byte list \<Rightarrow> nat \<Rightarrow> 'v list list \<times> unformatted_error option" where
  "read_records_from itemsize dec raw off =
     (if off < length raw then
        if off + 4 > length raw then ([], Some (TruncatedMarker off))
        else let head = dec_i32 (take 4 (drop off raw)) in
          (case payload_len head itemsize of
             Inl e \<Rightarrow> ([], Some e)
           | Inr n \<Rightarrow>
               if off + 8 + n > length raw then ([], Some (RunsPastEnd off))
               else (case frombuffer itemsize dec (take n (drop (off + 4) raw)) of
                  Inl e \<Rightarrow> ([], Some e)
                | Inr values \<Rightarrow>
                    let tail = dec_i32 (take 4 (drop (off + 4 + n) raw)) in
                    if tail \<noteq> head then ([values], Some (MarkersDisagree head tail))
                    else let r = read_records_from itemsize dec raw (off + 8 + n)
                         in (values # fst r, snd r)))
      else ([], None))"
  by pat_completeness auto
termination
  by (relation "measure (\<lambda>(itemsize, dec, raw, off). length raw - off)") auto

declare read_records_from.simps [simp del]

definition read_records ::
  "nat \<Rightarrow> (byte list \<Rightarrow> 'v) \<Rightarrow> byte list \<Rightarrow> 'v list list \<times> unformatted_error option" where
  "read_records itemsize dec raw = read_records_from itemsize dec raw 0"

definition write_record :: "('v \<Rightarrow> byte list) \<Rightarrow> 'v list \<Rightarrow> unformatted_error + byte list" where
  "write_record enc values =
     (let payload = concat (map enc values) in
      if length payload \<ge> 2 ^ 31 then Inl (StructPackRange (length payload))
      else let n = enc_i32 (int (length payload)) in Inr (n @ payload @ n))"

text \<open>The reshaped array is its shape and its values in the record's order.\<close>

definition read_shaped ::
  "nat \<Rightarrow> (byte list \<Rightarrow> 'v) \<Rightarrow> byte list \<Rightarrow> nat list \<Rightarrow> unformatted_error + nat list \<times> 'v list" where
  "read_shaped itemsize dec raw shape =
     rbind (read_record itemsize dec raw) (\<lambda>a.
       let want = prod_list shape in
       if length a \<noteq> want then Inl (WrongCount (length a) want) else Inr (shape, a))"

section \<open>Framing\<close>

lemma digit_unique:
  fixes a b x y :: int
  assumes "a + 256 * x = b + 256 * y" "0 \<le> a" "a < 256" "0 \<le> b" "b < 256"
  shows "a = b" "x = y"
proof -
  have "a = (a + 256 * x) mod 256" using assms(2,3) by simp
  also have "\<dots> = b" using assms(1,4,5) by simp
  finally show "a = b" .
  with assms(1) show "x = y" by simp
qed

lemma le_val_inj: "length as = length bs \<Longrightarrow> le_val as = le_val bs \<Longrightarrow> as = bs"
proof (induction as bs rule: list_induct2)
  case (Cons a as b bs)
  have "uint a < 256" "uint b < 256" "0 \<le> uint a" "0 \<le> uint b"
    using uint_lt2p [of a] uint_lt2p [of b] by simp_all
  with digit_unique [of "uint a" "le_val as" "uint b" "le_val bs"] Cons.prems
  have "uint a = uint b" "le_val as = le_val bs" by simp_all
  with Cons.IH show ?case by (simp add: word_uint_eq_iff)
qed simp

lemma le_val_bounds: "0 \<le> le_val bs \<and> le_val bs < 256 ^ length bs"
proof (induction bs)
  case (Cons b bs)
  have "uint b < 256" "0 \<le> uint b" using uint_lt2p [of b] by simp_all
  with Cons show ?case by auto
qed simp

lemma dec_i32_inj:
  assumes "length as = 4" and "length bs = 4" and "dec_i32 as = dec_i32 bs"
  shows "as = bs"
proof -
  have "le_val as < 2 ^ 32" "le_val bs < 2 ^ 32" "0 \<le> le_val as" "0 \<le> le_val bs"
    using le_val_bounds [of as] le_val_bounds [of bs] assms(1,2) by simp_all
  with assms(3) have "le_val as = le_val bs" by (simp add: dec_i32_def Let_def split: if_splits)
  with assms(1,2) show ?thesis by (intro le_val_inj) simp_all
qed

lemma read_record_frame:
  assumes "length m = 4" and "payload_len (dec_i32 m) sz = Inr (length bs)"
  shows "read_record sz dec (m @ bs @ m) = frombuffer sz dec bs"
proof -
  have "take 4 (m @ bs @ m) = m" "take (length bs) (drop 4 (m @ bs @ m)) = bs"
    "take 4 (drop (4 + length bs) (m @ bs @ m)) = m"
    using assms(1) by simp_all
  with assms show ?thesis
    by (cases "frombuffer sz dec bs") (simp_all add: read_record_def Let_def)
qed

lemma read_record_inv:
  assumes "read_record sz dec raw = Inr vs"
  shows "\<exists>m bs. raw = m @ bs @ m \<and> length m = 4 \<and>
    payload_len (dec_i32 m) sz = Inr (length bs) \<and> frombuffer sz dec bs = Inr vs"
proof -
  define m where "m = take 4 raw"
  from assms obtain n where n: "payload_len (dec_i32 m) sz = Inr n" "length raw = 8 + n"
    "frombuffer sz dec (take n (drop 4 raw)) = Inr vs"
    "dec_i32 (take 4 (drop (4 + n) raw)) = dec_i32 m"
    by (auto simp: read_record_def Let_def m_def rbind_Inr_iff split: if_splits)
  define bs where "bs = take n (drop 4 raw)"
  have "take 4 (drop (4 + n) raw) = m"
    using n(2,4) by (intro dec_i32_inj) (simp_all add: m_def)
  then have "drop (4 + n) raw = m"
    using n(2) by simp
  moreover have "raw = m @ bs @ drop (4 + n) raw"
    by (metis m_def bs_def append_take_drop_id drop_drop add.commute)
  ultimately have "raw = m @ bs @ m" by simp
  moreover have "length m = 4" "length bs = n" using n(2) by (simp_all add: m_def bs_def)
  moreover have "frombuffer sz dec bs = Inr vs" using n(3) by (simp add: bs_def)
  ultimately show ?thesis using n(1) by (intro exI [of _ m] exI [of _ bs]) simp
qed

lemma payload_len_multiple: "L mod sz = 0 \<Longrightarrow> payload_len (int L) sz = Inr L"
  by (simp add: payload_len_def)

context dtype
begin

lemma write_record_frame:
  assumes "length vs * itemsize < 2 ^ 31"
  shows "\<exists>m. length m = 4 \<and> write_record enc vs = Inr (m @ concat (map enc vs) @ m) \<and>
    payload_len (dec_i32 m) itemsize = Inr (length (concat (map enc vs)))"
proof -
  let ?L = "length (concat (map enc vs))"
  have "?L < 2 ^ 31" "?L mod itemsize = 0" using assms by (simp_all add: tobytes_length)
  then have "dec_i32 (enc_i32 (int ?L)) = int ?L" by (intro dec_enc_i32) simp_all
  with \<open>?L < 2 ^ 31\<close> \<open>?L mod itemsize = 0\<close> show ?thesis
    by (intro exI [of _ "enc_i32 (int ?L)"])
      (simp add: write_record_def Let_def payload_len_multiple del: length_concat)
qed

lemma write_read:
  assumes "\<forall>v \<in> set vs. representable v" and "length vs * itemsize < 2 ^ 31"
  shows "rbind (write_record enc vs) (read_record itemsize dec) = Inr vs"
proof -
  from write_record_frame [OF assms(2)] obtain m where
    "length m = 4" "write_record enc vs = Inr (m @ concat (map enc vs) @ m)"
    "payload_len (dec_i32 m) itemsize = Inr (length (concat (map enc vs)))" by blast
  then show ?thesis by (simp add: read_record_frame frombuffer_tobytes [OF assms(1)])
qed

lemma read_records_append:
  assumes "\<forall>v \<in> set vs. representable v" and "length vs * itemsize < 2 ^ 31"
    and "write_record enc vs = Inr r"
  shows "read_records_from itemsize dec (pre @ r @ rest) (length pre) =
    (vs # fst (read_records_from itemsize dec (pre @ r @ rest) (length (pre @ r))),
     snd (read_records_from itemsize dec (pre @ r @ rest) (length (pre @ r))))"
proof -
  let ?b = "concat (map enc vs)"
  from write_record_frame [OF assms(2)] assms(3) obtain m where m: "length m = 4"
    "r = m @ ?b @ m" "payload_len (dec_i32 m) itemsize = Inr (length ?b)" by auto
  let ?raw = "pre @ r @ rest" and ?off = "length pre"
  have cut: "take 4 (drop ?off ?raw) = m" "take (length ?b) (drop (?off + 4) ?raw) = ?b"
    "take 4 (drop (?off + 4 + length ?b) ?raw) = m" "?off + 8 + length ?b = length (pre @ r)"
    using m(1,2) by simp_all
  have fit: "?off < length ?raw" "\<not> ?off + 4 > length ?raw" "\<not> length (pre @ r) > length ?raw"
    using m(1,2) by simp_all
  show ?thesis
    by (subst read_records_from.simps)
      (simp only: fit cut m(3) if_True if_False Let_def sum.case frombuffer_tobytes [OF assms(1)]
        simp_thms)
qed

lemma read_records_written:
  assumes "\<forall>vs \<in> set rs. (\<forall>v \<in> set vs. representable v) \<and> length vs * itemsize < 2 ^ 31"
    and "rmap (write_record enc) rs = Inr files"
  shows "read_records itemsize dec (concat files) = (rs, None)"
proof -
  have "read_records_from itemsize dec (pre @ concat files) (length pre) = (rs, None)" for pre
    using assms
  proof (induction rs arbitrary: files pre)
    case Nil
    then show ?case by (subst read_records_from.simps) simp
  next
    case (Cons vs rs)
    from Cons.prems(2) obtain r files' where f: "files = r # files'" "write_record enc vs = Inr r"
      "rmap (write_record enc) rs = Inr files'" by (auto simp: rbind_Inr_iff)
    have "read_records_from itemsize dec ((pre @ r) @ concat files') (length (pre @ r)) = (rs, None)"
      by (rule Cons.IH) (use Cons.prems(1) f in auto)
    with read_records_append [of vs r pre "concat files'"] Cons.prems(1) f show ?case by simp
  qed
  from this [of "[]"] show ?thesis by (simp add: read_records_def)
qed

end

section \<open>Properties\<close>

text \<open>A record written by \<open>write_record\<close> is read back by \<open>read_record\<close>: for every element
  type that meets numpy's contract and every list of values whose bytes fit the int32 marker,
  reading the written bytes returns exactly the values.\<close>

theorem write_read_record:
  assumes "dtype itemsize enc dec representable"
    and "\<forall>v \<in> set vs. representable v" and "length vs * itemsize < 2 ^ 31"
  shows "rbind (write_record enc vs) (read_record itemsize dec) = Inr vs"
  using dtype.write_read [OF assms] .

theorem write_read_record_witness:
  "rbind (write_record enc_i32 [7, - 3, 2147483647]) (read_record 4 dec_i32) = Inr [7, - 3, 2147483647]"
  by (rule write_read_record [OF i32.dtype_axioms]) (simp_all add: i32_range_def)

text \<open>\<open>read_record\<close> returns values exactly for a well-framed file: the same four marker bytes
  before and after a payload of the length the marker stands for, nothing else in the file, and
  the values are the payload's items. A file with disagreeing markers, a truncated payload or
  trailing bytes is never read.\<close>

theorem read_record_iff_framed:
  "read_record sz dec raw = Inr vs \<longleftrightarrow>
     (\<exists>m bs. raw = m @ bs @ m \<and> length m = 4 \<and>
        payload_len (dec_i32 m) sz = Inr (length bs) \<and> frombuffer sz dec bs = Inr vs)"
  using read_record_inv read_record_frame by metis

text \<open>A file made of several written records is read back by \<open>read_records\<close> record by record,
  in order, with no error at the end.\<close>

theorem read_records_of_written:
  assumes "dtype itemsize enc dec representable"
    and "\<forall>vs \<in> set rs. (\<forall>v \<in> set vs. representable v) \<and> length vs * itemsize < 2 ^ 31"
    and "rmap (write_record enc) rs = Inr files"
  shows "read_records itemsize dec (concat files) = (rs, None)"
  using dtype.read_records_written [OF assms] .

theorem read_records_of_written_witness:
  "rmap (write_record enc_i32) [[1, 2], [], [- 5]] =
     Inr [enc_i32 8 @ enc_i32 1 @ enc_i32 2 @ enc_i32 8, enc_i32 0 @ enc_i32 0,
          enc_i32 4 @ enc_i32 (- 5) @ enc_i32 4] \<and>
   read_records 4 dec_i32 (concat [enc_i32 8 @ enc_i32 1 @ enc_i32 2 @ enc_i32 8,
      enc_i32 0 @ enc_i32 0, enc_i32 4 @ enc_i32 (- 5) @ enc_i32 4]) = ([[1, 2], [], [- 5]], None)"
proof -
  have w: "rmap (write_record enc_i32) [[1, 2], [], [- 5]] =
     Inr [enc_i32 8 @ enc_i32 1 @ enc_i32 2 @ enc_i32 8, enc_i32 0 @ enc_i32 0,
          enc_i32 4 @ enc_i32 (- 5) @ enc_i32 4]"
    by (simp add: write_record_def Let_def)
  show ?thesis
    by (rule conjI [OF w], rule read_records_of_written [OF i32.dtype_axioms _ w])
      (simp add: i32_range_def)
qed

text \<open>A record framed by its element count is refused, never misread, when the count happens to be
  a multiple of the item size: the count is then taken for a byte count and the file does not
  have that size.\<close>

theorem element_count_multiple_refused:
  assumes "1 < sz" and "0 < k" and "k mod sz = 0" and "k < 2 ^ 31" and "length bs = k * sz"
  shows "\<not> is_ok (read_record sz dec (enc_i32 (int k) @ bs @ enc_i32 (int k)))"
proof
  let ?raw = "enc_i32 (int k) @ bs @ enc_i32 (int k)"
  assume "is_ok (read_record sz dec ?raw)"
  then obtain vs where "read_record sz dec ?raw = Inr vs" by (auto simp: is_ok_iff)
  then obtain m cs where "?raw = m @ cs @ m" "length m = 4"
    and p: "payload_len (dec_i32 m) sz = Inr (length cs)"
    by (blast dest: read_record_inv)
  then have "m = enc_i32 (int k)" and len: "length cs = length bs"
    by (auto simp: append_eq_append_conv dest!: arg_cong [where f = length])
  have "dec_i32 (enc_i32 (int k)) = int k" using assms(4) by (intro dec_enc_i32) simp_all
  with p \<open>m = enc_i32 (int k)\<close> assms(3) have "length cs = k" by (simp add: payload_len_multiple)
  with len assms show False by simp
qed

theorem element_count_multiple_refused_witness:
  "\<not> is_ok (read_record 2 (\<lambda>bs. bs) (enc_i32 (int 2) @ [1, 2, 3, 4] @ enc_i32 (int 2)))"
  by (rule element_count_multiple_refused) simp_all

end
