(* ===== verification/Json.thy ===== *)
theory Json
  imports Prelude
begin

text \<open>
  The JSON-safe values that the \<open>to_dict\<close> methods build and the \<open>from_dict\<close> methods read, and
  the Python accesses to them. A dictionary is an association list in insertion order.

  Python does not check that a value read from a dictionary has the type its dataclass field is
  annotated with; a typed model has to, and answers \<open>IllTyped\<close> there.
\<close>

datatype json =
    JNull
  | JBool bool
  | JInt int
  | JStr string
  | JList "json list"
  | JObj "(string \<times> json) list"

datatype py_error =
    KeyError string
  | MissingArgument string      \<comment> \<open>\<open>TypeError\<close> of a constructor call\<close>
  | UnexpectedArgument string   \<comment> \<open>\<open>TypeError\<close> of a constructor call\<close>
  | ValueError string
  | IndexError
  | StopIteration
  | IllTyped

type_synonym 'a py = "py_error + 'a"

section \<open>Reading\<close>

fun j_str :: "json \<Rightarrow> string py" where
  "j_str (JStr s) = Inr s"
| "j_str _ = Inl IllTyped"

fun j_int :: "json \<Rightarrow> int py" where
  "j_int (JInt i) = Inr i"
| "j_int _ = Inl IllTyped"

fun j_bool :: "json \<Rightarrow> bool py" where
  "j_bool (JBool b) = Inr b"
| "j_bool _ = Inl IllTyped"

fun j_opt_str :: "json \<Rightarrow> string option py" where
  "j_opt_str JNull = Inr None"
| "j_opt_str (JStr s) = Inr (Some s)"
| "j_opt_str _ = Inl IllTyped"

fun j_list :: "(json \<Rightarrow> 'a py) \<Rightarrow> json \<Rightarrow> 'a list py" where
  "j_list f (JList xs) = rmap f xs"
| "j_list f _ = Inl IllTyped"

fun j_dict :: "(json \<Rightarrow> 'a py) \<Rightarrow> json \<Rightarrow> (string \<times> 'a) list py" where
  "j_dict f (JObj d) = rmap (\<lambda>(k, v). rbind (f v) (\<lambda>x. Inr (k, x))) d"
| "j_dict f _ = Inl IllTyped"

fun j_obj :: "json \<Rightarrow> (string \<times> json) list py" where
  "j_obj (JObj d) = Inr d"
| "j_obj _ = Inl IllTyped"

text \<open>\<open>d[k]\<close>, \<open>d.get(k, default)\<close> and a required keyword argument of a constructor.\<close>

definition j_item :: "string \<Rightarrow> (json \<Rightarrow> 'a py) \<Rightarrow> (string \<times> json) list \<Rightarrow> 'a py" where
  "j_item k f d = (case map_of d k of None \<Rightarrow> Inl (KeyError k) | Some v \<Rightarrow> f v)"

definition j_get :: "string \<Rightarrow> 'a \<Rightarrow> (json \<Rightarrow> 'a py) \<Rightarrow> (string \<times> json) list \<Rightarrow> 'a py" where
  "j_get k x f d = (case map_of d k of None \<Rightarrow> Inr x | Some v \<Rightarrow> f v)"

definition j_kwarg :: "string \<Rightarrow> (json \<Rightarrow> 'a py) \<Rightarrow> (string \<times> json) list \<Rightarrow> 'a py" where
  "j_kwarg k f d = (case map_of d k of None \<Rightarrow> Inl (MissingArgument k) | Some v \<Rightarrow> f v)"

text \<open>The keys of \<open>cls(**d)\<close> have to be fields of the class.\<close>

definition only_fields :: "string list \<Rightarrow> (string \<times> json) list \<Rightarrow> unit py" where
  "only_fields fields d =
     (case filter (\<lambda>k. k \<notin> set fields) (map fst d) of
        [] \<Rightarrow> Inr () | k # _ \<Rightarrow> Inl (UnexpectedArgument k))"

definition j_strs :: "string list \<Rightarrow> json" where
  "j_strs xs = JList (map JStr xs)"

fun opt_json :: "string option \<Rightarrow> json" where
  "opt_json None = JNull"
| "opt_json (Some s) = JStr s"

lemma j_list_strs [simp]: "j_list j_str (j_strs xs) = Inr xs"
  unfolding j_strs_def j_list.simps by (induction xs) simp_all

lemma j_opt_str_opt [simp]: "j_opt_str (opt_json x) = Inr x"
  by (cases x) simp_all

lemma j_dict_map:
  "\<forall>(k, x) \<in> set xs. f (g x) = Inr x \<Longrightarrow>
     j_dict f (JObj (map (\<lambda>(k, x). (k, g x)) xs)) = Inr xs"
  unfolding j_dict.simps by (induction xs) auto

end
