(* ===== verification/Regex.thy ===== *)
theory Regex
  imports Prelude
begin

text \<open>
  The part of Python's \<open>re\<close> module the sources use: a backtracking matcher with captures, and a
  declarative (set-valued) semantics it is proved against.

  A position in the text is the character before it (\<open>None\<close> at the start) and the text that is
  left. The matcher takes a continuation, tries alternatives in the order of the pattern and
  backtracks into earlier choices when the continuation fails, as \<open>sre\<close> does. A repetition goes
  round again only after an iteration that consumed something; no pattern of the sources repeats
  a nullable pattern.
\<close>

section \<open>Patterns\<close>

datatype regex =
    Eps
  | Cls bool "(int \<times> int) list"  \<comment> \<open>a character class, negated if the flag is set\<close>
  | Seq regex regex
  | Alt regex regex
  | Star bool regex               \<comment> \<open>greedy if the flag is set, lazy otherwise\<close>
  | Grp nat regex
  | Bol
  | Eol
  | Wordb
  | Look bool regex               \<comment> \<open>lookahead, negative if the flag is not set\<close>
  | NBehind "(int \<times> int) list"    \<comment> \<open>negative lookbehind for one character\<close>

type_synonym pos = "char option \<times> string"
type_synonym caps = "(nat \<times> nat \<times> string) list"
type_synonym outcome = "(pos \<times> caps) option"

definition in_cls :: "bool \<Rightarrow> (int \<times> int) list \<Rightarrow> char \<Rightarrow> bool" where
  "in_cls neg rs c = (in_ranges rs (code c) \<noteq> neg)"

definition opt_word :: "char option \<Rightarrow> bool" where
  "opt_word q = (case q of None \<Rightarrow> False | Some c \<Rightarrow> is_word c)"

definition next_char :: "string \<Rightarrow> char option" where
  "next_char u = (case u of [] \<Rightarrow> None | c # _ \<Rightarrow> Some c)"

definition at_end :: "string \<Rightarrow> bool" where
  "at_end u = (u = [] \<or> u = [LF])"

abbreviation left :: "pos \<Rightarrow> nat" where
  "left p \<equiv> length (snd p)"

text \<open>What a group records: where it starts, counted from the end of the text, and its text.\<close>

definition mk_cap :: "nat \<Rightarrow> pos \<Rightarrow> pos \<Rightarrow> nat \<times> nat \<times> string" where
  "mk_cap g p p' = (g, left p, take (left p - left p') (snd p))"

section \<open>The matcher\<close>

primrec star_m ::
  "bool \<Rightarrow> (pos \<Rightarrow> caps \<Rightarrow> (pos \<Rightarrow> caps \<Rightarrow> outcome) \<Rightarrow> outcome) \<Rightarrow> nat \<Rightarrow>
   pos \<Rightarrow> caps \<Rightarrow> (pos \<Rightarrow> caps \<Rightarrow> outcome) \<Rightarrow> outcome" where
  "star_m g m 0 p c k = k p c"
| "star_m g m (Suc n) p c k =
     (if g then
        (case m p c (\<lambda>p' c'. if left p' < left p then star_m g m n p' c' k else None) of
           None \<Rightarrow> k p c | Some r \<Rightarrow> Some r)
      else
        (case k p c of
           None \<Rightarrow> m p c (\<lambda>p' c'. if left p' < left p then star_m g m n p' c' k else None)
         | Some r \<Rightarrow> Some r))"

primrec re_m :: "regex \<Rightarrow> pos \<Rightarrow> caps \<Rightarrow> (pos \<Rightarrow> caps \<Rightarrow> outcome) \<Rightarrow> outcome" where
  "re_m Eps p c k = k p c"
| "re_m (Cls neg rs) p c k =
     (case snd p of [] \<Rightarrow> None | x # u \<Rightarrow> (if in_cls neg rs x then k (Some x, u) c else None))"
| "re_m (Seq a b) p c k = re_m a p c (\<lambda>p' c'. re_m b p' c' k)"
| "re_m (Alt a b) p c k = (case re_m a p c k of None \<Rightarrow> re_m b p c k | Some r \<Rightarrow> Some r)"
| "re_m (Star g r) p c k = star_m g (re_m r) (Suc (left p)) p c k"
| "re_m (Grp n r) p c k = re_m r p c (\<lambda>p' c'. k p' (mk_cap n p p' # c'))"
| "re_m Bol p c k = (if fst p = None then k p c else None)"
| "re_m Eol p c k = (if at_end (snd p) then k p c else None)"
| "re_m Wordb p c k = (if opt_word (fst p) \<noteq> opt_word (next_char (snd p)) then k p c else None)"
| "re_m (Look b r) p c k =
     (if (re_m r p c (\<lambda>p' c'. Some (p', c')) \<noteq> None) = b then k p c else None)"
| "re_m (NBehind rs) p c k =
     (if (case fst p of None \<Rightarrow> True | Some x \<Rightarrow> \<not> in_cls False rs x) then k p c else None)"

section \<open>Declarative semantics\<close>

primrec re_set :: "regex \<Rightarrow> pos \<times> caps \<Rightarrow> (pos \<times> caps) set" where
  "re_set Eps x = {x}"
| "re_set (Cls neg rs) x =
     (case snd (fst x) of [] \<Rightarrow> {} | y # u \<Rightarrow> (if in_cls neg rs y then {((Some y, u), snd x)} else {}))"
| "re_set (Seq a b) x = (\<Union>y \<in> re_set a x. re_set b y)"
| "re_set (Alt a b) x = re_set a x \<union> re_set b x"
| "re_set (Star g r) x = {(a, b). b \<in> re_set r a \<and> left (fst b) < left (fst a)}\<^sup>* `` {x}"
| "re_set (Grp n r) x = (\<lambda>y. (fst y, mk_cap n (fst x) (fst y) # snd y)) ` re_set r x"
| "re_set Bol x = (if fst (fst x) = None then {x} else {})"
| "re_set Eol x = (if at_end (snd (fst x)) then {x} else {})"
| "re_set Wordb x =
     (if opt_word (fst (fst x)) \<noteq> opt_word (next_char (snd (fst x))) then {x} else {})"
| "re_set (Look b r) x = (if (re_set r x \<noteq> {}) = b then {x} else {})"
| "re_set (NBehind rs) x =
     (if (case fst (fst x) of None \<Rightarrow> True | Some y \<Rightarrow> \<not> in_cls False rs y) then {x} else {})"

definition loop_rel :: "(pos \<times> caps \<Rightarrow> (pos \<times> caps) set) \<Rightarrow> ((pos \<times> caps) \<times> (pos \<times> caps)) set" where
  "loop_rel M = {(a, b). b \<in> M a \<and> left (fst b) < left (fst a)}"

lemma re_set_Star: "re_set (Star g r) x = (loop_rel (re_set r))\<^sup>* `` {x}"
  by (simp add: loop_rel_def)

lemma loop_unfold:
  "(loop_rel M)\<^sup>* `` {x} = insert x (\<Union>y \<in> {y \<in> M x. left (fst y) < left (fst x)}. (loop_rel M)\<^sup>* `` {y})"
  (is "?L = ?R")
proof (rule set_eqI)
  fix z
  show "z \<in> ?L \<longleftrightarrow> z \<in> ?R"
    by (auto simp: loop_rel_def intro: converse_rtrancl_into_rtrancl elim: converse_rtranclE)
qed

lemma star_m_None:
  assumes m: "\<And>p c k. m p c k = None \<longleftrightarrow> (\<forall>(p', c') \<in> M (p, c). k p' c' = None)"
    and "left p < n"
  shows "star_m g m n p c k = None \<longleftrightarrow> (\<forall>(p', c') \<in> (loop_rel M)\<^sup>* `` {(p, c)}. k p' c' = None)"
  using assms(2)
proof (induction n arbitrary: p c)
  case (Suc n)
  let ?body = "\<lambda>p' c'. if left p' < left p then star_m g m n p' c' k else None"
  have "m p c ?body = None \<longleftrightarrow> (\<forall>(p', c') \<in> M (p, c). left p' < left p \<longrightarrow> star_m g m n p' c' k = None)"
    by (auto simp: m split: if_splits)
  also have "\<dots> \<longleftrightarrow> (\<forall>(p', c') \<in> M (p, c). left p' < left p \<longrightarrow>
      (\<forall>(p'', c'') \<in> (loop_rel M)\<^sup>* `` {(p', c')}. k p'' c'' = None))"
    using Suc.prems by (intro ball_cong refl) (auto simp: Suc.IH)
  finally have body: "m p c ?body = None \<longleftrightarrow> \<dots>" .
  have "star_m g m (Suc n) p c k = None \<longleftrightarrow> m p c ?body = None \<and> k p c = None"
    by (auto split: option.splits)
  also have "\<dots> \<longleftrightarrow> (\<forall>(p', c') \<in> (loop_rel M)\<^sup>* `` {(p, c)}. k p' c' = None)"
    unfolding body loop_unfold [of M "(p, c)"]
    by (auto simp: split_beta simp del: split_paired_All Image_singleton_iff)
  finally show ?case .
qed simp

lemma star_m_Some:
  assumes m: "\<And>p c k x. m p c k = Some x \<Longrightarrow> \<exists>(p', c') \<in> M (p, c). k p' c' = Some x"
    and "star_m g m n p c k = Some x"
  shows "\<exists>(p', c') \<in> (loop_rel M)\<^sup>* `` {(p, c)}. k p' c' = Some x"
  using assms(2)
proof (induction n arbitrary: p c)
  case 0
  then show ?case by auto
next
  case (Suc n)
  let ?body = "\<lambda>p' c'. if left p' < left p then star_m g m n p' c' k else None"
  from Suc.prems consider "k p c = Some x" | "m p c ?body = Some x"
    by (auto split: if_splits option.splits)
  then show ?case
  proof cases
    case 2
    from m [OF this] obtain p' c' where s: "(p', c') \<in> M (p, c)" "left p' < left p"
      "star_m g m n p' c' k = Some x"
      by (auto split: if_splits)
    from Suc.IH [OF s(3)] show ?thesis
      using s(1,2) by (subst loop_unfold) (fastforce simp: split_beta)
  qed auto
qed

text \<open>The matcher fails exactly when no way of matching lets the rest succeed.\<close>

lemma re_m_None: "re_m r p c k = None \<longleftrightarrow> (\<forall>(p', c') \<in> re_set r (p, c). k p' c' = None)"
proof (induction r arbitrary: p c k)
  case (Cls neg rs)
  then show ?case by (auto split: list.splits)
next
  case (Seq a b)
  then show ?case by (simp add: split_beta)
next
  case (Alt a b)
  have "re_m (Alt a b) p c k = None \<longleftrightarrow> re_m a p c k = None \<and> re_m b p c k = None"
    by (auto split: option.splits)
  then show ?case unfolding Alt.IH by (simp only: re_set.simps ball_Un)
next
  case (Star g r)
  show ?case
    unfolding re_m.simps re_set_Star
    by (rule star_m_None) (auto simp: Star.IH)
next
  case (Grp n r)
  then show ?case by (auto simp: split_beta)
next
  case (Look b r)
  have "(re_m r p c (\<lambda>p' c'. Some (p', c')) \<noteq> None) = (re_set r (p, c) \<noteq> {})"
    by (auto simp: Look.IH split_beta)
  then show ?case by auto
qed auto

lemma re_m_Some:
  "re_m r p c k = Some x \<Longrightarrow> \<exists>(p', c') \<in> re_set r (p, c). k p' c' = Some x"
proof (induction r arbitrary: p c k x)
  case (Cls neg rs)
  then show ?case by (auto split: list.splits if_splits)
next
  case (Seq a b)
  from Seq.IH(1) [of p c "\<lambda>p' c'. re_m b p' c' k" x] Seq.prems obtain y where
    y: "y \<in> re_set a (p, c)" "re_m b (fst y) (snd y) k = Some x" by (auto simp: split_beta)
  from Seq.IH(2) [OF y(2)] have "\<exists>z \<in> re_set b y. case z of (p', c') \<Rightarrow> k p' c' = Some x"
    by simp
  with y(1) show ?case by (simp only: re_set.simps) blast
next
  case (Alt a b)
  show ?case
  proof (cases "re_m a p c k")
    case None
    with Alt.prems have "re_m b p c k = Some x" by simp
    from Alt.IH(2) [OF this] show ?thesis by auto
  next
    case (Some y)
    with Alt.prems have "re_m a p c k = Some x" by simp
    from Alt.IH(1) [OF this] show ?thesis by auto
  qed
next
  case (Star g r)
  show ?case
    unfolding re_set_Star
    by (rule star_m_Some [where m = "re_m r" and n = "Suc (left p)" and g = g])
      (rule Star.IH, assumption, use Star.prems in simp)
next
  case (Grp n r)
  from Grp.IH [of p c "\<lambda>p' c'. k p' (mk_cap n p p' # c')"] Grp.prems show ?case
    by (auto simp: split_beta)
next
  case (Look b r)
  then show ?case by (auto simp: re_m_None split: if_splits)
qed (auto split: if_splits)

text \<open>A match only moves forward in the text.\<close>

definition adv :: "pos \<Rightarrow> pos \<Rightarrow> bool" where
  "adv p p' = (\<exists>w. snd p = w @ snd p' \<and> fst p' = (if w = [] then fst p else Some (last w)))"

lemma adv_refl [simp]: "adv p p"
  by (simp add: adv_def)

lemma adv_trans [trans]:
  assumes "adv p q" and "adv q r"
  shows "adv p r"
proof -
  from assms obtain v w where "snd p = v @ snd q" "fst q = (if v = [] then fst p else Some (last v))"
    and "snd q = w @ snd r" "fst r = (if w = [] then fst q else Some (last w))"
    by (auto simp: adv_def)
  then show ?thesis
    unfolding adv_def by (intro exI [of _ "v @ w"]) simp
qed

lemma adv_step: "adv (q, x # u) (Some x, u)"
  by (simp add: adv_def)

lemma adv_left: "adv p p' \<Longrightarrow> left p' \<le> left p"
  by (auto simp: adv_def)

lemma re_set_adv: "y \<in> re_set r x \<Longrightarrow> adv (fst x) (fst y)"
proof (induction r arbitrary: x y)
  case (Cls neg rs)
  show ?case
  proof (cases "snd (fst x)")
    case (Cons a u)
    have "fst x = (fst (fst x), a # u)" by (simp add: Cons [symmetric])
    with Cls Cons show ?thesis using adv_step [of "fst (fst x)" a u] by (simp split: if_splits)
  qed (use Cls in simp)
next
  case (Seq a b)
  then obtain z where "z \<in> re_set a x" "y \<in> re_set b z" by auto
  then show ?case using Seq.IH adv_trans by blast
next
  case (Star g r)
  from Star.prems have "(x, y) \<in> (loop_rel (re_set r))\<^sup>*" by (simp add: loop_rel_def)
  then show ?case
    by (induction rule: rtrancl_induct) (auto simp: loop_rel_def intro: adv_trans Star.IH)
qed (auto split: if_splits)

section \<open>Compiled patterns\<close>

text \<open>A successful match: where it starts and ends in the text, its text and its groups.\<close>

record rmatch =
  m_start :: nat
  m_end :: nat
  m_text :: string
  m_caps :: caps

definition mk_match :: "nat \<Rightarrow> pos \<Rightarrow> pos \<times> caps \<Rightarrow> rmatch" where
  "mk_match n p r =
     \<lparr>m_start = n - left p, m_end = n - left (fst r),
      m_text = take (left p - left (fst r)) (snd p),
      m_caps = map (\<lambda>(g, l, t). (g, n - l, t)) (snd r)\<rparr>"

definition re_at :: "regex \<Rightarrow> pos \<Rightarrow> outcome" where
  "re_at r p = re_m r p [] (\<lambda>p' c'. Some (p', c'))"

text \<open>\<open>pattern.match(s)\<close>.\<close>

definition re_match :: "regex \<Rightarrow> string \<Rightarrow> rmatch option" where
  "re_match r s = map_option (mk_match (length s) (None, s)) (re_at r (None, s))"

fun re_find :: "regex \<Rightarrow> nat \<Rightarrow> char option \<Rightarrow> string \<Rightarrow> (rmatch \<times> pos) option" where
  "re_find r n q u =
     (case re_at r (q, u) of
        Some x \<Rightarrow> Some (mk_match n (q, u) x, fst x)
      | None \<Rightarrow> (case u of [] \<Rightarrow> None | c # t \<Rightarrow> re_find r n (Some c) t))"

declare re_find.simps [simp del]

definition pos_at :: "string \<Rightarrow> nat \<Rightarrow> char option" where
  "pos_at s i = (if i = 0 then None else if i \<le> length s then Some (s ! (i - 1)) else None)"

text \<open>\<open>pattern.search(s, i)\<close> and \<open>pattern.search(s)\<close>.\<close>

definition re_search_from :: "regex \<Rightarrow> string \<Rightarrow> nat \<Rightarrow> rmatch option" where
  "re_search_from r s i = map_option fst (re_find r (length s) (pos_at s i) (drop i s))"

definition re_search :: "regex \<Rightarrow> string \<Rightarrow> rmatch option" where
  "re_search r s = re_search_from r s 0"

text \<open>
  One left-to-right pass over the text: the characters outside every match and the matches, none
  overlapping another. \<open>pattern.finditer\<close> returns the matches, \<open>pattern.sub\<close> the text with
  every match replaced.
\<close>

function re_scan :: "regex \<Rightarrow> nat \<Rightarrow> char option \<Rightarrow> string \<Rightarrow> (char + rmatch) list" where
  "re_scan r n q u =
     (case re_at r (q, u) of
        Some x \<Rightarrow>
          Inr (mk_match n (q, u) x) #
            (if left (fst x) < length u then re_scan r n (fst (fst x)) (snd (fst x))
             else (case u of [] \<Rightarrow> [] | c # t \<Rightarrow> Inl c # re_scan r n (Some c) t))
      | None \<Rightarrow> (case u of [] \<Rightarrow> [] | c # t \<Rightarrow> Inl c # re_scan r n (Some c) t))"
  by pat_completeness auto
termination
  by (relation "measure (\<lambda>(r, n, q, u). length u)") auto

declare re_scan.simps [simp del]

fun matches :: "(char + rmatch) list \<Rightarrow> rmatch list" where
  "matches [] = []"
| "matches (Inl c # xs) = matches xs"
| "matches (Inr m # xs) = m # matches xs"

definition re_finditer :: "regex \<Rightarrow> string \<Rightarrow> rmatch list" where
  "re_finditer r s = matches (re_scan r (length s) None s)"

definition re_sub :: "(rmatch \<Rightarrow> string) \<Rightarrow> regex \<Rightarrow> string \<Rightarrow> string" where
  "re_sub f r s = concat (map (case_sum (\<lambda>c. [c]) f) (re_scan r (length s) None s))"

text \<open>\<open>pattern.sub(f, s)\<close> for a replacement function that may raise.\<close>

definition re_sub_res :: "(rmatch \<Rightarrow> 'e + string) \<Rightarrow> regex \<Rightarrow> string \<Rightarrow> 'e + string" where
  "re_sub_res f r s =
     rbind (rmap (case_sum (\<lambda>c. Inr [c]) f) (re_scan r (length s) None s)) (\<lambda>ps. Inr (concat ps))"

text \<open>\<open>pattern.sub(f, s, count=1)\<close>.\<close>

definition re_sub_first :: "(rmatch \<Rightarrow> string) \<Rightarrow> regex \<Rightarrow> string \<Rightarrow> string" where
  "re_sub_first f r s =
     (case re_search r s of
        None \<Rightarrow> s
      | Some m \<Rightarrow> take (m_start m) s @ f m @ drop (m_end m) s)"

text \<open>\<open>m.group(g)\<close>, the same with the empty string for a group that took no part, and
  \<open>m.start(g)\<close>.\<close>

definition grp :: "rmatch \<Rightarrow> nat \<Rightarrow> string option" where
  "grp m g = map_option snd (map_of (m_caps m) g)"

definition grp0 :: "rmatch \<Rightarrow> nat \<Rightarrow> string" where
  "grp0 m g = (case grp m g of None \<Rightarrow> [] | Some t \<Rightarrow> t)"

definition grp_start :: "rmatch \<Rightarrow> nat \<Rightarrow> nat" where
  "grp_start m g = (case map_of (m_caps m) g of None \<Rightarrow> 0 | Some (i, _) \<Rightarrow> i)"

section \<open>Building patterns\<close>

definition chr_re :: "char \<Rightarrow> regex" where
  "chr_re c = Cls False [(code c, code c)]"

text \<open>One letter under \<open>re.IGNORECASE\<close>.\<close>

definition ichr_re :: "char \<Rightarrow> regex" where
  "ichr_re c =
     (let n = code (lower_char c) in
      if in_ranges [(97, 122)] n then Cls False [(n, n), (n - 32, n - 32)] else Cls False [(n, n)])"

fun seqs :: "regex list \<Rightarrow> regex" where
  "seqs [] = Eps"
| "seqs [r] = r"
| "seqs (r # s # rs) = Seq r (seqs (s # rs))"

fun alts :: "regex list \<Rightarrow> regex" where
  "alts [] = Cls False []"
| "alts [r] = r"
| "alts (r # s # rs) = Alt r (alts (s # rs))"

definition lit :: "string \<Rightarrow> regex" where
  "lit s = seqs (map chr_re s)"

definition ilit :: "string \<Rightarrow> regex" where
  "ilit s = seqs (map ichr_re s)"

definition many :: "regex \<Rightarrow> regex" where
  "many r = Star True r"

definition some1 :: "regex \<Rightarrow> regex" where
  "some1 r = Seq r (Star True r)"

definition opt :: "regex \<Rightarrow> regex" where
  "opt r = Alt r Eps"

definition re_space :: regex where "re_space = Cls False space_ranges"
definition re_digit :: regex where "re_digit = Cls False digit_ranges"
definition re_word :: regex where "re_word = Cls False word_ranges"
definition re_nonspace :: regex where "re_nonspace = Cls True space_ranges"
definition re_dot :: regex where "re_dot = Cls True [(10, 10)]"

text \<open>\<open>[A-Za-z_]\<close>, with and without \<open>re.IGNORECASE\<close> the same set.\<close>

definition re_ident_start :: regex where
  "re_ident_start = Cls False [(65, 90), (97, 122), (95, 95)]"

lemmas re_build = lit_def ilit_def chr_re_def ichr_re_def many_def some1_def opt_def
  re_space_def re_digit_def re_word_def re_nonspace_def re_dot_def re_ident_start_def

section \<open>Facts about matches\<close>

lemma re_at_None_iff: "re_at r p = None \<longleftrightarrow> re_set r (p, []) = {}"
  by (auto simp: re_at_def re_m_None split_beta)

lemma re_at_Some_set: "re_at r p = Some x \<Longrightarrow> x \<in> re_set r (p, [])"
  unfolding re_at_def by (drule re_m_Some) auto

lemma re_at_adv: "re_at r p = Some x \<Longrightarrow> adv p (fst x)"
  by (drule re_at_Some_set, drule re_set_adv) simp

lemma re_match_None_iff: "re_match r s = None \<longleftrightarrow> re_set r ((None, s), []) = {}"
  by (simp add: re_match_def re_at_None_iff)

lemma mk_match_bounds:
  assumes "adv p (fst x)" and "left p \<le> n"
  shows "m_start (mk_match n p x) \<le> m_end (mk_match n p x)"
    and "m_end (mk_match n p x) \<le> n"
    and "length (m_text (mk_match n p x)) = m_end (mk_match n p x) - m_start (mk_match n p x)"
  using adv_left [OF assms(1)] assms(2) by (auto simp: mk_match_def)

text \<open>A search returns a match that lies in the text, and its end is where the search stopped.\<close>

lemma re_find_sound:
  "re_find r n q u = Some (m, p') \<Longrightarrow>
     \<exists>p x. adv (q, u) p \<and> re_at r p = Some x \<and> m = mk_match n p x \<and> p' = fst x \<and> adv p p'"
proof (induction u arbitrary: q)
  case Nil
  then obtain x where "re_at r (q, []) = Some x" "m = mk_match n (q, []) x" "p' = fst x"
    by (subst (asm) re_find.simps) (simp split: option.splits)
  then show ?case by (metis adv_refl re_at_adv)
next
  case (Cons c t)
  show ?case
  proof (cases "re_at r (q, c # t)")
    case None
    with Cons.prems have "re_find r n (Some c) t = Some (m, p')"
      by (subst (asm) re_find.simps) simp
    from Cons.IH [OF this] show ?thesis using adv_step adv_trans by blast
  next
    case (Some x)
    with Cons.prems have "m = mk_match n (q, c # t) x" "p' = fst x"
      by (subst (asm) re_find.simps, simp)+
    with Some show ?thesis by (metis adv_refl re_at_adv)
  qed
qed

lemma re_find_None:
  "re_find r n q u = None \<longleftrightarrow> (\<forall>p. adv (q, u) p \<longrightarrow> re_at r p = None)"
proof (induction u arbitrary: q)
  case Nil
  have "adv (q, []) p \<longleftrightarrow> p = (q, [])" for p
    by (cases p) (auto simp: adv_def)
  then show ?case by (subst re_find.simps) (auto split: option.splits)
next
  case (Cons c t)
  have "adv (q, c # t) p \<longleftrightarrow> p = (q, c # t) \<or> adv (Some c, t) p" for p
  proof
    assume "adv (q, c # t) p"
    then obtain w where "c # t = w @ snd p" "fst p = (if w = [] then q else Some (last w))"
      by (auto simp: adv_def)
    then show "p = (q, c # t) \<or> adv (Some c, t) p"
      by (cases w; cases p) (auto simp: adv_def)
  next
    assume "p = (q, c # t) \<or> adv (Some c, t) p"
    then show "adv (q, c # t) p" by (metis adv_refl adv_step adv_trans)
  qed
  then show ?case by (subst re_find.simps) (auto split: option.splits simp: Cons.IH)
qed

text \<open>The characters outside the matches and the matches make up the text.\<close>

lemma re_scan_text: "concat (map (case_sum (\<lambda>c. [c]) m_text) (re_scan r n q u)) = u"
proof (induction r n q u rule: re_scan.induct)
  case (1 r n q u)
  show ?case
  proof (cases "re_at r (q, u)")
    case None
    then have eq: "re_scan r n q u = (case u of [] \<Rightarrow> [] | c # t \<Rightarrow> Inl c # re_scan r n (Some c) t)"
      by (subst re_scan.simps) simp
    show ?thesis unfolding eq by (cases u) (simp_all add: 1(1) [OF None])
  next
    case (Some x)
    from re_at_adv [OF Some] obtain w where w: "u = w @ snd (fst x)" by (auto simp: adv_def)
    show ?thesis
    proof (cases "left (fst x) < length u")
      case True
      with 1(2) [OF Some True] Some w show ?thesis by (subst re_scan.simps) (simp add: mk_match_def)
    next
      case False
      then have eq: "re_scan r n q u = Inr (mk_match n (q, u) x) #
          (case u of [] \<Rightarrow> [] | c # t \<Rightarrow> Inl c # re_scan r n (Some c) t)"
        using Some by (subst re_scan.simps) simp
      from False w have "snd (fst x) = u" by simp
      then show ?thesis unfolding eq by (cases u) (simp_all add: 1(3) [OF Some False] mk_match_def)
    qed
  qed
qed

lemma re_sub_id: "re_sub m_text r s = s"
  by (simp add: re_sub_def re_scan_text)

lemma re_scan_skip:
  "re_at r (q, c # t) = None \<Longrightarrow> re_scan r n q (c # t) = Inl c # re_scan r n (Some c) t"
  by (subst re_scan.simps) simp

lemma re_scan_hit:
  "re_at r (q, u) = Some x \<Longrightarrow> left (fst x) < length u \<Longrightarrow>
     re_scan r n q u = Inr (mk_match n (q, u) x) # re_scan r n (fst (fst x)) (snd (fst x))"
  by (subst re_scan.simps) simp

lemma re_scan_Nil: "re_at r (q, []) = None \<Longrightarrow> re_scan r n q [] = []"
  by (subst re_scan.simps) simp

lemma re_scan_no_match:
  "(\<And>p. adv (q, u) p \<Longrightarrow> re_at r p = None) \<Longrightarrow> re_scan r n q u = map Inl u"
proof (induction u arbitrary: q)
  case Nil
  then show ?case by (simp add: re_scan_Nil)
next
  case (Cons c t)
  have "re_scan r n (Some c) t = map Inl t"
    by (rule Cons.IH) (metis Cons.prems adv_step adv_trans)
  with Cons.prems show ?case by (simp add: re_scan_skip)
qed

lemma matches_map_Inl [simp]: "matches (map Inl u) = []"
  by (induction u) simp_all

lemma matches_append [simp]: "matches (xs @ ys) = matches xs @ matches ys"
  by (induction xs rule: matches.induct) simp_all

text \<open>A repeated class takes all it can when whatever follows succeeds.\<close>

definition past :: "pos \<Rightarrow> string \<Rightarrow> pos" where
  "past p w = (if w = [] then fst p else Some (last w), drop (length w) (snd p))"

lemma past_Nil [simp]: "past p [] = p"
  by (simp add: past_def)

lemma past_append: "past (q, v @ w @ u) (v @ w) = past (past (q, v @ w @ u) v) w"
  by (simp add: past_def)

lemma re_m_Cls_Nil: "re_m (Cls neg rs) (q, []) c k = None"
  by simp

lemma re_m_Cls_Cons:
  "re_m (Cls neg rs) (q, x # t) c k = (if in_cls neg rs x then k (Some x, t) c else None)"
  by simp

lemma star_cls_total:
  assumes "\<And>p c. k p c \<noteq> None" and "length u < n"
  shows "star_m True (re_m (Cls neg rs)) n (q, u) c k = k (past (q, u) (takeWhile (in_cls neg rs) u)) c"
  using assms(2)
proof (induction n arbitrary: q u)
  case (Suc n)
  let ?w = "takeWhile (in_cls neg rs)"
  show ?case
  proof (cases u)
    case Nil
    then show ?thesis by (simp only: star_m.simps re_m_Cls_Nil) simp
  next
    case (Cons x t)
    show ?thesis
    proof (cases "in_cls neg rs x")
      case True
      have "past (q, u) (?w u) = past (Some x, t) (?w t)"
        using Cons True by (simp add: past_def)
      with Suc.IH [of t "Some x"] Suc.prems Cons
      have eq: "star_m True (re_m (Cls neg rs)) n (Some x, t) c k = k (past (q, u) (?w u)) c"
        by (simp del: re_m.simps)
      obtain r where "k (past (q, u) (?w u)) c = Some r" using assms(1) by blast
      with Cons True eq show ?thesis
        by (simp only: star_m.simps re_m_Cls_Cons if_True) simp
    next
      case False
      with Cons show ?thesis by (simp only: star_m.simps re_m_Cls_Cons) simp
    qed
  qed
qed simp

lemma re_m_star_cls:
  assumes "\<And>p c. k p c \<noteq> None"
  shows "re_m (Star True (Cls neg rs)) (q, u) c k = k (past (q, u) (takeWhile (in_cls neg rs) u)) c"
  unfolding re_m.simps(5) by (rule star_cls_total) (use assms in auto)

lemma in_cls_chr [simp]: "in_cls False [(code a, code a)] c \<longleftrightarrow> c = a"
  by (auto simp: in_cls_def in_ranges_def dest: antisym)

lemma re_m_chr_Nil [simp]: "re_m (chr_re a) (q, []) c k = None"
  by (simp add: chr_re_def)

lemma re_m_chr_Cons [simp]:
  "re_m (chr_re a) (q, x # t) c k = (if x = a then k (Some x, t) c else None)"
  by (simp add: chr_re_def)

lemma in_cls_digit: "in_cls False digit_ranges c \<longleftrightarrow> is_digit c"
  by (simp add: in_cls_def is_digit_def)

lemma in_cls_space: "in_cls False space_ranges c \<longleftrightarrow> is_space c"
  by (simp add: in_cls_def is_space_def)

lemma in_cls_word: "in_cls False word_ranges c \<longleftrightarrow> is_word c"
  by (simp add: in_cls_def is_word_def)

section \<open>What a group can hold\<close>

definition consumed :: "pos \<times> caps \<Rightarrow> pos \<times> caps \<Rightarrow> string" where
  "consumed x y = take (left (fst x) - left (fst y)) (snd (fst x))"

primrec groups :: "regex \<Rightarrow> (nat \<times> regex) list" where
  "groups Eps = []"
| "groups (Cls neg rs) = []"
| "groups (Seq a b) = groups a @ groups b"
| "groups (Alt a b) = groups a @ groups b"
| "groups (Star g r) = groups r"
| "groups (Grp n r) = (n, r) # groups r"
| "groups Bol = []"
| "groups Eol = []"
| "groups Wordb = []"
| "groups (Look b r) = []"
| "groups (NBehind rs) = []"

definition caps_sat :: "(nat \<Rightarrow> string \<Rightarrow> bool) \<Rightarrow> caps \<Rightarrow> bool" where
  "caps_sat P c \<longleftrightarrow> (\<forall>g l t. (g, l, t) \<in> set c \<longrightarrow> P g t)"

definition groups_sat :: "(nat \<Rightarrow> string \<Rightarrow> bool) \<Rightarrow> regex \<Rightarrow> bool" where
  "groups_sat P r \<longleftrightarrow> (\<forall>g r' x y. (g, r') \<in> set (groups r) \<longrightarrow> y \<in> re_set r' x \<longrightarrow> P g (consumed x y))"

lemma caps_sat_Cons: "caps_sat P ((g, l, t) # c) \<longleftrightarrow> P g t \<and> caps_sat P c"
  by (auto simp: caps_sat_def)

lemma groups_sat_simps [simp]:
  "groups_sat P (Seq a b) \<longleftrightarrow> groups_sat P a \<and> groups_sat P b"
  "groups_sat P (Alt a b) \<longleftrightarrow> groups_sat P a \<and> groups_sat P b"
  "groups_sat P (Star g r) \<longleftrightarrow> groups_sat P r"
  "groups_sat P (Cls neg rs)" "groups_sat P Eps" "groups_sat P Bol" "groups_sat P Eol" "groups_sat P Wordb"
  "groups_sat P (Look ahead r)" "groups_sat P (NBehind rs)"
  unfolding groups_sat_def by auto

lemma groups_sat_Grp:
  "groups_sat P (Grp n r) \<longleftrightarrow> (\<forall>x y. y \<in> re_set r x \<longrightarrow> P n (consumed x y)) \<and> groups_sat P r"
  unfolding groups_sat_def by auto

lemma re_set_caps:
  "y \<in> re_set r x \<Longrightarrow> groups_sat P r \<Longrightarrow> caps_sat P (snd x) \<Longrightarrow> caps_sat P (snd y)"
proof (induction r arbitrary: x y)
  case (Cls neg rs)
  then show ?case by (auto split: list.splits if_splits)
next
  case (Seq a b)
  then obtain z where z: "z \<in> re_set a x" "y \<in> re_set b z" by auto
  have "groups_sat P a" "groups_sat P b" using Seq.prems(2) by simp_all
  with z Seq.IH Seq.prems(3) show ?case by blast
next
  case (Alt a b)
  from Alt.prems have "y \<in> re_set a x \<or> y \<in> re_set b x" "groups_sat P a" "groups_sat P b" by simp_all
  with Alt.IH Alt.prems(3) show ?case by blast
next
  case (Star g r)
  from Star.prems(1) have "(x, y) \<in> (loop_rel (re_set r))\<^sup>*" by (simp add: loop_rel_def)
  then show ?case
  proof (induction rule: rtrancl_induct)
    case (step u v)
    then have "v \<in> re_set r u" by (simp add: loop_rel_def)
    with step.IH Star.IH Star.prems(2) show ?case by simp
  qed (use Star.prems in simp)
next
  case (Grp n r)
  then obtain z where z: "z \<in> re_set r x" "y = (fst z, mk_cap n (fst x) (fst z) # snd z)" by auto
  have "P n (consumed x z)" "groups_sat P r"
    using Grp.prems(2) z(1) unfolding groups_sat_Grp by blast+
  with Grp.IH [OF z(1)] Grp.prems(3) z(2) show ?case by (simp add: mk_cap_def caps_sat_Cons consumed_def)
qed (auto split: if_splits)

lemma re_match_grp:
  assumes "re_match r s = Some m" and "groups_sat P r" and "grp m g = Some t"
  shows "P g t"
proof -
  from assms(1) obtain y where y: "re_at r (None, s) = Some y" "m = mk_match (length s) (None, s) y"
    by (auto simp: re_match_def)
  have c: "caps_sat P (snd y)"
    by (rule re_set_caps [OF re_at_Some_set [OF y(1)] assms(2)]) (simp add: caps_sat_def)
  from assms(3) obtain l where "(g, l, t) \<in> set (m_caps m)" by (auto simp: grp_def dest: map_of_SomeD)
  then obtain l' where "(g, l', t) \<in> set (snd y)" by (auto simp: y(2) mk_match_def)
  with c show ?thesis by (auto simp: caps_sat_def)
qed

lemma consumed_append: "snd (fst x) = w @ snd (fst y) \<Longrightarrow> consumed x y = w"
  by (simp add: consumed_def)

lemma star_cls_consumed:
  assumes "y \<in> re_set (Star g (Cls neg rs)) x"
  shows "\<exists>w. snd (fst x) = w @ snd (fst y) \<and> list_all (in_cls neg rs) w"
proof -
  from assms have "(x, y) \<in> (loop_rel (re_set (Cls neg rs)))\<^sup>*" by (simp add: loop_rel_def)
  then show ?thesis
  proof (induction rule: rtrancl_induct)
    case (step u v)
    from step.IH obtain w where w: "snd (fst x) = w @ snd (fst u)" "list_all (in_cls neg rs) w" by blast
    from step.hyps(2) obtain c t where "snd (fst u) = c # t" "in_cls neg rs c" "snd (fst v) = t"
      by (auto simp: loop_rel_def split: list.splits if_splits)
    with w show ?case by (intro exI [of _ "w @ [c]"]) simp
  qed simp
qed

lemma some1_cls_consumed:
  assumes "y \<in> re_set (some1 (Cls neg rs)) x"
  shows "consumed x y \<noteq> [] \<and> list_all (in_cls neg rs) (consumed x y)"
proof -
  from assms obtain z where z: "z \<in> re_set (Cls neg rs) x" "y \<in> re_set (Star True (Cls neg rs)) z"
    by (auto simp: some1_def)
  from z(1) obtain c t where "snd (fst x) = c # t" "in_cls neg rs c" "snd (fst z) = t"
    by (auto split: list.splits if_splits)
  moreover from star_cls_consumed [OF z(2)] obtain w where "snd (fst z) = w @ snd (fst y)" "list_all (in_cls neg rs) w"
    by blast
  ultimately show ?thesis using consumed_append [of x "c # w" y] by simp
qed

text \<open>The groups every match records.\<close>

primrec sure_groups :: "regex \<Rightarrow> nat set" where
  "sure_groups Eps = {}"
| "sure_groups (Cls neg rs) = {}"
| "sure_groups (Seq a b) = sure_groups a \<union> sure_groups b"
| "sure_groups (Alt a b) = sure_groups a \<inter> sure_groups b"
| "sure_groups (Star g r) = {}"
| "sure_groups (Grp n r) = insert n (sure_groups r)"
| "sure_groups Bol = {}"
| "sure_groups Eol = {}"
| "sure_groups Wordb = {}"
| "sure_groups (Look b r) = {}"
| "sure_groups (NBehind rs) = {}"

lemma re_set_caps_grow: "y \<in> re_set r x \<Longrightarrow> set (snd x) \<subseteq> set (snd y)"
proof (induction r arbitrary: x y)
  case (Cls neg rs)
  then show ?case by (auto split: list.splits if_splits)
next
  case (Seq a b)
  then obtain z where "z \<in> re_set a x" "y \<in> re_set b z" by auto
  with Seq.IH show ?case by blast
next
  case (Alt a b)
  from Alt.prems have "y \<in> re_set a x \<or> y \<in> re_set b x" by simp
  with Alt.IH show ?case by blast
next
  case (Star g r)
  from Star.prems have "(x, y) \<in> (loop_rel (re_set r))\<^sup>*" by (simp add: loop_rel_def)
  then show ?case
  proof (induction rule: rtrancl_induct)
    case (step u v)
    then have "v \<in> re_set r u" by (simp add: loop_rel_def)
    with step.IH Star.IH show ?case by blast
  qed simp
next
  case (Grp n r)
  then obtain z where z: "z \<in> re_set r x" "snd y = mk_cap n (fst x) (fst z) # snd z" by auto
  from Grp.IH [OF z(1)] z(2) show ?case by auto
qed (auto split: if_splits)

lemma re_set_sure: "y \<in> re_set r x \<Longrightarrow> n \<in> sure_groups r \<Longrightarrow> n \<in> fst ` set (snd y)"
proof (induction r arbitrary: x y)
  case (Seq a b)
  then obtain z where z: "z \<in> re_set a x" "y \<in> re_set b z" by auto
  from Seq.prems(2) consider "n \<in> sure_groups a" | "n \<in> sure_groups b" by auto
  then show ?case
  proof cases
    case 1
    from Seq.IH(1) [OF z(1) 1] re_set_caps_grow [OF z(2)] show ?thesis by blast
  next
    case 2
    from Seq.IH(2) [OF z(2) 2] show ?thesis .
  qed
next
  case (Alt a b)
  from Alt.prems have "y \<in> re_set a x \<or> y \<in> re_set b x" "n \<in> sure_groups a" "n \<in> sure_groups b" by simp_all
  with Alt.IH show ?case by blast
next
  case (Grp k r)
  then obtain z where z: "z \<in> re_set r x" "snd y = mk_cap k (fst x) (fst z) # snd z" by auto
  show ?case
  proof (cases "n = k")
    case True
    with z(2) show ?thesis by (simp add: mk_cap_def)
  next
    case False
    with Grp.prems(2) have "n \<in> sure_groups r" by simp
    from Grp.IH [OF z(1) this] z(2) show ?thesis by simp
  qed
qed simp_all

lemma re_match_sure:
  assumes "re_match r s = Some m" and "g \<in> sure_groups r"
  shows "grp m g \<noteq> None"
proof -
  from assms(1) obtain y where y: "re_at r (None, s) = Some y" "m = mk_match (length s) (None, s) y"
    by (auto simp: re_match_def)
  from re_set_sure [OF re_at_Some_set [OF y(1)] assms(2)] obtain l t where "(g, l, t) \<in> set (snd y)" by force
  then have "(g, length s - l, t) \<in> set (m_caps m)" by (force simp: y(2) mk_match_def)
  then show ?thesis by (auto simp: grp_def map_of_eq_None_iff image_iff intro: bexI [of _ "(g, length s - l, t)"])
qed

section \<open>Where a match can be\<close>

text \<open>The characters a match can begin with.\<close>

primrec re_leads :: "char set \<Rightarrow> regex \<Rightarrow> bool" where
  "re_leads A Eps = False"
| "re_leads A (Cls neg rs) = (neg = False \<and> list_all (\<lambda>(a, b). a = b \<and> a \<in> code ` A) rs)"
| "re_leads A (Seq a b) = re_leads A a"
| "re_leads A (Alt a b) = (re_leads A a \<and> re_leads A b)"
| "re_leads A (Star g r) = False"
| "re_leads A (Grp n r) = re_leads A r"
| "re_leads A Bol = False"
| "re_leads A Eol = False"
| "re_leads A Wordb = False"
| "re_leads A (Look b r) = False"
| "re_leads A (NBehind rs) = False"

lemma leads_sound: "re_leads A r \<Longrightarrow> y \<in> re_set r x \<Longrightarrow> \<exists>c t. snd (fst x) = c # t \<and> c \<in> A"
proof (induction r arbitrary: x y)
  case (Cls neg rs)
  then show ?case
    by (fastforce simp: in_cls_def in_ranges_def list_ex_iff list_all_iff split: list.splits if_splits)
next
  case (Seq a b)
  from Seq.prems obtain z where "re_leads A a" "z \<in> re_set a x" by auto
  then show ?case by (rule Seq.IH(1))
qed auto

lemma match_lead:
  assumes "re_match (Seq (many re_space) r) s \<noteq> None" and "re_leads A r" and "\<forall>c \<in> A. \<not> is_space c"
  shows "\<exists>c t. lstrip s = c # t \<and> c \<in> A"
proof -
  from assms(1) obtain y z where y: "y \<in> re_set (many re_space) ((None, s), [])" "z \<in> re_set r y"
    by (auto simp: re_match_None_iff)
  from star_cls_consumed [of y True False space_ranges "((None, s), [])"] y(1) obtain w where
    w: "s = w @ snd (fst y)" "list_all (in_cls False space_ranges) w"
    by (auto simp: many_def re_space_def)
  from leads_sound [OF assms(2) y(2)] obtain c t where c: "snd (fst y) = c # t" "c \<in> A" by blast
  have "lstrip s = c # t"
    using w c assms(3) by (auto simp: lstrip_def in_cls_space list_all_iff dropWhile_append)
  with c show ?thesis by blast
qed

lemma lead_c: "re_leads {c} (Seq (lit (c # l)) r)"
  by (cases l) (simp_all add: lit_def chr_re_def)

lemma match_lead_c:
  "re_match (Seq (many re_space) (Seq (lit (c # l)) r)) s \<noteq> None \<Longrightarrow> \<not> is_space c \<Longrightarrow> \<exists>t. lstrip s = c # t"
  using match_lead [OF _ lead_c] by blast

text \<open>A pattern that re_needs a character finds nothing in a text without it.\<close>

primrec re_needs :: "char \<Rightarrow> regex \<Rightarrow> bool" where
  "re_needs c Eps = False"
| "re_needs c (Cls neg rs) = (neg = False \<and> rs = [(code c, code c)])"
| "re_needs c (Seq a b) = (re_needs c a \<or> re_needs c b)"
| "re_needs c (Alt a b) = (re_needs c a \<and> re_needs c b)"
| "re_needs c (Star g r) = False"
| "re_needs c (Grp n r) = re_needs c r"
| "re_needs c Bol = False"
| "re_needs c Eol = False"
| "re_needs c Wordb = False"
| "re_needs c (Look b r) = False"
| "re_needs c (NBehind rs) = False"

lemma needs_sound: "y \<in> re_set r x \<Longrightarrow> re_needs c r \<Longrightarrow> c \<in> set (snd (fst x))"
proof (induction r arbitrary: x y)
  case (Seq a b)
  from Seq.prems obtain z where z: "z \<in> re_set a x" "y \<in> re_set b z" by auto
  from re_set_adv [OF z(1)] have "set (snd (fst z)) \<subseteq> set (snd (fst x))" by (auto simp: adv_def)
  then show ?case using Seq.IH(1) [OF z(1)] Seq.IH(2) [OF z(2)] Seq.prems(2) by auto
qed (auto split: list.splits if_splits)

lemma re_sub_absent:
  assumes "re_needs c r" and "c \<notin> set s"
  shows "re_sub f r s = s"
proof -
  have "re_scan r (length s) None s = map Inl s"
  proof (rule re_scan_no_match)
    fix p assume "adv (None, s) p"
    then have "c \<notin> set (snd p)" using assms(2) by (auto simp: adv_def)
    moreover have "y \<in> re_set r (p, []) \<Longrightarrow> c \<in> set (snd p)" for y
      using needs_sound [of y r "(p, [])" c] assms(1) by simp
    ultimately show "re_at r p = None" unfolding re_at_None_iff by blast
  qed
  then show ?thesis by (simp add: re_sub_def comp_def)
qed

text \<open>The characters a match consists of.\<close>

primrec re_over :: "(char \<Rightarrow> bool) \<Rightarrow> regex \<Rightarrow> bool" where
  "re_over P Eps = True"
| "re_over P (Cls neg rs) = (\<forall>c. in_cls neg rs c \<longrightarrow> P c)"
| "re_over P (Seq a b) = (re_over P a \<and> re_over P b)"
| "re_over P (Alt a b) = (re_over P a \<and> re_over P b)"
| "re_over P (Star g r) = re_over P r"
| "re_over P (Grp n r) = re_over P r"
| "re_over P Bol = True"
| "re_over P Eol = True"
| "re_over P Wordb = True"
| "re_over P (Look b r) = True"
| "re_over P (NBehind rs) = True"

lemma over_sound: "y \<in> re_set r x \<Longrightarrow> re_over P r \<Longrightarrow> \<exists>w. snd (fst x) = w @ snd (fst y) \<and> list_all P w"
proof (induction r arbitrary: x y)
  case (Cls neg rs)
  then show ?case by (force split: list.splits if_splits)
next
  case (Seq a b)
  from Seq.prems obtain z where z: "z \<in> re_set a x" "y \<in> re_set b z" "re_over P a" "re_over P b" by auto
  from Seq.IH(1) [OF z(1,3)] Seq.IH(2) [OF z(2,4)] obtain v w where
    "snd (fst x) = v @ snd (fst z)" "list_all P v" "snd (fst z) = w @ snd (fst y)" "list_all P w" by blast
  then show ?case by (intro exI [of _ "v @ w"]) simp
next
  case (Star g r)
  from Star.prems(1) have "(x, y) \<in> (loop_rel (re_set r))\<^sup>*" by (simp add: loop_rel_def)
  then show ?case
  proof (induction rule: rtrancl_induct)
    case (step u v)
    from step.hyps(2) have "v \<in> re_set r u" by (simp add: loop_rel_def)
    from Star.IH [OF this] Star.prems(2) step.IH obtain w w' where
      "snd (fst x) = w @ snd (fst u)" "list_all P w" "snd (fst u) = w' @ snd (fst v)" "list_all P w'" by auto
    then show ?case by (intro exI [of _ "w @ w'"]) simp
  qed simp
qed (auto split: if_splits)

primrec re_nonnull :: "regex \<Rightarrow> bool" where
  "re_nonnull Eps = False"
| "re_nonnull (Cls neg rs) = True"
| "re_nonnull (Seq a b) = (re_nonnull a \<or> re_nonnull b)"
| "re_nonnull (Alt a b) = (re_nonnull a \<and> re_nonnull b)"
| "re_nonnull (Star g r) = False"
| "re_nonnull (Grp n r) = re_nonnull r"
| "re_nonnull Bol = False"
| "re_nonnull Eol = False"
| "re_nonnull Wordb = False"
| "re_nonnull (Look b r) = False"
| "re_nonnull (NBehind rs) = False"

lemma nonnull_sound: "y \<in> re_set r x \<Longrightarrow> re_nonnull r \<Longrightarrow> left (fst y) < left (fst x)"
proof (induction r arbitrary: x y)
  case (Seq a b)
  from Seq.prems obtain z where z: "z \<in> re_set a x" "y \<in> re_set b z" by auto
  note le = adv_left [OF re_set_adv [OF z(1)]] adv_left [OF re_set_adv [OF z(2)]]
  from Seq.prems(2) consider "re_nonnull a" | "re_nonnull b" by auto
  then show ?case
  proof cases
    case 1
    from Seq.IH(1) [OF z(1) this] le show ?thesis by simp
  next
    case 2
    from Seq.IH(2) [OF z(2) this] le show ?thesis by simp
  qed
next
  case (Alt a b)
  from Alt.prems consider "y \<in> re_set a x" "re_nonnull a" | "y \<in> re_set b x" "re_nonnull b" by auto
  then show ?case using Alt.IH by cases blast+
qed (auto split: list.splits if_splits)

lemma sub_chars: "set (re_sub (\<lambda>_. []) r s) \<subseteq> set s"
proof
  fix c assume "c \<in> set (re_sub (\<lambda>_. []) r s)"
  then have "Inl c \<in> set (re_scan r (length s) None s)"
    by (auto simp: re_sub_def split: sum.splits)
  then have "c \<in> set (concat (map (case_sum (\<lambda>c. [c]) m_text) (re_scan r (length s) None s)))" by force
  then show "c \<in> set s" by (simp add: re_scan_text)
qed

lemma groups_over:
  assumes "\<forall>r. (n, r) \<in> set (groups R) \<longrightarrow> re_over P r" and "re_match R s = Some m" and "grp m n = Some t"
  shows "list_all P t"
proof -
  have "groups_sat (\<lambda>g t. g = n \<longrightarrow> list_all P t) R"
    unfolding groups_sat_def using assms(1) over_sound consumed_append by metis
  from re_match_grp [OF assms(2) this assms(3)] show ?thesis by simp
qed

lemma groups_nonnull:
  assumes "\<forall>r. (n, r) \<in> set (groups R) \<longrightarrow> re_nonnull r" and "re_match R s = Some m" and "grp m n = Some t"
  shows "t \<noteq> []"
proof -
  have "consumed x y \<noteq> []" if "y \<in> re_set r x" "re_nonnull r" for r x y
    using nonnull_sound [OF that] by (auto simp: consumed_def)
  then have "groups_sat (\<lambda>g t. g = n \<longrightarrow> t \<noteq> []) R"
    unfolding groups_sat_def using assms(1) by blast
  from re_match_grp [OF assms(2) this assms(3)] show ?thesis by simp
qed

section \<open>Computing a match\<close>

lemma star_greedy:
  assumes "k (past (q, u) (takeWhile (in_cls neg rs) u)) c = Some r" and "length u < n"
  shows "star_m True (re_m (Cls neg rs)) n (q, u) c k = Some r"
  using assms
proof (induction n arbitrary: q u)
  case (Suc n)
  show ?case
  proof (cases u)
    case Nil
    with Suc.prems show ?thesis by (simp only: star_m.simps re_m_Cls_Nil) simp
  next
    case (Cons x t)
    show ?thesis
    proof (cases "in_cls neg rs x")
      case True
      have "past (q, u) (takeWhile (in_cls neg rs) u) = past (Some x, t) (takeWhile (in_cls neg rs) t)"
        using Cons True by (simp add: past_def)
      with Suc.prems Cons have "star_m True (re_m (Cls neg rs)) n (Some x, t) c k = Some r"
        by (intro Suc.IH) simp_all
      with Cons True show ?thesis by (simp only: star_m.simps re_m_Cls_Cons if_True) simp
    next
      case False
      with Cons Suc.prems show ?thesis by (simp only: star_m.simps re_m_Cls_Cons) simp
    qed
  qed
qed simp

definition char_after :: "char option \<Rightarrow> string \<Rightarrow> char option" where
  "char_after q w = (if w = [] then q else Some (last w))"

lemma m_star:
  assumes "k (char_after q w, u) c = Some r" and "list_all (in_cls neg rs) w" and "u = [] \<or> \<not> in_cls neg rs (hd u)"
  shows "re_m (Star True (Cls neg rs)) (q, w @ u) c k = Some r"
proof -
  have "takeWhile (in_cls neg rs) (w @ u) = w"
    using assms(2,3) by (cases u) (simp_all add: takeWhile_append list_all_iff)
  then have "k (past (q, w @ u) (takeWhile (in_cls neg rs) (w @ u))) c = Some r"
    using assms(1) by (cases w) (simp_all add: past_def char_after_def)
  then have "star_m True (re_m (Cls neg rs)) (Suc (length (w @ u))) (q, w @ u) c k = Some r"
    by (rule star_greedy) simp
  then show ?thesis by simp
qed

lemma m_some1:
  assumes "k (char_after q w, u) c = Some r" and "list_all (in_cls neg rs) w" and "w \<noteq> []" and "u = [] \<or> \<not> in_cls neg rs (hd u)"
  shows "re_m (some1 (Cls neg rs)) (q, w @ u) c k = Some r"
proof -
  obtain x v where w: "w = x # v" using assms(3) by (cases w) auto
  have "char_after q w = char_after (Some x) v" by (simp add: char_after_def w)
  with assms w have "re_m (Star True (Cls neg rs)) (Some x, v @ u) c k = Some r"
    by (intro m_star) simp_all
  with assms(2) show ?thesis by (simp only: some1_def w re_m.simps(3) append_Cons re_m_Cls_Cons list.pred_inject if_True)
qed

lemma m_lit: "k (char_after q w, u) c = Some r \<Longrightarrow> re_m (lit w) (q, w @ u) c k = Some r"
proof (induction w arbitrary: q)
  case (Cons x v)
  have "char_after q (x # v) = char_after (Some x) v" by (simp add: char_after_def)
  with Cons have "re_m (lit v) (Some x, v @ u) c k = Some r" by simp
  then show ?case by (cases v) (simp_all add: lit_def)
qed (simp add: lit_def char_after_def)

lemma m_Seq: "re_m a p c (\<lambda>p' c'. re_m b p' c' k) = Some r \<Longrightarrow> re_m (Seq a b) p c k = Some r"
  by simp

lemma m_chr: "k (Some a, u) c = Some r \<Longrightarrow> re_m (chr_re a) (q, a # u) c k = Some r"
  by simp

lemma m_Grp: "re_m r p c (\<lambda>p' c'. k p' (mk_cap n p p' # c')) = Some x \<Longrightarrow> re_m (Grp n r) p c k = Some x"
  by simp

lemma re_search_here: "re_at r (None, s) = Some y \<Longrightarrow> re_search r s = Some (mk_match (length s) (None, s) y)"
  by (simp add: re_search_def re_search_from_def pos_at_def re_find.simps [of r _ None s])

end
