(* ===== verification/Flatten_Plan.thy ===== *)
theory Flatten_Plan
  imports Json Regex
begin

text \<open>
  \<open>src/dace_fortran/bindings/flatten_plan.py\<close>: the plan that \<open>hlfir-flatten-structs\<close> records
  and the binding emitter reads, its serialised form, and the placeholders of its expressions.
\<close>

section \<open>Recipes, entries, synthetic globals and plans\<close>

record recipe =
  flat_names :: "string list"
  read_exprs :: "string list"
  write_expr :: string
  rc_rank :: int
  shape_exprs :: "string list"
  aliasable :: bool
  scratch_dtype :: string
  aos_alloc :: bool
  cap_symbols :: "string list"
  lb_symbols :: "string list"
  member_pointer :: bool

record flatten_entry =
  outer_expr :: string
  outer_type :: string
  writeback_intent :: string
  fe_recipe :: recipe

record synthetic_global =
  sg_symbol :: string
  sg_module :: string
  sg_entity :: string
  sg_member :: string
  sg_dtype :: string

record flatten_plan =
  fp_entries :: "flatten_entry list"
  fp_synthetic_globals :: "synthetic_global list"

definition recipe_fields :: "string list" where
  "recipe_fields = [''flat_names'', ''read_exprs'', ''write_expr'', ''rank'', ''shape_exprs'',
     ''aliasable'', ''scratch_dtype'', ''aos_alloc'', ''cap_symbols'', ''lb_symbols'',
     ''member_pointer'']"

definition recipe_to_dict :: "recipe \<Rightarrow> json" where
  "recipe_to_dict r = JObj
     [(''flat_names'', j_strs (flat_names r)), (''read_exprs'', j_strs (read_exprs r)),
      (''write_expr'', JStr (write_expr r)), (''rank'', JInt (rc_rank r)),
      (''shape_exprs'', j_strs (shape_exprs r)), (''aliasable'', JBool (aliasable r)),
      (''scratch_dtype'', JStr (scratch_dtype r)), (''aos_alloc'', JBool (aos_alloc r)),
      (''cap_symbols'', j_strs (cap_symbols r)), (''lb_symbols'', j_strs (lb_symbols r)),
      (''member_pointer'', JBool (member_pointer r))]"

definition recipe_from_dict :: "json \<Rightarrow> recipe py" where
  "recipe_from_dict j =
     rbind (j_obj j) (\<lambda>d.
     rbind (j_get ''flat_names'' [] (j_list j_str) d) (\<lambda>fn.
     rbind (j_get ''read_exprs'' [] (j_list j_str) d) (\<lambda>re.
     rbind (j_get ''shape_exprs'' [] (j_list j_str) d) (\<lambda>se.
     rbind (j_get ''cap_symbols'' [] (j_list j_str) d) (\<lambda>cs.
     rbind (j_get ''lb_symbols'' [] (j_list j_str) d) (\<lambda>ls.
     rbind (only_fields recipe_fields d) (\<lambda>_.
     rbind (j_get ''write_expr'' [] j_str d) (\<lambda>we.
     rbind (j_get ''rank'' 0 j_int d) (\<lambda>rk.
     rbind (j_get ''aliasable'' False j_bool d) (\<lambda>al.
     rbind (j_get ''scratch_dtype'' ''float64'' j_str d) (\<lambda>sd.
     rbind (j_get ''aos_alloc'' False j_bool d) (\<lambda>aa.
     rbind (j_get ''member_pointer'' False j_bool d) (\<lambda>mp.
       Inr \<lparr>flat_names = fn, read_exprs = re, write_expr = we, rc_rank = rk, shape_exprs = se,
            aliasable = al, scratch_dtype = sd, aos_alloc = aa, cap_symbols = cs,
            lb_symbols = ls, member_pointer = mp\<rparr>)))))))))))))"

definition entry_to_dict :: "flatten_entry \<Rightarrow> json" where
  "entry_to_dict e = JObj
     [(''outer_expr'', JStr (outer_expr e)), (''outer_type'', JStr (outer_type e)),
      (''writeback_intent'', JStr (writeback_intent e)), (''recipe'', recipe_to_dict (fe_recipe e))]"

definition entry_from_dict :: "json \<Rightarrow> flatten_entry py" where
  "entry_from_dict j =
     rbind (j_obj j) (\<lambda>d.
     rbind (j_item ''outer_expr'' j_str d) (\<lambda>oe.
     rbind (j_item ''outer_type'' j_str d) (\<lambda>ot.
     rbind (j_get ''writeback_intent'' [] j_str d) (\<lambda>wi.
     rbind (j_item ''recipe'' recipe_from_dict d) (\<lambda>r.
       Inr \<lparr>outer_expr = oe, outer_type = ot, writeback_intent = wi, fe_recipe = r\<rparr>)))))"

text \<open>The name a lifted member carries on the SDFG.\<close>

definition sg_sdfg_name :: "synthetic_global \<Rightarrow> string" where
  "sg_sdfg_name g = sg_entity g @ ''_'' @ replace ''%'' ''_'' (sg_member g)"

definition synthetic_to_dict :: "synthetic_global \<Rightarrow> json" where
  "synthetic_to_dict g = JObj
     [(''symbol'', JStr (sg_symbol g)), (''module'', JStr (sg_module g)),
      (''entity'', JStr (sg_entity g)), (''member'', JStr (sg_member g)), (''dtype'', JStr (sg_dtype g))]"

definition synthetic_from_dict :: "json \<Rightarrow> synthetic_global py" where
  "synthetic_from_dict j =
     rbind (j_obj j) (\<lambda>d.
     rbind (j_item ''symbol'' j_str d) (\<lambda>s.
     rbind (j_item ''module'' j_str d) (\<lambda>m.
     rbind (j_item ''entity'' j_str d) (\<lambda>e.
     rbind (j_item ''member'' j_str d) (\<lambda>mb.
     rbind (j_get ''dtype'' ''float64'' j_str d) (\<lambda>dt.
       Inr \<lparr>sg_symbol = s, sg_module = m, sg_entity = e, sg_member = mb, sg_dtype = dt\<rparr>))))))"

definition plan_to_dict :: "flatten_plan \<Rightarrow> json" where
  "plan_to_dict p = JObj
     [(''entries'', JList (map entry_to_dict (fp_entries p))),
      (''synthetic_globals'', JList (map synthetic_to_dict (fp_synthetic_globals p)))]"

definition plan_from_dict :: "json \<Rightarrow> flatten_plan py" where
  "plan_from_dict j =
     rbind (j_obj j) (\<lambda>d.
     rbind (j_get ''entries'' [] (j_list entry_from_dict) d) (\<lambda>es.
     rbind (j_get ''synthetic_globals'' [] (j_list synthetic_from_dict) d) (\<lambda>gs.
       Inr \<lparr>fp_entries = es, fp_synthetic_globals = gs\<rparr>)))"

section \<open>Index placeholders\<close>

text \<open>\<open>_INDEX_RE = \$i(\d+)\<close>.\<close>

definition index_re :: regex where
  "index_re = Seq (chr_re CHR ''$'') (Seq (chr_re CHR ''i'') (Grp 1 (some1 re_digit)))"

text \<open>
  The placeholder \<open>$i0\<close> reaches \<open>names[-1]\<close>, Python's last element.
\<close>

definition index_name :: "string list \<Rightarrow> nat \<Rightarrow> string py" where
  "index_name names k =
     (if k = 0 then (if names = [] then Inl IndexError else Inr (last names))
      else if k - 1 \<ge> length names then Inl IndexError
      else Inr (names ! (k - 1)))"

definition substitute_indices :: "string \<Rightarrow> string list \<Rightarrow> string py" where
  "substitute_indices expr names =
     re_sub_res (\<lambda>m. index_name names (nat_of_digits (grp0 m 1))) index_re expr"

text \<open>\<open>^(.+?)\(\s*\$i\d+(?:\s*,\s*\$i\d+)*\s*\)\s*$\<close>.\<close>

definition strip_re :: regex where
  "strip_re =
     (let idx = Seq (chr_re CHR ''$'') (Seq (chr_re CHR ''i'') (some1 re_digit)) in
      seqs [Bol, Grp 1 (Seq re_dot (Star False re_dot)), chr_re CHR ''('', many re_space, idx,
            many (seqs [many re_space, chr_re CHR '','', many re_space, idx]),
            many re_space, chr_re CHR '')'', many re_space, Eol])"

definition strip_index_args :: "string \<Rightarrow> string" where
  "strip_index_args expr =
     (case re_match strip_re expr of Some m \<Rightarrow> grp0 m 1 | None \<Rightarrow> expr)"

section \<open>Round trips\<close>

lemmas from_dict_simps = j_item_def j_get_def j_kwarg_def only_fields_def

lemma recipe_round_trip: "recipe_from_dict (recipe_to_dict r) = Inr r"
  by (simp add: recipe_from_dict_def recipe_to_dict_def recipe_fields_def from_dict_simps)

interpretation recipe_codec: codec recipe_to_dict recipe_from_dict "\<lambda>_. True"
  by unfold_locales (rule recipe_round_trip)

lemma entry_round_trip: "entry_from_dict (entry_to_dict e) = Inr e"
  by (simp add: entry_from_dict_def entry_to_dict_def from_dict_simps recipe_round_trip)

interpretation entry_codec: codec entry_to_dict entry_from_dict "\<lambda>_. True"
  by unfold_locales (rule entry_round_trip)

interpretation synthetic_codec: codec synthetic_to_dict synthetic_from_dict "\<lambda>_. True"
  by unfold_locales (simp add: synthetic_from_dict_def synthetic_to_dict_def from_dict_simps)

lemma plan_round_trip: "plan_from_dict (plan_to_dict p) = Inr p"
  by (simp add: plan_from_dict_def plan_to_dict_def from_dict_simps
      entry_codec.dec_enc_list synthetic_codec.dec_enc_list)

interpretation plan_codec: codec plan_to_dict plan_from_dict "\<lambda>_. True"
  by unfold_locales (rule plan_round_trip)

section \<open>Substitution\<close>

text \<open>An expression as the bridge builds it: text without a dollar sign, and placeholders.\<close>

datatype seg = Txt string | Idx nat

fun seg_text :: "seg \<Rightarrow> string" where
  "seg_text (Txt t) = t"
| "seg_text (Idx k) = ''$i'' @ str_nat k"

fun seg_subst :: "string list \<Rightarrow> seg \<Rightarrow> string py" where
  "seg_subst names (Txt t) = Inr t"
| "seg_subst names (Idx k) = index_name names k"

definition starts_digit :: "string \<Rightarrow> bool" where
  "starts_digit s = (case s of [] \<Rightarrow> False | c # _ \<Rightarrow> is_digit c)"

fun segs_ok :: "seg list \<Rightarrow> bool" where
  "segs_ok [] = True"
| "segs_ok (Txt t # ss) = (CHR ''$'' \<notin> set t \<and> segs_ok ss)"
| "segs_ok (Idx k # ss) = (\<not> starts_digit (concat (map seg_text ss)) \<and> segs_ok ss)"

lemma index_re_miss: "c \<noteq> CHR ''$'' \<Longrightarrow> re_at index_re (q, c # t) = None"
  by (simp add: re_at_def index_re_def)

lemma index_re_nil: "re_at index_re (q, []) = None"
  by (simp add: re_at_def index_re_def)

lemma takeWhile_digits:
  "\<forall>c \<in> set ds. is_digit c \<Longrightarrow> \<not> starts_digit rest \<Longrightarrow>
     takeWhile (in_cls False digit_ranges) (ds @ rest) = ds"
  by (induction ds) (auto simp: in_cls_digit starts_digit_def split: list.splits)

lemma index_re_hit:
  assumes "ds \<noteq> []" and "\<forall>c \<in> set ds. is_digit c" and "\<not> starts_digit rest"
  shows "re_at index_re (q, ''$i'' @ ds @ rest) =
    Some ((Some (last ds), rest), [(1, length (ds @ rest), ds)])"
proof -
  from assms(1) obtain d ds' where ds: "ds = d # ds'" by (cases ds) auto
  let ?k = "\<lambda>p' c'. Some (p', mk_cap 1 (Some CHR ''i'', ds @ rest) p' # c')"
  have "re_at index_re (q, ''$i'' @ ds @ rest) =
      re_m (Star True (Cls False digit_ranges)) (Some d, ds' @ rest) [] ?k"
    using assms(2) ds
    by (simp add: re_at_def index_re_def some1_def re_digit_def in_cls_digit del: re_m.simps(5))
  also have "\<dots> = ?k (past (Some d, ds' @ rest) ds') []"
    using takeWhile_digits [of ds' rest] assms(2,3) ds
    by (subst re_m_star_cls) simp_all
  finally show ?thesis
    by (simp add: past_def ds mk_cap_def)
qed

lemma scan_txt:
  "CHR ''$'' \<notin> set t \<Longrightarrow>
     re_scan index_re n q (t @ u) = map Inl t @ re_scan index_re n (fst (past (q, t @ u) t)) u"
proof (induction t arbitrary: q)
  case (Cons c t)
  from Cons.prems have "c \<noteq> CHR ''$''" by auto
  then have "re_scan index_re n q ((c # t) @ u) = Inl c # re_scan index_re n (Some c) (t @ u)"
    by (simp add: re_scan_skip index_re_miss)
  with Cons show ?case by (simp add: past_def)
qed (simp add: past_def)

lemma scan_idx:
  assumes "\<not> starts_digit rest"
  shows "\<exists>m. grp0 m 1 = str_nat k \<and>
    re_scan index_re n q (''$i'' @ str_nat k @ rest) =
      Inr m # re_scan index_re n (Some (last (str_nat k))) rest"
proof -
  let ?u = "''$i'' @ str_nat k @ rest"
  have hit: "re_at index_re (q, ?u) =
      Some ((Some (last (str_nat k)), rest), [(1, length (str_nat k @ rest), str_nat k)])"
    by (rule index_re_hit) (use str_nat_digits [of k] assms in simp_all)
  show ?thesis
    by (intro exI conjI, rule_tac [2] trans [OF re_scan_hit [OF hit]])
      (simp_all add: mk_match_def grp0_def grp_def)
qed

lemma rmap_Inl_chars [simp]: "rmap (case_sum (\<lambda>c. Inr [c]) f) (map Inl t) = Inr (map (\<lambda>c. [c]) t)"
  by (induction t) simp_all

lemma concat_singletons [simp]: "concat (map (\<lambda>c. [c]) t) = t"
  by (induction t) simp_all

lemma scan_segs:
  "segs_ok ss \<Longrightarrow>
     rbind (rmap (case_sum (\<lambda>c. Inr [c]) (\<lambda>m. index_name names (nat_of_digits (grp0 m 1))))
            (re_scan index_re n q (concat (map seg_text ss)))) (\<lambda>ps. Inr (concat ps)) =
     rbind (rmap (seg_subst names) ss) (\<lambda>ps. Inr (concat ps))"
proof (induction ss arbitrary: q rule: segs_ok.induct)
  case 1
  show ?case by (simp add: re_scan_Nil index_re_nil)
next
  case (2 t ss)
  let ?f = "case_sum (\<lambda>c. Inr [c]) (\<lambda>m. index_name names (nat_of_digits (grp0 m 1)))"
  let ?q = "fst (past (q, t @ concat (map seg_text ss)) t)"
  from 2 have "rbind (rmap ?f (re_scan index_re n ?q (concat (map seg_text ss)))) (\<lambda>ps. Inr (concat ps)) =
     rbind (rmap (seg_subst names) ss) (\<lambda>ps. Inr (concat ps))" by simp
  with 2 show ?case
    by (cases "rmap ?f (re_scan index_re n ?q (concat (map seg_text ss)))";
        cases "rmap (seg_subst names) ss") (simp_all add: scan_txt rmap_append)
next
  case (3 k ss)
  let ?f = "case_sum (\<lambda>c. Inr [c]) (\<lambda>m. index_name names (nat_of_digits (grp0 m 1)))"
  let ?r = "concat (map seg_text ss)"
  let ?q = "Some (last (str_nat k))"
  from scan_idx [of ?r k n q] 3 obtain m where m: "grp0 m 1 = str_nat k"
    "re_scan index_re n q (concat (map seg_text (Idx k # ss))) = Inr m # re_scan index_re n ?q ?r"
    by auto
  from 3 have "rbind (rmap ?f (re_scan index_re n ?q ?r)) (\<lambda>ps. Inr (concat ps)) =
     rbind (rmap (seg_subst names) ss) (\<lambda>ps. Inr (concat ps))" by simp
  with m show ?case
    by (cases "rmap ?f (re_scan index_re n ?q ?r)"; cases "rmap (seg_subst names) ss";
        cases "index_name names k") simp_all
qed

lemma substitute_segs:
  "segs_ok ss \<Longrightarrow>
     substitute_indices (concat (map seg_text ss)) names =
     rbind (rmap (seg_subst names) ss) (\<lambda>ps. Inr (concat ps))"
  unfolding substitute_indices_def re_sub_res_def by (rule scan_segs)

section \<open>Properties\<close>

text \<open>A flatten plan survives its serialised form: \<open>FlattenPlan.from_dict(plan.to_dict())\<close> is the
  plan itself, for every plan, nested entries, recipes and synthetic globals included.\<close>

theorem plan_dict_round_trip: "plan_from_dict (plan_to_dict p) = Inr p"
  by (rule plan_codec.dec_enc) simp

text \<open>\<open>substitute_indices\<close> replaces every placeholder of an expression made of text and
  placeholders by the loop variable of its number and leaves the text alone, or raises
  \<open>IndexError\<close> at the first placeholder whose number has no name; no digits are split between
  neighbouring placeholders (\<open>$i1\<close> never eats into \<open>$i12\<close>).\<close>

theorem substitute_indices_placeholders:
  assumes "segs_ok ss"
  shows "substitute_indices (concat (map seg_text ss)) names =
    rbind (rmap (seg_subst names) ss) (\<lambda>ps. Inr (concat ps))"
  using assms by (rule substitute_segs)

theorem substitute_indices_placeholders_witness:
  "substitute_indices ''a($i1)%w($i12, $i2)'' [''i1'', ''i2''] = Inl IndexError \<and>
   substitute_indices ''a($i1)%w($i2)'' [''p'', ''q''] = Inr ''a(p)%w(q)''"
proof
  have d: "str_nat (Suc 0) = ''1''" "str_nat 2 = ''2''" "str_nat 12 = ''12''"
    by code_simp+
  have ok: "segs_ok [Txt ''a('', Idx 1, Txt '')%w('', Idx 12, Txt '', '', Idx 2, Txt '')'']"
    by code_simp
  from substitute_indices_placeholders [OF ok, of "[''i1'', ''i2'']"]
  show "substitute_indices ''a($i1)%w($i12, $i2)'' [''i1'', ''i2''] = Inl IndexError"
    by (simp add: d index_name_def)
  have ok': "segs_ok [Txt ''a('', Idx 1, Txt '')%w('', Idx 2, Txt '')'']"
    by code_simp
  from substitute_indices_placeholders [OF ok', of "[''p'', ''q'']"]
  show "substitute_indices ''a($i1)%w($i2)'' [''p'', ''q''] = Inr ''a(p)%w(q)''"
    by (simp add: d index_name_def)
qed

end
