(* ===== verification/Frozen_Signature.thy ===== *)
theory Frozen_Signature
  imports Json "HOL-Library.Multiset"
begin

text \<open>
  \<open>src/dace_fortran/bindings/frozen_signature.py\<close>: the snapshot of an SDFG's signature, its
  serialised form, the drift check and \<open>refreeze\<close>.

  The SDFG is dace's. What the module reads of it is the record \<open>sdfg\<close>: the argument list
  \<open>arglist()\<close> as an ordered dictionary of descriptors, the free symbols, the containers and
  the \<open>frontend_metadata\<close> entry with the object identity Python's \<open>is\<close> compares (\<open>sd_stamp\<close>
  hands out a fresh identity for every dictionary stored).
\<close>

section \<open>Arguments\<close>

datatype frozen_arg_kind = ARRAY | SCALAR | SYMBOL | MPI_COMM

fun kind_value :: "frozen_arg_kind \<Rightarrow> string" where
  "kind_value ARRAY = ''array''"
| "kind_value SCALAR = ''scalar''"
| "kind_value SYMBOL = ''symbol''"
| "kind_value MPI_COMM = ''mpi_comm''"

definition kind_of_value :: "string \<Rightarrow> frozen_arg_kind py" where
  "kind_of_value s =
     (if s = ''array'' then Inr ARRAY
      else if s = ''scalar'' then Inr SCALAR
      else if s = ''symbol'' then Inr SYMBOL
      else if s = ''mpi_comm'' then Inr MPI_COMM
      else Inl (ValueError s))"

definition HOST_STORAGE :: string where "HOST_STORAGE = ''CPU_Heap''"
definition DEVICE_STORAGE_PREFIX :: string where "DEVICE_STORAGE_PREFIX = ''GPU_''"

record frozen_arg =
  fa_fortran_name :: string
  fa_sdfg_name :: string
  fa_kind :: frozen_arg_kind
  fa_dtype :: string
  fa_rank :: int
  fa_shape :: "string list"
  fa_intent :: string
  fa_from_struct_member :: "string option"
  fa_is_written :: bool
  fa_aos_origin_mod :: string
  fa_aos_origin_struct :: string
  fa_aos_member_path :: string
  fa_aos_outer_rank :: int
  fa_aos_root_rank :: int
  fa_aos_struct_static :: bool
  fa_global_alloc_inside :: bool
  fa_aos_struct_pointer :: bool
  fa_aos_member_pointer :: bool
  fa_module_origin_allocatable :: bool
  fa_module_origin_pointer :: bool
  fa_storage :: string
  fa_device_storage :: string
  fa_element_of :: string
  fa_element_index :: int

definition acc_data_clause :: "frozen_arg \<Rightarrow> string" where
  "acc_data_clause a =
     (if fa_kind a \<noteq> ARRAY \<or> fa_device_storage a = [] \<or> fa_device_storage a = fa_storage a then []
      else let intent = lower (fa_intent a) in
        if intent = ''in'' \<and> \<not> fa_is_written a then ''copyin''
        else if intent = ''out'' then ''copyout''
        else ''copy'')"

definition arg_fields :: "string list" where
  "arg_fields = [''fortran_name'', ''sdfg_name'', ''kind'', ''dtype'', ''rank'', ''shape'', ''intent'',
     ''from_struct_member'', ''is_written'', ''aos_origin_mod'', ''aos_origin_struct'',
     ''aos_member_path'', ''aos_outer_rank'', ''aos_root_rank'', ''aos_struct_static'',
     ''global_alloc_inside'', ''aos_struct_pointer'', ''aos_member_pointer'',
     ''module_origin_allocatable'', ''module_origin_pointer'', ''storage'', ''device_storage'',
     ''element_of'', ''element_index'']"

definition arg_to_dict :: "frozen_arg \<Rightarrow> json" where
  "arg_to_dict a = JObj
     [(''fortran_name'', JStr (fa_fortran_name a)), (''sdfg_name'', JStr (fa_sdfg_name a)),
      (''kind'', JStr (kind_value (fa_kind a))), (''dtype'', JStr (fa_dtype a)),
      (''rank'', JInt (fa_rank a)), (''shape'', j_strs (fa_shape a)), (''intent'', JStr (fa_intent a)),
      (''from_struct_member'', opt_json (fa_from_struct_member a)),
      (''is_written'', JBool (fa_is_written a)),
      (''aos_origin_mod'', JStr (fa_aos_origin_mod a)),
      (''aos_origin_struct'', JStr (fa_aos_origin_struct a)),
      (''aos_member_path'', JStr (fa_aos_member_path a)),
      (''aos_outer_rank'', JInt (fa_aos_outer_rank a)), (''aos_root_rank'', JInt (fa_aos_root_rank a)),
      (''aos_struct_static'', JBool (fa_aos_struct_static a)),
      (''global_alloc_inside'', JBool (fa_global_alloc_inside a)),
      (''aos_struct_pointer'', JBool (fa_aos_struct_pointer a)),
      (''aos_member_pointer'', JBool (fa_aos_member_pointer a)),
      (''module_origin_allocatable'', JBool (fa_module_origin_allocatable a)),
      (''module_origin_pointer'', JBool (fa_module_origin_pointer a)),
      (''storage'', JStr (fa_storage a)), (''device_storage'', JStr (fa_device_storage a)),
      (''element_of'', JStr (fa_element_of a)), (''element_index'', JInt (fa_element_index a))]"

definition arg_from_dict :: "json \<Rightarrow> frozen_arg py" where
  "arg_from_dict j =
     rbind (j_obj j) (\<lambda>d.
     rbind (j_get ''shape'' [] (j_list j_str) d) (\<lambda>sh.
     rbind (j_item ''kind'' (\<lambda>v. rbind (j_str v) kind_of_value) d) (\<lambda>kd.
     rbind (only_fields arg_fields d) (\<lambda>_.
     rbind (j_kwarg ''fortran_name'' j_str d) (\<lambda>fn.
     rbind (j_kwarg ''sdfg_name'' j_str d) (\<lambda>sn.
     rbind (j_kwarg ''dtype'' j_str d) (\<lambda>dt.
     rbind (j_kwarg ''rank'' j_int d) (\<lambda>rk.
     rbind (j_get ''intent'' [] j_str d) (\<lambda>it.
     rbind (j_get ''from_struct_member'' None j_opt_str d) (\<lambda>fm.
     rbind (j_get ''is_written'' False j_bool d) (\<lambda>iw.
     rbind (j_get ''aos_origin_mod'' [] j_str d) (\<lambda>om.
     rbind (j_get ''aos_origin_struct'' [] j_str d) (\<lambda>os.
     rbind (j_get ''aos_member_path'' [] j_str d) (\<lambda>mp.
     rbind (j_get ''aos_outer_rank'' 0 j_int d) (\<lambda>onr.
     rbind (j_get ''aos_root_rank'' 0 j_int d) (\<lambda>rr.
     rbind (j_get ''aos_struct_static'' False j_bool d) (\<lambda>ss.
     rbind (j_get ''global_alloc_inside'' False j_bool d) (\<lambda>ga.
     rbind (j_get ''aos_struct_pointer'' False j_bool d) (\<lambda>sp.
     rbind (j_get ''aos_member_pointer'' False j_bool d) (\<lambda>mb.
     rbind (j_get ''module_origin_allocatable'' False j_bool d) (\<lambda>ma.
     rbind (j_get ''module_origin_pointer'' False j_bool d) (\<lambda>mo.
     rbind (j_get ''storage'' HOST_STORAGE j_str d) (\<lambda>st.
     rbind (j_get ''device_storage'' [] j_str d) (\<lambda>ds.
     rbind (j_get ''element_of'' [] j_str d) (\<lambda>eo.
     rbind (j_get ''element_index'' 0 j_int d) (\<lambda>ei.
       Inr \<lparr>fa_fortran_name = fn, fa_sdfg_name = sn, fa_kind = kd, fa_dtype = dt, fa_rank = rk,
            fa_shape = sh, fa_intent = it, fa_from_struct_member = fm, fa_is_written = iw,
            fa_aos_origin_mod = om, fa_aos_origin_struct = os, fa_aos_member_path = mp,
            fa_aos_outer_rank = onr, fa_aos_root_rank = rr, fa_aos_struct_static = ss,
            fa_global_alloc_inside = ga, fa_aos_struct_pointer = sp, fa_aos_member_pointer = mb,
            fa_module_origin_allocatable = ma, fa_module_origin_pointer = mo,
            fa_storage = st, fa_device_storage = ds, fa_element_of = eo,
            fa_element_index = ei\<rparr>))))))))))))))))))))))))))"

section \<open>Signatures\<close>

type_synonym module_origin = "string \<times> string"

record frozen_signature =
  fs_entry :: string
  fs_mangled :: string
  fs_args :: "frozen_arg list"
  fs_free_symbols :: "string list"
  fs_schema_version :: int
  fs_module_symbol_origins :: "(string \<times> module_origin) list"
  fs_user_comm_source :: "string option"
  fs_symbol_dtypes :: "(string \<times> string) list"
  fs_shape_only_args :: "frozen_arg list"

definition origin_to_json :: "module_origin \<Rightarrow> json" where
  "origin_to_json v = j_strs [fst v, snd v]"

definition origin_of_json :: "json \<Rightarrow> module_origin py" where
  "origin_of_json j =
     rbind (j_list j_str j) (\<lambda>xs.
       case xs of
         [m, e] \<Rightarrow> Inr (m, e)
       | [] \<Rightarrow> Inl (MissingArgument ''module'')
       | [_] \<Rightarrow> Inl (MissingArgument ''entity'')
       | _ \<Rightarrow> Inl (UnexpectedArgument ''''))"

definition sig_to_dict :: "frozen_signature \<Rightarrow> json" where
  "sig_to_dict s = JObj
     [(''entry'', JStr (fs_entry s)), (''mangled'', JStr (fs_mangled s)),
      (''args'', JList (map arg_to_dict (fs_args s))),
      (''free_symbols'', j_strs (fs_free_symbols s)),
      (''schema_version'', JInt (fs_schema_version s)),
      (''module_symbol_origins'',
         JObj (map (\<lambda>(k, v). (k, origin_to_json v)) (fs_module_symbol_origins s))),
      (''user_comm_source'', opt_json (fs_user_comm_source s)),
      (''symbol_dtypes'', JObj (map (\<lambda>(k, v). (k, JStr v)) (fs_symbol_dtypes s))),
      (''shape_only_args'', JList (map arg_to_dict (fs_shape_only_args s)))]"

definition sig_from_dict :: "json \<Rightarrow> frozen_signature py" where
  "sig_from_dict j =
     rbind (j_obj j) (\<lambda>d.
     rbind (j_item ''entry'' j_str d) (\<lambda>en.
     rbind (j_item ''mangled'' j_str d) (\<lambda>mg.
     rbind (j_item ''args'' (j_list arg_from_dict) d) (\<lambda>ag.
     rbind (j_get ''free_symbols'' [] (j_list j_str) d) (\<lambda>fr.
     rbind (j_get ''schema_version'' 1 j_int d) (\<lambda>sv.
     rbind (j_get ''module_symbol_origins'' [] (j_dict origin_of_json) d) (\<lambda>mo.
     rbind (j_get ''user_comm_source'' None j_opt_str d) (\<lambda>uc.
     rbind (j_get ''symbol_dtypes'' [] (j_dict j_str) d) (\<lambda>sd.
     rbind (j_get ''shape_only_args'' [] (j_list arg_from_dict) d) (\<lambda>so.
       Inr \<lparr>fs_entry = en, fs_mangled = mg, fs_args = ag, fs_free_symbols = fr,
            fs_schema_version = sv, fs_module_symbol_origins = mo, fs_user_comm_source = uc,
            fs_symbol_dtypes = sd, fs_shape_only_args = so\<rparr>))))))))))"

section \<open>The SDFG\<close>

datatype dace_dtype =
    Opaque string       \<comment> \<open>its C type\<close>
  | Typeclass string    \<comment> \<open>what \<open>to_string()\<close> gives\<close>
  | OtherType string    \<comment> \<open>what \<open>str()\<close> gives\<close>

fun dtype_string :: "dace_dtype \<Rightarrow> string" where
  "dtype_string (Opaque c) = c"
| "dtype_string (Typeclass s) = s"
| "dtype_string (OtherType s) = s"

record desc =
  d_dtype :: dace_dtype
  d_storage :: string
  d_transient :: bool
  d_scalar :: bool

record sdfg =
  sd_name :: string
  sd_arglist :: "(string \<times> desc) list"
  sd_free_symbols :: "string list"
  sd_arrays :: "(string \<times> desc) list"
  sd_symbols :: "string list"
  sd_written :: "string list"
  sd_metadata :: "(nat \<times> json) option"
  sd_cache :: "(nat \<times> frozen_signature) option"
  sd_stamp :: nat

datatype drift_error =
    DriftArgs "string list" "string list"
  | DriftDtype string string string
  | DriftSymbols "string list" "string list"
  | RefreezeNewSymbols "string list"
  | RefreezeDropped "string list"
  | NoSnapshot string
  | BadSnapshot py_error

section \<open>Drift check\<close>

definition live_names :: "sdfg \<Rightarrow> string list" where
  "live_names g = filter (\<lambda>k. k \<notin> set (sd_free_symbols g)) (map fst (sd_arglist g))"

definition snap_names :: "frozen_signature \<Rightarrow> string list" where
  "snap_names s = filter (\<lambda>k. k \<notin> set (fs_free_symbols s)) (map fa_sdfg_name (fs_args s))"

fun check_dtypes ::
  "string list \<Rightarrow> (string \<times> desc) list \<Rightarrow> frozen_arg list \<Rightarrow> drift_error + unit" where
  "check_dtypes snap_fs live [] = Inr ()"
| "check_dtypes snap_fs live (a # as) =
     (if fa_sdfg_name a \<in> set snap_fs then check_dtypes snap_fs live as
      else case map_of live (fa_sdfg_name a) of
        None \<Rightarrow> check_dtypes snap_fs live as
      | Some d \<Rightarrow>
          (if dtype_string (d_dtype d) \<noteq> fa_dtype a
           then Inl (DriftDtype (fa_sdfg_name a) (fa_dtype a) (dtype_string (d_dtype d)))
           else check_dtypes snap_fs live as))"

definition verify_against :: "frozen_signature \<Rightarrow> sdfg \<Rightarrow> drift_error + unit" where
  "verify_against s g =
     (if sort (live_names g) \<noteq> sort (snap_names s) then Inl (DriftArgs (snap_names s) (live_names g))
      else rbind (check_dtypes (fs_free_symbols s) (sd_arglist g) (fs_args s)) (\<lambda>_.
        if set (sd_free_symbols g) \<noteq> set (fs_free_symbols s)
        then Inl (DriftSymbols (sort (remdups (fs_free_symbols s))) (sort (remdups (sd_free_symbols g))))
        else Inr ()))"

section \<open>Storage on the SDFG\<close>

definition symbol_dtypes_of :: "sdfg \<Rightarrow> string list \<Rightarrow> (string \<times> string) list" where
  "symbol_dtypes_of g names =
     map (\<lambda>n. (n, dtype_string (d_dtype (the (map_of (sd_arglist g) n)))))
       (filter (\<lambda>n. map_of (sd_arglist g) n \<noteq> None) (rev (remdups (rev names))))"

text \<open>The part of \<open>get_frozen_signature\<close> after a cache miss.\<close>

definition load_snapshot ::
  "sdfg \<Rightarrow> nat \<Rightarrow> json \<Rightarrow> py_error + frozen_signature option \<times> sdfg" where
  "load_snapshot g i raw =
     rbind (sig_from_dict raw) (\<lambda>s.
       let s' = (if fs_free_symbols s \<noteq> [] \<and> fs_symbol_dtypes s = []
                 then s\<lparr>fs_symbol_dtypes := symbol_dtypes_of g (fs_free_symbols s)\<rparr> else s)
       in Inr (Some s', g\<lparr>sd_cache := Some (i, s')\<rparr>))"

definition get_frozen_signature :: "sdfg \<Rightarrow> py_error + frozen_signature option \<times> sdfg" where
  "get_frozen_signature g =
     (case sd_metadata g of
        None \<Rightarrow> Inr (None, g)
      | Some (i, raw) \<Rightarrow>
          (case sd_cache g of
             Some (j, s) \<Rightarrow> if j = i then Inr (Some s, g) else load_snapshot g i raw
           | None \<Rightarrow> load_snapshot g i raw))"

definition attach_to_sdfg :: "sdfg \<Rightarrow> frozen_signature option \<Rightarrow> sdfg" where
  "attach_to_sdfg g frozen =
     (case frozen of
        None \<Rightarrow> g\<lparr>sd_metadata := None, sd_cache := None\<rparr>
      | Some s \<Rightarrow>
          g\<lparr>sd_metadata := Some (sd_stamp g, sig_to_dict s), sd_cache := Some (sd_stamp g, s),
            sd_stamp := Suc (sd_stamp g)\<rparr>)"

text \<open>
  Removing the inputs that come from a module and are not read any more. The names the graph
  reads (\<open>pipelines.read_data\<close>) and dace's \<open>remove_data\<close> are parameters.
\<close>

definition drop_unread_module_inputs ::
  "(sdfg \<Rightarrow> string list) \<Rightarrow> (sdfg \<Rightarrow> string \<Rightarrow> sdfg) \<Rightarrow> sdfg \<Rightarrow> py_error + string list \<times> sdfg" where
  "drop_unread_module_inputs read_data remove_data g =
     rbind (get_frozen_signature g) (\<lambda>(frozen, g).
       case frozen of
         None \<Rightarrow> Inr ([], g)
       | Some s \<Rightarrow>
           (let read = read_data g;
                unread = filter (\<lambda>n. n \<notin> set read \<and>
                    (case map_of (sd_arrays g) n of None \<Rightarrow> False | Some d \<Rightarrow> \<not> d_transient d))
                  (map fst (fs_module_symbol_origins s))
            in Inr (unread, foldl remove_data g unread)))"

section \<open>Refreeze\<close>

definition may_shrink :: "frozen_arg_kind \<Rightarrow> bool" where
  "may_shrink k = (k \<in> {SCALAR, SYMBOL})"

definition dropped_buffers :: "frozen_signature \<Rightarrow> sdfg \<Rightarrow> string list" where
  "dropped_buffers s g =
     map fa_sdfg_name (filter (\<lambda>a. \<not> may_shrink (fa_kind a) \<and>
         fa_sdfg_name a \<notin> fst ` set (fs_module_symbol_origins s) \<and>
         map_of (sd_arglist g) (fa_sdfg_name a) = None) (fs_args s))"

definition survives :: "sdfg \<Rightarrow> frozen_arg \<Rightarrow> bool" where
  "survives g a = (map_of (sd_arglist g) (fa_sdfg_name a) \<noteq> None \<or> fa_sdfg_name a \<in> set (sd_free_symbols g))"

definition relocate :: "sdfg \<Rightarrow> frozen_arg \<Rightarrow> frozen_arg" where
  "relocate g a =
     (let name = (case map_of (sd_arrays g) (fa_sdfg_name a) of None \<Rightarrow> [] | Some d \<Rightarrow> d_storage d)
      in a\<lparr>fa_device_storage := (if startswith name DEVICE_STORAGE_PREFIX then name else [])\<rparr>)"

definition refrozen :: "frozen_signature \<Rightarrow> sdfg \<Rightarrow> frozen_signature" where
  "refrozen s g =
     (let kept = filter (\<lambda>x. x \<in> set (sd_free_symbols g)) (fs_free_symbols s)
      in s\<lparr>fs_args := map (relocate g) (filter (survives g) (fs_args s)),
           fs_free_symbols := kept, fs_symbol_dtypes := symbol_dtypes_of g kept\<rparr>)"

definition refreeze :: "sdfg \<Rightarrow> drift_error + frozen_signature \<times> sdfg" where
  "refreeze g0 =
     (case get_frozen_signature g0 of
        Inl e \<Rightarrow> Inl (BadSnapshot e)
      | Inr (None, g) \<Rightarrow> Inl (NoSnapshot (sd_name g))
      | Inr (Some s, g) \<Rightarrow>
          (let added = sort (remdups (filter (\<lambda>x. x \<notin> set (fs_free_symbols s)) (sd_free_symbols g)))
           in if added \<noteq> [] then Inl (RefreezeNewSymbols added)
              else if dropped_buffers s g \<noteq> [] then Inl (RefreezeDropped (dropped_buffers s g))
              else rbind (verify_against (refrozen s g) g) (\<lambda>_.
                Inr (refrozen s g, attach_to_sdfg g (Some (refrozen s g))))))"

section \<open>Lemmas\<close>

lemma kind_round_trip [simp]: "kind_of_value (kind_value k) = Inr k"
  by (cases k) (simp_all add: kind_of_value_def)

lemma arg_round_trip: "arg_from_dict (arg_to_dict a) = Inr a"
  by (simp add: arg_from_dict_def arg_to_dict_def arg_fields_def j_item_def j_get_def j_kwarg_def
      only_fields_def)

interpretation arg_codec: codec arg_to_dict arg_from_dict "\<lambda>_. True"
  by unfold_locales (rule arg_round_trip)

lemma origin_round_trip: "origin_of_json (origin_to_json v) = Inr v"
  by (simp add: origin_of_json_def origin_to_json_def)

lemma sig_round_trip: "sig_from_dict (sig_to_dict s) = Inr s"
proof -
  have "j_dict origin_of_json (JObj (map (\<lambda>(k, v). (k, origin_to_json v)) xs)) = Inr xs" for xs
    by (rule j_dict_map) (simp add: origin_round_trip split_beta)
  moreover have "j_dict j_str (JObj (map (\<lambda>(k, v). (k, JStr v)) xs)) = Inr xs" for xs
    by (rule j_dict_map) (simp add: split_beta)
  ultimately show ?thesis
    by (simp add: sig_from_dict_def sig_to_dict_def j_item_def j_get_def arg_codec.dec_enc_list
        del: j_dict.simps)
qed

interpretation sig_codec: codec sig_to_dict sig_from_dict "\<lambda>_. True"
  by unfold_locales (rule sig_round_trip)

lemma check_dtypes_iff:
  "check_dtypes fs live as = Inr () \<longleftrightarrow>
     (\<forall>a \<in> set as. \<forall>d. fa_sdfg_name a \<notin> set fs \<and> map_of live (fa_sdfg_name a) = Some d \<longrightarrow>
        fa_dtype a = dtype_string (d_dtype d))"
  by (induction as) (auto split: option.splits)

lemma sort_eq_mset: "sort xs = sort ys \<longleftrightarrow> mset xs = mset (ys :: string list)"
  by (metis mset_sort properties_for_sort sorted_sort)

lemma sort_Nil_iff: "sort xs = [] \<longleftrightarrow> xs = ([] :: string list)"
  by (metis set_empty set_sort)

lemma verify_iff:
  "verify_against s g = Inr () \<longleftrightarrow>
     mset (live_names g) = mset (snap_names s) \<and>
     (\<forall>a \<in> set (fs_args s). \<forall>d. fa_sdfg_name a \<notin> set (fs_free_symbols s) \<and>
        map_of (sd_arglist g) (fa_sdfg_name a) = Some d \<longrightarrow> fa_dtype a = dtype_string (d_dtype d)) \<and>
     set (sd_free_symbols g) = set (fs_free_symbols s)"
  unfolding verify_against_def
  by (auto simp: sort_eq_mset rbind_Inr_iff check_dtypes_iff)

lemma get_attach:
  "get_frozen_signature (attach_to_sdfg g (Some s)) = Inr (Some s, attach_to_sdfg g (Some s))"
  by (simp add: get_frozen_signature_def attach_to_sdfg_def)

lemma load_keeps_graph:
  assumes "load_snapshot g i raw = Inr (r, g')"
  shows "sd_arglist g' = sd_arglist g \<and> sd_free_symbols g' = sd_free_symbols g \<and>
    sd_arrays g' = sd_arrays g \<and> sd_metadata g' = sd_metadata g"
  using assms by (cases "sig_from_dict raw") (auto simp: load_snapshot_def Let_def)

lemma get_keeps_graph:
  assumes "get_frozen_signature g = Inr (r, g')"
  shows "sd_arglist g' = sd_arglist g \<and> sd_free_symbols g' = sd_free_symbols g \<and>
    sd_arrays g' = sd_arrays g \<and> sd_metadata g' = sd_metadata g"
proof (cases "sd_metadata g")
  case None
  with assms show ?thesis by (simp add: get_frozen_signature_def)
next
  case (Some m)
  obtain i raw where m: "m = (i, raw)" by (cases m)
  show ?thesis
  proof (cases "load_snapshot g i raw = Inr (r, g')")
    case True
    then show ?thesis by (rule load_keeps_graph)
  next
    case False
    with assms Some m have "g' = g"
      by (cases "sd_cache g") (simp_all add: get_frozen_signature_def split: prod.splits if_splits)
    then show ?thesis by simp
  qed
qed

lemma attach_keeps_graph [simp]:
  "sd_arglist (attach_to_sdfg g s) = sd_arglist g"
  "sd_free_symbols (attach_to_sdfg g s) = sd_free_symbols g"
  "sd_arrays (attach_to_sdfg g s) = sd_arrays g"
  by (simp_all add: attach_to_sdfg_def split: option.splits)

lemma relocate_simps [simp]:
  "fa_sdfg_name (relocate g a) = fa_sdfg_name a" "fa_kind (relocate g a) = fa_kind a"
  "fa_dtype (relocate g a) = fa_dtype a" "fa_storage (relocate g a) = fa_storage a"
  "(relocate g a)\<lparr>fa_device_storage := x\<rparr> = a\<lparr>fa_device_storage := x\<rparr>"
  by (simp_all add: relocate_def Let_def)

lemma relocate_idem [simp]: "relocate g (relocate g a) = relocate g a"
  by (simp add: relocate_def Let_def)

lemma relocate_attach [simp]: "relocate (attach_to_sdfg g s) = relocate g"
  by (rule ext) (simp add: relocate_def)

lemma survives_attach [simp]: "survives (attach_to_sdfg g s) = survives g"
  by (rule ext) (simp add: survives_def)

lemma survives_relocate [simp]: "survives g (relocate g a) = survives g a"
  by (simp add: survives_def)

lemma symbol_dtypes_attach [simp]: "symbol_dtypes_of (attach_to_sdfg g s) = symbol_dtypes_of g"
  by (rule ext) (simp add: symbol_dtypes_of_def)

lemma refrozen_idem: "refrozen (refrozen s g) (attach_to_sdfg g t) = refrozen s g"
proof -
  have "filter (survives g) (map (relocate g) (filter (survives g) xs)) =
      map (relocate g) (filter (survives g) xs)" for xs
    by (induction xs) auto
  then show ?thesis
    by (simp add: refrozen_def Let_def comp_def)
qed

lemma verify_attach [simp]: "verify_against s (attach_to_sdfg g t) = verify_against s g"
  by (simp add: verify_against_def live_names_def)

lemma refreeze_Inr:
  assumes "refreeze g = Inr (s', g')"
  obtains s h where "get_frozen_signature g = Inr (Some s, h)"
    and "set (sd_free_symbols h) \<subseteq> set (fs_free_symbols s)" and "dropped_buffers s h = []"
    and "s' = refrozen s h" and "g' = attach_to_sdfg h (Some s')"
    and "verify_against s' h = Inr ()"
  using assms
  by (auto simp: refreeze_def Let_def rbind_Inr_iff filter_empty_conv sort_Nil_iff
      split: sum.splits option.splits prod.splits if_splits)

lemma dropped_refrozen:
  assumes "dropped_buffers s g = []"
  shows "dropped_buffers (refrozen s g) (attach_to_sdfg g t) = []"
  using assms by (auto simp: dropped_buffers_def refrozen_def Let_def filter_empty_conv)

text \<open>The caller's own buffers: arguments that may not disappear.\<close>

definition caller_buffer :: "frozen_signature \<Rightarrow> frozen_arg \<Rightarrow> bool" where
  "caller_buffer s a = (\<not> may_shrink (fa_kind a) \<and> fa_sdfg_name a \<notin> fst ` set (fs_module_symbol_origins s))"

lemma refrozen_buffers:
  assumes "dropped_buffers s g = []"
  shows "map (\<lambda>a. a\<lparr>fa_device_storage := []\<rparr>) (filter (caller_buffer s) (fs_args (refrozen s g))) =
    map (\<lambda>a. a\<lparr>fa_device_storage := []\<rparr>) (filter (caller_buffer s) (fs_args s))"
proof -
  have "map (\<lambda>a. a\<lparr>fa_device_storage := []\<rparr>)
      (filter (caller_buffer s) (map (relocate g) (filter (survives g) xs))) =
    map (\<lambda>a. a\<lparr>fa_device_storage := []\<rparr>) (filter (caller_buffer s) xs)"
    if "set xs \<subseteq> set (fs_args s)" for xs
    using that
  proof (induction xs)
    case (Cons a xs)
    have "caller_buffer s a \<Longrightarrow> survives g a"
      using assms Cons.prems by (auto simp: dropped_buffers_def filter_empty_conv caller_buffer_def survives_def)
    moreover have "caller_buffer s (relocate g a) = caller_buffer s a"
      by (simp add: caller_buffer_def)
    ultimately show ?case using Cons by auto
  qed simp
  then show ?thesis by (simp add: refrozen_def Let_def)
qed

section \<open>Properties\<close>

text \<open>A frozen signature survives its serialised form: \<open>FrozenSignature.from_dict(s.to_dict())\<close> is
  \<open>s\<close>, with every argument, module origin and symbol type.\<close>

theorem signature_dict_round_trip: "sig_from_dict (sig_to_dict s) = Inr s"
  by (rule sig_codec.dec_enc) simp

text \<open>C2. The drift check accepts an SDFG exactly when its non-symbol argument names are those of the
  snapshot (as multisets), every such argument that is live has the recorded element type, and the
  free symbols are the same set.\<close>

theorem verify_against_iff:
  "verify_against s g = Inr () \<longleftrightarrow>
     mset (live_names g) = mset (snap_names s) \<and>
     (\<forall>a \<in> set (fs_args s). \<forall>d. fa_sdfg_name a \<notin> set (fs_free_symbols s) \<and>
        map_of (sd_arglist g) (fa_sdfg_name a) = Some d \<longrightarrow> fa_dtype a = dtype_string (d_dtype d)) \<and>
     set (sd_free_symbols g) = set (fs_free_symbols s)"
  by (rule verify_iff)

definition ex_arg :: "string \<Rightarrow> frozen_arg_kind \<Rightarrow> string \<Rightarrow> frozen_arg" where
  "ex_arg n k dt =
     \<lparr>fa_fortran_name = n, fa_sdfg_name = n, fa_kind = k, fa_dtype = dt, fa_rank = 1,
      fa_shape = [''n''], fa_intent = ''in'', fa_from_struct_member = None, fa_is_written = False,
      fa_aos_origin_mod = [], fa_aos_origin_struct = [], fa_aos_member_path = [],
      fa_aos_outer_rank = 0, fa_aos_root_rank = 0, fa_aos_struct_static = False,
      fa_global_alloc_inside = False, fa_aos_struct_pointer = False, fa_aos_member_pointer = False,
      fa_module_origin_allocatable = False, fa_module_origin_pointer = False,
      fa_storage = HOST_STORAGE, fa_device_storage = [], fa_element_of = [], fa_element_index = 0\<rparr>"

definition ex_sig :: frozen_signature where
  "ex_sig =
     \<lparr>fs_entry = ''k'', fs_mangled = ''_QPk'',
      fs_args = [ex_arg ''u'' ARRAY ''float64'', ex_arg ''c'' SCALAR ''int32''],
      fs_free_symbols = [''n''], fs_schema_version = 1, fs_module_symbol_origins = [],
      fs_user_comm_source = None, fs_symbol_dtypes = [(''n'', ''int64'')], fs_shape_only_args = []\<rparr>"

definition ex_desc :: "string \<Rightarrow> string \<Rightarrow> desc" where
  "ex_desc dt st = \<lparr>d_dtype = Typeclass dt, d_storage = st, d_transient = False, d_scalar = False\<rparr>"

definition ex_sdfg :: sdfg where
  "ex_sdfg =
     \<lparr>sd_name = ''k'', sd_arglist = [(''u'', ex_desc ''float64'' ''GPU_Global'')],
      sd_free_symbols = [], sd_arrays = [(''u'', ex_desc ''float64'' ''GPU_Global'')],
      sd_symbols = [], sd_written = [], sd_metadata = Some (0, sig_to_dict ex_sig),
      sd_cache = None, sd_stamp = 1\<rparr>"

lemmas ex_defs = ex_arg_def ex_sig_def ex_desc_def ex_sdfg_def

theorem verify_against_iff_witness:
  "verify_against (refrozen ex_sig ex_sdfg) ex_sdfg = Inr ()"
  unfolding verify_against_iff
  by (simp add: ex_defs refrozen_def survives_def relocate_def live_names_def snap_names_def Let_def)

text \<open>C1. A successful \<open>refreeze\<close> keeps the buffer side of the interface: the caller's buffers (arrays and
  communicators that do not come from a module) are the same arguments in the same order, equal in
  every field except the kernel-side location; no argument is new and the caller-side location of
  none changes; the free symbols are exactly the live ones; and the result passes the drift check
  against the SDFG it is attached to.\<close>

theorem refreeze_keeps_caller_buffers:
  assumes "refreeze g = Inr (s', g')" and "get_frozen_signature g = Inr (Some s, h)"
  shows "map (\<lambda>a. a\<lparr>fa_device_storage := []\<rparr>) (filter (caller_buffer s) (fs_args s')) =
      map (\<lambda>a. a\<lparr>fa_device_storage := []\<rparr>) (filter (caller_buffer s) (fs_args s)) \<and>
    (\<lambda>a. a\<lparr>fa_device_storage := []\<rparr>) ` set (fs_args s') \<subseteq>
      (\<lambda>a. a\<lparr>fa_device_storage := []\<rparr>) ` set (fs_args s) \<and>
    set (fs_free_symbols s') = set (sd_free_symbols g) \<and>
    verify_against s' g' = Inr () \<and>
    get_frozen_signature g' = Inr (Some s', g')"
proof -
  from assms have r: "dropped_buffers s h = []" "s' = refrozen s h"
    "g' = attach_to_sdfg h (Some s')" "verify_against s' h = Inr ()"
    by (auto elim: refreeze_Inr)
  have "(\<lambda>a. a\<lparr>fa_device_storage := []\<rparr>) ` set (fs_args s') \<subseteq>
      (\<lambda>a. a\<lparr>fa_device_storage := []\<rparr>) ` set (fs_args s)"
    by (auto simp: r(2) refrozen_def Let_def image_image)
  moreover have "set (fs_free_symbols s') = set (sd_free_symbols g)"
    using r(4) get_keeps_graph [OF assms(2)] by (auto simp: verify_iff)
  ultimately show ?thesis
    using refrozen_buffers [OF r(1)] r(4) by (simp add: r(2,3) get_attach)
qed

lemma ex_get: "get_frozen_signature ex_sdfg = Inr (Some ex_sig, ex_sdfg\<lparr>sd_cache := Some (0, ex_sig)\<rparr>)"
proof -
  have "sd_metadata ex_sdfg = Some (0, sig_to_dict ex_sig)" "sd_cache ex_sdfg = None"
    by (simp_all add: ex_sdfg_def)
  moreover have "fs_symbol_dtypes ex_sig \<noteq> []" by (simp add: ex_sig_def)
  ultimately show ?thesis
    by (simp add: get_frozen_signature_def load_snapshot_def sig_round_trip Let_def)
qed

lemma ex_refreeze:
  "refreeze ex_sdfg = Inr (refrozen ex_sig ex_sdfg,
     attach_to_sdfg (ex_sdfg\<lparr>sd_cache := Some (0, ex_sig)\<rparr>) (Some (refrozen ex_sig ex_sdfg)))"
proof -
  let ?h = "ex_sdfg\<lparr>sd_cache := Some (0, ex_sig)\<rparr>"
  have same: "refrozen ex_sig ?h = refrozen ex_sig ex_sdfg"
    by (simp add: refrozen_def survives_def relocate_def symbol_dtypes_of_def cong: map_cong filter_cong)
  have "verify_against (refrozen ex_sig ex_sdfg) ?h = Inr ()"
    unfolding verify_iff
    by (simp add: ex_defs refrozen_def survives_def relocate_def live_names_def snap_names_def Let_def)
  moreover have "dropped_buffers ex_sig ?h = []"
    by (simp add: dropped_buffers_def ex_defs may_shrink_def)
  moreover have "sd_free_symbols ?h = []" by (simp add: ex_sdfg_def)
  ultimately show ?thesis
    by (simp add: refreeze_def ex_get same Let_def)
qed

theorem refreeze_keeps_caller_buffers_witness:
  "map fa_sdfg_name (filter (caller_buffer ex_sig) (fs_args (refrozen ex_sig ex_sdfg))) = [''u''] \<and>
   verify_against (refrozen ex_sig ex_sdfg)
     (attach_to_sdfg (ex_sdfg\<lparr>sd_cache := Some (0, ex_sig)\<rparr>) (Some (refrozen ex_sig ex_sdfg))) = Inr ()"
proof -
  from refreeze_keeps_caller_buffers [OF ex_refreeze ex_get]
  have eq: "map (\<lambda>a. a\<lparr>fa_device_storage := []\<rparr>)
        (filter (caller_buffer ex_sig) (fs_args (refrozen ex_sig ex_sdfg))) =
      map (\<lambda>a. a\<lparr>fa_device_storage := []\<rparr>) (filter (caller_buffer ex_sig) (fs_args ex_sig))"
    and v: "verify_against (refrozen ex_sig ex_sdfg)
     (attach_to_sdfg (ex_sdfg\<lparr>sd_cache := Some (0, ex_sig)\<rparr>) (Some (refrozen ex_sig ex_sdfg))) = Inr ()"
    by blast+
  from arg_cong [OF eq, of "map fa_sdfg_name"] v show ?thesis
    by (simp add: comp_def) (simp add: ex_defs caller_buffer_def may_shrink_def)
qed

text \<open>\<open>refreeze\<close> is idempotent: run again on the SDFG it has just re-snapshotted, it succeeds and
  returns the same signature.\<close>

theorem refreeze_idempotent:
  assumes "refreeze g = Inr (s', g')"
  shows "\<exists>g''. refreeze g' = Inr (s', g'')"
proof -
  from assms obtain s h where r: "set (sd_free_symbols h) \<subseteq> set (fs_free_symbols s)"
    "dropped_buffers s h = []" "s' = refrozen s h" "g' = attach_to_sdfg h (Some s')"
    "verify_against s' h = Inr ()"
    by (rule refreeze_Inr)
  have "set (sd_free_symbols h) \<subseteq> set (fs_free_symbols s')"
    using r(1) by (auto simp: r(3) refrozen_def Let_def)
  moreover have "dropped_buffers s' g' = []" "refrozen s' g' = s'"
    using dropped_refrozen [OF r(2)] refrozen_idem by (simp_all add: r(3,4))
  moreover have "get_frozen_signature g' = Inr (Some s', g')"
    unfolding r(4) by (rule get_attach)
  ultimately show ?thesis
    using r(5) by (simp add: refreeze_def Let_def r(4) filter_empty_conv subset_iff)
qed

theorem refreeze_idempotent_witness:
  "\<exists>g''. refreeze (attach_to_sdfg (ex_sdfg\<lparr>sd_cache := Some (0, ex_sig)\<rparr>)
     (Some (refrozen ex_sig ex_sdfg))) = Inr (refrozen ex_sig ex_sdfg, g'')"
  by (rule refreeze_idempotent [OF ex_refreeze])

end
