(* ===== verification/Fortran_Interface.thy ===== *)
theory Fortran_Interface
  imports Frozen_Signature
begin

text \<open>
  \<open>src/dace_fortran/bindings/fortran_interface.py\<close>: the caller-facing interface of the entry
  subroutine and its construction from the bridge's snapshot. The snapshot is the dictionary
  \<open>HLFIRModule.get_fortran_interface(entry)\<close> returns, a \<open>json\<close> value here.
\<close>

section \<open>Fortran types of the SDFG's element types\<close>

definition FORTRAN_C_TYPE :: "(string \<times> string) list" where
  "FORTRAN_C_TYPE =
     [(''complex128'', ''complex(c_double_complex)''),
      (''complex64'', ''complex(c_float_complex)''),
      (''float64'', ''real(c_double)''),
      (''float32'', ''real(c_float)''),
      (''int8'', ''integer(c_int8_t)''),
      (''int16'', ''integer(c_int16_t)''),
      (''int32'', ''integer(c_int)''),
      (''int64'', ''integer(c_int64_t)''),
      (''bool'', ''logical(c_bool)''),
      (''uint8'', ''logical(1)''),
      (''uint16'', ''logical(2)''),
      (''uint32'', ''logical(4)''),
      (''uint64'', ''logical(8)'')]"

definition LOGICAL_DTYPES :: "string list" where
  "LOGICAL_DTYPES = map fst (filter (\<lambda>(d, f). startswith f ''logical'') FORTRAN_C_TYPE)"

definition fortran_c_type :: "string \<Rightarrow> string py" where
  "fortran_c_type dtype =
     of_option (ValueError (''no iso_c_binding Fortran type for SDFG dtype '' @ dtype))
       (map_of FORTRAN_C_TYPE dtype)"

section \<open>The interface\<close>

record fmember =
  mb_name :: string
  mb_fortran_type :: string
  mb_rank :: int
  mb_shape :: "string list"
  mb_struct_name :: "string option"
  mb_alloc :: string

record derived_type =
  dt_name :: string
  dt_module :: "string option"
  dt_members :: "fmember list"

record original_arg =
  oa_name :: string
  oa_fortran_type :: string
  oa_rank :: int
  oa_shape :: "string list"
  oa_intent :: string
  oa_optional :: bool
  oa_struct_type :: "string option"
  oa_passing :: string

record original_interface =
  oi_entry :: string
  oi_args :: "original_arg list"
  oi_struct_types :: "(string \<times> derived_type) list"
  oi_used_modules :: "(string \<times> string list) list"
  oi_module_symbol_sources :: "(string \<times> module_origin) list"

section \<open>Building it from the snapshot\<close>

text \<open>\<open>x or None\<close> and \<open>x or ""\<close> for a string that may be missing.\<close>

definition or_None :: "string option \<Rightarrow> string option" where
  "or_None x = (case x of None \<Rightarrow> None | Some s \<Rightarrow> if s = [] then None else Some s)"

definition or_empty :: "string option \<Rightarrow> string" where
  "or_empty x = (case x of None \<Rightarrow> [] | Some s \<Rightarrow> s)"

text \<open>The \<open>fortran_type\<close> and \<open>struct_type\<close> of one dummy.\<close>

definition auto_arg_type :: "(string \<times> json) list \<Rightarrow> (string \<times> string option) py" where
  "auto_arg_type a =
     rbind (j_item ''is_struct'' j_bool a) (\<lambda>is_struct.
     if is_struct then
       rbind (j_item ''struct_name'' j_str a) (\<lambda>sn.
       if sn = [] then
         rbind (j_item ''name'' j_str a) (\<lambda>n.
         Inl (ValueError (''auto-iface: cannot name derived-type arg '' @ n)))
       else Inr (''type('' @ sn @ '')'', Some sn))
     else
       rbind (j_item ''dtype'' j_str a) (\<lambda>dt.
       case map_of FORTRAN_C_TYPE dt of
         None \<Rightarrow> rbind (j_item ''name'' j_str a) (\<lambda>n.
           Inl (ValueError (''auto-iface: unsupported dtype '' @ dt @ '' for argument '' @ n)))
       | Some ft \<Rightarrow> Inr (ft, None)))"

definition auto_arg :: "json \<Rightarrow> original_arg py" where
  "auto_arg j =
     rbind (j_obj j) (\<lambda>a.
     rbind (auto_arg_type a) (\<lambda>(ft, st).
     rbind (j_item ''rank'' j_int a) (\<lambda>rank.
     rbind (j_item ''shape'' (j_list j_str) a) (\<lambda>sh.
     rbind (j_item ''name'' j_str a) (\<lambda>n.
     rbind (j_item ''intent'' j_str a) (\<lambda>it.
     rbind (j_get ''optional'' False j_bool a) (\<lambda>opt.
     rbind (j_get ''passing'' [] j_str a) (\<lambda>ps.
       Inr \<lparr>oa_name = n, oa_fortran_type = ft, oa_rank = rank,
            oa_shape = (if rank > 0 \<and> sh = [] then replicate (nat rank) '':'' else sh),
            oa_intent = it, oa_optional = opt, oa_struct_type = st, oa_passing = ps\<rparr>))))))))"

definition auto_member :: "json \<Rightarrow> fmember py" where
  "auto_member j =
     rbind (j_obj j) (\<lambda>m.
     rbind (j_get ''struct_name'' None j_opt_str m) (\<lambda>sn.
     let nested = or_empty sn in
     rbind (if nested \<noteq> [] then Inr (''type('' @ nested @ '')'')
            else rbind (j_item ''dtype'' j_str m) (\<lambda>dt.
              Inr (case map_of FORTRAN_C_TYPE dt of None \<Rightarrow> ''??'' | Some ft \<Rightarrow> ft))) (\<lambda>ft.
     rbind (j_item ''name'' j_str m) (\<lambda>n.
     rbind (j_item ''rank'' j_int m) (\<lambda>rank.
     rbind (j_item ''shape'' (j_list j_str) m) (\<lambda>sh.
     rbind (j_get ''alloc'' [] j_str m) (\<lambda>al.
       Inr \<lparr>mb_name = n, mb_fortran_type = ft, mb_rank = rank, mb_shape = sh,
            mb_struct_name = (if nested = [] then None else Some nested), mb_alloc = al\<rparr>)))))))"

definition auto_struct :: "json \<Rightarrow> derived_type py" where
  "auto_struct j =
     rbind (j_obj j) (\<lambda>st.
     rbind (j_item ''members'' (j_list auto_member) st) (\<lambda>ms.
     rbind (j_item ''name'' j_str st) (\<lambda>n.
     rbind (j_item ''module'' j_opt_str st) (\<lambda>md.
       Inr \<lparr>dt_name = n, dt_module = or_None md, dt_members = ms\<rparr>))))"

definition build_auto_interface :: "json \<Rightarrow> string \<Rightarrow> original_interface py" where
  "build_auto_interface raw entry =
     rbind (j_obj raw) (\<lambda>d.
     rbind (j_item ''args'' (j_list auto_arg) d) (\<lambda>args.
     rbind (j_item ''used_modules'' (j_dict (j_list j_str)) d) (\<lambda>um.
     rbind (j_get ''struct_types'' [] (j_dict auto_struct) d) (\<lambda>st.
       Inr \<lparr>oi_entry = entry, oi_args = args, oi_struct_types = st, oi_used_modules = um,
            oi_module_symbol_sources = []\<rparr>))))"

section \<open>Lemmas\<close>

lemma fortran_c_type_Inr [simp]: "fortran_c_type d = Inr f \<longleftrightarrow> map_of FORTRAN_C_TYPE d = Some f"
  by (auto simp: fortran_c_type_def of_option_def split: option.splits)

lemma FORTRAN_C_TYPE_distinct: "distinct (map snd FORTRAN_C_TYPE)" "distinct (map fst FORTRAN_C_TYPE)"
  by (simp_all add: FORTRAN_C_TYPE_def)

lemma map_of_inject:
  assumes "distinct (map snd xs)" "map_of xs a = Some y" "map_of xs b = Some y"
  shows "a = b"
proof -
  from assms(2,3) have "(a, y) \<in> set xs" "(b, y) \<in> set xs" by (auto dest: map_of_SomeD)
  with assms(1) show ?thesis
    by (metis (no_types, lifting) distinct_map inj_onD prod.inject snd_conv)
qed

text \<open>What a built argument looks like: its type is a named type or that of a mapped element type, and
  an array argument of unknown shape has one colon per dimension.\<close>

definition arg_wf :: "original_arg \<Rightarrow> bool" where
  "arg_wf a =
     ((case oa_struct_type a of
         Some s \<Rightarrow> s \<noteq> [] \<and> oa_fortran_type a = ''type('' @ s @ '')''
       | None \<Rightarrow> oa_fortran_type a \<in> snd ` set FORTRAN_C_TYPE) \<and>
      (oa_rank a > 0 \<longrightarrow> oa_shape a \<noteq> []))"

definition member_wf :: "fmember \<Rightarrow> bool" where
  "member_wf m =
     (case mb_struct_name m of
        Some s \<Rightarrow> s \<noteq> [] \<and> mb_fortran_type m = ''type('' @ s @ '')''
      | None \<Rightarrow> mb_fortran_type m \<in> insert ''??'' (snd ` set FORTRAN_C_TYPE))"

lemma map_of_range: "map_of xs k = Some y \<Longrightarrow> y \<in> snd ` set xs"
  by (force dest: map_of_SomeD)

lemma auto_arg_type_wf:
  assumes "auto_arg_type a = Inr (ft, st)"
  shows "case st of Some s \<Rightarrow> s \<noteq> [] \<and> ft = ''type('' @ s @ '')''
    | None \<Rightarrow> ft \<in> snd ` set FORTRAN_C_TYPE"
proof -
  from assms obtain b where b: "j_item ''is_struct'' j_bool a = Inr b"
    by (auto simp: auto_arg_type_def rbind_Inr_iff)
  show ?thesis
  proof (cases b)
    case True
    with assms b show ?thesis
      by (auto simp: auto_arg_type_def rbind_Inr_iff split: if_splits)
  next
    case False
    with assms b obtain dt where "map_of FORTRAN_C_TYPE dt = Some ft" "st = None"
      by (auto simp: auto_arg_type_def rbind_Inr_iff split: option.splits)
    then show ?thesis by (simp add: map_of_range)
  qed
qed

lemma auto_arg_wf: "auto_arg j = Inr a \<Longrightarrow> arg_wf a"
  by (auto simp: auto_arg_def arg_wf_def rbind_Inr_iff
      split: option.splits if_splits dest!: auto_arg_type_wf)

lemma auto_member_wf: "auto_member j = Inr m \<Longrightarrow> member_wf m"
  by (auto simp: auto_member_def member_wf_def rbind_Inr_iff Let_def
      intro: map_of_range split: if_splits option.splits)

lemma j_list_Inr: "j_list f j = Inr ys \<Longrightarrow> \<forall>y \<in> set ys. \<exists>x. f x = Inr y"
  by (cases j) (auto simp: rmap_Inr_iff list_all2_conv_all_nth in_set_conv_nth, metis)

lemma rmap_values:
  "rmap (\<lambda>(k, v). rbind (f v) (\<lambda>x. Inr (k, x))) d = Inr ys \<Longrightarrow> \<forall>y \<in> snd ` set ys. \<exists>x. f x = Inr y"
proof (induction d arbitrary: ys)
  case (Cons kv d)
  from Cons.prems obtain x zs where "f (snd kv) = Inr x" "ys = (fst kv, x) # zs"
    "rmap (\<lambda>(k, v). rbind (f v) (\<lambda>x. Inr (k, x))) d = Inr zs"
    by (cases kv) (auto simp: rbind_Inr_iff)
  with Cons.IH [of zs] show ?case by auto
qed simp

lemma j_dict_Inr: "j_dict f j = Inr ys \<Longrightarrow> \<forall>y \<in> snd ` set ys. \<exists>x. f x = Inr y"
  by (cases j) (simp_all add: rmap_values)

lemma j_item_Inr: "j_item k f d = Inr y \<Longrightarrow> \<exists>v. map_of d k = Some v \<and> f v = Inr y"
  by (auto simp: j_item_def split: option.splits)

lemma j_get_Inr: "j_get k x f d = Inr y \<Longrightarrow> y = x \<or> (\<exists>v. f v = Inr y)"
  by (auto simp: j_get_def split: option.splits)

lemma or_None_nonempty: "or_None x \<noteq> Some []"
  by (simp add: or_None_def split: option.split)

lemma auto_struct_wf:
  assumes "auto_struct j = Inr t"
  shows "(\<forall>m \<in> set (dt_members t). member_wf m) \<and> dt_module t \<noteq> Some []"
proof -
  from assms obtain st ms n md where t: "j_item ''members'' (j_list auto_member) st = Inr ms"
    "t = \<lparr>dt_name = n, dt_module = or_None md, dt_members = ms\<rparr>"
    by (auto simp: auto_struct_def rbind_Inr_iff)
  from t(1) obtain v where "j_list auto_member v = Inr ms" by (blast dest: j_item_Inr)
  then have "\<forall>m \<in> set ms. member_wf m" using j_list_Inr auto_member_wf by blast
  then show ?thesis by (simp add: t(2) or_None_nonempty)
qed

section \<open>Properties\<close>

text \<open>The type table is a bijection onto the Fortran types it lists: two element types never share a
  Fortran type, so the element type can be read back from the declaration; and the element types whose
  declaration is a LOGICAL are exactly \<open>bool\<close> and the unsigned ones.\<close>

theorem fortran_type_table_injective:
  "(fortran_c_type d = Inr f \<and> fortran_c_type d' = Inr f \<longrightarrow> d = d') \<and>
   set LOGICAL_DTYPES = {''bool'', ''uint8'', ''uint16'', ''uint32'', ''uint64''}"
proof
  show "fortran_c_type d = Inr f \<and> fortran_c_type d' = Inr f \<longrightarrow> d = d'"
    using map_of_inject [OF FORTRAN_C_TYPE_distinct(1)] by simp
  show "set LOGICAL_DTYPES = {''bool'', ''uint8'', ''uint16'', ''uint32'', ''uint64''}"
    by code_simp
qed

theorem fortran_type_table_injective_witness:
  "{d. fortran_c_type d = Inr ''integer(c_int)''} = {''int32''}"
proof -
  have "fortran_c_type ''int32'' = Inr ''integer(c_int)''" by code_simp
  then show ?thesis using fortran_type_table_injective by blast
qed


definition ex_snapshot :: json where
  "ex_snapshot = JObj
     [(''args'', JList
        [JObj [(''name'', JStr ''st''), (''is_struct'', JBool True), (''struct_name'', JStr ''t_state''),
               (''dtype'', JStr []), (''rank'', JInt 0), (''shape'', JList []), (''intent'', JStr ''in'')],
         JObj [(''name'', JStr ''u''), (''is_struct'', JBool False), (''struct_name'', JStr []),
               (''dtype'', JStr ''float64''), (''rank'', JInt 2), (''shape'', JList []),
               (''intent'', JStr ''inout''), (''passing'', JStr ''descriptor'')]]),
      (''used_modules'', JObj [(''mo_state'', JList [JStr ''t_state''])]),
      (''struct_types'', JObj [(''t_state'', JObj
        [(''name'', JStr ''t_state''), (''module'', JStr ''mo_state''),
         (''members'', JList [JObj [(''name'', JStr ''c''), (''dtype'', JStr ''character''),
            (''rank'', JInt 0), (''shape'', JList [])]])])])]"

lemma ex_snapshot_built:
  "build_auto_interface ex_snapshot ''k'' = Inr
     \<lparr>oi_entry = ''k'',
      oi_args =
        [\<lparr>oa_name = ''st'', oa_fortran_type = ''type(t_state)'', oa_rank = 0, oa_shape = [],
          oa_intent = ''in'', oa_optional = False, oa_struct_type = Some ''t_state'', oa_passing = []\<rparr>,
         \<lparr>oa_name = ''u'', oa_fortran_type = ''real(c_double)'', oa_rank = 2, oa_shape = ['':'', '':''],
          oa_intent = ''inout'', oa_optional = False, oa_struct_type = None, oa_passing = ''descriptor''\<rparr>],
      oi_struct_types = [(''t_state'',
        \<lparr>dt_name = ''t_state'', dt_module = Some ''mo_state'',
         dt_members = [\<lparr>mb_name = ''c'', mb_fortran_type = ''??'', mb_rank = 0, mb_shape = [],
           mb_struct_name = None, mb_alloc = []\<rparr>]\<rparr>)],
      oi_used_modules = [(''mo_state'', [''t_state''])], oi_module_symbol_sources = []\<rparr>"
  by code_simp


end
