(* ===== verification/Fortran_Blocks.thy ===== *)
theory Fortran_Blocks
  imports Prelude
begin

text \<open>
  The block structure of emitted Fortran: what a compiler sees of a list of lines when it matches
  \<open>do\<close> with \<open>end do\<close> and \<open>if (...) then\<close> with \<open>end if\<close>, and what the loops iterate over. The
  emitters of the bindings are specified against it.
\<close>

named_theorems block_intros \<open>introduction rules for the block structure of emitted lines\<close>

section \<open>Lines\<close>

datatype line_kind = Opens_Do string | Opens_If string | Closes_Do | Closes_If | Plain string

definition line_kind :: "string \<Rightarrow> line_kind" where
  "line_kind l =
     (let s = lstrip l in
      if s = ''end do'' then Closes_Do
      else if s = ''end if'' then Closes_If
      else if startswith s ''do '' \<and> 3 < length s \<and> is_word (s ! 3) then Opens_Do (drop 3 s)
      else if startswith s ''if ('' \<and> endswith s '') then'' then Opens_If (drop 4 (take (length s - 6) s))
      else Plain s)"

section \<open>Statements\<close>

datatype stmt = Leaf string | Do string "stmt list" | If string "stmt list"

type_synonym frame = "line_kind \<times> stmt list"

fun close :: "frame list \<Rightarrow> stmt \<Rightarrow> frame list option" where
  "close ((h, us) # fs) t = Some ((h, us @ [t]) # fs)"
| "close [] t = None"

fun block_step :: "frame list \<Rightarrow> string \<Rightarrow> frame list option" where
  "block_step [] l = None"
| "block_step ((h, us) # fs) l =
     (case line_kind l of
        Plain s \<Rightarrow> Some ((h, us @ [Leaf s]) # fs)
      | Opens_Do c \<Rightarrow> Some ((Opens_Do c, []) # (h, us) # fs)
      | Opens_If c \<Rightarrow> Some ((Opens_If c, []) # (h, us) # fs)
      | Closes_Do \<Rightarrow> (case h of Opens_Do c \<Rightarrow> close fs (Do c us) | _ \<Rightarrow> None)
      | Closes_If \<Rightarrow> (case h of Opens_If c \<Rightarrow> close fs (If c us) | _ \<Rightarrow> None))"

fun block_run :: "frame list \<Rightarrow> string list \<Rightarrow> frame list option" where
  "block_run fs [] = Some fs"
| "block_run fs (l # ls) = (case block_step fs l of None \<Rightarrow> None | Some fs' \<Rightarrow> block_run fs' ls)"

text \<open>The statements of a list of lines; \<open>None\<close> when the blocks do not match.\<close>

definition parse_blocks :: "string list \<Rightarrow> stmt list option" where
  "parse_blocks ls =
     (case block_run [(Plain [], [])] ls of Some [(_, ts)] \<Rightarrow> Some ts | _ \<Rightarrow> None)"

definition well_nested :: "string list \<Rightarrow> bool" where
  "well_nested ls = (parse_blocks ls \<noteq> None)"

text \<open>The leaves with the headers of the blocks around them, outermost first.\<close>

fun leaf_paths :: "stmt \<Rightarrow> (string list \<times> string) list" where
  "leaf_paths (Leaf s) = [([], s)]"
| "leaf_paths (Do c ts) = map (\<lambda>(p, s). ((''do '' @ c) # p, s)) (concat (map leaf_paths ts))"
| "leaf_paths (If c ts) = map (\<lambda>(p, s). ((''if '' @ c) # p, s)) (concat (map leaf_paths ts))"

section \<open>Running the loops\<close>

text \<open>A header \<open>v = 1, e\<close>.\<close>

definition do_header :: "string \<Rightarrow> string \<Rightarrow> string" where
  "do_header v e = v @ '' = 1, '' @ e"

definition do_var :: "string \<Rightarrow> string" where
  "do_var h = takeWhile (\<lambda>c. c \<noteq> CHR '' '') h"

definition do_bound :: "string \<Rightarrow> string" where
  "do_bound h = drop (length (do_var h) + 6) h"

text \<open>
  The leaves in the order they run, each with the values of the loop variables around it, outermost
  first. The value of an extent expression and the truth of a guard are parameters.
\<close>

fun run_stmt :: "(string \<Rightarrow> nat) \<Rightarrow> (string \<Rightarrow> (string \<times> nat) list \<Rightarrow> bool) \<Rightarrow> (string \<times> nat) list \<Rightarrow>
    stmt \<Rightarrow> ((string \<times> nat) list \<times> string) list" where
  "run_stmt ext cond env (Leaf s) = [(env, s)]"
| "run_stmt ext cond env (Do h ts) =
     concat (map (\<lambda>n. concat (map (run_stmt ext cond (env @ [(do_var h, n)])) ts)) [1..<Suc (ext (do_bound h))])"
| "run_stmt ext cond env (If c ts) =
     (if cond c env then concat (map (run_stmt ext cond env) ts) else [])"

section \<open>Composing blocks\<close>

definition block :: "string list \<Rightarrow> stmt list \<Rightarrow> bool" where
  "block ls ts \<longleftrightarrow> (\<forall>h us fs. block_run ((h, us) # fs) ls = Some ((h, us @ ts) # fs))"

lemma block_run_append:
  "block_run fs (xs @ ys) = (case block_run fs xs of None \<Rightarrow> None | Some fs' \<Rightarrow> block_run fs' ys)"
  by (induction xs arbitrary: fs) (auto split: option.split)

lemma block_Nil [block_intros]: "block [] []"
  by (simp add: block_def)

lemma block_append [block_intros]: "block xs ss \<Longrightarrow> block ys ts \<Longrightarrow> block (xs @ ys) (ss @ ts)"
  by (simp add: block_def block_run_append)

lemma block_leaf: "line_kind l = Plain s \<Longrightarrow> block [l] [Leaf s]"
  by (simp add: block_def)

lemma block_Cons: "block [l] ss \<Longrightarrow> block ys ts \<Longrightarrow> block (l # ys) (ss @ ts)"
  using block_append [of "[l]" ss ys ts] by simp

lemma block_do:
  assumes "line_kind p = Opens_Do c" "line_kind q = Closes_Do" "block ls ts"
  shows "block ([p] @ ls @ [q]) [Do c ts]"
  using assms by (simp add: block_def block_run_append)

lemma block_if:
  assumes "line_kind p = Opens_If c" "line_kind q = Closes_If" "block ls ts"
  shows "block ([p] @ ls @ [q]) [If c ts]"
  using assms by (simp add: block_def block_run_append)

lemma block_leaves:
  "(\<And>x. x \<in> set xs \<Longrightarrow> line_kind (f x) = Plain (g x)) \<Longrightarrow> block (map f xs) (map (\<lambda>x. Leaf (g x)) xs)"
proof (induction xs)
  case (Cons x xs)
  then have "block [f x] [Leaf (g x)]" "block (map f xs) (map (\<lambda>x. Leaf (g x)) xs)"
    by (auto intro: block_leaf)
  from block_append [OF this] show ?case by simp
qed (simp add: block_Nil)

lemma block_concat:
  "(\<And>x. x \<in> set xs \<Longrightarrow> block (f x) (g x)) \<Longrightarrow> block (concat (map f xs)) (concat (map g xs))"
  by (induction xs) (auto intro: block_intros)

lemma parse_block: "block ls ts \<Longrightarrow> parse_blocks ls = Some ts"
  by (simp add: block_def parse_blocks_def)

lemma well_nested_block: "block ls ts \<Longrightarrow> well_nested ls"
  by (simp add: well_nested_def parse_block)

section \<open>Nests\<close>

fun nest :: "string list \<Rightarrow> stmt list \<Rightarrow> stmt list" where
  "nest [] ts = ts"
| "nest (h # hs) ts = [Do h (nest hs ts)]"

lemma block_nest:
  assumes "list_all2 (\<lambda>p h. line_kind p = Opens_Do h) os hs" and "length es = length os"
    and "\<forall>e \<in> set es. line_kind e = Closes_Do" and "block ls ts"
  shows "block (os @ ls @ es) (nest hs ts)"
  using assms
proof (induction os hs arbitrary: es rule: list_all2_induct)
  case (Cons p os h hs)
  then have "es \<noteq> []" by auto
  then obtain es' e where es: "es = es' @ [e]" by (metis rev_exhaust)
  with Cons have "block (os @ ls @ es') (nest hs ts)" by auto
  moreover have "line_kind e = Closes_Do" using Cons es by auto
  ultimately have "block ([p] @ (os @ ls @ es') @ [e]) [Do h (nest hs ts)]"
    using Cons by (intro block_do) auto
  then show ?case by (simp add: es)
qed simp

text \<open>The index tuples of a box of the given extents, the last component fastest.\<close>

fun box :: "nat list \<Rightarrow> nat list list" where
  "box [] = [[]]"
| "box (n # ns) = concat (map (\<lambda>i. map ((#) i) (box ns)) [1..<Suc n])"

lemma box_set: "set (box ns) = {t. list_all2 (\<lambda>i n. 1 \<le> i \<and> i \<le> n) t ns}"
  by (induction ns) (auto simp: list_all2_Cons2 image_iff)

lemma box_distinct: "distinct (box ns)"
proof (induction ns)
  case (Cons n ns)
  have "distinct (concat (map (\<lambda>i. map ((#) i) (box ns)) is))" if "distinct is" for "is"
    using that Cons by (induction "is") (auto simp: distinct_map)
  then show ?case by simp
qed simp

lemma box_length: "length (box ns) = prod_list ns"
proof (induction ns)
  case (Cons n ns)
  have "length (concat (map (\<lambda>i. map ((#) i) (box ns)) is)) = length is * length (box ns)" for "is"
    by (induction "is") auto
  with Cons show ?case by simp
qed simp

lemma concat_concat_map: "concat (map f (concat xss)) = concat (map (\<lambda>xs. concat (map f xs)) xss)"
  by (induction xss) simp_all

lemma run_nest:
  "concat (map (run_stmt ext cond env) (nest hs ts)) =
   concat (map (\<lambda>t. concat (map (run_stmt ext cond (env @ zip (map do_var hs) t)) ts))
     (box (map (\<lambda>h. ext (do_bound h)) hs)))"
proof (induction hs arbitrary: env)
  case (Cons h hs)
  show ?case
    by (simp add: Cons concat_concat_map comp_def del: upt_Suc)
qed simp

lemma leaf_paths_nest:
  "concat (map leaf_paths (nest hs ts)) =
   map (\<lambda>(p, s). (map ((@) ''do '') hs @ p, s)) (concat (map leaf_paths ts))"
  by (induction hs) (simp_all add: case_prod_unfold comp_def)

section \<open>Classifying emitted lines\<close>

definition spaces :: "nat \<Rightarrow> string" where
  "spaces n = replicate n CHR '' ''"

lemma space_is_space [simp]: "is_space CHR '' ''"
  by code_simp

lemma lstrip_spaces [simp]: "lstrip (spaces n @ l) = lstrip l"
  by (induction n) (simp_all add: spaces_def lstrip_def)

lemma lstrip_space [simp]: "lstrip (CHR '' '' # l) = lstrip l"
  by (simp add: lstrip_def)

lemma lstrip_word: "\<not> is_space c \<Longrightarrow> lstrip (c # l) = c # l"
  by (simp add: lstrip_def)

lemma line_kind_indent [simp]: "line_kind (CHR '' '' # l) = line_kind l" "line_kind (spaces n @ l) = line_kind l"
  by (simp_all add: line_kind_def)

lemma line_kind_end [simp]: "line_kind ''end do'' = Closes_Do" "line_kind ''end if'' = Closes_If"
  by (simp_all add: line_kind_def lstrip_word) code_simp+

text \<open>
  A reference at the head of a line: no blank among its first four characters, so that it cannot be
  taken for the opening or the end of a block whatever it is called.
\<close>

definition ref_head :: "string \<Rightarrow> bool" where
  "ref_head s = (s \<noteq> [] \<and> list_all (\<lambda>c. \<not> is_space c) (take 4 s))"

lemma kind_other: "c \<notin> set ''die'' \<Longrightarrow> \<not> is_space c \<Longrightarrow> line_kind (c # l) = Plain (c # l)"
  by (simp add: line_kind_def lstrip_word startswith_def)

lemma kind_d: "c \<noteq> CHR ''o'' \<Longrightarrow> line_kind (CHR ''d'' # c # l) = Plain (CHR ''d'' # c # l)"
  using lstrip_word [of "CHR ''d''"] by (simp add: line_kind_def startswith_def is_space_def range_defs code_def)

lemma kind_e: "c \<noteq> CHR ''n'' \<Longrightarrow> line_kind (CHR ''e'' # c # l) = Plain (CHR ''e'' # c # l)"
  using lstrip_word [of "CHR ''e''"] by (simp add: line_kind_def startswith_def is_space_def range_defs code_def)

lemma kind_i: "c \<noteq> CHR ''f'' \<Longrightarrow> line_kind (CHR ''i'' # c # l) = Plain (CHR ''i'' # c # l)"
  using lstrip_word [of "CHR ''i''"] by (simp add: line_kind_def startswith_def is_space_def range_defs code_def)

lemma kind_do: "line_kind (''do i'' @ l) = Opens_Do (''i'' @ l)"
proof -
  have "is_word CHR ''i''" "\<not> is_space CHR ''d''" by code_simp+
  then show ?thesis by (simp add: line_kind_def startswith_def lstrip_word)
qed

lemma kind_if_then: "line_kind (''if ('' @ c @ '') then'') = Opens_If c"
proof -
  have "\<not> is_space CHR ''i''" by code_simp
  then show ?thesis by (simp add: line_kind_def startswith_def endswith_def lstrip_word)
qed

lemma endswith_last: "endswith s p \<Longrightarrow> p \<noteq> [] \<Longrightarrow> last s = last p"
  by (metis append_take_drop_id endswith_def last_append)

lemma kind_if_line: "last l \<noteq> CHR ''n'' \<Longrightarrow> l \<noteq> [] \<Longrightarrow> line_kind (''if ('' @ l) = Plain (''if ('' @ l)"
proof -
  assume l: "last l \<noteq> CHR ''n''" "l \<noteq> []"
  have "\<not> is_space CHR ''i''" by code_simp
  moreover have "\<not> endswith (''if ('' @ l) '') then''"
    using endswith_last [of "''if ('' @ l" "'') then''"] l by auto
  ultimately show ?thesis by (simp add: line_kind_def startswith_def lstrip_word)
qed

lemma kind_PlainI:
  assumes "lstrip s = s" "take 6 s \<noteq> ''end do''" "take 6 s \<noteq> ''end if''" "take 4 s \<noteq> ''if (''"
    "take 3 s = ''do '' \<Longrightarrow> \<not> is_word (s ! 3)"
  shows "line_kind s = Plain s"
proof -
  have "s \<noteq> ''end do''" "s \<noteq> ''end if''" using assms(2,3) by auto
  then show ?thesis using assms by (auto simp: line_kind_def startswith_def eval_nat_numeral)
qed

lemma ref_nth: "ref_head s \<Longrightarrow> i < 4 \<Longrightarrow> i < length s \<Longrightarrow> s ! i \<noteq> CHR '' ''"
  unfolding ref_head_def list_all_length by (metis length_take min_less_iff_conj nth_take space_is_space)

lemma take_nth_eq: "take n s = p \<Longrightarrow> i < length p \<Longrightarrow> s ! i = p ! i"
  by (metis length_take min_less_iff_conj nth_take)

lemma take6_end:
  assumes "take 6 x = ''end do'' \<or> take 6 x = ''end if''"
  shows "take 4 x = ''end '' \<and> x ! 4 \<noteq> CHR ''=''"
proof -
  have "take 4 x = take 4 (take 6 x)" by simp
  moreover have "x ! 4 = take 6 x ! 4" by simp
  ultimately show ?thesis using assms by (elim disjE) simp_all
qed

lemma kind_ref:
  assumes s: "ref_head s" and c: "c \<in> set ''(_%'' \<or> c = CHR '' '' \<and> take 1 t = ''=''"
  shows "line_kind (s @ c # t) = Plain (s @ c # t)"
proof (rule kind_PlainI)
  let ?x = "s @ c # t"
  have tl: "c = CHR '' '' \<Longrightarrow> ?x ! Suc (length s) = CHR ''=''"
    using c by (cases t) (auto simp: nth_append)
  have ne: "s \<noteq> []" using s by (simp add: ref_head_def)
  have at: "?x ! length s = c" by simp
  \<comment> \<open>a blank at position \<open>i\<close> can only be the one after \<open>s\<close>\<close>
  have pos: "i = length s \<and> c = CHR '' ''"
    if "?x ! i = CHR '' ''" "i < 4" "\<And>j. j < i \<Longrightarrow> ?x ! j \<notin> set ''(_% ''" for i
  proof -
    have "\<not> i < length s" using ref_nth [OF s] that by (auto simp: nth_append)
    moreover have "\<not> length s < i" using that(3) [of "length s"] c by auto
    ultimately show ?thesis using that(1) at by auto
  qed
  show "lstrip ?x = ?x"
    using s by (cases s) (auto simp: ref_head_def lstrip_word)
  show "take 4 ?x \<noteq> ''if (''"
  proof
    assume "take 4 ?x = ''if (''"
    note e = take_nth_eq [OF this]
    have "2 = length s \<and> c = CHR '' ''"
      by (rule pos) (use e [of 2] e [of 0] e [of 1] in \<open>auto simp: less_Suc_eq numeral_2_eq_2\<close>)
    then show False using tl e [of 3] by (simp add: numeral_3_eq_3)
  qed
  show "\<not> is_word (?x ! 3)" if "take 3 ?x = ''do ''"
  proof -
    note e = take_nth_eq [OF that]
    have "2 = length s \<and> c = CHR '' ''"
      by (rule pos) (use e [of 2] e [of 0] e [of 1] in \<open>auto simp: less_Suc_eq numeral_2_eq_2\<close>)
    then have "?x ! 3 = CHR ''=''" using tl by (simp add: numeral_3_eq_3)
    moreover have "\<not> is_word CHR ''=''" by code_simp
    ultimately show ?thesis by simp
  qed
  have "?x ! 4 = CHR ''=''" if "take 4 ?x = ''end ''"
  proof -
    note e = take_nth_eq [OF that]
    have "3 = length s \<and> c = CHR '' ''"
      by (rule pos) (use e [of 3] e [of 0] e [of 1] e [of 2] in \<open>auto simp: less_Suc_eq eval_nat_numeral\<close>)
    then show ?thesis using tl by (simp add: eval_nat_numeral)
  qed
  moreover note take6_end [of ?x]
  ultimately show "take 6 ?x \<noteq> ''end do''" "take 6 ?x \<noteq> ''end if''" by blast+
qed

lemmas line_kinds = kind_other kind_d kind_e kind_i kind_do [simplified] kind_if_then [simplified]
  kind_if_line [simplified]

section \<open>Nesting alone\<close>

text \<open>The same automaton on the open blocks only.\<close>

fun nk_step :: "line_kind list \<Rightarrow> string \<Rightarrow> line_kind list option" where
  "nk_step [] l = None"
| "nk_step (h # hs) l =
     (case line_kind l of
        Plain s \<Rightarrow> Some (h # hs)
      | Opens_Do c \<Rightarrow> Some (Opens_Do c # h # hs)
      | Opens_If c \<Rightarrow> Some (Opens_If c # h # hs)
      | Closes_Do \<Rightarrow> (case h of Opens_Do c \<Rightarrow> if hs = [] then None else Some hs | _ \<Rightarrow> None)
      | Closes_If \<Rightarrow> (case h of Opens_If c \<Rightarrow> if hs = [] then None else Some hs | _ \<Rightarrow> None))"

fun nk :: "line_kind list \<Rightarrow> string list \<Rightarrow> line_kind list option" where
  "nk hs [] = Some hs"
| "nk hs (l # ls) = (case nk_step hs l of None \<Rightarrow> None | Some hs' \<Rightarrow> nk hs' ls)"

definition neutral :: "string list \<Rightarrow> bool" where
  "neutral ls = (\<forall>h hs. nk (h # hs) ls = Some (h # hs))"

lemma nk_append: "nk hs (xs @ ys) = (case nk hs xs of None \<Rightarrow> None | Some hs' \<Rightarrow> nk hs' ys)"
  by (induction xs arbitrary: hs) (auto split: option.split)

lemma nk_neutral [simp]: "neutral xs \<Longrightarrow> nk (h # hs) (xs @ ys) = nk (h # hs) ys"
  by (simp add: nk_append neutral_def)

lemma nk_neutral_end [simp]: "neutral xs \<Longrightarrow> nk (h # hs) xs = Some (h # hs)"
  by (simp add: neutral_def)

lemma neutralI: "(\<And>h hs. nk (h # hs) ls = Some (h # hs)) \<Longrightarrow> neutral ls"
  by (simp add: neutral_def)

lemma neutral_append: "neutral xs \<Longrightarrow> neutral ys \<Longrightarrow> neutral (xs @ ys)"
  by (rule neutralI) simp

lemma neutral_map: "(\<And>x. x \<in> set xs \<Longrightarrow> \<exists>s. line_kind (f x) = Plain s) \<Longrightarrow> neutral (map f xs)"
proof (rule neutralI)
  fix h hs
  assume "\<And>x. x \<in> set xs \<Longrightarrow> \<exists>s. line_kind (f x) = Plain s"
  then show "nk (h # hs) (map f xs) = Some (h # hs)"
  proof (induction xs)
    case (Cons x xs)
    from Cons.prems [of x] obtain s where "line_kind (f x) = Plain s" by auto
    with Cons show ?case by simp
  qed simp
qed

lemma neutral_concat: "(\<And>x. x \<in> set xs \<Longrightarrow> neutral (f x)) \<Longrightarrow> neutral (concat (map f xs))"
  by (induction xs) (auto intro: neutral_append, simp add: neutral_def)

lemma nk_indent: "(\<And>l. line_kind (f l) = line_kind l) \<Longrightarrow> nk hs (map f ls) = nk hs ls"
proof (induction ls arbitrary: hs)
  case (Cons l ls)
  have "nk_step hs (f l) = nk_step hs l" by (cases hs) (simp_all add: Cons.prems)
  with Cons show ?case by (simp split: option.split)
qed simp

lemma neutral_indent: "(\<And>l. line_kind (f l) = line_kind l) \<Longrightarrow> neutral (map f ls) = neutral ls"
  by (simp add: neutral_def nk_indent)

lemma nk_of_run: "map_option (map fst) (block_run fs ls) = nk (map fst fs) ls"
proof (induction ls arbitrary: fs)
  case (Cons l ls)
  have "map_option (map fst) (block_step fs l) = nk_step (map fst fs) l"
  proof (cases fs)
    case (Cons f gs)
    obtain h us where "f = (h, us)" by (cases f)
    with Cons show ?thesis by (cases gs) (auto split: line_kind.split)
  qed simp
  with Cons show ?case by (cases "block_step fs l") (auto split: option.split)
qed simp

lemma neutral_well_nested:
  assumes "neutral ls"
  shows "well_nested ls"
proof -
  have "map_option (map fst) (block_run [(Plain [], [])] ls) = Some [Plain []]"
    using assms by (simp add: nk_of_run)
  then show ?thesis by (auto simp: well_nested_def parse_blocks_def)
qed

text \<open>A frame that is no block is never closed, so what was parsed on top of it can be put on top of
  any other frame.\<close>

lemma close_up: "up \<noteq> [] \<Longrightarrow> close (up @ gs) t = map_option (\<lambda>u. u @ gs) (close up t)"
  by (cases up) auto

lemma block_step_transfer:
  assumes "block_step (up @ (Plain [], ts) # gs) l = Some fs"
  shows "\<exists>up' ts'. fs = up' @ (Plain [], ts') # gs \<and>
    (\<forall>h us hs. block_step (up @ (h, us @ ts) # hs) l = Some (up' @ (h, us @ ts') # hs))"
proof (cases up)
  case Nil
  with assms show ?thesis
    by (cases "line_kind l") (force intro: exI [of _ "[_]"])+
next
  case (Cons f up1)
  obtain k vs where f: "f = (k, vs)" by (cases f)
  show ?thesis
  proof (cases up1)
    case Nil
    with assms Cons f show ?thesis
      by (cases "line_kind l"; cases k) (force intro: exI [of _ "[_]"] exI [of _ "[_, _]"])+
  next
    case up1: (Cons g up2)
    obtain k2 vs2 where g: "g = (k2, vs2)" by (cases g)
    with assms Cons f up1 show ?thesis
      by (cases "line_kind l"; cases k) (force intro: exI [of _ "_ # _"])+
  qed
qed

lemma block_run_transfer:
  assumes "block_run (up @ (Plain [], ts) # gs) ls = Some fs"
  shows "\<exists>up' ts'. fs = up' @ (Plain [], ts') # gs \<and>
    (\<forall>h us hs. block_run (up @ (h, us @ ts) # hs) ls = Some (up' @ (h, us @ ts') # hs))"
  using assms
proof (induction ls arbitrary: up ts)
  case (Cons l ls)
  from Cons.prems obtain fs1 where 1: "block_step (up @ (Plain [], ts) # gs) l = Some fs1"
    "block_run fs1 ls = Some fs" by (auto split: option.splits)
  from block_step_transfer [OF 1(1)] obtain up1 ts1 where 2: "fs1 = up1 @ (Plain [], ts1) # gs"
    "\<forall>h us hs. block_step (up @ (h, us @ ts) # hs) l = Some (up1 @ (h, us @ ts1) # hs)" by blast
  from Cons.IH 1(2) 2(1) obtain up' ts' where "fs = up' @ (Plain [], ts') # gs"
    "\<forall>h us hs. block_run (up1 @ (h, us @ ts1) # hs) ls = Some (up' @ (h, us @ ts') # hs)" by blast
  with 2 show ?case by auto
qed auto

lemma block_parse: "parse_blocks ls = Some ts \<Longrightarrow> block ls ts"
proof -
  assume "parse_blocks ls = Some ts"
  then obtain k where run: "block_run ([] @ (Plain [], []) # []) ls = Some [(k, ts)]"
    by (auto simp: parse_blocks_def split: option.splits list.splits prod.splits)
  from block_run_transfer [OF this] obtain up' ts' where t: "[(k, ts)] = up' @ [(Plain [], ts')]"
    "\<forall>h us hs. block_run ((h, us) # hs) ls = Some (up' @ (h, us @ ts') # hs)" by auto
  then show ?thesis by (cases up') (auto simp: block_def)
qed

lemma neutral_block: "neutral ls \<Longrightarrow> \<exists>ts. block ls ts"
  using neutral_well_nested by (auto simp: well_nested_def intro: block_parse)

lemma endswith_append [simp]: "length p \<le> length l \<Longrightarrow> endswith (a @ l) p = endswith l p"
  by (auto simp: endswith_def)

lemma endswith_Cons [simp]: "length p \<le> length l \<Longrightarrow> endswith (c # l) p = endswith l p"
  using endswith_append [of p l "[c]"] by simp

lemma endswith_refl [simp]: "endswith p p"
  by (simp add: endswith_def)

lemma kind_if_open:
  assumes "endswith l '') then''"
  shows "line_kind (CHR ''i'' # CHR ''f'' # CHR '' '' # CHR ''('' # l) = Opens_If (take (length l - 6) l)"
proof -
  have "\<not> is_space CHR ''i''" by code_simp
  moreover have "6 \<le> length l" using assms by (simp add: endswith_def)
  ultimately show ?thesis using assms
    by (simp add: line_kind_def startswith_def lstrip_word take_Cons' eval_nat_numeral)
qed

lemma block_indent: "(\<And>l. line_kind (f l) = line_kind l) \<Longrightarrow> block (map f ls) ts = block ls ts"
proof -
  assume f: "\<And>l. line_kind (f l) = line_kind l"
  have "block_run fs (map f ls) = block_run fs ls" for fs
  proof (induction ls arbitrary: fs)
    case (Cons l ls)
    have "block_step fs (f l) = block_step fs l"
      by (induction fs l rule: block_step.induct) (simp_all only: block_step.simps f)
    with Cons show ?case by (simp split: option.split)
  qed simp
  then show ?thesis by (simp add: block_def)
qed

lemma block_neutral:
  assumes "block ls ts"
  shows "neutral ls"
proof (rule neutralI)
  fix h hs
  have "map_option (map fst) (block_run ((h, []) # map (\<lambda>k. (k, [])) hs) ls) = Some (h # hs)"
    using assms by (simp add: block_def comp_def)
  then show "nk (h # hs) ls = Some (h # hs)"
    by (simp add: nk_of_run comp_def)
qed

lemmas kinds = kind_other kind_d kind_e kind_i kind_ref kind_if_open kind_if_line [simplified] kind_do [simplified]

lemma neutral_Nil [simp]: "neutral []"
  by (simp add: neutral_def)

lemma ref_head_append: "ref_head s \<Longrightarrow> list_all (\<lambda>c. \<not> is_space c) t \<Longrightarrow> ref_head (s @ t)"
  by (auto simp: ref_head_def list_all_iff dest: in_set_takeD)

lemma str_nat_no_spaces: "list_all (\<lambda>c. \<not> is_space c) (str_nat n)"
proof -
  have "is_digit c \<Longrightarrow> \<not> is_space c" for c
    by (auto simp: is_digit_def is_space_def range_defs)
  then show ?thesis using str_nat_digits by (auto simp: list_all_iff)
qed

lemma plain_block:
  "(\<And>l. l \<in> set ls \<Longrightarrow> \<exists>s. line_kind l = Plain s) \<Longrightarrow> \<exists>pre. block ls (map Leaf pre)"
proof (induction ls)
  case Nil
  have "block [] (map Leaf [])" using block_Nil by simp
  then show ?case ..
next
  case (Cons l ls)
  from Cons.prems [of l] obtain s where "line_kind l = Plain s" by auto
  moreover from Cons obtain pre where "block ls (map Leaf pre)" by auto
  ultimately have "block ([l] @ ls) ([Leaf s] @ map Leaf pre)" by (intro block_append block_leaf)
  then have "block (l # ls) (map Leaf (s # pre))" by simp
  then show ?case ..
qed

end
