(* ===== verification/Loop_Copy.thy ===== *)
theory Loop_Copy
  imports Flatten_Plan Fortran_Interface Fortran_Blocks
begin

text \<open>
  \<open>src/dace_fortran/bindings/loop_copy.py\<close>: the renderers that turn a flatten recipe into the
  Fortran lines of the wrapper, and the block structure of what they emit.

  A renderer returns a list of lines or raises; f-strings are \<open>concat\<close> of their pieces. Python's
  \<open>zip(..., strict=True)\<close> raises \<open>ValueError\<close> on lists of different lengths, an index out of
  range \<open>IndexError\<close>.
\<close>

abbreviation QT :: string where "QT \<equiv> [CHR 0x27]"

definition py_nth :: "'a list \<Rightarrow> nat \<Rightarrow> 'a py" where
  "py_nth xs i = (if i < length xs then Inr (xs ! i) else Inl IndexError)"

definition py_hd :: "'a list \<Rightarrow> 'a py" where
  "py_hd xs = py_nth xs 0"

definition zip_strict :: "'a list \<Rightarrow> 'b list \<Rightarrow> ('a \<times> 'b) list py" where
  "zip_strict xs ys = (if length xs = length ys then Inr (zip xs ys) else Inl (ValueError ''zip''))"

section \<open>Names and types\<close>

definition fortran_scalar_type :: "string \<Rightarrow> string" where
  "fortran_scalar_type dtype =
     (case map_of FORTRAN_C_TYPE dtype of None \<Rightarrow> ''real(c_double)'' | Some t \<Rightarrow> t)"

definition loop_index_names :: "int \<Rightarrow> string list" where
  "loop_index_names rank = map (\<lambda>d. ''i'' @ str_nat (d + 1)) [0..<nat rank]"

section \<open>Alias path\<close>

definition render_alias_calls :: "recipe \<Rightarrow> string list py" where
  "render_alias_calls r =
     (if \<not> aliasable r then Inl (ValueError ''render_alias_calls called on non-aliasable recipe'')
      else
        let shape_list = join '', '' (shape_exprs r) in
        Inr (map (\<lambda>(flat, read_expr).
               let base = strip_index_args read_expr in
               if rc_rank r = 0 \<or> shape_exprs r = []
               then concat [''    call c_f_pointer(c_loc('', base, ''), '', flat, '')'']
               else concat [''    call c_f_pointer(c_loc('', base, ''), '', flat, '', ['', shape_list, ''])''])
             (zip (flat_names r) (read_exprs r))))"

section \<open>Copy loops\<close>

text \<open>The loop headers, the last dimension outermost, and the matching closing lines.\<close>

definition nest_open :: "recipe \<Rightarrow> string list \<Rightarrow> string list py" where
  "nest_open r idx_names =
     rmap (\<lambda>d. rbind (py_nth idx_names d) (\<lambda>v. rbind (py_nth (shape_exprs r) d) (\<lambda>e.
             Inr (concat [''    '', spaces ((nat (rc_rank r) - 1 - d) * 2), ''do '', v, '' = 1, '', e]))))
       (rev [0..<nat (rc_rank r)])"

definition nest_close :: "recipe \<Rightarrow> string list" where
  "nest_close r =
     map (\<lambda>d. concat [''    '', spaces ((nat (rc_rank r) - 1 - d) * 2), ''end do'']) [0..<nat (rc_rank r)]"

definition render_copy_in_loop :: "recipe \<Rightarrow> string list py" where
  "render_copy_in_loop r =
     (if aliasable r then Inl (ValueError ''render_copy_in_loop called on aliasable recipe'')
      else
        let allocs = map (\<lambda>flat. concat [''    allocate('', flat, ''('', join '', '' (shape_exprs r), ''))''])
                       (flat_names r);
            idx_names = loop_index_names (rc_rank r);
            body_indent = spaces (nat (rc_rank r) * 2);
            idx_tuple = join '', '' idx_names in
        rbind (py_hd (read_exprs r)) (\<lambda>read0.
        rbind (substitute_indices read0 idx_names) (\<lambda>summary.
        rbind (nest_open r idx_names) (\<lambda>heads.
        rbind (rmap (\<lambda>(flat, read_expr). rbind (substitute_indices read_expr idx_names) (\<lambda>rhs.
                 Inr (concat [''    '', body_indent, flat, ''('', idx_tuple, '') = '', rhs])))
               (zip (flat_names r) (read_exprs r))) (\<lambda>body.
          Inr (allocs @
               [concat [''    ! Copy-in: '', join '', '' (flat_names r), '' <- '', summary]] @
               heads @ body @ nest_close r))))))"

definition render_copy_out_loop :: "recipe \<Rightarrow> string \<Rightarrow> string list py" where
  "render_copy_out_loop r outer =
     (let idx_names = loop_index_names (rc_rank r);
          idx_tuple = join '', '' idx_names;
          body_indent = spaces (nat (rc_rank r) * 2) in
      rbind (nest_open r idx_names) (\<lambda>heads.
      rbind (if write_expr r \<noteq> [] then
               rbind (substitute_indices (write_expr r) idx_names) (\<lambda>rhs.
               Inr (concat [outer, ''('', idx_tuple, '')''], rhs))
             else if length (flat_names r) \<noteq> 1 \<or> read_exprs r = [] then
               Inl (ValueError ''render_copy_out_loop: empty write_expr needs a single flat + read_expr'')
             else
               rbind (substitute_indices (hd (read_exprs r)) idx_names) (\<lambda>lhs.
               Inr (lhs, concat [hd (flat_names r), ''('', idx_tuple, '')'']))) (\<lambda>(lhs, rhs).
        Inr ([concat [''    ! Copy-out: '', outer, '' <- '', join '', '' (flat_names r)]] @
             heads @ [concat [''    '', body_indent, lhs, '' = '', rhs]] @ nest_close r @
             map (\<lambda>flat. concat [''    deallocate('', flat, '')'']) (flat_names r)))))"

section \<open>Arrays of records with allocatable members\<close>

definition aos_outer_rank :: "recipe \<Rightarrow> int" where
  "aos_outer_rank r = rc_rank r - int (length (cap_symbols r))"

definition element_indices :: "recipe \<Rightarrow> string list" where
  "element_indices r = map (\<lambda>d. ''i'' @ str_nat d) [1..<nat (aos_outer_rank r) + 1]"

definition aos_alloc_member_at_i :: "recipe \<Rightarrow> string py" where
  "aos_alloc_member_at_i r =
     rbind (py_hd (read_exprs r)) (\<lambda>e.
       Inr (foldl (\<lambda>m d. replace (''$i'' @ str_nat d) (''i'' @ str_nat d) m) (before_last CHR ''('' e)
              (rev [1..<nat (aos_outer_rank r) + 1])))"

definition aos_alloc_extents :: "recipe \<Rightarrow> string \<Rightarrow> string list" where
  "aos_alloc_extents r outer =
     (let rank = aos_outer_rank r in
      if int (length (shape_exprs r)) \<ge> rank then py_prefix rank (shape_exprs r)
      else map (\<lambda>d. concat [''size('', outer, '', '', str_nat d, '')'']) [1..<nat rank + 1])"

definition over_elements :: "recipe \<Rightarrow> string \<Rightarrow> string list \<Rightarrow> string list" where
  "over_elements r outer body =
     (let extents = aos_alloc_extents r outer;
          rank = length extents in
      map (\<lambda>d. concat [''    '', spaces ((rank - d) * 2), ''do i'', str_nat d, '' = 1, '', extents ! (d - 1)])
        (rev [1..<rank + 1]) @
      map (\<lambda>line. spaces ((rank - 1) * 2) @ line) body @
      map (\<lambda>depth. concat [''    '', spaces (depth * 2), ''end do'']) (rev [0..<rank]))"

definition aos_alloc_presence :: "recipe \<Rightarrow> string \<Rightarrow> string" where
  "aos_alloc_presence r member =
     (if member_pointer r then concat [''associated('', member, '')''] else concat [''allocated('', member, '')''])"

definition aos_bounds_locals :: "recipe \<Rightarrow> string py" where
  "aos_bounds_locals r = rbind (py_hd (flat_names r)) (\<lambda>flat. Inr (flat @ ''_lb_taken''))"

definition aos_pack_extent_locals :: "recipe \<Rightarrow> string list py" where
  "aos_pack_extent_locals r =
     rmap (\<lambda>k. rbind (py_hd (flat_names r)) (\<lambda>flat. Inr (concat [flat, ''_ext'', str_nat k])))
       [1..<length (cap_symbols r) + 1]"

definition aos_pack_offset_locals :: "recipe \<Rightarrow> string list py" where
  "aos_pack_offset_locals r =
     rmap (\<lambda>k. rbind (py_hd (flat_names r)) (\<lambda>flat. Inr (concat [flat, ''_off'', str_nat k])))
       [1..<length (cap_symbols r) + 1]"

definition aos_kept_layout_locals :: "recipe \<Rightarrow> (string \<times> string \<times> string \<times> string) py" where
  "aos_kept_layout_locals r =
     rbind (py_hd (flat_names r)) (\<lambda>flat.
       Inr (flat @ ''_layout'', flat @ ''_layout_now'', flat @ ''_layout_k'', flat @ ''_fresh''))"

definition kept_layout :: "recipe \<Rightarrow> string \<Rightarrow> string \<Rightarrow> string \<Rightarrow> string list py" where
  "kept_layout r outer member_at_i present =
     rbind (aos_kept_layout_locals r) (\<lambda>(saved, now, k, fresh).
     let extents = aos_alloc_extents r outer;
         rank = length (cap_symbols r);
         head = extents @ cap_symbols r @ lb_symbols r;
         per_element = str_nat (1 + 2 * rank);
         joined = join '' * '' (map (\<lambda>e. concat [''('', e, '')'']) extents);
         count = (if joined = [] then ''1'' else joined) in
     Inr ([concat [''    allocate('', now, ''('', str_nat (length head), '' + '', count, '' * '', per_element, ''))'']] @
          map (\<lambda>(j, v). concat [''    '', now, ''('', str_nat j, '') = '', v]) (enumerate 1 head) @
          [concat [''    '', k, '' = '', str_nat (length head)]] @
          over_elements r outer
            ([concat [''      '', now, ''('', k, '' + 1:'', k, '' + '', per_element, '') = 0''],
              concat [''      if ('', present, '') then''],
              concat [''        '', now, ''('', k, '' + 1) = 1'']] @
             concat (map (\<lambda>d.
               [concat [''        '', now, ''('', k, '' + '', str_nat (2 * d), '') = lbound('', member_at_i, '', '',
                        str_nat d, '')''],
                concat [''        '', now, ''('', k, '' + '', str_nat (2 * d + 1), '') = ubound('', member_at_i, '', '',
                        str_nat d, '')'']]) [1..<rank + 1]) @
             [''      end if'', concat [''      '', k, '' = '', k, '' + '', per_element]])))"

definition device_pack_loop :: "recipe \<Rightarrow> string \<Rightarrow> string \<Rightarrow> string list py" where
  "device_pack_loop r member_at_i assign =
     (let rank = length (cap_symbols r);
          outer = aos_outer_rank r;
          dims = [1..<rank + 1] in
      rbind (aos_pack_extent_locals r) (\<lambda>extents.
      rbind (aos_pack_offset_locals r) (\<lambda>offsets.
      rbind (zip_strict dims extents) (\<lambda>de.
      rbind (zip_strict dims (zip offsets (lb_symbols r))) (\<lambda>dol.
      if length offsets \<noteq> length (lb_symbols r) then Inl (ValueError ''zip'') else
      Inr (map (\<lambda>(k, ext). concat [''        '', ext, '' = size('', member_at_i, '', '', str_nat k, '')'']) de @
           map (\<lambda>(k, off, lb). concat [''        '', off, '' = lbound('', member_at_i, '', '', str_nat k, '') - '', lb]) dol @
           [concat [''        !$acc parallel loop collapse('', str_nat rank, '') default(present)'']] @
           map (\<lambda>k. concat [spaces ((rank - k) * 2), ''        do i'', str_int (outer + int k), '' = 1, '',
                            extents ! (k - 1)]) (rev dims) @
           [concat [spaces (rank * 2), ''        '', assign]] @
           map (\<lambda>k. concat [spaces ((rank - k) * 2), ''        end do'']) dims))))))"

definition buffer_order :: "string list \<Rightarrow> string list \<Rightarrow> bool \<Rightarrow> string" where
  "buffer_order records members members_first =
     join '', '' (if members_first then members @ records else records @ members)"

definition aos_pack_subscripts :: "recipe \<Rightarrow> bool \<Rightarrow> (string \<times> string) py" where
  "aos_pack_subscripts r members_first =
     (let outer = aos_outer_rank r;
          dims = [1..<length (cap_symbols r) + 1] in
      rbind (aos_pack_offset_locals r) (\<lambda>offsets.
      let buffer = buffer_order (element_indices r)
            (map (\<lambda>k. concat [offsets ! (k - 1), '' + i'', str_int (outer + int k)]) dims) members_first in
      rbind (zip_strict dims (lb_symbols r)) (\<lambda>dl.
        Inr (buffer, join '', '' (map (\<lambda>(k, lb).
               concat [lb, '' + '', offsets ! (k - 1), '' + i'', str_int (outer + int k), '' - 1'']) dl)))))"

definition own_range :: "recipe \<Rightarrow> string \<Rightarrow> string" where
  "own_range r member_at_i =
     join '', '' (map (\<lambda>(k, lb).
       concat [''lbound('', member_at_i, '', '', str_nat k, '') - '', lb, '' + 1:ubound('', member_at_i, '', '',
               str_nat k, '') - '', lb, '' + 1'']) (enumerate 1 (lb_symbols r)))"

text \<open>The lines both forms of \<open>_aos_alloc_bounds\<close> use for the first present non-empty element.\<close>

definition take_bounds :: "string \<Rightarrow> string \<Rightarrow> (nat \<times> string) list \<Rightarrow> string list" where
  "take_bounds taken member_at_i dl =
     [concat [''          if (.not. '', taken, '') then'']] @
     map (\<lambda>(k, lb). concat [''            '', lb, '' = lbound('', member_at_i, '', '', str_nat k, '')'']) dl @
     [concat [''            '', taken, '' = .true.''], ''          end if'']"

text \<open>The initialisation before and the sentinel after the loops, and the two guards around an element's
  lines: \<open>inner\<close> for a present non-empty member, \<open>after\<close> for a present one.\<close>

definition bounds_frame :: "string list \<Rightarrow> string list \<Rightarrow> string \<Rightarrow> string list \<Rightarrow> string list" where
  "bounds_frame caps lbs taken loops =
     map (\<lambda>cap. concat [''    '', cap, '' = 0'']) caps @
     map (\<lambda>lb. concat [''    '', lb, '' = 1'']) lbs @
     [concat [''    '', taken, '' = .false.'']] @
     loops @
     map (\<lambda>cap. concat [''    if ('', cap, '' == 0) '', cap, '' = 1'']) caps"

definition element_guard :: "string \<Rightarrow> string \<Rightarrow> string list \<Rightarrow> string list \<Rightarrow> string list" where
  "element_guard present member_at_i inner after =
     [concat [''      if ('', present, '') then''], concat [''        if (size('', member_at_i, '') > 0) then'']] @
     inner @ [''        end if''] @ after @ [''      end if'']"

definition bounds_min :: "string \<Rightarrow> nat \<times> string \<Rightarrow> string" where
  "bounds_min m = (\<lambda>(k, lb). concat [''          '', lb, '' = min('', lb, '', lbound('', m, '', '', str_nat k, ''))''])"

definition bounds_max :: "string \<Rightarrow> nat \<times> string \<times> string \<Rightarrow> string" where
  "bounds_max m = (\<lambda>(k, cap, lb). concat [''          '', cap, '' = max('', cap, '', ubound('', m, '', '', str_nat k,
     '') - '', lb, '' + 1)''])"

definition bounds_agree :: "string \<Rightarrow> string \<Rightarrow> nat \<times> string \<Rightarrow> string" where
  "bounds_agree outer m = (\<lambda>(k, lb). concat [''          if (lbound('', m, '', '', str_nat k, '') /= '', lb, '') '',
     ''error stop '', QT, ''elements of '', outer, '' differ in their lower bounds'', QT])"

definition bounds_size :: "string \<Rightarrow> nat \<times> string \<Rightarrow> string" where
  "bounds_size m = (\<lambda>(k, cap). concat [''        if (size('', m, '', '', str_nat k, '') > '', cap, '') '', cap,
     '' = size('', m, '', '', str_nat k, '')''])"

definition aos_alloc_bounds :: "recipe \<Rightarrow> string \<Rightarrow> bool \<Rightarrow> string list py" where
  "aos_alloc_bounds r outer spread =
     (let caps = cap_symbols r; lbs = lb_symbols r in
      rbind (aos_alloc_member_at_i r) (\<lambda>m.
      let present = aos_alloc_presence r m; dims = [1..<length caps + 1] in
      rbind (aos_bounds_locals r) (\<lambda>taken.
      rbind (zip_strict dims lbs) (\<lambda>dl.
      Inr (bounds_frame caps lbs taken
        (if spread then
           over_elements r outer
             (element_guard present m (take_bounds taken m dl @ map (bounds_min m) dl) []) @
           over_elements r outer
             (element_guard present m (map (bounds_max m) (zip dims (zip caps lbs))) [])
         else
           over_elements r outer
             (element_guard present m (take_bounds taken m dl @ map (bounds_agree outer m) dl)
                (map (bounds_size m) (zip dims caps)))))))))"

definition device_setup :: "recipe \<Rightarrow> string \<Rightarrow> string \<Rightarrow> string \<Rightarrow> string \<Rightarrow> string \<Rightarrow> string \<Rightarrow> string \<Rightarrow> string list" where
  "device_setup r outer flat shape present padded saved now =
     [concat [''    if (allocated('', flat, '')) then''],
      concat [''      !$acc exit data delete('', flat, '')''],
      concat [''      deallocate('', flat, '')''],
      ''    end if'',
      concat [''    allocate('', flat, ''('', shape, ''))''],
      concat [''    !$acc enter data create('', flat, '')''],
      concat [''    '', flat, ''_padded = .false.'']] @
     over_elements r outer
       [concat [''      if ('', present, '') then''],
        concat [''        if ('', padded, '') '', flat, ''_padded = .true.''],
        ''      end if''] @
     [concat [''    if ('', flat, ''_padded) then''],
      ''      !$acc kernels default(present)'',
      concat [''      '', flat, '' = 0''],
      ''      !$acc end kernels'',
      ''    end if'',
      concat [''    if (allocated('', saved, '')) deallocate('', saved, '')''],
      concat [''    allocate('', saved, ''(size('', now, '')))''],
      concat [''    '', saved, '' = '', now]]"

definition render_aos_alloc_pack_in :: "recipe \<Rightarrow> string \<Rightarrow> bool \<Rightarrow> bool \<Rightarrow> string list py" where
  "render_aos_alloc_pack_in r outer device members_first =
     (if \<not> aos_alloc r then Inl (ValueError ''render_aos_alloc_pack_in called on non-aos_alloc recipe'') else
      rbind (py_hd (flat_names r)) (\<lambda>flat.
      let caps = cap_symbols r;
          shape = buffer_order (aos_alloc_extents r outer) caps members_first;
          elements = element_indices r in
      rbind (aos_alloc_member_at_i r) (\<lambda>member_at_i.
      let present = aos_alloc_presence r member_at_i;
          dims = [1..<length caps + 1];
          live = own_range r member_at_i in
      rbind
        (if device then
           rbind (aos_pack_subscripts r members_first) (\<lambda>(buffer_idx, member_idx).
           rbind (zip_strict dims (lb_symbols r)) (\<lambda>_.
           let padded = join '' .or. '' (map (\<lambda>(k, cap, lb).
                 concat [''size('', member_at_i, '', '', str_nat k, '') < '', cap, '' .or. lbound('', member_at_i, '', '',
                         str_nat k, '') /= '', lb]) (zip dims (zip caps (lb_symbols r)))) in
           rbind (aos_kept_layout_locals r) (\<lambda>(saved, now, k, fresh).
           rbind (kept_layout r outer member_at_i present) (\<lambda>layout.
           rbind (device_pack_loop r member_at_i
                    (concat [flat, ''('', buffer_idx, '') = '', member_at_i, ''('', member_idx, '')''])) (\<lambda>pack.
             Inr (layout @
                  [concat [''    '', fresh, '' = .not. allocated('', saved, '')''],
                   concat [''    if (.not. '', fresh, '') '', fresh, '' = size('', saved, '') /= size('', now, '')''],
                   concat [''    if (.not. '', fresh, '') '', fresh, '' = any('', saved, '' /= '', now, '')''],
                   concat [''    if ('', fresh, '') then'']] @
                  map (\<lambda>line. ''  '' @ line) (device_setup r outer flat shape present padded saved now) @
                  [''    end if'', concat [''    deallocate('', now, '')'']] @
                  over_elements r outer
                    ([concat [''      if ('', present, '') then'']] @ pack @ [''      end if''])))))))
         else
           Inr ([concat [''    allocate('', flat, ''('', shape, ''))''], concat [''    '', flat, '' = 0'']] @
                over_elements r outer
                  [concat [''      if ('', present, '') then''],
                   concat [''        '', flat, ''('', buffer_order elements [live] members_first, '') = '', member_at_i],
                   ''      end if''])) (\<lambda>fill.
      rbind (aos_alloc_bounds r outer True) (\<lambda>bounds.
        Inr ([concat [''    ! ----- AoS pack-in: '', outer, '' -> '', flat, '' (cap = '', join '', '' caps, '')'',
                      (if device then '' on the device, kept across calls'' else []), '' -----'']] @
             bounds @ fill))))))"

definition render_aos_alloc_release :: "recipe \<Rightarrow> bool \<Rightarrow> string list py" where
  "render_aos_alloc_release r device =
     rbind (py_hd (flat_names r)) (\<lambda>flat.
       Inr [if device then concat [''    ! '', flat, '' and its device copy stay allocated for the next call'']
            else concat [''    deallocate('', flat, '')'']])"

definition render_aos_alloc_pack_out :: "recipe \<Rightarrow> string \<Rightarrow> bool \<Rightarrow> bool \<Rightarrow> string list py" where
  "render_aos_alloc_pack_out r outer device members_first =
     (if \<not> aos_alloc r then Inl (ValueError ''render_aos_alloc_pack_out called on non-aos_alloc recipe'') else
      rbind (py_hd (flat_names r)) (\<lambda>flat.
      let elements = element_indices r in
      rbind (aos_alloc_member_at_i r) (\<lambda>member_at_i.
      let present = aos_alloc_presence r member_at_i;
          live = own_range r member_at_i in
      rbind (if device then
               rbind (aos_pack_subscripts r members_first) (\<lambda>(buffer_idx, member_idx).
               device_pack_loop r member_at_i
                 (concat [member_at_i, ''('', member_idx, '') = '', flat, ''('', buffer_idx, '')'']))
             else
               Inr [concat [''        '', member_at_i, '' = '', flat, ''('', buffer_order elements [live] members_first,
                            '')'']]) (\<lambda>unpack.
      rbind (render_aos_alloc_release r device) (\<lambda>release.
        Inr ([concat [''    ! ----- AoS pack-out: '', flat, '' -> '', outer,
                      (if device then '' on the device'' else []), '' -----'']] @
             over_elements r outer ([concat [''      if ('', present, '') then'']] @ unpack @ [''      end if'']) @
             release))))))"

text \<open>The lines that decline or stop, and the lines of one element.\<close>

definition refusal :: "string \<Rightarrow> string option \<Rightarrow> string list" where
  "refusal outer declined_flag =
     (case declined_flag of None \<Rightarrow> [] | Some flag \<Rightarrow> if flag = [] then [] else
        [concat [''if (present('', flag, '')) then''],
         concat [''  write(0, '', QT, ''(a)'', QT, '') '', QT, ''declined: an element of '', outer,
                 '' is absent or not of the shape its siblings share'', QT],
         concat [''  '', flag, '' = .true.''], ''  return'', ''end if'']) @
     [concat [''error stop '', QT, ''an element of '', outer,
              '' is absent or not of the shape its siblings share'', QT]]"

definition member_lines :: "string \<Rightarrow> string \<Rightarrow> string \<Rightarrow> string list \<Rightarrow> int \<times> string \<Rightarrow> string list" where
  "member_lines present conforming member_at_i refuse = (\<lambda>(index, name).
     [concat [''    i1 = '', str_int (index + 1)], concat [''    if (.not. '', present, '') then'']] @
     map (\<lambda>ln. ''      '' @ ln) refuse @
     [''    end if'', concat [''    if (.not. ('', conforming, '')) then'']] @
     map (\<lambda>ln. ''      '' @ ln) refuse @
     [''    end if'', concat [''    '', name, '' => '', member_at_i]])"

definition render_aos_alloc_members ::
  "recipe \<Rightarrow> string \<Rightarrow> (int \<times> string) list \<Rightarrow> string option \<Rightarrow> string list py" where
  "render_aos_alloc_members r outer elements declined_flag =
     (if \<not> aos_alloc r then Inl (ValueError ''render_aos_alloc_members called on non-aos_alloc recipe'')
      else if aos_outer_rank r \<noteq> 1 then
        Inl (ValueError ''render_aos_alloc_members takes the members of a rank-1 array of records'')
      else
      rbind (aos_alloc_member_at_i r) (\<lambda>member_at_i.
      let present = aos_alloc_presence r member_at_i; dims = [1..<length (cap_symbols r) + 1] in
      rbind (zip_strict dims (lb_symbols r)) (\<lambda>dl.
      let conforming = join '' .and. ''
            ([concat [''is_contiguous('', member_at_i, '')'']] @
             map (\<lambda>(k, cap). concat [''size('', member_at_i, '', '', str_nat k, '') == '', cap]) (zip dims (cap_symbols r)) @
             map (\<lambda>(k, lb). concat [''lbound('', member_at_i, '', '', str_nat k, '') == '', lb]) dl) in
      rbind (aos_alloc_bounds r outer False) (\<lambda>bounds.
        Inr ([concat [''    ! ----- Members of '', outer, '', one array per element, aliased in place -----'']] @
             bounds @
             concat (map (member_lines present conforming member_at_i (refusal outer declined_flag))
               (sort_key fst elements)))))))"

section \<open>Loop nests\<close>

lemma idx_names_nth: "d < nat rank \<Longrightarrow> py_nth (loop_index_names rank) d = Inr (''i'' @ str_nat (d + 1))"
  by (simp add: py_nth_def loop_index_names_def)

definition nest_headers :: "recipe \<Rightarrow> string list" where
  "nest_headers r =
     map (\<lambda>d. do_header (''i'' @ str_nat (d + 1)) (shape_exprs r ! d)) (rev [0..<nat (rc_rank r)])"

definition nest_line :: "recipe \<Rightarrow> nat \<Rightarrow> string" where
  "nest_line r d = concat [''    '', spaces ((nat (rc_rank r) - 1 - d) * 2), ''do '', ''i'' @ str_nat (d + 1), '' = 1, '',
     shape_exprs r ! d]"

lemma nest_open_Inr:
  assumes "nest_open r (loop_index_names (rc_rank r)) = Inr heads"
  shows "heads = map (nest_line r) (rev [0..<nat (rc_rank r)]) \<and>
    (\<forall>d \<in> set (rev [0..<nat (rc_rank r)]). d < length (shape_exprs r))"
  using assms unfolding nest_open_def
  by (rule rmap_InrD) (auto simp: rbind_Inr_iff py_nth_def loop_index_names_def nest_line_def split: if_splits)

lemma nest_line_kind: "line_kind (nest_line r d) = Opens_Do (do_header (''i'' @ str_nat (d + 1)) (shape_exprs r ! d))"
  by (simp add: nest_line_def do_header_def kind_do [simplified])

lemma nest_close_kind: "e \<in> set (nest_close r) \<Longrightarrow> line_kind e = Closes_Do"
  by (auto simp: nest_close_def)

lemma block_copy_nest:
  assumes "nest_open r (loop_index_names (rc_rank r)) = Inr heads" "block ls ts"
  shows "block (heads @ ls @ nest_close r) (nest (nest_headers r) ts)"
proof (rule block_nest)
  show "list_all2 (\<lambda>p h. line_kind p = Opens_Do h) heads (nest_headers r)"
    using nest_open_Inr [OF assms(1)]
    by (simp add: nest_headers_def list_all2_map1 list_all2_map2 nest_line_kind list.rel_refl)
  show "length (nest_close r) = length heads"
    using nest_open_Inr [OF assms(1)] by (simp add: nest_close_def)
qed (use assms nest_close_kind in auto)

lemma str_nat_no_space: "CHR '' '' \<notin> set (str_nat n)"
proof -
  have "\<not> is_digit CHR '' ''" by code_simp
  then show ?thesis using str_nat_digits by blast
qed

lemma takeWhile_stop: "\<forall>c \<in> set v. P c \<Longrightarrow> \<not> P x \<Longrightarrow> takeWhile P (v @ x # l) = v"
  by (induction v) simp_all

lemma do_var_header [simp]: "do_var (do_header (CHR ''i'' # str_nat n) e) = CHR ''i'' # str_nat n"
proof -
  have "takeWhile (\<lambda>c. c \<noteq> CHR '' '') ((CHR ''i'' # str_nat n) @ CHR '' '' # ''= 1, '' @ e) = CHR ''i'' # str_nat n"
    by (rule takeWhile_stop) (use str_nat_no_space [of n] in auto)
  then show ?thesis by (simp add: do_var_def do_header_def)
qed

lemma do_bound_header [simp]: "do_bound (do_header (CHR ''i'' # str_nat n) e) = e"
  by (simp add: do_bound_def) (simp add: do_header_def eval_nat_numeral)

lemma nest_headers_vars: "map do_var (nest_headers r) = rev (loop_index_names (rc_rank r))"
  by (simp add: nest_headers_def loop_index_names_def rev_map comp_def)

lemma nest_headers_bounds:
  assumes "\<forall>d \<in> set (rev [0..<nat (rc_rank r)]). d < length (shape_exprs r)"
  shows "map (\<lambda>h. ext (do_bound h)) (nest_headers r) = map ext (rev (take (nat (rc_rank r)) (shape_exprs r)))"
proof -
  have "map (\<lambda>d. shape_exprs r ! d) [0..<nat (rc_rank r)] = take (nat (rc_rank r)) (shape_exprs r)"
    using assms by (intro nth_equalityI) (cases "nat (rc_rank r)", auto)
  from arg_cong [OF this, of "map ext"]
  have "map (\<lambda>d. ext (shape_exprs r ! d)) [0..<nat (rc_rank r)] = map ext (take (nat (rc_rank r)) (shape_exprs r))"
    by (simp add: comp_def)
  then have "rev (map (\<lambda>d. ext (shape_exprs r ! d)) [0..<nat (rc_rank r)]) =
      map ext (rev (take (nat (rc_rank r)) (shape_exprs r)))"
    by (simp add: rev_map)
  then show ?thesis
    by (simp add: nest_headers_def comp_def rev_map)
qed

section \<open>The copy-in nest\<close>

definition alloc_stmt :: "recipe \<Rightarrow> string \<Rightarrow> string" where
  "alloc_stmt r flat = concat [''allocate('', flat, ''('', join '', '' (shape_exprs r), ''))'']"

definition assign_stmt :: "recipe \<Rightarrow> string \<Rightarrow> string \<Rightarrow> string" where
  "assign_stmt r flat rhs =
     concat [flat, ''('', join '', '' (loop_index_names (rc_rank r)), '') = '', rhs]"

lemma not_space_simps [simp]: "\<not> is_space CHR ''a''" "\<not> is_space CHR ''!''" "\<not> is_space CHR ''w''" "\<not> is_space CHR ''r''"
  by code_simp+

lemma copy_in_Inr:
  assumes "render_copy_in_loop r = Inr ls" and "\<forall>f \<in> set (flat_names r). ref_head f"
  obtains rhss summary where
    "rmap (\<lambda>e. substitute_indices e (loop_index_names (rc_rank r)))
      (take (length (flat_names r)) (read_exprs r)) = Inr rhss"
    "substitute_indices (hd (read_exprs r)) (loop_index_names (rc_rank r)) = Inr summary"
    "read_exprs r \<noteq> []" "\<forall>d \<in> set (rev [0..<nat (rc_rank r)]). d < length (shape_exprs r)"
    "block ls (map (\<lambda>f. Leaf (alloc_stmt r f)) (flat_names r) @
       [Leaf (concat [''! Copy-in: '', join '', '' (flat_names r), '' <- '', summary])] @
       nest (nest_headers r) (map (\<lambda>(f, e). Leaf (assign_stmt r f e)) (zip (flat_names r) rhss)))"
proof -
  let ?idx = "loop_index_names (rc_rank r)"
  let ?al = "map (\<lambda>flat. concat [''    allocate('', flat, ''('', join '', '' (shape_exprs r), ''))'']) (flat_names r)"
  let ?ind = "spaces (nat (rc_rank r) * 2)"
  from assms(1) obtain read0 summary heads body where
    r0: "py_hd (read_exprs r) = Inr read0" and s: "substitute_indices read0 ?idx = Inr summary"
    and h: "nest_open r ?idx = Inr heads"
    and b: "rmap (\<lambda>(flat, read_expr). rbind (substitute_indices read_expr ?idx) (\<lambda>rhs.
        Inr (concat [''    '', ?ind, flat, ''('', join '', '' ?idx, '') = '', rhs])))
        (zip (flat_names r) (read_exprs r)) = Inr body"
    and ls: "ls = ?al @ [concat [''    ! Copy-in: '', join '', '' (flat_names r), '' <- '', summary]] @
        (heads @ body @ nest_close r)"
    by (auto simp: render_copy_in_loop_def Let_def rbind_Inr_iff split: if_splits)
  have bodies: "\<exists>rhss. rmap (\<lambda>e. substitute_indices e ?idx) (take (length fs) es) = Inr rhss \<and>
      body = map (\<lambda>(f, e). concat [''    '', ?ind, f, ''('', join '', '' ?idx, '') = '', e]) (zip fs rhss)"
    if "rmap (\<lambda>(flat, read_expr). rbind (substitute_indices read_expr ?idx) (\<lambda>rhs.
        Inr (concat [''    '', ?ind, flat, ''('', join '', '' ?idx, '') = '', rhs]))) (zip fs es) = Inr body"
    for fs es body
    using that
  proof (induction fs es arbitrary: body rule: list_induct2')
    case (4 f fs e es)
    then obtain rhs tl where "substitute_indices e ?idx = Inr rhs"
      "body = concat [''    '', ?ind, f, ''('', join '', '' ?idx, '') = '', rhs] # tl"
      "rmap (\<lambda>(flat, read_expr). rbind (substitute_indices read_expr ?idx) (\<lambda>rhs.
        Inr (concat [''    '', ?ind, flat, ''('', join '', '' ?idx, '') = '', rhs]))) (zip fs es) = Inr tl"
      by (auto simp: rbind_Inr_iff)
    with 4 show ?case by (force simp: rbind_Inr_iff)
  qed auto
  from bodies [OF b] obtain rhss where rh: "rmap (\<lambda>e. substitute_indices e ?idx)
      (take (length (flat_names r)) (read_exprs r)) = Inr rhss"
    and body: "body = map (\<lambda>(f, e). concat [''    '', ?ind, f, ''('', join '', '' ?idx, '') = '', e])
      (zip (flat_names r) rhss)" by blast
  have "block body (map (\<lambda>x. Leaf (case x of (f, e) \<Rightarrow> assign_stmt r f e)) (zip (flat_names r) rhss))"
    unfolding body using assms(2)
    by (intro block_leaves) (auto simp: assign_stmt_def kind_ref dest!: set_zip_leftD)
  then have "block (heads @ body @ nest_close r)
      (nest (nest_headers r) (map (\<lambda>(f, e). Leaf (assign_stmt r f e)) (zip (flat_names r) rhss)))"
    by (intro block_copy_nest [OF h]) (simp add: case_prod_unfold)
  moreover have "block ?al (map (\<lambda>f. Leaf (alloc_stmt r f)) (flat_names r))"
    by (rule block_leaves) (simp add: alloc_stmt_def kind_other)
  moreover have "block [concat [''    ! Copy-in: '', join '', '' (flat_names r), '' <- '', summary]]
      [Leaf (concat [''! Copy-in: '', join '', '' (flat_names r), '' <- '', summary])]"
    by (rule block_leaf) (simp add: kind_other)
  moreover have "read_exprs r \<noteq> []" "read0 = hd (read_exprs r)"
    using r0 by (auto simp: py_hd_def py_nth_def hd_conv_nth split: if_splits)
  ultimately show ?thesis
    using that [OF rh] s nest_open_Inr [OF h] unfolding ls by (blast intro: block_append)
qed

lemma copy_out_Inr:
  assumes "render_copy_out_loop r outer = Inr ls" and "write_expr r = []"
    and "\<And>b. substitute_indices (hd (read_exprs r)) (loop_index_names (rc_rank r)) = Inr b \<Longrightarrow> ref_head b"
  obtains f b where "flat_names r = [f]"
    "substitute_indices (hd (read_exprs r)) (loop_index_names (rc_rank r)) = Inr b"
    "block ls ([Leaf (concat [''! Copy-out: '', outer, '' <- '', f])] @
       nest (nest_headers r)
         [Leaf (concat [b, '' = '', f, ''('', join '', '' (loop_index_names (rc_rank r)), '')''])] @
       [Leaf (concat [''deallocate('', f, '')''])])"
proof -
  let ?idx = "loop_index_names (rc_rank r)"
  from assms(1,2) have one: "length (flat_names r) = 1"
    by (auto simp: render_copy_out_loop_def Let_def rbind_Inr_iff split: if_splits)
  then obtain f where f: "flat_names r = [f]" by (auto simp: length_Suc_conv)
  from assms(1,2) f obtain heads b where h: "nest_open r ?idx = Inr heads"
    and b: "substitute_indices (hd (read_exprs r)) ?idx = Inr b"
    and ls: "ls = [concat [''    ! Copy-out: '', outer, '' <- '', f]] @
      (heads @ [concat [''    '', spaces (nat (rc_rank r) * 2), b, '' = '', f, ''('', join '', '' ?idx, '')'']] @
        nest_close r) @ [concat [''    deallocate('', f, '')'']]"
    by (auto simp: render_copy_out_loop_def Let_def rbind_Inr_iff split: if_splits)
  have "block [concat [''    '', spaces (nat (rc_rank r) * 2), b, '' = '', f, ''('', join '', '' ?idx, '')'']]
      [Leaf (concat [b, '' = '', f, ''('', join '', '' ?idx, '')''])]"
    by (rule block_leaf) (simp add: kind_ref assms(3) b)
  from block_copy_nest [OF h this] have
    "block ls ([Leaf (concat [''! Copy-out: '', outer, '' <- '', f])] @
       nest (nest_headers r) [Leaf (concat [b, '' = '', f, ''('', join '', '' ?idx, '')''])] @
       [Leaf (concat [''deallocate('', f, '')''])])"
    unfolding ls by (intro block_append block_leaf) (simp_all add: kind_other kind_d)
  with that [OF f b] show ?thesis .
qed

section \<open>Properties of the copy loops\<close>

text \<open>C3. The forward copy runs over the whole array: the emitted lines nest correctly; running them
  allocates every flat buffer and then, for every index tuple of the box of the recipe's extents,
  exactly once and with the first index running fastest, assigns every flat its read expression with
  the placeholders replaced by the loop variables of that iteration.\<close>

theorem copy_in_covers_the_box:
  assumes "render_copy_in_loop r = Inr ls" and "\<forall>f \<in> set (flat_names r). ref_head f"
  shows "\<exists>rhss summary ts ns.
    rmap (\<lambda>e. substitute_indices e (loop_index_names (rc_rank r))) (take (length (flat_names r)) (read_exprs r)) = Inr rhss \<and>
    parse_blocks ls = Some ts \<and>
    ns = map ext (rev (take (nat (rc_rank r)) (shape_exprs r))) \<and>
    concat (map (run_stmt ext cond []) ts) =
      map (\<lambda>f. ([], alloc_stmt r f)) (flat_names r) @
      [([], concat [''! Copy-in: '', join '', '' (flat_names r), '' <- '', summary])] @
      concat (map (\<lambda>t. map (\<lambda>(f, e). (zip (rev (loop_index_names (rc_rank r))) t, assign_stmt r f e))
        (zip (flat_names r) rhss)) (box ns)) \<and>
    distinct (box ns) \<and> set (box ns) = {t. list_all2 (\<lambda>i n. 1 \<le> i \<and> i \<le> n) t ns}"
proof -
  have leaves: "concat (map (run_stmt ext cond env) (map (\<lambda>x. Leaf (g x)) xs)) = map (\<lambda>x. (env, g x)) xs"
    for env g and xs :: "'x list"
    by (induction xs) simp_all
  from assms obtain rhss summary where c: "rmap (\<lambda>e. substitute_indices e (loop_index_names (rc_rank r)))
      (take (length (flat_names r)) (read_exprs r)) = Inr rhss"
    "\<forall>d \<in> set (rev [0..<nat (rc_rank r)]). d < length (shape_exprs r)"
    "block ls (map (\<lambda>f. Leaf (alloc_stmt r f)) (flat_names r) @
       [Leaf (concat [''! Copy-in: '', join '', '' (flat_names r), '' <- '', summary])] @
       nest (nest_headers r) (map (\<lambda>x. Leaf (case x of (f, e) \<Rightarrow> assign_stmt r f e)) (zip (flat_names r) rhss)))"
    by (rule copy_in_Inr) (simp add: case_prod_unfold)
  show ?thesis
    by (intro exI conjI, rule c(1), rule parse_block [OF c(3)], rule refl)
      (simp_all only: map_append concat_append leaves run_nest nest_headers_vars nest_headers_bounds [OF c(2)]
        box_distinct box_set, simp_all add: case_prod_unfold)
qed

definition ex_recipe :: recipe where
  "ex_recipe = \<lparr>flat_names = [''pts_x''], read_exprs = [''pts($i1, $i2)%x''], write_expr = [], rc_rank = 2,
     shape_exprs = [''n'', ''m''], aliasable = False, scratch_dtype = ''float64'', aos_alloc = False,
     cap_symbols = [], lb_symbols = [], member_pointer = False\<rparr>"

lemma ex_recipe_copy_in:
  "render_copy_in_loop ex_recipe = Inr
     [''    allocate(pts_x(n, m))'', ''    ! Copy-in: pts_x <- pts(i1, i2)%x'', ''    do i2 = 1, m'',
      ''      do i1 = 1, n'', ''        pts_x(i1, i2) = pts(i1, i2)%x'', ''      end do'', ''    end do'']"
  by code_simp

lemma ex_recipe_heads: "\<forall>f \<in> set (flat_names ex_recipe). ref_head f"
  by code_simp

theorem copy_in_covers_the_box_witness:
  "\<exists>ts. parse_blocks
     [''    allocate(pts_x(n, m))'', ''    ! Copy-in: pts_x <- pts(i1, i2)%x'', ''    do i2 = 1, m'',
      ''      do i1 = 1, n'', ''        pts_x(i1, i2) = pts(i1, i2)%x'', ''      end do'', ''    end do''] = Some ts \<and>
     length (concat (map (run_stmt (\<lambda>e. if e = ''n'' then 3 else 2) (\<lambda>_ _. True) []) ts)) = 8"
proof -
  from copy_in_covers_the_box [OF ex_recipe_copy_in ex_recipe_heads,
      of "\<lambda>e. if e = ''n'' then 3 else 2" "\<lambda>_ _. True"]
  obtain rhss summary ts where ts: "parse_blocks
     [''    allocate(pts_x(n, m))'', ''    ! Copy-in: pts_x <- pts(i1, i2)%x'', ''    do i2 = 1, m'',
      ''      do i1 = 1, n'', ''        pts_x(i1, i2) = pts(i1, i2)%x'', ''      end do'', ''    end do''] = Some ts"
    and rh: "rmap (\<lambda>e. substitute_indices e (loop_index_names 2)) [''pts($i1, $i2)%x''] = Inr rhss"
    and run: "concat (map (run_stmt (\<lambda>e. if e = ''n'' then 3 else 2) (\<lambda>_ _. True) []) ts) =
      map (\<lambda>f. ([], alloc_stmt ex_recipe f)) [''pts_x''] @
      [([], concat [''! Copy-in: '', join '', '' [''pts_x''], '' <- '', summary])] @
      concat (map (\<lambda>t. map (\<lambda>(f, e). (zip (rev (loop_index_names 2)) t, assign_stmt ex_recipe f e))
        (zip [''pts_x''] rhss)) (box [2, 3]))"
    by (auto simp: ex_recipe_def)
  have "length rhss = 1" using rmap_length [OF rh] by simp
  moreover have "box [2, 3] = [[1, 1], [1, 2], [1, 3], [2, 1], [2, 2], [2, 3]]" by code_simp
  ultimately show ?thesis using ts run by (auto simp: length_Suc_conv)
qed

text \<open>The reverse copy of a plain single-flat recipe undoes the forward copy: it has the same loop
  nest, the assignment has its sides exchanged, and what the forward copy allocated it deallocates
  after the loops.\<close>

theorem copy_out_mirrors_copy_in:
  assumes "render_copy_in_loop r = Inr li" and "render_copy_out_loop r outer = Inr lo" and "write_expr r = []"
    and "\<forall>f \<in> set (flat_names r). ref_head f"
    and "\<forall>b. substitute_indices (hd (read_exprs r)) (loop_index_names (rc_rank r)) = Inr b \<longrightarrow> ref_head b"
  shows "\<exists>f a b ci co. flat_names r = [f] \<and> a = concat [f, ''('', join '', '' (loop_index_names (rc_rank r)), '')''] \<and>
    substitute_indices (hd (read_exprs r)) (loop_index_names (rc_rank r)) = Inr b \<and>
    parse_blocks li = Some ([Leaf (alloc_stmt r f), Leaf ci] @ nest (nest_headers r) [Leaf (a @ '' = '' @ b)]) \<and>
    parse_blocks lo = Some ([Leaf co] @ nest (nest_headers r) [Leaf (b @ '' = '' @ a)] @
      [Leaf (concat [''deallocate('', f, '')''])])"
proof -
  from assms(2,3,5) obtain f b where o: "flat_names r = [f]"
    "substitute_indices (hd (read_exprs r)) (loop_index_names (rc_rank r)) = Inr b"
    "block lo ([Leaf (concat [''! Copy-out: '', outer, '' <- '', f])] @
       nest (nest_headers r)
         [Leaf (concat [b, '' = '', f, ''('', join '', '' (loop_index_names (rc_rank r)), '')''])] @
       [Leaf (concat [''deallocate('', f, '')''])])"
    by (elim copy_out_Inr) auto
  from assms(1,4) obtain rhss summary where c: "rmap (\<lambda>e. substitute_indices e (loop_index_names (rc_rank r)))
      (take (length (flat_names r)) (read_exprs r)) = Inr rhss" "read_exprs r \<noteq> []"
    "block li (map (\<lambda>f. Leaf (alloc_stmt r f)) (flat_names r) @
       [Leaf (concat [''! Copy-in: '', join '', '' (flat_names r), '' <- '', summary])] @
       nest (nest_headers r) (map (\<lambda>(f, e). Leaf (assign_stmt r f e)) (zip (flat_names r) rhss)))"
    by (elim copy_in_Inr)
  have "rhss = [b]" using c(1,2) o(1,2) by (cases "read_exprs r") auto
  then show ?thesis
    using o(1,2) parse_block [OF o(3)] parse_block [OF c(3)] by (auto simp: assign_stmt_def)
qed

theorem copy_out_mirrors_copy_in_witness:
  "\<exists>ci co. parse_blocks
     [''    allocate(pts_x(n, m))'', ''    ! Copy-in: pts_x <- pts(i1, i2)%x'', ''    do i2 = 1, m'',
      ''      do i1 = 1, n'', ''        pts_x(i1, i2) = pts(i1, i2)%x'', ''      end do'', ''    end do''] =
     Some [Leaf ''allocate(pts_x(n, m))'', Leaf ci,
       Do ''i2 = 1, m'' [Do ''i1 = 1, n'' [Leaf ''pts_x(i1, i2) = pts(i1, i2)%x'']]] \<and>
   parse_blocks
     [''    ! Copy-out: pts <- pts_x'', ''    do i2 = 1, m'', ''      do i1 = 1, n'',
      ''        pts(i1, i2)%x = pts_x(i1, i2)'', ''      end do'', ''    end do'', ''    deallocate(pts_x)''] =
     Some [Leaf co, Do ''i2 = 1, m'' [Do ''i1 = 1, n'' [Leaf ''pts(i1, i2)%x = pts_x(i1, i2)'']],
       Leaf ''deallocate(pts_x)'']"
proof -
  have out: "render_copy_out_loop ex_recipe ''pts'' = Inr
     [''    ! Copy-out: pts <- pts_x'', ''    do i2 = 1, m'', ''      do i1 = 1, n'',
      ''        pts(i1, i2)%x = pts_x(i1, i2)'', ''      end do'', ''    end do'', ''    deallocate(pts_x)'']"
    by code_simp
  have sub: "substitute_indices (hd (read_exprs ex_recipe)) (loop_index_names (rc_rank ex_recipe)) = Inr ''pts(i1, i2)%x''"
    by code_simp
  have "ref_head ''pts(i1, i2)%x''" by code_simp
  then have ref: "\<forall>b. substitute_indices (hd (read_exprs ex_recipe)) (loop_index_names (rc_rank ex_recipe)) = Inr b \<longrightarrow> ref_head b"
    using sub by auto
  have "write_expr ex_recipe = []" by code_simp
  from copy_out_mirrors_copy_in [OF ex_recipe_copy_in out this ex_recipe_heads ref]
  obtain ci co where p: "parse_blocks
     [''    allocate(pts_x(n, m))'', ''    ! Copy-in: pts_x <- pts(i1, i2)%x'', ''    do i2 = 1, m'',
      ''      do i1 = 1, n'', ''        pts_x(i1, i2) = pts(i1, i2)%x'', ''      end do'', ''    end do''] =
     Some ([Leaf (alloc_stmt ex_recipe ''pts_x''), Leaf ci] @ nest (nest_headers ex_recipe)
       [Leaf (concat [''pts_x'', ''('', join '', '' (loop_index_names 2), '')''] @ '' = '' @ ''pts(i1, i2)%x'')])"
    "parse_blocks
     [''    ! Copy-out: pts <- pts_x'', ''    do i2 = 1, m'', ''      do i1 = 1, n'',
      ''        pts(i1, i2)%x = pts_x(i1, i2)'', ''      end do'', ''    end do'', ''    deallocate(pts_x)''] =
     Some ([Leaf co] @ nest (nest_headers ex_recipe)
       [Leaf (''pts(i1, i2)%x'' @ '' = '' @ concat [''pts_x'', ''('', join '', '' (loop_index_names 2), '')''])] @
       [Leaf (concat [''deallocate('', ''pts_x'', '')''])])"
    using sub by (auto simp: ex_recipe_def)
  have h: "nest_headers ex_recipe = [''i2 = 1, m'', ''i1 = 1, n'']"
    "join '', '' (loop_index_names 2) = ''i1, i2''" "alloc_stmt ex_recipe ''pts_x'' = ''allocate(pts_x(n, m))''"
    by code_simp+
  show ?thesis using p unfolding h by auto
qed

end
