(* ===== verification/Loop_Pack.thy ===== *)
theory Loop_Pack
  imports Loop_Copy
begin

text \<open>
  What the renderers for arrays of records with allocatable members
  (\<open>render_aos_alloc_pack_in\<close>, \<open>render_aos_alloc_pack_out\<close>, \<open>render_aos_alloc_members\<close> of
  \<open>src/dace_fortran/bindings/loop_copy.py\<close>) emit: when they return, the block structure of their
  lines, and how the pack-out answers the pack-in.
\<close>

section \<open>Loops over the elements\<close>

definition element_headers :: "recipe \<Rightarrow> string \<Rightarrow> string list" where
  "element_headers r outer =
     (let extents = aos_alloc_extents r outer in
      map (\<lambda>d. do_header (''i'' @ str_nat d) (extents ! (d - 1))) (rev [1..<length extents + 1]))"

lemma block_over_elements:
  assumes "block body ts"
  shows "block (over_elements r outer body) (nest (element_headers r outer) ts)"
  unfolding over_elements_def Let_def
proof (rule block_nest)
  show "list_all2 (\<lambda>p h. line_kind p = Opens_Do h)
     (map (\<lambda>d. concat [''    '', spaces ((length (aos_alloc_extents r outer) - d) * 2), ''do i'', str_nat d,
        '' = 1, '', aos_alloc_extents r outer ! (d - 1)]) (rev [1..<length (aos_alloc_extents r outer) + 1]))
     (element_headers r outer)"
    by (simp add: element_headers_def Let_def list_all2_map1 list_all2_map2 list.rel_refl do_header_def
        kind_do [simplified])
qed (auto simp: assms block_indent Suc_le_eq)

lemma neutral_over_elements: "neutral body \<Longrightarrow> neutral (over_elements r outer body)"
  using neutral_block block_over_elements block_neutral by blast

section \<open>Names\<close>

text \<open>The names and the reference a recipe brings into the emitted lines start lines harmlessly.\<close>

definition pack_names_ok :: "recipe \<Rightarrow> bool" where
  "pack_names_ok r =
     ((\<forall>x \<in> set (flat_names r) \<union> set (cap_symbols r) \<union> set (lb_symbols r). ref_head x) \<and>
      (case aos_alloc_member_at_i r of Inl _ \<Rightarrow> True | Inr m \<Rightarrow> ref_head m))"

lemma take_bounds_neutral:
  assumes "ref_head flat" "\<forall>(k, lb) \<in> set dl. ref_head lb"
  shows "neutral (take_bounds (flat @ ''_lb_taken'') m dl)"
proof -
  have "neutral (map (\<lambda>(k, lb). concat [''            '', lb, '' = lbound('', m, '', '', str_nat k, '')'']) dl)"
    using assms(2) by (intro neutral_map) (auto simp: kinds)
  then show ?thesis
    using assms(1) by (intro neutralI) (simp add: take_bounds_def kinds)
qed

lemma zip_strict_Inr: "zip_strict xs ys = Inr zs \<longleftrightarrow> length xs = length ys \<and> zs = zip xs ys"
  by (auto simp: zip_strict_def)

lemma py_hd_Inr: "py_hd xs = Inr x \<longleftrightarrow> xs \<noteq> [] \<and> x = hd xs"
  by (auto simp: py_hd_def py_nth_def hd_conv_nth)

lemma bounds_Inr:
  assumes "aos_alloc_bounds r outer spread = Inr ls"
  obtains m where "aos_alloc_member_at_i r = Inr m" "flat_names r \<noteq> []"
    "length (lb_symbols r) = length (cap_symbols r)"
  using assms
  by (auto simp: aos_alloc_bounds_def Let_def rbind_Inr_iff aos_bounds_locals_def py_hd_Inr zip_strict_Inr
      simp del: upt_Suc)

lemma element_guard_neutral:
  "neutral xs \<Longrightarrow> neutral ys \<Longrightarrow> neutral (element_guard (aos_alloc_presence r m) m xs ys)"
  by (rule neutralI) (simp add: element_guard_def kinds)

lemma bounds_frame_neutral:
  assumes "\<forall>x \<in> set caps. ref_head x" "\<forall>x \<in> set lbs. ref_head x" "ref_head flat" "neutral loops"
  shows "neutral (bounds_frame caps lbs (flat @ ''_lb_taken'') loops)"
proof -
  have "neutral (map (\<lambda>cap. concat [''    '', cap, '' = 0'']) caps)"
    "neutral (map (\<lambda>lb. concat [''    '', lb, '' = 1'']) lbs)"
    "neutral (map (\<lambda>cap. concat [''    if ('', cap, '' == 0) '', cap, '' = 1'']) caps)"
    by (intro neutral_map; use assms in \<open>force simp: kinds\<close>)+
  then show ?thesis
    using assms by (intro neutralI) (simp add: bounds_frame_def kinds)
qed

lemma bounds_lines_neutral:
  assumes "\<forall>x \<in> snd ` set dl. ref_head x" "\<forall>x \<in> (fst \<circ> snd) ` set dc. ref_head x"
  shows "neutral (map (bounds_min m) dl)" "neutral (map (bounds_max m) dc)"
    "neutral (map (bounds_agree outer m) dl)" "neutral (map (bounds_size m) ds)"
  by (intro neutral_map; use assms in \<open>force simp: kinds bounds_min_def bounds_max_def bounds_agree_def
      bounds_size_def split: prod.split\<close>)+

lemma bounds_neutral:
  assumes "aos_alloc_bounds r outer spread = Inr ls" and "pack_names_ok r"
  shows "neutral ls"
proof -
  from assms(1) obtain m where m: "aos_alloc_member_at_i r = Inr m" "flat_names r \<noteq> []"
    "length (lb_symbols r) = length (cap_symbols r)"
    by (rule bounds_Inr)
  let ?dims = "[1..<length (cap_symbols r) + 1]"
  let ?dl = "zip ?dims (lb_symbols r)" and ?dc = "zip ?dims (zip (cap_symbols r) (lb_symbols r))"
  have heads: "ref_head (hd (flat_names r))"
    "\<forall>x \<in> set (cap_symbols r). ref_head x" "\<forall>x \<in> set (lb_symbols r). ref_head x"
    using assms(2) m(2) by (auto simp: pack_names_ok_def)
  have "\<forall>x \<in> snd ` set ?dl. ref_head x" "\<forall>x \<in> (fst \<circ> snd) ` set ?dc. ref_head x"
    using heads by (auto dest: set_zip_rightD) (metis set_zip_leftD set_zip_rightD)
  note lines = bounds_lines_neutral [OF this]
  have taken: "neutral (take_bounds (hd (flat_names r) @ ''_lb_taken'') m ?dl)"
    by (intro take_bounds_neutral) (use heads in \<open>auto dest: set_zip_rightD\<close>)
  have ls: "ls = bounds_frame (cap_symbols r) (lb_symbols r) (hd (flat_names r) @ ''_lb_taken'')
     (if spread then over_elements r outer (element_guard (aos_alloc_presence r m) m
          (take_bounds (hd (flat_names r) @ ''_lb_taken'') m ?dl @ map (bounds_min m) ?dl) []) @
        over_elements r outer (element_guard (aos_alloc_presence r m) m (map (bounds_max m) ?dc) [])
      else over_elements r outer (element_guard (aos_alloc_presence r m) m
          (take_bounds (hd (flat_names r) @ ''_lb_taken'') m ?dl @ map (bounds_agree outer m) ?dl)
          (map (bounds_size m) (zip ?dims (cap_symbols r)))))"
    using assms(1) m
    by (cases spread) (simp_all add: aos_alloc_bounds_def Let_def rbind_Inr_iff aos_bounds_locals_def
        py_hd_Inr zip_strict_Inr del: upt_Suc)
  show ?thesis
    unfolding ls
    by (rule bounds_frame_neutral [OF heads(2,3,1)], cases spread)
      (simp_all only: if_True if_False neutral_append neutral_over_elements element_guard_neutral lines taken
        neutral_Nil)
qed

section \<open>When the renderers return\<close>

lemma member_at_i_ok: "is_ok (aos_alloc_member_at_i r) \<longleftrightarrow> read_exprs r \<noteq> []"
  by (auto simp: aos_alloc_member_at_i_def is_ok_iff rbind_Inr_iff py_hd_Inr)

lemma is_ok_rbind: "is_ok (rbind x f) \<longleftrightarrow> (\<exists>y. x = Inr y \<and> is_ok (f y))"
  by (cases x) auto

lemma bounds_ok:
  "is_ok (aos_alloc_bounds r outer spread) \<longleftrightarrow>
     read_exprs r \<noteq> [] \<and> flat_names r \<noteq> [] \<and> length (lb_symbols r) = length (cap_symbols r)"
  by (auto simp: aos_alloc_bounds_def Let_def is_ok_rbind aos_bounds_locals_def rbind_Inr_iff py_hd_Inr
      zip_strict_Inr member_at_i_ok [symmetric] is_ok_iff simp del: upt_Suc)

definition suffixed :: "recipe \<Rightarrow> string \<Rightarrow> string list" where
  "suffixed r s = map (\<lambda>k. concat [hd (flat_names r), s, str_nat k]) [1..<length (cap_symbols r) + 1]"

lemma locals_Inr:
  assumes "flat_names r \<noteq> []"
  shows "aos_pack_extent_locals r = Inr (suffixed r ''_ext'')" "aos_pack_offset_locals r = Inr (suffixed r ''_off'')"
proof -
  have "py_hd (flat_names r) = Inr (hd (flat_names r))" using assms by (simp add: py_hd_Inr)
  then show "aos_pack_extent_locals r = Inr (suffixed r ''_ext'')" "aos_pack_offset_locals r = Inr (suffixed r ''_off'')"
    by (simp_all add: aos_pack_extent_locals_def aos_pack_offset_locals_def suffixed_def rmap_total del: upt_Suc)
qed

lemma length_suffixed [simp]: "length (suffixed r s) = length (cap_symbols r)"
  by (simp add: suffixed_def del: upt_Suc)

lemma device_pack_ok:
  assumes "flat_names r \<noteq> []"
  shows "is_ok (device_pack_loop r m a) \<longleftrightarrow> length (lb_symbols r) = length (cap_symbols r)"
  by (auto simp: device_pack_loop_def Let_def is_ok_rbind locals_Inr [OF assms] zip_strict_Inr simp del: upt_Suc)

lemma subscripts_ok:
  assumes "flat_names r \<noteq> []"
  shows "is_ok (aos_pack_subscripts r mf) \<longleftrightarrow> length (lb_symbols r) = length (cap_symbols r)"
  by (auto simp: aos_pack_subscripts_def Let_def is_ok_rbind locals_Inr [OF assms] zip_strict_Inr simp del: upt_Suc)

section \<open>Block structure\<close>

lemma suffixed_ref:
  assumes "flat_names r \<noteq> []" "pack_names_ok r" "x \<in> set (suffixed r s)" "list_all (\<lambda>c. \<not> is_space c) s"
  shows "ref_head x"
  using assms
  by (auto simp: suffixed_def pack_names_ok_def str_nat_no_spaces simp del: upt_Suc intro!: ref_head_append)

lemma suffix_no_spaces: "list_all (\<lambda>c. \<not> is_space c) ''_ext''" "list_all (\<lambda>c. \<not> is_space c) ''_off''"
  by code_simp+

lemma zip3_mem: "(a, b, c) \<in> set (zip xs (zip ys zs)) \<Longrightarrow> b \<in> set ys"
  by (metis set_zip_leftD set_zip_rightD)

definition pack_headers :: "recipe \<Rightarrow> string list" where
  "pack_headers r =
     map (\<lambda>k. concat [''i'', str_int (aos_outer_rank r + int k), '' = 1, '', suffixed r ''_ext'' ! (k - 1)])
       (rev [1..<length (cap_symbols r) + 1])"

lemma device_pack_block:
  assumes "device_pack_loop r m a = Inr ls" "flat_names r \<noteq> []" "pack_names_ok r" "line_kind a = Plain a"
  shows "\<exists>pre. block ls (map Leaf pre @ nest (pack_headers r) [Leaf a])"
proof -
  let ?dims = "[1..<length (cap_symbols r) + 1]"
  let ?E = "\<lambda>(k, ext). concat [''        '', ext, '' = size('', m, '', '', str_nat k, '')'']"
  let ?O = "\<lambda>(k, off, lb). concat [''        '', off, '' = lbound('', m, '', '', str_nat k, '') - '', lb]"
  let ?acc = "concat [''        !$acc parallel loop collapse('', str_nat (length (cap_symbols r)), '') default(present)'']"
  let ?rk = "length (cap_symbols r)"
  from assms(1) have ls: "ls = (map ?E (zip ?dims (suffixed r ''_ext'')) @
      map ?O (zip ?dims (zip (suffixed r ''_off'') (lb_symbols r))) @ [?acc]) @
      (map (\<lambda>k. concat [spaces ((?rk - k) * 2), ''        do i'', str_int (aos_outer_rank r + int k), '' = 1, '',
          suffixed r ''_ext'' ! (k - 1)]) (rev ?dims) @
       [concat [spaces (?rk * 2), ''        '', a]] @
       map (\<lambda>k. concat [spaces ((?rk - k) * 2), ''        end do'']) ?dims)"
    by (auto simp: device_pack_loop_def Let_def rbind_Inr_iff locals_Inr [OF assms(2)] zip_strict_Inr
        split: if_splits simp del: upt_Suc)
  have ref: "ref_head x" if "x \<in> set (suffixed r ''_ext'') \<union> set (suffixed r ''_off'')" for x
    using suffixed_ref [OF assms(2,3)] suffix_no_spaces that by blast
  have "\<exists>s. line_kind l = Plain s" if "l \<in> set (map ?E (zip ?dims (suffixed r ''_ext'')) @
      map ?O (zip ?dims (zip (suffixed r ''_off'') (lb_symbols r))) @ [?acc])" for l
    using that ref by (auto simp: kinds simp del: upt_Suc dest!: zip3_mem) (auto simp: kinds dest!: set_zip_rightD)
  then obtain pre where "block (map ?E (zip ?dims (suffixed r ''_ext'')) @
      map ?O (zip ?dims (zip (suffixed r ''_off'') (lb_symbols r))) @ [?acc]) (map Leaf pre)"
    using plain_block by blast
  moreover have "block (map (\<lambda>k. concat [spaces ((?rk - k) * 2), ''        do i'', str_int (aos_outer_rank r + int k),
        '' = 1, '', suffixed r ''_ext'' ! (k - 1)]) (rev ?dims) @
       [concat [spaces (?rk * 2), ''        '', a]] @
       map (\<lambda>k. concat [spaces ((?rk - k) * 2), ''        end do'']) ?dims) (nest (pack_headers r) [Leaf a])"
    by (rule block_nest)
      (auto simp: pack_headers_def list_all2_map1 list_all2_map2 kinds assms(4) simp del: upt_Suc
        intro!: list.rel_refl block_leaf)
  ultimately show ?thesis unfolding ls by (blast intro: block_append)
qed

text \<open>One transfer statement \<open>a\<close> inside the loops \<open>hs\<close>, for every present element.\<close>

definition transfer_path :: "recipe \<Rightarrow> string \<Rightarrow> string \<Rightarrow> string list \<Rightarrow> string list" where
  "transfer_path r outer m hs =
     map ((@) ''do '') (element_headers r outer) @ [''if '' @ aos_alloc_presence r m] @ map ((@) ''do '') hs"

lemma transfer_block:
  assumes "block ls (map Leaf pre @ nest hs [Leaf a])"
  shows "\<exists>ts. block (over_elements r outer
      ([concat [''      if ('', aos_alloc_presence r m, '') then'']] @ ls @ [''      end if''])) ts \<and>
    (transfer_path r outer m hs, a) \<in> set (concat (map leaf_paths ts))"
proof -
  let ?t = "If (aos_alloc_presence r m) (map Leaf pre @ nest hs [Leaf a])"
  have "block ([concat [''      if ('', aos_alloc_presence r m, '') then'']] @ ls @ [''      end if'']) [?t]"
    by (rule block_if [OF _ _ assms]) (simp_all add: kind_if_then [simplified])
  then have "block (over_elements r outer
      ([concat [''      if ('', aos_alloc_presence r m, '') then'']] @ ls @ [''      end if'']))
      (nest (element_headers r outer) [?t])"
    by (rule block_over_elements)
  moreover have "(transfer_path r outer m hs, a) \<in> set (concat (map leaf_paths (nest (element_headers r outer) [?t])))"
    unfolding leaf_paths_nest
    by (force simp: transfer_path_def leaf_paths_nest)
  ultimately show ?thesis by blast
qed

lemma kept_layout_neutral:
  assumes "kept_layout r outer m (aos_alloc_presence r m) = Inr ls" "flat_names r \<noteq> []" "pack_names_ok r"
  shows "neutral ls"
proof -
  have f: "ref_head (hd (flat_names r))" using assms(2,3) by (simp add: pack_names_ok_def)
  have "neutral (map (\<lambda>(j, v). concat [''    '', hd (flat_names r) @ ''_layout_now'', ''('', str_nat j, '') = '', v])
      (enumerate 1 xs))" for xs :: "string list"
    by (rule neutral_map) (use f in \<open>auto simp: kinds\<close>)
  moreover have "neutral (concat (map (\<lambda>d.
     [concat [''        '', hd (flat_names r) @ ''_layout_now'', ''('', hd (flat_names r) @ ''_layout_k'', '' + '',
        str_nat (2 * d), '') = lbound('', m, '', '', str_nat d, '')''],
      concat [''        '', hd (flat_names r) @ ''_layout_now'', ''('', hd (flat_names r) @ ''_layout_k'', '' + '',
        str_nat (2 * d + 1), '') = ubound('', m, '', '', str_nat d, '')'']]) ds))" for ds
    by (rule neutral_concat, rule neutralI) (use f in \<open>simp add: kinds\<close>)
  ultimately show ?thesis
    using assms(1,2) f
    by (intro neutralI) (auto simp: kept_layout_def aos_kept_layout_locals_def rbind_Inr_iff py_hd_Inr Let_def
      kinds neutral_over_elements neutral_def [of "_ # _"] simp del: upt_Suc)
qed

lemma device_setup_neutral:
  assumes "ref_head flat"
  shows "neutral (device_setup r outer flat shape present padded (flat @ ''_layout'') now)"
proof -
  have "neutral [concat [''      if ('', present, '') then''], concat [''        if ('', padded, '') '', flat, ''_padded = .true.''],
     ''      end if'']"
    by (rule neutralI) (simp add: kinds)
  from neutral_over_elements [OF this, of r outer] assms show ?thesis
    by (intro neutralI) (simp add: device_setup_def kinds)
qed

section \<open>Pack-in and pack-out\<close>

text \<open>What a renderer's lines hold: they nest, and the transfer statement runs for every present element.\<close>

definition transfers :: "recipe \<Rightarrow> string \<Rightarrow> string \<Rightarrow> string list \<Rightarrow> string \<Rightarrow> string list \<Rightarrow> bool" where
  "transfers r outer m hs a ls \<longleftrightarrow>
     (\<exists>ts. block ls ts \<and> (transfer_path r outer m hs, a) \<in> set (concat (map leaf_paths ts)))"

lemma transfersI:
  assumes "neutral xs" "neutral ys" "block ls (map Leaf pre @ nest hs [Leaf a])"
  shows "transfers r outer m hs a (xs @ over_elements r outer
      ([concat [''      if ('', aos_alloc_presence r m, '') then'']] @ ls @ [''      end if'']) @ ys)"
proof -
  from assms neutral_block obtain ss us where "block xs ss" "block ys us" by blast
  moreover from transfer_block [OF assms(3)] obtain ts where "block (over_elements r outer
      ([concat [''      if ('', aos_alloc_presence r m, '') then'']] @ ls @ [''      end if''])) ts"
    "(transfer_path r outer m hs, a) \<in> set (concat (map leaf_paths ts))" by blast
  ultimately show ?thesis
    unfolding transfers_def by (intro exI [of _ "ss @ ts @ us"] conjI block_append) auto
qed

definition host_slice :: "recipe \<Rightarrow> string \<Rightarrow> bool \<Rightarrow> string" where
  "host_slice r m mf =
     concat [hd (flat_names r), ''('', buffer_order (element_indices r) [own_range r m] mf, '')'']"

lemma pack_in_host:
  assumes "render_aos_alloc_pack_in r outer False mf = Inr ls" "aos_alloc_member_at_i r = Inr m" "pack_names_ok r"
  shows "transfers r outer m [] (host_slice r m mf @ '' = '' @ m) ls"
proof -
  let ?f = "hd (flat_names r)"
  let ?hdr = "concat [''    ! ----- AoS pack-in: '', outer, '' -> '', ?f, '' (cap = '', join '', '' (cap_symbols r), '')'',
     [], '' -----'']"
  let ?al = "[concat [''    allocate('', ?f, ''('', buffer_order (aos_alloc_extents r outer) (cap_symbols r) mf, ''))''],
     concat [''    '', ?f, '' = 0'']]"
  let ?st = "concat [''        '', ?f, ''('', buffer_order (element_indices r) [own_range r m] mf, '') = '', m]"
  from assms obtain bounds where b: "aos_alloc_bounds r outer True = Inr bounds" "flat_names r \<noteq> []"
    "ls = ([?hdr] @ bounds @ ?al) @ over_elements r outer
       ([concat [''      if ('', aos_alloc_presence r m, '') then'']] @ [?st] @ [''      end if'']) @ []"
    by (auto simp: render_aos_alloc_pack_in_def Let_def rbind_Inr_iff py_hd_Inr split: if_splits simp del: upt_Suc)
  have f: "ref_head ?f" using b(2) assms(3) by (simp add: pack_names_ok_def)
  have "neutral ([?hdr] @ bounds @ ?al)"
    by (intro neutral_append bounds_neutral [OF b(1) assms(3)] neutralI) (simp_all add: kinds f)
  moreover have "block [?st] (map Leaf [] @ nest [] [Leaf (host_slice r m mf @ '' = '' @ m)])"
    using f by (auto simp: host_slice_def kinds intro!: block_leaf)
  ultimately show ?thesis
    unfolding b(3) by (intro transfersI [where pre = "[]"]) simp_all
qed

lemma pack_out_host:
  assumes "render_aos_alloc_pack_out r outer False mf = Inr ls" "aos_alloc_member_at_i r = Inr m" "pack_names_ok r"
  shows "transfers r outer m [] (m @ '' = '' @ host_slice r m mf) ls"
proof -
  let ?f = "hd (flat_names r)"
  let ?hdr = "concat [''    ! ----- AoS pack-out: '', ?f, '' -> '', outer, [], '' -----'']"
  let ?st = "concat [''        '', m, '' = '', ?f, ''('', buffer_order (element_indices r) [own_range r m] mf, '')'']"
  from assms have ls: "ls = [?hdr] @ over_elements r outer
       ([concat [''      if ('', aos_alloc_presence r m, '') then'']] @ [?st] @ [''      end if'']) @
       [concat [''    deallocate('', ?f, '')'']]"
    by (auto simp: render_aos_alloc_pack_out_def render_aos_alloc_release_def Let_def rbind_Inr_iff py_hd_Inr
        split: if_splits simp del: upt_Suc)
  have "ref_head m" using assms by (simp add: pack_names_ok_def)
  then have "block [?st] (map Leaf [] @ nest [] [Leaf (m @ '' = '' @ host_slice r m mf)])"
    by (auto simp: host_slice_def kinds intro!: block_leaf)
  then show ?thesis
    unfolding ls by (intro transfersI [where pre = "[]"] neutralI) (simp_all add: kinds)
qed

lemma pack_in_device:
  assumes "render_aos_alloc_pack_in r outer True mf = Inr ls" "aos_alloc_member_at_i r = Inr m" "pack_names_ok r"
    and "aos_pack_subscripts r mf = Inr (bi, mi)"
  shows "transfers r outer m (pack_headers r)
    (concat [hd (flat_names r), ''('', bi, '')''] @ '' = '' @ concat [m, ''('', mi, '')'']) ls"
proof -
  let ?f = "hd (flat_names r)"
  let ?hdr = "concat [''    ! ----- AoS pack-in: '', outer, '' -> '', ?f, '' (cap = '', join '', '' (cap_symbols r), '')'',
     '' on the device, kept across calls'', '' -----'']"
  let ?mid = "[concat [''    '', ?f @ ''_fresh'', '' = .not. allocated('', ?f @ ''_layout'', '')''],
     concat [''    if (.not. '', ?f @ ''_fresh'', '') '', ?f @ ''_fresh'', '' = size('', ?f @ ''_layout'', '') /= size('',
       ?f @ ''_layout_now'', '')''],
     concat [''    if (.not. '', ?f @ ''_fresh'', '') '', ?f @ ''_fresh'', '' = any('', ?f @ ''_layout'', '' /= '',
       ?f @ ''_layout_now'', '')''],
     concat [''    if ('', ?f @ ''_fresh'', '') then'']]"
  let ?a = "concat [?f, ''('', bi, '') = '', m, ''('', mi, '')'']"
  let ?shape = "buffer_order (aos_alloc_extents r outer) (cap_symbols r) mf"
  let ?padded = "join '' .or. '' (map (\<lambda>(k, cap, lb).
       concat [''size('', m, '', '', str_nat k, '') < '', cap, '' .or. lbound('', m, '', '', str_nat k, '') /= '', lb])
       (zip [1..<length (cap_symbols r) + 1] (zip (cap_symbols r) (lb_symbols r))))"
  have "aos_alloc r" using assms(1) by (simp add: render_aos_alloc_pack_in_def split: if_splits)
  with assms obtain bounds layout pack where b: "aos_alloc_bounds r outer True = Inr bounds"
    "flat_names r \<noteq> []" "kept_layout r outer m (aos_alloc_presence r m) = Inr layout"
    "device_pack_loop r m ?a = Inr pack"
    "ls = ([?hdr] @ bounds @ layout @ (?mid @ map (\<lambda>line. ''  '' @ line)
        (device_setup r outer ?f ?shape (aos_alloc_presence r m) ?padded (?f @ ''_layout'') (?f @ ''_layout_now'')) @
       [''    end if'', concat [''    deallocate('', ?f @ ''_layout_now'', '')'']])) @ over_elements r outer
       ([concat [''      if ('', aos_alloc_presence r m, '') then'']] @ pack @ [''      end if'']) @ []"
    by (auto simp: render_aos_alloc_pack_in_def Let_def rbind_Inr_iff py_hd_Inr aos_kept_layout_locals_def
        simp del: upt_Suc)
  have f: "ref_head ?f" using b(2) assms(3) by (simp add: pack_names_ok_def)
  have st: "neutral (map (\<lambda>line. ''  '' @ line) (device_setup r outer ?f ?shape (aos_alloc_presence r m) ?padded
      (?f @ ''_layout'') (?f @ ''_layout_now'')))"
    by (simp add: neutral_indent device_setup_neutral [OF f])
  have hdr: "neutral [?hdr]" by (rule neutralI) (simp add: kinds)
  have mid: "neutral (?mid @ map (\<lambda>line. ''  '' @ line)
        (device_setup r outer ?f ?shape (aos_alloc_presence r m) ?padded (?f @ ''_layout'') (?f @ ''_layout_now'')) @
       [''    end if'', concat [''    deallocate('', ?f @ ''_layout_now'', '')'']])"
    using st by (intro neutralI) (simp add: kinds f)
  have front: "neutral ([?hdr] @ bounds @ layout @ (?mid @ map (\<lambda>line. ''  '' @ line)
        (device_setup r outer ?f ?shape (aos_alloc_presence r m) ?padded (?f @ ''_layout'') (?f @ ''_layout_now'')) @
       [''    end if'', concat [''    deallocate('', ?f @ ''_layout_now'', '')'']]))"
    by (rule neutral_append [OF hdr neutral_append [OF bounds_neutral [OF b(1) assms(3)]
          neutral_append [OF kept_layout_neutral [OF b(3,2) assms(3)] mid]]])
  have "line_kind ?a = Plain ?a" using f by (simp add: kinds)
  with device_pack_block [OF b(4,2) assms(3)] obtain pre
    where pack: "block pack (map Leaf pre @ nest (pack_headers r) [Leaf ?a])" by blast
  have a: "concat [?f, ''('', bi, '')''] @ '' = '' @ concat [m, ''('', mi, '')''] = ?a" by simp
  show ?thesis
    unfolding a b(5) by (rule transfersI [OF front neutral_Nil pack])
qed

lemma pack_out_device:
  assumes "render_aos_alloc_pack_out r outer True mf = Inr ls" "aos_alloc_member_at_i r = Inr m" "pack_names_ok r"
    and "aos_pack_subscripts r mf = Inr (bi, mi)"
  shows "transfers r outer m (pack_headers r)
    (concat [m, ''('', mi, '')''] @ '' = '' @ concat [hd (flat_names r), ''('', bi, '')'']) ls"
proof -
  let ?f = "hd (flat_names r)"
  let ?hdr = "concat [''    ! ----- AoS pack-out: '', ?f, '' -> '', outer, '' on the device'', '' -----'']"
  let ?a = "concat [m, ''('', mi, '') = '', ?f, ''('', bi, '')'']"
  have "aos_alloc r" using assms(1) by (simp add: render_aos_alloc_pack_out_def split: if_splits)
  with assms obtain pack where b: "flat_names r \<noteq> []" "device_pack_loop r m ?a = Inr pack"
    "ls = [?hdr] @ over_elements r outer
       ([concat [''      if ('', aos_alloc_presence r m, '') then'']] @ pack @ [''      end if'']) @
       [concat [''    ! '', ?f, '' and its device copy stay allocated for the next call'']]"
    by (auto simp: render_aos_alloc_pack_out_def render_aos_alloc_release_def Let_def rbind_Inr_iff py_hd_Inr
        simp del: upt_Suc)
  have "ref_head m" using assms by (simp add: pack_names_ok_def)
  then have "line_kind ?a = Plain ?a" by (simp add: kinds)
  with device_pack_block [OF b(2,1) assms(3)] obtain pre
    where "block pack (map Leaf pre @ nest (pack_headers r) [Leaf ?a])" by blast
  from transfersI [OF _ _ this, of "[?hdr]"] show ?thesis
    unfolding b(3) by (simp add: neutral_def kinds)
qed

lemma refusal_neutral:
  assumes "\<forall>f. flag = Some f \<longrightarrow> f = [] \<or> ref_head f"
  shows "neutral (refusal outer flag)"
  using assms by (cases flag) (auto intro!: neutralI simp: refusal_def kinds)

lemma member_lines_neutral:
  assumes "neutral refuse" "ref_head (snd x)"
  shows "neutral (member_lines present conforming m refuse x)"
proof -
  have "neutral (map (\<lambda>ln. ''      '' @ ln) refuse)" using assms(1) by (simp add: neutral_indent)
  with assms(2) show ?thesis
    by (cases x) (auto intro!: neutralI simp: member_lines_def kinds)
qed

lemma members_lines:
  assumes "render_aos_alloc_members r outer elements flag = Inr ls" "pack_names_ok r"
    "\<forall>x \<in> snd ` set elements. ref_head x" "\<forall>f. flag = Some f \<longrightarrow> f = [] \<or> ref_head f"
  shows "neutral ls"
proof -
  from assms(1) have "aos_alloc r" "aos_outer_rank r = 1"
    by (simp_all add: render_aos_alloc_members_def split: if_splits)
  with assms(1) obtain m bounds conforming where b: "aos_alloc_bounds r outer False = Inr bounds"
    "ls = [concat [''    ! ----- Members of '', outer, '', one array per element, aliased in place -----'']] @ bounds @
         concat (map (member_lines (aos_alloc_presence r m) conforming m (refusal outer flag)) (sort_key fst elements))"
    by (auto simp: render_aos_alloc_members_def Let_def rbind_Inr_iff py_hd_Inr simp del: upt_Suc)
  have "neutral (concat (map (member_lines (aos_alloc_presence r m) conforming m (refusal outer flag))
      (sort_key fst elements)))"
    by (rule neutral_concat, rule member_lines_neutral) (use assms(3,4) in \<open>auto simp: refusal_neutral\<close>)
  then show ?thesis
    unfolding b(2) by (intro neutral_append bounds_neutral [OF b(1) assms(2)] neutralI) (simp_all add: kinds)
qed

section \<open>Properties\<close>

text \<open>The pack-out of an array of records answers its pack-in, on the host and on the device, for both
  buffer layouts: both are correctly nested Fortran, and inside the loops over the elements and the
  presence guard of the member (and, on the device, the same loops over the member) the pack-out has
  the pack-in's assignment with its sides exchanged, the buffer on one side and the member on the
  other.\<close>

theorem pack_out_mirrors_pack_in:
  assumes "render_aos_alloc_pack_in r outer device mf = Inr li"
    and "render_aos_alloc_pack_out r outer device mf = Inr lo" and "pack_names_ok r"
  shows "\<exists>m ti to hs a b. aos_alloc_member_at_i r = Inr m \<and> parse_blocks li = Some ti \<and> parse_blocks lo = Some to \<and>
    startswith a (hd (flat_names r) @ ''('') \<and> startswith b m \<and>
    (transfer_path r outer m hs, a @ '' = '' @ b) \<in> set (concat (map leaf_paths ti)) \<and>
    (transfer_path r outer m hs, b @ '' = '' @ a) \<in> set (concat (map leaf_paths to))"
proof -
  from assms(1) have "aos_alloc r" by (simp add: render_aos_alloc_pack_in_def split: if_splits)
  with assms(1) obtain m where m: "aos_alloc_member_at_i r = Inr m"
    by (auto simp: render_aos_alloc_pack_in_def Let_def rbind_Inr_iff simp del: upt_Suc)
  have "\<exists>hs a b. transfers r outer m hs (a @ '' = '' @ b) li \<and> transfers r outer m hs (b @ '' = '' @ a) lo \<and>
      startswith a (hd (flat_names r) @ ''('') \<and> startswith b m"
  proof (cases device)
    case True
    with assms(1) \<open>aos_alloc r\<close> m obtain bi mi where s: "aos_pack_subscripts r mf = Inr (bi, mi)"
      by (auto simp: render_aos_alloc_pack_in_def Let_def rbind_Inr_iff simp del: upt_Suc)
    have "render_aos_alloc_pack_in r outer True mf = Inr li" "render_aos_alloc_pack_out r outer True mf = Inr lo"
      using True assms by simp_all
    from pack_in_device [OF this(1) m assms(3) s] pack_out_device [OF this(2) m assms(3) s] show ?thesis
      by (intro exI conjI) (assumption, assumption, simp_all add: startswith_def)
  next
    case False
    then have "render_aos_alloc_pack_in r outer False mf = Inr li" "render_aos_alloc_pack_out r outer False mf = Inr lo"
      using assms by simp_all
    from pack_in_host [OF this(1) m assms(3)] pack_out_host [OF this(2) m assms(3)] show ?thesis
      by (intro exI conjI) (assumption, assumption, simp_all add: startswith_def host_slice_def)
  qed
  then obtain hs a b ti to where t: "block li ti" "block lo to" "startswith a (hd (flat_names r) @ ''('')" "startswith b m"
    "(transfer_path r outer m hs, a @ '' = '' @ b) \<in> set (concat (map leaf_paths ti))"
    "(transfer_path r outer m hs, b @ '' = '' @ a) \<in> set (concat (map leaf_paths to))"
    unfolding transfers_def by blast
  show ?thesis
    by (intro exI conjI) (rule m, rule parse_block [OF t(1)], rule parse_block [OF t(2)], rule t(3), rule t(4),
      rule t(5), rule t(6))
qed

definition ex_aos :: recipe where
  "ex_aos = \<lparr>flat_names = [''a_w''], read_exprs = [''a($i1)%w($i2)''], write_expr = [], rc_rank = 2,
     shape_exprs = [''n'', ''c1''], aliasable = False, scratch_dtype = ''float64'', aos_alloc = True,
     cap_symbols = [''c1''], lb_symbols = [''l1''], member_pointer = False\<rparr>"

lemma ex_aos_member: "aos_alloc_member_at_i ex_aos = Inr ''a(i1)%w''"
  by code_simp

lemma ex_aos_names: "pack_names_ok ex_aos"
proof -
  have "ref_head ''a(i1)%w''" "ref_head ''a_w''" "ref_head ''c1''" "ref_head ''l1''" by code_simp+
  then show ?thesis by (simp add: pack_names_ok_def ex_aos_member) (simp add: ex_aos_def)
qed

theorem pack_out_mirrors_pack_in_witness:
  "\<exists>li lo. render_aos_alloc_pack_in ex_aos ''a'' True False = Inr li \<and>
     render_aos_alloc_pack_out ex_aos ''a'' True False = Inr lo \<and> well_nested li \<and> well_nested lo"
proof -
  have "is_ok (render_aos_alloc_pack_in ex_aos ''a'' True False)"
    "is_ok (render_aos_alloc_pack_out ex_aos ''a'' True False)" by code_simp+
  then obtain li lo where ok: "render_aos_alloc_pack_in ex_aos ''a'' True False = Inr li"
    "render_aos_alloc_pack_out ex_aos ''a'' True False = Inr lo" by (auto simp: is_ok_iff)
  from pack_out_mirrors_pack_in [OF this ex_aos_names] have "well_nested li \<and> well_nested lo"
    by (auto simp: well_nested_def)
  with ok show ?thesis by blast
qed

text \<open>The packing renderers return exactly for the recipes the bridge emits: \<open>aos_alloc\<close> is set, there is
  a buffer name and a read expression, and every cap has its lower bound; every other recipe is refused.\<close>

theorem pack_renderers_return_iff:
  "is_ok (render_aos_alloc_pack_in r outer device mf) \<longleftrightarrow>
     aos_alloc r \<and> flat_names r \<noteq> [] \<and> read_exprs r \<noteq> [] \<and> length (lb_symbols r) = length (cap_symbols r)"
proof (cases "aos_alloc r \<and> flat_names r \<noteq> [] \<and> read_exprs r \<noteq> []")
  case True
  then obtain m where m: "aos_alloc_member_at_i r = Inr m"
    using member_at_i_ok [of r] by (auto simp: is_ok_iff)
  have "py_hd (flat_names r) = Inr (hd (flat_names r))" using True by (simp add: py_hd_Inr)
  with True m bounds_ok [of r outer True] subscripts_ok [of r mf] device_pack_ok [of r m] show ?thesis
    by (cases device) (auto simp: render_aos_alloc_pack_in_def Let_def is_ok_rbind is_ok_iff rbind_Inr_iff
        zip_strict_Inr aos_kept_layout_locals_def kept_layout_def simp del: upt_Suc split: prod.splits)
next
  case False
  then show ?thesis
    by (auto simp: render_aos_alloc_pack_in_def Let_def is_ok_rbind py_hd_Inr aos_alloc_member_at_i_def
        rbind_Inr_iff simp del: upt_Suc)
qed

text \<open>Handing the members over one by one is correctly nested Fortran, whatever the elements, with and
  without a flag for declining.\<close>

theorem members_well_nested:
  assumes "render_aos_alloc_members r outer elements flag = Inr ls" and "pack_names_ok r"
    and "\<forall>x \<in> snd ` set elements. ref_head x" and "\<forall>f. flag = Some f \<longrightarrow> f = [] \<or> ref_head f"
  shows "well_nested ls"
  using members_lines [OF assms] by (rule neutral_well_nested)

theorem members_well_nested_witness:
  "\<exists>ls. render_aos_alloc_members ex_aos ''a'' [(1, ''a_w_1''), (0, ''a_w_0'')] (Some ''declined'') = Inr ls \<and>
     well_nested ls"
proof -
  have "is_ok (render_aos_alloc_members ex_aos ''a'' [(1, ''a_w_1''), (0, ''a_w_0'')] (Some ''declined''))"
    by code_simp
  then obtain ls where ls: "render_aos_alloc_members ex_aos ''a'' [(1, ''a_w_1''), (0, ''a_w_0'')] (Some ''declined'') = Inr ls"
    by (auto simp: is_ok_iff)
  have "ref_head ''a_w_1''" "ref_head ''a_w_0''" "ref_head ''declined''" by code_simp+
  with members_well_nested [OF ls ex_aos_names] ls show ?thesis by auto
qed

end
