(* ===== verification/Binding_Text.thy ===== *)
theory Binding_Text
  imports Regex Fortran_Blocks "HOL-Library.Multiset"
begin

text \<open>
  The parts of \<open>src/dace_fortran/bindings/block_builders.py\<close> that work on the emitted text: folding
  long lines, splitting the symbol assignments around the buffer set-up, and the dimension suffix of
  a declaration.
\<close>

section \<open>Folding long lines\<close>

text \<open>\<open>_last_comma_outside_strings\<close>: the loop over \<open>line[:end]\<close>, with the open quote and the last hit.\<close>

fun last_break :: "string \<Rightarrow> nat \<Rightarrow> char option \<Rightarrow> nat option \<Rightarrow> string \<Rightarrow> nat option" where
  "last_break chars i quote hit [] = hit"
| "last_break chars i (Some q) hit (c # s) =
     last_break chars (Suc i) (if c = q then None else Some q) hit s"
| "last_break chars i None hit (c # s) =
     (if c = CHR 0x27 \<or> c = CHR 0x22 then last_break chars (Suc i) (Some c) hit s
      else if c = CHR ''!'' then hit
      else if c \<in> set chars then last_break chars (Suc i) None (Some i) s
      else last_break chars (Suc i) None hit s)"

definition last_comma_outside_strings :: "string \<Rightarrow> int \<Rightarrow> string \<Rightarrow> nat option" where
  "last_comma_outside_strings line stop chars = last_break chars 0 None None (py_prefix stop line)"

definition lead_of :: "string \<Rightarrow> nat" where
  "lead_of line = length line - length (lstrip line)"

definition break_at :: "int \<Rightarrow> string \<Rightarrow> nat option" where
  "break_at limit line =
     (let good = (\<lambda>c. case c of None \<Rightarrow> False | Some i \<Rightarrow> lead_of line < i);
          at = last_comma_outside_strings line (limit - 2) '','';
          at = (if good at then at else last_comma_outside_strings line (limit - 2) ''([ '')
      in if good at then at else None)"

lemma last_break_bound:
  "last_break chars i quote hit s = Some c \<Longrightarrow> hit = Some c \<or> c < i + length s"
  by (induction chars i quote hit s rule: last_break.induct) (fastforce split: if_splits)+

lemma break_at_bound: "break_at limit line = Some c \<Longrightarrow> lead_of line < c \<and> c < length (py_prefix (limit - 2) line)"
  by (auto simp: break_at_def last_comma_outside_strings_def Let_def dest!: last_break_bound
      split: if_splits option.splits)

lemma py_prefix_length: "length (py_prefix n xs) \<le> length xs" "0 \<le> n \<Longrightarrow> length (py_prefix n xs) \<le> nat n"
  by (auto simp: py_prefix_def)

lemma length_lstrip: "length (lstrip s) \<le> length s"
  by (simp add: lstrip_def length_dropWhile_le)

lemma lstrip_idem [simp]: "lstrip (lstrip s) = lstrip s"
  by (induction s) (auto simp: lstrip_def)

function fold_line :: "int \<Rightarrow> nat \<Rightarrow> string \<Rightarrow> string list" where
  "fold_line limit n line =
     (if int (length line) > limit then
        (case break_at limit line of
           None \<Rightarrow> [line]
         | Some at \<Rightarrow>
             (rstrip (take (at + 1) line) @ '' &'') #
             fold_line limit n (spaces n @ lstrip (drop (at + 1) line)))
      else [line])"
  by pat_completeness auto
termination
proof (relation "measure (\<lambda>(limit, n, line). length (lstrip line))", goal_cases)
  case (2 limit n line at)
  from break_at_bound [OF 2(2)] have "lead_of line < at" by simp
  then have "length (lstrip (drop (at + 1) line)) < length (lstrip line)"
    using length_lstrip [of "drop (at + 1) line"] length_lstrip [of line]
      break_at_bound [OF 2(2)] py_prefix_length(1) [of "limit - 2" line]
    by (simp add: lead_of_def)
  then show ?case by simp
qed simp

declare fold_line.simps [simp del]

definition fold_long_lines :: "string \<Rightarrow> int \<Rightarrow> string" where
  "fold_long_lines src limit =
     join [LF] (concat (map (\<lambda>line. fold_line limit (lead_of line + 4) line) (split_on LF src)))"

section \<open>Symbol assignments before and after the buffers\<close>

definition opens_guard :: "string \<Rightarrow> bool" where
  "opens_guard l = (startswith (strip l) ''if ('' \<and> endswith (strip l) ''then'')"

definition guard_body :: "string list \<Rightarrow> nat" where
  "guard_body ls = Suc (length (takeWhile (\<lambda>l. strip l \<noteq> ''end if'') ls))"

function sym_blocks :: "string list \<Rightarrow> string list list" where
  "sym_blocks [] = []"
| "sym_blocks (l # ls) =
     (if opens_guard l then (l # take (guard_body ls) ls) # sym_blocks (drop (guard_body ls) ls)
      else [l] # sym_blocks ls)"
  by pat_completeness auto
termination by (relation "measure length") auto

definition buffer_derived :: "string list \<Rightarrow> string \<Rightarrow> bool" where
  "buffer_derived buffer_names s = list_ex (\<lambda>b. re_search (seqs [Wordb, lit b, Wordb]) s \<noteq> None) buffer_names"

definition partition_symbol_blocks :: "string list \<Rightarrow> string list \<Rightarrow> string list \<times> string list" where
  "partition_symbol_blocks sym_lines buffer_names =
     (let blocks = sym_blocks sym_lines; needs = list_ex (buffer_derived buffer_names) in
      (concat (filter (\<lambda>blk. \<not> needs blk) blocks), concat (filter needs blocks)))"

section \<open>Dimension suffixes\<close>

definition word_re :: regex where
  "word_re = Seq re_ident_start (many re_word)"

definition names_non_dummy :: "string set \<Rightarrow> string \<Rightarrow> bool" where
  "names_non_dummy dummies s =
     list_ex (\<lambda>m. \<not> (m_end m < length s \<and> s ! m_end m = CHR ''('') \<and> lower (m_text m) \<notin> dummies)
       (re_finditer word_re s)"

definition shape_references_non_dummy :: "string list \<Rightarrow> string set \<Rightarrow> bool" where
  "shape_references_non_dummy shape dummies =
     list_ex (\<lambda>s. s \<noteq> [] \<and> s \<noteq> ''?'' \<and> names_non_dummy dummies s) shape"

definition dim_spec :: "string list \<Rightarrow> string set option \<Rightarrow> string" where
  "dim_spec shape dummies =
     (if shape = [] then []
      else if dummies \<noteq> None \<and> shape_references_non_dummy shape (the dummies)
      then concat [''('', join '','' (map (\<lambda>_. '':'') shape), '')'']
      else concat [''('', join '','' (map (\<lambda>s. if s \<noteq> ''?'' then s else '':'') shape), '')''])"

section \<open>Lemmas\<close>

definition squash :: "string \<Rightarrow> string" where
  "squash s = filter (\<lambda>c. \<not> is_space c) s"

lemma squash_append [simp]: "squash (s @ t) = squash s @ squash t"
  by (simp add: squash_def)

lemma squash_spaces [simp]: "squash (spaces n) = []"
  by (simp add: squash_def spaces_def)

lemma squash_dropWhile: "squash (dropWhile is_space s) = squash s"
  by (induction s) (simp_all add: squash_def)

lemma squash_lstrip [simp]: "squash (lstrip s) = squash s"
  by (simp add: lstrip_def squash_dropWhile)

lemma squash_rstrip [simp]: "squash (rstrip s) = squash s"
proof -
  have "squash (rev t) = rev (squash t)" for t by (simp add: squash_def rev_filter)
  then show ?thesis by (simp add: rstrip_def squash_dropWhile)
qed

lemma length_rstrip: "length (rstrip s) \<le> length s"
  by (simp add: rstrip_def) (metis length_dropWhile_le length_rev)

text \<open>The characters of a folded line with the continuation marks taken off again.\<close>

definition unfold_lines :: "string list \<Rightarrow> string" where
  "unfold_lines ls = concat (map (\<lambda>l. squash (take (length l - 2) l)) (butlast ls)) @ squash (last ls)"

lemma fold_line_nonempty [simp]: "fold_line limit n line \<noteq> []"
  by (subst fold_line.simps) (simp split: option.split)

lemma fold_line_content: "unfold_lines (fold_line limit n line) = squash line"
proof (induction limit n line rule: fold_line.induct)
  case (1 limit n line)
  show ?case
  proof (cases "int (length line) > limit \<and> break_at limit line \<noteq> None")
    case True
    then obtain at where at: "break_at limit line = Some at" by auto
    have "squash line = squash (take (at + 1) line) @ squash (drop (at + 1) line)"
      by (metis append_take_drop_id squash_append)
    with 1 True at show ?thesis
      by (subst fold_line.simps) (simp add: unfold_lines_def)
  next
    case False
    then have "fold_line limit n line = [line]"
      by (subst fold_line.simps) (auto split: option.split)
    then show ?thesis by (simp add: unfold_lines_def)
  qed
qed

lemma fold_line_short:
  "2 \<le> limit \<Longrightarrow> l \<in> set (fold_line limit n line) \<Longrightarrow>
     int (length l) \<le> limit \<or> break_at limit l = None"
proof (induction limit n line rule: fold_line.induct)
  case (1 limit n line)
  show ?case
  proof (cases "int (length line) > limit \<and> break_at limit line \<noteq> None")
    case True
    then obtain at where at: "break_at limit line = Some at" by auto
    then have "at < length (py_prefix (limit - 2) line)" using break_at_bound by blast
    then have "int at < limit - 2"
      using py_prefix_length(2) [of "limit - 2" line] 1(2) by linarith
    then have "int (length (rstrip (take (at + 1) line) @ '' &'')) \<le> limit"
      using length_rstrip [of "take (at + 1) line"] by simp
    then show ?thesis
      using 1 True at by (subst (asm) fold_line.simps) auto
  next
    case False
    then have "fold_line limit n line = [line]"
      by (subst fold_line.simps) (auto split: option.split)
    with 1 False show ?thesis by auto
  qed
qed

lemma concat_sym_blocks: "concat (sym_blocks ls) = ls"
  by (induction ls rule: sym_blocks.induct) simp_all

lemma mset_concat_filter:
  "mset (concat (filter P xs)) + mset (concat (filter (\<lambda>x. \<not> P x) xs)) = mset (concat xs)"
  by (induction xs) auto

section \<open>Properties\<close>



lemma partition_parts:
  assumes "partition_symbol_blocks lines bufs = (early, late)"
  shows "early = concat (filter (\<lambda>blk. \<not> list_ex (buffer_derived bufs) blk) (sym_blocks lines))"
    and "late = concat (filter (list_ex (buffer_derived bufs)) (sym_blocks lines))"
  using assms by (auto simp: partition_symbol_blocks_def Let_def)

lemma partition_well_nested:
  assumes "partition_symbol_blocks lines bufs = (early, late)" and "\<forall>blk \<in> set (sym_blocks lines). neutral blk"
  shows "well_nested early \<and> well_nested late"
proof -
  have "neutral (concat bs)" if "\<forall>blk \<in> set bs. neutral blk" for bs
    using neutral_concat [of bs "\<lambda>x. x"] that by simp
  then show ?thesis using assms(2) by (auto simp: partition_parts [OF assms(1)] intro!: neutral_well_nested)
qed

text \<open>Splitting the symbol assignments keeps every line exactly once and every guard block whole: what is
  assigned before the buffers refers to no buffer, and when each block of the input nests correctly
  both halves do.\<close>

theorem partition_symbol_blocks_correct:
  assumes "partition_symbol_blocks lines bufs = (early, late)"
  shows "mset early + mset late = mset lines \<and> (\<forall>l \<in> set early. \<not> buffer_derived bufs l) \<and>
    ((\<forall>blk \<in> set (sym_blocks lines). neutral blk) \<longrightarrow> well_nested early \<and> well_nested late)"
proof -
  let ?n = "list_ex (buffer_derived bufs)"
  note el = partition_parts [OF assms]
  have "mset early + mset late = mset lines"
    using mset_concat_filter [of ?n "sym_blocks lines"] by (simp add: el concat_sym_blocks union_commute)
  moreover have "\<forall>l \<in> set early. \<not> buffer_derived bufs l"
    by (auto simp: el list_ex_iff)
  ultimately show ?thesis using partition_well_nested [OF assms] by blast
qed

theorem partition_symbol_blocks_correct_witness:
  "partition_symbol_blocks [''if (allocated(b)) then'', ''n = size(b)'', ''else'', ''n = 0'', ''end if'', ''m = 3''] [''b''] =
     ([''m = 3''], [''if (allocated(b)) then'', ''n = size(b)'', ''else'', ''n = 0'', ''end if'']) \<and>
   well_nested [''if (allocated(b)) then'', ''n = size(b)'', ''else'', ''n = 0'', ''end if'']"
proof -
  let ?ls = "[''if (allocated(b)) then'', ''n = size(b)'', ''else'', ''n = 0'', ''end if'', ''m = 3'']"
  have p: "partition_symbol_blocks ?ls [''b''] =
     ([''m = 3''], [''if (allocated(b)) then'', ''n = size(b)'', ''else'', ''n = 0'', ''end if''])"
    by code_simp
  have b: "sym_blocks ?ls = [[''if (allocated(b)) then'', ''n = size(b)'', ''else'', ''n = 0'', ''end if''], [''m = 3'']]"
    by code_simp
  have k: "line_kind ''if (allocated(b)) then'' = Opens_If ''allocated(b)''" "line_kind ''n = size(b)'' = Plain ''n = size(b)''"
    "line_kind ''else'' = Plain ''else''" "line_kind ''n = 0'' = Plain ''n = 0''" "line_kind ''m = 3'' = Plain ''m = 3''"
    by code_simp+
  have "\<forall>blk \<in> set (sym_blocks ?ls). neutral blk" unfolding b by (auto simp: neutral_def k)
  with partition_symbol_blocks_correct [OF p] p show ?thesis by blast
qed

end
