(* ===== verification/Binding_Sources.thy ===== *)
theory Binding_Sources
  imports Flatten_Plan Fortran_Interface Fortran_Blocks
begin

text \<open>
  The part of \<open>src/dace_fortran/bindings/block_builders.py\<close> that decides where the wrapper takes each
  argument and symbol of the SDFG from: the call order, the parameters of \<open>__dace_init\<close>, module
  variables, flat companions, presence guards and the locals for what has no source.
\<close>

section \<open>Symbols of the generated library\<close>

definition free_sym_names :: "frozen_signature \<Rightarrow> string list" where
  "free_sym_names s =
     sort (filter (\<lambda>x. x \<notin> fa_sdfg_name ` set (fs_args s) \<and> \<not> startswith x ''__dace'') (fs_free_symbols s))"

definition init_sym_names :: "frozen_signature \<Rightarrow> string list option \<Rightarrow> string list" where
  "init_sym_names s init_symbols =
     (case init_symbols of
        Some xs \<Rightarrow> xs
      | None \<Rightarrow> sort (filter (\<lambda>x. \<not> startswith x ''__dace'') (fs_free_symbols s)))"

datatype init_problem =
    Foreign "string list"
  | Unpassed "string list"
  | Missing "string list"
  | WrongOrder "string list"

definition check_init_symbols ::
  "frozen_signature \<Rightarrow> string list option \<Rightarrow> string list \<Rightarrow> init_problem list + unit" where
  "check_init_symbols s init_symbols dace_arglist =
     (case init_symbols of
        None \<Rightarrow> Inr ()
      | Some init \<Rightarrow>
          (let symbols = set (fs_free_symbols s);
               foreign = filter (\<lambda>x. x \<notin> symbols) init;
               problems = (if foreign \<noteq> [] then [Foreign foreign] else []);
               problems =
                 (if dace_arglist = [] then problems else
                    let expected = sort (filter (\<lambda>n. n \<in> symbols \<and> \<not> startswith n ''__dace'') dace_arglist);
                        unpassed = filter (\<lambda>x. x \<in> symbols \<and> x \<notin> set expected) init;
                        missing = filter (\<lambda>x. x \<notin> set init) expected;
                        problems = problems @ (if unpassed \<noteq> [] then [Unpassed unpassed] else [])
                          @ (if missing \<noteq> [] then [Missing missing] else [])
                    in if problems = [] \<and> init \<noteq> expected then [WrongOrder expected] else problems)
           in if problems = [] then Inr () else Inl problems))"

definition passed_symbols :: "frozen_signature \<Rightarrow> string list \<Rightarrow> string list option \<Rightarrow> string set" where
  "passed_symbols s dace_arglist init_symbols =
     (let symbols = set (fs_free_symbols s);
          program = (if dace_arglist = [] then symbols else set (filter (\<lambda>n. n \<in> symbols) dace_arglist))
      in program \<union> set (init_sym_names s init_symbols))"

text \<open>A dictionary comprehension keeps the last argument of a name.\<close>

definition by_sdfg_name :: "frozen_arg list \<Rightarrow> string \<Rightarrow> frozen_arg option" where
  "by_sdfg_name as n = map_of (rev (map (\<lambda>a. (fa_sdfg_name a, a)) as)) n"

definition dace_call_order :: "frozen_signature \<Rightarrow> string list \<Rightarrow> (frozen_arg + string) list" where
  "dace_call_order s dace_arglist =
     (if dace_arglist = [] then map Inl (fs_args s) @ map Inr (free_sym_names s)
      else map (\<lambda>n. case by_sdfg_name (fs_args s) n of Some a \<Rightarrow> Inl a | None \<Rightarrow> Inr n) dace_arglist)"

definition module_arg_aliasable :: "frozen_arg \<Rightarrow> bool \<Rightarrow> bool" where
  "module_arg_aliasable a module_allocatables_are_targets =
     (if fa_kind a \<noteq> ARRAY \<or> fa_rank a \<le> 0 then False
      else if fa_global_alloc_inside a then False
      else if \<not> (fa_module_origin_allocatable a \<or> fa_module_origin_pointer a) then False
      else if \<not> fa_module_origin_pointer a \<and> \<not> module_allocatables_are_targets then False
      else fa_intent a \<noteq> ''out'')"

section \<open>Extents and lower bounds\<close>

text \<open>\<open>^offset_(.+)_d(\d+)$\<close> and \<open>^(.+)_d(\d+)$\<close>.\<close>

definition OFFSET_SYM_RE :: regex where
  "OFFSET_SYM_RE = seqs [Bol, lit ''offset_'', Grp 1 (some1 re_dot), lit ''_d'', Grp 2 (some1 re_digit), Eol]"

definition EXTENT_SYM_RE :: regex where
  "EXTENT_SYM_RE = seqs [Bol, Grp 1 (some1 re_dot), lit ''_d'', Grp 2 (some1 re_digit), Eol]"

datatype extent_query = LBOUND | SIZE

text \<open>\<open>a.from_struct_member or a.fortran_name\<close>.\<close>

definition arg_expr :: "frozen_arg \<Rightarrow> string" where
  "arg_expr a =
     (case fa_from_struct_member a of
        Some e \<Rightarrow> if e = [] then fa_fortran_name a else e
      | None \<Rightarrow> fa_fortran_name a)"

definition array_expr :: "frozen_signature \<Rightarrow> string \<Rightarrow> string option" where
  "array_expr s arr =
     (case by_sdfg_name (fs_args s) arr of
        None \<Rightarrow> None
      | Some a \<Rightarrow> if fa_kind a \<noteq> ARRAY \<or> arg_expr a = [] then None else Some (arg_expr a))"

definition sym_from_intrinsic :: "string \<Rightarrow> frozen_signature \<Rightarrow> (extent_query \<times> string \<times> nat) option" where
  "sym_from_intrinsic sm s =
     (case re_match OFFSET_SYM_RE sm of
        Some m \<Rightarrow> map_option (\<lambda>e. (LBOUND, e, nat_of_digits (grp0 m 2) + 1)) (array_expr s (grp0 m 1))
      | None \<Rightarrow>
          (case re_match EXTENT_SYM_RE sm of
             Some m \<Rightarrow> map_option (\<lambda>e. (SIZE, e, nat_of_digits (grp0 m 2) + 1)) (array_expr s (grp0 m 1))
           | None \<Rightarrow> None))"

fun index_of :: "'a \<Rightarrow> 'a list \<Rightarrow> nat" where
  "index_of x [] = 0"
| "index_of x (y # ys) = (if x = y then 0 else Suc (index_of x ys))"

fun extent_in :: "string \<Rightarrow> string list \<Rightarrow> frozen_arg list \<Rightarrow> (string \<times> nat) option" where
  "extent_in sm exclude [] = None"
| "extent_in sm exclude (a # as) =
     (if fa_kind a \<noteq> ARRAY \<or> fa_sdfg_name a \<in> set exclude then extent_in sm exclude as
      else if sm \<in> set (fa_shape a) \<and> arg_expr a \<noteq> [] then Some (arg_expr a, index_of sm (fa_shape a) + 1)
      else extent_in sm exclude as)"

definition sym_from_array_extent :: "string \<Rightarrow> frozen_signature \<Rightarrow> string list \<Rightarrow> (string \<times> nat) option" where
  "sym_from_array_extent sm s exclude = extent_in sm exclude (fs_args s)"

section \<open>Module variables\<close>

definition module_symbol_alias :: "string \<Rightarrow> string" where
  "module_symbol_alias sm = sm @ ''__mod''"

definition synthetic_members :: "flatten_plan option \<Rightarrow> (string \<times> string) list" where
  "synthetic_members plan =
     (case plan of None \<Rightarrow> [] | Some p \<Rightarrow>
        foldl (\<lambda>d g. AList.update (sg_sdfg_name g) (sg_member g) d) [] (fp_synthetic_globals p))"

definition module_value_expr :: "string \<Rightarrow> (string \<times> string) list \<Rightarrow> string" where
  "module_value_expr sm members =
     (case map_of members sm of
        Some m \<Rightarrow> if m = [] then module_symbol_alias sm else concat [module_symbol_alias sm, ''%'', m]
      | None \<Rightarrow> module_symbol_alias sm)"

definition effective_module_sources ::
  "frozen_signature \<Rightarrow> original_interface \<Rightarrow> flatten_plan option \<Rightarrow> (string \<times> module_origin) list" where
  "effective_module_sources s iface plan =
     (let merged = fs_module_symbol_origins s;
          merged = (case plan of None \<Rightarrow> merged | Some p \<Rightarrow>
            foldl (\<lambda>d g. AList.update (sg_sdfg_name g) (sg_module g, sg_entity g) d) merged (fp_synthetic_globals p))
      in foldl (\<lambda>d (k, v). AList.update k v d) merged (oi_module_symbol_sources iface))"

definition plan_flats :: "flatten_plan \<Rightarrow> string set" where
  "plan_flats p = (\<Union>e \<in> set (fp_entries p). set (flat_names (fe_recipe e)))"

definition iface_names :: "original_interface \<Rightarrow> string set" where
  "iface_names iface = oa_name ` set (oi_args iface)"

text \<open>An SDFG argument that is a module variable, with its module and entity.\<close>

definition orphan_of ::
  "original_interface \<Rightarrow> flatten_plan \<Rightarrow> (string \<times> module_origin) list \<Rightarrow> frozen_arg \<Rightarrow>
   (frozen_arg \<times> string \<times> string) list" where
  "orphan_of iface p sources a =
     (let n = fa_sdfg_name a in
      if n \<in> iface_names iface \<or> n \<in> plan_flats p then []
      else if re_match OFFSET_SYM_RE n \<noteq> None \<or> fa_kind a = SYMBOL then []
      else if re_match EXTENT_SYM_RE n \<noteq> None \<and> map_of sources n = None then []
      else case map_of sources n of None \<Rightarrow> [] | Some (md, en) \<Rightarrow> [(a, md, en)])"

definition orphan_module_args ::
  "frozen_signature \<Rightarrow> original_interface \<Rightarrow> flatten_plan \<Rightarrow> (frozen_arg \<times> string \<times> string) list" where
  "orphan_module_args s iface p =
     concat (map (orphan_of iface p (effective_module_sources s iface (Some p))) (fs_args s))"

definition aos_module_args :: "frozen_signature \<Rightarrow> frozen_arg list" where
  "aos_module_args s = filter (\<lambda>a. fa_aos_origin_struct a \<noteq> [] \<and> fa_rank a > 0) (fs_args s)"

definition sourced_names :: "frozen_signature \<Rightarrow> original_interface \<Rightarrow> flatten_plan \<Rightarrow> string set" where
  "sourced_names s iface p =
     plan_flats p \<union> fa_sdfg_name ` set (filter (\<lambda>a. fa_element_of a \<noteq> []) (fs_args s)) \<union>
     (fa_sdfg_name \<circ> fst) ` set (orphan_module_args s iface p) \<union>
     fa_sdfg_name ` set (aos_module_args s) \<union> iface_names iface"

definition unsourced_array_args :: "frozen_signature \<Rightarrow> original_interface \<Rightarrow> flatten_plan \<Rightarrow> frozen_arg list" where
  "unsourced_array_args s iface p =
     filter (\<lambda>a. fa_kind a = ARRAY \<and> fa_rank a > 0 \<and> fa_sdfg_name a \<notin> sourced_names s iface p \<and>
       fa_aos_origin_struct a = []) (fs_args s)"

section \<open>Locals for what has no source\<close>

definition zero_literal :: "string \<Rightarrow> string" where
  "zero_literal dtype = (if dtype \<in> set LOGICAL_DTYPES then ''.false.'' else ''0'')"

text \<open>\<open>^[A-Za-z_]\w*$\<close>.\<close>

definition ident_re :: regex where
  "ident_re = seqs [Bol, re_ident_start, many re_word, Eol]"

definition declared_names :: "frozen_signature \<Rightarrow> original_interface \<Rightarrow> flatten_plan \<Rightarrow> string set" where
  "declared_names s iface p =
     set (fs_free_symbols s) \<union> iface_names iface \<union> plan_flats p \<union>
     fa_sdfg_name ` set (filter (\<lambda>a. fa_kind a = ARRAY) (fs_args s)) \<union>
     (fa_sdfg_name \<circ> fst) ` set (orphan_module_args s iface p) \<union>
     fa_sdfg_name ` set (aos_module_args s) \<union>
     fa_sdfg_name ` set (unsourced_array_args s iface p) \<union>
     {''dace_user_comm'', ''dace_user_comm_size''}"

definition extra_rhs ::
  "(string \<times> module_origin) list \<Rightarrow> (string \<times> string) list \<Rightarrow> string \<Rightarrow> string \<Rightarrow> bool \<Rightarrow> string" where
  "extra_rhs sources members name dtype is_dim =
     (if map_of sources name \<noteq> None then
        let alias = module_value_expr name members in
        if dtype \<in> set LOGICAL_DTYPES then alias else concat [''int('', alias, '', c_int)'']
      else if is_dim then ''1'' else zero_literal dtype)"

fun extra_args ::
  "(string \<Rightarrow> string \<Rightarrow> bool \<Rightarrow> string) \<Rightarrow> string set \<Rightarrow> frozen_arg list \<Rightarrow>
   (string \<times> string \<times> string) list \<Rightarrow> (string \<times> string \<times> string) list py" where
  "extra_args rhs declared [] out = Inr out"
| "extra_args rhs declared (a # as) out =
     (if fa_kind a \<in> {SCALAR, SYMBOL} \<and> fa_sdfg_name a \<notin> declared then
        rbind (fortran_c_type (fa_dtype a)) (\<lambda>ft.
        extra_args rhs declared as
          (AList.update (fa_sdfg_name a) (ft, rhs (fa_sdfg_name a) (fa_dtype a) False) out))
      else extra_args rhs declared as out)"

fun extra_dims ::
  "(string \<Rightarrow> string \<Rightarrow> bool \<Rightarrow> string) \<Rightarrow> string set \<Rightarrow> string list \<Rightarrow>
   (string \<times> string \<times> string) list \<Rightarrow> (string \<times> string \<times> string) list" where
  "extra_dims rhs declared [] out = out"
| "extra_dims rhs declared (x # xs) out =
     (if re_match ident_re x \<noteq> None \<and> x \<notin> declared \<and> x \<notin> fst ` set out
      then extra_dims rhs declared xs (AList.update x (''integer(c_int)'', rhs x ''int32'' True) out)
      else extra_dims rhs declared xs out)"

definition extra_local_symbols ::
  "frozen_signature \<Rightarrow> original_interface \<Rightarrow> flatten_plan \<Rightarrow> (string \<times> string \<times> string) list py" where
  "extra_local_symbols s iface p =
     (let rhs = extra_rhs (effective_module_sources s iface (Some p)) (synthetic_members (Some p));
          declared = declared_names s iface p in
      rbind (extra_args rhs declared (fs_args s) []) (\<lambda>out.
        Inr (extra_dims rhs declared (concat (map fa_shape (fs_args s))) out)))"

section \<open>Flat companions and presence\<close>

definition module_arg_may_be_unallocated :: "frozen_arg \<Rightarrow> bool" where
  "module_arg_may_be_unallocated a =
     ((fa_module_origin_allocatable a \<or> fa_module_origin_pointer a) \<and> \<not> fa_global_alloc_inside a \<and> fa_rank a > 0)"

definition present_query :: "string \<Rightarrow> bool \<Rightarrow> string" where
  "present_query expr is_pointer =
     (if is_pointer then concat [''associated('', expr, '')''] else concat [''allocated('', expr, '')''])"

definition live_entries :: "frozen_signature \<Rightarrow> flatten_plan \<Rightarrow> flatten_entry list" where
  "live_entries s p =
     filter (\<lambda>e. list_ex (\<lambda>f. f \<in> fa_sdfg_name ` set (fs_args s)) (flat_names (fe_recipe e))) (fp_entries p)"

definition split_elements :: "frozen_arg list \<Rightarrow> (string \<times> (int \<times> string) list) list" where
  "split_elements as =
     foldl (\<lambda>d a. if fa_element_of a = [] then d else
       AList.update (fa_element_of a)
         (AList.update (fa_element_index a) (fa_sdfg_name a)
           (case map_of d (fa_element_of a) of None \<Rightarrow> [] | Some es \<Rightarrow> es)) d) [] as"

fun pick_split :: "(string \<times> (int \<times> string) list) list \<Rightarrow> flatten_entry list \<Rightarrow>
    (flatten_entry \<times> (int \<times> string) list) list py" where
  "pick_split elements [] = Inr []"
| "pick_split elements (e # es) =
     (if \<not> aos_alloc (fe_recipe e) then pick_split elements es
      else case flat_names (fe_recipe e) of
        [] \<Rightarrow> Inl IndexError
      | f # _ \<Rightarrow> rbind (pick_split elements es) (\<lambda>rest.
          Inr (case map_of elements f of None \<Rightarrow> rest | Some xs \<Rightarrow> (e, xs) # rest)))"

definition split_entries ::
  "frozen_signature \<Rightarrow> flatten_plan \<Rightarrow> (flatten_entry \<times> (int \<times> string) list) list py" where
  "split_entries s p = pick_split (split_elements (fs_args s)) (fp_entries p)"

definition guarded_copy_out :: "string list \<Rightarrow> string \<Rightarrow> recipe \<Rightarrow> string list" where
  "guarded_copy_out lines guard r =
     (if guard = [] then lines
      else [concat [''    if ('', guard, '') then'']] @ map (\<lambda>ln. ''  '' @ ln) lines @ [''    else''] @
        map (\<lambda>flat. concat [''      deallocate('', flat, '')'']) (flat_names r) @ [''    end if''])"

definition presence_scratch_name :: "string \<Rightarrow> string" where
  "presence_scratch_name dtype = ''presence_scratch_'' @ dtype"

text \<open>The name at the head of a path segment: \<open>seg.split("(")[0].strip().lower()\<close>.\<close>

definition segment_name :: "string \<Rightarrow> string" where
  "segment_name seg = lower (strip (before_first CHR ''('' seg))"

fun guard_walk ::
  "(string \<times> derived_type) list \<Rightarrow> string \<Rightarrow> derived_type option \<Rightarrow> string list \<Rightarrow> string" where
  "guard_walk types base st [] = []"
| "guard_walk types base st (seg # segs) =
     (case st of
        None \<Rightarrow> []
      | Some t \<Rightarrow>
          (case List.find (\<lambda>m. lower (mb_name m) = segment_name seg) (dt_members t) of
             None \<Rightarrow> []
           | Some m \<Rightarrow>
               if segs = [] then (if mb_alloc m = [] then [] else present_query base (mb_alloc m = ''pointer''))
               else guard_walk types base
                 (case mb_struct_name m of None \<Rightarrow> None | Some n \<Rightarrow> if n = [] then None else map_of types n) segs))"

definition entry_presence_guard :: "original_interface \<Rightarrow> string \<Rightarrow> string" where
  "entry_presence_guard iface base =
     (case map strip (split_on CHR ''%'' base) of
        root # seg # segs \<Rightarrow>
          (case List.find (\<lambda>a. lower (oa_name a) = segment_name root \<and> oa_struct_type a \<noteq> None \<and>
                oa_struct_type a \<noteq> Some []) (oi_args iface) of
             None \<Rightarrow> []
           | Some a \<Rightarrow> guard_walk (oi_struct_types iface) base
               (map_of (oi_struct_types iface) (the (oa_struct_type a))) (seg # segs))
      | _ \<Rightarrow> [])"

definition recipe_presence_guard :: "original_interface \<Rightarrow> recipe \<Rightarrow> string" where
  "recipe_presence_guard iface r =
     (case read_exprs r of
        [] \<Rightarrow> []
      | e # _ \<Rightarrow> if aos_alloc r then [] else entry_presence_guard iface (strip_index_args e))"

section \<open>Buffers of record members\<close>

definition aos_lead :: "frozen_arg \<Rightarrow> int" where
  "aos_lead a = fa_aos_root_rank a + fa_aos_outer_rank a"

definition buffer_dim :: "frozen_arg \<Rightarrow> int \<Rightarrow> bool \<Rightarrow> int" where
  "buffer_dim a sdfg_dim members_first =
     (let lead = aos_lead a in
      if \<not> members_first \<or> \<not> (0 < lead \<and> lead < fa_rank a) then sdfg_dim + 1
      else if sdfg_dim \<ge> lead then sdfg_dim - lead + 1 else sdfg_dim + fa_rank a - lead + 1)"

definition buffer_spec :: "string \<Rightarrow> string \<Rightarrow> bool \<Rightarrow> string" where
  "buffer_spec records members members_first =
     join '', '' (filter (\<lambda>x. x \<noteq> []) (if members_first then [members, records] else [records, members]))"

definition str_isdigit :: "string \<Rightarrow> bool" where
  "str_isdigit s = (s \<noteq> [] \<and> list_all (\<lambda>c. is_digit c \<or> code c \<in> {178, 179, 185}) s)"

definition aos_member_is_static :: "frozen_arg \<Rightarrow> bool" where
  "aos_member_is_static a =
     (let dims = py_suffix (aos_lead a) (fa_shape a) in dims \<noteq> [] \<and> list_all str_isdigit dims)"

definition buffer_local_names ::
  "frozen_signature \<Rightarrow> original_interface \<Rightarrow> flatten_plan \<Rightarrow> string set" where
  "buffer_local_names s iface p =
     (fa_sdfg_name \<circ> fst) ` set (filter (\<lambda>x. fa_rank (fst x) > 0) (orphan_module_args s iface p)) \<union>
     fa_sdfg_name ` set (aos_module_args s) \<union>
     fa_sdfg_name ` set (unsourced_array_args s iface p) \<union> plan_flats p"

section \<open>Lemmas\<close>

lemma extra_args_Inr:
  assumes "extra_args rhs declared as out = Inr out'"
  shows "fst ` set out \<subseteq> fst ` set out'"
    and "\<forall>a \<in> set as. fa_kind a \<in> {SCALAR, SYMBOL} \<longrightarrow> fa_sdfg_name a \<in> declared \<union> fst ` set out'"
    and "fst ` set out' \<subseteq> fst ` set out \<union> (fa_sdfg_name ` set as - declared)"
    and "distinct (map fst out) \<Longrightarrow> distinct (map fst out')"
proof -
  have "fst ` set out \<subseteq> fst ` set out' \<and>
    (\<forall>a \<in> set as. fa_kind a \<in> {SCALAR, SYMBOL} \<longrightarrow> fa_sdfg_name a \<in> declared \<union> fst ` set out') \<and>
    fst ` set out' \<subseteq> fst ` set out \<union> (fa_sdfg_name ` set as - declared) \<and>
    (distinct (map fst out) \<longrightarrow> distinct (map fst out'))"
    using assms
  proof (induction rhs declared as out rule: extra_args.induct)
    case (2 rhs declared a as out)
    show ?case
    proof (cases "fa_kind a \<in> {SCALAR, SYMBOL} \<and> fa_sdfg_name a \<notin> declared")
      case True
      with 2 obtain ft where ft: "fortran_c_type (fa_dtype a) = Inr ft"
        and r: "extra_args rhs declared as
          (AList.update (fa_sdfg_name a) (ft, rhs (fa_sdfg_name a) (fa_dtype a) False) out) = Inr out'"
        by (auto simp: rbind_Inr_iff simp del: fortran_c_type_Inr)
      from "2.IH"(1) [OF True r] True show ?thesis
        by (auto simp: dom_update distinct_update)
    next
      case False
      with 2 have "extra_args rhs declared as out = Inr out'" by auto
      from "2.IH"(2) [OF False this] False show ?thesis by auto
    qed
  qed auto
  then show "fst ` set out \<subseteq> fst ` set out'"
    and "\<forall>a \<in> set as. fa_kind a \<in> {SCALAR, SYMBOL} \<longrightarrow> fa_sdfg_name a \<in> declared \<union> fst ` set out'"
    and "fst ` set out' \<subseteq> fst ` set out \<union> (fa_sdfg_name ` set as - declared)"
    and "distinct (map fst out) \<Longrightarrow> distinct (map fst out')"
    by auto
qed

lemma extra_dims_keys:
  "fst ` set (extra_dims rhs declared xs out) =
   fst ` set out \<union> ({x \<in> set xs. re_match ident_re x \<noteq> None} - declared)"
proof (induction rhs declared xs out rule: extra_dims.induct)
  case (2 rhs declared x xs out)
  show ?case
  proof (cases "re_match ident_re x \<noteq> None \<and> x \<notin> declared \<and> x \<notin> fst ` set out")
    case True
    then have "{y \<in> set (x # xs). re_match ident_re y \<noteq> None} - declared =
        insert x ({y \<in> set xs. re_match ident_re y \<noteq> None} - declared)" by auto
    with "2.IH"(1) [OF True] show ?thesis
      unfolding extra_dims.simps if_P [OF True] by (simp add: dom_update)
  next
    case False
    then have "fst ` set out \<union> ({y \<in> set (x # xs). re_match ident_re y \<noteq> None} - declared) =
        fst ` set out \<union> ({y \<in> set xs. re_match ident_re y \<noteq> None} - declared)" by auto
    with "2.IH"(2) [OF False] show ?thesis
      unfolding extra_dims.simps if_not_P [OF False] by simp
  qed
qed simp

lemma extra_dims_distinct: "distinct (map fst out) \<Longrightarrow> distinct (map fst (extra_dims rhs declared xs out))"
  by (induction rhs declared xs out rule: extra_dims.induct) (simp_all add: distinct_update)

lemma extra_dims_props:
  "fst ` set out \<subseteq> fst ` set (extra_dims rhs declared xs out) \<and>
   (\<forall>x \<in> set xs. re_match ident_re x \<noteq> None \<longrightarrow> x \<in> declared \<union> fst ` set (extra_dims rhs declared xs out)) \<and>
   fst ` set (extra_dims rhs declared xs out) \<subseteq> fst ` set out \<union> (set xs - declared) \<and>
   (distinct (map fst out) \<longrightarrow> distinct (map fst (extra_dims rhs declared xs out)))"
  unfolding extra_dims_keys using extra_dims_distinct by blast

section \<open>Properties\<close>

text \<open>The check of the compiled library's \<open>__dace_init\<close> parameters accepts a list exactly when it names
  only free symbols of the SDFG and, if the argument list of \<open>__program\<close> is known, is the sorted list
  of the symbols \<open>__program\<close> takes: nothing foreign, nothing missing, nothing in another position.\<close>

theorem check_init_symbols_iff:
  "check_init_symbols s (Some init) dace_arglist = Inr () \<longleftrightarrow>
     set init \<subseteq> set (fs_free_symbols s) \<and>
     (dace_arglist = [] \<or>
      init = sort (filter (\<lambda>n. n \<in> set (fs_free_symbols s) \<and> \<not> startswith n ''__dace'') dace_arglist))"
proof (cases "dace_arglist = []")
  case True
  then show ?thesis by (auto simp: check_init_symbols_def filter_empty_conv Let_def)
next
  case False
  define e where "e = sort (filter (\<lambda>n. n \<in> set (fs_free_symbols s) \<and> \<not> startswith n ''__dace'') dace_arglist)"
  have e: "set e \<subseteq> set (fs_free_symbols s)" by (auto simp: e_def)
  let ?S = "set (fs_free_symbols s)"
  have f: "filter (\<lambda>x. x \<notin> ?S) init = [] \<longleftrightarrow> set init \<subseteq> ?S"
    and u: "filter (\<lambda>x. x \<in> ?S \<and> x \<notin> set e) init = [] \<longleftrightarrow> set init \<inter> ?S \<subseteq> set e"
    and m: "filter (\<lambda>x. x \<notin> set init) e = [] \<longleftrightarrow> set e \<subseteq> set init"
    by (auto simp: filter_empty_conv)
  have "check_init_symbols s (Some init) dace_arglist = Inr () \<longleftrightarrow>
      set init \<subseteq> ?S \<and> set init \<inter> ?S \<subseteq> set e \<and> set e \<subseteq> set init \<and> init = e"
    unfolding check_init_symbols_def option.case Let_def e_def [symmetric] if_not_P [OF False] f u m
    by (cases "set init \<subseteq> ?S"; cases "set init \<inter> ?S \<subseteq> set e"; cases "set e \<subseteq> set init"; cases "init = e")
      simp_all
  then show ?thesis using False e unfolding e_def [symmetric] by blast
qed

text \<open>Every name the call and the allocations refer to gets a declaration: after \<open>_extra_local_symbols\<close>
  each scalar or symbol argument and each shape symbol that is a plain identifier is declared by
  another part of the wrapper or has an extra local; no local is declared twice and none clashes with
  an existing declaration.\<close>

theorem extra_locals_complete:
  assumes "extra_local_symbols s iface p = Inr out"
  shows "(\<forall>a \<in> set (fs_args s). fa_kind a \<in> {SCALAR, SYMBOL} \<longrightarrow>
      fa_sdfg_name a \<in> declared_names s iface p \<union> fst ` set out) \<and>
    (\<forall>a \<in> set (fs_args s). \<forall>x \<in> set (fa_shape a). re_match ident_re x \<noteq> None \<longrightarrow>
      x \<in> declared_names s iface p \<union> fst ` set out) \<and>
    distinct (map fst out) \<and> fst ` set out \<inter> declared_names s iface p = {}"
proof -
  from assms obtain mid rhs where m: "extra_args rhs (declared_names s iface p) (fs_args s) [] = Inr mid"
    "out = extra_dims rhs (declared_names s iface p) (concat (map fa_shape (fs_args s))) mid"
    by (auto simp: extra_local_symbols_def Let_def rbind_Inr_iff)
  note a = extra_args_Inr [OF m(1)]
  note d = extra_dims_props [of mid rhs "declared_names s iface p" "concat (map fa_shape (fs_args s))",
      folded m(2)]
  have mid: "fst ` set mid \<subseteq> fst ` set out" using d by simp
  have "fst ` set out \<subseteq> fst ` set mid \<union> (set (concat (map fa_shape (fs_args s))) - declared_names s iface p)"
    using d by simp
  moreover have "fst ` set mid \<subseteq> - declared_names s iface p" using a(3) by auto
  ultimately have "fst ` set out \<inter> declared_names s iface p = {}" by blast
  moreover have "distinct (map fst out)" using a(4) d by simp
  moreover have "\<forall>b \<in> set (fs_args s). fa_kind b \<in> {SCALAR, SYMBOL} \<longrightarrow>
      fa_sdfg_name b \<in> declared_names s iface p \<union> fst ` set out" using a(2) mid by blast
  moreover have "\<forall>b \<in> set (fs_args s). \<forall>x \<in> set (fa_shape b). re_match ident_re x \<noteq> None \<longrightarrow>
      x \<in> declared_names s iface p \<union> fst ` set out"
  proof (intro ballI impI)
    fix b x
    assume "b \<in> set (fs_args s)" "x \<in> set (fa_shape b)" "re_match ident_re x \<noteq> None"
    moreover then have "x \<in> set (concat (map fa_shape (fs_args s)))" by auto
    ultimately show "x \<in> declared_names s iface p \<union> fst ` set out" using d by blast
  qed
  ultimately show ?thesis by blast
qed

definition ex_plan :: flatten_plan where
  "ex_plan = \<lparr>fp_entries = [], fp_synthetic_globals = []\<rparr>"

definition ex_iface :: original_interface where
  "ex_iface = \<lparr>oi_entry = ''k'', oi_args = [], oi_struct_types = [], oi_used_modules = [],
     oi_module_symbol_sources = [(''c'', ''mo_par'', ''c'')]\<rparr>"

theorem extra_locals_complete_witness:
  "\<exists>out. extra_local_symbols (ex_sig\<lparr>fs_free_symbols := []\<rparr>) ex_iface ex_plan = Inr out \<and>
     distinct (map fst out) \<and> ''n'' \<in> fst ` set out"
proof -
  have r: "extra_local_symbols (ex_sig\<lparr>fs_free_symbols := []\<rparr>) ex_iface ex_plan =
      Inr [(''n'', ''integer(c_int)'', ''1'')]"
    by code_simp
  from extra_locals_complete [OF r] r show ?thesis by simp
qed

text \<open>The dimensions of a record member's buffer are a permutation of the SDFG's: \<open>buffer_dim\<close> maps the
  dimensions 0 to rank - 1 one to one onto the Fortran dimensions 1 to rank, in both layouts; with the
  member dimensions first, the member's dimensions come before the record's and each group keeps its order.\<close>

theorem buffer_dim_permutation:
  assumes "0 \<le> aos_lead a"
  shows "bij_betw (\<lambda>d. buffer_dim a d mf) {0..<fa_rank a} {1..fa_rank a} \<and>
    (mf \<and> 0 < aos_lead a \<longrightarrow>
      (\<forall>d e. 0 \<le> d \<and> d < aos_lead a \<and> aos_lead a \<le> e \<and> e < fa_rank a \<longrightarrow> buffer_dim a e mf < buffer_dim a d mf))"
proof
  let ?g = "\<lambda>x. if \<not> mf \<or> \<not> (0 < aos_lead a \<and> aos_lead a < fa_rank a) then x - 1
    else if x \<le> fa_rank a - aos_lead a then x - 1 + aos_lead a else x - 1 - (fa_rank a - aos_lead a)"
  show "bij_betw (\<lambda>d. buffer_dim a d mf) {0..<fa_rank a} {1..fa_rank a}"
    by (rule bij_betw_byWitness [where f' = ?g]) (use assms in \<open>auto simp: buffer_dim_def Let_def\<close>)
qed (auto simp: buffer_dim_def Let_def)

theorem buffer_dim_permutation_witness:
  "bij_betw (\<lambda>d. buffer_dim ((ex_arg ''u'' ARRAY ''float64'')\<lparr>fa_rank := 3, fa_aos_outer_rank := 1\<rparr>) d True)
     {0..<3} {1..3}"
  using buffer_dim_permutation [of "(ex_arg ''u'' ARRAY ''float64'')\<lparr>fa_rank := 3, fa_aos_outer_rank := 1\<rparr>" True]
  by (simp add: ex_arg_def aos_lead_def)

end
