(* ===== verification/Acc_Transfers.thy ===== *)
theory Acc_Transfers
  imports Binding_Sources "HOL-Library.Multiset"
begin

text \<open>
  \<open>src/dace_fortran/bindings/acc_transfers.py\<close>: which buffers the wrapper stages between host and
  device, in the three lanes (a sidecar crossed with the SDFG, an offloaded SDFG under a host caller,
  a device-resident caller), the directives it emits for a plan, and the staging
  \<open>src/dace_fortran/bindings/block_builders.py\<close> splices around the call.
\<close>

section \<open>Residency\<close>

datatype residency = DEVICE | HOST

definition residency_of :: "json option \<Rightarrow> residency option" where
  "residency_of v =
     (case v of
        Some (JStr s) \<Rightarrow> if s = ''device'' then Some DEVICE else if s = ''host'' then Some HOST else None
      | _ \<Rightarrow> None)"

datatype directive = OPENACC | OPENMP

definition ACC_QUEUE :: nat where "ACC_QUEUE = 1"

datatype map_problem =
    NoFlatArgument string
  | UnresolvedRef string string

datatype acc_error =
    UnknownResidency string
  | CannotApply "string list" "string list"   \<comment> \<open>missing from the sidecar, left unclassified\<close>
  | NotMappable "map_problem list"
  | NoContainer string
  | MixedStorage string
  | NoTransfer "string list"
  | BadSidecar py_error

record acc_residency =
  ar_routine :: string
  ar_source :: string
  ar_args :: "(string \<times> residency) list"
  ar_unclassified :: "string list"
  ar_refs :: "(string \<times> string list) list"

definition has_device_args :: "acc_residency \<Rightarrow> bool" where
  "has_device_args r = (DEVICE \<in> snd ` set (ar_args r))"

text \<open>\<open>x or {}\<close> and \<open>x or ()\<close> for a value that may be missing or null.\<close>

fun or_obj :: "json option \<Rightarrow> (string \<times> json) list py" where
  "or_obj None = Inr []"
| "or_obj (Some JNull) = Inr []"
| "or_obj (Some v) = j_obj v"

fun or_strs :: "json option \<Rightarrow> string list py" where
  "or_strs None = Inr []"
| "or_strs (Some JNull) = Inr []"
| "or_strs (Some v) = j_list j_str v"

fun or_str :: "json option \<Rightarrow> string py" where
  "or_str None = Inr []"
| "or_str (Some JNull) = Inr []"
| "or_str (Some v) = j_str v"

definition lift_py :: "'a py \<Rightarrow> acc_error + 'a" where
  "lift_py r = (case r of Inl e \<Rightarrow> Inl (BadSidecar e) | Inr x \<Rightarrow> Inr x)"

fun sidecar_args ::
  "(string \<times> json) list \<Rightarrow> (string \<times> residency) list \<Rightarrow> (string \<times> string list) list \<Rightarrow>
   acc_error + (string \<times> residency) list \<times> (string \<times> string list) list" where
  "sidecar_args [] args refs = Inr (args, refs)"
| "sidecar_args ((name, entry) # es) args refs =
     rbind (lift_py (or_obj (Some entry))) (\<lambda>d.
     case residency_of (map_of d ''residency'') of
       None \<Rightarrow> Inl (UnknownResidency name)
     | Some side \<Rightarrow>
         rbind (lift_py (or_strs (map_of d ''refs''))) (\<lambda>rs.
         rbind (if rs \<noteq> [] then Inr rs else
                rbind (lift_py (or_str (map_of d ''ref''))) (\<lambda>ref. Inr (if ref = [] then [] else [ref]))) (\<lambda>entry_refs.
         sidecar_args es (AList.update name side args)
           (if entry_refs = [] then refs else AList.update name entry_refs refs))))"

definition acc_residency_from_dict :: "json \<Rightarrow> acc_error + acc_residency" where
  "acc_residency_from_dict raw =
     rbind (lift_py (j_obj raw)) (\<lambda>d.
     rbind (lift_py (or_obj (map_of d ''args''))) (\<lambda>es.
     rbind (sidecar_args es [] []) (\<lambda>(args, refs).
     rbind (lift_py (j_get ''routine'' [] j_str d)) (\<lambda>routine.
     rbind (lift_py (j_get ''source'' [] j_str d)) (\<lambda>source.
     rbind (lift_py (or_strs (map_of d ''unclassified''))) (\<lambda>un.
       Inr \<lparr>ar_routine = routine, ar_source = source, ar_args = args, ar_unclassified = un,
            ar_refs = refs\<rparr>))))))"

section \<open>Plans\<close>

record acc_plan =
  update_host :: "string list"
  update_device :: "string list"
  use_device :: "string list"
  storage_side :: "(string \<times> residency) list"
  copyin :: "string list"
  copyout :: "string list"
  copy :: "string list"
  deviceptr :: "string list"
  device_pack :: "string list"
  create :: "string list"

definition empty_plan :: acc_plan where
  "empty_plan = \<lparr>update_host = [], update_device = [], use_device = [], storage_side = [], copyin = [],
     copyout = [], copy = [], deviceptr = [], device_pack = [], create = []\<rparr>"

datatype data_clause = COPYIN | COPY | COPYOUT | CREATE

fun clause_text :: "data_clause \<Rightarrow> string" where
  "clause_text COPYIN = ''COPYIN''"
| "clause_text COPY = ''COPY''"
| "clause_text COPYOUT = ''COPYOUT''"
| "clause_text CREATE = ''CREATE''"

definition data_region :: "acc_plan \<Rightarrow> (data_clause \<times> string) list" where
  "data_region p =
     concat (map (\<lambda>(c, names). map (Pair c) names)
       [(COPYIN, copyin p), (COPY, copy p), (COPYOUT, copyout p), (CREATE, create p)])"

definition plan_active :: "acc_plan \<Rightarrow> bool" where
  "plan_active p =
     (update_host p \<noteq> [] \<or> update_device p \<noteq> [] \<or> use_device p \<noteq> [] \<or> data_region p \<noteq> [] \<or> deviceptr p \<noteq> [])"

section \<open>The SDFG's side\<close>

definition GPU_STORAGE :: "string list" where
  "GPU_STORAGE = [''GPU_Global'', ''GPU_Shared'']"

definition sdfg_containers_for_arg :: "sdfg \<Rightarrow> string \<Rightarrow> string list" where
  "sdfg_containers_for_arg g arg =
     sort (map fst (filter (\<lambda>(n, d). \<not> d_transient d \<and> (n = arg \<or> startswith n (arg @ ''_''))) (sd_arrays g)))"

definition is_scalar_arg :: "sdfg \<Rightarrow> string \<Rightarrow> string list \<Rightarrow> bool" where
  "is_scalar_arg g arg containers =
     (if containers = [] then arg \<in> set (sd_symbols g) \<or> arg \<in> set (sd_free_symbols g)
      else list_all (\<lambda>n. case map_of (sd_arrays g) n of None \<Rightarrow> False | Some d \<Rightarrow> d_scalar d) containers)"

definition container_side :: "sdfg \<Rightarrow> string \<Rightarrow> residency" where
  "container_side g n =
     (case map_of (sd_arrays g) n of
        Some d \<Rightarrow> if d_storage d \<in> set GPU_STORAGE then DEVICE else HOST
      | None \<Rightarrow> HOST)"

definition arg_storage :: "sdfg \<Rightarrow> string \<Rightarrow> string list \<Rightarrow> acc_error + residency" where
  "arg_storage g arg containers =
     (case remdups (map (container_side g) containers) of
        [] \<Rightarrow> Inl (NoContainer arg)
      | [side] \<Rightarrow> Inr side
      | _ \<Rightarrow> Inl (MixedStorage arg))"

definition written_args :: "sdfg \<Rightarrow> (string \<times> string list) list \<Rightarrow> string list" where
  "written_args g containers =
     map fst (filter (\<lambda>(arg, names). list_ex (\<lambda>n. n \<in> set (sd_written g)) names) containers)"

section \<open>Entity references\<close>

text \<open>\<open>\([^()]*\)\<close>.\<close>

definition PAREN_GROUP_RE :: regex where
  "PAREN_GROUP_RE = seqs [chr_re CHR ''('', many (Cls True [(40, 41)]), chr_re CHR '')'']"

text \<open>\<open>while _PAREN_GROUP_RE.search(text): text = _PAREN_GROUP_RE.sub("", text)\<close>: the fuel is the length of the
  text, and every round that runs removes at least two characters.\<close>

primrec drop_parens :: "nat \<Rightarrow> string \<Rightarrow> string" where
  "drop_parens 0 text = text"
| "drop_parens (Suc n) text =
     (if re_search PAREN_GROUP_RE text = None then text
      else drop_parens n (re_sub (\<lambda>_. []) PAREN_GROUP_RE text))"

definition ref_to_flat_name :: "string \<Rightarrow> string" where
  "ref_to_flat_name ref =
     (let text = re_sub (\<lambda>_. []) (some1 re_space) ref
      in replace ''%'' ''_'' (drop_parens (length text) text))"

definition ref_problem :: "string list \<Rightarrow> string \<Rightarrow> string \<Rightarrow> map_problem list" where
  "ref_problem containers arg ref =
     (let flat = ref_to_flat_name ref in
      if flat \<in> set containers then []
      else if filter (\<lambda>n. startswith n (flat @ ''_'')) containers = [] then [UnresolvedRef ref arg]
      else [])"

definition arg_problems :: "sdfg \<Rightarrow> acc_residency \<Rightarrow> string \<Rightarrow> map_problem list" where
  "arg_problems g r arg =
     (if map_of (ar_args r) arg \<noteq> Some DEVICE then []
      else let containers = sdfg_containers_for_arg g arg in
        if is_scalar_arg g arg containers then []
        else if containers = [] then [NoFlatArgument arg]
        else concat (map (ref_problem containers arg)
          (case map_of (ar_refs r) arg of None \<Rightarrow> [arg] | Some rs \<Rightarrow> if rs = [] then [arg] else rs)))"

definition validate_acc_mappability :: "sdfg \<Rightarrow> acc_residency \<Rightarrow> string list \<Rightarrow> acc_error + unit" where
  "validate_acc_mappability g r arg_order =
     (let problems = concat (map (arg_problems g r) arg_order)
      in if problems = [] then Inr () else Inl (NotMappable problems))"

section \<open>A sidecar crossed with the SDFG\<close>

record crossing =
  cr_host :: "string list"
  cr_device :: "string list"
  cr_use :: "string list"
  cr_bad :: "string list"

definition cross_step ::
  "acc_residency \<Rightarrow> (string \<times> residency) list \<Rightarrow> string list \<Rightarrow> crossing \<Rightarrow> string \<Rightarrow> crossing" where
  "cross_step r storage written c arg =
     (let side = (case map_of (ar_args r) arg of None \<Rightarrow> HOST | Some s \<Rightarrow> s);
          st = the (map_of storage arg) in
      if side = DEVICE \<and> st = HOST then
        c\<lparr>cr_host := cr_host c @ [arg],
          cr_device := (if arg \<in> set written then cr_device c @ [arg] else cr_device c)\<rparr>
      else if side = DEVICE \<and> st = DEVICE then c\<lparr>cr_use := cr_use c @ [arg]\<rparr>
      else if side = HOST \<and> st = DEVICE then c\<lparr>cr_bad := cr_bad c @ [arg]\<rparr>
      else c)"

definition buffer_args :: "sdfg \<Rightarrow> string list \<Rightarrow> string list" where
  "buffer_args g arg_order = filter (\<lambda>a. \<not> is_scalar_arg g a (sdfg_containers_for_arg g a)) arg_order"

definition plan_acc_transfers :: "sdfg \<Rightarrow> acc_residency \<Rightarrow> string list \<Rightarrow> acc_error + acc_plan" where
  "plan_acc_transfers g r arg_order =
     (let buffers = buffer_args g arg_order;
          missing = filter (\<lambda>a. map_of (ar_args r) a = None \<and> a \<notin> set (ar_unclassified r)) buffers;
          stuck = (if has_device_args r then filter (\<lambda>a. a \<in> set (ar_unclassified r)) buffers else []) in
      if missing \<noteq> [] \<or> stuck \<noteq> [] then Inl (CannotApply missing stuck)
      else
        rbind (validate_acc_mappability g r arg_order) (\<lambda>_.
        rbind (rmap (\<lambda>a. rbind (arg_storage g a (sdfg_containers_for_arg g a)) (\<lambda>s. Inr (a, s))) buffers) (\<lambda>storage.
        let written = written_args g (map (\<lambda>a. (a, sdfg_containers_for_arg g a)) buffers);
            c = foldl (cross_step r storage written) \<lparr>cr_host = [], cr_device = [], cr_use = [], cr_bad = []\<rparr> buffers in
        if cr_bad c \<noteq> [] then Inl (NoTransfer (cr_bad c))
        else Inr (empty_plan\<lparr>update_host := cr_host c, update_device := cr_device c, use_device := cr_use c,
               storage_side := storage\<rparr>))))"

section \<open>Host caller, offloaded SDFG\<close>

definition by_clause :: "string \<Rightarrow> frozen_arg list \<Rightarrow> string list" where
  "by_clause clause as = map fa_sdfg_name (filter (\<lambda>a. acc_data_clause a = clause) as)"

definition plan_frozen_transfers :: "frozen_signature \<Rightarrow> acc_plan" where
  "plan_frozen_transfers s =
     empty_plan\<lparr>use_device := map fa_sdfg_name (filter (\<lambda>a. acc_data_clause a \<noteq> []) (fs_args s)),
       copyin := by_clause ''copyin'' (fs_args s), copyout := by_clause ''copyout'' (fs_args s),
       copy := by_clause ''copy'' (fs_args s),
       storage_side := foldl (\<lambda>d a. AList.update (fa_sdfg_name a) (if acc_data_clause a \<noteq> [] then DEVICE else HOST) d) []
         (filter (\<lambda>a. fa_kind a = ARRAY) (fs_args s))\<rparr>"

section \<open>Device-resident caller\<close>

definition host_buffer_clause :: "frozen_arg \<Rightarrow> string" where
  "host_buffer_clause a =
     (let intent = lower (fa_intent a) in
      if intent = ''in'' \<and> \<not> fa_is_written a then ''copyin''
      else if intent = ''out'' then ''copyout'' else ''copy'')"

definition stage_buffer :: "frozen_arg \<Rightarrow> acc_plan \<Rightarrow> acc_plan" where
  "stage_buffer a p =
     (let n = fa_sdfg_name a; c = host_buffer_clause a in
      if c = ''copyin'' then p\<lparr>copyin := copyin p @ [n]\<rparr>
      else if c = ''copyout'' then p\<lparr>copyout := copyout p @ [n]\<rparr>
      else p\<lparr>copy := copy p @ [n]\<rparr>)"

record lane_sets =
  ls_orphan :: "string set"
  ls_image :: "string set"
  ls_device_image :: "string set"
  ls_recipes :: "(string \<times> recipe) list"
  ls_guarded :: "recipe \<Rightarrow> bool"

definition lane_sets_of :: "frozen_signature \<Rightarrow> original_interface \<Rightarrow> flatten_plan \<Rightarrow> lane_sets" where
  "lane_sets_of s iface p =
     (let synthetic = sg_sdfg_name ` set (fp_synthetic_globals p) in
      \<lparr>ls_orphan = (fa_sdfg_name \<circ> fst) ` set (orphan_module_args s iface p) - synthetic,
       ls_image = fa_sdfg_name ` set (aos_module_args s) \<union> synthetic,
       ls_device_image = fa_sdfg_name ` set (filter (\<lambda>a. fa_rank a > aos_lead a \<and> \<not> aos_member_is_static a \<and>
         \<not> fa_global_alloc_inside a) (aos_module_args s)),
       ls_recipes = foldl (\<lambda>d (f, r). AList.update f r d) []
         (concat (map (\<lambda>e. map (\<lambda>f. (f, fe_recipe e)) (flat_names (fe_recipe e))) (live_entries s p))),
       ls_guarded = (\<lambda>r. recipe_presence_guard iface r \<noteq> [])\<rparr>)"

definition lane_step :: "sdfg \<Rightarrow> lane_sets \<Rightarrow> acc_plan \<Rightarrow> frozen_arg \<Rightarrow> acc_plan" where
  "lane_step g ls p a =
     (let n = fa_sdfg_name a in
      if fa_kind a \<noteq> ARRAY then p
      else if (case map_of (sd_arrays g) n of None \<Rightarrow> True | Some d \<Rightarrow> d_storage d \<notin> set GPU_STORAGE)
      then p\<lparr>storage_side := AList.update n HOST (storage_side p)\<rparr>
      else
        let p = p\<lparr>storage_side := AList.update n DEVICE (storage_side p)\<rparr>; rc = map_of (ls_recipes ls) n in
        if n \<in> ls_orphan ls then p\<lparr>deviceptr := deviceptr p @ [n]\<rparr>
        else
          let p =
            (if (case rc of None \<Rightarrow> False | Some r \<Rightarrow> aos_alloc r) \<or> n \<in> ls_device_image ls
             then p\<lparr>device_pack := device_pack p @ [n]\<rparr>
             else if n \<in> ls_image ls \<or> (case rc of None \<Rightarrow> False | Some r \<Rightarrow> \<not> aliasable r) then stage_buffer a p
             else case rc of
               None \<Rightarrow> p
             | Some r \<Rightarrow>
                 if ls_guarded ls r \<and> presence_scratch_name (scratch_dtype r) \<notin> set (create p)
                 then p\<lparr>create := create p @ [presence_scratch_name (scratch_dtype r)]\<rparr> else p)
          in p\<lparr>use_device := use_device p @ [n]\<rparr>)"

definition plan_device_resident_caller ::
  "sdfg \<Rightarrow> frozen_signature \<Rightarrow> original_interface \<Rightarrow> flatten_plan \<Rightarrow> acc_plan" where
  "plan_device_resident_caller g s iface p = foldl (lane_step g (lane_sets_of s iface p)) empty_plan (fs_args s)"

section \<open>Directives\<close>

fun OMP_ENTER_MAP :: "data_clause \<Rightarrow> string" where
  "OMP_ENTER_MAP COPYIN = ''to''"
| "OMP_ENTER_MAP COPY = ''to''"
| "OMP_ENTER_MAP COPYOUT = ''alloc''"
| "OMP_ENTER_MAP CREATE = ''alloc''"

fun OMP_EXIT_MAP :: "data_clause \<Rightarrow> string" where
  "OMP_EXIT_MAP COPYIN = ''release''"
| "OMP_EXIT_MAP COPY = ''from''"
| "OMP_EXIT_MAP COPYOUT = ''from''"
| "OMP_EXIT_MAP CREATE = ''release''"

definition render_data_open :: "acc_plan \<Rightarrow> string \<Rightarrow> directive \<Rightarrow> string list" where
  "render_data_open p indent d =
     (let pairs = data_region p in
      if pairs = [] then []
      else if d = OPENMP then
        map (\<lambda>(c, n). concat [indent, ''!$omp target enter data map('', OMP_ENTER_MAP c, '': '', n, '')'']) pairs
      else
        [concat [indent, ''!$ACC DATA &'']] @
        map (\<lambda>(c, n). concat [indent, ''!$ACC   '', clause_text c, ''('', n, '') &'']) (butlast pairs) @
        [(case last pairs of (c, n) \<Rightarrow> concat [indent, ''!$ACC   '', clause_text c, ''('', n, '')''])])"

definition render_data_close :: "acc_plan \<Rightarrow> string \<Rightarrow> directive \<Rightarrow> string list" where
  "render_data_close p indent d =
     (let pairs = data_region p in
      if pairs = [] then []
      else if d = OPENMP then
        map (\<lambda>(c, n). concat [indent, ''!$omp target exit data map('', OMP_EXIT_MAP c, '': '', n, '')'']) pairs
      else [concat [indent, ''!$ACC END DATA'']])"

definition acc_directive :: "string \<Rightarrow> string list \<Rightarrow> string \<Rightarrow> string list" where
  "acc_directive keyword names indent =
     map (\<lambda>n. concat [indent, ''!$ACC '', keyword, ''('', n, '') ASYNC('', str_nat ACC_QUEUE, '')'']) names"

definition render_pre_call :: "acc_plan \<Rightarrow> string \<Rightarrow> directive \<Rightarrow> string list" where
  "render_pre_call p indent d =
     (if d = OPENMP then map (\<lambda>n. concat [indent, ''!$omp target update from('', n, '')'']) (update_host p)
      else acc_directive ''UPDATE HOST'' (update_host p) indent)"

definition render_post_call :: "acc_plan \<Rightarrow> string \<Rightarrow> directive \<Rightarrow> string list" where
  "render_post_call p indent d =
     (if d = OPENMP then map (\<lambda>n. concat [indent, ''!$omp target update to('', n, '')'']) (update_device p)
      else acc_directive ''UPDATE DEVICE'' (update_device p) indent)"

definition render_host_data_open :: "acc_plan \<Rightarrow> string \<Rightarrow> directive \<Rightarrow> string list" where
  "render_host_data_open p indent d =
     (case use_device p of
        [] \<Rightarrow> []
      | n # ns \<Rightarrow>
          if d = OPENMP then
            if ns = [] then [concat [indent, ''!$omp target data use_device_addr('', n, '')'']]
            else [concat [indent, ''!$omp target data use_device_addr('', n, '', &'']] @
              map (\<lambda>m. concat [indent, ''!$omp&   '', m, '', &'']) (butlast ns) @
              [concat [indent, ''!$omp&   '', last ns, '')'']]
          else [concat [indent, ''!$ACC HOST_DATA USE_DEVICE('', join '', '' (n # ns), '')'']])"

definition render_host_data_close :: "acc_plan \<Rightarrow> string \<Rightarrow> directive \<Rightarrow> string list" where
  "render_host_data_close p indent d =
     (if use_device p = [] then []
      else if d = OPENMP then [concat [indent, ''!$omp end target data'']]
      else [concat [indent, ''!$ACC END HOST_DATA'']])"

definition render_sync :: "acc_plan \<Rightarrow> string \<Rightarrow> directive \<Rightarrow> string list" where
  "render_sync p indent d =
     (if d = OPENMP then []
      else if plan_active p then [concat [indent, ''!$ACC WAIT('', str_nat ACC_QUEUE, '')'']] else [])"

section \<open>Splicing the staging into the wrapper\<close>

definition ACC_INDENT :: string where "ACC_INDENT = ''    ''"

definition build_acc_staging :: "acc_plan option \<Rightarrow> directive \<Rightarrow> string list \<times> string list" where
  "build_acc_staging plan d =
     (case plan of
        None \<Rightarrow> ([], [])
      | Some p \<Rightarrow>
          if \<not> plan_active p then ([], [])
          else (render_sync p ACC_INDENT d @ render_pre_call p ACC_INDENT d,
                render_post_call p ACC_INDENT d @ render_sync p ACC_INDENT d))"

text \<open>\<open>next(i for i, ln in enumerate(lines) if ...)\<close>.\<close>

fun first_index :: "(string \<Rightarrow> bool) \<Rightarrow> string list \<Rightarrow> nat py" where
  "first_index P [] = Inl StopIteration"
| "first_index P (l # ls) = (if P l then Inr 0 else rbind (first_index P ls) (\<lambda>i. Inr (Suc i)))"

text \<open>The last line of a continued statement that starts the list.\<close>

fun statement_end :: "string list \<Rightarrow> nat py" where
  "statement_end [] = Inl IndexError"
| "statement_end (l # ls) =
     (if endswith (rstrip l) ''&'' then rbind (statement_end ls) (\<lambda>i. Inr (Suc i)) else Inr 0)"

definition wrap_call :: "string \<Rightarrow> string list \<Rightarrow> string list \<Rightarrow> string list \<Rightarrow> string list py" where
  "wrap_call entry call_open call_close tail =
     (if call_open = [] then Inr tail
      else
        rbind (first_index (\<lambda>ln. startswith (lstrip ln) (concat [''call dace_program_'', entry, ''('']) ) tail) (\<lambda>at.
        rbind (statement_end (drop at tail)) (\<lambda>k.
          Inr (take at tail @ call_open @ take (k + 1) (drop at tail) @ call_close @ drop (at + k + 1) tail))))"

definition add_post :: "string \<Rightarrow> string list \<Rightarrow> string list \<Rightarrow> string list py" where
  "add_post entry post_block tail =
     rbind (first_index (\<lambda>ln. strip ln = concat [''end subroutine '', entry, ''_dace'']) tail) (\<lambda>at.
       Inr (take at tail @ post_block @ drop at tail))"

definition splice_body :: "string \<Rightarrow> string list \<Rightarrow> (string \<times> string) list \<Rightarrow> (string \<times> string) list py" where
  "splice_body language pre blocks =
     (if pre = [] then Inr blocks else
      rbind (of_option (KeyError ''wrapper_body'') (map_of blocks ''wrapper_body'')) (\<lambda>body.
      Inr (AList.update ''wrapper_body''
        (join [LF] ([concat [ACC_INDENT, ''! ----- '', language, '' staging (device -> host) -----'']] @ pre @ [[]]) @ body)
        blocks)))"

definition splice_tail ::
  "string \<Rightarrow> string \<Rightarrow> string list \<Rightarrow> string list \<Rightarrow> string list \<Rightarrow> string list \<Rightarrow> string list py" where
  "splice_tail entry language call_open call_close post tail =
     rbind (wrap_call entry call_open call_close tail) (\<lambda>ls.
     if post = [] then Inr ls else
     add_post entry ([concat [ACC_INDENT, ''! ----- '', language, '' staging (host -> device) -----'']] @ post) ls)"

definition splice_acc_staging ::
  "(string \<times> string) list \<Rightarrow> string \<Rightarrow> acc_plan option \<Rightarrow> directive \<Rightarrow> (string \<times> string) list py" where
  "splice_acc_staging blocks entry plan d =
     (case plan of
        None \<Rightarrow> Inr blocks
      | Some p \<Rightarrow>
          if \<not> plan_active p then Inr blocks
          else
            let language = (if d = OPENMP then ''OpenMP'' else ''OpenACC'') in
            rbind (splice_body language (fst (build_acc_staging plan d)) blocks) (\<lambda>out.
            rbind (of_option (KeyError ''wrapper_tail'') (map_of out ''wrapper_tail'')) (\<lambda>tail.
            rbind (splice_tail entry language
                     (render_data_open p ACC_INDENT d @ render_host_data_open p ACC_INDENT d)
                     (render_host_data_close p ACC_INDENT d @ render_data_close p ACC_INDENT d)
                     (snd (build_acc_staging plan d)) (splitlines tail)) (\<lambda>ls.
              Inr (AList.update ''wrapper_tail'' (join [LF] ls) out)))))"

section \<open>Lemmas\<close>

definition icon_side :: "acc_residency \<Rightarrow> string \<Rightarrow> residency" where
  "icon_side r a = (case map_of (ar_args r) a of None \<Rightarrow> HOST | Some s \<Rightarrow> s)"

lemma cross_foldl:
  "foldl (cross_step r st w) c xs =
   \<lparr>cr_host = cr_host c @ filter (\<lambda>a. icon_side r a = DEVICE \<and> the (map_of st a) = HOST) xs,
    cr_device = cr_device c @ filter (\<lambda>a. icon_side r a = DEVICE \<and> the (map_of st a) = HOST \<and> a \<in> set w) xs,
    cr_use = cr_use c @ filter (\<lambda>a. icon_side r a = DEVICE \<and> the (map_of st a) = DEVICE) xs,
    cr_bad = cr_bad c @ filter (\<lambda>a. icon_side r a = HOST \<and> the (map_of st a) = DEVICE) xs\<rparr>"
proof (induction xs arbitrary: c)
  case (Cons a xs)
  have "cross_step r st w c a =
    \<lparr>cr_host = cr_host c @ (if icon_side r a = DEVICE \<and> the (map_of st a) = HOST then [a] else []),
     cr_device = cr_device c @ (if icon_side r a = DEVICE \<and> the (map_of st a) = HOST \<and> a \<in> set w then [a] else []),
     cr_use = cr_use c @ (if icon_side r a = DEVICE \<and> the (map_of st a) = DEVICE then [a] else []),
     cr_bad = cr_bad c @ (if icon_side r a = HOST \<and> the (map_of st a) = DEVICE then [a] else [])\<rparr>"
    by (cases "icon_side r a"; cases "the (map_of st a)")
      (simp_all add: cross_step_def Let_def icon_side_def [symmetric])
  then show ?case by (simp add: Cons)
qed simp

definition side_of :: "sdfg \<Rightarrow> string \<Rightarrow> residency option" where
  "side_of g a = (case arg_storage g a (sdfg_containers_for_arg g a) of Inl _ \<Rightarrow> None | Inr s \<Rightarrow> Some s)"

lemma storage_rmap:
  "rmap (\<lambda>a. rbind (arg_storage g a (sdfg_containers_for_arg g a)) (\<lambda>s. Inr (a, s))) bs = Inr st \<longleftrightarrow>
   (\<forall>a \<in> set bs. side_of g a \<noteq> None) \<and> st = map (\<lambda>a. (a, the (side_of g a))) bs"
proof (induction bs arbitrary: st)
  case (Cons a bs)
  show ?case
    by (cases "arg_storage g a (sdfg_containers_for_arg g a)") (auto simp: Cons rbind_Inr_iff side_of_def)
qed auto

lemma map_of_side: "a \<in> set bs \<Longrightarrow> map_of (map (\<lambda>a. (a, f a)) bs) a = Some (f a)"
  by (induction bs) auto

text \<open>What the crossing needs of the arguments that reach the SDFG as buffers.\<close>

definition decidable :: "sdfg \<Rightarrow> acc_residency \<Rightarrow> string list \<Rightarrow> bool" where
  "decidable g r ord \<longleftrightarrow>
     (\<forall>a \<in> set (buffer_args g ord).
        (map_of (ar_args r) a \<noteq> None \<or> a \<in> set (ar_unclassified r)) \<and>
        (has_device_args r \<longrightarrow> a \<notin> set (ar_unclassified r)) \<and>
        side_of g a \<noteq> None \<and> \<not> (icon_side r a = HOST \<and> side_of g a = Some DEVICE)) \<and>
     (\<forall>a \<in> set ord. arg_problems g r a = [])"

lemma validate_iff: "validate_acc_mappability g r ord = Inr () \<longleftrightarrow> (\<forall>a \<in> set ord. arg_problems g r a = [])"
  by (auto simp: validate_acc_mappability_def Let_def)

lemma plan_Inr_iff:
  "plan_acc_transfers g r ord = Inr p \<longleftrightarrow>
     decidable g r ord \<and>
     p = empty_plan
       \<lparr>update_host := filter (\<lambda>a. icon_side r a = DEVICE \<and> side_of g a = Some HOST) (buffer_args g ord),
        update_device := filter (\<lambda>a. icon_side r a = DEVICE \<and> side_of g a = Some HOST \<and>
          list_ex (\<lambda>n. n \<in> set (sd_written g)) (sdfg_containers_for_arg g a)) (buffer_args g ord),
        use_device := filter (\<lambda>a. icon_side r a = DEVICE \<and> side_of g a = Some DEVICE) (buffer_args g ord),
        storage_side := map (\<lambda>a. (a, the (side_of g a))) (buffer_args g ord)\<rparr>"
proof -
  let ?B = "buffer_args g ord"
  let ?st = "map (\<lambda>a. (a, the (side_of g a))) ?B"
  let ?w = "written_args g (map (\<lambda>a. (a, sdfg_containers_for_arg g a)) ?B)"
  have w: "a \<in> set ?w \<longleftrightarrow> list_ex (\<lambda>n. n \<in> set (sd_written g)) (sdfg_containers_for_arg g a)" if "a \<in> set ?B" for a
    using that by (force simp: written_args_def)
  have st: "the (map_of ?st a) = x \<longleftrightarrow> side_of g a = Some x" if "a \<in> set ?B" "\<forall>a \<in> set ?B. side_of g a \<noteq> None" for a x
    using that by (auto simp: map_of_side)
  let ?c = "foldl (cross_step r ?st ?w) \<lparr>cr_host = [], cr_device = [], cr_use = [], cr_bad = []\<rparr> ?B"
  show ?thesis
  proof (cases "(\<forall>a \<in> set ?B. (map_of (ar_args r) a \<noteq> None \<or> a \<in> set (ar_unclassified r)) \<and>
        (has_device_args r \<longrightarrow> a \<notin> set (ar_unclassified r)) \<and> side_of g a \<noteq> None) \<and>
      (\<forall>a \<in> set ord. arg_problems g r a = [])")
    case True
    then have sides: "\<forall>a \<in> set ?B. side_of g a \<noteq> None" by blast
    note st = st [OF _ sides]
    have m: "filter (\<lambda>a. map_of (ar_args r) a = None \<and> a \<notin> set (ar_unclassified r)) ?B = []"
      using True by (auto simp: filter_empty_conv)
    have k: "(if has_device_args r then filter (\<lambda>a. a \<in> set (ar_unclassified r)) ?B else []) = []"
      using True by (auto simp: filter_empty_conv)
    have v: "validate_acc_mappability g r ord = Inr ()" using True by (simp add: validate_iff)
    have rm: "rmap (\<lambda>a. rbind (arg_storage g a (sdfg_containers_for_arg g a)) (\<lambda>s. Inr (a, s))) ?B = Inr ?st"
      using sides by (simp add: storage_rmap)
    have "plan_acc_transfers g r ord = (if cr_bad ?c \<noteq> [] then Inl (NoTransfer (cr_bad ?c))
        else Inr (empty_plan\<lparr>update_host := cr_host ?c, update_device := cr_device ?c, use_device := cr_use ?c,
               storage_side := ?st\<rparr>))"
      unfolding plan_acc_transfers_def Let_def m k v rm rbind_simps by simp
    moreover have "cr_bad ?c = [] \<longleftrightarrow> decidable g r ord"
      using True by (auto simp: cross_foldl decidable_def filter_empty_conv st)
    moreover have "cr_host ?c = filter (\<lambda>a. icon_side r a = DEVICE \<and> side_of g a = Some HOST) ?B"
      "cr_use ?c = filter (\<lambda>a. icon_side r a = DEVICE \<and> side_of g a = Some DEVICE) ?B"
      "cr_device ?c = filter (\<lambda>a. icon_side r a = DEVICE \<and> side_of g a = Some HOST \<and>
          list_ex (\<lambda>n. n \<in> set (sd_written g)) (sdfg_containers_for_arg g a)) ?B"
      by (auto simp: cross_foldl st w intro!: filter_cong)
    ultimately show ?thesis by auto
  next
    case False
    then have "\<not> decidable g r ord" by (auto simp: decidable_def)
    moreover have "plan_acc_transfers g r ord \<noteq> Inr p"
    proof
      assume p: "plan_acc_transfers g r ord = Inr p"
      then have "\<forall>a \<in> set ?B. map_of (ar_args r) a \<noteq> None \<or> a \<in> set (ar_unclassified r)"
        "has_device_args r \<longrightarrow> (\<forall>a \<in> set ?B. a \<notin> set (ar_unclassified r))"
        "validate_acc_mappability g r ord = Inr ()"
        "\<exists>st. rmap (\<lambda>a. rbind (arg_storage g a (sdfg_containers_for_arg g a)) (\<lambda>s. Inr (a, s))) ?B = Inr st"
        unfolding plan_acc_transfers_def Let_def
        by (auto simp: rbind_Inr_iff filter_empty_conv split: if_splits)
      with False show False by (auto simp: validate_iff storage_rmap)
    qed
    ultimately show ?thesis by simp
  qed
qed

section \<open>Regions around the call\<close>

text \<open>
  A directive region of a plan: it is closed exactly when it is opened. Regions nest, and the nest of
  two regions is again one.
\<close>

locale region =
  fixes opn cls :: "acc_plan \<Rightarrow> directive \<Rightarrow> string list"
  assumes paired: "opn p d = [] \<longleftrightarrow> cls p d = []"
begin

definition around :: "acc_plan \<Rightarrow> directive \<Rightarrow> string list \<Rightarrow> string list" where
  "around p d body = opn p d @ body @ cls p d"

lemma around_idle: "opn p d = [] \<Longrightarrow> around p d body = body"
  using paired by (simp add: around_def)

end

locale nested_regions = outer: region opn1 cls1 + inner: region opn2 cls2
  for opn1 cls1 opn2 cls2 :: "acc_plan \<Rightarrow> directive \<Rightarrow> string list"
begin

lemma nested_paired: "opn1 p d @ opn2 p d = [] \<longleftrightarrow> cls2 p d @ cls1 p d = []"
  using outer.paired inner.paired by auto

end

sublocale nested_regions \<subseteq> both: region "\<lambda>p d. opn1 p d @ opn2 p d" "\<lambda>p d. cls2 p d @ cls1 p d"
  by unfold_locales (rule nested_paired)

context nested_regions
begin

lemma both_around: "both.around p d body = outer.around p d (inner.around p d body)"
  by (simp add: both.around_def outer.around_def inner.around_def)

end

interpretation staging: nested_regions
  "\<lambda>p. render_data_open p ACC_INDENT" "\<lambda>p. render_data_close p ACC_INDENT"
  "\<lambda>p. render_host_data_open p ACC_INDENT" "\<lambda>p. render_host_data_close p ACC_INDENT"
proof
  show "render_data_open p ACC_INDENT d = [] \<longleftrightarrow> render_data_close p ACC_INDENT d = []" for p d
    by (simp add: render_data_open_def render_data_close_def Let_def)
  show "render_host_data_open p ACC_INDENT d = [] \<longleftrightarrow> render_host_data_close p ACC_INDENT d = []" for p d
    by (simp add: render_host_data_open_def render_host_data_close_def split: list.split)
qed

lemma first_index_Inr:
  "first_index P ls = Inr i \<Longrightarrow> i < length ls \<and> P (ls ! i) \<and> (\<forall>j < i. \<not> P (ls ! j))"
proof (induction ls arbitrary: i)
  case (Cons l ls)
  show ?case
  proof (cases "P l")
    case False
    with Cons obtain k where "first_index P ls = Inr k" "i = Suc k" by (auto simp: rbind_Inr_iff)
    with Cons.IH [of k] False show ?thesis by (auto simp: less_Suc_eq_0_disj)
  qed (use Cons in auto)
qed simp

text \<open>A statement with its continuation lines.\<close>

definition statement_lines :: "string list \<Rightarrow> bool" where
  "statement_lines ls =
     (ls \<noteq> [] \<and> list_all (\<lambda>l. endswith (rstrip l) ''&'') (butlast ls) \<and> \<not> endswith (rstrip (last ls)) ''&'')"

lemma statement_end_Inr: "statement_end ls = Inr k \<Longrightarrow> k < length ls \<and> statement_lines (take (Suc k) ls)"
proof (induction ls arbitrary: k)
  case (Cons l ls)
  show ?case
  proof (cases "endswith (rstrip l) ''&''")
    case True
    with Cons obtain j where j: "statement_end ls = Inr j" "k = Suc j" by (auto simp: rbind_Inr_iff)
    with Cons.IH [of j] have "j < length ls" "statement_lines (take (Suc j) ls)" by auto
    then show ?thesis using True j by (auto simp: statement_lines_def)
  next
    case False
    with Cons show ?thesis by (simp add: statement_lines_def)
  qed
qed simp

lemma wrap_call_Inr:
  assumes "wrap_call entry opn cls tail = Inr ls" and "opn \<noteq> []"
  shows "\<exists>pre call post. tail = pre @ call @ post \<and> ls = pre @ opn @ call @ cls @ post \<and> statement_lines call \<and>
    startswith (lstrip (hd call)) (concat [''call dace_program_'', entry, ''('']) \<and>
    (\<forall>l \<in> set pre. \<not> startswith (lstrip l) (concat [''call dace_program_'', entry, ''('']))"
proof -
  let ?P = "\<lambda>ln. startswith (lstrip ln) (concat [''call dace_program_'', entry, ''(''])"
  from assms obtain i k where i: "first_index ?P tail = Inr i" and k: "statement_end (drop i tail) = Inr k"
    and ls: "ls = take i tail @ opn @ take (k + 1) (drop i tail) @ cls @ drop (i + k + 1) tail"
    by (auto simp: wrap_call_def rbind_Inr_iff)
  note fi = first_index_Inr [OF i] and se = statement_end_Inr [OF k]
  have "tail = take i tail @ take (k + 1) (drop i tail) @ drop (i + k + 1) tail"
    by (metis (no_types, lifting) add.assoc add.commute append_take_drop_id drop_drop)
  moreover have "?P (hd (take (k + 1) (drop i tail)))"
    using fi by (simp add: hd_take hd_drop_conv_nth)
  moreover have "\<forall>l \<in> set (take i tail). \<not> ?P l"
    using fi by (auto simp: in_set_conv_nth)
  ultimately show ?thesis
    unfolding ls using se
    by (intro exI [of _ "take i tail"] exI [of _ "take (k + 1) (drop i tail)"]
        exI [of _ "drop (i + k + 1) tail"]) auto
qed

lemma splice_tail_Inr:
  assumes "splice_tail entry lang opn cls post tail = Inr ls'"
  shows "\<exists>ls xs block ys. wrap_call entry opn cls tail = Inr ls \<and> ls = xs @ ys \<and> ls' = xs @ block @ ys \<and>
    (block = [] \<longleftrightarrow> post = [])"
proof (cases "post = []")
  case True
  with assms show ?thesis by (auto simp: splice_tail_def rbind_Inr_iff)
next
  case False
  let ?b = "[concat [ACC_INDENT, ''! ----- '', lang, '' staging (host -> device) -----'']] @ post"
  from assms False obtain ls where w: "wrap_call entry opn cls tail = Inr ls" and a: "add_post entry ?b ls = Inr ls'"
    by (auto simp only: splice_tail_def rbind_Inr_iff if_False)
  from a obtain i where "ls' = take i ls @ ?b @ drop i ls" by (auto simp: add_post_def rbind_Inr_iff)
  with w False show ?thesis
    by (intro exI [of _ ls] exI [of _ "take i ls"] exI [of _ ?b] exI [of _ "drop i ls"]) simp
qed

section \<open>Properties\<close>

text \<open>The crossing of a sidecar with an SDFG succeeds exactly when every argument that reaches the SDFG as
  a buffer is decidable: it is named by the sidecar (and, when the routine has device arguments, not
  left unclassified), all its containers are on one side, it is not host data behind GPU storage, and
  every device entity resolves to a flat argument. Everything else raises.\<close>

theorem plan_defined_iff_decidable: "is_ok (plan_acc_transfers g r ord) \<longleftrightarrow> decidable g r ord"
  by (auto simp: is_ok_iff plan_Inr_iff)


definition ex_gpu_sdfg :: sdfg where
  "ex_gpu_sdfg = ex_sdfg\<lparr>sd_arrays := [(''u'', ex_desc ''float64'' ''CPU_Heap''), (''u_old'', ex_desc ''float64'' ''GPU_Global''),
     (''p_vt'', ex_desc ''float64'' ''CPU_Heap'')], sd_written := [''p_vt'']\<rparr>"

definition ex_residency :: "(string \<times> residency) list \<Rightarrow> acc_residency" where
  "ex_residency args = \<lparr>ar_routine = ''k'', ar_source = ''k.f90'', ar_args = args, ar_unclassified = [],
     ar_refs = [(''p'', [''p%vt(:, :, jb)''])]\<rparr>"

lemma ex_plan_p:
  "plan_acc_transfers ex_gpu_sdfg (ex_residency [(''p'', DEVICE)]) [''p''] =
     Inr (empty_plan\<lparr>update_host := [''p''], update_device := [''p''], storage_side := [(''p'', HOST)]\<rparr>)"
  by code_simp


text \<open>The containers of an argument are found by name prefix alone, so another argument whose name extends
  it with an underscore is taken for a member of it: with \<open>u\<close> on the host on both sides and \<open>u_old\<close> on the
  device on both sides, a call that needs no staging at all for \<open>u\<close> is refused for mixed storage.\<close>

theorem container_prefix_clash:
  "sdfg_containers_for_arg ex_gpu_sdfg ''u'' = [''u'', ''u_old''] \<and>
   plan_acc_transfers ex_gpu_sdfg (ex_residency [(''u'', HOST), (''u_old'', DEVICE)]) [''u'', ''u_old''] =
     Inl (MixedStorage ''u'')"
  by code_simp

lemma clause_cases: "acc_data_clause a \<in> {[], ''copyin'', ''copyout'', ''copy''}"
  by (auto simp: acc_data_clause_def Let_def)

text \<open>The standalone plan stages every relocated buffer once: the names in the data region's clauses are
  exactly (with multiplicity) those handed over as device addresses, and only a buffer the kernel may
  write is copied back.\<close>

theorem frozen_plan_stages_once:
  "mset (map snd (data_region (plan_frozen_transfers s))) = mset (use_device (plan_frozen_transfers s)) \<and>
   (\<forall>a \<in> set (fs_args s). lower (fa_intent a) = ''in'' \<and> \<not> fa_is_written a \<longrightarrow>
      (\<forall>c. acc_data_clause a = c \<longrightarrow> c = [] \<or> c = ''copyin''))"
proof
  have region: "map snd (data_region (plan_frozen_transfers s)) =
      by_clause ''copyin'' (fs_args s) @ by_clause ''copy'' (fs_args s) @ by_clause ''copyout'' (fs_args s)"
    by (simp add: data_region_def plan_frozen_transfers_def empty_plan_def comp_def)
  have "mset (by_clause ''copyin'' as @ by_clause ''copy'' as @ by_clause ''copyout'' as) =
      mset (map fa_sdfg_name (filter (\<lambda>a. acc_data_clause a \<noteq> []) as))" for as
  proof (induction as)
    case (Cons a as)
    with clause_cases [of a] show ?case by (auto simp: by_clause_def)
  qed (simp add: by_clause_def)
  then show "mset (map snd (data_region (plan_frozen_transfers s))) = mset (use_device (plan_frozen_transfers s))"
    unfolding region by (simp add: plan_frozen_transfers_def)
qed (auto simp: acc_data_clause_def Let_def)

theorem frozen_plan_stages_once_witness:
  "mset (map snd (data_region (plan_frozen_transfers (refrozen ex_sig ex_sdfg)))) = {#''u''#}"
proof -
  have "use_device (plan_frozen_transfers (refrozen ex_sig ex_sdfg)) = [''u'']" by code_simp
  with frozen_plan_stages_once [of "refrozen ex_sig ex_sdfg"] show ?thesis by simp
qed

lemma stage_buffer_simps [simp]:
  "use_device (stage_buffer a p) = use_device p" "deviceptr (stage_buffer a p) = deviceptr p"
  "device_pack (stage_buffer a p) = device_pack p" "create (stage_buffer a p) = create p"
  "set (copyin (stage_buffer a p)) \<union> set (copy (stage_buffer a p)) \<union> set (copyout (stage_buffer a p)) =
     insert (fa_sdfg_name a) (set (copyin p) \<union> set (copy p) \<union> set (copyout p))"
  by (auto simp: stage_buffer_def Let_def)

definition on_gpu :: "sdfg \<Rightarrow> frozen_arg \<Rightarrow> bool" where
  "on_gpu g a = (fa_kind a = ARRAY \<and>
     (case map_of (sd_arrays g) (fa_sdfg_name a) of None \<Rightarrow> False | Some d \<Rightarrow> d_storage d \<in> set GPU_STORAGE))"

definition staged :: "acc_plan \<Rightarrow> string set" where
  "staged p = set (device_pack p) \<union> (set (copyin p) \<union> set (copy p) \<union> set (copyout p))"

lemma staged_simps [simp]:
  "staged (p\<lparr>storage_side := st\<rparr>) = staged p" "staged (p\<lparr>use_device := us\<rparr>) = staged p"
  "staged (p\<lparr>deviceptr := us\<rparr>) = staged p" "staged (p\<lparr>create := us\<rparr>) = staged p"
  "staged (p\<lparr>device_pack := device_pack p @ [n]\<rparr>) = insert n (staged p)"
  "staged (stage_buffer a p) = insert (fa_sdfg_name a) (staged p)"
  using stage_buffer_simps(5) [of a p] by (auto simp: staged_def)

lemma lane_step_sets:
  "set (deviceptr (lane_step g ls p a)) = set (deviceptr p) \<union>
     (if on_gpu g a \<and> fa_sdfg_name a \<in> ls_orphan ls then {fa_sdfg_name a} else {})"
  "set (use_device (lane_step g ls p a)) = set (use_device p) \<union>
     (if on_gpu g a \<and> fa_sdfg_name a \<notin> ls_orphan ls then {fa_sdfg_name a} else {})"
  by (auto simp: lane_step_def Let_def on_gpu_def split: option.splits)

lemma lane_step_staged:
  "staged (lane_step g ls p a) \<subseteq> staged p \<union>
     (if on_gpu g a \<and> fa_sdfg_name a \<notin> ls_orphan ls then {fa_sdfg_name a} else {})"
  using staged_simps(5) [of "p\<lparr>storage_side := _\<rparr>" "fa_sdfg_name a"]
  by (auto simp: lane_step_def Let_def on_gpu_def split: option.splits)

lemma lane_foldl:
  fixes ls defines "ok \<equiv> \<lambda>g a. on_gpu g a \<and> fa_sdfg_name a \<notin> ls_orphan ls"
  shows "set (deviceptr (foldl (lane_step g ls) p as)) =
      set (deviceptr p) \<union> fa_sdfg_name ` {a \<in> set as. on_gpu g a \<and> fa_sdfg_name a \<in> ls_orphan ls} \<and>
    set (use_device (foldl (lane_step g ls) p as)) = set (use_device p) \<union> fa_sdfg_name ` {a \<in> set as. ok g a} \<and>
    staged (foldl (lane_step g ls) p as) \<subseteq> staged p \<union> fa_sdfg_name ` {a \<in> set as. ok g a}"
proof (induction as arbitrary: p)
  case (Cons a as)
  have split: "{x \<in> set (a # as). P x} = (if P a then {a} else {}) \<union> {x \<in> set as. P x}" for P by auto
  from Cons [of "lane_step g ls p a"] lane_step_staged [of g ls p a] show ?case
    unfolding split foldl.simps lane_step_sets
    by (cases "ok g a"; cases "on_gpu g a \<and> fa_sdfg_name a \<in> ls_orphan ls") (auto simp: ok_def)
qed simp

text \<open>A device-resident caller hands over every GPU-storage array exactly one way: each array argument is
  recorded on its SDFG side; the ones in GPU storage are passed by the device address of the module
  variable or through the \<open>USE_DEVICE\<close> list, never both; what is packed on the device or staged by a
  data clause is also in that list.\<close>

theorem device_resident_one_way:
  assumes "plan_device_resident_caller g s iface p = pl"
  shows "set (deviceptr pl) \<union> set (use_device pl) = fa_sdfg_name ` {a \<in> set (fs_args s). on_gpu g a} \<and>
    set (deviceptr pl) \<inter> set (use_device pl) = {} \<and>
    set (device_pack pl) \<union> snd ` {x \<in> set (data_region pl). fst x \<noteq> CREATE} \<subseteq> set (use_device pl)"
proof -
  let ?ls = "lane_sets_of s iface p"
  have pl: "pl = foldl (lane_step g ?ls) empty_plan (fs_args s)"
    using assms by (simp add: plan_device_resident_caller_def)
  have d: "set (deviceptr pl) = fa_sdfg_name ` {a \<in> set (fs_args s). on_gpu g a \<and> fa_sdfg_name a \<in> ls_orphan ?ls}"
    and u: "set (use_device pl) = fa_sdfg_name ` {a \<in> set (fs_args s). on_gpu g a \<and> fa_sdfg_name a \<notin> ls_orphan ?ls}"
    and st: "staged pl \<subseteq> set (use_device pl)"
    using lane_foldl [of g ?ls empty_plan "fs_args s"] by (simp_all add: pl staged_def empty_plan_def)
  have "snd ` {x \<in> set (data_region pl). fst x \<noteq> CREATE} \<subseteq> set (copyin pl) \<union> set (copy pl) \<union> set (copyout pl)"
    by (auto simp: data_region_def)
  with st have "set (device_pack pl) \<union> snd ` {x \<in> set (data_region pl). fst x \<noteq> CREATE} \<subseteq> set (use_device pl)"
    by (auto simp: staged_def)
  moreover have "set (deviceptr pl) \<union> set (use_device pl) = fa_sdfg_name ` {a \<in> set (fs_args s). on_gpu g a}"
    unfolding d u by auto
  moreover have "set (deviceptr pl) \<inter> set (use_device pl) = {}"
    unfolding d u by auto
  ultimately show ?thesis by blast
qed

theorem device_resident_one_way_witness:
  "\<exists>pl. plan_device_resident_caller ex_sdfg ex_sig ex_iface ex_plan = pl \<and> set (deviceptr pl) \<union> set (use_device pl) = {''u''}"
proof -
  have "{a \<in> set (fs_args ex_sig). on_gpu ex_sdfg a} = {ex_arg ''u'' ARRAY ''float64''}"
    by (auto simp: on_gpu_def ex_defs GPU_STORAGE_def)
  moreover have "fa_sdfg_name (ex_arg ''u'' ARRAY ''float64'') = ''u''" by (simp add: ex_arg_def)
  ultimately show ?thesis
    using device_resident_one_way [OF refl, of ex_sdfg ex_sig ex_iface ex_plan] by auto
qed

text \<open>C6. Splicing the staging of an active plan leaves the wrapper's tail as it was but for the inserted lines:
  the data region encloses the host-data region, which encloses the whole call statement with its
  continuation lines, both are closed in the opposite order, and the copies back go in one block.\<close>

theorem splice_encloses_call:
  assumes "splice_acc_staging blocks entry (Some p) d = Inr out" and "plan_active p"
    and "render_data_open p ACC_INDENT d @ render_host_data_open p ACC_INDENT d \<noteq> []"
    and "map_of blocks ''wrapper_tail'' = Some tail"
  shows "\<exists>pre call post ls block xs ys. splitlines tail = pre @ call @ post \<and> statement_lines call \<and>
    startswith (lstrip (hd call)) (concat [''call dace_program_'', entry, ''('']) \<and>
    ls = pre @ staging.outer.around p d (staging.inner.around p d call) @ post \<and>
    ls = xs @ ys \<and> map_of out ''wrapper_tail'' = Some (join [LF] (xs @ block @ ys)) \<and>
    (block = [] \<longleftrightarrow> snd (build_acc_staging (Some p) d) = [])"
proof -
  let ?open = "render_data_open p ACC_INDENT d @ render_host_data_open p ACC_INDENT d"
  let ?close = "render_host_data_close p ACC_INDENT d @ render_data_close p ACC_INDENT d"
  let ?post = "snd (build_acc_staging (Some p) d)"
  from assms(1,2) obtain mid tail' lang ls' where mid: "splice_body lang (fst (build_acc_staging (Some p) d)) blocks = Inr mid"
    "map_of mid ''wrapper_tail'' = Some tail'" "splice_tail entry lang ?open ?close ?post (splitlines tail') = Inr ls'"
    and out: "out = AList.update ''wrapper_tail'' (join [LF] ls') mid"
    by (auto simp: splice_acc_staging_def Let_def rbind_Inr_iff of_option_def split: option.splits)
  have "map_of mid ''wrapper_tail'' = map_of blocks ''wrapper_tail''"
    using mid(1) by (auto simp: splice_body_def rbind_Inr_iff update_conv split: if_splits)
  then have "tail' = tail" using mid(2) assms(4) by simp
  with splice_tail_Inr [OF mid(3)] obtain ls xs block ys where
    w: "wrap_call entry ?open ?close (splitlines tail) = Inr ls"
    and x: "ls = xs @ ys" "ls' = xs @ block @ ys" "block = [] \<longleftrightarrow> ?post = []" by blast
  from wrap_call_Inr [OF w assms(3)] obtain pre call post where c: "splitlines tail = pre @ call @ post"
    "ls = pre @ ?open @ call @ ?close @ post" "statement_lines call"
    "startswith (lstrip (hd call)) (concat [''call dace_program_'', entry, ''(''])" by blast
  have "ls = pre @ staging.outer.around p d (staging.inner.around p d call) @ post"
    using c(2) by (simp add: staging.outer.around_def staging.inner.around_def)
  moreover have "map_of out ''wrapper_tail'' = Some (join [LF] (xs @ block @ ys))"
    by (simp add: out x(2) update_conv')
  ultimately show ?thesis using c(1,3,4) x(1,3) by blast
qed

lemma ex_splice:
  "splice_acc_staging [(''wrapper_body'', ''x''), (''wrapper_tail'', ''  call dace_program_k(h, &'' @ [LF] @ ''    u)'' @ [LF] @
       ''end subroutine k_dace'')] ''k'' (Some (empty_plan\<lparr>use_device := [''u''], copy := [''u'']\<rparr>)) OPENMP =
     Inr [(''wrapper_body'', ''x''), (''wrapper_tail'', join [LF] [''    !$omp target enter data map(to: u)'',
       ''    !$omp target data use_device_addr(u)'', ''  call dace_program_k(h, &'', ''    u)'',
       ''    !$omp end target data'', ''    !$omp target exit data map(from: u)'', ''end subroutine k_dace''])]"
  by code_simp

theorem splice_encloses_call_witness:
  "\<exists>pre call post. splitlines (''  call dace_program_k(h, &'' @ [LF] @ ''    u)'' @ [LF] @ ''end subroutine k_dace'') =
     pre @ call @ post \<and> statement_lines call"
proof -
  let ?p = "empty_plan\<lparr>use_device := [''u''], copy := [''u'']\<rparr>"
  let ?t = "''  call dace_program_k(h, &'' @ [LF] @ ''    u)'' @ [LF] @ ''end subroutine k_dace''"
  have "plan_active ?p" "render_data_open ?p ACC_INDENT OPENMP @ render_host_data_open ?p ACC_INDENT OPENMP \<noteq> []"
    by code_simp+
  moreover have "map_of [(''wrapper_body'', ''x''), (''wrapper_tail'', ?t)] ''wrapper_tail'' = Some ?t" by simp
  ultimately show ?thesis using splice_encloses_call [OF ex_splice] by blast
qed

end
