(* ===== verification/Tu_Arms.thy ===== *)
theory Tu_Arms
  imports Regex Fortran_Blocks
begin

text \<open>
  The union nest of \<open>tu.py\<close>: the two arms of a stencil, their ranges, the check that they are the
  two arms of one stencil, the guarded body over the union of the ranges and the \<open>do\<close>-nest around
  it; and the alias relation the check consults.

  A bound is text. \<open>base_offset\<close> splits it into a base expression and an integer offset, and the
  properties below read a bound as the value of its base plus that offset, for every valuation of
  the base expressions.
\<close>

section \<open>Bounds\<close>

type_synonym bounds = "string \<times> string"

datatype arms_error =
    Gap                    \<comment> \<open>literal ranges that do not meet\<close>
  | OtherBases             \<comment> \<open>the bounds have different base expressions\<close>
  | NotMirror              \<comment> \<open>the offsets are not one apart in the same direction\<close>
  | OtherDepth nat nat
  | OtherAxis nat
  | ArmIndexError

definition base_offset_re :: regex where
  "base_offset_re = seqs [Bol, Grp 1 (Star False re_dot), many re_space, Grp 2 (Cls False [(43, 43), (45, 45)]),
     many re_space, Grp 3 (some1 re_digit), many re_space, Eol]"

definition base_offset :: "string \<Rightarrow> string \<times> int" where
  "base_offset expr =
     (case re_match base_offset_re (strip expr) of
        Some m \<Rightarrow> (strip (grp0 m 1), int (nat_of_digits (grp0 m 3)) * (if grp0 m 2 = ''+'' then 1 else - 1))
      | None \<Rightarrow> (strip expr, 0))"

definition canonical_re :: regex where
  "canonical_re = seqs [Wordb, Grp 1 (Seq re_ident_start (many re_word)), Look True (chr_re CHR ''%'')]"

type_synonym aliases = "(string \<rightharpoonup> string) option"

definition canonical :: "string \<Rightarrow> aliases \<Rightarrow> string" where
  "canonical expr canon =
     (case canon of
        None \<Rightarrow> expr
      | Some d \<Rightarrow> re_sub (\<lambda>m. case d (grp0 m 1) of None \<Rightarrow> grp0 m 1 | Some t \<Rightarrow> t) canonical_re expr)"

section \<open>The union of two ranges\<close>

definition union_symbolic :: "bounds \<Rightarrow> bounds \<Rightarrow> aliases \<Rightarrow> arms_error + bounds" where
  "union_symbolic l r al =
     (let (bl_lo, of_lo) = base_offset (fst l); (bl_hi, of_hi) = base_offset (snd l);
          (br_lo, or_lo) = base_offset (fst r); (br_hi, or_hi) = base_offset (snd r);
          d_lo = of_lo - or_lo; d_hi = of_hi - or_hi in
      if (canonical bl_lo al, canonical bl_hi al) \<noteq> (canonical br_lo al, canonical br_hi al) then Inl OtherBases
      else if \<bar>d_lo\<bar> \<noteq> 1 \<or> \<bar>d_hi\<bar> \<noteq> 1 \<or> d_lo \<noteq> d_hi then Inl NotMirror
      else Inr (if d_lo > 0 then (fst r, snd l) else (fst l, snd r)))"

definition union_range :: "bounds \<Rightarrow> bounds \<Rightarrow> aliases \<Rightarrow> arms_error + bounds" where
  "union_range l r al =
     (case (py_int (fst l), py_int (fst r), py_int (snd l), py_int (snd r)) of
        (Some il, Some ir, Some jl, Some jr) \<Rightarrow>
          (if jl + 1 < ir \<or> jr + 1 < il then Inl Gap
           else Inr (if il \<le> ir then fst l else fst r, if il \<le> ir then snd l else snd r))
      | _ \<Rightarrow> union_symbolic l r al)"

section \<open>Aliases\<close>

text \<open>
  \<open>find\<close> in its loop. The chained assignment \<open>x = parent[x] = v\<close> assigns \<open>x\<close> first, so the second
  target is the entry of the new \<open>x\<close>: the loop stores \<open>parent[v] = v\<close>.
\<close>

partial_function (option) find_root ::
    "(string \<rightharpoonup> string) \<Rightarrow> string \<Rightarrow> (string \<times> (string \<rightharpoonup> string)) option" where
  "find_root parent x =
     (case parent x of
        None \<Rightarrow> Some (x, parent)
      | Some p \<Rightarrow>
          (if p = x then Some (x, parent)
           else let v = (case parent p of None \<Rightarrow> p | Some g \<Rightarrow> g) in find_root (parent(v \<mapsto> v)) v))"

text \<open>One assignment; the right-hand side \<open>find(b)\<close> is evaluated before the subscript \<open>find(a)\<close>.\<close>

definition alias_step :: "string \<times> string \<Rightarrow> (string \<rightharpoonup> string) \<Rightarrow> (string \<rightharpoonup> string) option" where
  "alias_step ab parent =
     (case ab of (a, b) \<Rightarrow>
        if a = b then Some parent
        else Option.bind (find_root parent b) (\<lambda>(rb, p1).
             Option.bind (find_root p1 a) (\<lambda>(ra, p2). Some (p2(ra \<mapsto> rb)))))"

fun alias_link :: "(string \<times> string) list \<Rightarrow> (string \<rightharpoonup> string) \<Rightarrow> (string \<rightharpoonup> string) option" where
  "alias_link [] parent = Some parent"
| "alias_link (ab # asg) parent = Option.bind (alias_step ab parent) (alias_link asg)"

fun alias_collect :: "string list \<Rightarrow> (string \<rightharpoonup> string) \<Rightarrow> (string \<times> string) list option" where
  "alias_collect [] parent = Some []"
| "alias_collect (n # ns) parent =
     Option.bind (find_root parent n) (\<lambda>(r, p). map_option ((#) (n, r)) (alias_collect ns p))"

text \<open>\<open>names\<close> lists the set of assigned names in the order Python iterates over it, which is not
  specified; the result is the dictionary in that order.\<close>

definition alias_map :: "(string \<times> string) list \<Rightarrow> string list \<Rightarrow> (string \<times> string) list option" where
  "alias_map asg names = Option.bind (alias_link asg Map.empty) (alias_collect names)"

definition assigned_names :: "(string \<times> string) list \<Rightarrow> string set" where
  "assigned_names asg = fst ` set asg \<union> snd ` set asg"

section \<open>Two nests as two arms\<close>

definition canonical_bounds :: "aliases \<Rightarrow> bounds \<Rightarrow> bounds" where
  "canonical_bounds al b = (canonical (fst b) al, canonical (snd b) al)"

fun check_axes :: "int \<Rightarrow> nat \<Rightarrow> (bounds \<times> bounds) list \<Rightarrow> aliases \<Rightarrow> arms_error + unit" where
  "check_axes axis_pos i [] al = Inr ()"
| "check_axes axis_pos i ((lb, rb) # ps) al =
     (if int i = axis_pos then check_axes axis_pos (Suc i) ps al
      else if canonical_bounds al lb \<noteq> canonical_bounds al rb then Inl (OtherAxis i)
      else check_axes axis_pos (Suc i) ps al)"

definition check_nest_pair :: "int \<Rightarrow> bounds list \<Rightarrow> bounds list \<Rightarrow> aliases \<Rightarrow> arms_error + bounds" where
  "check_nest_pair axis_pos l r al =
     (if length l \<noteq> length r then Inl (OtherDepth (length l) (length r))
      else rbind (check_axes axis_pos 0 (zip l r) al) (\<lambda>_.
           case (py_nth l axis_pos, py_nth r axis_pos) of
             (Some lb, Some rb) \<Rightarrow> union_range lb rb al
           | _ \<Rightarrow> Inl ArmIndexError))"

section \<open>Text of the nest\<close>

definition arm_guards :: "string \<Rightarrow> bounds \<Rightarrow> bounds \<Rightarrow> bool \<Rightarrow> string \<times> string" where
  "arm_guards axis l r left_is_upper =
     (if left_is_upper then (axis @ '' >= '' @ fst l, axis @ '' <= '' @ snd r)
      else (axis @ '' <= '' @ snd l, axis @ '' >= '' @ fst r))"

definition guarded :: "string \<Rightarrow> string \<Rightarrow> string list \<Rightarrow> string list" where
  "guarded indent guard stmts =
     [concat [indent, ''if ('', guard, '') then'']] @ map (\<lambda>s. indent @ ''  '' @ s) stmts @ [indent @ ''end if'']"

definition union_arms :: "string \<Rightarrow> bounds \<Rightarrow> bounds \<Rightarrow> string list \<Rightarrow> string list \<Rightarrow> bool \<Rightarrow> string \<Rightarrow>
    aliases \<Rightarrow> arms_error + string" where
  "union_arms axis l r left_stmts right_stmts left_is_upper indent al =
     rbind (union_range l r al) (\<lambda>_.
       let (l_guard, r_guard) = arm_guards axis l r left_is_upper in
       Inr (join [LF] (guarded indent l_guard left_stmts @ guarded indent r_guard right_stmts)))"

definition indent_text :: "string \<Rightarrow> nat \<Rightarrow> string" where
  "indent_text text n = join [LF] (map (\<lambda>l. if strip l \<noteq> [] then spaces n @ l else l) (split_on LF text))"

definition nest_header :: "string \<times> bounds \<Rightarrow> string" where
  "nest_header vb = concat [fst vb, '' = '', fst (snd vb), '', '', snd (snd vb)]"

definition nest_text :: "string list \<Rightarrow> bounds list \<Rightarrow> string \<Rightarrow> arms_error + string" where
  "nest_text vars bnds body =
     (if length bnds < length vars then Inl ArmIndexError
      else Inr (join [LF]
        (map (\<lambda>i. concat [spaces (2 * (i + 1)), ''do '', nest_header (vars ! i, bnds ! i)]) [0..<length vars] @
         [indent_text body (2 * length vars)] @
         map (\<lambda>i. spaces (2 * (i + 1)) @ ''end do'') (rev [0..<length vars]))))"


section \<open>Values of bounds\<close>

text \<open>The value of a bound under a valuation of the canonical base expressions, the cells of a range
  and the truth of a guard at a cell.\<close>

definition bound_value :: "(string \<Rightarrow> int) \<Rightarrow> aliases \<Rightarrow> string \<Rightarrow> int" where
  "bound_value val al s = val (canonical (fst (base_offset s)) al) + snd (base_offset s)"

definition cells :: "(string \<Rightarrow> int) \<Rightarrow> bounds \<Rightarrow> int set" where
  "cells ev b = {ev (fst b)..ev (snd b)}"

definition guard_holds :: "(string \<Rightarrow> int) \<Rightarrow> string \<Rightarrow> int \<Rightarrow> string \<Rightarrow> bool" where
  "guard_holds ev axis c g =
     (let op = take 4 (drop (length axis) g); e = drop (length axis + 4) g in
      if op = '' >= '' then c \<ge> ev e else c \<le> ev e)"

definition literal_pair :: "bounds \<Rightarrow> bounds \<Rightarrow> bool" where
  "literal_pair l r \<longleftrightarrow>
     py_int (fst l) \<noteq> None \<and> py_int (fst r) \<noteq> None \<and> py_int (snd l) \<noteq> None \<and> py_int (snd r) \<noteq> None"

lemma guard_holds_simps [simp]:
  "guard_holds ev axis c (axis @ CHR '' '' # CHR ''>'' # CHR ''='' # CHR '' '' # e) \<longleftrightarrow> ev e \<le> c"
  "guard_holds ev axis c (axis @ CHR '' '' # CHR ''<'' # CHR ''='' # CHR '' '' # e) \<longleftrightarrow> c \<le> ev e"
  by (simp_all add: guard_holds_def)

lemma union_range_symbolic: "\<not> literal_pair l r \<Longrightarrow> union_range l r al = union_symbolic l r al"
  by (auto simp: literal_pair_def union_range_def split: option.splits)

text \<open>A symbolic union is the union of a one-cell mirror: both bounds of one arm are one above those
  of the other.\<close>

lemma union_symbolic_Inr:
  assumes "union_symbolic l r al = Inr u"
  obtains (up) "bound_value val al (fst l) = bound_value val al (fst r) + 1"
      "bound_value val al (snd l) = bound_value val al (snd r) + 1" "u = (fst r, snd l)"
    | (down) "bound_value val al (fst r) = bound_value val al (fst l) + 1"
      "bound_value val al (snd r) = bound_value val al (snd l) + 1" "u = (fst l, snd r)"
proof -
  let ?d = "\<lambda>f. snd (base_offset (f l)) - snd (base_offset (f r))"
  from assms have same: "canonical (fst (base_offset (fst l))) al = canonical (fst (base_offset (fst r))) al"
      "canonical (fst (base_offset (snd l))) al = canonical (fst (base_offset (snd r))) al"
    and d: "\<bar>?d fst\<bar> = 1" "?d fst = ?d snd"
    and u: "u = (if ?d fst > 0 then (fst r, snd l) else (fst l, snd r))"
    by (auto simp: union_symbolic_def Let_def case_prod_unfold split: if_splits)
  from d(1) consider "?d fst = 1" | "?d fst = - 1" by linarith
  then show ?thesis
  proof cases
    case 1
    show ?thesis by (rule up) (use same d u 1 in \<open>simp_all add: bound_value_def\<close>)
  next
    case 2
    show ?thesis by (rule down) (use same d u 2 in \<open>simp_all add: bound_value_def\<close>)
  qed
qed

lemma mirror_cells:
  assumes "ev (fst l) = ev (fst r) + 1" "ev (snd l) = ev (snd r) + 1" "ev (fst l) \<le> ev (snd l)"
  shows "cells ev (fst r, snd l) = cells ev l \<union> cells ev r"
    and "{c \<in> cells ev (fst r, snd l). ev (fst l) \<le> c} = cells ev l"
    and "{c \<in> cells ev (fst r, snd l). c \<le> ev (snd r)} = cells ev r"
  using assms by (auto simp: cells_def)

text \<open>The union nest runs every cell of both arms and nothing else: for bounds that are not all
  literal, whenever the union is formed it is the union of the two ranges, whatever the values of the
  bound expressions, and inside it each guard holds exactly at the cells of its own arm when the flag
  that says which arm is the upper one agrees with the bounds.\<close>

theorem union_nest_covers_arms:
  assumes "union_range l r al = Inr u" and "\<not> literal_pair l r"
    and "bound_value val al (fst l) \<le> bound_value val al (snd l)"
    and "left_is_upper = (bound_value val al (fst r) < bound_value val al (fst l))"
    and "arm_guards axis l r left_is_upper = (l_guard, r_guard)"
  shows "cells (bound_value val al) u = cells (bound_value val al) l \<union> cells (bound_value val al) r \<and>
    {c \<in> cells (bound_value val al) u. guard_holds (bound_value val al) axis c l_guard} =
      cells (bound_value val al) l \<and>
    {c \<in> cells (bound_value val al) u. guard_holds (bound_value val al) axis c r_guard} =
      cells (bound_value val al) r"
proof -
  let ?ev = "bound_value val al"
  from assms(1,2) have "union_symbolic l r al = Inr u" by (simp add: union_range_symbolic)
  then show ?thesis
  proof (cases rule: union_symbolic_Inr [where val = val])
    case up
    with assms(4,5) have "l_guard = axis @ '' >= '' @ fst l" "r_guard = axis @ '' <= '' @ snd r"
      by (simp_all add: arm_guards_def)
    then show ?thesis using mirror_cells [of ?ev l r] up assms(3) by simp
  next
    case down
    with assms(4,5) have "l_guard = axis @ '' <= '' @ snd l" "r_guard = axis @ '' >= '' @ fst r"
      by (simp_all add: arm_guards_def)
    moreover from down assms(3) have "?ev (fst r) \<le> ?ev (snd r)" by simp
    ultimately show ?thesis using mirror_cells [of ?ev r l] down by (simp add: Un_commute)
  qed
qed

theorem union_nest_covers_arms_witness:
  "{0..8::int} = {1..8} \<union> {0..7} \<and>
   {c::int. 0 \<le> c \<and> c \<le> 8 \<and> 1 \<le> c} = {1..8} \<and> {c::int. 0 \<le> c \<and> c \<le> 8 \<and> c \<le> 7} = {0..7}"
proof -
  let ?val = "\<lambda>s. if s = ''chi'' then 8 else 0 :: int"
  have v: "bound_value ?val None ''clo + 1'' = 1" "bound_value ?val None ''chi'' = 8"
    "bound_value ?val None ''clo'' = 0" "bound_value ?val None ''chi - 1'' = 7" by code_simp+
  have u: "union_range (''clo + 1'', ''chi'') (''clo'', ''chi - 1'') None = Inr (''clo'', ''chi'')"
    "\<not> literal_pair (''clo + 1'', ''chi'') (''clo'', ''chi - 1'')" by code_simp+
  show ?thesis
    using union_nest_covers_arms [OF u, of ?val True "''j''"] v
    by (simp add: cells_def arm_guards_def guard_holds_def)
qed

section \<open>Literal ranges\<close>

text \<open>Literal bounds get no union: for two literal ranges that meet, the result is the range of the
  arm that starts first, as a whole. For a one-cell mirror it therefore leaves out the last cell of
  the upper arm.\<close>

theorem literal_union_is_the_lower_arm:
  "a \<le> b \<Longrightarrow>
     union_range (str_int a, str_int b) (str_int (a + 1), str_int (b + 1)) al = Inr (str_int a, str_int b) \<and>
     union_range (str_int (a + 1), str_int (b + 1)) (str_int a, str_int b) al = Inr (str_int a, str_int b) \<and>
     b + 1 \<in> {a + 1..b + 1} \<and> b + 1 \<notin> {a..b}"
  by (simp add: union_range_def)

theorem literal_union_is_the_lower_arm_witness:
  "union_range (''0'', ''4'') (''1'', ''5'') None = Inr (''0'', ''4'')"
proof -
  have s: "str_int 0 = ''0''" "str_int 4 = ''4''" "str_int (0 + 1) = ''1''" "str_int (4 + 1) = ''5''" by code_simp+
  show ?thesis using literal_union_is_the_lower_arm [of 0 4 None] unfolding s by simp
qed


section \<open>Properties of the alias map\<close>

text \<open>The loop of \<open>find\<close> ends after at most one round.\<close>

definition root_of :: "(string \<rightharpoonup> string) \<Rightarrow> string \<Rightarrow> string" where
  "root_of parent x =
     (case parent x of None \<Rightarrow> x | Some p \<Rightarrow> (case parent p of None \<Rightarrow> p | Some g \<Rightarrow> g))"

lemma find_root_eq:
  "find_root parent x =
     Some (root_of parent x, if parent x = None \<or> parent x = Some x then parent
                             else parent(root_of parent x \<mapsto> root_of parent x))"
proof (cases "parent x")
  case (Some p)
  let ?v = "case parent p of None \<Rightarrow> p | Some g \<Rightarrow> g"
  have "find_root (parent(?v \<mapsto> ?v)) ?v = Some (?v, parent(?v \<mapsto> ?v))"
    by (subst find_root.simps) simp
  then show ?thesis
    using Some by (subst find_root.simps) (simp add: root_of_def Let_def)
qed (subst find_root.simps, simp add: root_of_def)

definition after_find :: "(string \<rightharpoonup> string) \<Rightarrow> string \<Rightarrow> (string \<rightharpoonup> string)" where
  "after_find parent x =
     (if parent x = None \<or> parent x = Some x then parent else parent(root_of parent x \<mapsto> root_of parent x))"

lemma find_root_Some [simp]: "find_root parent x = Some (root_of parent x, after_find parent x)"
  by (simp add: find_root_eq after_find_def)

definition link_pair :: "string \<times> string \<Rightarrow> (string \<rightharpoonup> string) \<Rightarrow> (string \<rightharpoonup> string)" where
  "link_pair ab parent =
     (case ab of (a, b) \<Rightarrow> if a = b then parent
        else (after_find (after_find parent b) a)(root_of (after_find parent b) a \<mapsto> root_of parent b))"

lemma alias_step_Some [simp]: "alias_step ab parent = Some (link_pair ab parent)"
  by (cases ab) (simp add: alias_step_def link_pair_def)

lemma alias_link_Some [simp]: "alias_link asg parent = Some (fold link_pair asg parent)"
  by (induction asg arbitrary: parent) simp_all

fun collect :: "string list \<Rightarrow> (string \<rightharpoonup> string) \<Rightarrow> (string \<times> string) list" where
  "collect [] parent = []"
| "collect (n # ns) parent = (n, root_of parent n) # collect ns (after_find parent n)"

lemma alias_collect_Some [simp]: "alias_collect names parent = Some (collect names parent)"
  by (induction names arbitrary: parent) simp_all

lemma alias_map_Some: "alias_map asg names = Some (collect names (fold link_pair asg Map.empty))"
  by (simp add: alias_map_def)

lemma collect_keys [simp]: "map fst (collect ns parent) = ns"
  by (induction ns arbitrary: parent) simp_all

text \<open>Every link of the parent map joins names the assignments connect.\<close>

definition linked :: "(string \<times> string) set \<Rightarrow> (string \<rightharpoonup> string) \<Rightarrow> bool" where
  "linked R parent \<longleftrightarrow> (\<forall>x y. parent x = Some y \<longrightarrow> (x, y) \<in> (R \<union> R\<inverse>)\<^sup>*)"

lemma linked_root: "linked R parent \<Longrightarrow> (x, root_of parent x) \<in> (R \<union> R\<inverse>)\<^sup>*"
  unfolding linked_def root_of_def by (auto split: option.split) (meson rtrancl_trans)

lemma linked_after: "linked R parent \<Longrightarrow> linked R (after_find parent x)"
  by (simp add: linked_def after_find_def)

lemma conn_sym: "(x, y) \<in> (R \<union> R\<inverse>)\<^sup>* \<Longrightarrow> (y, x) \<in> (R \<union> R\<inverse>)\<^sup>*"
  by (metis converse_Un converse_converse rtrancl_converseI sup_commute)

lemma linked_pair:
  assumes "linked R parent" and "(a, b) \<in> R"
  shows "linked R (link_pair (a, b) parent)"
proof -
  let ?p = "after_find parent b"
  have p: "linked R ?p" by (rule linked_after [OF assms(1)])
  have "(root_of ?p a, a) \<in> (R \<union> R\<inverse>)\<^sup>*" by (rule conn_sym [OF linked_root [OF p]])
  also have "(a, b) \<in> (R \<union> R\<inverse>)\<^sup>*" using assms(2) by auto
  also have "(b, root_of parent b) \<in> (R \<union> R\<inverse>)\<^sup>*" by (rule linked_root [OF assms(1)])
  finally show ?thesis
    using assms(1) linked_after [OF p, of a] by (simp add: link_pair_def linked_def)
qed

lemma linked_fold: "linked R parent \<Longrightarrow> set asg \<subseteq> R \<Longrightarrow> linked R (fold link_pair asg parent)"
  by (induction asg arbitrary: parent) (auto intro: linked_pair)

lemma linked_collect: "linked R parent \<Longrightarrow> (n, r) \<in> set (collect ns parent) \<Longrightarrow> (n, r) \<in> (R \<union> R\<inverse>)\<^sup>*"
  by (induction ns arbitrary: parent) (auto intro: linked_root linked_after)

text \<open>C9. Building an alias map ends, whatever the assignments and the order in which the names are
  visited; the map has every assigned name, and two names it sends to the same representative are
  connected by the assignments, so no two ranges are identified without an assignment that says so.\<close>

theorem alias_map_sound:
  assumes "set names = assigned_names asg"
  shows "\<exists>m. alias_map asg names = Some m \<and> fst ` set m = assigned_names asg \<and>
    (\<forall>x y r. (x, r) \<in> set m \<and> (y, r) \<in> set m \<longrightarrow> (x, y) \<in> (set asg \<union> (set asg)\<inverse>)\<^sup>*)"
proof -
  let ?p = "fold link_pair asg Map.empty"
  have l: "linked (set asg) ?p" by (rule linked_fold) (simp_all add: linked_def)
  have "fst ` set (collect names ?p) = assigned_names asg"
    using assms by (metis collect_keys set_map)
  moreover have "(x, y) \<in> (set asg \<union> (set asg)\<inverse>)\<^sup>*"
    if "(x, r) \<in> set (collect names ?p)" "(y, r) \<in> set (collect names ?p)" for x y r
    using linked_collect [OF l that(1)] conn_sym [OF linked_collect [OF l that(2)]] by (rule rtrancl_trans)
  ultimately show ?thesis by (simp add: alias_map_Some) blast
qed

theorem alias_map_sound_witness:
  "\<exists>m. alias_map [(''is2'', ''iy'')] [''iy'', ''is2''] = Some m \<and> fst ` set m = {''iy'', ''is2''}"
proof -
  have a: "set [''iy'', ''is2''] = assigned_names [(''is2'', ''iy'')]" by (auto simp: assigned_names_def)
  then show ?thesis using alias_map_sound [OF a] by fastforce
qed

definition chain_parent :: "string \<Rightarrow> string \<Rightarrow> string \<Rightarrow> string \<Rightarrow> (string \<rightharpoonup> string) \<Rightarrow> bool" where
  "chain_parent a b c d p \<longleftrightarrow> p a = Some b \<and> p b = Some c \<and> (p c = Some d \<or> p c = Some c) \<and>
     (p d = None \<or> p d = Some d) \<and> (\<forall>x. x \<noteq> a \<and> x \<noteq> b \<and> x \<noteq> c \<and> x \<noteq> d \<longrightarrow> p x = None)"

lemma chain_parent_upd:
  assumes "distinct [a, b, c, d]" and "chain_parent a b c d p"
  shows "chain_parent a b c d (p(c \<mapsto> c))" and "chain_parent a b c d (p(d \<mapsto> d))"
  using assms by (simp_all add: chain_parent_def)

lemma chain_parent_after:
  assumes "distinct [a, b, c, d]" and p: "chain_parent a b c d p"
  shows "chain_parent a b c d (after_find p x)"
proof (cases "p x = None \<or> p x = Some x")
  case True
  with p show ?thesis by (simp add: after_find_def)
next
  case False
  with p have "x = a \<or> x = b \<or> x = c" by (auto simp: chain_parent_def)
  with p have "root_of p x = c \<or> root_of p x = d" by (auto simp: chain_parent_def root_of_def)
  with False show ?thesis using chain_parent_upd [OF assms] by (auto simp: after_find_def)
qed

lemma chain_parent_root:
  "chain_parent a b c d p \<Longrightarrow> root_of p a = c" "chain_parent a b c d p \<Longrightarrow> root_of p d = d"
  by (auto simp: chain_parent_def root_of_def)

lemma chain_collect:
  assumes "distinct [a, b, c, d]" and "chain_parent a b c d p"
  shows "a \<in> set names \<Longrightarrow> map_of (collect names p) a = Some c"
    and "d \<in> set names \<Longrightarrow> map_of (collect names p) d = Some d"
proof -
  have "(a \<in> set names \<longrightarrow> map_of (collect names p) a = Some c) \<and>
      (d \<in> set names \<longrightarrow> map_of (collect names p) d = Some d)"
    using assms(2)
  proof (induction names arbitrary: p)
    case (Cons n ns)
    from Cons.IH [OF chain_parent_after [OF assms(1) Cons.prems, of n]] chain_parent_root [OF Cons.prems]
    show ?case by auto
  qed simp
  then show "a \<in> set names \<Longrightarrow> map_of (collect names p) a = Some c"
    "d \<in> set names \<Longrightarrow> map_of (collect names p) d = Some d" by blast+
qed

text \<open>The map is not the transitive closure it is documented to be: for the three assignments
  \<open>a = b\<close>, \<open>b = c\<close>, \<open>c = d\<close> the names \<open>a\<close> and \<open>d\<close> get different representatives, in whatever
  order the names are visited.\<close>

theorem alias_chain_split:
  assumes "set names = assigned_names [(''a'', ''b''), (''b'', ''c''), (''c'', ''d'')]"
  shows "\<exists>m. alias_map [(''a'', ''b''), (''b'', ''c''), (''c'', ''d'')] names = Some m \<and>
    map_of m ''a'' = Some ''c'' \<and> map_of m ''d'' = Some ''d''"
proof -
  let ?p = "fold link_pair [(''a'', ''b''), (''b'', ''c''), (''c'', ''d'')] Map.empty"
  have p: "chain_parent ''a'' ''b'' ''c'' ''d'' ?p"
    by (simp add: chain_parent_def link_pair_def after_find_def root_of_def)
  have "''a'' \<in> set names" "''d'' \<in> set names" using assms by (simp_all add: assigned_names_def)
  then show ?thesis using chain_collect [OF _ p] by (simp add: alias_map_Some)
qed

theorem alias_chain_split_witness:
  "\<exists>m. alias_map [(''a'', ''b''), (''b'', ''c''), (''c'', ''d'')] [''d'', ''c'', ''b'', ''a''] = Some m \<and>
    map_of m ''a'' = Some ''c'' \<and> map_of m ''d'' = Some ''d''"
  by (rule alias_chain_split) (auto simp: assigned_names_def)

text \<open>One level of aliases: the parent map is the assignments themselves, up to roots that point to
  themselves.\<close>

definition one_level :: "(string \<times> string) list \<Rightarrow> (string \<rightharpoonup> string) \<Rightarrow> bool" where
  "one_level asg p \<longleftrightarrow> (\<forall>a b. (a, b) \<in> set asg \<longrightarrow> p a = Some b) \<and>
     (\<forall>x. x \<notin> fst ` set asg \<longrightarrow> p x = None \<or> p x = Some x)"

lemma one_level_root:
  assumes "one_level asg p" and "fst ` set asg \<inter> snd ` set asg = {}"
  shows "(a, b) \<in> set asg \<Longrightarrow> root_of p a = b" and "x \<notin> fst ` set asg \<Longrightarrow> root_of p x = x"
proof -
  assume ab: "(a, b) \<in> set asg"
  then have "b \<notin> fst ` set asg" using assms(2) by force
  then have "p a = Some b" "p b = None \<or> p b = Some b" using assms(1) ab unfolding one_level_def by blast+
  then show "root_of p a = b" by (auto simp: root_of_def)
next
  assume "x \<notin> fst ` set asg"
  then show "root_of p x = x" using assms(1) by (auto simp: one_level_def root_of_def split: option.split)
qed

lemma one_level_after:
  assumes "one_level asg p" and "fst ` set asg \<inter> snd ` set asg = {}"
  shows "one_level asg (after_find p x)"
proof (cases "x \<in> fst ` set asg")
  case True
  then obtain b where b: "(x, b) \<in> set asg" by auto
  then have r: "root_of p x = b" and nb: "b \<notin> fst ` set asg" using one_level_root(1) [OF assms b] assms(2) by force+
  have "one_level asg (p(b \<mapsto> b))"
    using assms(1) nb unfolding one_level_def by (metis fst_conv fun_upd_other fun_upd_same imageI)
  then show ?thesis using assms(1) r by (simp add: after_find_def)
next
  case False
  then have "p x = None \<or> p x = Some x" using assms(1) by (simp add: one_level_def)
  then show ?thesis using assms(1) by (simp add: after_find_def)
qed

lemma one_level_link:
  assumes "distinct (map fst asg)" and "fst ` set asg \<inter> snd ` set asg = {}"
  shows "one_level asg (fold link_pair asg Map.empty)"
  using assms
proof (induction asg rule: rev_induct)
  case Nil
  then show ?case by (simp add: one_level_def)
next
  case (snoc ab asg)
  obtain a b where ab: "ab = (a, b)" by fastforce
  have d: "fst ` set asg \<inter> snd ` set asg = {}" "a \<notin> fst ` set asg" "b \<notin> fst ` set asg" "a \<noteq> b"
    using snoc.prems ab by auto
  let ?p = "fold link_pair asg Map.empty"
  have p: "one_level asg ?p" using snoc d(1) by simp
  have roots: "root_of (after_find ?p b) a = a" "root_of ?p b = b"
    using one_level_root(2) [OF one_level_after [OF p d(1)] d(1,2)] one_level_root(2) [OF p d(1,3)] by auto
  have "one_level asg (after_find (after_find ?p b) a)"
    by (intro one_level_after p d(1))
  then have "one_level (asg @ [(a, b)]) (q(a \<mapsto> b))" if "q = after_find (after_find ?p b) a" for q
    using d(2) unfolding one_level_def that [symmetric] by force
  from this [OF refl] have "one_level (asg @ [(a, b)]) (link_pair (a, b) ?p)"
    using roots d(4) by (simp only: link_pair_def prod.case if_False)
  then show ?case by (simp add: ab)
qed

lemma one_level_collect:
  assumes "one_level asg p" and "fst ` set asg \<inter> snd ` set asg = {}" and "distinct (map fst asg)"
  shows "collect names p = map (\<lambda>n. (n, case map_of asg n of None \<Rightarrow> n | Some b \<Rightarrow> b)) names"
  using assms(1)
proof (induction names arbitrary: p)
  case (Cons n ns)
  have "root_of p n = (case map_of asg n of None \<Rightarrow> n | Some b \<Rightarrow> b)"
    using one_level_root [OF Cons.prems assms(2)]
    by (auto split: option.split simp: map_of_eq_None_iff dest: map_of_SomeD)
  with Cons.IH [OF one_level_after [OF Cons.prems assms(2)]] show ?case by simp
qed simp

text \<open>The assignments the map is meant for are resolved exactly: when no name is assigned twice and
  no assigned name is assigned from, every name goes to the one it was assigned from, and the others
  to themselves, in whatever order the names are visited.\<close>

theorem alias_map_one_level:
  assumes "distinct (map fst asg)" and "fst ` set asg \<inter> snd ` set asg = {}"
  shows "alias_map asg names = Some (map (\<lambda>n. (n, case map_of asg n of None \<Rightarrow> n | Some b \<Rightarrow> b)) names)"
  by (simp add: alias_map_Some one_level_collect [OF one_level_link [OF assms] assms(2,1)])

theorem alias_map_one_level_witness:
  "alias_map [(''is1'', ''ix''), (''is2'', ''iy'')] [''iy'', ''is2'', ''ix'', ''is1''] =
     Some [(''iy'', ''iy''), (''is2'', ''iy''), (''ix'', ''ix''), (''is1'', ''ix'')]"
  using alias_map_one_level [of "[(''is1'', ''ix''), (''is2'', ''iy'')]" "[''iy'', ''is2'', ''ix'', ''is1'']"] by simp


section \<open>Properties of the emitted nest\<close>

lemma line_kind_do_var:
  assumes "v \<noteq> []" and "is_word (hd v)"
  shows "line_kind (''do '' @ v @ w) = Opens_Do (v @ w)"
proof -
  obtain c u where "v = c # u" using assms(1) by (cases v) auto
  moreover have "\<not> is_space CHR ''d''" by code_simp
  ultimately show ?thesis using assms(2) by (simp add: line_kind_def startswith_def lstrip_word)
qed

lemma block_run_cong:
  "list_all2 (\<lambda>l m. line_kind l = line_kind m) ls ms \<Longrightarrow> block_run fs ls = block_run fs ms"
proof (induction ls ms arbitrary: fs rule: list_all2_induct)
  case (Cons l ls m ms)
  have "block_step fs l = block_step fs m"
    by (cases fs) (auto simp: Cons.hyps(1))
  with Cons show ?case by (simp split: option.split)
qed simp

lemma block_indent_text:
  assumes "block ls ts"
  shows "block (map (\<lambda>l. if strip l \<noteq> [] then spaces n @ l else l) ls) ts"
proof -
  let ?f = "\<lambda>l. if strip l \<noteq> [] then spaces n @ l else l"
  have "list_all2 (\<lambda>l m. line_kind l = line_kind m) (map ?f ls) ls"
    by (simp add: list_all2_conv_all_nth)
  then have "block_run fs (map ?f ls) = block_run fs ls" for fs
    by (rule block_run_cong)
  with assms show ?thesis by (simp add: block_def)
qed

text \<open>The nest emitted around a body is the nest it is meant to be: the lines pair their \<open>do\<close> and
  \<open>end do\<close>, the loops stand outermost first with the bounds they were given, and inside them is the
  body with its own structure unchanged.\<close>

theorem nest_text_structure:
  assumes "nest_text vars bnds body = Inr t" and "block (split_on LF body) ts"
    and "\<forall>v \<in> set vars. v \<noteq> [] \<and> is_word (hd v) \<and> LF \<notin> set v"
    and "\<forall>b \<in> set bnds. LF \<notin> set (fst b) \<and> LF \<notin> set (snd b)"
  shows "parse_blocks (split_on LF t) = Some (nest (map nest_header (zip vars bnds)) ts)"
proof -
  let ?n = "length vars" and ?f = "\<lambda>l. if strip l \<noteq> [] then spaces (2 * length vars) @ l else l"
  let ?os = "map (\<lambda>i. concat [spaces (2 * (i + 1)), ''do '', nest_header (vars ! i, bnds ! i)]) [0..<?n]"
  let ?es = "map (\<lambda>i. spaces (2 * (i + 1)) @ ''end do'') (rev [0..<?n])"
  let ?b = "map ?f (split_on LF body)"
  from assms(1) have len: "?n \<le> length bnds" and t: "t = join [LF] (?os @ [join [LF] ?b] @ ?es)"
    by (auto simp: nest_text_def indent_text_def split: if_splits)
  have sp: "LF \<notin> set (spaces k)" for k by (simp add: spaces_def)
  have hd: "LF \<notin> set (nest_header (vars ! i, bnds ! i))" if "i < ?n" for i
  proof -
    have "LF \<notin> set (vars ! i)" "LF \<notin> set (fst (bnds ! i))" "LF \<notin> set (snd (bnds ! i))"
      using assms(3,4) that len by (simp_all add: all_set_conv_all_nth)
    then show ?thesis by (simp add: nest_header_def)
  qed
  have b: "split_on LF (join [LF] ?b) = ?b"
    by (rule split_on_join) (use split_on_no_sep [of LF body] sp in auto)
  have "split_on LF t = concat (map (split_on LF) ?os) @ ?b @ concat (map (split_on LF) ?es)"
    unfolding t by (subst split_on_join_lines) (simp_all add: b)
  also have "concat (map (split_on LF) ?os) = ?os"
    by (rule split_lines_id) (use hd sp in simp)
  also have "concat (map (split_on LF) ?es) = ?es"
    by (rule split_lines_id) (use sp in simp)
  finally have sl: "split_on LF t = ?os @ ?b @ ?es" .
  have kd: "line_kind (concat [spaces k, ''do '', nest_header (vars ! i, bnds ! i)]) =
      Opens_Do (nest_header (vars ! i, bnds ! i))" if "i < ?n" for i k
    using assms(3) that line_kind_do_var [of "vars ! i"] by (simp add: nest_header_def)
  have "block (?os @ ?b @ ?es) (nest (map nest_header (zip vars bnds)) ts)"
  proof (rule block_nest)
    show "list_all2 (\<lambda>p h. line_kind p = Opens_Do h) ?os (map nest_header (zip vars bnds))"
      using kd len by (simp add: list_all2_conv_all_nth del: concat.simps)
  qed (simp_all add: block_indent_text [OF assms(2)])
  with sl show ?thesis by (simp add: parse_block)
qed


theorem nest_text_structure_witness:
  "\<exists>t. nest_text [''k'', ''j''] [(''0'', ''n''), (''clo'', ''chi'')] ''a(j, k) = b(j, k)'' = Inr t \<and>
     parse_blocks (split_on LF t) = Some [Do ''k = 0, n'' [Do ''j = clo, chi'' [Leaf ''a(j, k) = b(j, k)'']]]"
proof -
  let ?body = "''a(j, k) = b(j, k)''"
  obtain t where t: "nest_text [''k'', ''j''] [(''0'', ''n''), (''clo'', ''chi'')] ?body = Inr t"
    by (simp add: nest_text_def)
  have "\<not> is_space CHR ''a''" by code_simp
  then have b: "block (split_on LF ?body) [Leaf ?body]"
    by (simp add: block_leaf kind_other)
  have w: "is_word CHR ''k''" "is_word CHR ''j''" by code_simp+
  have h: "map nest_header (zip [''k'', ''j''] [(''0'', ''n''), (''clo'', ''chi'')]) = [''k = 0, n'', ''j = clo, chi'']"
    by (simp add: nest_header_def)
  show ?thesis
    using nest_text_structure [OF t b] t w unfolding h by simp
qed

text \<open>The statements of a guarded arm.\<close>

lemma block_guarded:
  assumes "\<forall>s \<in> set stmts. line_kind s = Plain (f s)"
  shows "block (guarded (spaces n) g stmts) [If g (map (\<lambda>s. Leaf (f s)) stmts)]"
proof -
  have k: "line_kind (spaces n @ ''  '' @ s) = Plain (f s)" if "s \<in> set stmts" for s
    using assms that by simp
  show ?thesis
    unfolding guarded_def
    by (rule block_if) (use k kind_if_then [of g] in \<open>auto intro: block_leaves\<close>)
qed

lemma union_arms_block:
  assumes "union_arms axis l r ls rs left_is_upper (spaces n) al = Inr t"
    and "arm_guards axis l r left_is_upper = (lg, rg)"
    and "\<forall>s \<in> set ls \<union> set rs. line_kind s = Plain (f s) \<and> LF \<notin> set s"
    and "LF \<notin> set lg" and "LF \<notin> set rg"
  shows "block (split_on LF t) [If lg (map (\<lambda>s. Leaf (f s)) ls), If rg (map (\<lambda>s. Leaf (f s)) rs)]"
proof -
  let ?L = "guarded (spaces n) lg ls" and ?R = "guarded (spaces n) rg rs"
  from assms(1,2) have t: "t = join [LF] (?L @ ?R)"
    by (auto simp: union_arms_def rbind_Inr_iff)
  have sp: "LF \<notin> set (spaces n)" by (simp add: spaces_def)
  have "\<forall>x \<in> set (?L @ ?R). LF \<notin> set x"
    using assms(3-5) sp by (auto simp: guarded_def)
  then have "split_on LF t = ?L @ ?R"
    unfolding t by (rule split_on_join) (simp add: guarded_def)
  moreover have "block (?L @ ?R) ([If lg (map (\<lambda>s. Leaf (f s)) ls)] @ [If rg (map (\<lambda>s. Leaf (f s)) rs)])"
    using assms(3) by (intro block_append block_guarded) auto
  ultimately show ?thesis by simp
qed

text \<open>The body of the union nest holds both arms and nothing else: when it is emitted, its lines are
  two \<open>if\<close> blocks, the left arm's statements under its own guard and the right arm's under its own,
  each statement once and in order.\<close>

theorem union_arms_structure:
  assumes "union_arms axis l r ls rs left_is_upper (spaces n) al = Inr t"
    and "arm_guards axis l r left_is_upper = (lg, rg)"
    and "\<forall>s \<in> set ls \<union> set rs. line_kind s = Plain (f s) \<and> LF \<notin> set s"
    and "LF \<notin> set lg" and "LF \<notin> set rg"
  shows "parse_blocks (split_on LF t) =
    Some [If lg (map (\<lambda>s. Leaf (f s)) ls), If rg (map (\<lambda>s. Leaf (f s)) rs)]"
  using union_arms_block [OF assms] by (rule parse_block)

theorem union_arms_structure_witness:
  "\<exists>t. union_arms ''j'' (''clo + 1'', ''chi'') (''clo'', ''chi - 1'') [''a(j) = 1''] [''b(j) = 2''] True (spaces 2) None = Inr t \<and>
     parse_blocks (split_on LF t) = Some [If ''j >= clo + 1'' [Leaf ''a(j) = 1''], If ''j <= chi - 1'' [Leaf ''b(j) = 2'']]"
proof -
  have u: "union_range (''clo + 1'', ''chi'') (''clo'', ''chi - 1'') None = Inr (''clo'', ''chi'')" by code_simp
  obtain t where t: "union_arms ''j'' (''clo + 1'', ''chi'') (''clo'', ''chi - 1'') [''a(j) = 1''] [''b(j) = 2'']
      True (spaces 2) None = Inr t"
    by (simp add: union_arms_def u case_prod_unfold Let_def)
  have g: "arm_guards ''j'' (''clo + 1'', ''chi'') (''clo'', ''chi - 1'') True = (''j >= clo + 1'', ''j <= chi - 1'')"
    by (simp add: arm_guards_def)
  have "\<not> is_space CHR ''a''" "\<not> is_space CHR ''b''" by code_simp+
  then have s: "\<forall>s \<in> set [''a(j) = 1''] \<union> set [''b(j) = 2'']. line_kind s = Plain s \<and> LF \<notin> set s"
    by (simp add: kind_other)
  show ?thesis
    using union_arms_structure [OF t g s] t by simp
qed

lemma nest_pair_iff:
  "check_nest_pair (int p) l r al = Inr u \<longleftrightarrow>
     length l = length r \<and> p < length l \<and>
     list_all (\<lambda>i. i = p \<or> canonical_bounds al (l ! i) = canonical_bounds al (r ! i)) [0..<length l] \<and>
     union_range (l ! p) (r ! p) al = Inr u"
proof -
  have ax: "check_axes (int p) k ps al = Inr () \<longleftrightarrow>
      (\<forall>i < length ps. k + i = p \<or> canonical_bounds al (fst (ps ! i)) = canonical_bounds al (snd (ps ! i)))"
    for k ps
  proof (induction ps arbitrary: k)
    case (Cons q ps)
    obtain lb rb where q: "q = (lb, rb)" by (cases q)
    have "(\<forall>i < length (q # ps). k + i = p \<or> P ((q # ps) ! i)) \<longleftrightarrow>
        (k = p \<or> P q) \<and> (\<forall>i < length ps. Suc k + i = p \<or> P (ps ! i))" for P
      by (simp add: All_less_Suc2)
    from this [of "\<lambda>x. canonical_bounds al (fst x) = canonical_bounds al (snd x)"]
    show ?case unfolding Cons [of "Suc k", symmetric] by (simp only: q check_axes.simps) auto
  qed simp
  have "check_axes (int p) 0 (zip l r) al = Inr () \<longleftrightarrow>
      list_all (\<lambda>i. i = p \<or> canonical_bounds al (l ! i) = canonical_bounds al (r ! i)) [0..<length l]"
    if "length l = length r"
    using ax [of 0 "zip l r"] that by (auto simp: list_all_iff)
  then show ?thesis
    by (auto simp: check_nest_pair_def rbind_Inr_iff py_nth_def)
qed

text \<open>Two nests are accepted as the arms of one stencil exactly when they are equally deep, their
  bounds agree after aliasing on every axis but the named one, and on that one the union can be
  formed; the answer is that union.\<close>

theorem check_nest_pair_iff:
  "check_nest_pair (int p) l r al = Inr u \<longleftrightarrow>
     length l = length r \<and> p < length l \<and>
     list_all (\<lambda>i. i = p \<or> canonical_bounds al (l ! i) = canonical_bounds al (r ! i)) [0..<length l] \<and>
     union_range (l ! p) (r ! p) al = Inr u"
  by (rule nest_pair_iff)

section \<open>The union nest\<close>



end
