(* ===== verification/Discovery.thy ===== *)
theory Discovery
  imports Regex Json "HOL-Library.Product_Lexorder"
begin

text \<open>
  \<open>discovery.py\<close> and \<open>extract.py\<close>: the loop nests of a Fortran text, the shape of each, and getting a
  nest's text back out. The C preprocessor run and the file reads of \<open>extract.py\<close> are left out.

  A routine name is inserted into a pattern unescaped; the model takes it for a Fortran identifier.
\<close>

section \<open>Shapes\<close>

record shape =
  sh_op :: string
  sh_dim :: "nat option"
  sh_loops :: "string list"

datatype discovery_error = NoRoutine string | NoEnd string nat | NoNest | LineOutside | NoSuchName string

abbreviation lines_of :: "string \<Rightarrow> string list" where
  "lines_of text \<equiv> split_on LF text"

abbreviation unlines_lf :: "string list \<Rightarrow> string" where
  "unlines_lf \<equiv> join [LF]"

text \<open>\<open>next((i for i, l in enumerate(lines) if p(i, l)), None)\<close> from an index on.\<close>

fun first_index :: "(string \<Rightarrow> bool) \<Rightarrow> nat \<Rightarrow> string list \<Rightarrow> nat option" where
  "first_index p i [] = None"
| "first_index p i (l # ls) = (if p l then Some i else first_index p (Suc i) ls)"

definition subroutine_re :: "string \<Rightarrow> regex" where
  "subroutine_re routine = seqs [Wordb, ilit ''subroutine'', some1 re_space, ilit routine, Wordb]"

definition end_subroutine_re :: regex where
  "end_subroutine_re = seqs [many re_space, ilit ''end subroutine'']"

definition scope_to_routine :: "string \<Rightarrow> string \<Rightarrow> discovery_error + string" where
  "scope_to_routine text routine =
     (let ls = lines_of text in
      case first_index (\<lambda>l. re_search (subroutine_re routine) l \<noteq> None) 0 ls of
        None \<Rightarrow> Inl (NoRoutine routine)
      | Some b \<Rightarrow>
          (case first_index (\<lambda>l. re_match end_subroutine_re l \<noteq> None) (Suc b) (drop (Suc b) ls) of
             None \<Rightarrow> Inl (NoEnd routine (b + 1))
           | Some e \<Rightarrow> Inr (unlines_lf (drop b (take (e + 1) ls)))))"

section \<open>Nests\<close>

definition anchor_macro_re :: regex where
  "anchor_macro_re = seqs [lit ''$:'', many re_space, Look False (lit ''END_''), many re_word, lit ''PARALLEL_LOOP'',
     many re_space, chr_re CHR ''('', Grp 1 (many (Cls True [(41, 41)]))]"

definition anchor_acc_re :: regex where
  "anchor_acc_re = seqs [opt (chr_re CHR ''!''), lit ''$acc'', some1 re_space, lit ''parallel'', some1 re_space,
     lit ''loop'', Wordb, Grp 1 (many re_dot)]"

definition ANCHORS :: "regex list" where
  "ANCHORS = [anchor_macro_re, anchor_acc_re]"

definition collapse_re :: regex where
  "collapse_re = seqs [lit ''collapse'', many re_space, Cls False [(61, 61), (40, 40)], many re_space,
     Grp 1 (some1 re_digit)]"

definition anchor_depth :: "string \<Rightarrow> nat option \<Rightarrow> nat option" where
  "anchor_depth clause dflt =
     (case re_search collapse_re clause of
        Some m \<Rightarrow> Some (nat_of_digits (grp0 m 1))
      | None \<Rightarrow> dflt)"

definition end_do_re :: regex where
  "end_do_re = seqs [Wordb, ilit ''end'', many re_space, ilit ''do'', Wordb]"

definition do_re :: regex where
  "do_re = seqs [many re_space, ilit ''do'', Wordb]"

definition code_of :: "string \<Rightarrow> string" where
  "code_of l = before_first CHR ''!'' l"

definition opens_loop :: "string \<Rightarrow> bool" where
  "opens_loop l = (re_match do_re (code_of l) \<noteq> None)"

definition loop_ends :: "string \<Rightarrow> int" where
  "loop_ends l = int (length (re_finditer end_do_re (code_of l)))"

fun nest_scan :: "int \<Rightarrow> bool \<Rightarrow> string list \<Rightarrow> string list" where
  "nest_scan depth started [] = []"
| "nest_scan depth started (l # ls) =
     (let depth1 = (if opens_loop l then depth + 1 else depth);
          started1 = (started \<or> opens_loop l) in
      if started1 then
        (let depth2 = depth1 - loop_ends l in
         if depth2 \<le> 0 then [l] else l # nest_scan depth2 True ls)
      else l # nest_scan depth1 False ls)"

definition nest_body :: "string list \<Rightarrow> nat \<Rightarrow> string list" where
  "nest_body ls start = nest_scan 0 False (drop start ls)"

fun first_anchor :: "regex list \<Rightarrow> string \<Rightarrow> rmatch option" where
  "first_anchor [] l = None"
| "first_anchor (r # rs) l = (case re_search r l of Some m \<Rightarrow> Some m | None \<Rightarrow> first_anchor rs l)"

definition block_at :: "string list \<Rightarrow> nat option \<Rightarrow> nat \<Rightarrow> (nat \<times> string list) list" where
  "block_at ls collapse i =
     (case first_anchor ANCHORS (ls ! i) of
        None \<Rightarrow> []
      | Some m \<Rightarrow>
          (if collapse = None \<or> anchor_depth (grp0 m 1) collapse = collapse
           then [(i + 1, nest_body ls (i + 1))] else []))"

definition blocks :: "string \<Rightarrow> nat option \<Rightarrow> (nat \<times> string list) list" where
  "blocks text collapse =
     (let ls = lines_of text in concat (map (block_at ls collapse) [0..<length ls]))"

definition do_line_re :: regex where
  "do_line_re = seqs [many re_space, lit ''do'', Wordb]"

function anchorless_from :: "string list \<Rightarrow> nat \<Rightarrow> (nat \<times> string list) list" where
  "anchorless_from ls i =
     (if length ls \<le> i then []
      else if re_match do_line_re (ls ! i) \<noteq> None
      then (i, nest_body ls i) # anchorless_from ls (i + max 1 (length (nest_body ls i)))
      else anchorless_from ls (i + 1))"
  by pat_completeness auto
termination
  by (relation "measure (\<lambda>(ls, i). length ls - i)") auto

declare anchorless_from.simps [simp del]

definition anchorless_blocks :: "string \<Rightarrow> (nat \<times> string list) list" where
  "anchorless_blocks text = anchorless_from (lines_of text) 0"

section \<open>Statements\<close>

fun join_scan :: "string \<Rightarrow> string list \<Rightarrow> string list" where
  "join_scan cur [] = (if cur \<noteq> [] then [cur] else [])"
| "join_scan cur (ln # ls) =
     (let t = strip ln in
      if t = [] \<or> startswith t ''!'' then join_scan cur ls
      else
        let t = (if startswith t ''&'' then lstrip (drop 1 t) else t) in
        if endswith t ''&'' then join_scan (cur @ butlast t) ls
        else (cur @ t) # join_scan [] ls)"

text \<open>\<open>_join\<close>, public as \<open>statements\<close>.\<close>

definition statements :: "string list \<Rightarrow> string list" where
  "statements body = join_scan [] body"

definition ACCESS :: string where
  "ACCESS = ''%sf''"

definition access_re :: "string \<Rightarrow> regex" where
  "access_re access = seqs [lit access, many re_space, chr_re CHR ''('', Grp 1 (many (Cls True [(41, 41)])), chr_re CHR '')'']"

definition shift_re :: regex where
  "shift_re = seqs [Cls False [(43, 43), (45, 45)], many re_space, Grp 1 re_digit]"

fun shift_pos :: "nat option \<Rightarrow> nat \<Rightarrow> string list \<Rightarrow> nat option" where
  "shift_pos d pos [] = d"
| "shift_pos d pos (sub # subs) =
     (case re_search shift_re (strip sub) of
        Some m \<Rightarrow> shift_pos (if d = None \<or> nat_of_digits (grp0 m 1) = 1 then Some pos else d) (Suc pos) subs
      | None \<Rightarrow> shift_pos d (Suc pos) subs)"

fun first_shift :: "rmatch list \<Rightarrow> nat option" where
  "first_shift [] = None"
| "first_shift (m # ms) =
     (case shift_pos None 0 (split_on CHR '','' (grp0 m 1)) of Some d \<Rightarrow> Some d | None \<Rightarrow> first_shift ms)"

definition difference_position :: "string \<Rightarrow> string \<Rightarrow> nat option" where
  "difference_position stmt access = first_shift (re_finditer (access_re access) stmt)"

section \<open>The shape of a nest\<close>

definition loop_header_re :: regex where
  "loop_header_re = seqs [many re_space, lit ''do'', some1 re_space, Grp 1 (Seq (Cls False [(97, 122), (95, 95)]) (many re_word)),
     many re_space, chr_re CHR ''='', many re_space, Grp 2 (Seq re_dot (Star False re_dot)), many re_space,
     chr_re CHR '','', many re_space, Grp 3 (Seq re_dot (Star False re_dot)), many re_space, Eol]"

fun loop_headers :: "string list \<Rightarrow> (string \<times> string \<times> string) list" where
  "loop_headers [] = []"
| "loop_headers (ln # ls) =
     (case re_match loop_header_re ln of
        Some m \<Rightarrow> (grp0 m 1, strip (grp0 m 2), strip (grp0 m 3)) # loop_headers ls
      | None \<Rightarrow> loop_headers ls)"

definition not_parens :: regex where
  "not_parens = many (Cls True [(40, 41)])"

definition subscript_re :: regex where
  "subscript_re = seqs [chr_re CHR ''('', not_parens, chr_re CHR '')'']"

definition chain_re :: "string \<Rightarrow> regex" where
  "chain_re access = seqs [re_ident_start, many re_word, opt subscript_re,
     many (seqs [chr_re CHR ''%'', some1 re_word, opt subscript_re]), lit access, many re_space,
     chr_re CHR ''('', not_parens, many (Seq subscript_re not_parens), chr_re CHR '')'']"

definition bare_re :: "string \<Rightarrow> regex" where
  "bare_re access = (let blank = many (Cls False ((38, 38) # space_ranges)) in
     seqs [Bol, blank, chain_re access, blank, Eol])"

definition write_re :: "string \<Rightarrow> regex" where
  "write_re access = seqs [access_re access, many re_space, chr_re CHR ''='']"

text \<open>\<open>st.split('=', 1)[1]\<close> of a text with an equals sign.\<close>

definition after_eq :: "string \<Rightarrow> string" where
  "after_eq st = drop 1 (dropWhile (\<lambda>c. c \<noteq> CHR ''='') st)"

definition access_stmts :: "string list \<Rightarrow> string \<Rightarrow> string list" where
  "access_stmts body access =
     filter (\<lambda>st. contains (access @ ''('') st \<and> contains ''='' st) (statements body)"

definition is_copy :: "string list \<Rightarrow> string \<Rightarrow> bool" where
  "is_copy stmts access = (stmts \<noteq> [] \<and> list_all (\<lambda>st. re_match (bare_re access) (after_eq st) \<noteq> None) stmts)"

definition is_avg :: "string \<Rightarrow> bool" where
  "is_avg whole = (re_search (alts [lit ''25.e-2'', lit ''25.d-2'', lit ''0.25'']) whole \<noteq> None)"

definition is_grad :: "string \<Rightarrow> bool" where
  "is_grad whole =
     (re_search (seqs [chr_re CHR ''/'', many re_space, chr_re CHR ''('']) whole \<noteq> None \<and> \<not> is_avg whole)"

definition is_flux :: "string \<Rightarrow> string \<Rightarrow> bool" where
  "is_flux whole access =
     (re_search (seqs [Wordb, lit ''inv_ds'', Wordb]) whole \<noteq> None \<and> \<not> is_avg whole \<and> \<not> is_grad whole \<and>
      re_search (seqs [lit access, many re_space, chr_re CHR ''('', many (Cls True [(41, 41)]), chr_re CHR ''-'',
        many re_space, chr_re CHR ''1'', Wordb]) whole \<noteq> None)"

definition canonical_op :: "bool \<Rightarrow> string \<Rightarrow> string \<Rightarrow> string list \<Rightarrow> string" where
  "canonical_op copy whole access ops =
     (let op = (if copy then ''COPY'' else if is_avg whole then ''AVG'' else if is_grad whole then ''GRAD''
                else if is_flux whole access then ''FLUX'' else ''?'') in
      if op \<notin> set ops \<and> op \<noteq> ''?'' then ''?'' else op)"

definition canonical_dim :: "string list \<Rightarrow> string \<Rightarrow> nat option" where
  "canonical_dim stmts access =
     (let st = hd stmts;
          rhs = (case re_search (write_re access) st of Some m \<Rightarrow> drop (m_end m) st | None \<Rightarrow> st) in
      case difference_position rhs access of
        Some d \<Rightarrow> Some d
      | None \<Rightarrow> difference_position (join '' '' stmts) access)"

definition shape_of :: "string list \<Rightarrow> string list \<Rightarrow> string \<Rightarrow> shape option" where
  "shape_of body ops access =
     (let loops = loop_headers body; stmts = access_stmts body access in
      if stmts = [] then None
      else
        let copy = is_copy stmts access; need = (if copy then 2 else 3) in
        if length loops < need then None
        else Some \<lparr>sh_op = canonical_op copy (join '' '' stmts) access ops,
                   sh_dim = canonical_dim stmts access, sh_loops = map fst (take need loops)\<rparr>)"

definition OPS :: "string list" where
  "OPS = [''AVG'', ''GRAD'', ''FLUX'', ''COPY'']"

section \<open>Discovery\<close>

text \<open>\<open>found.setdefault(shape, []).append(ln)\<close>.\<close>

definition append_at :: "'k \<Rightarrow> 'v \<Rightarrow> ('k \<times> 'v list) list \<Rightarrow> ('k \<times> 'v list) list" where
  "append_at k v d = AList.update k ((case map_of d k of None \<Rightarrow> [] | Some vs \<Rightarrow> vs) @ [v]) d"

definition classify :: "string \<Rightarrow> (nat \<times> string list) list \<Rightarrow> (shape \<times> nat list) list" where
  "classify access blks =
     fold (\<lambda>(ln, body) found. case shape_of body OPS access of None \<Rightarrow> found | Some s \<Rightarrow> append_at s ln found) blks []"

definition scoped :: "string \<Rightarrow> string option \<Rightarrow> discovery_error + string" where
  "scoped text routine =
     (case routine of None \<Rightarrow> Inr text | Some r \<Rightarrow> if r = [] then Inr text else scope_to_routine text r)"

definition discover :: "string \<Rightarrow> string option \<Rightarrow> string \<Rightarrow> discovery_error + (shape \<times> nat list) list" where
  "discover text routine access =
     rbind (scoped text routine) (\<lambda>t.
       let blks = blocks t None in
       Inr (classify access (if blks = [] then anchorless_blocks t else blks)))"

section \<open>The report\<close>

definition ljust :: "nat \<Rightarrow> string \<Rightarrow> string" where
  "ljust n s = s @ replicate (n - length s) CHR '' ''"

definition rjust :: "nat \<Rightarrow> string \<Rightarrow> string" where
  "rjust n s = replicate (n - length s) CHR '' '' @ s"

definition str_list :: "nat list \<Rightarrow> string" where
  "str_list xs = concat [''['', join '', '' (map str_nat xs), '']'']"

definition dim_text :: "nat option \<Rightarrow> string" where
  "dim_text d = (case d of None \<Rightarrow> ''None'' | Some n \<Rightarrow> str_nat n)"

definition shape_line :: "shape \<times> nat list \<Rightarrow> string" where
  "shape_line x =
     (case x of (s, lns) \<Rightarrow>
        concat [''  '', ljust 5 (sh_op s), '' dim'', dim_text (sh_dim s), ''   '',
          ljust 22 (concat [str_nat (length lns), '' loop(s) = '', str_nat (length lns div 2), '' pair(s)'']),
          '' lines '', str_list lns])"

definition shape_key :: "shape \<times> nat list \<Rightarrow> string \<times> int" where
  "shape_key x = (sh_op (fst x), case sh_dim (fst x) of None \<Rightarrow> - 1 | Some d \<Rightarrow> int d)"

definition report :: "string \<Rightarrow> string option \<Rightarrow> string \<Rightarrow> discovery_error + string" where
  "report text routine source =
     rbind (scoped text routine) (\<lambda>t.
       let nests = blocks t None;
           found = classify ACCESS nests;
           unrecognised = map fst (filter (\<lambda>(ln, body). shape_of body OPS ACCESS = None) nests) in
       Inr (unlines_lf (
         (case routine of None \<Rightarrow> [] | Some r \<Rightarrow> if r = [] then [] else [''scoped to '' @ r]) @
         [concat [str_nat (length nests), '' collapse(3) nest(s) in '', source]] @
         map (\<lambda>ln. concat [''  line '', rjust 5 (str_nat ln),
           ''  (not a simple 3-deep nest -- UNRECOGNISED, not classified)'']) unrecognised @
         [''SHAPES DISCOVERED (op, difference subscript position):''] @
         map shape_line (sort_key shape_key found) @
         [concat [str_nat (length found), '' distinct shape(s), '', str_nat (length unrecognised),
           '' unrecognised nest(s)'']])))"

section \<open>Extraction\<close>

definition extract_nest :: "string \<Rightarrow> nat \<Rightarrow> discovery_error + string" where
  "extract_nest text line =
     (let ls = lines_of text in
      if 1 \<le> line \<and> line \<le> length ls then Inr (unlines_lf (nest_body ls line)) else Inl LineOutside)"

definition nest_at_nest_index :: "string \<Rightarrow> nat \<Rightarrow> nat \<Rightarrow> discovery_error + string" where
  "nest_at_nest_index text index collapse =
     (let found = blocks text (Some collapse) in
      if index < length found then Inr (unlines_lf (snd (found ! index))) else Inl NoNest)"

definition routine_re :: "string \<Rightarrow> regex" where
  "routine_re name = seqs [Bol, many re_space, Grp 1 (alts [ilit ''subroutine'', ilit ''function'']), some1 re_space,
     ilit name, Wordb]"

definition extract_routine :: "string \<Rightarrow> string \<Rightarrow> discovery_error + string" where
  "extract_routine text name =
     (let ls = lines_of text in
      case first_index (\<lambda>l. re_match (routine_re name) l \<noteq> None) 0 ls of
        None \<Rightarrow> Inl (NoSuchName name)
      | Some b \<Rightarrow>
          (let kind = (if re_match (seqs [many re_space, ilit ''function'']) (ls ! b) \<noteq> None
                       then ''function'' else ''subroutine'') in
           case first_index (\<lambda>l. re_match (seqs [many re_space, ilit ''end'', many re_space, ilit kind]) l \<noteq> None)
                  (Suc b) (drop (Suc b) ls) of
             None \<Rightarrow> Inl (NoEnd name (b + 1))
           | Some e \<Rightarrow> Inr (unlines_lf (drop b (take (e + 1) ls)))))"

definition else_re :: regex where
  "else_re = seqs [many re_space, ilit ''else'', Wordb]"

definition cond_re :: regex where
  "cond_re = seqs [ilit ''if'', many re_space, chr_re CHR ''('', Grp 1 (many re_dot), chr_re CHR '')'', many re_space, ilit ''then'']"

definition if_re :: regex where
  "if_re = Seq (many re_space) cond_re"

definition else_if_re :: regex where
  "else_if_re = seqs [many re_space, ilit ''else'', some1 re_space, cond_re]"

definition any_if_re :: regex where
  "any_if_re = seqs [many re_space, opt (Seq (ilit ''else'') (some1 re_space)), cond_re]"

text \<open>The lines before the place, nearest first.\<close>

fun outer_guard :: "string list \<Rightarrow> string option" where
  "outer_guard [] = None"
| "outer_guard (l # ls) =
     (case re_match any_if_re l of Some m \<Rightarrow> Some (strip (grp0 m 1)) | None \<Rightarrow> outer_guard ls)"

fun branch_scan :: "string list \<Rightarrow> string" where
  "branch_scan [] = []"
| "branch_scan (l # ls) =
     (if re_match else_re l \<noteq> None then
        (case outer_guard ls of
           None \<Rightarrow> ''!(else)''
         | Some g \<Rightarrow>
             (let outer = concat [''!.('', g, '')''] in
              case re_match else_if_re l of
                Some m \<Rightarrow> concat [outer, '' && ('', strip (grp0 m 1), '')'']
              | None \<Rightarrow> outer))
      else
        (case re_match if_re l of Some m \<Rightarrow> strip (grp0 m 1) | None \<Rightarrow> branch_scan ls))"

definition branch_of :: "string \<Rightarrow> nat \<Rightarrow> string" where
  "branch_of text line = branch_scan (rev (take line (lines_of text)))"


section \<open>Grouping\<close>

lemma map_of_append_at:
  "map_of (append_at k v d) x = (if x = k then Some ((case map_of d k of None \<Rightarrow> [] | Some vs \<Rightarrow> vs) @ [v]) else map_of d x)"
  by (simp add: append_at_def update_conv)

lemma classify_snoc:
  "classify access (blks @ [(ln, body)]) =
     (case shape_of body OPS access of None \<Rightarrow> classify access blks
      | Some s \<Rightarrow> append_at s ln (classify access blks))"
  by (simp add: classify_def split: option.split)

lemma classify_groups:
  "map_of (classify access blks) s =
     (let lns = map fst (filter (\<lambda>b. shape_of (snd b) OPS access = Some s) blks) in
      if lns = [] then None else Some lns)"
proof (induction blks rule: rev_induct)
  case Nil
  show ?case by (simp add: classify_def)
next
  case (snoc b blks)
  obtain ln body where b: "b = (ln, body)" by (cases b)
  show ?case
  proof (cases "shape_of body OPS access")
    case None
    with snoc show ?thesis by (simp add: b classify_snoc)
  next
    case (Some r)
    with snoc show ?thesis by (auto simp: b classify_snoc map_of_append_at Let_def)
  qed
qed


section \<open>Nests and lines\<close>

lemma blocks_body:
  "(ln, body) \<in> set (blocks text c) \<Longrightarrow> 1 \<le> ln \<and> ln \<le> length (lines_of text) \<and> body = nest_body (lines_of text) ln"
  by (auto simp: blocks_def block_at_def Let_def split: option.splits if_splits)

lemma anchorless_from_body:
  "(ln, body) \<in> set (anchorless_from ls i) \<Longrightarrow> ln < length ls \<and> body = nest_body ls ln"
proof (induction ls i rule: anchorless_from.induct)
  case (1 ls i)
  from "1.prems" show ?case
    by (subst (asm) anchorless_from.simps) (use "1.IH" in \<open>auto split: if_splits\<close>)
qed

text \<open>Discovery and extraction speak of the same nests: extracting at the line a nest is reported
  at gives that nest. The fallback for text without anchors counts lines from zero, so a nest on the
  very first line is reported at line 0, which extraction refuses.\<close>

theorem discovered_nest_is_extracted:
  "((ln, body) \<in> set (blocks text c) \<longrightarrow> extract_nest text ln = Inr (unlines_lf body)) \<and>
   ((ln, body) \<in> set (anchorless_blocks text) \<longrightarrow>
      extract_nest text ln = (if ln = 0 then Inl LineOutside else Inr (unlines_lf body)))"
  using blocks_body [of ln body "text" c] anchorless_from_body [of ln body "lines_of text" 0]
  by (auto simp: extract_nest_def anchorless_blocks_def Let_def)

definition ex_text :: string where
  "ex_text = unlines_lf [''do j = 1, n'', ''  a%sf(j) = b%sf(j)'', ''end do'']"

theorem discovered_nest_is_extracted_witness:
  "anchorless_blocks ex_text = [(0, lines_of ex_text)] \<and> extract_nest ex_text 0 = Inl LineOutside"
proof -
  have b: "anchorless_blocks ex_text = [(0, lines_of ex_text)]" by code_simp
  then show ?thesis
    using discovered_nest_is_extracted [of 0 "lines_of ex_text" ex_text None] by simp
qed

definition ex_copy :: string where
  "ex_copy = unlines_lf [''$acc parallel loop'', ''do i=1,n'', ''do j=1,m'', ''q%sf(j)=p%sf(j-1)'', ''end do'', ''end do'']"


section \<open>The extent of a nest\<close>

text \<open>Loops as they are written with one \<open>do\<close> or one \<open>end do\<close> on a line.\<close>

datatype loop_tree = Line string | Loop string "loop_tree list" string

fun tree_lines :: "loop_tree \<Rightarrow> string list" where
  "tree_lines (Line l) = [l]"
| "tree_lines (Loop h ts e) = h # concat (map tree_lines ts) @ [e]"

definition plain_line :: "string \<Rightarrow> bool" where
  "plain_line l \<longleftrightarrow> \<not> opens_loop l \<and> loop_ends l = 0"

fun tree_ok :: "loop_tree \<Rightarrow> bool" where
  "tree_ok (Line l) = plain_line l"
| "tree_ok (Loop h ts e) = (opens_loop h \<and> loop_ends h = 0 \<and> list_all tree_ok ts \<and> \<not> opens_loop e \<and> loop_ends e = 1)"

lemma nest_scan_plain: "plain_line l \<Longrightarrow> 0 < d \<Longrightarrow> nest_scan d True (l # ls) = l # nest_scan d True ls"
  by (simp add: plain_line_def Let_def)

lemma nest_scan_open:
  "opens_loop h \<Longrightarrow> loop_ends h = 0 \<Longrightarrow> 0 \<le> d \<Longrightarrow> nest_scan d st (h # ls) = h # nest_scan (d + 1) True ls"
  by (simp add: Let_def)

lemma nest_scan_close:
  "\<not> opens_loop e \<Longrightarrow> loop_ends e = 1 \<Longrightarrow>
     nest_scan d True (e # ls) = (if d \<le> 1 then [e] else e # nest_scan (d - 1) True ls)"
  by (simp add: Let_def)

declare nest_scan.simps(2) [simp del]

text \<open>Inside a nest of positive depth a whole loop is passed over.\<close>

lemma nest_scan_forest:
  assumes "\<And>t d rest. t \<in> set ts \<Longrightarrow> tree_ok t \<Longrightarrow> 0 < d \<Longrightarrow>
      nest_scan d True (tree_lines t @ rest) = tree_lines t @ nest_scan d True rest"
    and "list_all tree_ok ts" and "0 < d"
  shows "nest_scan d True (concat (map tree_lines ts) @ rest) = concat (map tree_lines ts) @ nest_scan d True rest"
  using assms by (induction ts) simp_all

lemma nest_scan_tree:
  "tree_ok t \<Longrightarrow> 0 < d \<Longrightarrow> nest_scan d True (tree_lines t @ rest) = tree_lines t @ nest_scan d True rest"
proof (induction t arbitrary: d rest)
  case (Line l)
  then show ?case by (simp add: nest_scan_plain)
next
  case (Loop h ts e)
  have "nest_scan (d + 1) True (concat (map tree_lines ts) @ e # rest) =
      concat (map tree_lines ts) @ nest_scan (d + 1) True (e # rest)"
    by (rule nest_scan_forest) (use Loop in auto)
  with Loop.prems show ?case by (simp add: nest_scan_open nest_scan_close)
qed

lemma nest_scan_skip: "\<forall>l \<in> set pre. \<not> opens_loop l \<Longrightarrow> nest_scan 0 False (pre @ ls) = pre @ nest_scan 0 False ls"
  by (induction pre) (simp_all add: nest_scan.simps(2))

text \<open>A nest is taken whole and stops at its own end: from any place before it that has no loop in
  between, the lines collected are those up to and including the \<open>end do\<close> of the outermost loop,
  however deep the loops inside it and whatever follows.\<close>

theorem nest_body_is_the_nest:
  assumes "drop start ls = pre @ tree_lines (Loop h ts e) @ rest" and "tree_ok (Loop h ts e)"
    and "\<forall>l \<in> set pre. \<not> opens_loop l"
  shows "nest_body ls start = pre @ tree_lines (Loop h ts e)"
proof -
  have "nest_scan 1 True (concat (map tree_lines ts) @ e # rest) = concat (map tree_lines ts) @ nest_scan 1 True (e # rest)"
    by (rule nest_scan_forest) (use assms(2) nest_scan_tree in auto)
  then have "nest_scan 0 False (tree_lines (Loop h ts e) @ rest) = tree_lines (Loop h ts e)"
    using assms(2) by (simp add: nest_scan_open nest_scan_close)
  with assms(1,3) show ?thesis by (simp add: nest_body_def nest_scan_skip)
qed

definition ex_tree :: loop_tree where
  "ex_tree = Loop ''do k = 0, n'' [Line ''  x = 1 ! end do'', Loop ''  do j = 0, m'' [Line ''    a(j, k) = x''] ''  end do''] ''enddo''"

theorem nest_body_is_the_nest_witness:
  "nest_body ([''!$acc parallel loop''] @ tree_lines ex_tree @ [''do i = 1, 2'', ''end do'']) 1 = tree_lines ex_tree"
proof -
  have t: "tree_ok ex_tree" by code_simp
  obtain h ts e where x: "ex_tree = Loop h ts e" by (simp add: ex_tree_def)
  show ?thesis
    using nest_body_is_the_nest [of 1 "[''!$acc parallel loop''] @ tree_lines ex_tree @ [''do i = 1, 2'', ''end do'']"
        "[]" h ts e "[''do i = 1, 2'', ''end do'']"] t
    unfolding x by simp
qed

end
