(* ===== verification/Tu_Emit.thy ===== *)
theory Tu_Emit
  imports Tu_Arms Discovery
begin

text \<open>
  The rest of \<open>tu.py\<close>: the module around a nest with its wrapped signature, the axis of a shape, the
  arithmetic signature of a unit, the aliases of a routine, the subscripts and the dummies of its
  statements, and the direction in which a nest's stencil reaches.
\<close>

datatype emit_error =
    NoLoops
  | EmitIndexError
  | NotAnAssignment
  | NoAccess
  | Unbalanced
  | TooFewSubscripts nat
  | Nest arms_error
  | Extract discovery_error

section \<open>The module\<close>

record tu_dummy =
  du_name :: string
  du_rank :: nat
  du_intent :: "string option"   \<comment> \<open>\<open>inout\<close> for a pair\<close>

definition intent_of :: "tu_dummy \<Rightarrow> string" where
  "intent_of d = (case du_intent d of None \<Rightarrow> ''inout'' | Some i \<Rightarrow> i)"

definition dummy_decl :: "string \<Rightarrow> tu_dummy \<Rightarrow> string" where
  "dummy_decl wp d = concat [''    real('', wp, ''), intent('', intent_of d, '') :: '', du_name d, ''('',
     join '', '' (replicate (du_rank d) ''0:''), '')'']"

fun wrap_sig :: "string \<Rightarrow> string list \<Rightarrow> string list" where
  "wrap_sig cur [] = [cur @ '')'']"
| "wrap_sig cur [n] =
     (if length cur + 1 + length n + 1 \<le> 100 then [cur @ '' '' @ n @ '')'']
      else [cur @ '' &'', ''      & '' @ n @ '')''])"
| "wrap_sig cur (n # m # ns) =
     (let piece = n @ '','' in
      if length cur + 1 + length piece \<le> 100 then wrap_sig (cur @ '' '' @ piece) (m # ns)
      else (cur @ '' &'') # wrap_sig (''      & '' @ piece) (m # ns))"

definition sig_lines :: "string \<Rightarrow> string list \<Rightarrow> string list" where
  "sig_lines krn sig = wrap_sig (concat [''  subroutine '', krn, ''('']) sig"

definition tu_module :: "string \<Rightarrow> string \<Rightarrow> tu_dummy list \<Rightarrow> string list \<Rightarrow> string \<Rightarrow> string list \<Rightarrow> bounds list \<Rightarrow>
    string \<Rightarrow> nat \<Rightarrow> string list \<Rightarrow> emit_error + string" where
  "tu_module name krn dums scalars body nest_vars nest_bnds doc wp lcls =
     (case nest_text nest_vars nest_bnds body of
        Inl e \<Rightarrow> Inl (Nest e)
      | Inr nst \<Rightarrow> Inr (join [LF]
          [''module '' @ name,
           ''  implicit none'',
           ''  integer, parameter :: wp = '' @ str_nat wp,
           ''contains'',
           ''  !> '' @ doc,
           join [LF] (sig_lines krn (map du_name dums @ scalars)),
           ''    implicit none'',
           join [LF] (map (dummy_decl (str_nat wp)) dums),
           ''    integer, intent(in) :: '' @ join '', '' scalars,
           ''    integer :: '' @ join '', '' nest_vars,
           (if lcls = [] then [] else concat [''    real('', str_nat wp, '') :: '', join '', '' lcls]),
           [],
           nst,
           ''  end subroutine '' @ krn,
           ''end module '' @ name,
           []]))"

section \<open>Analysing a shape's nests\<close>

definition axis_index :: "shape \<Rightarrow> emit_error + int" where
  "axis_index s =
     (if sh_loops s = [] then Inl NoLoops
      else Inr (int (length (sh_loops s)) - 1 - (case sh_dim s of None \<Rightarrow> 0 | Some d \<Rightarrow> int d)))"

definition axis_letter :: "shape \<Rightarrow> emit_error + string option" where
  "axis_letter s =
     (if sh_loops s = [] then Inr None
      else rbind (axis_index s) (\<lambda>i.
           case py_nth (sh_loops s) i of None \<Rightarrow> Inl EmitIndexError | Some l \<Rightarrow> Inr (Some l)))"

definition nest_bounds :: "string \<Rightarrow> (string \<times> string \<times> string) list" where
  "nest_bounds body = loop_headers (lines_of body)"

definition continuation_re :: regex where
  "continuation_re = seqs [chr_re CHR ''&'', many re_space, chr_re LF, many re_space, opt (chr_re CHR ''&'')]"

definition kernel_name_re :: regex where
  "kernel_name_re = seqs [Wordb, some1 re_word, lit ''_mod_kernel'', Wordb]"

definition unit_name_re :: regex where
  "unit_name_re = seqs [Wordb, some1 re_word, lit ''_mod'', Wordb]"

definition do_name_re :: regex where
  "do_name_re = seqs [lit ''do'', some1 re_space, Grp 1 (some1 re_word), many re_space, chr_re CHR ''='']"

definition signature_line :: "string \<Rightarrow> string" where
  "signature_line ln =
     (let s = join '' '' (split_ws ln) in
      case re_match do_name_re s of Some m \<Rightarrow> ''do '' @ grp0 m 1 | None \<Rightarrow> s)"

definition shape_signature :: "string \<Rightarrow> string" where
  "shape_signature unit_src =
     (let s0 = unlines_lf (filter (\<lambda>l. \<not> startswith (strip l) ''!>'') (lines_of unit_src));
          s1 = re_sub (\<lambda>_. '' '') continuation_re s0;
          s2 = re_sub (\<lambda>_. ''KERNEL'') kernel_name_re s1;
          s3 = re_sub (\<lambda>_. ''UNIT'') unit_name_re s2 in
      unlines_lf (map signature_line (lines_of s3)))"

definition ident_grp :: "nat \<Rightarrow> regex" where
  "ident_grp g = Grp g (Seq re_ident_start (many re_word))"

definition rename_re :: regex where
  "rename_re = seqs [many re_space, ident_grp 1, many re_space, chr_re CHR ''='', many re_space, ident_grp 2,
     many re_space, Eol]"

definition alias_pair :: "string \<Rightarrow> (string \<times> string) list" where
  "alias_pair part =
     (case re_match rename_re part of
        Some m \<Rightarrow> (if grp0 m 1 \<noteq> grp0 m 2 then [(grp0 m 1, grp0 m 2)] else [])
      | None \<Rightarrow> [])"

definition alias_pairs :: "string \<Rightarrow> (string \<times> string) list" where
  "alias_pairs txt = concat (map (\<lambda>ln. concat (map alias_pair (split_on CHR '';'' ln))) (lines_of txt))"

definition aliases_of :: "string \<Rightarrow> string list \<Rightarrow> (string \<times> string) list option" where
  "aliases_of txt names = alias_map (alias_pairs txt) names"

section \<open>Subscripts\<close>

definition ACCESS_DEFAULT :: string where
  "ACCESS_DEFAULT = ''%sf''"

text \<open>What follows the first occurrence of a text.\<close>

fun after_first :: "string \<Rightarrow> string \<Rightarrow> string option" where
  "after_first p [] = (if p = [] then Some [] else None)"
| "after_first p (c # s) = (if startswith (c # s) p then Some (drop (length p) (c # s)) else after_first p s)"

text \<open>The text up to the parenthesis that closes the given number of open ones.\<close>

fun close_scan :: "nat \<Rightarrow> string \<Rightarrow> string option" where
  "close_scan d [] = None"
| "close_scan d (c # s) =
     (if c = CHR ''('' then map_option ((#) c) (close_scan (d + 1) s)
      else if c = CHR '')'' then (if d = 1 then Some [] else map_option ((#) c) (close_scan (d - 1) s))
      else map_option ((#) c) (close_scan d s))"

definition subs_of :: "string \<Rightarrow> int \<Rightarrow> string \<Rightarrow> emit_error + string" where
  "subs_of access pos side =
     (case after_first (access @ ''('') side of
        None \<Rightarrow> Inl NoAccess
      | Some rest \<Rightarrow>
          (case close_scan 1 rest of
             None \<Rightarrow> Inl Unbalanced
           | Some body \<Rightarrow>
               (let parts = split_top 0 [] body in
                if int (length parts) < pos then Inl (TooFewSubscripts (length parts))
                else of_option EmitIndexError (py_nth parts (pos - 1)))))"

definition subscripts :: "string \<Rightarrow> int \<Rightarrow> string \<Rightarrow> emit_error + string \<times> string" where
  "subscripts stmt pos access =
     (if \<not> contains ''='' stmt then Inl NotAnAssignment
      else rbind (subs_of access pos (before_first CHR ''='' stmt)) (\<lambda>l.
           rbind (subs_of access pos (after_eq stmt)) (\<lambda>r. Inr (l, r))))"

section \<open>Dummies\<close>

definition NOT_DATA :: "string list" where
  "NOT_DATA = [''real'', ''mod'', ''min'', ''max'', ''abs'', ''sqrt'', ''exp'', ''log'', ''sin'', ''cos'', ''tan'', ''int'', ''nint'',
     ''if'', ''do'', ''end'', ''then'', ''write'', ''read'', ''open'', ''close'', ''size'', ''sum'', ''allocated'',
     ''present'', ''trim'', ''reshape'', ''matmul'', ''sign'', ''dim'', ''epsilon'', ''huge'', ''tiny'', ''null'']"

type_synonym dummy_tab = "(string \<times> nat \<times> string) list \<times> (string \<times> string) list"

definition add_dummy :: "string \<times> nat \<Rightarrow> dummy_tab \<Rightarrow> dummy_tab" where
  "add_dummy br tab =
     (case (br, tab) of ((base, rank), (out, seen)) \<Rightarrow>
        if base \<in> fst ` set seen then (out, seen)
        else let d = CHR ''a'' # str_nat (length seen + 1) in (out @ [(d, rank, base)], seen @ [(base, d)]))"

definition comp_subscript_re :: regex where
  "comp_subscript_re = seqs [chr_re CHR ''('', many (Cls True [(41, 41)]), chr_re CHR '')'']"

definition component_re :: "string \<Rightarrow> regex" where
  "component_re access = seqs [Grp 1 (seqs [re_ident_start, many re_word, opt comp_subscript_re,
       many (seqs [chr_re CHR ''%'', some1 re_word, opt comp_subscript_re])]),
     lit access, many re_space, chr_re CHR ''('', Grp 2 (many (Cls True [(41, 41)])), chr_re CHR '')'']"

definition comma_count :: "string \<Rightarrow> nat" where
  "comma_count s = length (filter (\<lambda>c. c = CHR '','') s)"

definition component_accesses :: "string \<Rightarrow> string \<Rightarrow> (string \<times> nat) list" where
  "component_accesses access st =
     map (\<lambda>m. (grp0 m 1, length (split_on CHR '','' (grp0 m 2)))) (re_finditer (component_re access) st)"

definition plain_re :: regex where
  "plain_re = seqs [Wordb, ident_grp 1, many re_space, chr_re CHR ''('']"

text \<open>The index of the parenthesis that brings the depth back to zero, or the length of the text.\<close>

fun paren_end :: "int \<Rightarrow> nat \<Rightarrow> string \<Rightarrow> nat" where
  "paren_end depth j [] = j"
| "paren_end depth j (c # s) =
     (if c = CHR ''('' then paren_end (depth + 1) (j + 1) s
      else if c = CHR '')'' then (if depth - 1 = 0 then j else paren_end (depth - 1) (j + 1) s)
      else paren_end depth (j + 1) s)"

definition plain_access :: "string \<Rightarrow> rmatch \<Rightarrow> (string \<times> nat) list" where
  "plain_access st m =
     (let name = grp0 m 1; j = paren_end 0 (m_end m - 1) (drop (m_end m - 1) st) in
      if lower name \<in> set NOT_DATA then []
      else if m_start m \<noteq> 0 \<and> take 1 (drop (m_start m - 1) st) = ''%'' then []
      else if take 1 (drop (j + 1) st) = ''%'' then []
      else [(name, comma_count (take (j - m_end m) (drop (m_end m) st)) + 1)])"

definition plain_accesses :: "string \<Rightarrow> (string \<times> nat) list" where
  "plain_accesses st = concat (map (plain_access st) (re_finditer plain_re st))"

definition dummies :: "string list \<Rightarrow> string \<Rightarrow> dummy_tab" where
  "dummies stmts access =
     fold add_dummy (concat (map (component_accesses access) stmts) @ concat (map plain_accesses stmts)) ([], [])"

section \<open>Arms by direction\<close>

record arm =
  arm_line :: nat
  arm_body :: string
  arm_stmts :: "string list"
  arm_dim :: "nat option"
  arm_reaches :: string

definition loop_var_re :: regex where
  "loop_var_re = seqs [many re_space, lit ''do'', some1 re_space, Grp 1 (Seq (Cls False [(97, 122), (95, 95)]) (many re_word)),
     many re_space, chr_re CHR ''='']"

definition loop_vars :: "string \<Rightarrow> string list" where
  "loop_vars body =
     concat (map (\<lambda>l. case re_match loop_var_re l of Some m \<Rightarrow> [grp0 m 1] | None \<Rightarrow> []) (lines_of body))"

definition shifted_re :: "char \<Rightarrow> string \<Rightarrow> regex" where
  "shifted_re sg v = seqs [Wordb, lit v, many re_space, chr_re sg, many re_space, chr_re CHR ''1'', Wordb]"

definition shifts :: "char \<Rightarrow> string \<Rightarrow> string list \<Rightarrow> string list \<Rightarrow> bool" where
  "shifts sg access vars stmts =
     list_ex (\<lambda>m. list_ex (\<lambda>sub. list_ex (\<lambda>v. re_search (shifted_re sg v) (strip sub) \<noteq> None) vars)
       (split_on CHR '','' (grp0 m 1))) (re_finditer (access_re access) (join '' '' stmts))"

definition reaches :: "bool \<Rightarrow> bool \<Rightarrow> string" where
  "reaches down up = (if down \<and> \<not> up then ''down'' else if up \<and> \<not> down then ''up'' else ''both/neither'')"

definition arm_of :: "string \<Rightarrow> string \<Rightarrow> nat \<Rightarrow> emit_error + arm" where
  "arm_of access txt ln =
     (case extract_nest txt ln of
        Inl e \<Rightarrow> Inl (Extract e)
      | Inr body \<Rightarrow>
          (let stmts = statements (lines_of body); vars = loop_vars body in
           Inr \<lparr>arm_line = ln, arm_body = body, arm_stmts = stmts,
                arm_dim = difference_position (join '' '' stmts) ACCESS,
                arm_reaches = reaches (shifts CHR ''-'' access vars stmts) (shifts CHR ''+'' access vars stmts)\<rparr>))"

definition arms_of :: "string \<Rightarrow> nat list \<Rightarrow> string \<Rightarrow> emit_error + arm list" where
  "arms_of txt lns access = rmap (arm_of access txt) lns"


section \<open>The signature\<close>

text \<open>A wrapped signature read as one line: the mark that ends a line and the one that starts the next,
  with their blanks but one, are taken out.\<close>

fun unwrap_sig :: "string list \<Rightarrow> string" where
  "unwrap_sig [] = []"
| "unwrap_sig [l] = l"
| "unwrap_sig (l # k # ls) = take (length l - 2) l @ drop 7 (unwrap_sig (k # ls))"

lemma wrap_sig_nonempty [simp]: "wrap_sig cur ns \<noteq> []"
  by (induction cur ns rule: wrap_sig.induct) (simp_all add: Let_def)

lemma unwrap_break: "ls \<noteq> [] \<Longrightarrow> unwrap_sig ((cur @ '' &'') # ls) = cur @ drop 7 (unwrap_sig ls)"
  by (cases ls) simp_all

lemma unwrap_wrap_sig: "ns \<noteq> [] \<Longrightarrow> unwrap_sig (wrap_sig cur ns) = cur @ '' '' @ join '', '' ns @ '')''"
proof (induction cur ns rule: wrap_sig.induct)
  case (3 cur n m ns)
  then show ?case by (simp add: Let_def unwrap_break)
qed simp_all

lemma wrap_sig_width:
  "length cur \<le> 100 \<Longrightarrow> \<forall>n \<in> set ns. length n \<le> 90 \<Longrightarrow> \<forall>l \<in> set (wrap_sig cur ns). length l \<le> 102"
proof (induction cur ns rule: wrap_sig.induct)
  case (3 cur n m ns)
  then show ?case by (auto simp: Let_def)
qed auto

text \<open>C11. The wrapped signature fits and says the same: no line is longer than 102 columns when the names
  are of ordinary length, and with the continuation marks taken out it is the subroutine statement
  with all arguments in order.\<close>

theorem signature_fits_and_unwraps:
  assumes "length krn \<le> 86" and "\<forall>n \<in> set sig. length n \<le> 90" and "sig \<noteq> []"
  shows "(\<forall>l \<in> set (sig_lines krn sig). length l \<le> 102) \<and>
    unwrap_sig (sig_lines krn sig) = ''  subroutine '' @ krn @ ''( '' @ join '', '' sig @ '')''"
proof -
  let ?cur = "concat [''  subroutine '', krn, ''('']"
  have "length ?cur \<le> 100" using assms(1) by simp
  from wrap_sig_width [OF this assms(2)] unwrap_wrap_sig [OF assms(3), of ?cur]
  show ?thesis unfolding sig_lines_def by simp
qed

theorem signature_fits_and_unwraps_witness:
  "unwrap_sig (sig_lines ''k'' [replicate 60 CHR ''x'', replicate 60 CHR ''y'']) =
     ''  subroutine k( '' @ join '', '' [replicate 60 CHR ''x'', replicate 60 CHR ''y''] @ '')''"
  using signature_fits_and_unwraps [of "''k''" "[replicate 60 CHR ''x'', replicate 60 CHR ''y'']"] by simp

section \<open>The dummies\<close>

definition dummy_wf :: "dummy_tab \<Rightarrow> bool" where
  "dummy_wf tab \<longleftrightarrow>
     map fst (fst tab) = map (\<lambda>i. CHR ''a'' # str_nat i) [1..<Suc (length (fst tab))] \<and>
     snd tab = map (\<lambda>(d, r, b). (b, d)) (fst tab) \<and> distinct (map fst (snd tab))"

lemma add_dummy_wf:
  assumes "dummy_wf tab"
  shows "dummy_wf (add_dummy (base, rank) tab)"
proof -
  obtain out seen where t: "tab = (out, seen)" by (cases tab)
  have o: "map fst out = map (\<lambda>i. CHR ''a'' # str_nat i) [1..<Suc (length out)]"
    and s: "seen = map (\<lambda>(d, r, b). (b, d)) out" and d: "distinct (map fst seen)"
    using assms unfolding dummy_wf_def t fst_conv snd_conv by blast+
  have len: "length seen = length out" by (simp add: s)
  let ?d = "CHR ''a'' # str_nat (length seen + 1)"
  show ?thesis
  proof (cases "base \<in> fst ` set seen")
    case True
    then show ?thesis using assms by (simp add: t add_dummy_def)
  next
    case False
    then have "add_dummy (base, rank) tab = (out @ [(?d, rank, base)], seen @ [(base, ?d)])"
      by (simp add: t add_dummy_def Let_def)
    moreover have "[1..<Suc (length (out @ [(?d, rank, base)]))] = [1..<Suc (length out)] @ [Suc (length out)]"
      by simp
    then have "map fst (out @ [(?d, rank, base)]) =
        map (\<lambda>i. CHR ''a'' # str_nat i) [1..<Suc (length (out @ [(?d, rank, base)]))]"
      using o len by (simp del: upt_Suc)
    moreover have "seen @ [(base, ?d)] = map (\<lambda>(d, r, b). (b, d)) (out @ [(?d, rank, base)])"
      by (simp add: s)
    moreover have "distinct (map fst (seen @ [(base, ?d)]))" using d False by simp
    ultimately show ?thesis unfolding dummy_wf_def by simp
  qed
qed

lemma add_dummy_bases: "fst ` set (snd (add_dummy (base, rank) tab)) = insert base (fst ` set (snd tab))"
  by (cases tab) (auto simp: add_dummy_def Let_def)

lemma fold_add_dummy:
  "dummy_wf tab \<Longrightarrow> dummy_wf (fold add_dummy xs tab) \<and>
     fst ` set (snd (fold add_dummy xs tab)) = fst ` set (snd tab) \<union> fst ` set xs"
proof (induction xs arbitrary: tab)
  case (Cons x xs)
  obtain b r where x: "x = (b, r)" by (cases x)
  from Cons.IH [OF add_dummy_wf [OF Cons.prems, of b r]] show ?case by (simp add: x add_dummy_bases)
qed simp

text \<open>Every accessed array gets exactly one dummy: the dummies are \<open>a1\<close>, \<open>a2\<close> and so on without a gap,
  no two arrays share one and no array has two, and the arrays are those the statements access through
  the component or by a subscript.\<close>

theorem dummies_one_per_array:
  "\<exists>out seen. dummies stmts access = (out, seen) \<and>
     map fst out = map (\<lambda>i. CHR ''a'' # str_nat i) [1..<Suc (length out)] \<and>
     seen = map (\<lambda>(d, r, b). (b, d)) out \<and> distinct (map fst out) \<and> distinct (map fst seen) \<and>
     fst ` set seen = fst ` set (concat (map (component_accesses access) stmts) @ concat (map plain_accesses stmts))"
proof -
  let ?t = "dummies stmts access"
  have w: "dummy_wf ([], [])" by (simp add: dummy_wf_def)
  have "dummy_wf ?t \<and> fst ` set (snd ?t) =
      fst ` set (concat (map (component_accesses access) stmts) @ concat (map plain_accesses stmts))"
    using fold_add_dummy [OF w] unfolding dummies_def by (simp only: snd_conv list.set image_empty Un_empty_left)
  moreover have "distinct (map (\<lambda>i. CHR ''a'' # str_nat i) [1..<Suc n])" for n
    by (simp add: distinct_map inj_on_def str_nat_inj del: upt_Suc)
  ultimately show ?thesis
    unfolding dummy_wf_def by (metis prod.collapse)
qed

section \<open>Subscripts\<close>

lemma close_scan_bal:
  "bal d s \<Longrightarrow> 0 < k \<Longrightarrow> close_scan (d + k) (s @ rest) = map_option ((@) s) (close_scan k rest)"
proof (induction d s rule: bal.induct)
  case (1 d)
  then show ?case by (simp add: option.map_ident)
next
  case (2 d c s)
  then show ?case
    by (cases "c = CHR ''(''"; cases "c = CHR '')''") (simp_all add: option.map_comp comp_def)
qed

lemma close_scan_join:
  "\<forall>s \<in> set ss. bal 0 s \<Longrightarrow> close_scan 1 (join '','' ss @ CHR '')'' # post) = Some (join '','' ss)"
proof (induction ss rule: induct_list012)
  case (2 s)
  then show ?case using close_scan_bal [of 0 s 1] by simp
next
  case (3 s t ss)
  then show ?case using close_scan_bal [of 0 s 1] by simp
qed simp

lemma subs_of_join:
  assumes "after_first (access @ ''('') side = Some (join '','' ss @ CHR '')'' # post)" "\<forall>s \<in> set ss. bal 0 s"
    and "1 \<le> pos" "pos \<le> length ss"
  shows "subs_of access (int pos) side = Inr (strip (ss ! (pos - 1)))"
proof -
  have "ss \<noteq> []" using assms(3,4) by auto
  then have "split_top 0 [] (join '','' ss) = map strip ss" "close_scan 1 (join '','' ss @ CHR '')'' # post) = Some (join '','' ss)"
    using split_top_join close_scan_join assms(2) by blast+
  moreover have "py_nth (map strip ss) (int pos - 1) = Some (strip (ss ! (pos - 1)))"
  proof -
    have p: "int pos - 1 = int (pos - 1)" "pos - 1 < length (map strip ss)" using assms(3,4) by auto
    show ?thesis unfolding p(1) py_nth_int [OF p(2)] using assms(3,4) by simp
  qed
  ultimately show ?thesis
    using assms(1,4) by (simp add: subs_of_def del: join.simps)
qed

text \<open>Subscripts are split where the language splits them: of an assignment whose sides access storage
  with subscript lists of balanced expressions, the answer is the asked-for expression of each side,
  blanks off, whatever parentheses and commas the expressions have inside.\<close>

theorem subscripts_of_access:
  assumes "stmt = l @ CHR ''='' # r" and "CHR ''='' \<notin> set l"
    and "after_first (access @ ''('') l = Some (join '','' ss @ CHR '')'' # post)"
    and "after_first (access @ ''('') r = Some (join '','' ts @ CHR '')'' # post')"
    and "\<forall>s \<in> set ss \<union> set ts. bal 0 s" and "1 \<le> pos" and "pos \<le> length ss" and "pos \<le> length ts"
  shows "subscripts stmt (int pos) access = Inr (strip (ss ! (pos - 1)), strip (ts ! (pos - 1)))"
proof -
  have "contains ''='' (u @ CHR ''='' # r)" for u
    by (induction u) (auto simp: startswith_def)
  moreover have "takeWhile (\<lambda>c. c \<noteq> CHR ''='') stmt = l" "dropWhile (\<lambda>c. c \<noteq> CHR ''='') stmt = CHR ''='' # r"
    using assms(2) unfolding assms(1) by (induction l) auto
  then have "before_first CHR ''='' stmt = l" "after_eq stmt = r"
    by (simp_all add: before_first_def after_eq_def)
  ultimately show ?thesis
    using assms subs_of_join [OF assms(3) _ assms(6,7)] subs_of_join [OF assms(4) _ assms(6,8)]
    by (simp add: subscripts_def)
qed

theorem subscripts_of_access_witness:
  "subscripts ''q%sf(-j, k) = q%sf(m - (j - 1), k)'' 1 ''%sf'' = Inr (''-j'', ''m - (j - 1)'')"
proof -
  have "after_first ''%sf('' ''q%sf(-j, k) '' = Some (join '','' [''-j'', '' k''] @ CHR '')'' # '' '')"
    "after_first ''%sf('' '' q%sf(m - (j - 1), k)'' = Some (join '','' [''m - (j - 1)'', '' k''] @ CHR '')'' # [])"
    by code_simp+
  moreover have "\<forall>s \<in> set [''-j'', '' k''] \<union> set [''m - (j - 1)'', '' k'']. bal 0 s" by code_simp
  moreover have "strip ''-j'' = ''-j''" "strip ''m - (j - 1)'' = ''m - (j - 1)''" by code_simp+
  ultimately show ?thesis
    using subscripts_of_access [of _ "''q%sf(-j, k) ''" "'' q%sf(m - (j - 1), k)''" "''%sf''" "[''-j'', '' k'']" "'' ''"
        "[''m - (j - 1)'', '' k'']" "[]" 1, OF refl] by simp
qed

section \<open>The axis\<close>

text \<open>The axis of a shape is a loop position exactly when the shape kept a loop for it. For a difference
  on the first storage dimension beyond the kept loops the index is -1, and the letter is that of the
  innermost loop instead of none.\<close>

theorem axis_of_dropped_loop:
  assumes "sh_loops s \<noteq> []" and "sh_dim s = Some d"
  shows "\<exists>i. axis_index s = Inr i \<and> i < int (length (sh_loops s)) \<and> (0 \<le> i \<longleftrightarrow> d < length (sh_loops s)) \<and>
    (d < length (sh_loops s) \<longrightarrow> axis_letter s = Inr (Some (rev (sh_loops s) ! d))) \<and>
    (d = length (sh_loops s) \<longrightarrow> i = - 1 \<and> axis_letter s = Inr (Some (last (sh_loops s))))"
proof -
  let ?n = "length (sh_loops s)"
  have i: "axis_index s = Inr (int ?n - 1 - int d)" using assms by (simp add: axis_index_def)
  have "axis_letter s = Inr (Some (rev (sh_loops s) ! d))" if "d < ?n"
  proof -
    have "nat (int ?n - 1 - int d) = ?n - Suc d" by simp
    then show ?thesis using that assms i by (simp add: axis_letter_def py_nth_def rev_nth)
  qed
  moreover have "axis_letter s = Inr (Some (last (sh_loops s)))" if "d = ?n"
  proof -
    have "nat (int ?n - 1) = ?n - 1" by simp
    then show ?thesis using that assms i by (simp add: axis_letter_def py_nth_def last_conv_nth Suc_le_eq)
  qed
  ultimately show ?thesis using i by auto
qed

theorem axis_of_dropped_loop_witness:
  "\<exists>i. axis_index \<lparr>sh_op = ''FLUX'', sh_dim = Some 3, sh_loops = [''j'', ''q'', ''l'']\<rparr> = Inr i \<and> i = - 1 \<and>
     axis_letter \<lparr>sh_op = ''FLUX'', sh_dim = Some 3, sh_loops = [''j'', ''q'', ''l'']\<rparr> = Inr (Some ''l'')"
  using axis_of_dropped_loop [of "\<lparr>sh_op = ''FLUX'', sh_dim = Some 3, sh_loops = [''j'', ''q'', ''l'']\<rparr>" 3] by auto

end
