(* ===== verification/Entry_Names.thy ===== *)
theory Entry_Names
  imports Regex
begin

text \<open>
  \<open>entry_names.py\<close>: the Fortran spelling of an entry point, the procedures a source text defines and
  the resolution of an entry name against them.
\<close>

section \<open>Names\<close>

record qualified_entry =
  qe_module :: "string option"
  qe_proc :: string

text \<open>\<open>QualifiedEntry.__str__\<close>; an empty module counts as none.\<close>

definition str_entry :: "qualified_entry \<Rightarrow> string" where
  "str_entry q =
     (case qe_module q of
        None \<Rightarrow> qe_proc q
      | Some m \<Rightarrow> if m = [] then qe_proc q else m @ ''::'' @ qe_proc q)"

datatype entry_error =
    MangledSymbol string
  | NoProcedure
  | ManyProcedures string
  | NotDefined string
  | Ambiguous string string

definition require_fortran_name :: "string \<Rightarrow> entry_error + string" where
  "require_fortran_name entry = (if startswith entry ''_Q'' then Inl (MangledSymbol entry) else Inr entry)"

text \<open>\<open>s.rpartition('::')\<close>: what stands before and after the last separator.\<close>

fun last_sep :: "string \<Rightarrow> (string \<times> string) option" where
  "last_sep (c # d # s) =
     (case last_sep (d # s) of
        Some (a, b) \<Rightarrow> Some (c # a, b)
      | None \<Rightarrow> if c = CHR '':'' \<and> d = CHR '':'' then Some ([], s) else None)"
| "last_sep s = None"

definition split_qualified_entry :: "string \<Rightarrow> entry_error + qualified_entry" where
  "split_qualified_entry entry =
     rbind (require_fortran_name entry) (\<lambda>e.
       case last_sep (lower e) of
         None \<Rightarrow> Inr \<lparr>qe_module = None, qe_proc = lower e\<rparr>
       | Some (m, p) \<Rightarrow> Inr \<lparr>qe_module = (if m = [] then None else Some m), qe_proc = p\<rparr>)"

section \<open>The procedures of a text\<close>

definition proc_re :: regex where
  "proc_re = seqs [Bol, many re_space,
     many (Seq (alts [ilit ''recursive'', ilit ''pure'', ilit ''impure'', ilit ''elemental'', ilit ''module'']) (some1 re_space)),
     Star False (Seq (some1 (Cls False ((40, 42) # word_ranges))) (some1 re_space)),
     Grp 1 (alts [ilit ''subroutine'', ilit ''function'']), some1 re_space, Grp 2 (some1 re_word)]"

definition mod_re :: regex where
  "mod_re = seqs [Bol, many re_space, ilit ''module'', some1 re_space, Grp 1 (some1 re_word), many re_space, Eol]"

definition end_re :: regex where
  "end_re = seqs [Bol, many re_space, ilit ''end'', many re_space,
     opt (Grp 1 (alts [ilit ''module'', ilit ''interface'', ilit ''subroutine'', ilit ''function''])), Wordb]"

definition iface_re :: regex where
  "iface_re = seqs [Bol, many re_space, opt (Seq (ilit ''abstract'') (some1 re_space)), ilit ''interface'', Wordb]"

record scan =
  sc_module :: "string option"
  sc_depth :: nat
  sc_procs :: "qualified_entry list"

definition scan_line :: "string \<Rightarrow> scan \<Rightarrow> scan" where
  "scan_line raw st =
     (let line = before_first CHR ''!'' raw in
      if re_match iface_re line \<noteq> None then st\<lparr>sc_depth := sc_depth st + 1\<rparr>
      else case re_match end_re line of
        Some m \<Rightarrow>
          (let kind = lower (grp0 m 1) in
           if kind = ''interface'' \<and> sc_depth st \<noteq> 0 then st\<lparr>sc_depth := sc_depth st - 1\<rparr>
           else if kind = ''module'' then st\<lparr>sc_module := None\<rparr>
           else st)
      | None \<Rightarrow>
          (case re_match mod_re line of
             Some m \<Rightarrow> st\<lparr>sc_module := Some (lower (grp0 m 1))\<rparr>
           | None \<Rightarrow>
               (if sc_depth st \<noteq> 0 then st
                else case re_match proc_re line of
                  None \<Rightarrow> st
                | Some m \<Rightarrow> st\<lparr>sc_procs := sc_procs st @ [\<lparr>qe_module = sc_module st, qe_proc = lower (grp0 m 2)\<rparr>]\<rparr>)))"

definition procedure_definitions :: "string \<Rightarrow> qualified_entry list" where
  "procedure_definitions txt =
     sc_procs (fold scan_line (splitlines txt) \<lparr>sc_module = None, sc_depth = 0, sc_procs = []\<rparr>)"

section \<open>Resolution\<close>

definition all_procedures :: "string list \<Rightarrow> qualified_entry list" where
  "all_procedures sources = concat (map procedure_definitions sources)"

definition named_by :: "qualified_entry \<Rightarrow> qualified_entry \<Rightarrow> bool" where
  "named_by want p = (qe_proc p = qe_proc want \<and> (qe_module want = None \<or> qe_module want = qe_module p))"

definition show_match :: "qualified_entry \<Rightarrow> string" where
  "show_match p =
     (let m = (case qe_module p of None \<Rightarrow> ''<free>'' | Some m \<Rightarrow> if m = [] then ''<free>'' else m) in
      concat [m, ''::'', qe_proc p])"

definition resolve_entry_name :: "string list \<Rightarrow> string option \<Rightarrow> entry_error + qualified_entry" where
  "resolve_entry_name sources entry =
     (let procs = all_procedures sources in
      case entry of
        None \<Rightarrow>
          (case procs of
             [] \<Rightarrow> Inl NoProcedure
           | [p] \<Rightarrow> Inr p
           | _ \<Rightarrow> Inl (ManyProcedures (join '', '' (map qe_proc procs))))
      | Some e \<Rightarrow>
          rbind (split_qualified_entry e) (\<lambda>want.
            case remdups (filter (named_by want) procs) of
              [] \<Rightarrow> Inl (NotDefined e)
            | [p] \<Rightarrow> Inr p
            | ms \<Rightarrow> Inl (Ambiguous e (join '', '' (map show_match (sort_key str_entry ms))))))"

section \<open>The names found\<close>

definition name_ok :: "string \<Rightarrow> bool" where
  "name_ok n \<longleftrightarrow> n \<noteq> [] \<and> lower n = n \<and> list_all is_word n"

definition scan_ok :: "scan \<Rightarrow> bool" where
  "scan_ok st \<longleftrightarrow> pred_option name_ok (sc_module st) \<and>
     (\<forall>p \<in> set (sc_procs st). name_ok (qe_proc p) \<and> pred_option name_ok (qe_module p))"

lemma lower_char_word: "is_word c \<Longrightarrow> is_word (lower_char c)"
  by (auto simp: is_word_def lower_char_def range_defs code_char_of)

lemma lower_name_ok: "t \<noteq> [] \<Longrightarrow> list_all is_word t \<Longrightarrow> name_ok (lower t)"
  by (auto simp: name_ok_def lower_def list_all_iff lower_char_word)

definition word_group :: "nat \<Rightarrow> nat \<Rightarrow> string \<Rightarrow> bool" where
  "word_group n g t \<longleftrightarrow> (g = n \<longrightarrow> t \<noteq> [] \<and> list_all is_word t)"

lemma word_group_Grp:
  "groups_sat (word_group n) (Grp n (some1 re_word))"
  "g \<noteq> n \<Longrightarrow> groups_sat (word_group n) r \<Longrightarrow> groups_sat (word_group n) (Grp g r)"
  unfolding groups_sat_Grp word_group_def
  using some1_cls_consumed [of _ False word_ranges]
  by (auto simp: re_word_def in_cls_word list_all_iff some1_def)

lemma groups_lit [simp]: "groups_sat P (ilit s)" "groups_sat P (some1 (Cls neg rs))" "groups_sat P (some1 re_space)"
  "groups_sat P (many re_space)" "groups_sat P re_space" "groups_sat P (many r) \<longleftrightarrow> groups_sat P r"
proof -
  have "groups_sat P (seqs (map ichr_re s))" for s
    by (induction s rule: induct_list012) (auto simp: ichr_re_def Let_def)
  then show "groups_sat P (ilit s)" by (simp add: ilit_def)
qed (simp_all add: some1_def many_def re_space_def)

lemma word_groups: "groups_sat (word_group 2) proc_re" "groups_sat (word_group 1) mod_re"
  by (simp_all add: proc_re_def mod_re_def word_group_Grp)


lemma named_groups: "2 \<in> sure_groups proc_re" "1 \<in> sure_groups mod_re"
  by (simp_all add: proc_re_def mod_re_def)

lemma group_name_ok:
  assumes "re_match r line = Some m" and "groups_sat (word_group g) r" and "g \<in> sure_groups r"
  shows "name_ok (lower (grp0 m g))"
proof -
  obtain t where t: "grp m g = Some t" using re_match_sure [OF assms(1,3)] by blast
  from re_match_grp [OF assms(1,2) t] have "t \<noteq> []" "list_all is_word t" by (simp_all add: word_group_def)
  then show ?thesis using t by (simp add: grp0_def lower_name_ok)
qed

lemma scan_line_ok: "scan_ok st \<Longrightarrow> scan_ok (scan_line raw st)"
proof -
  assume st: "scan_ok st"
  let ?line = "before_first CHR ''!'' raw"
  note m = group_name_ok [of mod_re ?line, OF _ word_groups(2) named_groups(2)]
  note p = group_name_ok [of proc_re ?line, OF _ word_groups(1) named_groups(1)]
  show ?thesis
    using st m p unfolding scan_line_def Let_def by (auto simp: scan_ok_def split: option.split)
qed

lemma procedure_names_ok:
  assumes "q \<in> set (all_procedures sources)"
  shows "name_ok (qe_proc q) \<and> pred_option name_ok (qe_module q)"
proof -
  have "scan_ok (fold scan_line ls st)" if "scan_ok st" for ls st
    using that by (induction ls arbitrary: st) (simp_all add: scan_line_ok)
  from this [of "\<lparr>sc_module = None, sc_depth = 0, sc_procs = []\<rparr>"] assms show ?thesis
    by (auto simp: all_procedures_def procedure_definitions_def scan_ok_def)
qed

section \<open>Properties\<close>

lemma remdups_single: "remdups xs = [q] \<longleftrightarrow> set xs = {q}"
proof
  assume "set xs = {q}"
  moreover from this have "length (remdups xs) = 1" by (simp add: length_remdups_card_conv)
  then obtain y where "remdups xs = [y]" by (auto simp: length_Suc_conv)
  moreover from this have "set xs = {y}" by (metis set_remdups list.set)
  ultimately show "remdups xs = [q]" by simp
qed (metis set_remdups list.set)

lemma case_single:
  "(case ys of [] \<Rightarrow> Inl e | [p] \<Rightarrow> Inr p | p # a # l \<Rightarrow> Inl (g p a l)) = Inr q \<longleftrightarrow> ys = [q]"
  by (auto split: list.splits)

text \<open>C12. An entry resolves exactly when it is unambiguous: without a name, when the sources define one
  procedure in all; with a name that is not a mangled symbol, when the definitions it names are all the
  same procedure of the same module. In every other case resolution raises.\<close>

theorem resolve_entry_iff_unique:
  "resolve_entry_name sources entry = Inr p \<longleftrightarrow>
     (case entry of
        None \<Rightarrow> all_procedures sources = [p]
      | Some e \<Rightarrow> \<exists>want. split_qualified_entry e = Inr want \<and> {q \<in> set (all_procedures sources). named_by want q} = {p})"
proof (cases entry)
  case None
  then show ?thesis by (auto simp: resolve_entry_name_def Let_def split: list.splits)
next
  case (Some e)
  then show ?thesis by (simp add: resolve_entry_name_def Let_def rbind_Inr_iff case_single remdups_single)
qed

lemma last_sep_none: "CHR '':'' \<notin> set p \<Longrightarrow> last_sep p = None \<and> last_sep (CHR '':'' # p) = None"
proof (induction p)
  case (Cons c p)
  then show ?case by (cases p) auto
qed simp

lemma last_sep_name: "CHR '':'' \<notin> set p \<Longrightarrow> last_sep (m @ ''::'' @ p) = Some (m, p)"
proof (induction m)
  case Nil
  then show ?case using last_sep_none [of p] by simp
next
  case (Cons c m)
  obtain d u where "m @ ''::'' @ p = d # u" by (cases m) auto
  with Cons show ?case by simp
qed

lemma name_ok_chars: "name_ok n \<Longrightarrow> CHR '':'' \<notin> set n"
proof -
  have "\<not> is_word CHR '':''" by code_simp
  then show "name_ok n \<Longrightarrow> CHR '':'' \<notin> set n" by (auto simp: name_ok_def list_all_iff)
qed

lemma lower_not_mangled: "lower s = s \<Longrightarrow> \<not> startswith s ''_Q''"
proof -
  have "lower_char CHR ''Q'' = CHR ''q''" by code_simp
  moreover have "take 2 (lower s) = map lower_char (take 2 s)" by (simp add: lower_def take_map)
  ultimately show "lower s = s \<Longrightarrow> \<not> startswith s ''_Q''"
    by (auto simp: startswith_def numeral_2_eq_2)
qed

text \<open>A procedure of a module is always found under its full name: resolving the printed form
  \<open>module::proc\<close> of any definition of the sources gives back that definition, whatever else is defined.\<close>

theorem printed_entry_resolves:
  assumes "q \<in> set (all_procedures sources)" and "qe_module q = Some m"
  shows "resolve_entry_name sources (Some (str_entry q)) = Inr q"
proof -
  from procedure_names_ok [OF assms(1)] assms(2) have ok: "name_ok (qe_proc q)" "name_ok m" by simp_all
  have "lower_char CHR '':'' = CHR '':''" by code_simp
  then have l: "lower (m @ ''::'' @ qe_proc q) = m @ ''::'' @ qe_proc q"
    using ok by (simp add: name_ok_def) (simp add: lower_def)
  have "str_entry q = m @ ''::'' @ qe_proc q"
    using assms(2) ok(2) by (simp add: str_entry_def name_ok_def)
  moreover have "split_qualified_entry (m @ ''::'' @ qe_proc q) = Inr \<lparr>qe_module = Some m, qe_proc = qe_proc q\<rparr>"
    using lower_not_mangled [OF l] last_sep_name [OF name_ok_chars [OF ok(1)], of m] ok(2)
    unfolding split_qualified_entry_def require_fortran_name_def by (simp only: l if_False rbind_simps) (simp add: name_ok_def)
  moreover have "set (filter (named_by \<lparr>qe_module = Some m, qe_proc = qe_proc q\<rparr>) (all_procedures sources)) = {q}"
    using assms by (auto simp: named_by_def intro: qualified_entry.equality)
  ultimately show ?thesis
    by (simp add: resolve_entry_name_def Let_def case_single remdups_single)
qed

definition ex_sources :: "string list" where
  "ex_sources = [''module m'' @ [LF] @ ''function F'']"

theorem printed_entry_resolves_witness:
  "resolve_entry_name ex_sources (Some ''m::f'') = Inr \<lparr>qe_module = Some ''m'', qe_proc = ''f''\<rparr>"
proof -
  let ?q = "\<lparr>qe_module = Some ''m'', qe_proc = ''f''\<rparr>"
  have "all_procedures ex_sources = [?q]" by code_simp
  then have "?q \<in> set (all_procedures ex_sources)" by simp
  from printed_entry_resolves [OF this] show ?thesis by (simp add: str_entry_def)
qed

end
