(* ===== verification/Vacuity.thy ===== *)
theory Vacuity
  imports Regex
begin

text \<open>
  \<open>vacuity.py\<close>: the guard that refuses an SDFG whose work the build dropped. The SDFG is what the guard
  reads of it, the nodes of its states; the source side is the text scanner and its three legs.
\<close>

section \<open>The SDFG\<close>

datatype node =
    AccessNode string
  | Tasklet string
  | MapEntry string
  | MapExit string
  | ConsumeEntry string
  | ConsumeExit string
  | NestedSDFG string
  | LibraryNode string
  | ExternalCall string string   \<comment> \<open>its \<open>c_name\<close> and \<open>name\<close>; a library node\<close>

type_synonym sdfg_states = "(string \<times> node list) list"

fun is_compute :: "node \<Rightarrow> bool" where
  "is_compute (Tasklet _) = True"
| "is_compute (MapEntry _) = True"
| "is_compute (LibraryNode _) = True"
| "is_compute (ExternalCall _ _) = True"
| "is_compute (NestedSDFG _) = True"
| "is_compute (ConsumeEntry _) = True"
| "is_compute _ = False"

definition compute_nodes :: "sdfg_states \<Rightarrow> (string \<times> node) list" where
  "compute_nodes g = concat (map (\<lambda>(s, ns). map (Pair s) (filter is_compute ns)) g)"

fun call_name :: "node \<Rightarrow> string list" where
  "call_name (ExternalCall c n) = [if c = [] then n else c]"
| "call_name _ = []"

definition external_call_names :: "sdfg_states \<Rightarrow> string list" where
  "external_call_names g = remdups (concat (map (\<lambda>(s, ns). concat (map call_name ns)) g))"

section \<open>The scanner\<close>

definition proc_def_re :: regex where
  "proc_def_re = seqs [Bol, Look False (seqs [many re_space, ilit ''end'', Wordb]), many re_space,
     many (Seq (alts [ilit ''pure'', ilit ''impure'', ilit ''elemental'', ilit ''recursive'', ilit ''module'', ilit ''non_recursive''])
       (some1 re_space)),
     opt (Seq (some1 (Cls False ([(40, 42), (44, 44), (58, 58)] @ space_ranges @ word_ranges))) (some1 re_space)),
     Grp 1 (alts [ilit ''subroutine'', ilit ''function'']), some1 re_space,
     Grp 2 (Seq re_ident_start (many re_word))]"

definition proc_end_re :: regex where
  "proc_end_re = seqs [Bol, many re_space, ilit ''end'', many re_space,
     opt (seqs [alts [ilit ''subroutine'', ilit ''function'', ilit ''module'', ilit ''program'',
         Seq (ilit ''block'') (opt (Seq (some1 re_space) (ilit ''data'')))],
       Wordb, many re_space, opt (some1 re_word)]),
     many re_space, Eol]"

definition call_site_re :: regex where
  "call_site_re = seqs [Wordb, ilit ''call'', some1 re_space, Grp 1 (Seq re_ident_start (many re_word))]"

definition comment_re :: regex where
  "comment_re = seqs [chr_re CHR ''!'', many re_dot, Eol]"

definition squote :: char where "squote = CHR 0x27"
definition dquote :: char where "dquote = CHR 0x22"

definition string_re :: regex where
  "string_re = alts [seqs [chr_re squote, many (Cls True [(39, 39)]), chr_re squote],
                     seqs [chr_re dquote, many (Cls True [(34, 34)]), chr_re dquote]]"

definition comparisons_re :: regex where
  "comparisons_re = alts [lit ''=='', lit ''/='', lit ''<='', lit ''>='', lit ''=>'']"

definition math_intrinsic_re :: regex where
  "math_intrinsic_re = seqs [Wordb, Grp 1 (alts (map ilit [''sqrt'', ''exp'', ''log'', ''log10'', ''log2'', ''sin'', ''cos'',
     ''tan'', ''asin'', ''acos'', ''atan'', ''atan2'', ''sinh'', ''cosh'', ''tanh'', ''asinh'', ''acosh'', ''atanh'', ''pow'',
     ''modulo'', ''mod''])), many re_space, chr_re CHR ''('']"

definition strip_code :: "string \<Rightarrow> string" where
  "strip_code line = strip (re_sub (\<lambda>_. [squote, squote]) string_re (re_sub (\<lambda>_. []) comment_re line))"

text \<open>The name a line defines, and whether it ends a unit.\<close>

definition def_name :: "string \<Rightarrow> string option" where
  "def_name raw = map_option (\<lambda>m. lower (grp0 m 2)) (re_match proc_def_re raw)"

definition ends_unit :: "string \<Rightarrow> bool" where
  "ends_unit raw = (re_match proc_end_re (strip_code raw) \<noteq> None)"

definition def_step :: "string \<Rightarrow> nat \<times> string list \<Rightarrow> nat \<times> string list" where
  "def_step raw st =
     (case (st, def_name raw) of
        ((depth, out), Some n) \<Rightarrow> (depth + 1, if depth = 0 then List.insert n out else out)
      | ((depth, out), None) \<Rightarrow> (if ends_unit raw \<and> depth > 0 then depth - 1 else depth, out))"

definition defined_procedures :: "string \<Rightarrow> string list" where
  "defined_procedures txt = snd (fold def_step (splitlines txt) (0, []))"

definition source_call_sites :: "string \<Rightarrow> string list" where
  "source_call_sites txt =
     remdups (concat (map (\<lambda>raw. let line = strip_code raw in
       if line = [] then [] else map (\<lambda>m. lower (grp0 m 1)) (re_finditer call_site_re line)) (splitlines txt)))"

text \<open>\<open>_procedure_body\<close>: the search for the definition, then the lines up to its end.\<close>

fun body_lines :: "int \<Rightarrow> string list \<Rightarrow> string list" where
  "body_lines depth [] = []"
| "body_lines depth (raw # ls) =
     (case def_name raw of
        Some n \<Rightarrow> raw # body_lines (depth + 1) ls
      | None \<Rightarrow>
          (if ends_unit raw then (if depth - 1 \<le> 0 then [] else raw # body_lines (depth - 1) ls)
           else raw # body_lines depth ls))"

fun procedure_lines :: "string \<Rightarrow> string list \<Rightarrow> string list option" where
  "procedure_lines want [] = None"
| "procedure_lines want (raw # ls) =
     (if def_name raw = Some want then Some (body_lines 1 ls) else procedure_lines want ls)"

definition procedure_body :: "string \<Rightarrow> string \<Rightarrow> string option" where
  "procedure_body txt name = map_option (join [LF]) (procedure_lines (lower name) (splitlines txt))"

section \<open>Arithmetic\<close>

definition leading_sign_re :: regex where
  "leading_sign_re = seqs [chr_re CHR ''='', many re_space, Cls False [(45, 45), (43, 43)], many re_space]"

definition binary_op_re :: regex where
  "binary_op_re = seqs [Cls False [(65, 90), (97, 122), (48, 57), (95, 95), (41, 41), (93, 93)], many re_space,
     Cls False [(45, 45), (43, 43), (42, 42), (47, 47)], many re_space,
     Cls False [(65, 90), (97, 122), (48, 57), (95, 95), (40, 40), (91, 91)]]"

definition computes :: "string \<Rightarrow> bool" where
  "computes line =
     (if \<not> contains ''='' line \<and> \<not> contains ''('' line then False
      else
        let probe = re_sub (\<lambda>_. '' '') comparisons_re line in
        contains ''**'' probe \<or>
        re_search binary_op_re (re_sub_first (\<lambda>_. ''= '') leading_sign_re probe) \<noteq> None \<or>
        re_search math_intrinsic_re line \<noteq> None)"

definition arithmetic_lines :: "string \<Rightarrow> string list" where
  "arithmetic_lines body = filter (\<lambda>line. line \<noteq> [] \<and> computes line) (map strip_code (splitlines body))"

definition is_runtime_callee :: "string \<Rightarrow> bool" where
  "is_runtime_callee name =
     (let n = lower name in
      list_ex (startswith n) [''_fortran'', ''mpi_'', ''pmpi_''] \<or> n \<in> set [''malloc'', ''free'', ''abort'', ''exit''])"

section \<open>The guard\<close>

datatype vacuity_error =
    ZeroCompute
  | Unaccounted "string list"
  | CarriesArithmetic string "string list"

record vacuity_args =
  va_source :: "string option"
  va_sources :: "string list"
  va_externalized :: "string list"
  va_stubbed :: "string list"
  va_callee_sources :: "(string \<times> string) list"
  va_allow :: "string list"
  va_allow_empty :: bool
  va_allow_arithmetic :: "string list"

definition texts_of :: "vacuity_args \<Rightarrow> string list" where
  "texts_of a = (case va_source a of None \<Rightarrow> [] | Some s \<Rightarrow> if s = [] then [] else [s]) @ va_sources a"

definition lowered :: "string list \<Rightarrow> string set" where
  "lowered xs = set (map lower xs)"

definition accounted :: "vacuity_args \<Rightarrow> string \<Rightarrow> string \<Rightarrow> bool" where
  "accounted a merged c =
     (c \<in> set (defined_procedures merged) \<or> c \<in> lowered (va_externalized a) \<or> c \<in> lowered (va_stubbed a) \<or>
      c \<in> lowered (va_allow a) \<or> is_runtime_callee c)"

definition unaccounted :: "vacuity_args \<Rightarrow> string list" where
  "unaccounted a =
     (if texts_of a = [] then []
      else let merged = join [LF] (texts_of a) in
           sort (filter (\<lambda>c. \<not> accounted a merged c) (source_call_sites merged)))"

definition callee_body :: "vacuity_args \<Rightarrow> string \<Rightarrow> string option" where
  "callee_body a name = map_option snd (find (\<lambda>(k, t). lower k = name) (va_callee_sources a))"

fun check_arithmetic :: "vacuity_args \<Rightarrow> string list \<Rightarrow> vacuity_error + unit" where
  "check_arithmetic a [] = Inr ()"
| "check_arithmetic a (name # names) =
     (case callee_body a name of
        None \<Rightarrow> check_arithmetic a names
      | Some body \<Rightarrow>
          (let hits = arithmetic_lines body in
           if hits \<noteq> [] \<and> name \<notin> lowered (va_allow_arithmetic a) then Inl (CarriesArithmetic name (take 3 hits))
           else check_arithmetic a names))"

definition assert_nonvacuous :: "sdfg_states \<Rightarrow> vacuity_args \<Rightarrow> vacuity_error + unit" where
  "assert_nonvacuous g a =
     (if compute_nodes g = [] \<and> \<not> va_allow_empty a then Inl ZeroCompute
      else if unaccounted a \<noteq> [] then Inl (Unaccounted (unaccounted a))
      else check_arithmetic a (sort (remdups (map lower (va_externalized a)))))"


section \<open>Program units\<close>

text \<open>A source as its program units: text lines, and procedures with their first line, what is inside and
  the line that ends them.\<close>

datatype unit_tree = Text string | Unit string "unit_tree list" string

fun unit_lines :: "unit_tree \<Rightarrow> string list" where
  "unit_lines (Text l) = [l]"
| "unit_lines (Unit h ts e) = h # concat (map unit_lines ts) @ [e]"

fun unit_ok :: "unit_tree \<Rightarrow> bool" where
  "unit_ok (Text l) = (def_name l = None \<and> \<not> ends_unit l)"
| "unit_ok (Unit h ts e) = (def_name h \<noteq> None \<and> list_all unit_ok ts \<and> def_name e = None \<and> ends_unit e)"

fun root_name :: "unit_tree \<Rightarrow> string list" where
  "root_name (Text l) = []"
| "root_name (Unit h ts e) = [the (def_name h)]"

lemma def_step_simps:
  "def_name l = Some n \<Longrightarrow> def_step l (d, out) = (d + 1, if d = 0 then List.insert n out else out)"
  "def_name l = None \<Longrightarrow> ends_unit l \<Longrightarrow> def_step l (Suc d, out) = (d, out)"
  "def_name l = None \<Longrightarrow> \<not> ends_unit l \<Longrightarrow> def_step l (d, out) = (d, out)"
  by (simp_all add: def_step_def)

lemma def_fold_forest:
  assumes "\<And>t out. t \<in> set ts \<Longrightarrow> unit_ok t \<Longrightarrow> fold def_step (unit_lines t) (Suc d, out) = (Suc d, out)"
    and "list_all unit_ok ts"
  shows "fold def_step (concat (map unit_lines ts)) (Suc d, out) = (Suc d, out)"
  using assms by (induction ts) auto

lemma def_fold_inner: "unit_ok t \<Longrightarrow> fold def_step (unit_lines t) (Suc d, out) = (Suc d, out)"
proof (induction t arbitrary: d out)
  case (Text l)
  then show ?case by (simp add: def_step_simps)
next
  case (Unit h ts e)
  then obtain n where "def_name h = Some n" by auto
  moreover have "fold def_step (concat (map unit_lines ts)) (Suc (Suc d), out) = (Suc (Suc d), out)"
    by (rule def_fold_forest) (use Unit in auto)
  ultimately show ?case using Unit.prems by (simp add: def_step_simps)
qed

lemma def_fold_root: "unit_ok t \<Longrightarrow> fold def_step (unit_lines t) (0, out) = (0, fold List.insert (root_name t) out)"
proof (cases t)
  case (Unit h ts e)
  assume t: "unit_ok t"
  then obtain n where "def_name h = Some n" using Unit by auto
  moreover have "fold def_step (concat (map unit_lines ts)) (Suc 0, out') = (Suc 0, out')" for out'
    by (rule def_fold_forest) (use t Unit def_fold_inner in auto)
  ultimately show ?thesis using t Unit by (simp add: def_step_simps)
qed (simp add: def_step_simps)

lemma def_fold_roots:
  "list_all unit_ok ts \<Longrightarrow>
     fold def_step (concat (map unit_lines ts)) (0, out) = (0, fold List.insert (concat (map root_name ts)) out)"
  by (induction ts arbitrary: out) (simp_all add: def_fold_root)

lemma set_fold_insert: "set (fold List.insert xs out) = set xs \<union> set out"
  by (induction xs arbitrary: out) auto

text \<open>The procedures taken for defined are the outermost ones: of a source whose units nest correctly,
  exactly the names of the procedures that are not inside another; an internal procedure is not among
  them.\<close>

theorem defined_procedures_are_roots:
  assumes "splitlines txt = concat (map unit_lines ts)" and "list_all unit_ok ts"
  shows "set (defined_procedures txt) = set (concat (map root_name ts))"
  using assms by (simp add: defined_procedures_def def_fold_roots set_fold_insert)

definition ex_units :: "unit_tree list" where
  "ex_units = [Unit ''function f'' [Unit ''function g'' [] ''end''] ''end'']"

theorem defined_procedures_are_roots_witness:
  "set (defined_procedures (join [LF] [''function f'', ''function g'', ''end'', ''end''])) = {''f''}"
proof -
  let ?t = "join [LF] [''function f'', ''function g'', ''end'', ''end'']"
  have s: "splitlines ?t = concat (map unit_lines ex_units)" by code_simp
  have k: "list_all unit_ok ex_units" by code_simp
  have r: "concat (map root_name ex_units) = [''f'']" by code_simp
  from defined_procedures_are_roots [OF s k] show ?thesis unfolding r by simp
qed

section \<open>Bodies\<close>

lemma body_forest:
  assumes "\<And>t d rest. t \<in> set ts \<Longrightarrow> unit_ok t \<Longrightarrow> 0 < d \<Longrightarrow>
      body_lines d (unit_lines t @ rest) = unit_lines t @ body_lines d rest"
    and "list_all unit_ok ts" and "0 < d"
  shows "body_lines d (concat (map unit_lines ts) @ rest) = concat (map unit_lines ts) @ body_lines d rest"
  using assms by (induction ts) simp_all

lemma body_unit: "unit_ok t \<Longrightarrow> 0 < d \<Longrightarrow> body_lines d (unit_lines t @ rest) = unit_lines t @ body_lines d rest"
proof (induction t arbitrary: d rest)
  case (Unit h ts e)
  have "body_lines (d + 1) (concat (map unit_lines ts) @ e # rest) = concat (map unit_lines ts) @ body_lines (d + 1) (e # rest)"
    by (rule body_forest) (use Unit in auto)
  with Unit.prems show ?case by auto
qed simp

lemma procedure_lines_skip:
  "\<forall>l \<in> set pre. def_name l \<noteq> Some want \<Longrightarrow> procedure_lines want (pre @ ls) = procedure_lines want ls"
  by (induction pre) simp_all

text \<open>The body of a procedure is what stands between its first line and its end: the first definition
  of that name, with the procedures inside it whole, whatever comes before and after.\<close>

theorem procedure_body_is_the_body:
  assumes "splitlines txt = pre @ unit_lines (Unit h ts e) @ post" and "unit_ok (Unit h ts e)"
    and "def_name h = Some (lower name)" and "\<forall>l \<in> set pre. def_name l \<noteq> Some (lower name)"
  shows "procedure_body txt name = Some (join [LF] (concat (map unit_lines ts)))"
proof -
  have "body_lines 1 (concat (map unit_lines ts) @ e # post) = concat (map unit_lines ts) @ body_lines 1 (e # post)"
    by (rule body_forest) (use assms(2) body_unit in auto)
  then have "procedure_lines (lower name) (splitlines txt) = Some (concat (map unit_lines ts))"
    using assms by (simp add: procedure_lines_skip)
  then show ?thesis by (simp add: procedure_body_def)
qed

theorem procedure_body_is_the_body_witness:
  "procedure_body (join [LF] [''x'', ''function f'', ''y'', ''end'', ''z'']) ''F'' = Some ''y''"
proof -
  let ?t = "join [LF] [''x'', ''function f'', ''y'', ''end'', ''z'']" and ?u = "Unit ''function f'' [Text ''y''] ''end''"
  have s: "splitlines ?t = [''x''] @ unit_lines ?u @ [''z'']" by code_simp
  have k: "unit_ok ?u" by code_simp
  have d: "def_name ''function f'' = Some (lower ''F'')" by code_simp
  have p: "def_name ''x'' = None" by code_simp
  from procedure_body_is_the_body [OF s k d] p show ?thesis by simp
qed

text \<open>The end of a \<open>block\<close> construct is taken for the end of the procedure around it: what follows it is
  missing from the body.\<close>

theorem end_block_cuts_body:
  "procedure_body (join [LF] [''function f'', ''block'', ''end block'', ''y = a*b'', ''end'']) ''f'' = Some ''block''"
  by code_simp

section \<open>The legs\<close>

lemma check_arithmetic_iff:
  "check_arithmetic a names = Inr () \<longleftrightarrow>
     (\<forall>n \<in> set names. \<forall>b. callee_body a n = Some b \<longrightarrow> arithmetic_lines b = [] \<or> n \<in> lowered (va_allow_arithmetic a))"
  by (induction names) (auto simp: Let_def split: option.splits)

lemma unaccounted_Nil:
  "unaccounted a = [] \<longleftrightarrow> texts_of a = [] \<or>
     (\<forall>c \<in> set (source_call_sites (join [LF] (texts_of a))). accounted a (join [LF] (texts_of a)) c)"
proof -
  have "sort xs = [] \<longleftrightarrow> xs = []" for xs :: "string list"
    by (metis length_0_conv length_sort)
  then show ?thesis by (auto simp: unaccounted_def Let_def filter_empty_conv)
qed

text \<open>The guard passes exactly the SDFGs that lost nothing it can see: there is a compute node or none is
  asked for; every callee of the sources is defined in them, external, stubbed, allowed or part of the
  runtime; and no external with a known body computes anything unless it is excepted.\<close>

theorem assert_nonvacuous_iff:
  "assert_nonvacuous g a = Inr () \<longleftrightarrow>
     (compute_nodes g \<noteq> [] \<or> va_allow_empty a) \<and>
     (texts_of a \<noteq> [] \<longrightarrow>
        (\<forall>c \<in> set (source_call_sites (join [LF] (texts_of a))). accounted a (join [LF] (texts_of a)) c)) \<and>
     (\<forall>n \<in> lowered (va_externalized a). \<forall>b. callee_body a n = Some b \<longrightarrow>
        arithmetic_lines b = [] \<or> n \<in> lowered (va_allow_arithmetic a))"
proof -
  have "set (sort (remdups (map lower (va_externalized a)))) = lowered (va_externalized a)"
    by (simp add: lowered_def)
  then show ?thesis
    unfolding assert_nonvacuous_def using unaccounted_Nil [of a]
    by (auto simp: check_arithmetic_iff)
qed

definition ex_args :: vacuity_args where
  "ex_args = \<lparr>va_source = Some ''call h(x)'', va_sources = [], va_externalized = [''H''], va_stubbed = [],
     va_callee_sources = [(''h'', ''y = x'')], va_allow = [], va_allow_empty = False, va_allow_arithmetic = []\<rparr>"

theorem assert_nonvacuous_iff_witness:
  "assert_nonvacuous [(''s'', [ExternalCall [] ''h''])] ex_args = Inr ()"
proof -
  have "compute_nodes [(''s'', [ExternalCall [] ''h''])] \<noteq> []" by code_simp
  moreover have "source_call_sites (join [LF] (texts_of ex_args)) = [''h'']" by code_simp
  moreover have "accounted ex_args (join [LF] (texts_of ex_args)) ''h''" by code_simp
  moreover have "lowered (va_externalized ex_args) = {''h''}" by code_simp
  moreover have "callee_body ex_args ''h'' = Some ''y = x''" "arithmetic_lines ''y = x'' = []" by code_simp+
  ultimately show ?thesis by (simp add: assert_nonvacuous_iff)
qed

end
