(* ===== verification/Policy.thy ===== *)
theory Policy
  imports Json "HOL-Library.Multiset"
begin

text \<open>
  \<open>policy.py\<close>: the declarative half of TU generation, read from and written to JSON. Reading the file
  and the JSON text are I/O; the model starts from the parsed value and ends at the value to print.
  Whether a pattern compiles is a parameter, and a compiled pattern is its text.
\<close>

record kernel_spec =
  k_name :: string
  k_fpp :: "string option"
  k_anchor :: "string option"
  k_routine :: "string option"
  k_defines :: "string list"
  k_loop_back :: "string option"
  k_rules :: "(string \<times> string) list"

record policy =
  po_kernels :: "(string \<times> kernel_spec) list"
  po_extents :: "(int \<times> string) list"
  po_access :: string

datatype policy_error =
    NoPolicyFile
  | NotJson
  | KernelNotObject string
  | KernelNoSource string
  | BadRule string nat
  | InvalidRegex string nat
  | BadExtent string
  | NoKernel string
  | PyTypeError

section \<open>Looking up\<close>

definition kernel_of :: "policy \<Rightarrow> string \<Rightarrow> policy_error + kernel_spec" where
  "kernel_of p name = of_option (NoKernel name) (map_of (po_kernels p) name)"

section \<open>Loading\<close>

fun truthy :: "json \<Rightarrow> bool" where
  "truthy JNull = False"
| "truthy (JBool b) = b"
| "truthy (JInt i) = (i \<noteq> 0)"
| "truthy (JStr s) = (s \<noteq> [])"
| "truthy (JList xs) = (xs \<noteq> [])"
| "truthy (JObj d) = (d \<noteq> [])"

text \<open>\<open>d.get(k)\<close>, and its use as an optional text.\<close>

definition get_or_null :: "string \<Rightarrow> (string \<times> json) list \<Rightarrow> json" where
  "get_or_null k d = (case map_of d k of None \<Rightarrow> JNull | Some v \<Rightarrow> v)"

fun opt_text :: "json \<Rightarrow> policy_error + string option" where
  "opt_text JNull = Inr None"
| "opt_text (JStr s) = Inr (Some s)"
| "opt_text _ = Inl PyTypeError"

fun text_of :: "json \<Rightarrow> policy_error + string" where
  "text_of (JStr s) = Inr s"
| "text_of _ = Inl PyTypeError"

text \<open>\<open>(raw.get(k) or {}).items()\<close>.\<close>

definition items_of :: "json \<Rightarrow> policy_error + (string \<times> json) list" where
  "items_of v = (if \<not> truthy v then Inr [] else case v of JObj d \<Rightarrow> Inr d | _ \<Rightarrow> Inl PyTypeError)"

definition compile_rule :: "(string \<Rightarrow> bool) \<Rightarrow> string \<Rightarrow> nat \<times> json \<Rightarrow> policy_error + string \<times> string" where
  "compile_rule compiles whr ir =
     (case ir of
        (i, JList [JStr pat, repl]) \<Rightarrow>
          (if compiles pat then rbind (text_of repl) (\<lambda>r. Inr (pat, r)) else Inl (InvalidRegex whr i))
      | (i, JList [_, _]) \<Rightarrow> Inl PyTypeError
      | (i, _) \<Rightarrow> Inl (BadRule whr i))"

fun compile_rules :: "(string \<Rightarrow> bool) \<Rightarrow> json \<Rightarrow> string \<Rightarrow> policy_error + (string \<times> string) list" where
  "compile_rules compiles (JList xs) whr = rmap (compile_rule compiles whr) (zip [0..<length xs] xs)"
| "compile_rules compiles (JStr s) whr = (if s = [] then Inr [] else Inl (BadRule whr 0))"
| "compile_rules compiles (JObj d) whr = (if d = [] then Inr [] else Inl (BadRule whr 0))"
| "compile_rules compiles v whr = (if truthy v then Inl PyTypeError else Inr [])"

text \<open>\<open>tuple(v)\<close>: the elements of a list, the characters of a text, the keys of a dictionary.\<close>

fun tuple_of :: "json \<Rightarrow> policy_error + string list" where
  "tuple_of (JList xs) = rmap text_of xs"
| "tuple_of (JStr s) = Inr (map (\<lambda>c. [c]) s)"
| "tuple_of (JObj d) = Inr (map fst d)"
| "tuple_of _ = Inl PyTypeError"

definition load_kernel :: "(string \<Rightarrow> bool) \<Rightarrow> string \<times> json \<Rightarrow> policy_error + string \<times> kernel_spec" where
  "load_kernel compiles item =
     (case item of
        (name, JObj spec) \<Rightarrow>
          (if map_of spec ''fpp'' = None \<and> map_of spec ''source'' = None then Inl (KernelNoSource name)
           else
             rbind (opt_text (if truthy (get_or_null ''fpp'' spec) then get_or_null ''fpp'' spec
                              else get_or_null ''source'' spec)) (\<lambda>fpp.
             rbind (opt_text (get_or_null ''anchor'' spec)) (\<lambda>anchor.
             rbind (opt_text (get_or_null ''routine'' spec)) (\<lambda>routine.
             rbind (case map_of spec ''defines'' of None \<Rightarrow> Inr [] | Some v \<Rightarrow> tuple_of v) (\<lambda>defines.
             rbind (opt_text (get_or_null ''loop_back'' spec)) (\<lambda>loop_back.
             rbind (compile_rules compiles (get_or_null ''rules'' spec) name) (\<lambda>rules.
               Inr (name, \<lparr>k_name = name, k_fpp = fpp, k_anchor = anchor, k_routine = routine,
                           k_defines = defines, k_loop_back = loop_back, k_rules = rules\<rparr>))))))))
      | (name, _) \<Rightarrow> Inl (KernelNotObject name))"

fun str_of :: "json \<Rightarrow> policy_error + string" where
  "str_of JNull = Inr ''None''"
| "str_of (JBool b) = Inr (if b then ''True'' else ''False'')"
| "str_of (JInt i) = Inr (str_int i)"
| "str_of (JStr s) = Inr s"
| "str_of _ = Inl PyTypeError"

fun load_extents :: "(string \<times> json) list \<Rightarrow> (int \<times> string) list \<Rightarrow> policy_error + (int \<times> string) list" where
  "load_extents [] acc = Inr acc"
| "load_extents ((dim, var) # ds) acc =
     (case py_int dim of
        None \<Rightarrow> Inl (BadExtent dim)
      | Some i \<Rightarrow> rbind (str_of var) (\<lambda>v. load_extents ds (AList.update i v acc)))"

definition load_raw :: "(string \<Rightarrow> bool) \<Rightarrow> json \<Rightarrow> policy_error + policy" where
  "load_raw compiles raw =
     (case raw of
        JObj d \<Rightarrow>
          rbind (items_of (get_or_null ''kernels'' d)) (\<lambda>ks.
          rbind (rmap (load_kernel compiles) ks) (\<lambda>kernels.
          rbind (items_of (get_or_null ''extents'' d)) (\<lambda>es.
          rbind (load_extents es []) (\<lambda>extents.
          rbind (case map_of d ''access'' of None \<Rightarrow> Inr ''%sf'' | Some v \<Rightarrow> text_of v) (\<lambda>access.
            Inr \<lparr>po_kernels = kernels, po_extents = extents, po_access = access\<rparr>)))))
      | _ \<Rightarrow> Inl PyTypeError)"

datatype policy_file = Missing | Unparsable | Parsed json

fun load :: "(string \<Rightarrow> bool) \<Rightarrow> policy_file \<Rightarrow> policy_error + policy" where
  "load compiles Missing = Inl NoPolicyFile"
| "load compiles Unparsable = Inl NotJson"
| "load compiles (Parsed raw) = load_raw compiles raw"

section \<open>Dumping\<close>

definition opt_field :: "string \<Rightarrow> json option \<Rightarrow> (string \<times> json) list" where
  "opt_field k v = (case v of None \<Rightarrow> [] | Some j \<Rightarrow> [(k, j)])"

definition dump_kernel :: "string \<times> kernel_spec \<Rightarrow> string \<times> json" where
  "dump_kernel nk =
     (case nk of (n, k) \<Rightarrow>
        (n, JObj (opt_field ''fpp'' (map_option JStr (k_fpp k)) @
                  opt_field ''anchor'' (map_option JStr (k_anchor k)) @
                  opt_field ''routine'' (map_option JStr (k_routine k)) @
                  opt_field ''defines'' (if k_defines k = [] then None else Some (j_strs (k_defines k))) @
                  opt_field ''loop_back'' (map_option JStr (k_loop_back k)) @
                  opt_field ''rules'' (if k_rules k = [] then None
                    else Some (JList (map (\<lambda>(p, s). JList [JStr p, JStr s]) (k_rules k)))))))"

definition dump :: "policy \<Rightarrow> json" where
  "dump p = JObj
     [(''access'', JStr (po_access p)),
      (''extents'', JObj (map (\<lambda>(k, v). (str_int k, JStr v)) (sort_key fst (po_extents p)))),
      (''kernels'', JObj (map dump_kernel (po_kernels p)))]"

section \<open>Round trip\<close>

definition kernel_ok :: "(string \<Rightarrow> bool) \<Rightarrow> string \<times> kernel_spec \<Rightarrow> bool" where
  "kernel_ok compiles nk =
     (k_name (snd nk) = fst nk \<and> (\<exists>f. k_fpp (snd nk) = Some f \<and> f \<noteq> []) \<and>
      list_all (\<lambda>r. compiles (fst r)) (k_rules (snd nk)))"

lemma opt_text_opt [simp]: "opt_text (case x of None \<Rightarrow> JNull | Some y \<Rightarrow> ((\<lambda>v. v) \<circ> JStr) y) = Inr x"
  by (cases x) simp_all

lemma map_of_opt_field: "map_of (opt_field k v @ d) x = (if x = k \<and> v \<noteq> None then v else map_of d x)"
  by (cases v) (auto simp: opt_field_def)

lemma map_of_opt_field_end: "map_of (opt_field k v) x = (if x = k then v else None)"
  by (cases v) (auto simp: opt_field_def)

lemma tuple_of_strs: "tuple_of (j_strs xs) = Inr xs"
  unfolding j_strs_def tuple_of.simps by (induction xs) simp_all

lemma compile_rules_dump:
  assumes "list_all (\<lambda>r. compiles (fst r)) rs"
  shows "compile_rules compiles (JList (map (\<lambda>(p, s). JList [JStr p, JStr s]) rs)) whr = Inr rs"
proof -
  have "rmap (compile_rule compiles whr) (zip [i..<i + length rs] (map (\<lambda>(p, s). JList [JStr p, JStr s]) rs)) = Inr rs" for i
    using assms
  proof (induction rs arbitrary: i)
    case (Cons r rs)
    obtain p s where r: "r = (p, s)" by (cases r)
    have "[i..<i + length (r # rs)] = i # [Suc i..<Suc i + length rs]" by (simp add: upt_conv_Cons del: upt_Suc)
    with Cons.IH [of "Suc i"] Cons.prems show ?case by (simp add: r compile_rule_def del: upt_Suc)
  qed simp
  from this [of 0] show ?thesis by simp
qed

lemma load_dump_kernel:
  assumes "kernel_ok compiles nk"
  shows "load_kernel compiles (dump_kernel nk) = Inr nk"
proof -
  obtain n k where nk: "nk = (n, k)" by (cases nk)
  from assms obtain f where k: "k_name k = n" "k_fpp k = Some f" "f \<noteq> []" "list_all (\<lambda>r. compiles (fst r)) (k_rules k)"
    by (auto simp: kernel_ok_def nk)
  let ?ds = "if k_defines k = [] then None else Some (j_strs (k_defines k))"
  let ?rs = "if k_rules k = [] then None else Some (JList (map (\<lambda>(p, s). JList [JStr p, JStr s]) (k_rules k)))"
  obtain d where d: "dump_kernel nk = (n, JObj d)" "map_of d ''fpp'' = Some (JStr f)"
    "map_of d ''anchor'' = map_option JStr (k_anchor k)" "map_of d ''routine'' = map_option JStr (k_routine k)"
    "map_of d ''defines'' = ?ds" "map_of d ''loop_back'' = map_option JStr (k_loop_back k)" "map_of d ''rules'' = ?rs"
    by (simp add: nk dump_kernel_def k(2) map_of_opt_field map_of_opt_field_end del: map_of_append)
  have "(case ?ds of None \<Rightarrow> Inr [] | Some v \<Rightarrow> tuple_of v) = Inr (k_defines k)"
    by (simp add: tuple_of_strs)
  moreover have "compile_rules compiles (case ?rs of None \<Rightarrow> JNull | Some v \<Rightarrow> v) n = Inr (k_rules k)"
    using compile_rules_dump [OF k(4)] by simp
  ultimately show ?thesis
    unfolding d(1) load_kernel_def get_or_null_def using k(1-3) d(2-)
    by (simp add: nk del: compile_rules.simps tuple_of.simps)
qed

text \<open>The codec of one kernel, for every notion of a pattern that compiles.\<close>

interpretation kernel_item: codec dump_kernel "load_kernel compiles" "kernel_ok compiles" for compiles
  by unfold_locales (rule load_dump_kernel)

lemma load_dump_extents:
  "distinct (map fst es) \<Longrightarrow> fst ` set acc \<inter> fst ` set es = {} \<Longrightarrow>
     load_extents (map (\<lambda>(k, v). (str_int k, JStr v)) es) acc = Inr (acc @ es)"
proof (induction es arbitrary: acc)
  case (Cons e es)
  obtain k v where e: "e = (k, v)" by (cases e)
  have "k \<notin> fst ` set acc" using Cons.prems(2) by (auto simp: e)
  then have "AList.update k v acc = acc @ [(k, v)]" by (induction acc) auto
  moreover have "load_extents (map (\<lambda>(k, v). (str_int k, JStr v)) es) (acc @ [(k, v)]) = Inr ((acc @ [(k, v)]) @ es)"
    by (rule Cons.IH) (use Cons.prems in \<open>auto simp: e\<close>)
  ultimately show ?case by (simp add: e)
qed simp

definition policy_ok :: "(string \<Rightarrow> bool) \<Rightarrow> policy \<Rightarrow> bool" where
  "policy_ok compiles p = (list_all (kernel_ok compiles) (po_kernels p) \<and> distinct (map fst (po_extents p)))"

lemma items_of_map [simp]: "items_of (JObj (map f xs)) = Inr (map f xs)"
  by (simp add: items_of_def)

text \<open>C13. A policy whose kernels each name a source file, carry the name they are filed under and have only
  patterns that compile survives being written and read: the kernels and the access idiom come back
  as they were, the extents sorted by dimension.\<close>

theorem policy_round_trip:
  assumes "policy_ok compiles p"
  shows "load compiles (Parsed (dump p)) = Inr (p\<lparr>po_extents := sort_key fst (po_extents p)\<rparr>)"
proof -
  from assms have ks: "rmap (load_kernel compiles) (map dump_kernel (po_kernels p)) = Inr (po_kernels p)"
    by (intro kernel_item.dec_enc_list) (simp add: policy_ok_def list_all_iff)
  have "distinct (map fst (sort_key fst (po_extents p)))"
  proof -
    have "mset (map fst (sort_key fst (po_extents p))) = mset (map fst (po_extents p))" by simp
    then show ?thesis using assms by (metis mset_eq_imp_distinct_iff policy_ok_def)
  qed
  then have es: "load_extents (map (\<lambda>(k, v). (str_int k, JStr v)) (sort_key fst (po_extents p))) [] =
      Inr (sort_key fst (po_extents p))"
    using load_dump_extents [of "sort_key fst (po_extents p)" "[]"] by simp
  show ?thesis
    by (simp add: dump_def load_raw_def get_or_null_def ks es)
qed

definition ex_policy :: policy where
  "ex_policy = \<lparr>po_kernels = [(''flux'', \<lparr>k_name = ''flux'', k_fpp = Some ''m_rhs.fpp'', k_anchor = None, k_routine = Some ''s'',
       k_defines = [''GPU''], k_loop_back = None, k_rules = [(''a+'', ''b'')]\<rparr>)],
     po_extents = [(2, ''n''), (0, ''m'')], po_access = ''%sf''\<rparr>"

theorem policy_round_trip_witness:
  "load (\<lambda>_. True) (Parsed (dump ex_policy)) = Inr (ex_policy\<lparr>po_extents := [(0, ''m''), (2, ''n'')]\<rparr>)"
  using policy_round_trip [of "\<lambda>_. True" ex_policy] by (simp add: ex_policy_def policy_ok_def kernel_ok_def)

end
