(* ===== verification/Record_Image.thy ===== *)
theory Record_Image
  imports Binding_Sources
begin

text \<open>
  The images of record members in \<open>src/dace_fortran/bindings/block_builders.py\<close>: the buffer that holds
  one member of every element of an array of records, the loops over the elements, the lines that
  allocate and pack the buffer before the call (\<open>_render_aos_copy_in\<close>), those that unpack it afterwards
  (\<open>_render_aos_copy_out\<close>), and the bounds of an image the SDFG allocates itself.
\<close>

section \<open>Names and loops\<close>

record aos_loop_pieces =
  loop_vars :: "string list"
  lower_vars :: "string list"
  upper_vars :: "string list"
  member_rank :: int
  accessor :: string
  segment_caps :: "string list"
  member_loop_vars :: "string list"
  element_lower_vars :: "string list"
  element_upper_vars :: "string list"

record aos_loops =
  al_prelude :: "string list"
  do_open :: "string list"
  do_close :: "string list"
  outer_dims :: string
  one_dims :: string
  al_present :: string

definition aos_root_and_segment :: "frozen_arg \<Rightarrow> string \<times> string" where
  "aos_root_and_segment a =
     (strip (before_first CHR ''%'' (fa_aos_origin_struct a)), strip (after_char CHR ''%'' (fa_aos_origin_struct a)))"

text \<open>\<open>f"aos_{base}_{tag}{k}" for k in range(n)\<close>.\<close>

definition aos_names :: "string \<Rightarrow> string \<Rightarrow> int \<Rightarrow> string list" where
  "aos_names base tag n = map (\<lambda>k. concat [''aos_'', base, ''_'', tag, str_nat k]) [0..<nat n]"

definition aos_loop_pieces_of :: "frozen_arg \<Rightarrow> aos_loop_pieces" where
  "aos_loop_pieces_of a =
     (let base = fa_sdfg_name a; lead = aos_lead a; mrank = fa_rank a - lead in
      if lead = 0 then
        \<lparr>loop_vars = [], lower_vars = [], upper_vars = [], member_rank = mrank,
         accessor = concat [fa_aos_origin_struct a, ''%'', fa_aos_member_path a], segment_caps = [],
         member_loop_vars = [], element_lower_vars = [], element_upper_vars = []\<rparr>
      else
        let its = aos_names base ''i'' lead;
            (root, segment) = aos_root_and_segment a;
            roots = py_prefix (fa_aos_root_rank a) its; segs = py_suffix (fa_aos_root_rank a) its
        in \<lparr>loop_vars = its, lower_vars = aos_names base ''l'' mrank, upper_vars = aos_names base ''u'' mrank,
            member_rank = mrank,
            accessor =
              (if fa_aos_root_rank a \<noteq> 0 then
                 concat [root, ''('', join '', '' roots, '')%'', segment, ''('', join '', '' segs, '')%'', fa_aos_member_path a]
               else concat [fa_aos_origin_struct a, ''('', join '', '' its, '')%'', fa_aos_member_path a]),
            segment_caps =
              (if fa_aos_root_rank a \<noteq> 0 then map (\<lambda>k. concat [''aos_'', base, ''_n'', str_nat k]) [0..<length segs] else []),
            member_loop_vars = aos_names base ''m'' mrank,
            element_lower_vars = aos_names base ''el'' mrank,
            element_upper_vars = aos_names base ''eu'' mrank\<rparr>)"

text \<open>\<open>enumerate(xs, start=1)\<close>.\<close>

definition enum1 :: "'a list \<Rightarrow> (nat \<times> 'a) list" where
  "enum1 xs = zip [1..<Suc (length xs)] xs"

definition bound_call :: "string \<Rightarrow> string \<Rightarrow> nat \<Rightarrow> string" where
  "bound_call q e k = concat [q, ''('', e, '', '', str_nat k, '')'']"

definition do_line :: "string \<Rightarrow> string \<Rightarrow> string \<Rightarrow> string" where
  "do_line v lo hi = concat [''      do '', v, '' = '', lo, '', '', hi]"

definition aos_loops_of :: "frozen_arg \<Rightarrow> aos_loop_pieces \<Rightarrow> aos_loops" where
  "aos_loops_of a pieces =
     (let its = loop_vars pieces; one = join '', '' (map (\<lambda>_. ''1'') its); struct = fa_aos_origin_struct a in
      if fa_aos_root_rank a = 0 then
        \<lparr>al_prelude = [],
         do_open = map (\<lambda>(k, v). do_line v (bound_call ''lbound'' struct k) (bound_call ''ubound'' struct k)) (enum1 its),
         do_close = map (\<lambda>_. ''      end do'') its,
         outer_dims = join '', ''
           (map (\<lambda>(k, v). concat [bound_call ''lbound'' struct k, '':'', bound_call ''ubound'' struct k]) (enum1 its)),
         one_dims = one,
         al_present = (if fa_aos_struct_static a then ''.true.'' else present_query struct (fa_aos_struct_pointer a))\<rparr>
      else
        let (root, segment) = aos_root_and_segment a;
            roots = py_prefix (fa_aos_root_rank a) its; segs = py_suffix (fa_aos_root_rank a) its;
            caps = segment_caps pieces;
            element_segment = concat [root, ''('', join '', '' roots, '')%'', segment];
            root_present = (if fa_aos_struct_static a then ''.true.'' else concat [''allocated('', root, '')'']);
            segment_present = present_query element_segment (fa_aos_struct_pointer a);
            do_root = map (\<lambda>(k, j). do_line j ''1'' (bound_call ''size'' root k)) (enum1 roots)
        in \<lparr>al_prelude =
              map (\<lambda>c. concat [''    '', c, '' = 0'']) caps @
              [concat [''    if ('', root_present, '') then'']] @ do_root @
              [concat [''        if ('', segment_present, '') then'']] @
              map (\<lambda>(k, c). concat [''          '', c, '' = max('', c, '', '', bound_call ''size'' element_segment k, '')'']) (enum1 caps) @
              [''        end if''] @ map (\<lambda>_. ''      end do'') roots @ [''    end if''],
            do_open =
              do_root @ [concat [''      if ('', segment_present, '') then'']] @
              map (\<lambda>(k, i). do_line i ''1'' (bound_call ''size'' element_segment k)) (enum1 segs),
            do_close = map (\<lambda>_. ''      end do'') segs @ [''      end if''] @ map (\<lambda>_. ''      end do'') roots,
            outer_dims = join '', '' (map (\<lambda>(k, j). bound_call ''size'' root k) (enum1 roots) @
              map (\<lambda>c. concat [''max('', c, '', 1)'']) caps),
            one_dims = one,
            al_present = root_present\<rparr>)"

text \<open>\<open>range(1, rank + 1)\<close>.\<close>

definition own_bounds :: "string \<Rightarrow> int \<Rightarrow> string" where
  "own_bounds m rank =
     join '', '' (map (\<lambda>k. concat [bound_call ''lbound'' m k, '':'', bound_call ''ubound'' m k]) [1..<Suc (nat rank)])"

definition device_member_loop :: "aos_loop_pieces \<Rightarrow> string \<Rightarrow> string list" where
  "device_member_loop pieces assign =
     (let elem = accessor pieces; rank = member_rank pieces;
          dims = zip (member_loop_vars pieces) (zip (element_lower_vars pieces) (element_upper_vars pieces)) in
      map (\<lambda>(k, lo). concat [''          '', lo, '' = '', bound_call ''lbound'' elem k]) (enum1 (element_lower_vars pieces)) @
      map (\<lambda>(k, hi). concat [''          '', hi, '' = '', bound_call ''ubound'' elem k]) (enum1 (element_upper_vars pieces)) @
      [concat [''          !$acc parallel loop collapse('', str_int rank, '') default(present)'']] @
      map (\<lambda>(depth, (m, lo, hi)). concat [spaces (2 * depth), ''          do '', m, '' = '', lo, '', '', hi])
        (zip [0..<length dims] (rev dims)) @
      [concat [spaces (2 * nat rank), ''          '', assign]] @
      map (\<lambda>depth. concat [spaces (2 * depth), ''          end do'']) (rev [0..<nat rank]))"

definition kept_unchanged_local :: "string \<Rightarrow> string" where
  "kept_unchanged_local sdfg_name = sdfg_name @ ''__kept''"

definition top_level_items :: "string \<Rightarrow> string list" where
  "top_level_items spec = filter (\<lambda>x. x \<noteq> []) (split_top 0 [] spec)"

section \<open>Keeping a buffer between calls\<close>

text \<open>The test that one dimension of the buffer still has the bounds, or the extent, of an allocation spec.\<close>

definition kept_extent :: "string \<Rightarrow> int \<Rightarrow> string \<Rightarrow> string" where
  "kept_extent buf dim e =
     (if CHR '':'' \<in> set e then
        concat [''lbound('', buf, '', '', str_int dim, '') == '', before_first CHR '':'' e, '' .and. ubound('', buf, '', '',
          str_int dim, '') == '', after_char CHR '':'' e]
      else concat [''size('', buf, '', '', str_int dim, '') == '', e])"

definition kept_extents :: "frozen_arg \<Rightarrow> bool \<Rightarrow> string \<Rightarrow> string" where
  "kept_extents a members_first spec =
     (let items = top_level_items spec in
      join '' .and. '' (map (\<lambda>(k, e). kept_extent (fa_sdfg_name a) (buffer_dim a (int k) members_first) e)
        (zip [0..<length items] items)))"

definition render_kept_release ::
  "frozen_arg \<Rightarrow> aos_loops \<Rightarrow> string list \<Rightarrow> string list \<Rightarrow> bool \<Rightarrow> bool \<Rightarrow> string list" where
  "render_kept_release a loops lowers uppers device members_first =
     (let buf = fa_sdfg_name a; same = kept_unchanged_local buf; lead = aos_lead a;
          dim = (\<lambda>j. str_int (buffer_dim a (lead + int j) members_first)) in
      [concat [''    if (allocated('', buf, '')) then''],
       concat [''      if ('', al_present loops, '') then''],
       concat [''        '', same, '' = '', kept_extents a members_first (outer_dims loops)],
       ''      else'',
       concat [''        '', same, '' = '', kept_extents a members_first (one_dims loops)],
       ''      end if''] @
      concat (map (\<lambda>(j, (lo, hi)).
        [concat [''      '', same, '' = '', same, '' .and. lbound('', buf, '', '', dim j, '') == '', lo, '' .and. &''],
         concat [''        ubound('', buf, '', '', dim j, '') == '', hi]]) (zip [0..<length lowers] (zip lowers uppers))) @
      [concat [''      if (.not. '', same, '') then'']] @
      (if device then [concat [''        !$acc exit data delete('', buf, '')'']] else []) @
      [concat [''        deallocate('', buf, '')''], ''      end if'', ''    end if''])"

definition keepable :: "frozen_arg \<Rightarrow> bool" where
  "keepable a =
     (fa_aos_origin_struct a \<noteq> [] \<and> fa_aos_origin_mod a \<noteq> [] \<and> fa_rank a > 0 \<and> aos_lead a > 0 \<and>
      fa_rank a > aos_lead a \<and> \<not> aos_member_is_static a \<and> \<not> fa_global_alloc_inside a)"

section \<open>Packing the buffer before the call\<close>

definition acc_kernels :: "string \<Rightarrow> string \<Rightarrow> string list" where
  "acc_kernels ind assign = [ind @ ''!$acc kernels default(present)'', ind @ assign, ind @ ''!$acc end kernels'']"

text \<open>A member of a scalar record.\<close>

definition scalar_struct_copy_in :: "frozen_arg \<Rightarrow> bool \<Rightarrow> string list" where
  "scalar_struct_copy_in a device =
     (let buf = fa_sdfg_name a; m = concat [fa_aos_origin_struct a, ''%'', fa_aos_member_path a];
          zero = zero_literal (fa_dtype a);
          header = concat [''    ! ----- scalar-struct member: '', buf, '' <- '', m, '' -----''];
          mp = present_query m (fa_aos_member_pointer a); live = own_bounds m (fa_rank a);
          degen = join '', '' (replicate (nat (fa_rank a)) ''1'');
          enter = concat [''      !$acc enter data create('', buf, '')''] in
      if fa_rank a \<noteq> 0 \<and> aos_member_is_static a then
        [header, concat [''    allocate('', buf, ''('', join '', '' (py_suffix (aos_lead a) (fa_shape a)), '')); '', buf, '' = '', m]]
      else if fa_rank a \<noteq> 0 \<and> device then
        [replace ''scalar-struct member:'' ''scalar-struct member on the device:'' header,
         concat [''    if ('', mp, '') then''], concat [''      allocate('', buf, ''('', live, ''))''], enter] @
        acc_kernels ''      '' (concat [buf, '' = '', m]) @
        [''    else'', concat [''      allocate('', buf, ''('', degen, ''))''], enter] @
        acc_kernels ''      '' (concat [buf, '' = '', zero]) @ [''    end if'']
      else if fa_rank a \<noteq> 0 then
        [header, concat [''    if ('', mp, '') then''],
         concat [''      allocate('', buf, ''('', live, '')); '', buf, '' = '', m], ''    else'',
         concat [''      allocate('', buf, ''('', degen, '')); '', buf, '' = '', zero], ''    end if'']
      else [header, concat [''    '', buf, '' = '', zero]])"

text \<open>A plain value per element.\<close>

definition gather_lines :: "frozen_arg \<Rightarrow> aos_loops \<Rightarrow> aos_loop_pieces \<Rightarrow> string list" where
  "gather_lines a loops pieces =
     (let buf = fa_sdfg_name a in
      [concat [''    ! ----- AoS->SoA gather (scalar member): '', buf, '' <- '', fa_aos_origin_struct a, ''(:)%'',
         fa_aos_member_path a, '' -----'']] @
      al_prelude loops @ [concat [''    if ('', al_present loops, '') then''],
        concat [''      allocate('', buf, ''('', outer_dims loops, ''))'']] @
      do_open loops @ [concat [''        '', buf, ''('', join '', '' (loop_vars pieces), '') = '', accessor pieces]] @
      do_close loops @
      [''    else'', concat [''      allocate('', buf, ''('', one_dims loops, '')); '', buf, '' = '', zero_literal (fa_dtype a)],
       ''    end if''])"

text \<open>A fixed-shape value per element.\<close>

definition static_slice :: "frozen_arg \<Rightarrow> string" where
  "static_slice a = join '', '' (map (\<lambda>d. ''1:'' @ d) (py_suffix (aos_lead a) (fa_shape a)))"

definition static_copy_in :: "frozen_arg \<Rightarrow> aos_loops \<Rightarrow> aos_loop_pieces \<Rightarrow> bool \<Rightarrow> string list" where
  "static_copy_in a loops pieces mf =
     (let buf = fa_sdfg_name a; zero = zero_literal (fa_dtype a);
          cap_dims = join '', '' (py_suffix (aos_lead a) (fa_shape a)) in
      [concat [''    ! ----- AoS->SoA copy-in (static value member): '', buf, '' <- '', fa_aos_origin_struct a, ''(:)%'',
         fa_aos_member_path a, '' -----'']] @
      al_prelude loops @ [concat [''    if ('', al_present loops, '') then''],
        concat [''      allocate('', buf, ''('', buffer_spec (outer_dims loops) cap_dims mf, '')); '', buf, '' = '', zero]] @
      do_open loops @
      [concat [''        '', buf, ''('', buffer_spec (join '', '' (loop_vars pieces)) (static_slice a) mf, '') = '', accessor pieces]] @
      do_close loops @
      [''    else'', concat [''      allocate('', buf, ''('', buffer_spec (one_dims loops) cap_dims mf, '')); '', buf, '' = '', zero],
       ''    end if''])"

text \<open>The bounds of the members: the smallest lower and the largest upper one over the elements present.\<close>

definition bounds_reset :: "(string \<times> string) list \<Rightarrow> string list" where
  "bounds_reset bs = concat (map (\<lambda>(lo, hi). [concat [''    '', lo, '' = huge('', lo, '')''], concat [''    '', hi, '' = -huge('', hi, '')'']]) bs)"

definition bounds_span :: "string \<Rightarrow> (string \<times> string) list \<Rightarrow> string list" where
  "bounds_span elem bs = concat (map (\<lambda>(k, (lo, hi)).
     [concat [''          '', lo, '' = min('', lo, '', '', bound_call ''lbound'' elem k, '')''],
      concat [''          '', hi, '' = max('', hi, '', '', bound_call ''ubound'' elem k, '')'']]) (enum1 bs))"

definition bounds_default :: "(string \<times> string) list \<Rightarrow> string list" where
  "bounds_default bs = concat (map (\<lambda>(lo, hi).
     [concat [''    if ('', lo, '' > '', hi, '') '', lo, '' = 1''], concat [''    '', hi, '' = max('', hi, '', '', lo, '')'']]) bs)"

text \<open>The header of the copy-in; the member-first and the kept lane rewrite it.\<close>

definition copy_in_header :: "frozen_arg \<Rightarrow> bool \<Rightarrow> bool \<Rightarrow> bool \<Rightarrow> string" where
  "copy_in_header a device kept mf =
     (let h = concat [''    ! ----- AoS->SoA copy-in: '', fa_sdfg_name a, '' <- '', fa_aos_origin_struct a, ''(:)%'',
            fa_aos_member_path a, '' -----''];
          h = (if mf then replace ''copy-in'' ''copy-in, member dimensions first'' h else h);
          h = (if kept then replace ''copy-in'' ''copy-in, kept between calls'' h else h)
      in if device then replace ''copy-in:'' ''copy-in on the device:'' h else h)"

definition member_transfer_in :: "frozen_arg \<Rightarrow> aos_loop_pieces \<Rightarrow> string \<Rightarrow> bool \<Rightarrow> bool \<Rightarrow> string list" where
  "member_transfer_in a pieces mp device mf =
     (let buf = fa_sdfg_name a; idx = join '', '' (loop_vars pieces); elem = accessor pieces;
          midx = join '', '' (member_loop_vars pieces) in
      if device then
        [concat [''        if ('', mp, '') then'']] @
        device_member_loop pieces (concat [buf, ''('', buffer_spec idx midx mf, '') = '', elem, ''('', midx, '')'']) @
        [''        end if'']
      else
        [concat [''        if ('', mp, '') &''],
         concat [''          '', buf, ''('', buffer_spec idx (own_bounds elem (member_rank pieces)) mf, '') = '', elem]])"

definition member_pack :: "frozen_arg \<Rightarrow> aos_loops \<Rightarrow> aos_loop_pieces \<Rightarrow> string \<Rightarrow> bool \<Rightarrow> bool \<Rightarrow> string list" where
  "member_pack a loops pieces mp device mf =
     (let buf = fa_sdfg_name a; sp = al_present loops; zero = zero_literal (fa_dtype a);
          bound_dims = join '', '' (map (\<lambda>(lo, hi). concat [lo, '':'', hi]) (zip (lower_vars pieces) (upper_vars pieces))) in
      [concat [''    if ('', sp, '') then''],
       concat [''      allocate('', buf, ''('', buffer_spec (outer_dims loops) bound_dims mf, ''))''], ''    else'',
       concat [''      allocate('', buf, ''('', buffer_spec (one_dims loops) bound_dims mf, ''))''], ''    end if''] @
      (if device then concat [''    !$acc enter data create('', buf, '')''] # acc_kernels ''    '' (concat [buf, '' = '', zero])
       else [concat [''    '', buf, '' = '', zero]]) @
      (if fa_global_alloc_inside a then []
       else [concat [''    if ('', sp, '') then'']] @ do_open loops @ member_transfer_in a pieces mp device mf @
         do_close loops @ [''    end if'']))"

definition member_copy_in :: "frozen_arg \<Rightarrow> aos_loops \<Rightarrow> aos_loop_pieces \<Rightarrow> bool \<Rightarrow> bool \<Rightarrow> bool \<Rightarrow> string list" where
  "member_copy_in a loops pieces device kept mf =
     (let elem = accessor pieces; mp = present_query elem (fa_aos_member_pointer a); sp = al_present loops;
          bs = zip (lower_vars pieces) (upper_vars pieces); pack = member_pack a loops pieces mp device mf in
      [copy_in_header a device kept mf] @ al_prelude loops @ bounds_reset bs @
      [concat [''    if ('', sp, '') then'']] @ do_open loops @
      (if fa_global_alloc_inside a then []
       else [concat [''        if ('', mp, '') then'']] @ bounds_span elem bs @ [''        end if'']) @
      do_close loops @ [''    end if''] @ bounds_default bs @
      (if kept then
         render_kept_release a loops (lower_vars pieces) (upper_vars pieces) device mf @
         [concat [''    if (.not. allocated('', fa_sdfg_name a, '')) then'']] @ map (\<lambda>l. ''  '' @ l) pack @ [''    end if'']
       else pack))"

datatype image_error =
    NotKeepable string
  | AllocatedOnDevice string
  | ImageIndexError

definition render_aos_copy_in :: "frozen_arg \<Rightarrow> bool \<Rightarrow> bool \<Rightarrow> bool \<Rightarrow> image_error + string list" where
  "render_aos_copy_in a device kept mf =
     (let pieces = aos_loop_pieces_of a in
      if kept \<and> \<not> keepable a then Inl (NotKeepable (fa_sdfg_name a))
      else if aos_lead a = 0 then Inr (scalar_struct_copy_in a device)
      else
        let loops = aos_loops_of a pieces in
        if member_rank pieces = 0 then Inr (gather_lines a loops pieces)
        else if aos_member_is_static a then Inr (static_copy_in a loops pieces mf)
        else Inr (member_copy_in a loops pieces device kept mf))"

section \<open>Unpacking it after the call\<close>

definition scalar_struct_copy_out :: "frozen_arg \<Rightarrow> bool \<Rightarrow> string list" where
  "scalar_struct_copy_out a device =
     (let buf = fa_sdfg_name a; m = concat [fa_aos_origin_struct a, ''%'', fa_aos_member_path a];
          mp = present_query m (fa_aos_member_pointer a) in
      (if fa_rank a \<noteq> 0 \<and> aos_member_is_static a then [concat [''    '', m, '' = '', buf]]
       else if fa_rank a \<noteq> 0 \<and> device then
         [concat [''    if ('', mp, '') then'']] @ acc_kernels ''      '' (concat [m, '' = '', buf]) @
         [''    end if'', concat [''    !$acc exit data delete('', buf, '')'']]
       else if fa_rank a \<noteq> 0 then [concat [''    if ('', mp, '') '', m, '' = '', buf]]
       else []) @ [concat [''    deallocate('', buf, '')'']])"

definition scatter_lines :: "frozen_arg \<Rightarrow> aos_loops \<Rightarrow> aos_loop_pieces \<Rightarrow> string list" where
  "scatter_lines a loops pieces =
     (let buf = fa_sdfg_name a in
      [concat [''    ! ----- SoA->AoS scatter (scalar member): '', fa_aos_origin_struct a, ''(:)%'', fa_aos_member_path a,
         '' <- '', buf, '' -----''],
       concat [''    if ('', al_present loops, '') then'']] @ do_open loops @
      [concat [''        '', accessor pieces, '' = '', buf, ''('', join '', '' (loop_vars pieces), '')'']] @
      do_close loops @ [''    end if'', concat [''    deallocate('', buf, '')'']])"

definition static_copy_out :: "frozen_arg \<Rightarrow> aos_loops \<Rightarrow> aos_loop_pieces \<Rightarrow> bool \<Rightarrow> string list" where
  "static_copy_out a loops pieces mf =
     (let buf = fa_sdfg_name a in
      [concat [''    ! ----- SoA->AoS copy-out (static value member): '', fa_aos_origin_struct a, ''(:)%'', fa_aos_member_path a,
         '' <- '', buf, '' -----''],
       concat [''    if ('', al_present loops, '') then'']] @ do_open loops @
      [concat [''        '', accessor pieces, '' = '', buf, ''('',
         buffer_spec (join '', '' (loop_vars pieces)) (static_slice a) mf, '')'']] @
      do_close loops @ [''    end if'', concat [''    deallocate('', buf, '')'']])"

definition member_transfer_out :: "frozen_arg \<Rightarrow> aos_loop_pieces \<Rightarrow> string \<Rightarrow> bool \<Rightarrow> bool \<Rightarrow> string list" where
  "member_transfer_out a pieces mp device mf =
     (let buf = fa_sdfg_name a; idx = join '', '' (loop_vars pieces); elem = accessor pieces;
          midx = join '', '' (member_loop_vars pieces) in
      if device then
        [concat [''        if ('', mp, '') then'']] @
        device_member_loop pieces (concat [elem, ''('', midx, '') = '', buf, ''('', buffer_spec idx midx mf, '')'']) @
        [''        end if'']
      else
        [concat [''        if ('', mp, '') &''],
         concat [''          '', elem, '' = '', buf, ''('', buffer_spec idx (own_bounds elem (member_rank pieces)) mf, '')'']])"

definition member_copy_out :: "frozen_arg \<Rightarrow> aos_loops \<Rightarrow> aos_loop_pieces \<Rightarrow> bool \<Rightarrow> bool \<Rightarrow> string list" where
  "member_copy_out a loops pieces device mf =
     (let buf = fa_sdfg_name a; elem = accessor pieces; mp = present_query elem (fa_aos_member_pointer a);
          dims = map (\<lambda>j. str_int (buffer_dim a (aos_lead a + int j) mf)) [0..<nat (member_rank pieces)];
          alloc_dims = join '', '' (map (\<lambda>k. concat [''lbound('', buf, '', '', k, ''):ubound('', buf, '', '', k, '')'']) dims) in
      [concat [''    ! ----- SoA->AoS copy-out'', if device then '' on the device'' else [], '': '', fa_aos_origin_struct a, ''(:)%'',
         fa_aos_member_path a, '' <- '', buf, '' -----''],
       concat [''    if ('', al_present loops, '') then'']] @ do_open loops @
      (if fa_global_alloc_inside a then [concat [''        if (.not. '', mp, '') allocate('', elem, ''('', alloc_dims, ''))'']] else []) @
      member_transfer_out a pieces mp device mf @
      do_close loops @ [''    end if''] @
      (if device then [concat [''    !$acc exit data delete('', buf, '')'']] else []) @
      [concat [''    deallocate('', buf, '')'']])"

definition render_aos_copy_out :: "frozen_arg \<Rightarrow> bool \<Rightarrow> bool \<Rightarrow> image_error + string list" where
  "render_aos_copy_out a device mf =
     (let pieces = aos_loop_pieces_of a in
      if aos_lead a = 0 then Inr (scalar_struct_copy_out a device)
      else
        let loops = aos_loops_of a pieces in
        if member_rank pieces = 0 then Inr (scatter_lines a loops pieces)
        else if aos_member_is_static a then Inr (static_copy_out a loops pieces mf)
        else if fa_global_alloc_inside a \<and> device then Inl (AllocatedOnDevice (fa_sdfg_name a))
        else Inr (member_copy_out a loops pieces device mf))"

section \<open>Images the SDFG allocates itself\<close>

definition shape_only_bounds :: "frozen_arg \<Rightarrow> string list" where
  "shape_only_bounds a =
     (let pieces = aos_loop_pieces_of a; loops = aos_loops_of a pieces; elem = accessor pieces;
          present = (if aos_member_is_static a then ''.true.'' else present_query elem (fa_aos_member_pointer a));
          bs = zip (lower_vars pieces) (upper_vars pieces) in
      [concat [''    ! ----- bounds of the image of '', fa_fortran_name a, '', which the SDFG allocates itself -----'']] @
      al_prelude loops @ bounds_reset bs @ [concat [''    if ('', al_present loops, '') then'']] @ do_open loops @
      [concat [''        if ('', present, '') then'']] @ bounds_span elem bs @ [''        end if''] @ do_close loops @
      [''    end if''] @ bounds_default bs)"

definition shape_only_source :: "frozen_arg \<Rightarrow> nat \<Rightarrow> bool \<Rightarrow> image_error + (string \<times> string)" where
  "shape_only_source a dim is_lower =
     (let query = (if is_lower then ''lbound'' else ''size''); lead = aos_lead a; d = int dim;
          at = (\<lambda>e. concat [query, ''('', e, '', dim='', str_nat (dim + 1), '')'']) in
      if lead = 0 then
        (let elem = concat [fa_aos_origin_struct a, ''%'', fa_aos_member_path a] in
         Inr (at elem, if aos_member_is_static a then [] else present_query elem (fa_aos_member_pointer a)))
      else
        let pieces = aos_loop_pieces_of a;
            present = (if fa_aos_struct_static a then [] else al_present (aos_loops_of a pieces)) in
        if d \<ge> lead then
          rbind (of_option ImageIndexError (py_nth (lower_vars pieces) (d - lead))) (\<lambda>lo.
          rbind (of_option ImageIndexError (py_nth (upper_vars pieces) (d - lead))) (\<lambda>hi.
            Inr (if is_lower then lo else concat [hi, '' - '', lo, '' + 1''], [])))
        else if fa_aos_root_rank a = 0 then Inr (at (fa_aos_origin_struct a), present)
        else if is_lower then Inr (''1'', [])
        else if d < fa_aos_root_rank a then
          Inr (concat [''size('', fst (aos_root_and_segment a), '', dim='', str_nat (dim + 1), '')''], present)
        else rbind (of_option ImageIndexError (py_nth (segment_caps pieces) (d - fa_aos_root_rank a))) (\<lambda>c.
          Inr (concat [''max('', c, '', 1)''], [])))"

section \<open>Lines and blocks\<close>

text \<open>What the names have to be for the emitted lines to read as meant: the buffer has no blank in its
  name, and the path of the member does not start a line like a block does.\<close>

definition image_names_ok :: "frozen_arg \<Rightarrow> bool" where
  "image_names_ok a =
     (fa_sdfg_name a \<noteq> [] \<and> list_all (\<lambda>c. \<not> is_space c) (fa_sdfg_name a) \<and>
      ref_head (accessor (aos_loop_pieces_of a)))"

lemma names_ref: "x \<noteq> [] \<Longrightarrow> list_all (\<lambda>c. \<not> is_space c) x \<Longrightarrow> ref_head x"
  by (auto simp: ref_head_def list_all_iff dest: in_set_takeD)

lemma not_then:
  assumes "list_all (\<lambda>c. \<not> is_space c) b"
  shows "\<not> endswith (x @ ''= '' @ b) '') then''"
proof
  assume "endswith (x @ ''= '' @ b) '') then''"
  then obtain y where "x @ ''= '' @ b = y @ '') then''"
    by (metis append_take_drop_id endswith_def)
  then have r: "rev b @ '' ='' @ rev x = ''neht )'' @ rev y"
    by (metis (no_types, lifting) append_assoc rev.simps(2) rev_append rev_rev_ident append_Cons append_Nil)
  have "takeWhile (\<lambda>c. \<not> is_space c) (rev b @ '' ='' @ rev x) = rev b"
    using assms by (subst takeWhile_append2) (auto simp: list_all_iff)
  moreover have "takeWhile (\<lambda>c. \<not> is_space c) (''neht )'' @ rev y) = ''neht''"
    by code_simp
  ultimately have "rev b = ''neht''" using r by simp
  then show False using r by simp
qed

lemma kind_if_assign:
  assumes "list_all (\<lambda>c. \<not> is_space c) b"
  shows "line_kind (''if ('' @ x @ ''= '' @ b) = Plain (''if ('' @ x @ ''= '' @ b)"
proof -
  have "\<not> is_space CHR ''i''" by code_simp
  moreover have "\<not> endswith (''if ('' @ x @ ''= '' @ b) '') then''"
    using not_then [OF assms, of "''if ('' @ x"] by simp
  ultimately show ?thesis by (simp add: line_kind_def lstrip_word startswith_def)
qed

text \<open>The names the renderers make up all start with \<open>aos_\<close>.\<close>

definition a_name :: "string \<Rightarrow> bool" where
  "a_name v = (take 1 v = ''a'')"

lemma a_name_Cons [simp]: "a_name (CHR ''a'' # t)"
  by (simp add: a_name_def)

lemma aos_names_mem: "x \<in> set (aos_names base tag n) \<Longrightarrow> a_name x"
  by (auto simp: aos_names_def)

lemma kind_a_name:
  assumes "a_name v"
  shows "line_kind (v @ l) = Plain (v @ l)"
    and "line_kind (CHR ''d'' # CHR ''o'' # CHR '' '' # v @ l) = Opens_Do (v @ l)"
proof -
  obtain t where v: "v = CHR ''a'' # t" using assms by (cases v) (auto simp: a_name_def)
  have "is_word CHR ''a''" "\<not> is_space CHR ''d''" "\<not> is_space CHR ''a''" by code_simp+
  then show "line_kind (v @ l) = Plain (v @ l)" "line_kind (CHR ''d'' # CHR ''o'' # CHR '' '' # v @ l) = Opens_Do (v @ l)"
    by (simp_all add: v kind_other) (simp add: line_kind_def startswith_def lstrip_word)
qed

lemma kind_bang [simp]: "line_kind (CHR ''!'' # l) = Plain (CHR ''!'' # l)"
proof -
  have "\<not> is_space CHR ''!''" by code_simp
  then show ?thesis by (simp add: kind_other)
qed

lemma al_kind [simp]: "line_kind (CHR ''a'' # l) = Plain (CHR ''a'' # l)"
  using kind_a_name(1) [of "''a''" l] by simp

definition loop_header :: "string \<Rightarrow> string \<Rightarrow> string \<Rightarrow> string" where
  "loop_header v lo hi = concat [v, '' = '', lo, '', '', hi]"

text \<open>The statements around what is done for one element: its loops, outermost first, and, under a root
  array of records, the test that the root element has a segment.\<close>

definition element_nest :: "frozen_arg \<Rightarrow> stmt list \<Rightarrow> stmt list" where
  "element_nest a ts =
     (let its = loop_vars (aos_loop_pieces_of a); struct = fa_aos_origin_struct a in
      if fa_aos_root_rank a = 0 then
        nest (map (\<lambda>(k, v). loop_header v (bound_call ''lbound'' struct k) (bound_call ''ubound'' struct k)) (enum1 its)) ts
      else
        let (root, segment) = aos_root_and_segment a;
            roots = py_prefix (fa_aos_root_rank a) its; segs = py_suffix (fa_aos_root_rank a) its;
            element_segment = concat [root, ''('', join '', '' roots, '')%'', segment]
        in nest (map (\<lambda>(k, j). loop_header j ''1'' (bound_call ''size'' root k)) (enum1 roots))
             [If (present_query element_segment (fa_aos_struct_pointer a))
                (nest (map (\<lambda>(k, i). loop_header i ''1'' (bound_call ''size'' element_segment k)) (enum1 segs)) ts)])"

lemma enum1_snd: "(k, v) \<in> set (enum1 xs) \<Longrightarrow> v \<in> set xs"
  by (auto simp: enum1_def dest: set_zip_rightD)

lemma length_enum1 [simp]: "length (enum1 xs) = length xs"
  by (simp add: enum1_def del: upt_Suc)

lemma py_prefix_set: "x \<in> set (py_prefix n xs) \<Longrightarrow> x \<in> set xs"
  by (auto simp: py_prefix_def split: if_splits dest: in_set_takeD)

lemma py_suffix_set: "x \<in> set (py_suffix n xs) \<Longrightarrow> x \<in> set xs"
  by (auto simp: py_suffix_def split: if_splits dest: in_set_dropD)

lemma block_do_lines:
  assumes "\<forall>v \<in> set vs. a_name v" and "block body ts"
  shows "block (map (\<lambda>(k, v). do_line v (f k v) (g k v)) (enum1 vs) @ body @ map (\<lambda>_. ''      end do'') vs)
    (nest (map (\<lambda>(k, v). loop_header v (f k v) (g k v)) (enum1 vs)) ts)"
proof (rule block_nest [OF _ _ _ assms(2)])
  have "line_kind (do_line v lo hi) = Opens_Do (loop_header v lo hi)" if "v \<in> set vs" for v lo hi
    using assms(1) that kind_a_name(2) [of v] by (simp add: do_line_def loop_header_def)
  then show "list_all2 (\<lambda>p h. line_kind p = Opens_Do h) (map (\<lambda>(k, v). do_line v (f k v) (g k v)) (enum1 vs))
      (map (\<lambda>(k, v). loop_header v (f k v) (g k v)) (enum1 vs))"
    unfolding list.rel_map by (intro list.rel_refl_strong) (metis (no_types, lifting) case_prod_conv enum1_snd surj_pair)
qed auto

lemma loop_vars_a: "\<forall>v \<in> set (loop_vars (aos_loop_pieces_of a)). a_name v"
  by (auto simp: aos_loop_pieces_of_def Let_def case_prod_unfold aos_names_mem)

lemma slices_a:
  "\<forall>v \<in> set (py_prefix n (loop_vars (aos_loop_pieces_of a))). a_name v"
  "\<forall>v \<in> set (py_suffix n (loop_vars (aos_loop_pieces_of a))). a_name v"
  by (intro ballI; drule py_prefix_set py_suffix_set; rule bspec [OF loop_vars_a]; assumption)+

lemma block_element_loops:
  assumes "block body ts"
  shows "block (do_open (aos_loops_of a (aos_loop_pieces_of a)) @ body @ do_close (aos_loops_of a (aos_loop_pieces_of a)))
    (element_nest a ts)"
proof (cases "fa_aos_root_rank a = 0")
  case True
  let ?q = "\<lambda>q k v. bound_call q (fa_aos_origin_struct a) k"
  from True block_do_lines [OF loop_vars_a assms, of "?q ''lbound''" "?q ''ubound''"] show ?thesis
    unfolding aos_loops_of_def element_nest_def Let_def by simp
next
  case False
  let ?its = "loop_vars (aos_loop_pieces_of a)"
  let ?roots = "py_prefix (fa_aos_root_rank a) ?its" and ?segs = "py_suffix (fa_aos_root_rank a) ?its"
  obtain root segment where rs: "aos_root_and_segment a = (root, segment)" by (cases "aos_root_and_segment a")
  let ?es = "concat [root, ''('', join '', '' ?roots, '')%'', segment]"
  let ?sp = "present_query ?es (fa_aos_struct_pointer a)"
  note v = slices_a [of "fa_aos_root_rank a" a]
  have g: "line_kind (concat [''      if ('', ?sp, '') then'']) = Opens_If ?sp"
    using kind_if_then [of ?sp] by simp
  have e: "line_kind ''      end if'' = Closes_If" by simp
  have "block ([concat [''      if ('', ?sp, '') then'']] @
      (map (\<lambda>(k, i). do_line i ''1'' (bound_call ''size'' ?es k)) (enum1 ?segs) @ body @ map (\<lambda>_. ''      end do'') ?segs) @
      [''      end if'']) [If ?sp (nest (map (\<lambda>(k, i). loop_header i ''1'' (bound_call ''size'' ?es k)) (enum1 ?segs)) ts)]"
    by (rule block_if [OF g e block_do_lines [OF v(2) assms]])
  from block_do_lines [OF v(1) this, of "\<lambda>k j. ''1''" "\<lambda>k j. bound_call ''size'' root k"]
  show ?thesis using False rs by (simp add: aos_loops_of_def element_nest_def Let_def)
qed

text \<open>The transfer of one element: an assignment, for a member that may be absent under the test that it is
  there, on the device over the member's own index ranges.\<close>

definition device_nest :: "aos_loop_pieces \<Rightarrow> stmt \<Rightarrow> stmt list" where
  "device_nest pieces t =
     (let elem = accessor pieces;
          dims = zip (member_loop_vars pieces) (zip (element_lower_vars pieces) (element_upper_vars pieces)) in
      map (\<lambda>(k, lo). Leaf (concat [lo, '' = '', bound_call ''lbound'' elem k])) (enum1 (element_lower_vars pieces)) @
      map (\<lambda>(k, hi). Leaf (concat [hi, '' = '', bound_call ''ubound'' elem k])) (enum1 (element_upper_vars pieces)) @
      [Leaf (concat [''!$acc parallel loop collapse('', str_int (member_rank pieces), '') default(present)''])] @
      nest (map (\<lambda>(m, lo, hi). loop_header m lo hi) (rev dims)) [t])"

definition assigns :: "string \<Rightarrow> string \<Rightarrow> stmt" where
  "assigns l r = Leaf (concat [l, '' = '', r])"

definition image_transfer :: "frozen_arg \<Rightarrow> bool \<Rightarrow> string \<Rightarrow> string \<Rightarrow> stmt list" where
  "image_transfer a device l r =
     (let pieces = aos_loop_pieces_of a; mp = present_query (accessor pieces) (fa_aos_member_pointer a) in
      if member_rank pieces = 0 \<or> aos_member_is_static a then [assigns l r]
      else if device then [If mp (device_nest pieces (assigns l r))]
      else [Leaf (concat [''if ('', mp, '') &'']), assigns l r])"

text \<open>The two sides of the transfer: the element's place in the buffer, and the member.\<close>

definition buffer_side :: "frozen_arg \<Rightarrow> bool \<Rightarrow> bool \<Rightarrow> string" where
  "buffer_side a device mf =
     (let pieces = aos_loop_pieces_of a; idx = join '', '' (loop_vars pieces) in
      concat [fa_sdfg_name a, ''('',
        if member_rank pieces = 0 then idx
        else buffer_spec idx (if aos_member_is_static a then static_slice a
          else if device then join '', '' (member_loop_vars pieces)
          else own_bounds (accessor pieces) (member_rank pieces)) mf, '')''])"

definition member_side :: "frozen_arg \<Rightarrow> bool \<Rightarrow> string" where
  "member_side a device =
     (let pieces = aos_loop_pieces_of a in
      if member_rank pieces = 0 \<or> aos_member_is_static a \<or> \<not> device then accessor pieces
      else concat [accessor pieces, ''('', join '', '' (member_loop_vars pieces), '')''])"

lemma pieces_a:
  "\<forall>v \<in> set (lower_vars (aos_loop_pieces_of a)) \<union> set (upper_vars (aos_loop_pieces_of a)) \<union>
     set (member_loop_vars (aos_loop_pieces_of a)) \<union> set (element_lower_vars (aos_loop_pieces_of a)) \<union>
     set (element_upper_vars (aos_loop_pieces_of a)) \<union> set (segment_caps (aos_loop_pieces_of a)). a_name v"
  by (auto simp: aos_loop_pieces_of_def Let_def case_prod_unfold aos_names_mem)

lemma pieces_lengths:
  assumes "aos_lead a \<noteq> 0"
  shows "length (lower_vars (aos_loop_pieces_of a)) = nat (member_rank (aos_loop_pieces_of a))"
    "length (upper_vars (aos_loop_pieces_of a)) = nat (member_rank (aos_loop_pieces_of a))"
    "length (member_loop_vars (aos_loop_pieces_of a)) = nat (member_rank (aos_loop_pieces_of a))"
    "length (element_lower_vars (aos_loop_pieces_of a)) = nat (member_rank (aos_loop_pieces_of a))"
    "length (element_upper_vars (aos_loop_pieces_of a)) = nat (member_rank (aos_loop_pieces_of a))"
  using assms by (simp_all add: aos_loop_pieces_of_def Let_def case_prod_unfold aos_names_def)

lemma block_a_leaves:
  assumes "\<forall>v \<in> set vs. a_name v"
  shows "block (map (\<lambda>(k, v). concat [''          '', v, '' = '', f k]) (enum1 vs))
    (map (\<lambda>(k, v). Leaf (concat [v, '' = '', f k])) (enum1 vs))"
proof -
  have "line_kind (concat [''          '', v, '' = '', e]) = Plain (concat [v, '' = '', e])" if "v \<in> set vs" for v e
    using assms that kind_a_name(1) by simp
  then have "block (map (\<lambda>x. concat [''          '', snd x, '' = '', f (fst x)]) (enum1 vs))
      (map (\<lambda>x. Leaf (concat [snd x, '' = '', f (fst x)])) (enum1 vs))"
    by (intro block_leaves) (metis enum1_snd prod.collapse)
  then show ?thesis by (simp add: case_prod_unfold)
qed

lemma list_all2_enum:
  "\<forall>x \<in> set xs. \<forall>n. P (f n x) (g x) \<Longrightarrow> list_all2 P (map (\<lambda>(n, x). f n x) (zip [0..<length xs] xs)) (map g xs)"
  by (auto simp: list_all2_conv_all_nth)

lemma block_device_loop:
  assumes "aos_lead a \<noteq> 0" and "line_kind t = Plain t"
  shows "block (device_member_loop (aos_loop_pieces_of a) t) (device_nest (aos_loop_pieces_of a) (Leaf t))"
proof -
  let ?p = "aos_loop_pieces_of a"
  let ?dims = "zip (member_loop_vars ?p) (zip (element_lower_vars ?p) (element_upper_vars ?p))"
  let ?os = "map (\<lambda>(depth, (m, lo, hi)). concat [spaces (2 * depth), ''          do '', m, '' = '', lo, '', '', hi])
        (zip [0..<length ?dims] (rev ?dims))"
  have "line_kind (concat [spaces n, ''          do '', m, '' = '', lo, '', '', hi]) = Opens_Do (loop_header m lo hi)"
    if "m \<in> set (member_loop_vars ?p)" for n m lo hi
    proof -
    have "a_name m" using that pieces_a by blast
    then show ?thesis using kind_a_name(2) [of m] by (simp add: loop_header_def)
  qed
  moreover have "m \<in> set (member_loop_vars ?p)" if "(m, lo, hi) \<in> set (rev ?dims)" for m lo hi
    using that by (metis set_rev set_zip_leftD)
  ultimately have "\<forall>x \<in> set (rev ?dims). \<forall>n. line_kind (concat [spaces (2 * n), ''          do '', fst x, '' = '', fst (snd x),
      '', '', snd (snd x)]) = Opens_Do (loop_header (fst x) (fst (snd x)) (snd (snd x)))"
    by (metis prod.collapse)
  from list_all2_enum [where P = "\<lambda>p h. line_kind p = Opens_Do h"
      and f = "\<lambda>n x. concat [spaces (2 * n), ''          do '', fst x, '' = '', fst (snd x), '', '', snd (snd x)]"
      and g = "\<lambda>x. loop_header (fst x) (fst (snd x)) (snd (snd x))", OF this]
  have os: "list_all2 (\<lambda>p h. line_kind p = Opens_Do h) ?os (map (\<lambda>(m, lo, hi). loop_header m lo hi) (rev ?dims))"
    by (simp add: case_prod_unfold)
  have "block (?os @ [concat [spaces (2 * nat (member_rank ?p)), ''          '', t]] @
      map (\<lambda>depth. concat [spaces (2 * depth), ''          end do'']) (rev [0..<nat (member_rank ?p)]))
      (nest (map (\<lambda>(m, lo, hi). loop_header m lo hi) (rev ?dims)) [Leaf t])"
    by (rule block_nest [OF os]) (auto simp: pieces_lengths [OF assms(1)] assms(2) intro!: block_leaf)
  moreover have "block [concat [''          !$acc parallel loop collapse('', str_int (member_rank ?p), '') default(present)'']]
      [Leaf (concat [''!$acc parallel loop collapse('', str_int (member_rank ?p), '') default(present)''])]"
    by (rule block_leaf) simp
  moreover have "\<forall>v \<in> set (element_lower_vars ?p). a_name v" "\<forall>v \<in> set (element_upper_vars ?p). a_name v"
    using pieces_a by auto
  ultimately show ?thesis
    unfolding device_member_loop_def device_nest_def Let_def
    by (intro block_append block_a_leaves) simp_all
qed

lemma neutral_in_if: "neutral ls \<Longrightarrow> neutral ([concat [''    if ('', c, '') then'']] @ ls @ [''    end if''])"
  by (rule neutralI) (simp add: kinds)

lemma kind_call:
  assumes "ref_head l"
  shows "line_kind (l @ CHR ''('' # r) = Plain (l @ CHR ''('' # r)"
  using kind_ref [OF assms, of "CHR ''(''"] by simp

lemma block_guarded_transfer:
  assumes "aos_lead a \<noteq> 0" and "line_kind t = Plain t"
  shows "block ([concat [''        if ('', mp, '') then'']] @ device_member_loop (aos_loop_pieces_of a) t @ [''        end if''])
      [If mp (device_nest (aos_loop_pieces_of a) (Leaf t))]"
    and "block [concat [''        if ('', mp, '') &''], concat [''          '', t]] [Leaf (concat [''if ('', mp, '') &'']), Leaf t]"
proof -
  have "line_kind (concat [''        if ('', mp, '') then'']) = Opens_If mp" "line_kind ''        end if'' = Closes_If"
    using kind_if_then [of mp] by simp_all
  then show "block ([concat [''        if ('', mp, '') then'']] @ device_member_loop (aos_loop_pieces_of a) t @ [''        end if''])
      [If mp (device_nest (aos_loop_pieces_of a) (Leaf t))]"
    by (rule block_if [OF _ _ block_device_loop [OF assms]])
  have "block ([concat [''        if ('', mp, '') &'']] @ [concat [''          '', t]]) ([Leaf (concat [''if ('', mp, '') &''])] @ [Leaf t])"
    by (intro block_append block_leaf) (simp_all add: kinds assms(2))
  then show "block [concat [''        if ('', mp, '') &''], concat [''          '', t]] [Leaf (concat [''if ('', mp, '') &'']), Leaf t]"
    by simp
qed

lemmas transfer_defs = member_transfer_in_def member_transfer_out_def image_transfer_def buffer_side_def member_side_def
  Let_def assigns_def

lemma block_transfers:
  assumes "aos_lead a \<noteq> 0" and "image_names_ok a" and "member_rank (aos_loop_pieces_of a) \<noteq> 0" and "\<not> aos_member_is_static a"
    and "mp = present_query (accessor (aos_loop_pieces_of a)) (fa_aos_member_pointer a)"
  shows "block (member_transfer_in a (aos_loop_pieces_of a) mp device mf)
      (image_transfer a device (buffer_side a device mf) (member_side a device))"
    and "block (member_transfer_out a (aos_loop_pieces_of a) mp device mf)
      (image_transfer a device (member_side a device) (buffer_side a device mf))"
proof -
  from assms(2) have r: "ref_head (fa_sdfg_name a)" "ref_head (accessor (aos_loop_pieces_of a))"
    by (simp_all add: image_names_ok_def names_ref)
  note k = kind_call [OF r(1)] kind_call [OF r(2)] kind_ref [OF r(2), of "CHR '' ''"]
  note g = block_guarded_transfer [OF assms(1), of _ mp]
  show "block (member_transfer_in a (aos_loop_pieces_of a) mp device mf)
      (image_transfer a device (buffer_side a device mf) (member_side a device))"
    using assms k g by (cases device) (simp_all add: transfer_defs)
  show "block (member_transfer_out a (aos_loop_pieces_of a) mp device mf)
      (image_transfer a device (member_side a device) (buffer_side a device mf))"
    using assms k g by (cases device) (simp_all add: transfer_defs)
qed

lemma neutral_prelude: "neutral (al_prelude (aos_loops_of a (aos_loop_pieces_of a)))"
proof (cases "fa_aos_root_rank a = 0")
  case True
  then show ?thesis by (simp add: aos_loops_of_def Let_def)
next
  case False
  let ?p = "aos_loop_pieces_of a"
  let ?roots = "py_prefix (fa_aos_root_rank a) (loop_vars ?p)" and ?caps = "segment_caps ?p"
  obtain root segment where rs: "aos_root_and_segment a = (root, segment)" by (cases "aos_root_and_segment a")
  let ?es = "concat [root, ''('', join '', '' ?roots, '')%'', segment]"
  let ?sp = "present_query ?es (fa_aos_struct_pointer a)"
  let ?C = "map (\<lambda>(k, c). concat [''          '', c, '' = max('', c, '', '', bound_call ''size'' ?es k, '')'']) (enum1 ?caps)"
  have caps: "a_name c" if "c \<in> set ?caps" for c using that pieces_a by blast
  have z: "neutral (map (\<lambda>c. concat [''    '', c, '' = 0'']) ?caps)"
    by (rule neutral_map) (use caps kind_a_name(1) in auto)
  have "\<exists>s. line_kind (case x of (k, c) \<Rightarrow> concat [''          '', c, '' = max('', c, '', '', bound_call ''size'' ?es k, '')'']) = Plain s"
    if "x \<in> set (enum1 ?caps)" for x
  proof -
    obtain k c where x: "x = (k, c)" by (rule prod.exhaust)
    from kind_a_name(1) [OF caps [OF enum1_snd [OF that [unfolded x]]]] show ?thesis by (simp add: x)
  qed
  then have C: "neutral ?C" by (rule neutral_map)
  from neutral_block [OF C] obtain ts where ts: "block ?C ts" by blast
  have o: "line_kind (concat [''        if ('', ?sp, '') then'']) = Opens_If ?sp" using kind_if_then [of ?sp] by simp
  have e: "line_kind ''        end if'' = Closes_If" by simp
  have v: "\<forall>v \<in> set ?roots. a_name v" by (rule slices_a)
  have "neutral (map (\<lambda>(k, j). do_line j ''1'' (bound_call ''size'' root k)) (enum1 ?roots) @
      ([concat [''        if ('', ?sp, '') then'']] @ ?C @ [''        end if'']) @ map (\<lambda>_. ''      end do'') ?roots)"
    by (rule block_neutral [OF block_do_lines [OF v block_if [OF o e ts]]])
  then have "neutral ([concat [''    if ('', rp, '') then'']] @ (map (\<lambda>(k, j). do_line j ''1'' (bound_call ''size'' root k)) (enum1 ?roots) @
      ([concat [''        if ('', ?sp, '') then'']] @ ?C @ [''        end if'']) @ map (\<lambda>_. ''      end do'') ?roots) @ [''    end if''])" for rp
    by (rule neutral_in_if)
  from neutral_append [OF z this] False rs show ?thesis
    unfolding aos_loops_of_def Let_def by simp
qed

lemma neutral_concat_lines:
  "(\<And>x l. x \<in> set xs \<Longrightarrow> l \<in> set (f x) \<Longrightarrow> \<exists>s. line_kind l = Plain s) \<Longrightarrow> neutral (concat (map f xs))"
  by (rule neutral_concat) (use neutral_map [of _ "\<lambda>l. l"] in simp)

definition a_pairs :: "(string \<times> string) list \<Rightarrow> bool" where
  "a_pairs bs = (\<forall>(lo, hi) \<in> set bs. a_name lo \<and> a_name hi)"

lemma pieces_pairs: "a_pairs (zip (lower_vars (aos_loop_pieces_of a)) (upper_vars (aos_loop_pieces_of a)))"
proof -
  have "a_name v" if "v \<in> set (lower_vars (aos_loop_pieces_of a)) \<union> set (upper_vars (aos_loop_pieces_of a))" for v
    using that pieces_a by blast
  then show ?thesis by (auto simp: a_pairs_def dest: set_zip_leftD set_zip_rightD)
qed

lemma neutral_bounds:
  assumes "a_pairs bs"
  shows "neutral (bounds_reset bs)" "neutral (bounds_span elem bs)" "neutral (bounds_default bs)"
proof -
  have k: "line_kind (lo @ l) = Plain (lo @ l)" "line_kind (hi @ l) = Plain (hi @ l)" if "(lo, hi) \<in> set bs" for lo hi l
    using assms that kind_a_name(1) by (auto simp: a_pairs_def)
  show "neutral (bounds_reset bs)" "neutral (bounds_default bs)"
    unfolding bounds_reset_def bounds_default_def
    by (rule neutral_concat_lines; use k in \<open>auto simp: kinds\<close>)+
  show "neutral (bounds_span elem bs)"
    unfolding bounds_span_def
    by (rule neutral_concat_lines) (use k in \<open>auto dest!: enum1_snd\<close>)
qed

lemma kept_frame:
  assumes "neutral ms" and "ref_head same"
  shows "neutral ([concat [''    if (allocated('', buf, '')) then''], concat [''      if ('', c, '') then''],
       concat [''        '', same, '' = '', x], ''      else'', concat [''        '', same, '' = '', y], ''      end if''] @
      ms @ [concat [''      if (.not. '', same, '') then'']] @
      (if device then [concat [''        !$acc exit data delete('', buf, '')'']] else []) @
      [concat [''        deallocate('', buf, '')''], ''      end if'', ''    end if''])"
  using assms kind_ref [OF assms(2), of "CHR '' ''"] by (intro neutralI; cases device) (simp_all add: kinds)

lemma neutral_kept_release:
  assumes "image_names_ok a"
  shows "neutral (render_kept_release a loops lowers uppers device mf)"
proof -
  let ?same = "kept_unchanged_local (fa_sdfg_name a)"
  have same: "ref_head ?same"
  proof -
    have "list_all (\<lambda>c. \<not> is_space c) ''__kept''" by code_simp
    then show ?thesis
      using assms unfolding kept_unchanged_local_def image_names_ok_def by (intro ref_head_append names_ref) simp_all
  qed
  note k = kind_ref [OF same, of "CHR '' ''"]
  have u: "line_kind (CHR ''u'' # l) = Plain (CHR ''u'' # l)" for l using kind_other [of "CHR ''u''" l] by code_simp
  have "neutral (concat (map (\<lambda>(j, (lo, hi)).
        [concat [''      '', ?same, '' = '', ?same, '' .and. lbound('', buf, '', '', dim j, '') == '', lo, '' .and. &''],
         concat [''        ubound('', buf, '', '', dim j, '') == '', hi]]) xs))" for buf dim xs
    by (rule neutral_concat_lines) (use k u in auto)
  then show ?thesis
    unfolding render_kept_release_def Let_def by (intro kept_frame same)
qed

text \<open>Statements inside the branch of an \<open>if\<close> that runs when its condition holds.\<close>

definition in_then :: "string \<Rightarrow> stmt list \<Rightarrow> stmt list \<Rightarrow> bool" where
  "in_then c body ts = (\<exists>u v. If c (u @ body @ v) \<in> set ts \<and> Leaf ''else'' \<notin> set u)"

lemma block_after_neutral: "neutral xs \<Longrightarrow> block ys us \<Longrightarrow> \<exists>ts. block (xs @ ys) (ts @ us)"
  using neutral_block block_append by blast

lemma block_if_lines:
  assumes "block ls ts"
  shows "block ([concat [''    if ('', c, '') then'']] @ ls @ [''    end if'']) [If c ts]"
  by (rule block_if [OF _ _ assms]) (use kind_if_then [of c] in simp_all)

lemma block_one: "line_kind l = Plain s \<Longrightarrow> block xs ts \<Longrightarrow> block (l # xs) (Leaf s # ts)"
  using block_append [OF block_leaf] by fastforce

text \<open>The packing of members that may be absent: two tests of the record array, the second around the
  transfers.\<close>

lemma block_member_pack:
  assumes "aos_lead a \<noteq> 0" and "image_names_ok a" and "member_rank (aos_loop_pieces_of a) \<noteq> 0" and "\<not> aos_member_is_static a"
    and "mp = present_query (accessor (aos_loop_pieces_of a)) (fa_aos_member_pointer a)" and "\<not> fa_global_alloc_inside a"
  shows "\<exists>ts. block (member_pack a (aos_loops_of a (aos_loop_pieces_of a)) (aos_loop_pieces_of a) mp device mf)
    (ts @ [If (al_present (aos_loops_of a (aos_loop_pieces_of a)))
       (element_nest a (image_transfer a device (buffer_side a device mf) (member_side a device)))])"
proof -
  let ?L = "aos_loops_of a (aos_loop_pieces_of a)" and ?buf = "fa_sdfg_name a" and ?z = "zero_literal (fa_dtype a)"
  from assms(2) have r: "ref_head ?buf" by (simp add: image_names_ok_def names_ref)
  note k = kind_ref [OF r, of "CHR '' ''"]
  have alloc: "neutral ([concat [''    if ('', c, '') then''], concat [''      allocate('', ?buf, ''('', x, ''))''], ''    else'',
       concat [''      allocate('', ?buf, ''('', y, ''))''], ''    end if''] @
      (if device then concat [''    !$acc enter data create('', ?buf, '')''] # acc_kernels ''    '' (concat [?buf, '' = '', ?z])
       else [concat [''    '', ?buf, '' = '', ?z]]))" for c x y
    using k by (intro neutralI; cases device) (simp_all add: kinds kind_a_name(1) [of "''a''", simplified] acc_kernels_def)
  have i: "block ([concat [''    if ('', al_present ?L, '') then'']] @ (do_open ?L @ member_transfer_in a (aos_loop_pieces_of a) mp device mf @ do_close ?L) @ [''    end if''])
      [If (al_present ?L) (element_nest a (image_transfer a device (buffer_side a device mf) (member_side a device)))]"
    by (intro block_if_lines block_element_loops block_transfers assms)
  show ?thesis
    unfolding member_pack_def Let_def if_not_P [OF assms(6)]
    using block_after_neutral [OF alloc i] unfolding append_assoc .
qed

section \<open>Properties\<close>

text \<open>The lines that allocate a buffer and fill it element by element.\<close>

lemma block_filled:
  fixes a
  defines "lp \<equiv> aos_loops_of a (aos_loop_pieces_of a)"
  assumes "line_kind hdr = Plain h" and "line_kind t = Plain t'" and "line_kind x = Plain x'" and "line_kind y = Plain y'"
  shows "\<exists>ts. block ([hdr] @ al_prelude lp @ [concat [''    if ('', al_present lp, '') then''], x] @ do_open lp @ [t] @ do_close lp @
      [''    else'', y, ''    end if''])
    (ts @ [If (al_present lp) ([Leaf x'] @ element_nest a [Leaf t'] @ [Leaf ''else'', Leaf y'])])"
proof -
  have e: "line_kind ''    else'' = Plain ''else''" by (simp add: kind_e)
  have "block (x # (do_open lp @ [t] @ do_close lp) @ [''    else'', y]) (Leaf x' # element_nest a [Leaf t'] @ [Leaf ''else'', Leaf y'])"
    unfolding lp_def using assms(2-5) e by (intro block_one block_append block_element_loops block_leaf block_Nil)
  from block_after_neutral [OF _ block_if_lines [OF this, of "al_present lp"], of "[hdr] @ al_prelude lp"]
  show ?thesis
    using assms(2) neutral_append [OF _ neutral_prelude, of "[hdr]"] by (simp add: lp_def neutral_def)
qed

lemma neutral_member_front:
  fixes a
  defines "lp \<equiv> aos_loops_of a (aos_loop_pieces_of a)"
  assumes "a_pairs bs" and "line_kind hdr = Plain h"
  shows "neutral ([hdr] @ al_prelude lp @ bounds_reset bs @ [concat [''    if ('', al_present lp, '') then'']] @ do_open lp @
      (if g then [] else [concat [''        if ('', mp, '') then'']] @ bounds_span elem bs @ [''        end if'']) @
      do_close lp @ [''    end if''] @ bounds_default bs)"
proof -
  note b = neutral_bounds [OF assms(2)]
  have "neutral (if g then [] else [concat [''        if ('', mp, '') then'']] @ bounds_span elem bs @ [''        end if''])"
    using b(2) by (cases g) (auto intro!: neutralI simp: kinds)
  then obtain ts where ts: "block (if g then [] else [concat [''        if ('', mp, '') then'']] @ bounds_span elem bs @ [''        end if'']) ts"
    using neutral_block by blast
  have h: "neutral [hdr]" using assms(3) by (simp add: neutral_def)
  note f = block_neutral [OF block_if_lines [OF block_element_loops [OF ts]], of "al_present lp"]
  show ?thesis
    using neutral_append [OF h neutral_append [OF neutral_prelude neutral_append [OF b(1) neutral_append [OF f b(3)]]]]
    unfolding lp_def append_assoc .
qed

lemma replace_skip: "c \<noteq> x \<Longrightarrow> replace (x # old) new (c # t) = c # replace (x # old) new t"
  by (subst replace.simps) (simp add: startswith_def)

lemma copy_in_header_kind: "\<exists>h. line_kind (copy_in_header a device kept mf) = Plain h"
proof -
  have r: "\<exists>u. (if b then replace (CHR ''c'' # old) new h else h) = ''    !'' @ u" if "\<exists>t. h = ''    !'' @ t" for b old new h
    using that by (auto simp: replace_skip)
  have "\<exists>t. concat [''    ! ----- AoS->SoA copy-in: '', x] = ''    !'' @ t" for x by simp
  then have "\<exists>u. copy_in_header a device kept mf = ''    !'' @ u"
    unfolding copy_in_header_def Let_def by (intro r) simp
  then show ?thesis by auto
qed

lemma in_then_last:
  "Leaf ''else'' \<notin> set u \<Longrightarrow> in_then c body (ts @ [If c (u @ body @ v)])"
  "in_then c body (ts @ [If c body])"
  unfolding in_then_def by (metis append_Nil append_Nil2 empty_iff empty_set in_set_conv_decomp)+

text \<open>What \<open>render_aos_copy_in\<close> and \<open>render_aos_copy_out\<close> return for an array of records.\<close>

lemma copy_in_block:
  assumes "render_aos_copy_in a device kept mf = Inr ls" and "aos_lead a \<noteq> 0" and "image_names_ok a"
    and "\<not> fa_global_alloc_inside a"
  defines "sp \<equiv> al_present (aos_loops_of a (aos_loop_pieces_of a))"
    and "body \<equiv> element_nest a (image_transfer a device (buffer_side a device mf) (member_side a device))"
  shows "\<exists>ts. block ls ts \<and>
    (if kept then \<exists>us. If (concat [''.not. allocated('', fa_sdfg_name a, '')'']) us \<in> set ts \<and> in_then sp body us
     else in_then sp body ts)"
proof -
  let ?p = "aos_loop_pieces_of a"
  let ?L = "aos_loops_of a ?p"
  have r: "ref_head (fa_sdfg_name a)" using assms(3) by (simp add: image_names_ok_def names_ref)
  note k = kind_call [OF r]
  consider "member_rank ?p = 0" "ls = gather_lines a ?L ?p" "\<not> kept"
    | "member_rank ?p \<noteq> 0" "aos_member_is_static a" "ls = static_copy_in a ?L ?p mf" "\<not> kept"
    | "member_rank ?p \<noteq> 0" "\<not> aos_member_is_static a" "ls = member_copy_in a ?L ?p device kept mf"
    using assms(1,2) by (auto simp: render_aos_copy_in_def Let_def keepable_def aos_loop_pieces_of_def case_prod_unfold split: if_splits)
  then show ?thesis
  proof cases
    case 1
    let ?x = "concat [''allocate('', fa_sdfg_name a, ''('', outer_dims ?L, ''))'']"
      and ?y = "concat [''allocate('', fa_sdfg_name a, ''('', one_dims ?L, '')); '', fa_sdfg_name a, '' = '', zero_literal (fa_dtype a)]"
    have "\<exists>ts. block ls (ts @ [If sp ([Leaf ?x] @ element_nest a [assigns (buffer_side a device mf) (member_side a device)] @
        [Leaf ''else'', Leaf ?y])])"
      unfolding 1(2) gather_lines_def Let_def sp_def assigns_def
      by (rule block_filled) (use 1(1) k in \<open>simp_all add: kinds al_kind buffer_side_def member_side_def Let_def\<close>)
    moreover have "body = element_nest a [assigns (buffer_side a device mf) (member_side a device)]"
      using 1 by (simp add: body_def image_transfer_def Let_def)
    ultimately show ?thesis using 1(3) in_then_last(1) [of "[Leaf ?x]"] by auto
  next
    case 2
    let ?al = "\<lambda>d. concat [''allocate('', fa_sdfg_name a, ''('', d, '')); '', fa_sdfg_name a, '' = '', zero_literal (fa_dtype a)]"
    let ?cd = "join '', '' (py_suffix (aos_lead a) (fa_shape a))"
    let ?x = "?al (buffer_spec (outer_dims ?L) ?cd mf)" and ?y = "?al (buffer_spec (one_dims ?L) ?cd mf)"
    have "\<exists>ts. block ls (ts @ [If sp ([Leaf ?x] @ element_nest a [assigns (buffer_side a device mf) (member_side a device)] @
        [Leaf ''else'', Leaf ?y])])"
      unfolding 2(3) static_copy_in_def Let_def sp_def assigns_def
      by (rule block_filled) (use 2(1,2) k in \<open>simp_all add: kinds al_kind buffer_side_def member_side_def Let_def\<close>)
    moreover have "body = element_nest a [assigns (buffer_side a device mf) (member_side a device)]"
      using 2 by (simp add: body_def image_transfer_def Let_def)
    ultimately show ?thesis using 2(4) in_then_last(1) [of "[Leaf ?x]"] by auto
  next
    case 3
    let ?mp = "present_query (accessor ?p) (fa_aos_member_pointer a)"
    let ?pack = "member_pack a ?L ?p ?mp device mf"
    let ?front = "[copy_in_header a device kept mf] @ al_prelude ?L @ bounds_reset (zip (lower_vars ?p) (upper_vars ?p)) @
      [concat [''    if ('', sp, '') then'']] @ do_open ?L @
      (if fa_global_alloc_inside a then [] else [concat [''        if ('', ?mp, '') then'']] @
         bounds_span (accessor ?p) (zip (lower_vars ?p) (upper_vars ?p)) @ [''        end if'']) @
      do_close ?L @ [''    end if''] @ bounds_default (zip (lower_vars ?p) (upper_vars ?p))"
    obtain h where h: "line_kind (copy_in_header a device kept mf) = Plain h" using copy_in_header_kind by blast
    have front: "neutral ?front" unfolding sp_def by (rule neutral_member_front [OF pieces_pairs h])
    from block_member_pack [OF assms(2,3) 3(1,2) refl assms(4)]
    obtain ts where pack: "block ?pack (ts @ [If sp body])" unfolding sp_def body_def by blast
    have ls: "ls = (if kept then (?front @ render_kept_release a ?L (lower_vars ?p) (upper_vars ?p) device mf) @
        ([concat [''    if ('', concat [''.not. allocated('', fa_sdfg_name a, '')''], '') then'']] @ map (\<lambda>l. ''  '' @ l) ?pack @ [''    end if''])
        else ?front @ ?pack)"
      unfolding 3(3) member_copy_in_def Let_def sp_def by simp
    show ?thesis
    proof (cases kept)
      case True
      have "block (map (\<lambda>l. ''  '' @ l) ?pack) (ts @ [If sp body])" using pack block_indent by simp
      from block_after_neutral [OF neutral_append [OF front neutral_kept_release [OF assms(3)]] block_if_lines [OF this]]
      show ?thesis using True ls in_then_last(2) [of sp body ts] by (metis in_set_conv_decomp)
    next
      case False
      with block_after_neutral [OF front pack] ls in_then_last(2) [of sp body] show ?thesis
        by (metis append_assoc)
    qed
  qed
qed

lemma block_unpack:
  fixes a
  defines "lp \<equiv> aos_loops_of a (aos_loop_pieces_of a)"
  assumes "line_kind hdr = Plain h" and "block ts us" and "\<And>l. l \<in> set es \<Longrightarrow> \<exists>s. line_kind l = Plain s"
  shows "\<exists>post. block ([hdr, concat [''    if ('', al_present lp, '') then'']] @ do_open lp @ ts @ do_close lp @ [''    end if''] @ es)
    (Leaf h # If (al_present lp) (element_nest a us) # map Leaf post)"
proof -
  from plain_block [OF assms(4)] obtain post where "block es (map Leaf post)" by blast
  from block_one [OF assms(2) block_append [OF block_if_lines [OF block_element_loops [OF assms(3)]] this]]
  have "block (hdr # ([concat [''    if ('', al_present lp, '') then'']] @ (do_open lp @ ts @ do_close lp) @ [''    end if'']) @ es)
      (Leaf h # [If (al_present lp) (element_nest a us)] @ map Leaf post)"
    unfolding lp_def .
  then show ?thesis by (intro exI [of _ post]) simp
qed

lemma copy_out_block:
  assumes "render_aos_copy_out a device mf = Inr ls" and "aos_lead a \<noteq> 0" and "image_names_ok a"
    and "\<not> fa_global_alloc_inside a"
  defines "sp \<equiv> al_present (aos_loops_of a (aos_loop_pieces_of a))"
    and "body \<equiv> element_nest a (image_transfer a device (member_side a device) (buffer_side a device mf))"
  shows "\<exists>h post. block ls (Leaf h # If sp body # map Leaf post)"
proof -
  let ?p = "aos_loop_pieces_of a"
  let ?L = "aos_loops_of a ?p"
  have "ref_head (accessor ?p)" using assms(3) by (simp add: image_names_ok_def)
  note k = kind_ref [OF this, of "CHR '' ''"]
  have one: "block [concat [''        '', accessor ?p, '' = '', e]] [assigns (accessor ?p) e]" for e
    unfolding assigns_def by (rule block_leaf) (simp add: k)
  consider "member_rank ?p = 0" "ls = scatter_lines a ?L ?p"
    | "member_rank ?p \<noteq> 0" "aos_member_is_static a" "ls = static_copy_out a ?L ?p mf"
    | "member_rank ?p \<noteq> 0" "\<not> aos_member_is_static a" "ls = member_copy_out a ?L ?p device mf"
    using assms(1,2) by (auto simp: render_aos_copy_out_def Let_def split: if_splits)
  then show ?thesis
  proof cases
    case 1
    have "body = element_nest a [assigns (accessor ?p) (concat [fa_sdfg_name a, ''('', join '', '' (loop_vars ?p), '')''])]"
      using 1(1) by (simp add: body_def image_transfer_def buffer_side_def member_side_def Let_def)
    then show ?thesis
      unfolding 1(2) scatter_lines_def Let_def sp_def
      using block_unpack [OF _ one [of "concat [fa_sdfg_name a, ''('', join '', '' (loop_vars ?p), '')'']"],
        where es = "[concat [''    deallocate('', fa_sdfg_name a, '')'']]" and a = a and
          hdr = "concat [''    ! ----- SoA->AoS scatter (scalar member): '', fa_aos_origin_struct a, ''(:)%'', fa_aos_member_path a,
         '' <- '', fa_sdfg_name a, '' -----'']"]
      by (simp add: kinds) blast
  next
    case 2
    let ?e = "concat [fa_sdfg_name a, ''('', buffer_spec (join '', '' (loop_vars ?p)) (static_slice a) mf, '')'']"
    have "body = element_nest a [assigns (accessor ?p) ?e]"
      using 2(1,2) by (simp add: body_def image_transfer_def buffer_side_def member_side_def Let_def)
    then show ?thesis
      unfolding 2(3) static_copy_out_def Let_def sp_def
      using block_unpack [OF _ one [of ?e], where es = "[concat [''    deallocate('', fa_sdfg_name a, '')'']]" and a = a and
          hdr = "concat [''    ! ----- SoA->AoS copy-out (static value member): '', fa_aos_origin_struct a, ''(:)%'', fa_aos_member_path a,
         '' <- '', fa_sdfg_name a, '' -----'']"]
      by (simp add: kinds) blast
  next
    case 3
    let ?mp = "present_query (accessor ?p) (fa_aos_member_pointer a)"
    let ?es = "(if device then [concat [''    !$acc exit data delete('', fa_sdfg_name a, '')'']] else []) @
      [concat [''    deallocate('', fa_sdfg_name a, '')'']]"
    let ?h = "concat [''    ! ----- SoA->AoS copy-out'', if device then '' on the device'' else [], '': '', fa_aos_origin_struct a, ''(:)%'',
         fa_aos_member_path a, '' <- '', fa_sdfg_name a, '' -----'']"
    have t: "block (member_transfer_out a ?p ?mp device mf) (image_transfer a device (member_side a device) (buffer_side a device mf))"
      by (rule block_transfers(2) [OF assms(2,3) 3(1,2) refl])
    have "ls = [?h, concat [''    if ('', al_present ?L, '') then'']] @ do_open ?L @ member_transfer_out a ?p ?mp device mf @
        do_close ?L @ [''    end if''] @ ?es"
      using assms(4) unfolding 3(3) member_copy_out_def Let_def by simp
    moreover obtain h where "line_kind ?h = Plain h" by simp
    moreover have "\<exists>s. line_kind l = Plain s" if "l \<in> set ?es" for l
      using that by (auto simp: kinds split: if_splits)
    ultimately show ?thesis
      using block_unpack [OF _ t] unfolding sp_def body_def by metis
  qed
qed


definition ex_image :: frozen_arg where
  "ex_image = (ex_arg ''q_x'' ARRAY ''float64'')\<lparr>fa_rank := 2, fa_shape := [''n'', ''m''], fa_aos_origin_struct := ''q'',
     fa_aos_origin_mod := ''mo'', fa_aos_member_path := ''x'', fa_aos_outer_rank := 1\<rparr>"


end
