(* ===== verification/Symbol_Assigns.thy ===== *)
theory Symbol_Assigns
  imports Record_Image Binding_Text
begin

text \<open>
  \<open>_build_symbol_assigns\<close> of \<open>src/dace_fortran/bindings/block_builders.py\<close> with the tables it reads: the
  wrapper's lines that give every free symbol of the SDFG its value before the call, from the caller's
  storage, the flatten plan, the modules and the layout of the derived types.
\<close>

section \<open>Optional dummies\<close>

definition optional_array_dummy :: "frozen_arg \<Rightarrow> bool" where
  "optional_array_dummy a = (fa_kind a = ARRAY \<or> fa_rank a > 0)"

text \<open>A dictionary comprehension over the arguments keeps the last one of a name.\<close>

definition last_by :: "('a \<Rightarrow> string) \<Rightarrow> 'a list \<Rightarrow> string \<Rightarrow> 'a option" where
  "last_by f xs n = List.find (\<lambda>x. f x = n) (rev xs)"

lemma last_by_mem: "last_by f xs n = Some x \<Longrightarrow> x \<in> set xs"
  unfolding last_by_def find_Some_iff by (metis nth_mem set_rev)

definition optional_outer_dummies :: "frozen_signature \<Rightarrow> original_interface \<Rightarrow> (original_arg \<times> frozen_arg) list" where
  "optional_outer_dummies s iface =
     (let optional_names = map (\<lambda>a. lower (oa_name a)) (filter oa_optional (oi_args iface)) in
      concat (map (\<lambda>fa.
        if fa_kind fa \<notin> {SCALAR, ARRAY} \<or> lower (fa_fortran_name fa) \<notin> set optional_names then []
        else case last_by (\<lambda>a. lower (oa_name a)) (oi_args iface) (lower (fa_fortran_name fa)) of
          None \<Rightarrow> [] | Some oa \<Rightarrow> [(oa, fa)]) (fs_args s)))"

section \<open>Members of derived types\<close>

text \<open>
  The symbols of a derived type's members and the expressions that read them; the recursion follows the
  member types. The first argument is the number of nested calls that are left: when it is used up the
  walk does not return (Python raises RecursionError).
\<close>

record member_symbols =
  ms_sources :: "(string \<times> string) list"
  ms_paths :: "(string \<times> string) list"

definition member_leaf :: "fmember \<Rightarrow> string \<Rightarrow> string \<Rightarrow> member_symbols \<Rightarrow> member_symbols" where
  "member_leaf m msym macc ms =
     (let paths = AList.update msym macc (ms_paths ms);
          sources =
            (if mb_rank m = 0 then AList.update msym macc (ms_sources ms)
             else foldl (\<lambda>d i.
               AList.update (concat [''offset_'', msym, ''_d'', str_nat i]) (concat [''lbound('', macc, '', dim='', str_nat (i + 1), '')''])
                 (AList.update (concat [msym, ''_d'', str_nat i]) (concat [''size('', macc, '', dim='', str_nat (i + 1), '')'']) d))
               (ms_sources ms) [0..<nat (mb_rank m)])
      in \<lparr>ms_sources = sources, ms_paths = paths\<rparr>)"

fun walk_members :: "nat \<Rightarrow> (string \<times> derived_type) list \<Rightarrow> fmember list \<Rightarrow> string \<Rightarrow> string \<Rightarrow> member_symbols \<Rightarrow>
    member_symbols option" where
  "walk_members n types [] sym_prefix acc ms = Some ms"
| "walk_members n types (m # members) sym_prefix acc ms =
     (let msym = concat [sym_prefix, ''_'', mb_name m]; macc = concat [acc, ''%'', mb_name m] in
      case mb_struct_name m of
        Some t \<Rightarrow>
          if t = [] then walk_members n types members sym_prefix acc (member_leaf m msym macc ms)
          else (case map_of types t of
            None \<Rightarrow> walk_members n types members sym_prefix acc ms
          | Some nested \<Rightarrow>
              (case n of
                 0 \<Rightarrow> None
               | Suc k \<Rightarrow>
                   (case walk_members k types (dt_members nested) msym
                      (if mb_rank m > 0 then concat [macc, ''('', join '', '' (replicate (nat (mb_rank m)) ''1''), '')''] else macc) ms of
                      None \<Rightarrow> None
                    | Some ms' \<Rightarrow> walk_members n types members sym_prefix acc ms')))
      | None \<Rightarrow> walk_members n types members sym_prefix acc (member_leaf m msym macc ms))"

fun walk_args :: "nat \<Rightarrow> (string \<times> derived_type) list \<Rightarrow> original_arg list \<Rightarrow> member_symbols \<Rightarrow> member_symbols option" where
  "walk_args n types [] ms = Some ms"
| "walk_args n types (a # as) ms =
     (case oa_struct_type a of
        None \<Rightarrow> walk_args n types as ms
      | Some t \<Rightarrow>
          if t = [] then walk_args n types as ms
          else case map_of types t of
            None \<Rightarrow> walk_args n types as ms
          | Some st \<Rightarrow>
              (case walk_members n types (dt_members st) (oa_name a) (oa_name a) ms of
                 None \<Rightarrow> None | Some ms' \<Rightarrow> walk_args n types as ms'))"

definition struct_member_symbol_sources :: "nat \<Rightarrow> original_interface \<Rightarrow> member_symbols option" where
  "struct_member_symbol_sources n iface =
     walk_args n (oi_struct_types iface) (oi_args iface) \<lparr>ms_sources = [], ms_paths = []\<rparr>"

section \<open>The tables\<close>

record sym_tables =
  st_module_sources :: "(string \<times> module_origin) list"
  st_synth_members :: "(string \<times> string) list"
  st_members :: member_symbols
  st_unsourced :: "string list"
  st_outer_optional :: "string list"
  st_optional_guards :: "(string \<times> string) list"
  st_hosts :: "(string \<times> (string \<times> string)) list"
  st_extents :: "(string \<times> (string \<times> string)) list"
  st_pack_syms :: "string list"
  st_flat_shapes :: "(string \<times> string list) list"
  st_scalar_member :: "(string \<times> string) list"
  st_pointer_local :: "(string \<times> bool) list"
  st_flat_guard :: "(string \<times> string) list"
  st_alias_base :: "(string \<times> string) list"
  st_renamed :: "(string \<times> string) list"

text \<open>\<open>d.setdefault(k, v)\<close>.\<close>

definition setdefault :: "'k \<Rightarrow> 'v \<Rightarrow> ('k \<times> 'v) list \<Rightarrow> ('k \<times> 'v) list" where
  "setdefault k v d = (case map_of d k of None \<Rightarrow> AList.update k v d | Some _ \<Rightarrow> d)"

definition dim_sym :: "string \<Rightarrow> rmatch option" where
  "dim_sym x = (case re_match OFFSET_SYM_RE x of Some m \<Rightarrow> Some m | None \<Rightarrow> re_match EXTENT_SYM_RE x)"

definition own_hosts :: "(string \<times> string) list \<Rightarrow> frozen_arg list \<Rightarrow> (string \<times> (string \<times> string)) list" where
  "own_hosts synth as =
     foldl (\<lambda>d a. if fa_kind a = ARRAY \<and> (fa_module_origin_allocatable a \<or> fa_module_origin_pointer a) \<and> \<not> fa_global_alloc_inside a
       then let alias = module_value_expr (fa_sdfg_name a) synth in
         AList.update (fa_sdfg_name a) (alias, present_query alias (fa_module_origin_pointer a)) d
       else d) [] as"

definition own_extents :: "(string \<times> module_origin) list \<Rightarrow> (string \<times> string) list \<Rightarrow> frozen_arg list \<Rightarrow>
    (string \<times> (string \<times> string)) list \<Rightarrow> (string \<times> (string \<times> string)) list" where
  "own_extents sources synth as hosts =
     foldl (\<lambda>d a. if fa_kind a = ARRAY \<and> map_of sources (fa_sdfg_name a) \<noteq> None \<and> \<not> fa_global_alloc_inside a
       then setdefault (fa_sdfg_name a) (module_value_expr (fa_sdfg_name a) synth, []) d else d) hosts as"

text \<open>The module arrays the SDFG replaced by an array of its own.\<close>

definition replaced_arrays :: "frozen_signature \<Rightarrow> (string \<times> module_origin) list \<Rightarrow> string list" where
  "replaced_arrays s sources =
     concat (map (\<lambda>x. case dim_sym x of None \<Rightarrow> [] | Some m \<Rightarrow>
       if grp0 m 1 \<notin> fa_sdfg_name ` set (fs_args s) \<and> map_of sources (grp0 m 1) \<noteq> None then [grp0 m 1] else [])
       (fs_free_symbols s))"

definition with_replaced :: "string list \<Rightarrow> (string \<times> string) list \<Rightarrow> (string \<times> (string \<times> string)) list \<Rightarrow>
    (string \<times> (string \<times> string)) list" where
  "with_replaced names synth d = foldl (\<lambda>d n. setdefault n (module_value_expr n synth, []) d) d names"

text \<open>The tables of the flatten plan, entry by entry, flat by flat.\<close>

definition over_flats :: "(flatten_entry \<Rightarrow> string \<Rightarrow> 'v) \<Rightarrow> flatten_entry list \<Rightarrow> (string \<times> 'v) list" where
  "over_flats f es = foldl (\<lambda>d e. foldl (\<lambda>d flat. AList.update flat (f e flat) d) d (flat_names (fe_recipe e))) [] es"

definition alias_bases :: "flatten_entry list \<Rightarrow> (string \<times> string) list" where
  "alias_bases es =
     foldl (\<lambda>d e. let r = fe_recipe e in
       if aliasable r \<and> rc_rank r > 0
       then foldl (\<lambda>d (flat, e). AList.update flat (strip_index_args e) d) d (zip (flat_names r) (read_exprs r)) else d) [] es"

definition scalar_members :: "flatten_entry list \<Rightarrow> (string \<times> string) list" where
  "scalar_members es =
     foldl (\<lambda>d e. let r = fe_recipe e in
       if rc_rank r = 0 \<and> length (flat_names r) = 1 \<and> read_exprs r \<noteq> []
       then AList.update (hd (flat_names r)) (strip_index_args (hd (read_exprs r))) d else d) [] es"

definition renamed_arrays :: "frozen_arg list \<Rightarrow> (string \<times> string) list" where
  "renamed_arrays as =
     foldl (\<lambda>d a. if fa_kind a = ARRAY \<and> fa_fortran_name a \<noteq> [] \<and> fa_fortran_name a \<noteq> fa_sdfg_name a \<and>
         fa_fortran_name a \<notin> fa_sdfg_name ` set as \<and> (fa_from_struct_member a = None \<or> fa_from_struct_member a = Some []) \<and>
         fa_aos_origin_struct a = []
       then AList.update (fa_fortran_name a) (fa_sdfg_name a) d else d) [] as"

text \<open>The symbols the pack-in code assigns.\<close>

definition pack_symbols :: "flatten_plan \<Rightarrow> string list" where
  "pack_symbols plan =
     concat (map (\<lambda>e. if aos_alloc (fe_recipe e) then cap_symbols (fe_recipe e) @ lb_symbols (fe_recipe e) else []) (fp_entries plan))"

definition sym_tables_of :: "frozen_signature \<Rightarrow> flatten_plan \<Rightarrow> original_interface \<Rightarrow> member_symbols \<Rightarrow> sym_tables" where
  "sym_tables_of s plan iface members =
     (let sources = effective_module_sources s iface (Some plan);
          synth = synthetic_members (Some plan);
          opts = optional_outer_dummies s iface;
          hosts = own_hosts synth (fs_args s);
          replaced = replaced_arrays s sources;
          es = fp_entries plan
      in \<lparr>st_module_sources = sources, st_synth_members = synth, st_members = members,
          st_unsourced = map fa_sdfg_name (unsourced_array_args s iface plan),
          st_outer_optional = map (\<lambda>(oa, fa). oa_name oa) opts,
          st_optional_guards =
            foldl (\<lambda>d (oa, fa). if optional_array_dummy fa
              then AList.update (lower (fa_fortran_name fa)) (concat [''present('', oa_name oa, '')'']) d else d) [] opts,
          st_hosts = with_replaced replaced synth hosts,
          st_extents = with_replaced replaced synth (own_extents sources synth (fs_args s) hosts),
          st_pack_syms = pack_symbols plan,
          st_flat_shapes = over_flats (\<lambda>e flat. shape_exprs (fe_recipe e)) es,
          st_scalar_member = scalar_members es,
          st_pointer_local = over_flats (\<lambda>e flat. aliasable (fe_recipe e)) es,
          st_flat_guard = over_flats (\<lambda>e flat. recipe_presence_guard iface (fe_recipe e)) es,
          st_alias_base = alias_bases es,
          st_renamed = renamed_arrays (fs_args s)\<rparr>)"

section \<open>One symbol\<close>

definition guarded_assign :: "string \<Rightarrow> string \<Rightarrow> string \<Rightarrow> string \<Rightarrow> string list" where
  "guarded_assign x rhs guard absent =
     (if guard = [] then [concat [''    '', x, '' = int('', rhs, '', c_int)'']]
      else [concat [''    if ('', guard, '') then''], concat [''      '', x, '' = int('', rhs, '', c_int)''], ''    else'',
        concat [''      '', x, '' = '', absent], ''    end if''])"

definition is_offset :: "string \<Rightarrow> bool" where
  "is_offset x = (re_match OFFSET_SYM_RE x \<noteq> None)"

definition dim_of :: "rmatch \<Rightarrow> nat" where
  "dim_of m = nat_of_digits (grp0 m 2)"

definition at_dim :: "string \<Rightarrow> string \<Rightarrow> nat \<Rightarrow> string" where
  "at_dim q e dim = concat [q, ''('', e, '', dim='', str_nat dim, '')'']"

definition query_value :: "extent_query \<Rightarrow> string" where
  "query_value q = (case q of LBOUND \<Rightarrow> ''lbound'' | SIZE \<Rightarrow> ''size'')"

definition get_str :: "(string \<times> string) list \<Rightarrow> string \<Rightarrow> string" where
  "get_str d k = (case map_of d k of None \<Rightarrow> [] | Some v \<Rightarrow> v)"

definition member_sym_guard :: "original_interface \<Rightarrow> (string \<times> string) list \<Rightarrow> string \<Rightarrow> string" where
  "member_sym_guard iface paths x =
     (let base = (if startswith x ''offset_'' then drop (length ''offset_'') x else x);
          base = (case re_match EXTENT_SYM_RE base of None \<Rightarrow> base | Some m \<Rightarrow> if is_offset base then base else grp0 m 1)
      in case map_of paths base of None \<Rightarrow> [] | Some p \<Rightarrow> if p = [] then [] else entry_presence_guard iface p)"

definition presence_flag :: "string \<Rightarrow> string \<Rightarrow> string list" where
  "presence_flag x present = [concat [''    '', x, '' = int(merge(1, 0, '', present, ''), c_int)'']]"

text \<open>An array the bridge renamed keeps its symbols under the Fortran name.\<close>

definition from_renamed :: "sym_tables \<Rightarrow> string \<Rightarrow> string list option" where
  "from_renamed t x =
     (case dim_sym x of None \<Rightarrow> None | Some m \<Rightarrow>
      (case map_of (st_renamed t) (grp0 m 1) of None \<Rightarrow> None | Some target \<Rightarrow>
        (let d = (if is_offset x then st_hosts t else st_extents t);
             (alias, guard) = (case map_of d target of None \<Rightarrow> (target, []) | Some p \<Rightarrow> p)
         in Some (guarded_assign x (at_dim (if is_offset x then ''lbound'' else ''size'') alias (dim_of m + 1)) guard ''1''))))"

text \<open>The extents of a flat companion are its recipe's.\<close>

definition from_flat_shape :: "sym_tables \<Rightarrow> string \<Rightarrow> string list option" where
  "from_flat_shape t x =
     (case re_match EXTENT_SYM_RE x of None \<Rightarrow> None | Some m \<Rightarrow>
      if is_offset x then None
      else case map_of (st_flat_shapes t) (grp0 m 1) of None \<Rightarrow> None | Some shapes \<Rightarrow>
        if dim_of m < length shapes
        then Some (guarded_assign x (shapes ! dim_of m) (get_str (st_flat_guard t) (grp0 m 1)) ''0'') else None)"

definition from_scalar_member :: "sym_tables \<Rightarrow> string \<Rightarrow> string list option" where
  "from_scalar_member t x =
     map_option (\<lambda>e. guarded_assign x e (get_str (st_flat_guard t) x) ''0'') (map_of (st_scalar_member t) x)"

text \<open>Lower bounds are the member's, the aliased member's or the host's own, never the wrapper's copy's.\<close>

definition from_bounds :: "original_interface \<Rightarrow> sym_tables \<Rightarrow> string \<Rightarrow> string list option" where
  "from_bounds iface t x =
     (case (re_match OFFSET_SYM_RE x, map_of (ms_sources (st_members t)) x) of
        (Some _, Some e) \<Rightarrow> Some (guarded_assign x e (member_sym_guard iface (ms_paths (st_members t)) x) ''1'')
      | (Some m, None) \<Rightarrow>
          (case map_of (st_alias_base t) (grp0 m 1) of
             Some b \<Rightarrow> Some (guarded_assign x (at_dim ''lbound'' b (dim_of m + 1)) (get_str (st_flat_guard t) (grp0 m 1)) ''1'')
           | None \<Rightarrow> map_option (\<lambda>(alias, guard). guarded_assign x (at_dim ''lbound'' alias (dim_of m + 1)) guard ''1'')
               (map_of (st_hosts t) (grp0 m 1)))
      | (None, _) \<Rightarrow>
          (case re_match EXTENT_SYM_RE x of None \<Rightarrow> None | Some m \<Rightarrow>
             map_option (\<lambda>(alias, guard). guarded_assign x (at_dim ''size'' alias (dim_of m + 1)) guard ''1'')
               (map_of (st_extents t) (grp0 m 1))))"

definition from_arrays :: "frozen_signature \<Rightarrow> sym_tables \<Rightarrow> string \<Rightarrow> string list option" where
  "from_arrays s t x =
     (case sym_from_intrinsic x s of
        Some (q, e, dim) \<Rightarrow>
          Some (guarded_assign x (at_dim (query_value q) e dim) (get_str (st_optional_guards t) (lower e)) ''1'')
      | None \<Rightarrow>
          map_option (\<lambda>(e, dim). guarded_assign x (at_dim ''size'' e dim) (get_str (st_optional_guards t) (lower e)) ''1'')
            (sym_from_array_extent x s (st_unsourced t)))"

definition from_module :: "sym_tables \<Rightarrow> string \<Rightarrow> string list option" where
  "from_module t x =
     (if map_of (st_module_sources t) x = None then None
      else if endswith x ''_allocated'' \<and> map_of (st_synth_members t) x = None
      then Some (presence_flag x (concat [''allocated('', module_symbol_alias x, '')'']))
      else Some [concat [''    '', x, '' = int('', module_value_expr x (st_synth_members t), '', c_int)'']])"

text \<open>\<open>x[:-len(suffix)]\<close> for the first of the two suffixes \<open>x\<close> has.\<close>

definition presence_base :: "string \<Rightarrow> string option" where
  "presence_base x =
     (if endswith x ''_allocated'' then Some (take (length x - length ''_allocated'') x)
      else if endswith x ''_present'' then Some (take (length x - length ''_present'') x) else None)"

definition from_presence :: "frozen_signature \<Rightarrow> sym_tables \<Rightarrow> string \<Rightarrow> string list option" where
  "from_presence s t x =
     (case presence_base x of None \<Rightarrow> None | Some base \<Rightarrow>
       (let path = map_of (ms_paths (st_members t)) base; alloc = endswith x ''_allocated'' in
        case by_sdfg_name (fs_args s) base of
          Some fa \<Rightarrow>
            if fa_module_origin_allocatable fa \<or> fa_module_origin_pointer fa
            then Some (presence_flag x (present_query (module_symbol_alias base) (fa_module_origin_pointer fa)))
            else if aos_lead fa > 0 \<and> alloc \<and> path \<noteq> None
            then Some (presence_flag x (present_query (the path) (fa_aos_member_pointer fa)))
            else if aos_lead fa = 0 \<and> fa_aos_origin_struct fa \<noteq> [] \<and> fa_aos_member_path fa \<noteq> [] \<and> alloc
            then Some (presence_flag x (present_query
              (concat [fa_aos_origin_struct fa, ''%'', fa_aos_member_path fa]) (fa_aos_member_pointer fa)))
            else if fa_kind fa = ARRAY \<and> alloc
            then Some (presence_flag x
              (let guard = get_str (st_flat_guard t) base in
               if guard \<noteq> [] then guard
               else present_query base (case map_of (st_pointer_local t) base of None \<Rightarrow> True | Some b \<Rightarrow> b)))
            else if alloc \<and> path \<noteq> None then Some (presence_flag x (present_query (the path) True))
            else None
        | None \<Rightarrow>
            if alloc \<and> path \<noteq> None then Some (presence_flag x (present_query (the path) True)) else None))"

definition from_optional :: "sym_tables \<Rightarrow> string \<Rightarrow> string list option" where
  "from_optional t x =
     (if \<not> endswith x ''_present'' then None
      else let base = take (length x - length ''_present'') x in
        if base \<in> set (st_outer_optional t) then Some (presence_flag x (concat [''present('', base, '')'']))
        else Some [concat [''    '', x, '' = 0  ! optional absent (not forwarded by wrapper)'']])"

definition from_members :: "original_interface \<Rightarrow> sym_tables \<Rightarrow> string \<Rightarrow> string list option" where
  "from_members iface t x =
     map_option (\<lambda>e. guarded_assign x e (member_sym_guard iface (ms_paths (st_members t)) x) ''0'')
       (map_of (ms_sources (st_members t)) x)"

fun first_some :: "'a option list \<Rightarrow> 'a option" where
  "first_some [] = None"
| "first_some (x # xs) = (case x of None \<Rightarrow> first_some xs | Some y \<Rightarrow> Some y)"

definition plain_source :: "frozen_signature \<Rightarrow> original_interface \<Rightarrow> sym_tables \<Rightarrow> string \<Rightarrow> string list option" where
  "plain_source s iface t x =
     first_some [from_flat_shape t x, from_scalar_member t x, from_bounds iface t x, from_arrays s t x, from_module t x,
       from_presence s t x, from_optional t x, from_members iface t x]"

section \<open>All symbols\<close>

datatype assign_error =
    MemberRecursion
  | ImageError image_error
  | NoSuchBuffer string
  | UnsourcedSymbols string "string list"

text \<open>\<open>repr\<close> of a string.\<close>

definition hex_digit :: "int \<Rightarrow> char" where
  "hex_digit d = char_of (if d < 10 then 48 + d else 87 + d)"

definition repr_char :: "char \<Rightarrow> char \<Rightarrow> string" where
  "repr_char q c =
     (let n = code c; bs = CHR 0x5C in
      if c = q \<or> c = bs then [bs, c]
      else if c = LF then [bs, CHR ''n''] else if c = CR then [bs, CHR ''r''] else if n = 9 then [bs, CHR ''t'']
      else if n < 32 \<or> (127 \<le> n \<and> n \<le> 160) \<or> n = 173 then [bs, CHR ''x'', hex_digit (n div 16), hex_digit (n mod 16)]
      else [c])"

definition py_repr :: "string \<Rightarrow> string" where
  "py_repr s =
     (let q = (if CHR 0x27 \<in> set s \<and> CHR 0x22 \<notin> set s then CHR 0x22 else CHR 0x27)
      in q # concat (map (repr_char q) s) @ [q])"

definition todo_line :: "string \<Rightarrow> string" where
  "todo_line x = ''    ! TODO: no plan entry gives size for free symbol '' @ py_repr x"

text \<open>An image the SDFG allocates itself: its bounds are taken once, before the first symbol that reads them.\<close>

definition image_of :: "frozen_signature \<Rightarrow> string \<Rightarrow> (rmatch \<times> frozen_arg) option" where
  "image_of s x =
     (case dim_sym x of None \<Rightarrow> None | Some m \<Rightarrow>
        map_option (\<lambda>a. (m, a)) (last_by fa_sdfg_name (fs_shape_only_args s) (grp0 m 1)))"

definition from_image :: "rmatch \<Rightarrow> frozen_arg \<Rightarrow> string list \<Rightarrow> string \<Rightarrow> image_error + (string list \<times> string list \<times> string list)" where
  "from_image m img taken x =
     (let fresh = (aos_lead img \<noteq> 0 \<and> fa_sdfg_name img \<notin> set taken) in
      rbind (shape_only_source img (dim_of m) (is_offset x)) (\<lambda>(e, guard).
        Inr (if fresh then shape_only_bounds img else [], guarded_assign x e guard ''1'',
             if fresh then fa_sdfg_name img # taken else taken)))"

text \<open>The buffer of a record member laid out with the member's dimensions first.\<close>

definition from_buffer :: "frozen_signature \<Rightarrow> string list \<Rightarrow> string \<Rightarrow> assign_error + string list option" where
  "from_buffer s members_first x =
     (case dim_sym x of None \<Rightarrow> Inr None | Some m \<Rightarrow>
        if grp0 m 1 \<notin> set members_first then Inr None
        else case by_sdfg_name (fs_args s) (grp0 m 1) of
          None \<Rightarrow> Inl (NoSuchBuffer (grp0 m 1))
        | Some buf \<Rightarrow>
            Inr (if aos_lead buf = 0 then None
              else Some [concat [''    '', x, '' = int('', if is_offset x then ''lbound'' else ''size'', ''('', fa_sdfg_name buf, '', dim='',
                str_int (buffer_dim buf (int (dim_of m)) True), ''), c_int)'']]))"

text \<open>What one symbol adds: lines to take bounds first, the lines that assign it if it has a source, and
  the images whose bounds have been taken.\<close>

definition sym_step :: "frozen_signature \<Rightarrow> original_interface \<Rightarrow> sym_tables \<Rightarrow> string list \<Rightarrow> string list \<Rightarrow> string \<Rightarrow>
    assign_error + (string list \<times> string list option \<times> string list)" where
  "sym_step s iface t members_first taken x =
     (case image_of s x of
        Some (m, img) \<Rightarrow>
          (case from_image m img taken x of
             Inl e \<Rightarrow> Inl (ImageError e) | Inr (pre, ls, taken') \<Rightarrow> Inr (pre, Some ls, taken'))
      | None \<Rightarrow>
          (case from_renamed t x of
             Some ls \<Rightarrow> Inr ([], Some ls, taken)
           | None \<Rightarrow> rbind (from_buffer s members_first x) (\<lambda>r.
               Inr ([], case r of Some ls \<Rightarrow> Some ls | None \<Rightarrow> plain_source s iface t x, taken))))"

fun assign_loop :: "frozen_signature \<Rightarrow> original_interface \<Rightarrow> sym_tables \<Rightarrow> string list \<Rightarrow> string set \<Rightarrow> string set option \<Rightarrow>
    string list \<Rightarrow> string list \<Rightarrow> string list \<Rightarrow> string list \<Rightarrow> assign_error + (string list \<times> string list)" where
  "assign_loop s iface t members_first dummies passed out unsourced taken [] = Inr (out, unsourced)"
| "assign_loop s iface t members_first dummies passed out unsourced taken (x # xs) =
     (if x \<in> dummies \<or> x \<in> set (st_pack_syms t)
      then assign_loop s iface t members_first dummies passed out unsourced taken xs
      else rbind (sym_step s iface t members_first taken x) (\<lambda>(pre, r, taken').
        case r of
          Some ls \<Rightarrow> assign_loop s iface t members_first dummies passed (out @ pre @ ls) unsourced taken' xs
        | None \<Rightarrow>
            if passed \<noteq> None \<and> x \<in> the passed
            then assign_loop s iface t members_first dummies passed out (unsourced @ [x]) taken' xs
            else assign_loop s iface t members_first dummies passed (out @ [todo_line x]) unsourced taken' xs))"

definition build_symbol_assigns :: "nat \<Rightarrow> frozen_signature \<Rightarrow> flatten_plan \<Rightarrow> string set \<Rightarrow> original_interface \<Rightarrow>
    string set option \<Rightarrow> string list \<Rightarrow> assign_error + string list" where
  "build_symbol_assigns n s plan dummies iface passed members_first =
     (case struct_member_symbol_sources n iface of
        None \<Rightarrow> Inl MemberRecursion
      | Some members \<Rightarrow>
          rbind (assign_loop s iface (sym_tables_of s plan iface members) members_first dummies passed [] [] [] (fs_free_symbols s))
            (\<lambda>(out, unsourced). if unsourced \<noteq> [] then Inl (UnsourcedSymbols (fs_entry s) unsourced) else Inr out))"

section \<open>What the lines assign\<close>

text \<open>A list of lines that gives a symbol a value whichever way its guard goes.\<close>

fun sets_symbol :: "string \<Rightarrow> string list \<Rightarrow> bool" where
  "sets_symbol x [l] = startswith l (''    '' @ x @ '' = '')"
| "sets_symbol x [g, l, e, m, f] =
     (g = concat [''    if ('', drop 8 (take (length g - 6) g), '') then''] \<and> startswith l (''      '' @ x @ '' = '') \<and> e = ''    else'' \<and>
      startswith m (''      '' @ x @ '' = '') \<and> f = ''    end if'')"
| "sets_symbol x _ = False"

lemma startswith_append: "startswith (p @ s) p"
  by (simp add: startswith_def)

lemma guarded_assign_sets: "sets_symbol x (guarded_assign x rhs guard absent)"
  by (simp add: guarded_assign_def startswith_def take_Cons')

lemma presence_flag_sets: "sets_symbol x (presence_flag x p)"
  by (simp add: presence_flag_def startswith_def)

lemma first_some_mem: "first_some xs = Some y \<Longrightarrow> Some y \<in> set xs"
  by (induction xs) (auto split: option.splits)

lemma plain_source_sets:
  assumes "plain_source s iface t x = Some ls"
  shows "sets_symbol x ls"
proof -
  note g = guarded_assign_sets presence_flag_sets
  from first_some_mem [OF assms [unfolded plain_source_def]]
  consider "from_flat_shape t x = Some ls" | "from_scalar_member t x = Some ls" | "from_bounds iface t x = Some ls"
    | "from_arrays s t x = Some ls" | "from_module t x = Some ls" | "from_presence s t x = Some ls"
    | "from_optional t x = Some ls" | "from_members iface t x = Some ls" by auto
  then show ?thesis
  proof cases
    case 1
    then show ?thesis by (auto simp: from_flat_shape_def g split: option.splits if_splits)
  next
    case 2
    then show ?thesis by (auto simp: from_scalar_member_def g)
  next
    case 3
    then show ?thesis by (auto simp: from_bounds_def g split: option.splits)
  next
    case 4
    then show ?thesis by (auto simp: from_arrays_def g split: option.splits)
  next
    case 5
    then show ?thesis by (auto simp: from_module_def g startswith_def split: if_splits)
  next
    case 6
    then show ?thesis by (auto simp: from_presence_def Let_def g split: option.splits if_splits)
  next
    case 7
    then show ?thesis by (auto simp: from_optional_def Let_def g startswith_def split: if_splits)
  next
    case 8
    then show ?thesis by (auto simp: from_members_def g)
  qed
qed

lemma from_renamed_sets: "from_renamed t x = Some ls \<Longrightarrow> sets_symbol x ls"
  by (auto simp: from_renamed_def Let_def guarded_assign_sets split: option.splits prod.splits)

lemma from_image_sets: "from_image m img taken x = Inr (pre, ls, taken') \<Longrightarrow> sets_symbol x ls \<and> (pre = [] \<or> pre = shape_only_bounds img)"
  by (auto simp: from_image_def Let_def rbind_Inr_iff guarded_assign_sets split: if_splits)

lemma from_buffer_sets: "from_buffer s mf x = Inr (Some ls) \<Longrightarrow> sets_symbol x ls"
  by (auto simp: from_buffer_def startswith_def split: option.splits if_splits)

lemma sym_step_sets:
  assumes "sym_step s iface t mf taken x = Inr (pre, Some ls, taken')"
  shows "sets_symbol x ls \<and> (pre = [] \<or> (\<exists>img \<in> set (fs_shape_only_args s). aos_lead img \<noteq> 0 \<and> pre = shape_only_bounds img))"
proof (cases "image_of s x")
  case (Some p)
  obtain m img where p: "p = (m, img)" by (cases p)
  from assms Some p have fi: "from_image m img taken x = Inr (pre, ls, taken')"
    by (auto simp: sym_step_def split: sum.splits)
  have "img \<in> set (fs_shape_only_args s)"
    using Some p by (auto simp: image_of_def split: option.splits dest!: last_by_mem)
  moreover have "pre \<noteq> [] \<Longrightarrow> aos_lead img \<noteq> 0"
    using fi by (auto simp: from_image_def Let_def rbind_Inr_iff split: if_splits)
  ultimately show ?thesis using from_image_sets [OF fi] by blast
next
  case None
  with assms show ?thesis
    by (auto simp: sym_step_def rbind_Inr_iff split: option.splits intro: from_renamed_sets from_buffer_sets plain_source_sets)
qed

text \<open>The loop, without its accumulators.\<close>

definition unskipped :: "string set \<Rightarrow> flatten_plan \<Rightarrow> string list \<Rightarrow> string list" where
  "unskipped dummies plan xs = filter (\<lambda>x. x \<notin> dummies \<and> x \<notin> set (pack_symbols plan)) xs"

definition part_ok :: "frozen_signature \<Rightarrow> string set option \<Rightarrow> string \<times> string list \<Rightarrow> bool" where
  "part_ok s passed p =
     (\<exists>pre blk. snd p = pre @ blk \<and>
        (pre = [] \<or> (\<exists>img \<in> set (fs_shape_only_args s). aos_lead img \<noteq> 0 \<and> pre = shape_only_bounds img)) \<and>
        (sets_symbol (fst p) blk \<or> blk = [todo_line (fst p)] \<and> (passed = None \<or> fst p \<notin> the passed)))"

lemma assign_loop_parts:
  assumes "assign_loop s iface t mf dummies passed out uns taken xs = Inr (out', [])" and "st_pack_syms t = pack_symbols plan"
  shows "uns = [] \<and> (\<exists>parts. out' = out @ concat (map snd parts) \<and> map fst parts = unskipped dummies plan xs \<and>
    (\<forall>p \<in> set parts. part_ok s passed p))"
  using assms
proof (induction s iface t mf dummies passed out uns taken xs rule: assign_loop.induct)
  case (1 s iface t mf dummies passed out uns taken)
  then show ?case by (intro conjI exI [of _ "[]"]) (auto simp: unskipped_def)
next
  case (2 s iface t mf dummies passed out uns taken x xs)
  show ?case
  proof (cases "x \<in> dummies \<or> x \<in> set (st_pack_syms t)")
    case True
    with "2.IH"(1) [OF True] "2.prems" show ?thesis by (simp add: unskipped_def) blast
  next
    case False
    with "2.prems" obtain pre r taken' where step: "sym_step s iface t mf taken x = Inr (pre, r, taken')"
      by (auto simp: rbind_Inr_iff)
    have keep: "unskipped dummies plan (x # xs) = x # unskipped dummies plan xs"
      using False "2.prems"(2) by (simp add: unskipped_def)
    have add: "\<exists>parts. out' = out @ concat (map snd parts) \<and> map fst parts = unskipped dummies plan (x # xs) \<and>
        (\<forall>p \<in> set parts. part_ok s passed p)"
      if "part_ok s passed (x, ls)" "\<exists>parts. out' = (out @ ls) @ concat (map snd parts) \<and> map fst parts = unskipped dummies plan xs \<and>
        (\<forall>p \<in> set parts. part_ok s passed p)" for ls
    proof -
      from that(2) obtain parts where "out' = (out @ ls) @ concat (map snd parts)" "map fst parts = unskipped dummies plan xs"
        "\<forall>p \<in> set parts. part_ok s passed p" by blast
      then show ?thesis using that(1) keep by (intro exI [of _ "(x, ls) # parts"]) simp
    qed
    show ?thesis
    proof (cases r)
      case (Some ls)
      have "part_ok s passed (x, pre @ ls)"
        using sym_step_sets [OF step [unfolded Some]] unfolding part_ok_def by auto
      with add [of "pre @ ls"] "2.IH"(4) [OF False Some] "2.prems" False step Some show ?thesis by simp
    next
      case None
      show ?thesis
      proof (cases "passed \<noteq> None \<and> x \<in> the passed")
        case True
        with "2.IH"(2) [OF False None True] "2.prems" False step None show ?thesis by simp blast
      next
        case False': False
        have todo: "part_ok s passed (x, [todo_line x])"
          using False' unfolding part_ok_def by auto
        have "assign_loop s iface t mf dummies passed (out @ [todo_line x]) uns taken' xs = Inr (out', [])"
          using "2.prems"(1) step None unfolding assign_loop.simps if_not_P [OF False] by (simp add: if_not_P [OF False'] del: not_None_eq)
        from "2.IH"(3) [OF False None False' this "2.prems"(2)] add [of "[todo_line x]"] todo
        show ?thesis by simp
      qed
    qed
  qed
qed

text \<open>Whether a symbol has a source does not depend on the symbols before it.\<close>

definition has_source :: "frozen_signature \<Rightarrow> original_interface \<Rightarrow> sym_tables \<Rightarrow> string list \<Rightarrow> string \<Rightarrow> bool" where
  "has_source s iface t mf x = (case sym_step s iface t mf [] x of Inr (_, Some _, _) \<Rightarrow> True | _ \<Rightarrow> False)"

lemma sym_step_taken:
  "(case sym_step s iface t mf taken x of Inl e \<Rightarrow> Inl e | Inr (pre, r, _) \<Rightarrow> Inr r) =
   (case sym_step s iface t mf [] x of Inl e \<Rightarrow> Inl e | Inr (pre, r, _) \<Rightarrow> Inr r)"
proof (cases "image_of s x")
  case None
  then show ?thesis
    by (cases "from_renamed t x"; cases "from_buffer s mf x") (simp_all add: sym_step_def)
next
  case (Some p)
  obtain m img where p: "p = (m, img)" by (cases p)
  show ?thesis
    by (cases "shape_only_source img (dim_of m) (is_offset x)") (auto simp: sym_step_def Some p from_image_def Let_def)
qed

lemma sym_step_source:
  assumes "sym_step s iface t mf taken x = Inr (pre, r, taken')"
  shows "has_source s iface t mf x \<longleftrightarrow> r \<noteq> None"
  using sym_step_taken [of s iface t mf taken x] assms
  by (auto simp: has_source_def split: sum.splits option.splits)

lemma assign_loop_unsourced:
  assumes "\<forall>x \<in> set xs. x \<in> dummies \<or> x \<in> set (st_pack_syms t) \<or> is_ok (sym_step s iface t mf [] x)"
  shows "\<exists>out'. assign_loop s iface t mf dummies passed out uns taken xs =
    Inr (out', uns @ filter (\<lambda>x. x \<notin> dummies \<and> x \<notin> set (st_pack_syms t) \<and> passed \<noteq> None \<and> x \<in> the passed \<and>
      \<not> has_source s iface t mf x) xs)"
  using assms
proof (induction xs arbitrary: out uns taken)
  case (Cons x xs)
  show ?case
  proof (cases "x \<in> dummies \<or> x \<in> set (st_pack_syms t)")
    case True
    then have "assign_loop s iface t mf dummies passed out uns taken (x # xs) = assign_loop s iface t mf dummies passed out uns taken xs"
      by simp
    with Cons.IH [of out uns taken] Cons.prems True show ?thesis by auto
  next
    case False
    with Cons.prems have "is_ok (sym_step s iface t mf [] x)" by simp
    then obtain pre r tk where st: "sym_step s iface t mf taken x = Inr (pre, r, tk)"
      using sym_step_taken [of s iface t mf taken x] by (auto simp: is_ok_def split: sum.splits)
    note src = sym_step_source [OF st]
    from Cons.prems have rest: "\<forall>x \<in> set xs. x \<in> dummies \<or> x \<in> set (st_pack_syms t) \<or> is_ok (sym_step s iface t mf [] x)" by simp
    show ?thesis
    proof (cases r)
      case (Some ls)
      with Cons.IH [OF rest, of "out @ pre @ ls" uns tk] st False src show ?thesis by simp
    next
      case None
      show ?thesis
      proof (cases "passed \<noteq> None \<and> x \<in> the passed")
        case True
        with Cons.IH [OF rest, of out "uns @ [x]" tk] st False src None show ?thesis by simp
      next
        case False': False
        with Cons.IH [OF rest, of "out @ [todo_line x]" uns tk] st False src None show ?thesis by auto
      qed
    qed
  qed
qed simp

lemma st_pack_syms_of [simp]: "st_pack_syms (sym_tables_of s plan iface members) = pack_symbols plan"
  by (simp add: sym_tables_of_def Let_def)

section \<open>The walk over the derived types\<close>

text \<open>Types whose members are of types of smaller rank.\<close>

definition types_ranked :: "(string \<Rightarrow> nat) \<Rightarrow> (string \<times> derived_type) list \<Rightarrow> bool" where
  "types_ranked r types =
     (\<forall>t st. map_of types t = Some st \<longrightarrow>
        (\<forall>m \<in> set (dt_members st). \<forall>u. mb_struct_name m = Some u \<and> map_of types u \<noteq> None \<longrightarrow> r u < r t))"

lemma walk_members_ranked:
  assumes "types_ranked r types" and "\<forall>m \<in> set ms. \<forall>u. mb_struct_name m = Some u \<and> map_of types u \<noteq> None \<longrightarrow> r u < n"
  shows "\<exists>res. \<forall>k \<ge> n. walk_members k types ms p acc x = Some res"
  using assms(2)
proof (induction n arbitrary: ms p acc x rule: less_induct)
  case (less n)
  from less.prems show ?case
  proof (induction ms arbitrary: x)
    case (Cons m ms)
    then have tl: "\<exists>res. \<forall>k \<ge> n. walk_members k types ms p acc y = Some res" for y by simp
    show ?case
    proof (cases "\<exists>u st. mb_struct_name m = Some u \<and> u \<noteq> [] \<and> map_of types u = Some st")
      case True
      then obtain u st where u: "mb_struct_name m = Some u" "u \<noteq> []" "map_of types u = Some st" by blast
      with Cons.prems have lt: "r u < n" by simp
      have "\<forall>m \<in> set (dt_members st). \<forall>v. mb_struct_name m = Some v \<and> map_of types v \<noteq> None \<longrightarrow> r v < r u"
        using assms(1) u(3) by (simp add: types_ranked_def)
      from less.IH [OF lt this]
      obtain mid where mid: "\<forall>k \<ge> r u. walk_members k types (dt_members st) (concat [p, ''_'', mb_name m])
         (if mb_rank m > 0 then concat [concat [acc, ''%'', mb_name m], ''('', join '', '' (replicate (nat (mb_rank m)) ''1''), '')'']
          else concat [acc, ''%'', mb_name m]) x = Some mid"
        by blast
      from tl [of mid] obtain res where res: "\<forall>k \<ge> n. walk_members k types ms p acc mid = Some res" by blast
      have "walk_members k types (m # ms) p acc x = Some res" if "k \<ge> n" for k
      proof -
        from that lt obtain j where k: "k = Suc j" "r u \<le> j" by (cases k) auto
        show ?thesis
          using mid k(2) res that
          by (simp only: walk_members.simps Let_def u option.case if_False k(1) nat.case)
      qed
      then show ?thesis by blast
    next
      case False
      let ?leaf = "member_leaf m (concat [p, ''_'', mb_name m]) (concat [acc, ''%'', mb_name m]) x"
      have "walk_members k types (m # ms) p acc x = walk_members k types ms p acc
          (case mb_struct_name m of None \<Rightarrow> ?leaf | Some u \<Rightarrow> if u = [] then ?leaf else x)" for k
        using False by (auto simp: Let_def split: option.splits)
      with tl show ?thesis by simp
    qed
  qed simp
qed

lemma walk_args_ranked:
  assumes "types_ranked r types" and "\<forall>a \<in> set as. \<forall>t. oa_struct_type a = Some t \<longrightarrow> r t \<le> n"
  shows "\<exists>res. \<forall>k \<ge> n. walk_args k types as x = Some res"
  using assms(2)
proof (induction as arbitrary: x)
  case (Cons a as)
  then have tl: "\<exists>res. \<forall>k \<ge> n. walk_args k types as y = Some res" for y by simp
  show ?case
  proof (cases "\<exists>t st. oa_struct_type a = Some t \<and> t \<noteq> [] \<and> map_of types t = Some st")
    case True
    then obtain t st where t: "oa_struct_type a = Some t" "t \<noteq> []" "map_of types t = Some st" by blast
    have "\<forall>m \<in> set (dt_members st). \<forall>u. mb_struct_name m = Some u \<and> map_of types u \<noteq> None \<longrightarrow> r u < n"
      using assms(1) t Cons.prems by (fastforce simp: types_ranked_def)
    from walk_members_ranked [OF assms(1) this] obtain mid where
      "\<forall>k \<ge> n. walk_members k types (dt_members st) (oa_name a) (oa_name a) x = Some mid" by blast
    with tl [of mid] t show ?thesis by auto
  next
    case False
    then have "walk_args k types (a # as) x = walk_args k types as x" for k
      by (auto split: option.splits)
    with tl show ?thesis by simp
  qed
qed simp

text \<open>A type with a member of its own type.\<close>

lemma walk_members_own:
  assumes "map_of types t = Some st" and "t \<noteq> []" and "m \<in> set (dt_members st)" and "mb_struct_name m = Some t"
    and "m \<in> set ms"
  shows "walk_members n types ms p acc x = None"
  using assms(5)
proof (induction n arbitrary: ms p acc x)
  case 0
  then show ?case
    by (induction ms arbitrary: x) (auto simp: assms(1,2,4) Let_def split: option.splits)
next
  case (Suc n)
  note inner = Suc.IH [OF assms(3)]
  from Suc.prems show ?case
    by (induction ms arbitrary: x) (auto simp: assms(1,2,4) inner Let_def split: option.splits)
qed

lemma walk_args_own:
  assumes "map_of types t = Some st" and "t \<noteq> []" and "m \<in> set (dt_members st)" and "mb_struct_name m = Some t"
    and "a \<in> set as" and "oa_struct_type a = Some t"
  shows "walk_args n types as x = None"
  using assms(5)
  by (induction as arbitrary: x) (auto simp: assms(1,2,6) walk_members_own [OF assms(1-4) assms(3)] split: option.splits)

section \<open>Blocks of the lines\<close>

text \<open>A line that assigns a symbol is none of the lines the partition looks for.\<close>

lemma ref_head_prefix:
  assumes "ref_head x" and "startswith (x @ '' = '' @ r) p" and "i < 4" and "Suc i < length p" and "p ! i = CHR '' ''"
    and "p ! Suc i \<noteq> CHR ''=''" and "\<forall>j < i. p ! j \<noteq> CHR '' ''"
  shows False
proof -
  let ?t = "x @ '' = '' @ r"
  have t: "?t ! j = p ! j" if "j < length p" for j
    using assms(2) that unfolding startswith_def by (metis nth_take)
  have "\<not> length x < i"
  proof
    assume l: "length x < i"
    then have "?t ! length x = p ! length x" using assms(4) by (intro t) simp
    then have "p ! length x = CHR '' ''" by simp
    then show False using assms(7) l by blast
  qed
  moreover have "length x \<noteq> i"
  proof
    assume l: "length x = i"
    have "?t ! Suc i = p ! Suc i" using assms(4) by (rule t)
    then show False using assms(6) l by (simp add: nth_append)
  qed
  moreover have "\<not> i < length x"
    using ref_nth [OF assms(1,3)] t [of i] assms(4,5) by (auto simp: nth_append)
  ultimately show False by simp
qed

lemma lstrip_ref: "ref_head x \<Longrightarrow> lstrip (x @ r) = x @ r"
  by (cases x) (auto simp: ref_head_def intro: lstrip_word)

lemma startswith_rstrip: "startswith (rstrip s) p \<Longrightarrow> startswith s p"
proof -
  assume a: "startswith (rstrip s) p"
  have "rev s = takeWhile is_space (rev s) @ dropWhile is_space (rev s)" by simp
  then have "s = rstrip s @ rev (takeWhile is_space (rev s))"
    unfolding rstrip_def by (metis rev_append rev_rev_ident)
  moreover have "startswith (u @ v) p" if "startswith u p" for u v
    using that by (simp add: startswith_def) (metis append_take_drop_id length_take min.absorb_iff2 take_all take_append
      diff_is_0_eq le_cases take_0 append_Nil2)
  ultimately show "startswith s p" using a by metis
qed

lemma assign_line_kinds:
  assumes "ref_head x" and "startswith l (spaces n @ x @ '' = '')"
  shows "\<exists>s. line_kind l = Plain s" and "\<not> opens_guard l" and "strip l \<noteq> ''end if''"
proof -
  from assms(2) obtain r where l: "l = spaces n @ x @ '' = '' @ r"
    by (metis append_take_drop_id append_assoc startswith_def)
  show "\<exists>s. line_kind l = Plain s"
    using kind_ref [OF assms(1), of "CHR '' ''"] by (simp add: l)
  have st: "strip l = rstrip (x @ '' = '' @ r)"
    unfolding l strip_def using lstrip_ref [OF assms(1)] by simp
  show "\<not> opens_guard l"
  proof
    assume "opens_guard l"
    then have "startswith (x @ '' = '' @ r) ''if (''" unfolding opens_guard_def st by (blast intro: startswith_rstrip)
    from ref_head_prefix [OF assms(1) this, of 2] show False by (simp add: less_Suc_eq numeral_2_eq_2)
  qed
  show "strip l \<noteq> ''end if''"
  proof
    assume "strip l = ''end if''"
    then have "startswith (rstrip (x @ '' = '' @ r)) ''end if''" unfolding st by (simp add: startswith_def)
    then have "startswith (x @ '' = '' @ r) ''end if''" by (rule startswith_rstrip)
    from ref_head_prefix [OF assms(1) this, of 3] show False by (simp add: less_Suc_eq numeral_3_eq_3)
  qed
qed

text \<open>A block of lines that stays together.\<close>

definition one_block :: "string list \<Rightarrow> bool" where
  "one_block blk \<longleftrightarrow> neutral blk \<and> (\<forall>rest. sym_blocks (blk @ rest) = blk # sym_blocks rest)"

lemma rstrip_last: "s \<noteq> [] \<Longrightarrow> \<not> is_space (last s) \<Longrightarrow> rstrip s = s"
  unfolding rstrip_def by (metis dropWhile_eq_self_iff hd_rev rev_rev_ident)

lemma guard_line:
  "opens_guard (concat [''    if ('', c, '') then''])" "line_kind (concat [''    if ('', c, '') then'']) = Opens_If c"
proof -
  have "\<not> is_space CHR ''n''" "\<not> is_space CHR ''i''" by code_simp+
  then have "strip (concat [''    if ('', c, '') then'']) = ''if ('' @ c @ '') then''"
    unfolding strip_def using rstrip_last [of "''if ('' @ c @ '') then''"] by (simp add: lstrip_word)
  then show "opens_guard (concat [''    if ('', c, '') then''])"
    by (simp add: opens_guard_def startswith_def)
qed (use kind_if_then [of c] in simp)

lemma one_block_sets:
  assumes "ref_head x" and "sets_symbol x blk"
  shows "one_block blk"
proof -
  note a = assign_line_kinds [OF assms(1)]
  consider l where "blk = [l]" "startswith l (spaces 4 @ x @ '' = '')"
    | g l m where "blk = [concat [''    if ('', g, '') then''], l, ''    else'', m, ''    end if'']"
        "startswith l (spaces 6 @ x @ '' = '')" "startswith m (spaces 6 @ x @ '' = '')"
  proof (cases "(x, blk)" rule: sets_symbol.cases)
    case (1 y l)
    with assms(2) that(1) [of l] show ?thesis by (simp add: spaces_def numeral_eq_Suc)
  next
    case (2 y g l e m f)
    then have b: "blk = [g, l, e, m, f]" by simp
    have c: "g = concat [''    if ('', drop 8 (take (length g - 6) g), '') then'']" "startswith l (''      '' @ x @ '' = '')"
      "e = ''    else''" "startswith m (''      '' @ x @ '' = '')" "f = ''    end if''"
      using assms(2) unfolding b sets_symbol.simps by blast+
    have six: "spaces 6 = ''      ''" by code_simp
    show ?thesis by (rule that(2) [of "drop 8 (take (length g - 6) g)" l m]) (use b c six in metis)+
  qed (use assms(2) in auto)
  then show ?thesis
  proof cases
    case 1
    obtain u where "line_kind l = Plain u" using a(1) 1(2) by metis
    with a(2) [OF 1(2)] show ?thesis by (simp add: one_block_def neutral_def 1(1))
  next
    case 2
    have e: "strip ''    else'' \<noteq> ''end if''" "strip ''    end if'' = ''end if''" by code_simp+
    obtain u v where "line_kind l = Plain u" "line_kind m = Plain v" using a(1) 2(2,3) by metis
    then have "neutral blk" unfolding 2(1) using guard_line(2) [of g] by (intro neutralI) (simp add: kinds)
    moreover have "sym_blocks (blk @ rest) = blk # sym_blocks rest" for rest
    proof -
      have "guard_body ([l, ''    else'', m, ''    end if''] @ rest) = 4"
        using a(3) [OF 2(2)] a(3) [OF 2(3)] e by (simp add: guard_body_def)
      then show ?thesis
        unfolding 2(1) using guard_line(1) [of g] by (simp only: append_Cons sym_blocks.simps if_True) simp
    qed
    ultimately show ?thesis by (simp add: one_block_def)
  qed
qed

lemma one_block_todo: "one_block [todo_line x]"
proof -
  have "\<not> is_space CHR ''!''" by code_simp
  then have "lstrip (todo_line x) = CHR ''!'' # drop 5 (todo_line x)"
    by (simp add: todo_line_def lstrip_word)
  then have "\<not> startswith (strip (todo_line x)) ''if (''"
    using startswith_rstrip [of "lstrip (todo_line x)" "''if (''"] by (auto simp: strip_def startswith_def)
  moreover have "\<exists>s. line_kind (todo_line x) = Plain s" by (simp add: todo_line_def)
  ultimately show ?thesis by (auto simp: one_block_def neutral_def opens_guard_def)
qed

lemma sym_blocks_concat: "\<forall>b \<in> set bs. one_block b \<Longrightarrow> sym_blocks (concat bs) = bs"
  by (induction bs) (auto simp: one_block_def)

lemma neutral_shape_only: "neutral (shape_only_bounds img)"
proof -
  let ?h = "concat [''    ! ----- bounds of the image of '', fa_fortran_name img, '', which the SDFG allocates itself -----'']"
  have "line_kind ?h = Plain (drop 4 ?h)" by simp
  from neutral_member_front [OF pieces_pairs this, where g = False and a = img and a1 = img]
  show ?thesis unfolding shape_only_bounds_def Let_def by simp
qed

lemma symbol_parts:
  assumes "build_symbol_assigns n s plan dummies iface passed members_first = Inr out"
  shows "\<exists>parts. out = concat (map snd parts) \<and> map fst parts = unskipped dummies plan (fs_free_symbols s) \<and>
    (\<forall>p \<in> set parts. part_ok s passed p)"
proof -
  from assms obtain members where "struct_member_symbol_sources n iface = Some members"
    and l: "assign_loop s iface (sym_tables_of s plan iface members) members_first dummies passed [] [] [] (fs_free_symbols s) = Inr (out, [])"
    by (auto simp: build_symbol_assigns_def rbind_Inr_iff split: option.splits if_splits)
  from assign_loop_parts [OF l st_pack_syms_of] show ?thesis by simp
qed

lemma part_blocks:
  assumes "part_ok s passed p" and "ref_head (fst p)"
  shows "\<exists>pre blk. snd p = pre @ blk \<and> neutral pre \<and> one_block blk \<and>
    (pre = [] \<or> (\<exists>img \<in> set (fs_shape_only_args s). aos_lead img \<noteq> 0))"
  using assms one_block_sets one_block_todo neutral_shape_only neutral_Nil unfolding part_ok_def by metis

lemma part_neutral: "part_ok s passed p \<Longrightarrow> ref_head (fst p) \<Longrightarrow> neutral (snd p)"
  using part_blocks by (fastforce simp: one_block_def intro: neutral_append)

lemma symbol_lines_neutral:
  assumes "build_symbol_assigns n s plan dummies iface passed members_first = Inr out"
    and "\<forall>x \<in> set (fs_free_symbols s). ref_head x"
  shows "neutral out"
proof -
  from symbol_parts [OF assms(1)] obtain parts where p: "out = concat (map snd parts)"
    "map fst parts = unskipped dummies plan (fs_free_symbols s)" "\<forall>p \<in> set parts. part_ok s passed p" by blast
  have "ref_head (fst p)" if "p \<in> set parts" for p
  proof -
    have "fst p \<in> set (map fst parts)" using that by simp
    then show ?thesis unfolding p(2) using assms(2) by (simp add: unskipped_def)
  qed
  then show ?thesis unfolding p(1) using p(3) part_neutral by (intro neutral_concat) blast
qed

section \<open>Properties\<close>


definition ex_dim_sig :: frozen_signature where
  "ex_dim_sig = ex_sig\<lparr>fs_free_symbols := [''u_d0'']\<rparr>"

lemma ex_dim_assigns:
  "build_symbol_assigns 0 ex_dim_sig ex_plan {} ex_iface (Some {''u_d0''}) [] = Inr [''    u_d0 = int(size(u, dim=1), c_int)'']"
  by code_simp


text \<open>A passed symbol without a source is an error, and nothing else raises it: when the derived types
  can be walked and no symbol refers to an image or a buffer that is not there, building either returns
  or raises an UnsourcedSymbolError that names, in order, exactly the passed symbols without a source.\<close>

theorem unsourced_symbols_reported:
  assumes "struct_member_symbol_sources n iface = Some members"
    and "t = sym_tables_of s plan iface members"
    and "\<forall>x \<in> set (unskipped dummies plan (fs_free_symbols s)). is_ok (sym_step s iface t members_first [] x)"
    and "missing = filter (\<lambda>x. passed \<noteq> None \<and> x \<in> the passed \<and> \<not> has_source s iface t members_first x)
      (unskipped dummies plan (fs_free_symbols s))"
  shows "if missing = [] then is_ok (build_symbol_assigns n s plan dummies iface passed members_first)
    else build_symbol_assigns n s plan dummies iface passed members_first = Inl (UnsourcedSymbols (fs_entry s) missing)"
proof -
  have "\<forall>x \<in> set (fs_free_symbols s). x \<in> dummies \<or> x \<in> set (st_pack_syms t) \<or> is_ok (sym_step s iface t members_first [] x)"
    using assms(3) by (auto simp: unskipped_def assms(2))
  from assign_loop_unsourced [OF this, of passed "[]" "[]" "[]"] obtain out where
    "assign_loop s iface t members_first dummies passed [] [] [] (fs_free_symbols s) = Inr (out, missing)"
    by (auto simp: assms(2,4) unskipped_def conj_ac)
  then show ?thesis by (simp add: build_symbol_assigns_def assms(1,2))
qed

theorem unsourced_symbols_reported_witness:
  "build_symbol_assigns 0 (ex_sig\<lparr>fs_free_symbols := [''u_d0'', ''zz'']\<rparr>) ex_plan {} ex_iface (Some {''u_d0'', ''zz''}) [] =
     Inl (UnsourcedSymbols ''k'' [''zz''])"
proof -
  let ?s = "ex_sig\<lparr>fs_free_symbols := [''u_d0'', ''zz'']\<rparr>" and ?ms = "\<lparr>ms_sources = [], ms_paths = []\<rparr>"
  have w: "struct_member_symbol_sources 0 ex_iface = Some ?ms" by code_simp
  have k: "list_all (\<lambda>x. is_ok (sym_step ?s ex_iface (sym_tables_of ?s ex_plan ex_iface ?ms) [] [] x))
      (unskipped {} ex_plan (fs_free_symbols ?s))"
    by code_simp
  have m: "filter (\<lambda>x. Some {''u_d0'', ''zz''} \<noteq> None \<and> x \<in> the (Some {''u_d0'', ''zz''}) \<and>
      \<not> has_source ?s ex_iface (sym_tables_of ?s ex_plan ex_iface ?ms) [] x) (unskipped {} ex_plan (fs_free_symbols ?s)) = [''zz'']"
    by code_simp
  have e: "fs_entry ?s = ''k''" by (simp add: ex_sig_def)
  from unsourced_symbols_reported [OF w refl k [unfolded list_all_iff] m [symmetric]] e show ?thesis by simp
qed

text \<open>C15. The walk over the members of the derived types returns when no type contains itself: for types
  that can be ranked, nesting as deep as the rank of the dummies' types is enough, and more changes
  nothing.\<close>

theorem member_walk_returns:
  assumes "types_ranked r (oi_struct_types iface)"
    and "\<forall>a \<in> set (oi_args iface). \<forall>t. oa_struct_type a = Some t \<longrightarrow> r t \<le> n"
  shows "\<exists>ms. \<forall>k \<ge> n. struct_member_symbol_sources k iface = Some ms"
  using walk_args_ranked [OF assms] by (simp add: struct_member_symbol_sources_def)

definition ex_types :: "(string \<times> derived_type) list" where
  "ex_types =
     [(''outer'', \<lparr>dt_name = ''outer'', dt_module = None, dt_members =
        [\<lparr>mb_name = ''inner'', mb_fortran_type = ''type(leaf)'', mb_rank = 1, mb_shape = [''?''], mb_struct_name = Some ''leaf'', mb_alloc = ''allocatable''\<rparr>]\<rparr>),
      (''leaf'', \<lparr>dt_name = ''leaf'', dt_module = None, dt_members =
        [\<lparr>mb_name = ''m'', mb_fortran_type = ''integer(c_int)'', mb_rank = 0, mb_shape = [], mb_struct_name = None, mb_alloc = []\<rparr>]\<rparr>)]"

definition ex_typed :: "string \<Rightarrow> (string \<times> derived_type) list \<Rightarrow> original_interface" where
  "ex_typed t types = ex_iface\<lparr>oi_struct_types := types, oi_args :=
     [\<lparr>oa_name = ''d'', oa_fortran_type = concat [''type('', t, '')''], oa_rank = 0, oa_shape = [], oa_intent = ''inout'',
       oa_optional = False, oa_struct_type = Some t, oa_passing = ''address''\<rparr>]\<rparr>"

theorem member_walk_returns_witness:
  "\<exists>ms. struct_member_symbol_sources 1 (ex_typed ''outer'' ex_types) = Some ms \<and>
     struct_member_symbol_sources 7 (ex_typed ''outer'' ex_types) = Some ms"
proof -
  let ?r = "\<lambda>t. if t = ''outer'' then 1 else 0 :: nat"
  have "types_ranked ?r (oi_struct_types (ex_typed ''outer'' ex_types))"
    by (auto simp: types_ranked_def ex_typed_def ex_types_def split: if_splits)
  moreover have "\<forall>a \<in> set (oi_args (ex_typed ''outer'' ex_types)). \<forall>t. oa_struct_type a = Some t \<longrightarrow> ?r t \<le> 1"
    by (simp add: ex_typed_def)
  ultimately obtain ms where "\<forall>k \<ge> 1. struct_member_symbol_sources k (ex_typed ''outer'' ex_types) = Some ms"
    using member_walk_returns by blast
  then have "struct_member_symbol_sources 1 (ex_typed ''outer'' ex_types) = Some ms"
    "struct_member_symbol_sources 7 (ex_typed ''outer'' ex_types) = Some ms" by simp_all
  then show ?thesis by blast
qed

text \<open>A dummy of a type with a component of the same type (a tree whose nodes hold an array of nodes)
  gets no binding: at whatever depth the recursion is cut, the walk has not returned.\<close>

theorem self_containing_type_recurses:
  assumes "a \<in> set (oi_args iface)" and "oa_struct_type a = Some t" and "t \<noteq> []"
    and "map_of (oi_struct_types iface) t = Some st" and "m \<in> set (dt_members st)" and "mb_struct_name m = Some t"
  shows "struct_member_symbol_sources n iface = None \<and>
    build_symbol_assigns n s plan dummies iface passed members_first = Inl MemberRecursion"
  using walk_args_own [OF assms(4,3,5,6,1,2)] by (simp add: struct_member_symbol_sources_def build_symbol_assigns_def)

definition ex_tree :: "(string \<times> derived_type) list" where
  "ex_tree =
     [(''node'', \<lparr>dt_name = ''node'', dt_module = None, dt_members =
        [\<lparr>mb_name = ''children'', mb_fortran_type = ''type(node)'', mb_rank = 1, mb_shape = [''?''], mb_struct_name = Some ''node'', mb_alloc = ''allocatable''\<rparr>]\<rparr>)]"

theorem self_containing_type_recurses_witness:
  "build_symbol_assigns 1000 ex_sig ex_plan {} (ex_typed ''node'' ex_tree) None [] = Inl MemberRecursion"
  using self_containing_type_recurses [of "hd (oi_args (ex_typed ''node'' ex_tree))" "ex_typed ''node'' ex_tree" "''node''"
      "snd (hd ex_tree)" "hd (dt_members (snd (hd ex_tree)))" 1000 ex_sig ex_plan "{}" None "[]"]
  by (simp add: ex_typed_def ex_tree_def)

text \<open>The lines stay whole. What is built is correctly nested Fortran; and when none of the images the
  SDFG allocates itself has record dimensions, splitting it around the allocation of the buffers keeps
  every symbol's lines together, in the half that can run them, and both halves are correctly nested.\<close>

theorem symbol_lines_split:
  assumes "build_symbol_assigns n s plan dummies iface passed members_first = Inr out"
    and "\<forall>x \<in> set (fs_free_symbols s). ref_head x" and "partition_symbol_blocks out bufs = (early, late)"
  shows "well_nested out \<and>
    ((\<forall>img \<in> set (fs_shape_only_args s). aos_lead img = 0) \<longrightarrow>
      well_nested early \<and> well_nested late \<and>
      (\<exists>parts. map fst parts = unskipped dummies plan (fs_free_symbols s) \<and> (\<forall>p \<in> set parts. part_ok s passed p) \<and>
        early = concat (map snd (filter (\<lambda>p. \<not> list_ex (buffer_derived bufs) (snd p)) parts)) \<and>
        late = concat (map snd (filter (\<lambda>p. list_ex (buffer_derived bufs) (snd p)) parts))))"
proof -
  from symbol_parts [OF assms(1)] obtain parts where p: "out = concat (map snd parts)"
    "map fst parts = unskipped dummies plan (fs_free_symbols s)" "\<forall>p \<in> set parts. part_ok s passed p" by blast
  have names: "ref_head (fst p)" if "p \<in> set parts" for p
  proof -
    have "fst p \<in> set (map fst parts)" using that by simp
    then show ?thesis unfolding p(2) using assms(2) by (simp add: unskipped_def)
  qed
  have blk: "\<exists>pre blk. snd p = pre @ blk \<and> neutral pre \<and> one_block blk \<and>
      (pre = [] \<or> (\<exists>img \<in> set (fs_shape_only_args s). aos_lead img \<noteq> 0))" if "p \<in> set parts" for p
    using part_blocks p(3) names that by blast
  have "well_nested out" by (rule neutral_well_nested [OF symbol_lines_neutral [OF assms(1,2)]])
  moreover have "well_nested early \<and> well_nested late \<and>
      early = concat (map snd (filter (\<lambda>p. \<not> list_ex (buffer_derived bufs) (snd p)) parts)) \<and>
      late = concat (map snd (filter (\<lambda>p. list_ex (buffer_derived bufs) (snd p)) parts))"
    if "\<forall>img \<in> set (fs_shape_only_args s). aos_lead img = 0"
  proof -
    have one: "one_block (snd p)" if "p \<in> set parts" for p
      using blk [OF that] \<open>\<forall>img \<in> set (fs_shape_only_args s). aos_lead img = 0\<close> by auto
    then have b: "sym_blocks out = map snd parts" unfolding p(1) by (intro sym_blocks_concat) auto
    moreover have "\<forall>blk \<in> set (sym_blocks out). neutral blk" using one by (auto simp: b one_block_def)
    ultimately show ?thesis
      using partition_parts [OF assms(3)] partition_well_nested [OF assms(3)] by (simp add: filter_map comp_def)
  qed
  ultimately show ?thesis using p by blast
qed

theorem symbol_lines_split_witness:
  "\<exists>early late. partition_symbol_blocks [''    u_d0 = int(size(u, dim=1), c_int)''] [''u''] = (early, late) \<and>
     well_nested early \<and> well_nested late"
proof -
  obtain early late where h: "partition_symbol_blocks [''    u_d0 = int(size(u, dim=1), c_int)''] [''u''] = (early, late)"
    by (rule prod.exhaust)
  have "ref_head ''u_d0''" by code_simp
  with symbol_lines_split [OF ex_dim_assigns _ h] h show ?thesis by (auto simp: ex_dim_sig_def ex_sig_def)
qed

definition ex_shape_only :: frozen_arg where
  "ex_shape_only = (ex_arg ''q_x'' ARRAY ''float64'')\<lparr>fa_rank := 2, fa_shape := [''n'', ''m''], fa_aos_origin_struct := ''q'',
     fa_aos_member_path := ''x'', fa_aos_outer_rank := 1\<rparr>"

definition ex_sheared_sig :: frozen_signature where
  "ex_sheared_sig = ex_sig\<lparr>fs_args := [], fs_free_symbols := [''q_x_d1''], fs_shape_only_args := [ex_shape_only]\<rparr>"

text \<open>An image with record dimensions breaks the split: the lines that take its bounds hold a guard
  inside a loop inside a guard, the partition ends a block at the first \<open>end if\<close>, and when the member's
  name is that of a buffer the two halves of correctly nested lines are not correctly nested.\<close>

theorem image_bounds_sheared:
  "\<exists>out early late. build_symbol_assigns 0 ex_sheared_sig ex_plan {} ex_iface None [] = Inr out \<and> well_nested out \<and>
     partition_symbol_blocks out [''x''] = (early, late) \<and> \<not> well_nested early \<and> \<not> well_nested late"
proof -
  have bad: "(case build_symbol_assigns 0 ex_sheared_sig ex_plan {} ex_iface None [] of Inl _ \<Rightarrow> False | Inr out \<Rightarrow>
      well_nested out \<and> (case partition_symbol_blocks out [''x''] of (early, late) \<Rightarrow> \<not> well_nested early \<and> \<not> well_nested late))"
    by code_simp
  then obtain out where out: "build_symbol_assigns 0 ex_sheared_sig ex_plan {} ex_iface None [] = Inr out"
    by (cases "build_symbol_assigns 0 ex_sheared_sig ex_plan {} ex_iface None []") simp_all
  from bad show ?thesis unfolding out sum.case by (cases "partition_symbol_blocks out [''x'']") auto
qed

end
