(* ===== verification/Value_Records.thy ===== *)
theory Value_Records
  imports Binding_Sources "HOL-Library.Product_Lexorder"
begin

text \<open>
  The record of a representative run, the reading half of \<open>src/dace_fortran/bindings/specialization.py\<close>:
  from the text of a record file, the values every call agreed on, the values that differ between the
  ranks of a run, and the aliases the calls reported. The text of a file is a parameter (\<open>None\<close> when the
  file is not there). Floating-point numbers are a type of their own, read and compared by functions of
  the context.
\<close>

section \<open>Values\<close>

datatype 'f pyvalue = VInt int | VFloat 'f

text \<open>What Python's floats provide: \<open>float(text)\<close>, equality with other values, \<open>str\<close>, \<open>repr\<close>, \<open>math.isfinite\<close>,
  the truth value, \<open>float(int)\<close> and \<open>int(float)\<close> (\<open>None\<close> where they raise).\<close>

record 'f float_ops =
  fo_parse :: "string \<Rightarrow> 'f option"
  fo_eq :: "'f pyvalue \<Rightarrow> 'f pyvalue \<Rightarrow> bool"
  fo_str :: "'f \<Rightarrow> string"
  fo_finite :: "'f \<Rightarrow> bool"
  fo_true :: "'f \<Rightarrow> bool"
  fo_of_int :: "int \<Rightarrow> 'f option"
  fo_to_int :: "'f \<Rightarrow> int option"

definition value_eq :: "'f float_ops \<Rightarrow> 'f pyvalue \<Rightarrow> 'f pyvalue \<Rightarrow> bool" where
  "value_eq ops x y = (case (x, y) of (VInt i, VInt j) \<Rightarrow> i = j | _ \<Rightarrow> fo_eq ops x y)"

definition value_str :: "'f float_ops \<Rightarrow> 'f pyvalue \<Rightarrow> string" where
  "value_str ops v = (case v of VInt i \<Rightarrow> str_int i | VFloat f \<Rightarrow> fo_str ops f)"

text \<open>\<open>_parse\<close>; \<open>None\<close> is a ValueError.\<close>

definition parse_value :: "'f float_ops \<Rightarrow> string \<Rightarrow> 'f pyvalue option" where
  "parse_value ops text =
     (case py_int text of
        Some i \<Rightarrow> Some (VInt i)
      | None \<Rightarrow> map_option VFloat (fo_parse ops (replace ''D'' ''E'' text)))"

text \<open>Adding to a set: an equal value that is there stays.\<close>

definition add_value :: "'f float_ops \<Rightarrow> 'f pyvalue \<Rightarrow> 'f pyvalue list \<Rightarrow> 'f pyvalue list" where
  "add_value ops v vs = (if list_ex (value_eq ops v) vs then vs else vs @ [v])"

section \<open>Values of a run\<close>

type_synonym 'f recorded = "(string \<times> 'f pyvalue list) list"

fun record_lines :: "'f float_ops \<Rightarrow> string list \<Rightarrow> 'f recorded \<Rightarrow> 'f recorded option" where
  "record_lines ops [] seen = Some seen"
| "record_lines ops (line # ls) seen =
     (case split_ws line of
        [n, v] \<Rightarrow>
          (case parse_value ops v of
             None \<Rightarrow> None
           | Some w \<Rightarrow> record_lines ops ls
               (AList.update n (add_value ops w (case map_of seen n of None \<Rightarrow> [] | Some vs \<Rightarrow> vs)) seen))
      | _ \<Rightarrow> record_lines ops ls seen)"

definition recorded_values :: "'f float_ops \<Rightarrow> string \<Rightarrow> 'f recorded option" where
  "recorded_values ops text = record_lines ops (splitlines text) []"

fun single_values :: "'f recorded \<Rightarrow> (string \<times> 'f pyvalue) list" where
  "single_values [] = []"
| "single_values ((n, vs) # rest) = (case vs of [v] \<Rightarrow> (n, v) # single_values rest | _ \<Rightarrow> single_values rest)"

definition recorded_invariants :: "'f float_ops \<Rightarrow> string \<Rightarrow> (string \<times> 'f pyvalue) list option" where
  "recorded_invariants ops text = map_option single_values (recorded_values ops text)"

fun all_some :: "'a option list \<Rightarrow> 'a list option" where
  "all_some [] = Some []"
| "all_some (x # xs) = (case x of None \<Rightarrow> None | Some y \<Rightarrow> map_option ((#) y) (all_some xs))"

text \<open>The values of a name on the ranks, each once.\<close>

definition rank_set :: "'f float_ops \<Rightarrow> (string \<times> 'f pyvalue) list list \<Rightarrow> string \<Rightarrow> 'f pyvalue list" where
  "rank_set ops per_rank name =
     foldl (\<lambda>vs r. case map_of r name of None \<Rightarrow> vs | Some v \<Rightarrow> add_value ops v vs) [] per_rank"

definition rank_names :: "(string \<times> 'f pyvalue) list list \<Rightarrow> string list" where
  "rank_names per_rank =
     (case per_rank of [] \<Rightarrow> [] | r # rs \<Rightarrow> sort (remdups (filter (\<lambda>n. list_all (\<lambda>r. map_of r n \<noteq> None) rs) (map fst r))))"

text \<open>\<open>files\<close> are the texts of the rank files, in the order of their names.\<close>

definition recorded_value_sets :: "'f float_ops \<Rightarrow> string list \<Rightarrow> (string \<times> 'f pyvalue list) list option" where
  "recorded_value_sets ops files =
     (if length files < 2 then Some []
      else map_option (\<lambda>per_rank.
        concat (map (\<lambda>n. let vs = rank_set ops per_rank n in
            if length vs > 1 then [(n, sort_key (value_str ops) vs)] else []) (rank_names per_rank)))
        (all_some (map (recorded_invariants ops) files)))"

definition recorded_rank_values :: "'f float_ops \<Rightarrow> string list \<Rightarrow> (string \<times> 'f pyvalue) list list option" where
  "recorded_rank_values ops files =
     (case recorded_value_sets ops files of
        None \<Rightarrow> None
      | Some [] \<Rightarrow> Some []
      | Some sets \<Rightarrow>
          (case all_some (map (recorded_invariants ops) files) of
             None \<Rightarrow> None
           | Some per_rank \<Rightarrow> all_some (map (\<lambda>r. all_some (map (\<lambda>(n, _). map_option (Pair n) (map_of r n)) sets)) per_rank)))"

section \<open>Aliases\<close>

text \<open>The open call is the last of the list; \<open>None\<close> is the ValueError of \<open>int\<close>.\<close>

fun alias_lines :: "string list \<Rightarrow> (string \<times> int \<times> string) list list \<Rightarrow> (string \<times> int \<times> string) list list option" where
  "alias_lines [] calls = Some calls"
| "alias_lines (line # ls) calls =
     (case split_ws line of
        [] \<Rightarrow> alias_lines ls (if last calls = [] then calls else calls @ [[]])
      | [k, img, el, arr] \<Rightarrow>
          if k = ''alias''
          then (case py_int el of None \<Rightarrow> None | Some i \<Rightarrow>
            alias_lines ls (butlast calls @ [List.insert (img, i, arr) (last calls)]))
          else alias_lines ls calls
      | _ \<Rightarrow> alias_lines ls calls)"

definition recorded_aliases :: "string option \<Rightarrow> (string \<times> int \<times> string) list option" where
  "recorded_aliases file =
     (case file of
        None \<Rightarrow> Some []
      | Some text \<Rightarrow> map_option (\<lambda>calls.
          (case filter (\<lambda>c. c \<noteq> []) calls of
             [] \<Rightarrow> []
           | c # cs \<Rightarrow> sort (filter (\<lambda>a. list_all (\<lambda>d. a \<in> set d) cs) c)))
          (alias_lines (splitlines text) [[]]))"

type_synonym member_alias = "string \<times> int \<times> string \<times> int"

fun same_lines :: "string list \<Rightarrow> member_alias list list \<Rightarrow> member_alias list list option" where
  "same_lines [] calls = Some calls"
| "same_lines (line # ls) calls =
     (case split_ws line of
        [] \<Rightarrow> same_lines ls (calls @ [[]])
      | [k, img, el, other, el'] \<Rightarrow>
          if k = ''same''
          then (case (py_int el, py_int el') of
              (Some i, Some j) \<Rightarrow> same_lines ls (butlast calls @ [List.insert (img, i, other, j) (last calls)])
            | _ \<Rightarrow> None)
          else same_lines ls calls
      | _ \<Rightarrow> same_lines ls calls)"

definition recorded_member_aliases :: "string option \<Rightarrow> member_alias list option" where
  "recorded_member_aliases file =
     (case file of
        None \<Rightarrow> Some []
      | Some text \<Rightarrow> map_option (\<lambda>calls.
          let calls = (if last calls = [] then butlast calls else calls) in
          (case calls of [] \<Rightarrow> [] | c # cs \<Rightarrow> if list_ex (\<lambda>d. set d \<noteq> set c) cs then [] else sort c))
          (same_lines (splitlines text) [[]]))"

section \<open>Lines and words\<close>

definition word :: "string \<Rightarrow> bool" where
  "word w = (w \<noteq> [] \<and> list_all (\<lambda>c. \<not> is_space c) w)"

lemma splitlines_keep_line:
  "\<forall>c \<in> set l. \<not> is_eol c \<Longrightarrow> splitlines_keep (l @ LF # s) = (l @ [LF]) # splitlines_keep s"
proof (induction l)
  case Nil
  have "is_eol LF" "LF \<noteq> CR" by code_simp+
  then show ?case by simp
next
  case (Cons c l)
  moreover have "is_eol CR" by code_simp
  ultimately have "c \<noteq> CR" "\<not> is_eol c" by auto
  with Cons show ?case by simp
qed

lemma splitlines_line:
  assumes "\<forall>c \<in> set l. \<not> is_eol c"
  shows "splitlines (l @ LF # s) = l # splitlines s"
proof -
  have e: "is_eol LF" "is_eol CR" by code_simp+
  then have "strip_eol (l @ [LF]) = l"
    using assms by (cases l rule: rev_cases) (auto simp: strip_eol_def butlast_append)
  then show ?thesis using splitlines_keep_line [OF assms] by (simp add: splitlines_def)
qed

lemma splitlines_lines:
  "\<forall>l \<in> set ls. \<forall>c \<in> set l. \<not> is_eol c \<Longrightarrow> splitlines (concat (map (\<lambda>l. l @ [LF]) ls)) = ls"
proof (induction ls)
  case Nil
  show ?case by (simp add: splitlines_def)
qed (simp add: splitlines_line)

lemma split_ws_word: "word w \<Longrightarrow> split_ws (w @ CHR '' '' # s) = w # split_ws s" "word w \<Longrightarrow> split_ws w = [w]"
proof -
  have *: "\<not> is_space c \<Longrightarrow> list_all (\<lambda>c. \<not> is_space c) u \<Longrightarrow>
      split_ws ((c # u) @ CHR '' '' # s) = (c # u) # split_ws s \<and> split_ws (c # u) = [c # u]" for c u
  proof (induction u arbitrary: c)
    case (Cons d u)
    then have "split_ws ((d # u) @ CHR '' '' # s) = (d # u) # split_ws s" "split_ws (d # u) = [d # u]" "\<not> is_space d"
      by auto
    with Cons.prems show ?case by simp
  qed simp
  show "word w \<Longrightarrow> split_ws (w @ CHR '' '' # s) = w # split_ws s" "word w \<Longrightarrow> split_ws w = [w]"
    using * by (cases w; auto simp: word_def)+
qed

lemma split_ws_words: "list_all word ws \<Longrightarrow> split_ws (join '' '' ws) = ws"
  by (induction ws rule: induct_list012) (simp_all add: split_ws_word)

lemma word_no_eol: "word w \<Longrightarrow> \<forall>c \<in> set w. \<not> is_eol c"
  by (auto simp: word_def list_all_iff is_eol_def is_space_def range_defs)

lemma words_no_eol: "list_all word ws \<Longrightarrow> \<forall>c \<in> set (join '' '' ws). \<not> is_eol c"
proof -
  have "\<not> is_eol CHR '' ''" by code_simp
  then show "list_all word ws \<Longrightarrow> \<forall>c \<in> set (join '' '' ws). \<not> is_eol c"
    by (induction ws rule: induct_list012) (auto dest: word_no_eol)
qed

lemma str_int_word: "word (str_int i)"
proof -
  have d: "is_digit c \<Longrightarrow> \<not> is_space c" for c by (rule digit_facts)
  have "\<not> is_space CHR ''-''" by code_simp
  moreover have "str_nat n \<noteq> []" for n by (subst str_nat.simps) simp
  ultimately show ?thesis
    using str_nat_digits d by (auto simp: word_def str_int_def list_all_iff)
qed

section \<open>The values every call agreed on\<close>

text \<open>The text a run writes: per call a line for each value and an empty line.\<close>

definition run_text :: "('a \<Rightarrow> string list) \<Rightarrow> 'a list list \<Rightarrow> string" where
  "run_text words calls =
     concat (map (\<lambda>l. l @ [LF]) (concat (map (\<lambda>c. map (\<lambda>x. join '' '' (words x)) c @ [[]]) calls)))"

lemma splitlines_run_text:
  assumes "\<forall>c \<in> set calls. \<forall>x \<in> set c. list_all word (words x)"
  shows "splitlines (run_text words calls) = concat (map (\<lambda>c. map (\<lambda>x. join '' '' (words x)) c @ [[]]) calls)"
  unfolding run_text_def by (rule splitlines_lines) (use assms in \<open>auto dest!: words_no_eol\<close>)

definition value_words :: "string \<times> int \<Rightarrow> string list" where
  "value_words p = [fst p, str_int (snd p)]"

definition note_value :: "'f float_ops \<Rightarrow> 'f recorded \<Rightarrow> string \<times> int \<Rightarrow> 'f recorded" where
  "note_value ops seen p =
     AList.update (fst p) (add_value ops (VInt (snd p)) (case map_of seen (fst p) of None \<Rightarrow> [] | Some vs \<Rightarrow> vs)) seen"

lemma record_lines_call:
  "\<forall>p \<in> set c. word (fst p) \<Longrightarrow>
     record_lines ops (map (\<lambda>x. join '' '' (value_words x)) c @ [] # rest) seen = record_lines ops rest (foldl (note_value ops) seen c)"
proof (induction c arbitrary: seen)
  case (Cons p c)
  then have w: "split_ws (join '' '' (value_words p)) = value_words p"
    by (intro split_ws_words) (simp add: value_words_def str_int_word)
  with Cons show ?case
    by (simp add: value_words_def parse_value_def note_value_def del: join.simps)
qed simp

lemma record_lines_calls:
  "\<forall>c \<in> set calls. \<forall>p \<in> set c. word (fst p) \<Longrightarrow>
     record_lines ops (concat (map (\<lambda>c. map (\<lambda>x. join '' '' (value_words x)) c @ [[]]) calls)) seen =
     Some (foldl (note_value ops) seen (concat calls))"
  by (induction calls arbitrary: seen) (simp_all add: record_lines_call)

text \<open>What has been noted: per name its values, each once.\<close>

definition noted :: "'f recorded \<Rightarrow> (string \<times> int) set \<Rightarrow> bool" where
  "noted seen ps \<longleftrightarrow> distinct (map fst seen) \<and>
     (\<forall>n. case map_of seen n of
        None \<Rightarrow> \<forall>i. (n, i) \<notin> ps
      | Some vs \<Rightarrow> vs \<noteq> [] \<and> distinct vs \<and> set vs = VInt ` {i. (n, i) \<in> ps})"

lemma add_value_ints:
  assumes "set vs = VInt ` A" and "distinct vs"
  shows "set (add_value ops (VInt i) vs) = VInt ` insert i A" "distinct (add_value ops (VInt i) vs)" "add_value ops (VInt i) vs \<noteq> []"
proof -
  have e: "value_eq ops (VInt i) v \<longleftrightarrow> v = VInt i" if "v \<in> set vs" for v
    using that assms(1) by (auto simp: value_eq_def)
  then have "list_ex (value_eq ops (VInt i)) vs \<longleftrightarrow> VInt i \<in> set vs" by (auto simp: list_ex_iff)
  then show "set (add_value ops (VInt i) vs) = VInt ` insert i A" "distinct (add_value ops (VInt i) vs)"
      "add_value ops (VInt i) vs \<noteq> []"
    using assms by (auto simp: add_value_def)
qed

lemma noted_step: "noted seen ps \<Longrightarrow> noted (note_value ops seen (n, i)) (insert (n, i) ps)"
proof -
  assume a: "noted seen ps"
  let ?old = "case map_of seen n of None \<Rightarrow> [] | Some vs \<Rightarrow> vs"
  have "set ?old = VInt ` {j. (n, j) \<in> ps} \<and> distinct ?old"
    using a by (auto simp: noted_def dest!: spec [of _ n] split: option.splits)
  then have o: "set ?old = VInt ` {j. (n, j) \<in> ps}" "distinct ?old" by simp_all
  have s: "{j. (n, j) \<in> insert (n, i) ps} = insert i {j. (n, j) \<in> ps}" by auto
  note v = add_value_ints [OF o, of ops i]
  show ?thesis
    unfolding noted_def
  proof (intro conjI allI)
    show "distinct (map fst (note_value ops seen (n, i)))"
      using a by (simp add: noted_def note_value_def distinct_update)
    fix m
    show "case map_of (note_value ops seen (n, i)) m of None \<Rightarrow> \<forall>j. (m, j) \<notin> insert (n, i) ps
      | Some vs \<Rightarrow> vs \<noteq> [] \<and> distinct vs \<and> set vs = VInt ` {j. (m, j) \<in> insert (n, i) ps}"
    proof (cases "m = n")
      case True
      then show ?thesis using v s by (simp add: note_value_def update_conv')
    next
      case False
      moreover have "case map_of seen m of None \<Rightarrow> \<forall>i. (m, i) \<notin> ps
        | Some vs \<Rightarrow> vs \<noteq> [] \<and> distinct vs \<and> set vs = VInt ` {i. (m, i) \<in> ps}"
        using a unfolding noted_def by blast
      ultimately show ?thesis by (simp add: note_value_def update_conv' split: option.splits)
    qed
  qed
qed

lemma noted_fold: "noted seen ps \<Longrightarrow> noted (foldl (note_value ops) seen qs) (ps \<union> set qs)"
proof (induction qs arbitrary: seen ps)
  case (Cons q qs)
  obtain n i where q: "q = (n, i)" by (cases q)
  from Cons.IH [OF noted_step [OF Cons.prems, of ops n i]] show ?case by (simp add: q)
qed simp

lemma single_values_keys: "fst ` set (single_values d) \<subseteq> fst ` set d"
proof (induction d)
  case (Cons p d)
  obtain m vs where "p = (m, vs)" by (cases p)
  with Cons show ?case by (simp split: list.split) blast
qed simp

lemma VInt_single: "VInt ` A = {v} \<longleftrightarrow> (\<exists>i. v = VInt i \<and> A = {i})"
proof
  assume a: "VInt ` A = {v}"
  then obtain i where i: "i \<in> A" "v = VInt i" by blast
  have "j = i" if "j \<in> A" for j
  proof -
    have "VInt j \<in> {v}" using that a by blast
    then show ?thesis using i(2) by simp
  qed
  then show "\<exists>i. v = VInt i \<and> A = {i}" using i by blast
qed auto

lemma single_values_of:
  "distinct (map fst d) \<Longrightarrow> map_of (single_values d) n = Some v \<longleftrightarrow> map_of d n = Some [v]"
proof (induction d)
  case (Cons p d)
  obtain m vs where p: "p = (m, vs)" by (cases p)
  have k: "n \<notin> fst ` set d \<Longrightarrow> map_of (single_values d) n = None"
    using single_values_keys [of d] by (metis map_of_eq_None_iff subsetD)
  show ?case
  proof (cases "m = n")
    case True
    with Cons.prems have "n \<notin> fst ` set d" by (auto simp: p)
    with k have "map_of (single_values d) n = None" by simp
    with True show ?thesis by (auto simp: p split: list.splits)
  next
    case False
    with Cons show ?thesis by (auto simp: p split: list.splits)
  qed
qed simp

text \<open>The invariants of a record are exactly the values that never changed: of the text a run writes,
  one line per integer value and an empty line per call, \<open>recorded_invariants\<close> returns a name with a
  value exactly when some call recorded that value for it and no call recorded another.\<close>

theorem recorded_invariants_of_run:
  assumes "\<forall>c \<in> set calls. \<forall>p \<in> set c. word (fst p)"
  shows "\<exists>inv. recorded_invariants ops (run_text value_words calls) = Some inv \<and>
    (\<forall>n v. map_of inv n = Some v \<longleftrightarrow> (\<exists>i. v = VInt i \<and> {j. \<exists>c \<in> set calls. (n, j) \<in> set c} = {i}))"
proof -
  let ?seen = "foldl (note_value ops) [] (concat calls)"
  have w: "\<forall>c \<in> set calls. \<forall>x \<in> set c. list_all word (value_words x)"
    using assms by (simp add: value_words_def str_int_word)
  have r: "recorded_invariants ops (run_text value_words calls) = Some (single_values ?seen)"
    by (simp add: recorded_invariants_def recorded_values_def splitlines_run_text [OF w] record_lines_calls [OF assms])
  have "noted [] {}" by (simp add: noted_def)
  from noted_fold [OF this, of ops "concat calls"] have no: "noted ?seen (set (concat calls))" by simp
  then have d: "distinct (map fst ?seen)" by (simp add: noted_def)
  have "map_of ?seen n = Some [v] \<longleftrightarrow> (\<exists>i. v = VInt i \<and> {j. \<exists>c \<in> set calls. (n, j) \<in> set c} = {i})" for n v
  proof -
    have e: "{j. (n, j) \<in> set (concat calls)} = {j. \<exists>c \<in> set calls. (n, j) \<in> set c}" by auto
    have n: "case map_of ?seen n of None \<Rightarrow> \<forall>i. (n, i) \<notin> set (concat calls)
        | Some vs \<Rightarrow> vs \<noteq> [] \<and> distinct vs \<and> set vs = VInt ` {i. (n, i) \<in> set (concat calls)}"
      using no unfolding noted_def by blast
    show ?thesis
    proof (cases "map_of ?seen n")
      case None
      with n have "{j. (n, j) \<in> set (concat calls)} = {}" by auto
      with None show ?thesis unfolding e by auto
    next
      case (Some vs)
      with n have vs: "vs \<noteq> []" "distinct vs" "set vs = VInt ` {j. \<exists>c \<in> set calls. (n, j) \<in> set c}" unfolding e by simp_all
      have "vs = [v] \<longleftrightarrow> set vs = {v}"
        using vs(1,2) by (cases vs) (auto, metis list.set_intros(1) neq_Nil_conv singletonD subsetD)
      also have "\<dots> \<longleftrightarrow> (\<exists>i. v = VInt i \<and> {j. \<exists>c \<in> set calls. (n, j) \<in> set c} = {i})"
        unfolding vs(3) by (rule VInt_single)
      finally show ?thesis using Some by simp
    qed
  qed
  then show ?thesis using r single_values_of [OF d] by auto
qed

definition ex_floats :: "unit float_ops" where
  "ex_floats = \<lparr>fo_parse = \<lambda>_. None, fo_eq = \<lambda>_ _. False, fo_str = \<lambda>_. [], fo_finite = \<lambda>_. True, fo_true = \<lambda>_. False,
     fo_of_int = \<lambda>_. None, fo_to_int = \<lambda>_. None\<rparr>"

theorem recorded_invariants_of_run_witness:
  "\<exists>inv. recorded_invariants ex_floats (run_text value_words [[(''n'', 4), (''t'', 1)], [(''n'', 4), (''t'', 2)]]) = Some inv \<and>
     map_of inv ''n'' = Some (VInt 4) \<and> map_of inv ''t'' = None"
proof -
  let ?calls = "[[(''n'', 4), (''t'', 1)], [(''n'', 4), (''t'', 2)]] :: (string \<times> int) list list"
  have "word ''n''" "word ''t''" by code_simp+
  then have "\<forall>c \<in> set ?calls. \<forall>p \<in> set c. word (fst p)" by simp
  from recorded_invariants_of_run [OF this, of ex_floats] obtain inv where
    r: "recorded_invariants ex_floats (run_text value_words ?calls) = Some inv"
    and m: "\<forall>n v. map_of inv n = Some v \<longleftrightarrow> (\<exists>i. v = VInt i \<and> {j. \<exists>c \<in> set ?calls. (n, j) \<in> set c} = {i})" by blast
  have "map_of inv ''n'' = Some (VInt 4)" using m by simp
  moreover have "map_of inv ''t'' = Some v \<Longrightarrow> False" for v
  proof -
    assume "map_of inv ''t'' = Some v"
    then obtain i where "{j :: int. j = 1 \<or> j = 2} = {i}" using m by auto
    then have "1 \<in> {i}" "2 \<in> {i}" by blast+
    then show False by simp
  qed
  ultimately show ?thesis using r by (metis not_Some_eq)
qed

section \<open>The aliases calls agreed on\<close>

definition alias_words :: "string \<times> int \<times> string \<Rightarrow> string list" where
  "alias_words a = [''alias'', fst a, str_int (fst (snd a)), snd (snd a)]"

definition alias_ok :: "string \<times> int \<times> string \<Rightarrow> bool" where
  "alias_ok a = (word (fst a) \<and> word (snd (snd a)))"

lemma alias_words_ok: "alias_ok a \<Longrightarrow> list_all word (alias_words a)"
proof -
  have "word ''alias''" by code_simp
  then show "alias_ok a \<Longrightarrow> list_all word (alias_words a)" by (simp add: alias_words_def alias_ok_def str_int_word)
qed

lemma alias_lines_call:
  "\<forall>a \<in> set c. alias_ok a \<Longrightarrow>
     alias_lines (map (\<lambda>x. join '' '' (alias_words x)) c @ rest) (prev @ [cur]) =
     alias_lines rest (prev @ [foldl (\<lambda>d a. List.insert a d) cur c])"
proof (induction c arbitrary: cur)
  case (Cons a c)
  then have "split_ws (join '' '' (alias_words a)) = alias_words a" by (intro split_ws_words alias_words_ok) simp
  with Cons show ?case by (simp add: alias_words_def del: join.simps)
qed simp

lemma foldl_insert_set: "set (foldl (\<lambda>d a. List.insert a d) cur c) = set cur \<union> set c"
  by (induction c arbitrary: cur) auto

lemma foldl_insert_distinct: "distinct cur \<Longrightarrow> distinct (foldl (\<lambda>d a. List.insert a d) cur c)"
  by (induction c arbitrary: cur) auto

text \<open>The calls that reported something, each without repetitions.\<close>

definition spoken :: "(string \<times> int \<times> string) list list \<Rightarrow> (string \<times> int \<times> string) list list" where
  "spoken calls = map (foldl (\<lambda>d a. List.insert a d) []) (filter (\<lambda>c. c \<noteq> []) calls)"

lemma alias_lines_calls:
  "\<forall>c \<in> set calls. \<forall>a \<in> set c. alias_ok a \<Longrightarrow>
     alias_lines (concat (map (\<lambda>c. map (\<lambda>x. join '' '' (alias_words x)) c @ [[]]) calls)) (prev @ [[]]) =
     Some (prev @ spoken calls @ [[]])"
proof (induction calls arbitrary: prev)
  case Nil
  show ?case by (simp add: spoken_def)
next
  case (Cons c calls)
  let ?c = "foldl (\<lambda>d a. List.insert a d) [] c"
  have e: "?c = [] \<longleftrightarrow> c = []" using foldl_insert_set [of "[]" c] by (metis set_empty sup_bot.left_neutral empty_set)
  have ih: "alias_lines (concat (map (\<lambda>c. map (\<lambda>x. join '' '' (alias_words x)) c @ [[]]) calls)) (p @ [[]]) = Some (p @ spoken calls @ [[]])" for p
    using Cons by simp
  have "alias_lines (concat (map (\<lambda>c. map (\<lambda>x. join '' '' (alias_words x)) c @ [[]]) (c # calls))) (prev @ [[]]) =
      alias_lines ([] # concat (map (\<lambda>c. map (\<lambda>x. join '' '' (alias_words x)) c @ [[]]) calls)) (prev @ [?c])"
    using Cons.prems by (simp add: alias_lines_call)
  also have "\<dots> = Some (prev @ spoken (c # calls) @ [[]])"
  proof (cases "c = []")
    case True
    then show ?thesis using ih [of prev] by (simp add: spoken_def)
  next
    case False
    with e have "?c \<noteq> []" by simp
    with False show ?thesis using ih [of "prev @ [?c]"] by (simp add: spoken_def)
  qed
  finally show ?case .
qed

text \<open>The aliases a run reports are not those of every call: of the text a run writes, the result holds
  exactly the aliases that all calls that reported any have in common; a call that reported none is
  passed over, although the alias did not hold in it.\<close>

theorem recorded_aliases_of_run:
  assumes "\<forall>c \<in> set calls. \<forall>a \<in> set c. alias_ok a"
  shows "\<exists>as. recorded_aliases (Some (run_text alias_words calls)) = Some as \<and> sorted as \<and> distinct as \<and>
    set as = {a. (\<exists>c \<in> set calls. a \<in> set c) \<and> (\<forall>c \<in> set calls. c \<noteq> [] \<longrightarrow> a \<in> set c)}"
proof -
  have "\<forall>c \<in> set calls. \<forall>x \<in> set c. list_all word (alias_words x)" using assms alias_words_ok by blast
  note t = splitlines_run_text [OF this]
  have l: "alias_lines (splitlines (run_text alias_words calls)) [[]] = Some (spoken calls @ [[]])"
    using alias_lines_calls [OF assms, of "[]"] by (simp add: t)
  let ?cs = "filter (\<lambda>c. c \<noteq> []) (spoken calls @ [[]])"
  have sp: "?cs = spoken calls"
  proof -
    have "foldl (\<lambda>d a. List.insert a d) [] c \<noteq> []" if "c \<noteq> []" for c :: "(string \<times> int \<times> string) list"
      using foldl_insert_set [of "[]" c] that by (metis list.set(1) set_empty sup_bot.left_neutral)
    then show ?thesis unfolding spoken_def by (auto simp: filter_id_conv)
  qed
  have sets: "set ` set (spoken calls) = set ` {c \<in> set calls. c \<noteq> []}"
    by (simp add: spoken_def image_image foldl_insert_set)
  define al where "al = (case spoken calls of [] \<Rightarrow> [] | c # cs \<Rightarrow> sort (filter (\<lambda>a. list_all (\<lambda>d. a \<in> set d) cs) c))"
  have r: "recorded_aliases (Some (run_text alias_words calls)) = Some al"
    by (simp add: recorded_aliases_def l sp [simplified] al_def)
  have d: "distinct c" if "c \<in> set (spoken calls)" for c
    using that by (auto simp: spoken_def foldl_insert_distinct)
  have "set al = {a. (\<exists>c \<in> set (spoken calls). a \<in> set c) \<and> (\<forall>c \<in> set (spoken calls). a \<in> set c)}"
    by (cases "spoken calls") (auto simp: al_def list_all_iff)
  also have "\<dots> = {a. (\<exists>s \<in> set ` set (spoken calls). a \<in> s) \<and> (\<forall>s \<in> set ` set (spoken calls). a \<in> s)}" by simp
  also have "\<dots> = {a. (\<exists>c \<in> set calls. a \<in> set c) \<and> (\<forall>c \<in> set calls. c \<noteq> [] \<longrightarrow> a \<in> set c)}"
    unfolding sets by auto
  finally have "set al = \<dots>" .
  moreover have "sorted al \<and> distinct al"
    using d by (cases "spoken calls") (auto simp: al_def)
  ultimately show ?thesis using r by blast
qed

theorem recorded_aliases_of_run_witness:
  "\<exists>as. recorded_aliases (Some (run_text alias_words [[(''g_sf'', 0, ''t'')], []])) = Some as \<and> set as = {(''g_sf'', 0, ''t'')}"
proof -
  let ?calls = "[[(''g_sf'', 0, ''t'')], []] :: (string \<times> int \<times> string) list list"
  have "word ''g_sf''" "word ''t''" by code_simp+
  then have "\<forall>c \<in> set ?calls. \<forall>a \<in> set c. alias_ok a" by (simp add: alias_ok_def)
  from recorded_aliases_of_run [OF this] show ?thesis by auto
qed

end
