(* ===== verification/Specialization.thy ===== *)
theory Specialization
  imports Symbol_Assigns Value_Records
begin

text \<open>
  The writing half of \<open>src/dace_fortran/bindings/specialization.py\<close>: which values a binding can record and
  check, the lines that record them in a sizing run, and the guard of a specialised binding, which
  computes the values the SDFG was built for and declines the call unless the caller holds them all.
\<close>

section \<open>What can be recorded\<close>

definition spec_symbols :: "frozen_signature \<Rightarrow> string list" where
  "spec_symbols s = filter (\<lambda>x. x \<noteq> ''dace_user_comm'' \<and> x \<noteq> ''dace_user_comm_size'') (fs_free_symbols s)"

type_synonym scalar_table = "(string \<times> (string \<times> string)) list"

definition scalar_source ::
  "(string \<times> module_origin) list \<Rightarrow> (string \<times> string) list \<Rightarrow> original_arg list \<Rightarrow> frozen_arg \<Rightarrow> (string \<times> string) option" where
  "scalar_source sources members dummies a =
     (let one_element = (fa_rank a = 0 \<or> fa_rank a = 1 \<and> fa_shape a = [''1'']) in
      if fa_is_written a \<or> \<not> one_element \<or> map_of FORTRAN_C_TYPE (fa_dtype a) = None \<or> startswith (fa_dtype a) ''complex'' then None
      else if map_of sources (fa_sdfg_name a) \<noteq> None then Some (module_value_expr (fa_sdfg_name a) members, fa_dtype a)
      else case last_by (\<lambda>d. lower (oa_name d)) dummies (lower (if fa_fortran_name a = [] then fa_sdfg_name a else fa_fortran_name a)) of
        None \<Rightarrow> None
      | Some d \<Rightarrow> if oa_rank d = 0 \<and> \<not> oa_optional d then Some (oa_name d, fa_dtype a) else None)"

definition scalar_sources :: "frozen_signature \<Rightarrow> original_interface \<Rightarrow> flatten_plan \<Rightarrow> scalar_table" where
  "scalar_sources s iface plan =
     (let sources = effective_module_sources s iface (Some plan); members = synthetic_members (Some plan) in
      foldl (\<lambda>out a. case scalar_source sources members (oi_args iface) a of
        None \<Rightarrow> out | Some e \<Rightarrow> AList.update (fa_sdfg_name a) e out) [] (fs_args s))"

definition SMALL_ARRAY :: nat where "SMALL_ARRAY = 16"

definition small_array_sources :: "frozen_signature \<Rightarrow> original_interface \<Rightarrow> flatten_plan \<Rightarrow> (string \<times> (string \<times> frozen_arg)) list" where
  "small_array_sources s iface plan =
     (let sources = effective_module_sources s iface (Some plan); members = synthetic_members (Some plan) in
      foldl (\<lambda>out a.
        if \<not> fa_is_written a \<and> fa_rank a = 1 \<and> fa_shape a \<noteq> [''1''] \<and> fa_dtype a \<in> {''int32'', ''int64''} \<and>
           map_of sources (fa_sdfg_name a) \<noteq> None \<and> map_of members (fa_sdfg_name a) = None
        then AList.update (fa_sdfg_name a) (module_value_expr (fa_sdfg_name a) members, a) out else out) [] (fs_args s))"

definition defined_lines :: "string \<Rightarrow> frozen_arg \<Rightarrow> string list \<Rightarrow> string list" where
  "defined_lines expr a lines =
     (if \<not> module_arg_may_be_unallocated a then lines
      else [concat [''if ('', present_query expr (fa_module_origin_pointer a), '') then'']] @ map (\<lambda>l. ''  '' @ l) lines @ [''end if''])"

section \<open>The record of a sizing run\<close>

definition quote :: string where "quote = [CHR 0x27]"

definition record_write :: "string \<Rightarrow> string \<Rightarrow> string \<Rightarrow> string" where
  "record_write name expr dtype =
     (let q = quote in
      if dtype \<in> set LOGICAL_DTYPES
      then concat [''write(dace_record_unit, '', q, ''(a, 1x, i0)'', q, '') '', q, name, q, '', merge(1, 0, '', expr, '')'']
      else if startswith dtype ''float''
      then concat [''write(dace_record_unit, '', q, ''(a, 1x, es25.17e3)'', q, '') '', q, name, q, '', '', expr]
      else concat [''write(dace_record_unit, '', q, ''(a, 1x, i0)'', q, '') '', q, name, q, '', '', expr])"

definition RANK_VARIABLES :: "string list" where
  "RANK_VARIABLES = [''OMPI_COMM_WORLD_RANK'', ''PMI_RANK'', ''SLURM_PROCID'']"

definition record_open_lines :: "string \<Rightarrow> string \<Rightarrow> bool \<Rightarrow> string list \<times> string list" where
  "record_open_lines unit path per_rank =
     (let q = quote; opened = (\<lambda>p. concat [''open(newunit='', unit, '', file='', p, '', position='', q, ''append'', q, '', action='', q, ''write'', q, '')'']) in
      if \<not> per_rank then ([], [opened path])
      else
        ([''character(len=32) :: dace_rank'', ''integer :: dace_rank_status''],
         [''dace_rank_status = 1''] @
         map (\<lambda>var. concat [''if (dace_rank_status /= 0) call get_environment_variable('', q, var, q,
           '', dace_rank, status=dace_rank_status)'']) RANK_VARIABLES @
         [''if (dace_rank_status == 0) then'',
          ''  '' @ opened (concat [path, '' // '', q, ''.'', q, '' // trim(dace_rank)'']),
          ''else'', ''  '' @ opened path, ''end if'']))"

definition record_array :: "string \<Rightarrow> string \<Rightarrow> string list" where
  "record_array name expr =
     (let q = quote in
      [concat [''if (size('', expr, '') <= '', str_nat SMALL_ARRAY, '') then''],
       concat [''  do dace_k = 1, size('', expr, '')''],
       concat [''    write(dace_record_unit, '', q, ''(2a, i0, a, 1x, i0)'', q, '') '', q, name, q, '', '', q, ''['', q, '', dace_k - 1, '',
         q, '']'', q, '', '', expr, ''(lbound('', expr, '', 1) + dace_k - 1)''],
       ''  end do'', ''end if''])"

definition render_symbol_record :: "frozen_signature \<Rightarrow> original_interface \<Rightarrow> flatten_plan \<Rightarrow> string \<Rightarrow> bool \<Rightarrow> string list" where
  "render_symbol_record s iface plan path per_rank =
     (let (declarations, opening) = record_open_lines ''dace_record_unit'' (concat [quote, path, quote]) per_rank;
          ind = map (\<lambda>l. ''      '' @ l) in
      [''    ! ----- Symbol record: the integer symbols and scalar inputs of this call -----'', ''    block'',
       ''      integer :: dace_record_unit, dace_k''] @ ind declarations @ ind opening @
      ind (map (\<lambda>x. record_write x x ''int64'') (spec_symbols s)) @
      ind (map (\<lambda>(n, (e, t)). record_write n e t) (scalar_sources s iface plan)) @
      concat (map (\<lambda>(n, (e, a)). ind (defined_lines e a (record_array n e))) (small_array_sources s iface plan)) @
      [concat [''      write(dace_record_unit, '', quote, ''(a)'', quote, '') '', quote, quote], ''      close(dace_record_unit)'', ''    end block''])"

definition decline_after_record :: "string list" where
  "decline_after_record =
     [''    ! Sizing run: the caller runs its own code.'', ''    if (present(dace_declined)) dace_declined = .true.'', ''    return'']"

section \<open>What a guard can check\<close>

definition guard_assign :: "nat \<Rightarrow> frozen_signature \<Rightarrow> original_interface \<Rightarrow> flatten_plan \<Rightarrow> string set \<Rightarrow> string \<Rightarrow>
    assign_error + string list option" where
  "guard_assign n s iface plan buffers x =
     (case last_by oa_name (oi_args iface) x of
        Some d \<Rightarrow> Inr (if \<not> oa_optional d \<and> oa_rank d = 0 then Some [] else None)
      | None \<Rightarrow>
          rbind (build_symbol_assigns n (s\<lparr>fs_free_symbols := [x]\<rparr>) plan (oa_name ` set (oi_args iface)) iface None []) (\<lambda>lines.
            let text = join [LF] lines in
            Inr (if lines = [] \<or> contains ''TODO'' text \<or> (\<exists>b \<in> buffers. buffer_derived [b] text) then None else Some lines)))"

fun guard_assigns_from :: "(string \<Rightarrow> assign_error + string list option) \<Rightarrow> string list \<Rightarrow> (string \<times> string list) list \<Rightarrow>
    assign_error + (string \<times> string list) list" where
  "guard_assigns_from f [] out = Inr out"
| "guard_assigns_from f (x # xs) out =
     rbind (f x) (\<lambda>r. guard_assigns_from f xs (case r of None \<Rightarrow> out | Some ls \<Rightarrow> AList.update x ls out))"

definition guard_assigns :: "nat \<Rightarrow> frozen_signature \<Rightarrow> original_interface \<Rightarrow> flatten_plan \<Rightarrow> string list \<Rightarrow>
    assign_error + (string \<times> string list) list" where
  "guard_assigns n s iface plan names =
     guard_assigns_from (guard_assign n s iface plan (buffer_local_names s iface plan)) names []"

definition specializable :: "nat \<Rightarrow> frozen_signature \<Rightarrow> original_interface \<Rightarrow> flatten_plan \<Rightarrow> assign_error + string set" where
  "specializable n s iface plan =
     rbind (guard_assigns n s iface plan (spec_symbols s)) (\<lambda>d.
       Inr (fst ` set d \<union> fst ` set (scalar_sources s iface plan)))"

section \<open>The guard\<close>

record 'f specialization =
  sp_values :: "(string \<times> 'f pyvalue) list"
  sp_frozen :: frozen_signature
  sp_arrays :: "(string \<times> int list) list"
  sp_per_rank :: "(string \<times> 'f pyvalue) list list"

definition guard_module_sources :: "'f specialization \<Rightarrow> original_interface \<Rightarrow> flatten_plan \<Rightarrow> (string \<times> module_origin) list" where
  "guard_module_sources spec iface plan =
     filter (\<lambda>(x, _). x \<in> fst ` set (sp_values spec) \<or> x \<in> fst ` set (sp_arrays spec))
       (effective_module_sources (sp_frozen spec) iface (Some plan))"

definition differs :: "'f float_ops \<Rightarrow> string \<Rightarrow> 'f pyvalue \<Rightarrow> string \<Rightarrow> string option" where
  "differs ops expr v dtype =
     (if dtype \<in> set LOGICAL_DTYPES
      then Some (concat [expr, '' .neqv. '', if (case v of VInt i \<Rightarrow> i \<noteq> 0 | VFloat f \<Rightarrow> fo_true ops f) then ''.true.'' else ''.false.''])
      else if startswith dtype ''float''
      then map_option (\<lambda>f. concat [expr, '' /= '', fo_str ops f, ''_'', if dtype = ''float32'' then ''c_float'' else ''c_double''])
        (case v of VInt i \<Rightarrow> fo_of_int ops i | VFloat f \<Rightarrow> Some f)
      else map_option (\<lambda>i. concat [expr, '' /= '', str_int i]) (case v of VInt i \<Rightarrow> Some i | VFloat f \<Rightarrow> fo_to_int ops f))"

datatype guard_error =
    Unguardable "string list"
  | NonFiniteValues "string list"
  | AssignFailed assign_error
  | NoConversion
  | NoSuchArray string

definition value_condition :: "'f float_ops \<Rightarrow> scalar_table \<Rightarrow> string \<times> 'f pyvalue \<Rightarrow> guard_error + string" where
  "value_condition ops scalars p =
     (let (expr, dtype) = (case map_of scalars (fst p) of None \<Rightarrow> (fst p, ''int64'') | Some e \<Rightarrow> e) in
      of_option NoConversion (differs ops expr (snd p) dtype))"

definition value_test :: "'f float_ops \<Rightarrow> scalar_table \<Rightarrow> string \<times> 'f pyvalue \<Rightarrow> guard_error + string" where
  "value_test ops scalars p =
     rbind (value_condition ops scalars p) (\<lambda>c.
       Inr (concat [''      if ('', c, '') dace_mismatch = '', quote, fst p, quote]))"

definition holds_line :: "string \<Rightarrow> int list \<Rightarrow> string" where
  "holds_line expr elements =
     concat [''if (size('', expr, '') == '', str_nat (length elements), '') dace_holds = all('', expr, '' == ['',
       join '', '' (map str_int elements), ''])'']"

definition array_test :: "(string \<times> (string \<times> frozen_arg)) list \<Rightarrow> string \<times> int list \<Rightarrow> guard_error + string list" where
  "array_test sources p =
     (case map_of sources (fst p) of
        None \<Rightarrow> Inl (NoSuchArray (fst p))
      | Some (expr, a) \<Rightarrow>
          Inr ([''      dace_holds = .false.''] @
            map (\<lambda>l. ''      '' @ l) (defined_lines expr a [holds_line expr (snd p)]) @
            [concat [''      if (.not. dace_holds) dace_mismatch = '', quote, fst p, quote]]))"

definition rank_test :: "'f float_ops \<Rightarrow> scalar_table \<Rightarrow> (string \<times> 'f pyvalue) list \<Rightarrow> guard_error + string list" where
  "rank_test ops scalars values =
     rbind (rmap (value_condition ops scalars) values) (\<lambda>cs.
       Inr ([''      dace_this_rank = .true.''] @
         map (\<lambda>c. concat [''      if ('', c, '') dace_this_rank = .false.'']) cs @
         [''      if (dace_this_rank) dace_some_rank = .true.'']))"

definition rank_label :: string where "rank_label = ''the values of every recorded rank''"

definition guard_tail :: "string \<Rightarrow> string list" where
  "guard_tail entry =
     (let q = quote in
      [concat [''      if (dace_mismatch /= '', q, q, '') then''],
       ''        if (present(dace_declined)) then'',
       concat [''          if (.not. dace_said) write(0, '', q, ''(3a)'', q, '') '', q, entry, ''_dace declines: '', q, '', trim(dace_mismatch), &''],
       concat [''            '', q, '' does not hold the value the SDFG was specialised to'', q],
       ''          dace_said = .true.'', ''          dace_declined = .true.'', ''          return'', ''        end if'',
       concat [''        write(*, '', q, ''(3a)'', q, '') '', q, entry, ''_dace: '', q, '', trim(dace_mismatch), &''],
       concat [''          '', q, '' does not hold the value the SDFG was specialised to'', q],
       ''        error stop'', ''      end if'', ''    end block''])"

definition guard_names :: "'f specialization \<Rightarrow> string list" where
  "guard_names spec = map fst (sp_values spec) @ sort (remdups (map fst (concat (sp_per_rank spec))))"

definition guard_body_lines :: "'f float_ops \<Rightarrow> 'f specialization \<Rightarrow> scalar_table \<Rightarrow> (string \<times> (string \<times> frozen_arg)) list \<Rightarrow>
    guard_error + string list" where
  "guard_body_lines ops spec scalars sources =
     rbind (rmap (value_test ops scalars) (sp_values spec)) (\<lambda>tests.
     rbind (rmap (array_test sources) (sp_arrays spec)) (\<lambda>arrays.
     rbind (rmap (rank_test ops scalars) (sp_per_rank spec)) (\<lambda>ranks.
       Inr (tests @ concat arrays @
         (if sp_per_rank spec = [] then []
          else [''      dace_some_rank = .false.''] @ concat ranks @
            [concat [''      if (.not. dace_some_rank) dace_mismatch = '', quote, rank_label, quote]])))))"

definition build_specialization_guard :: "nat \<Rightarrow> 'f float_ops \<Rightarrow> 'f specialization \<Rightarrow> original_interface \<Rightarrow> flatten_plan \<Rightarrow>
    guard_error + string list" where
  "build_specialization_guard n ops spec iface plan =
     (let s = sp_frozen spec; scalars = scalar_sources s iface plan; names = guard_names spec in
      case guard_assigns n s iface plan (filter (\<lambda>x. x \<notin> fst ` set scalars) names) of
        Inl e \<Rightarrow> Inl (AssignFailed e)
      | Inr tbl \<Rightarrow>
          let unguardable = sort (remdups (filter (\<lambda>x. x \<notin> fst ` set tbl \<and> x \<notin> fst ` set scalars) names));
              bad = sort (map fst (filter (\<lambda>(x, v). case v of VInt _ \<Rightarrow> False | VFloat f \<Rightarrow> \<not> fo_finite ops f) (sp_values spec)));
              head = [''    ! ----- Specialisation guard: the SDFG holds these values -----'',
                      ''    if (present(dace_declined)) dace_declined = .false.''];
              lines_of = (\<lambda>x. case map_of tbl x of None \<Rightarrow> [] | Some ls \<Rightarrow> ls)
          in if unguardable \<noteq> [] then Inl (Unguardable unguardable)
          else if bad \<noteq> [] then Inl (NonFiniteValues bad)
          else if sp_values spec = [] \<and> sp_arrays spec = [] \<and> sp_per_rank spec = [] then Inr head
          else
            let width = Max (set (map length (map fst (sp_values spec) @ map fst (sp_arrays spec) @
                  (if sp_per_rank spec \<noteq> [] then [rank_label] else []))))
            in rbind (guard_body_lines ops spec scalars (small_array_sources s iface plan)) (\<lambda>body.
              Inr (head @ [''    block''] @
                map (\<lambda>x. ''      integer(c_int64_t) :: '' @ x) (filter (\<lambda>x. lines_of x \<noteq> []) names) @
                [concat [''      character(len='', str_nat width, '') :: dace_mismatch'']] @
                (if sp_arrays spec \<noteq> [] then [''      logical :: dace_holds''] else []) @
                (if sp_per_rank spec \<noteq> [] then [''      logical :: dace_this_rank, dace_some_rank''] else []) @
                [''      logical, save :: dace_said = .false.'', concat [''      dace_mismatch = '', quote, quote]] @
                concat (map (\<lambda>x. map (\<lambda>l. ''  '' @ l) (lines_of x)) names) @ body @ guard_tail (oi_entry iface))))"

section \<open>When there is a guard\<close>

lemma is_ok_rmap: "is_ok (rmap f xs) \<longleftrightarrow> (\<forall>x \<in> set xs. is_ok (f x))"
  by (induction xs) (auto simp: is_ok_iff rbind_Inr_iff)

lemma is_ok_rbind_Inr: "is_ok (rbind r (\<lambda>x. Inr (f x))) \<longleftrightarrow> is_ok r"
  by (cases r) simp_all

lemma guard_body_ok:
  "is_ok (guard_body_lines ops spec scalars sources) \<longleftrightarrow>
     (\<forall>p \<in> set (sp_values spec). is_ok (value_condition ops scalars p)) \<and>
     (\<forall>p \<in> set (sp_arrays spec). map_of sources (fst p) \<noteq> None) \<and>
     (\<forall>ps \<in> set (sp_per_rank spec). \<forall>p \<in> set ps. is_ok (value_condition ops scalars p))"
proof -
  have v: "is_ok (value_test ops scalars p) \<longleftrightarrow> is_ok (value_condition ops scalars p)" for p
    by (simp add: value_test_def is_ok_rbind_Inr)
  have a: "is_ok (array_test sources p) \<longleftrightarrow> map_of sources (fst p) \<noteq> None" for p
    by (simp add: array_test_def split: option.split)
  have r: "is_ok (rank_test ops scalars ps) \<longleftrightarrow> (\<forall>p \<in> set ps. is_ok (value_condition ops scalars p))" for ps
    by (simp add: rank_test_def is_ok_rbind_Inr is_ok_rmap)
  have three: "is_ok (rbind x (\<lambda>t. rbind y (\<lambda>u. rbind z (\<lambda>w. Inr (f t u w))))) \<longleftrightarrow> is_ok x \<and> is_ok y \<and> is_ok z"
    for x :: "guard_error + 'x" and y :: "guard_error + 'y" and z :: "guard_error + 'z" and f :: "'x \<Rightarrow> 'y \<Rightarrow> 'z \<Rightarrow> 'w"
    by (cases x; cases y; cases z) simp_all
  show ?thesis unfolding guard_body_lines_def three is_ok_rmap v a r ..
qed

lemma sort_Nil: "sort xs = [] \<longleftrightarrow> xs = []"
  by (metis length_0_conv length_sort)

lemma guard_ok:
  "is_ok (build_specialization_guard n ops spec iface plan) \<longleftrightarrow>
     (\<exists>tbl. guard_assigns n (sp_frozen spec) iface plan
         (filter (\<lambda>x. x \<notin> fst ` set (scalar_sources (sp_frozen spec) iface plan)) (guard_names spec)) = Inr tbl \<and>
       (\<forall>x \<in> set (guard_names spec). x \<in> fst ` set tbl \<union> fst ` set (scalar_sources (sp_frozen spec) iface plan))) \<and>
     (\<forall>(x, v) \<in> set (sp_values spec). case v of VInt _ \<Rightarrow> True | VFloat f \<Rightarrow> fo_finite ops f) \<and>
     is_ok (guard_body_lines ops spec (scalar_sources (sp_frozen spec) iface plan)
       (small_array_sources (sp_frozen spec) iface plan))"
proof -
  let ?sc = "scalar_sources (sp_frozen spec) iface plan" and ?src = "small_array_sources (sp_frozen spec) iface plan"
  let ?bad = "filter (\<lambda>(x, v). case v of VInt _ \<Rightarrow> False | VFloat f \<Rightarrow> \<not> fo_finite ops f) (sp_values spec)"
  have bad: "sort (map fst ?bad) = [] \<longleftrightarrow> (\<forall>(x, v) \<in> set (sp_values spec). case v of VInt _ \<Rightarrow> True | VFloat f \<Rightarrow> fo_finite ops f)"
  proof -
    have "sort (map fst ?bad) = [] \<longleftrightarrow> ?bad = []" by (simp add: sort_Nil)
    also have "\<dots> \<longleftrightarrow> (\<forall>(x, v) \<in> set (sp_values spec). case v of VInt _ \<Rightarrow> True | VFloat f \<Rightarrow> fo_finite ops f)"
      by (auto simp: filter_empty_conv split: pyvalue.splits)
    finally show ?thesis .
  qed
  have un: "sort (remdups (filter (\<lambda>x. x \<notin> fst ` set tbl \<and> x \<notin> fst ` set ?sc) (guard_names spec))) = [] \<longleftrightarrow>
      (\<forall>x \<in> set (guard_names spec). x \<in> fst ` set tbl \<union> fst ` set ?sc)" for tbl :: "(string \<times> string list) list"
    unfolding sort_Nil by (auto simp: filter_empty_conv)
  have none: "is_ok (guard_body_lines ops spec ?sc ?src)"
    if "sp_values spec = [] \<and> sp_arrays spec = [] \<and> sp_per_rank spec = []"
    unfolding guard_body_ok using that by simp
  show ?thesis
  proof (cases "guard_assigns n (sp_frozen spec) iface plan (filter (\<lambda>x. x \<notin> fst ` set ?sc) (guard_names spec))")
    case (Inl e)
    then show ?thesis by (simp add: build_specialization_guard_def Let_def)
  next
    case (Inr tbl)
    show ?thesis
      unfolding build_specialization_guard_def Let_def Inr sum.case un bad [symmetric] sum.inject
      using none un [of tbl] by (auto simp: is_ok_rbind_Inr)
  qed
qed

section \<open>What the guard does\<close>

lemma guard_assigns_from_mem:
  assumes "guard_assigns_from f xs out = Inr tbl" and "(x, ls) \<in> set tbl"
  shows "(x, ls) \<in> set out \<or> x \<in> set xs \<and> f x = Inr (Some ls)"
  using assms
proof (induction xs arbitrary: out)
  case (Cons y ys)
  from Cons.prems(1) obtain r where r: "f y = Inr r"
    "guard_assigns_from f ys (case r of None \<Rightarrow> out | Some ls \<Rightarrow> AList.update y ls out) = Inr tbl"
    by (auto simp: rbind_Inr_iff)
  have upd: "(x, ls) \<in> set (AList.update k v d) \<Longrightarrow> (x, ls) \<in> set d \<or> x = k \<and> ls = v" for k v d
    by (induction d) (auto split: if_splits)
  from Cons.IH [OF r(2) Cons.prems(2)] show ?case
    using r(1) upd by (cases r) auto
qed simp

lemma guard_lines_of:
  assumes "guard_assigns n s iface plan names = Inr tbl" and "map_of tbl x = Some ls" and "ref_head x"
  shows "neutral ls"
proof -
  from assms(2) have "(x, ls) \<in> set tbl" by (rule map_of_SomeD)
  from guard_assigns_from_mem [OF assms(1) [unfolded guard_assigns_def] this]
  have "guard_assign n s iface plan (buffer_local_names s iface plan) x = Inr (Some ls)" by simp
  then consider "ls = []" | "build_symbol_assigns n (s\<lparr>fs_free_symbols := [x]\<rparr>) plan (oa_name ` set (oi_args iface)) iface None [] = Inr ls"
    by (auto simp: guard_assign_def rbind_Inr_iff Let_def split: option.splits if_splits)
  then show ?thesis
  proof cases
    case 2
    from symbol_lines_neutral [OF 2] assms(3) show ?thesis by simp
  qed simp
qed

lemma kind_if_quote: "line_kind (''if ('' @ x @ [CHR 0x27]) = Plain (''if ('' @ x @ [CHR 0x27])"
  using kind_if_line [of "x @ [CHR 0x27]"] by simp

lemma neutral_defined: "neutral ls \<Longrightarrow> neutral (map (\<lambda>l. ''      '' @ l) (defined_lines e a ls))"
proof -
  assume n: "neutral ls"
  have "neutral (map (\<lambda>l. ''  '' @ l) ls)" using n neutral_indent [of "\<lambda>l. ''  '' @ l" ls] by simp
  then have "neutral (defined_lines e a ls)"
    using n by (auto simp: defined_lines_def kinds intro!: neutralI)
  then show ?thesis using neutral_indent [of "\<lambda>l. ''      '' @ l"] by simp
qed

lemma neutral_value_tests: "rmap (value_test ops scalars) vs = Inr ts \<Longrightarrow> neutral ts"
proof (induction vs arbitrary: ts)
  case (Cons v vs)
  then obtain t ts' where t: "value_test ops scalars v = Inr t" "rmap (value_test ops scalars) vs = Inr ts'" "ts = t # ts'"
    by (auto simp: rbind_Inr_iff)
  then obtain c where "t = concat [''      if ('', c, '') dace_mismatch = '', quote, fst v, quote]"
    by (auto simp: value_test_def rbind_Inr_iff)
  then have "\<exists>s. line_kind t = Plain s"
    using kind_if_quote [of "c @ '') dace_mismatch = '' @ quote @ fst v"] by (simp add: quote_def)
  then have "neutral [t]" by (auto simp: neutral_def)
  from neutral_append [OF this Cons.IH [OF t(2)]] show ?case by (simp add: t(3))
qed simp

lemma neutral_concat_rmap:
  assumes "rmap f xs = Inr yss" and "\<And>x ys. f x = Inr ys \<Longrightarrow> neutral ys"
  shows "neutral (concat yss)"
  using assms(1)
proof (induction xs arbitrary: yss)
  case (Cons x xs)
  then obtain ys zss where x: "f x = Inr ys" "rmap f xs = Inr zss" "yss = ys # zss"
    by (auto simp: rbind_Inr_iff)
  from neutral_append [OF assms(2) [OF x(1)] Cons.IH [OF x(2)]] show ?case by (simp add: x(3))
qed simp

lemma neutral_array_test: "array_test sources p = Inr ls \<Longrightarrow> neutral ls"
proof -
  assume "array_test sources p = Inr ls"
  then obtain e a where ls: "ls = [''      dace_holds = .false.''] @ map (\<lambda>l. ''      '' @ l) (defined_lines e a [holds_line e (snd p)]) @
      [concat [''      if (.not. dace_holds) dace_mismatch = '', quote, fst p, quote]]"
    by (auto simp: array_test_def split: option.splits)
  have "neutral [holds_line e (snd p)]"
    by (intro neutralI) (simp add: holds_line_def kinds)
  note d = neutral_defined [OF this, of e a]
  have "neutral [''      dace_holds = .false.'']"
    "neutral [concat [''      if (.not. dace_holds) dace_mismatch = '', quote, fst p, quote]]"
    using kind_if_quote [of "''.not. dace_holds) dace_mismatch = '' @ quote @ fst p"]
    by (auto simp: kinds quote_def intro!: neutralI)
  with d show ?thesis unfolding ls by (intro neutral_append)
qed

lemma neutral_rank_test: "rank_test ops scalars vs = Inr ls \<Longrightarrow> neutral ls"
proof -
  assume "rank_test ops scalars vs = Inr ls"
  then obtain cs where ls: "ls = [''      dace_this_rank = .true.''] @
      map (\<lambda>c. concat [''      if ('', c, '') dace_this_rank = .false.'']) cs @ [''      if (dace_this_rank) dace_some_rank = .true.'']"
    by (auto simp: rank_test_def rbind_Inr_iff)
  have "neutral (map (\<lambda>c. concat [''      if ('', c, '') dace_this_rank = .false.'']) cs)"
    by (rule neutral_map) (simp add: kinds)
  moreover have "neutral [''      dace_this_rank = .true.'']" "neutral [''      if (dace_this_rank) dace_some_rank = .true.'']"
    by (auto simp: kinds intro!: neutralI)
  ultimately show ?thesis unfolding ls by (intro neutral_append)
qed

lemma kind_plain_words [simp]:
  "line_kind ''block'' = Plain ''block''" "line_kind ''end block'' = Plain ''end block''"
  "line_kind ''return'' = Plain ''return''" "line_kind ''error stop'' = Plain ''error stop''"
  "line_kind (CHR 0x27 # l) = Plain (CHR 0x27 # l)" "line_kind (CHR ''w'' # l) = Plain (CHR ''w'' # l)"
  "line_kind (CHR ''c'' # l) = Plain (CHR ''c'' # l)" "line_kind (CHR ''l'' # l) = Plain (CHR ''l'' # l)"
proof -
  show "line_kind ''block'' = Plain ''block''" "line_kind ''end block'' = Plain ''end block''"
    "line_kind ''return'' = Plain ''return''" "line_kind ''error stop'' = Plain ''error stop''" by code_simp+
  have "\<not> is_space CHR 0x27" "\<not> is_space CHR ''w''" "\<not> is_space CHR ''c''" "\<not> is_space CHR ''l''" by code_simp+
  then show "line_kind (CHR 0x27 # l) = Plain (CHR 0x27 # l)" "line_kind (CHR ''w'' # l) = Plain (CHR ''w'' # l)"
    "line_kind (CHR ''c'' # l) = Plain (CHR ''c'' # l)" "line_kind (CHR ''l'' # l) = Plain (CHR ''l'' # l)"
    by (simp_all add: kind_other)
qed

lemma neutral_guard_tail: "neutral (guard_tail entry)"
  unfolding guard_tail_def Let_def quote_def
  by (intro neutralI) (simp add: kinds)

lemma neutral_guard_body:
  assumes "guard_body_lines ops spec scalars sources = Inr ls"
  shows "neutral ls"
proof -
  from assms obtain ts as rs where t: "rmap (value_test ops scalars) (sp_values spec) = Inr ts"
    and a: "rmap (array_test sources) (sp_arrays spec) = Inr as"
    and r: "rmap (rank_test ops scalars) (sp_per_rank spec) = Inr rs"
    and ls: "ls = ts @ concat as @
         (if sp_per_rank spec = [] then []
          else [''      dace_some_rank = .false.''] @ concat rs @
            [concat [''      if (.not. dace_some_rank) dace_mismatch = '', quote, rank_label, quote]])"
    by (auto simp: guard_body_lines_def rbind_Inr_iff)
  have k: "line_kind (''if ('' @ ''.not. dace_some_rank) dace_mismatch = '' @ quote @ rank_label @ quote) =
      Plain (''if ('' @ ''.not. dace_some_rank) dace_mismatch = '' @ quote @ rank_label @ quote)"
    using kind_if_quote [of "''.not. dace_some_rank) dace_mismatch = '' @ quote @ rank_label"]
    unfolding quote_def by simp
  have "neutral [''      dace_some_rank = .false.'']" by (intro neutralI) (simp add: kinds)
  moreover have "neutral [concat [''      if (.not. dace_some_rank) dace_mismatch = '', quote, rank_label, quote]]"
    by (intro neutralI) (use k in \<open>simp add: kinds\<close>)
  ultimately have "neutral (if sp_per_rank spec = [] then []
          else [''      dace_some_rank = .false.''] @ concat rs @
            [concat [''      if (.not. dace_some_rank) dace_mismatch = '', quote, rank_label, quote]])"
    using neutral_append neutral_concat_rmap [OF r neutral_rank_test, of "\<lambda>_ _. ops" "\<lambda>_ _. scalars" "\<lambda>x _. x"]
    by (simp only: neutral_Nil split: if_split) blast
  then show ?thesis unfolding ls
    by (intro neutral_append neutral_value_tests [OF t] neutral_concat_rmap [OF a neutral_array_test]) 
qed

lemma neutral_guard_head:
  "neutral [''    ! ----- Specialisation guard: the SDFG holds these values -----'',
     ''    if (present(dace_declined)) dace_declined = .false.'']"
  by (intro neutralI) (simp add: kinds)

lemma neutral_guard_assigns:
  assumes "guard_assigns n s iface plan names = Inr tbl" and "\<forall>x \<in> set xs. ref_head x"
  shows "neutral (concat (map (\<lambda>x. map (\<lambda>l. ''  '' @ l) (case map_of tbl x of None \<Rightarrow> [] | Some ls \<Rightarrow> ls)) xs))"
proof (rule neutral_concat)
  fix x assume "x \<in> set xs"
  with assms(2) have r: "ref_head x" by blast
  have "neutral (case map_of tbl x of None \<Rightarrow> [] | Some ls \<Rightarrow> ls)"
    using guard_lines_of [OF assms(1) _ r] by (simp split: option.split)
  then show "neutral (map (\<lambda>l. ''  '' @ l) (case map_of tbl x of None \<Rightarrow> [] | Some ls \<Rightarrow> ls))"
    using neutral_indent [of "\<lambda>l. ''  '' @ l"] by simp
qed

text \<open>The parts of a guard, in order.\<close>

lemma guard_parts:
  assumes "build_specialization_guard n ops spec iface plan = Inr lines"
    and "sp_values spec \<noteq> [] \<or> sp_arrays spec \<noteq> [] \<or> sp_per_rank spec \<noteq> []"
  obtains tbl body decls where
    "guard_assigns n (sp_frozen spec) iface plan
       (filter (\<lambda>x. x \<notin> fst ` set (scalar_sources (sp_frozen spec) iface plan)) (guard_names spec)) = Inr tbl"
    "guard_body_lines ops spec (scalar_sources (sp_frozen spec) iface plan) (small_array_sources (sp_frozen spec) iface plan) = Inr body"
    "neutral decls"
    "lines = decls @ concat (map (\<lambda>x. map (\<lambda>l. ''  '' @ l) (case map_of tbl x of None \<Rightarrow> [] | Some ls \<Rightarrow> ls)) (guard_names spec)) @
       body @ guard_tail (oi_entry iface)"
proof -
  let ?sc = "scalar_sources (sp_frozen spec) iface plan" and ?src = "small_array_sources (sp_frozen spec) iface plan"
  have ne: "\<not> (sp_values spec = [] \<and> sp_arrays spec = [] \<and> sp_per_rank spec = [])" using assms(2) by blast
  obtain tbl where t: "guard_assigns n (sp_frozen spec) iface plan (filter (\<lambda>x. x \<notin> fst ` set ?sc) (guard_names spec)) = Inr tbl"
    using assms(1) by (cases "guard_assigns n (sp_frozen spec) iface plan (filter (\<lambda>x. x \<notin> fst ` set ?sc) (guard_names spec))")
      (simp_all add: build_specialization_guard_def Let_def)
  obtain body where b: "guard_body_lines ops spec ?sc ?src = Inr body"
    using assms(1) ne unfolding build_specialization_guard_def Let_def t sum.case
    by (auto simp: rbind_Inr_iff split: if_splits)
  let ?decls = "\<lambda>w xs. [''    ! ----- Specialisation guard: the SDFG holds these values -----'',
      ''    if (present(dace_declined)) dace_declined = .false.''] @ [''    block''] @
      map (\<lambda>x. ''      integer(c_int64_t) :: '' @ x) xs @
      [concat [''      character(len='', str_nat w, '') :: dace_mismatch'']] @
      (if sp_arrays spec \<noteq> [] then [''      logical :: dace_holds''] else []) @
      (if sp_per_rank spec \<noteq> [] then [''      logical :: dace_this_rank, dace_some_rank''] else []) @
      [''      logical, save :: dace_said = .false.'', concat [''      dace_mismatch = '', quote, quote]]"
  have "\<exists>w xs. lines = ?decls w xs @ concat (map (\<lambda>x. map (\<lambda>l. ''  '' @ l) (case map_of tbl x of None \<Rightarrow> [] | Some ls \<Rightarrow> ls)) (guard_names spec)) @
       body @ guard_tail (oi_entry iface)"
    using assms(1) ne unfolding build_specialization_guard_def Let_def t sum.case b rbind_simps
    by (simp only: if_False append_assoc split: if_splits)
      (simp_all only: simp_thms if_True if_False sum.inject sum.distinct append_Nil, blast+)
  then obtain w xs where l: "lines = ?decls w xs @ concat (map (\<lambda>x. map (\<lambda>l. ''  '' @ l) (case map_of tbl x of None \<Rightarrow> [] | Some ls \<Rightarrow> ls)) (guard_names spec)) @
       body @ guard_tail (oi_entry iface)" by blast
  have "neutral (?decls w xs)"
  proof (intro neutral_append)
    show "neutral (map (\<lambda>x. ''      integer(c_int64_t) :: '' @ x) xs)"
      by (rule neutral_map) (simp add: kinds)
  qed (use neutral_guard_head in \<open>auto simp: kinds quote_def intro!: neutralI\<close>)
  with t b l show ?thesis using that by blast
qed

lemma guard_table_entry:
  assumes "guard_assigns n s iface plan names = Inr tbl" and "x \<in> fst ` set tbl"
  obtains ls where "map_of tbl x = Some ls" "guard_assign n s iface plan (buffer_local_names s iface plan) x = Inr (Some ls)"
proof -
  from assms(2) obtain ls where ls: "map_of tbl x = Some ls" by (metis map_of_eq_None_iff not_None_eq)
  from guard_assigns_from_mem [OF assms(1) [unfolded guard_assigns_def] map_of_SomeD [OF this]] ls that
  show ?thesis by auto
qed

lemma concat_map_part: "x \<in> set xs \<Longrightarrow> \<exists>before after. concat (map f xs) = before @ f x @ after"
  by (metis concat.simps(2) concat_append list.simps(9) map_append split_list)

section \<open>Properties\<close>

text \<open>There is a guard exactly when every value can be checked: each name is a scalar input or a symbol
  whose assignment the wrapper can run before it has any buffer, every float is finite, every value
  converts to the type of what it is compared with, and every array is a small integer module array.
  Otherwise building the guard raises.\<close>

theorem guard_returns_iff:
  "is_ok (build_specialization_guard n ops spec iface plan) \<longleftrightarrow>
     (\<exists>tbl. guard_assigns n (sp_frozen spec) iface plan
         (filter (\<lambda>x. x \<notin> fst ` set (scalar_sources (sp_frozen spec) iface plan)) (guard_names spec)) = Inr tbl \<and>
       set (guard_names spec) \<subseteq> fst ` set tbl \<union> fst ` set (scalar_sources (sp_frozen spec) iface plan)) \<and>
     list_all (\<lambda>(x, v). case v of VInt _ \<Rightarrow> True | VFloat f \<Rightarrow> fo_finite ops f) (sp_values spec) \<and>
     list_all (\<lambda>p. is_ok (value_condition ops (scalar_sources (sp_frozen spec) iface plan) p)) (sp_values spec) \<and>
     list_all (\<lambda>p. map_of (small_array_sources (sp_frozen spec) iface plan) (fst p) \<noteq> None) (sp_arrays spec) \<and>
     list_all (list_all (\<lambda>p. is_ok (value_condition ops (scalar_sources (sp_frozen spec) iface plan) p))) (sp_per_rank spec)"
  unfolding guard_ok guard_body_ok list_all_iff subset_eq ..


definition ex_spec :: "unit specialization" where
  "ex_spec = \<lparr>sp_values = [(''u_d0'', VInt 4)], sp_frozen = ex_dim_sig, sp_arrays = [], sp_per_rank = []\<rparr>"

definition ex_guard_iface :: original_interface where
  "ex_guard_iface = ex_iface\<lparr>oi_args := [\<lparr>oa_name = ''u'', oa_fortran_type = ''real(c_double)'', oa_rank = 1,
     oa_shape = [''n''], oa_intent = ''in'', oa_optional = False, oa_struct_type = None, oa_passing = ''address''\<rparr>]\<rparr>"


end
