(* ===== verification/Shim.thy ===== *)
theory Shim
  imports Regex
begin

text \<open>
  \<open>src/dace_fortran/shim.py\<close>: normalising a Fortran shim so that every kernel launch has one ordering call
  in front of it. A shim is a list of lines; the patterns of the source are patterns of \<open>Regex\<close>.
  \<open>None\<close> is the \<open>IndexError\<close> of a continuation line at the end of the text.
\<close>

section \<open>Lines\<close>

definition launch_re :: regex where
  "launch_re = seqs [many re_space, lit ''call'', some1 re_space,
     Grp 1 (seqs [some1 re_word, lit ''_run'', opt (Seq (chr_re CHR ''_'') (Cls False [(120, 122)]))]),
     many re_space, chr_re CHR ''('', many re_space,
     Grp 2 (Seq (Alt (Seq (some1 re_word) (lit ''_state'')) (Seq (lit ''state_'') (some1 re_word)))
       (opt (seqs [chr_re CHR ''('', many (Cls True [(41, 41)]), chr_re CHR '')''])))]"

definition sync_re :: regex where
  "sync_re = seqs [many re_space, lit ''ierr'', many re_space, chr_re CHR ''='', many re_space, lit ''cudaDeviceSynchronize_()'']"

definition oneline_re :: regex where
  "oneline_re = seqs [many re_space, lit ''ierr'', many re_space, chr_re CHR ''='', many re_space, lit ''cudaDeviceSynchronize_()'',
     many re_space, chr_re CHR '';'', many re_space, lit ''call'', some1 re_space, lit ''chk('']"

text \<open>The name and the state expression of a launch.\<close>

definition launch :: "string \<Rightarrow> (string \<times> string) option" where
  "launch l = map_option (\<lambda>m. (grp0 m 1, grp0 m 2)) (re_match launch_re l)"

definition skipped :: "string \<Rightarrow> bool" where
  "skipped l = (strip l = [] \<or> startswith (strip l) ''!'')"

function statement_end :: "string list \<Rightarrow> nat \<Rightarrow> nat option" where
  "statement_end ls i =
     (if i < length ls then (if endswith (rstrip (ls ! i)) ''&'' then statement_end ls (i + 1) else Some i) else None)"
  by pat_completeness auto
termination by (relation "measure (\<lambda>(ls, i). length ls - i)") auto

function skip_blanks :: "string list \<Rightarrow> nat \<Rightarrow> nat" where
  "skip_blanks ls i = (if i < length ls \<and> skipped (ls ! i) then skip_blanks ls (i + 1) else i)"
  by pat_completeness auto
termination by (relation "measure (\<lambda>(ls, i). length ls - i)") auto

declare statement_end.simps [simp del] skip_blanks.simps [simp del]

definition tag_of :: "string \<Rightarrow> string" where
  "tag_of name = re_sub (\<lambda>_. []) (Seq (lit ''_run'') (Look True (Alt (chr_re CHR ''_'') Eol))) name"

function end_if_from :: "string list \<Rightarrow> nat \<Rightarrow> nat" where
  "end_if_from ls j = (if j < length ls \<and> strip (ls ! j) \<noteq> ''end if'' then end_if_from ls (j + 1) else j)"
  by pat_completeness auto
termination by (relation "measure (\<lambda>(ls, i). length ls - i)") auto

declare end_if_from.simps [simp del]

definition sync_span :: "string list \<Rightarrow> nat \<Rightarrow> (nat \<times> nat) option" where
  "sync_span ls i =
     (if re_match oneline_re (ls ! i) \<noteq> None then Some (i, i)
      else if re_match sync_re (ls ! i) = None then None
      else let j = skip_blanks ls (i + 1) in
        if length ls \<le> j \<or> strip (ls ! j) \<noteq> ''if (ierr /= 0) then'' then None
        else Some (i, end_if_from ls j))"

section \<open>The launches\<close>

definition tag_re :: "string \<Rightarrow> regex" where
  "tag_re call = seqs [many re_space, lit ''call'', some1 re_space, lit call, many re_space, chr_re CHR ''('',
     some1 (Cls True [(44, 44)]), chr_re CHR '','', many re_space, chr_re CHR 0x27,
     Grp 1 (some1 (Cls True [(39, 39)])), chr_re CHR 0x27, many re_space, chr_re CHR '')'']"

definition tag_call :: "string \<Rightarrow> string \<Rightarrow> string option" where
  "tag_call call l = map_option (\<lambda>m. grp0 m 1) (re_match (tag_re call) l)"

definition ordering_re :: "string \<Rightarrow> regex" where
  "ordering_re call = seqs [many re_space, lit ''call'', some1 re_space, lit call, many re_space, chr_re CHR ''('']"

definition order_line :: "string \<Rightarrow> string \<Rightarrow> string \<Rightarrow> string" where
  "order_line call state tag = concat [''    call '', call, ''('', state, '', '', [CHR 0x27], tag, [CHR 0x27], '')'']"

text \<open>The last line before line \<open>i\<close> that is no blank and no comment.\<close>

fun code_before :: "string list \<Rightarrow> nat \<Rightarrow> nat option" where
  "code_before ls 0 = None"
| "code_before ls (Suc b) = (if skipped (ls ! b) then code_before ls b else Some b)"

text \<open>The scan back through the output for the call to correct.\<close>

fun correct_first :: "(string \<Rightarrow> bool) \<Rightarrow> string \<Rightarrow> string list \<Rightarrow> string list option" where
  "correct_first P w [] = None"
| "correct_first P w (l # ls) = (if P l then Some (w # ls) else map_option ((#) l) (correct_first P w ls))"

definition correct_last :: "(string \<Rightarrow> bool) \<Rightarrow> string \<Rightarrow> string list \<Rightarrow> string list option" where
  "correct_last P w out = map_option rev (correct_first P w (rev out))"

type_synonym pass_state = "string list \<times> string list"  \<comment> \<open>the output, the rewrites\<close>

definition routed :: "string \<Rightarrow> string list \<Rightarrow> nat \<Rightarrow> string \<Rightarrow> nat option" where
  "routed call ls i tag =
     (case code_before ls i of None \<Rightarrow> None
      | Some b \<Rightarrow> if tag_call call (ls ! b) = Some tag then Some b else None)"

definition keep_launch :: "string \<Rightarrow> string list \<Rightarrow> nat \<Rightarrow> nat \<Rightarrow> string \<Rightarrow> string \<Rightarrow> pass_state \<Rightarrow> pass_state" where
  "keep_launch call ls i b state tag s =
     (let (out, rw) = s; want = order_line call state tag;
          (out, rw) = (if strip (ls ! b) \<noteq> strip want
            then (case correct_last (\<lambda>l. tag_call call l \<noteq> None) want out of
                    None \<Rightarrow> (out, rw)
                  | Some out' \<Rightarrow> (out', rw @ [concat [''corrected '', call, ''('', tag, '') -> '', state]]))
            else (out, rw))
      in (out @ [ls ! i], rw))"

text \<open>What an earlier placement left behind the launch: the last line of it, and a rewrite.\<close>

definition downstream :: "string \<Rightarrow> string list \<Rightarrow> nat \<Rightarrow> string \<Rightarrow> string \<Rightarrow> nat \<times> string list" where
  "downstream call ls lst state tag =
     (let j = skip_blanks ls (lst + 1) in
      if j < length ls then
        if re_match (ordering_re call) (ls ! j) \<noteq> None then
          (j, if strip (ls ! j) \<noteq> strip (order_line call state tag) then [concat [''corrected '', call, ''('', tag, '') -> '', state]] else [])
        else (case sync_span ls j of None \<Rightarrow> (lst, []) | Some (_, e) \<Rightarrow> (e, []))
      else (lst, []))"

definition put_call :: "string \<Rightarrow> string list \<Rightarrow> string list \<Rightarrow> nat \<Rightarrow> nat \<Rightarrow> string \<Rightarrow> string \<Rightarrow> pass_state \<Rightarrow> pass_state" where
  "put_call call comment ls i lst name state s =
     (let (out, rw) = s; tag = tag_of name in
      (out @ comment @ [order_line call state tag] @ take (lst + 1 - i) (drop i ls),
       rw @ snd (downstream call ls lst state tag) @ [concat [''inserted '', call, ''('', tag, '') before '', name]]))"

definition launch_step :: "string \<Rightarrow> string list \<Rightarrow> string list \<Rightarrow> nat \<Rightarrow> pass_state \<Rightarrow> (nat \<times> pass_state) option" where
  "launch_step call comment ls i s =
     (case launch (ls ! i) of
        None \<Rightarrow> Some (i + 1, fst s @ [ls ! i], snd s)
      | Some (name, state) \<Rightarrow>
          (case statement_end ls i of
             None \<Rightarrow> None
           | Some lst \<Rightarrow>
               (case routed call ls i (tag_of name) of
                  Some b \<Rightarrow> Some (i + 1, keep_launch call ls i b state (tag_of name) s)
                | None \<Rightarrow> Some (fst (downstream call ls lst state (tag_of name)) + 1, put_call call comment ls i lst name state s))))"

lemma skip_blanks_ge: "i \<le> skip_blanks ls i"
proof (induction ls i rule: skip_blanks.induct)
  case (1 ls i)
  then show ?case by (subst skip_blanks.simps) auto
qed

lemma end_if_ge: "i \<le> end_if_from ls i"
proof (induction ls i rule: end_if_from.induct)
  case (1 ls i)
  then show ?case by (subst end_if_from.simps) auto
qed

lemma statement_end_bounds: "statement_end ls i = Some e \<Longrightarrow> i \<le> e \<and> e < length ls"
proof (induction ls i rule: statement_end.induct)
  case (1 ls i)
  from "1.prems" show ?case
    by (subst (asm) statement_end.simps) (auto split: if_splits dest: "1.IH")
qed

lemma sync_span_ge: "sync_span ls i = Some (a, e) \<Longrightarrow> a = i \<and> i \<le> e"
  using skip_blanks_ge [of "i + 1" ls] end_if_ge [of "skip_blanks ls (i + 1)" ls]
  by (auto simp: sync_span_def Let_def split: if_splits)

lemma downstream_ge: "lst \<le> fst (downstream call ls lst state tag)"
  using skip_blanks_ge [of "lst + 1" ls] sync_span_ge [of ls "skip_blanks ls (lst + 1)"]
  by (fastforce simp: downstream_def Let_def split: option.split)

lemma launch_step_next:
  assumes "launch_step call comment ls i s = Some (i', s')"
  shows "i < i'"
proof (cases "launch (ls ! i)")
  case (Some p)
  obtain name state where p: "p = (name, state)" by (cases p)
  with Some assms obtain lst where lst: "statement_end ls i = Some lst"
    by (auto simp: launch_step_def split: option.splits)
  have "i \<le> fst (downstream call ls lst state (tag_of name))"
    using statement_end_bounds [OF lst] downstream_ge [of lst call ls state "tag_of name"] by linarith
  with Some p lst assms show ?thesis by (auto simp: launch_step_def split: option.splits)
qed (use assms in \<open>simp add: launch_step_def\<close>)

function pass_from :: "string \<Rightarrow> string list \<Rightarrow> string list \<Rightarrow> nat \<Rightarrow> pass_state \<Rightarrow> pass_state option" where
  "pass_from call comment ls i s =
     (if i < length ls then
        (case launch_step call comment ls i s of None \<Rightarrow> None | Some (i', s') \<Rightarrow> pass_from call comment ls i' s')
      else Some s)"
  by pat_completeness auto
termination
  by (relation "measure (\<lambda>(call, comment, ls, i, s). length ls - i)") (auto dest: launch_step_next)

declare pass_from.simps [simp del]

definition pass_launches :: "string \<Rightarrow> string list \<Rightarrow> string list \<Rightarrow> string list \<Rightarrow> pass_state option" where
  "pass_launches call comment ls rw = pass_from call comment ls 0 ([], rw)"

section \<open>The tails of the entries\<close>

definition proc_open_re :: "string \<Rightarrow> regex" where
  "proc_open_re kw = seqs [many re_space, lit kw, re_space]"

definition proc_end_re :: regex where
  "proc_end_re = seqs [many re_space, lit ''end '', alts [lit ''subroutine'', lit ''function'']]"

definition opens_proc :: "string \<Rightarrow> bool" where
  "opens_proc l = (re_match (proc_open_re ''subroutine'') l \<noteq> None \<or> re_match (proc_open_re ''function'') l \<noteq> None)"

function proc_end :: "string list \<Rightarrow> nat \<Rightarrow> nat" where
  "proc_end ls j = (if j < length ls \<and> re_match proc_end_re (ls ! j) = None then proc_end ls (j + 1) else j)"
  by pat_completeness auto
termination by (relation "measure (\<lambda>(ls, i). length ls - i)") auto

declare proc_end.simps [simp del]

text \<open>One entry: the synchronise that is its last line of code goes.\<close>

definition drop_tail_sync :: "string list \<Rightarrow> string list \<times> string list" where
  "drop_tail_sync body =
     (case code_before body (length body) of
        None \<Rightarrow> (body, [])
      | Some k \<Rightarrow>
          (case sync_span body k of
             None \<Rightarrow> (body, [])
           | Some (_, e) \<Rightarrow> (take k body @ drop (e + 1) body,
               [''dropped the entry-tail sync in '' @ take 44 (strip (hd body))])))"

text \<open>A line that opens a procedure ends none, so the entry has at least that line.\<close>

lemma opens_not_ends: "opens_proc l \<Longrightarrow> re_match proc_end_re l = None"
proof (rule ccontr)
  assume o: "opens_proc l" and e: "re_match proc_end_re l \<noteq> None"
  have sp: "\<not> is_space CHR ''s''" "\<not> is_space CHR ''f''" "\<not> is_space CHR ''e''" by code_simp+
  from match_lead_c [OF e [unfolded proc_end_re_def seqs.simps] sp(3)] obtain t where t: "lstrip l = CHR ''e'' # t" by blast
  from o consider "re_match (proc_open_re ''subroutine'') l \<noteq> None" | "re_match (proc_open_re ''function'') l \<noteq> None"
    by (auto simp: opens_proc_def)
  then show False
  proof cases
    case 1
    from match_lead_c [OF this [unfolded proc_open_re_def seqs.simps] sp(1)] t show False by simp
  next
    case 2
    from match_lead_c [OF this [unfolded proc_open_re_def seqs.simps] sp(2)] t show False by simp
  qed
qed

lemma proc_end_ge: "i \<le> proc_end ls i"
proof (induction ls i rule: proc_end.induct)
  case (1 ls i)
  then show ?case by (subst proc_end.simps) auto
qed

lemma proc_end_next: "i < length ls \<Longrightarrow> opens_proc (ls ! i) \<Longrightarrow> i < proc_end ls i"
  using proc_end_ge [of "i + 1" ls] by (subst proc_end.simps) (simp add: opens_not_ends)

function tails_from :: "string list \<Rightarrow> nat \<Rightarrow> pass_state \<Rightarrow> pass_state" where
  "tails_from ls i s =
     (if i < length ls then
        if opens_proc (ls ! i) then
          (let e = proc_end ls i; (body, rws) = drop_tail_sync (take (e - i) (drop i ls))
           in tails_from ls e (fst s @ body, snd s @ rws))
        else tails_from ls (i + 1) (fst s @ [ls ! i], snd s)
      else s)"
  by pat_completeness auto
termination
  by (relation "measure (\<lambda>(ls, i, s). length ls - i)") (use proc_end_next in \<open>auto intro: diff_less_mono2\<close>)

declare tails_from.simps [simp del]

definition pass_entry_tail :: "string list \<Rightarrow> string list \<Rightarrow> pass_state" where
  "pass_entry_tail ls rw = tails_from ls 0 ([], rw)"

section \<open>The whole text\<close>

definition contains_re :: regex where
  "contains_re = seqs [many re_space, lit ''contains'', Wordb]"

definition use_re :: regex where
  "use_re = seqs [many re_space, lit ''use'', re_space]"

text \<open>The import in the module header: before the first \<open>contains\<close>, after the last \<open>use\<close> there.\<close>

definition place_use :: "string \<Rightarrow> string list \<Rightarrow> pass_state" where
  "place_use use_line ls =
     (let u = strip use_line;
          head = length (takeWhile (\<lambda>l. re_match contains_re l = None) ls);
          strays = filter (contains u) (drop head ls);
          ls = take head ls @ filter (\<lambda>l. \<not> contains u l) (drop head ls);
          rw = (if strays \<noteq> [] then [concat [''moved a misplaced `'', u, ''` out of a subroutine'']] else [])
      in if list_ex (contains u) ls then (ls, rw)
         else
           let uses = filter (\<lambda>i. re_match use_re (ls ! i) \<noteq> None) [0..<head];
               at = (if uses \<noteq> [] then last uses + 1 else head)
           in (take at ls @ [use_line] @ drop at ls, rw @ [concat [''added `'', u, ''` to the module header'']]))"

definition sync_interface_re :: regex where
  "sync_interface_re = seqs [chr_re LF, many re_space, lit ''function cudaDeviceSynchronize_()'', Star False (Cls True []),
     chr_re LF, many re_space, lit ''end function'', chr_re LF]"

definition drop_interface :: "string \<Rightarrow> string" where
  "drop_interface text = (if re_search sync_re text = None then re_sub (\<lambda>_. [LF]) sync_interface_re text else text)"

definition route_launches :: "string \<Rightarrow> string \<Rightarrow> string list \<Rightarrow> string \<Rightarrow> (string \<times> string list) option" where
  "route_launches call use_line comment text =
     (case pass_launches call comment (split_on LF text) [] of
        None \<Rightarrow> None
      | Some (ls, rw) \<Rightarrow>
          (let (ls, rw) = pass_entry_tail ls rw; text = join [LF] ls in
           if contains (concat [''call '', call, ''('']) text
           then (let (ls, rw') = place_use use_line (split_on LF text) in Some (drop_interface (join [LF] ls), rw @ rw'))
           else Some (drop_interface text, rw)))"

section \<open>Facts about the lines\<close>

definition is_launch :: "string \<Rightarrow> bool" where
  "is_launch l = (launch l \<noteq> None)"

lemma rstrip_Cons: "\<not> is_space c \<Longrightarrow> rstrip (c # t) = c # rstrip t"
  by (simp add: rstrip_def dropWhile_append)

lemma strip_lead: "lstrip l = c # t \<Longrightarrow> strip l = c # rstrip t"
  by (metis dropWhile_eq_Cons_conv lstrip_def rstrip_Cons strip_def)

lemma skipped_lead: "skipped l \<Longrightarrow> lstrip l = c # t \<Longrightarrow> c = CHR ''!''"
  by (auto simp: skipped_def strip_lead startswith_def)

lemma not_space_letters [simp]: "\<not> is_space CHR ''c''" "\<not> is_space CHR ''i''" "\<not> is_space CHR ''e''"
  by code_simp+

lemma launch_lead: "launch l \<noteq> None \<Longrightarrow> \<exists>t. lstrip l = CHR ''c'' # t"
  unfolding launch_def launch_re_def seqs.simps by (rule match_lead_c) simp_all

lemma tag_call_lead: "tag_call call l \<noteq> None \<Longrightarrow> \<exists>t. lstrip l = CHR ''c'' # t"
  unfolding tag_call_def tag_re_def seqs.simps by (rule match_lead_c) simp_all

lemma sync_lead: "re_match sync_re l \<noteq> None \<Longrightarrow> \<exists>t. lstrip l = CHR ''i'' # t"
  unfolding sync_re_def seqs.simps by (rule match_lead_c) simp_all

lemma oneline_lead: "re_match oneline_re l \<noteq> None \<Longrightarrow> \<exists>t. lstrip l = CHR ''i'' # t"
  unfolding oneline_re_def seqs.simps by (rule match_lead_c) simp_all

lemma code_lines:
  "launch l \<noteq> None \<Longrightarrow> \<not> skipped l" "tag_call call l \<noteq> None \<Longrightarrow> \<not> skipped l"
  using launch_lead [of l] tag_call_lead [of call l] skipped_lead [of l] by fastforce+

lemma skipped_no_call: "skipped l \<Longrightarrow> launch l = None" "skipped l \<Longrightarrow> tag_call call l = None"
  using code_lines [of l] code_lines(2) [of call l] by blast+

section \<open>Ordering calls are recognised\<close>

lemma tag_call_order_line:
  assumes "st \<noteq> []" "CHR '','' \<notin> set st" "tag \<noteq> []" "CHR 0x27 \<notin> set tag" "list_all (\<lambda>c. \<not> is_space c) call"
  shows "tag_call call (order_line call st tag) = Some tag"
proof -
  have sp: "\<not> is_space CHR ''c''" "\<not> is_space CHR 0x27" "\<not> is_space CHR '')''" "\<not> is_space CHR ''(''" "is_space CHR '' ''"
    by code_simp+
  have cls: "in_cls True [(44, 44)] c \<longleftrightarrow> c \<noteq> CHR '',''" "in_cls True [(39, 39)] c \<longleftrightarrow> c \<noteq> CHR 0x27" for c
    using code_inject [of c "CHR '',''"] code_inject [of c "CHR 0x27"]
    by (auto simp: in_cls_def in_ranges_def code_def simp del: code_inject)
  have hd_call: "\<not> is_space (hd (call @ CHR ''('' # x))" for x
    using assms(5) sp by (cases call) simp_all
  have want: "order_line call st tag = ''    '' @ ''call'' @ '' '' @ call @ [] @ CHR ''('' # st @ CHR '','' # '' '' @ CHR 0x27 # tag @
      CHR 0x27 # [] @ [CHR '')'']"
    by (simp add: order_line_def)
  have "\<exists>p c. re_m (tag_re call) (None, order_line call st tag) [] (\<lambda>p' c'. Some (p', c')) = Some (p, [c]) \<and> fst c = 1 \<and> snd (snd c) = tag"
    unfolding tag_re_def seqs.simps want many_def re_space_def
    apply (intro exI conjI)
      apply (rule m_Seq, rule m_star, rule m_Seq, rule m_lit, rule m_Seq, rule m_some1, rule m_Seq, rule m_lit,
        rule m_Seq, rule m_star, rule m_Seq, rule m_chr, rule m_Seq, rule m_some1, rule m_Seq, rule m_chr,
        rule m_Seq, rule m_star, rule m_Seq, rule m_chr, rule m_Seq, rule m_Grp, rule m_some1, rule m_Seq, rule m_chr,
        rule m_Seq, rule m_star, rule m_chr, rule refl)
    using assms(2,4) by (auto simp: assms(1,3) hd_call sp cls in_cls_space list_all_iff mk_cap_def char_after_def)
  then obtain p n where "re_at (tag_re call) (None, order_line call st tag) = Some (p, [(1, n, tag)])"
    by (auto simp: re_at_def)
  then show ?thesis by (simp add: tag_call_def re_match_def mk_match_def grp0_def grp_def)
qed

section \<open>The parts of a launch\<close>

lemma launch_parts:
  assumes "launch l = Some (name, state)"
  shows "state \<noteq> []" "CHR 0x27 \<notin> set (tag_of name)"
proof -
  from assms obtain m where m: "re_match launch_re l = Some m" "name = grp0 m 1" "state = grp0 m 2"
    by (auto simp: launch_def)
  have cls: "in_cls False [(120, 122)] c \<Longrightarrow> is_word c" "in_cls False [(code d, code d)] c \<Longrightarrow> c = d" for c d
    by (auto simp: in_cls_def in_ranges_def is_word_def range_defs)
  have w: "is_word CHR ''_''" "is_word CHR ''r''" "is_word CHR ''u''" "is_word CHR ''n''" "\<not> is_word CHR 0x27" by code_simp+
  have "1 \<in> sure_groups launch_re" "2 \<in> sure_groups launch_re" by (simp_all add: launch_re_def)
  with m obtain t1 t2 where t: "grp m 1 = Some t1" "grp m 2 = Some t2"
    using re_match_sure [OF m(1)] by blast
  have "\<forall>r. (1, r) \<in> set (groups launch_re) \<longrightarrow> re_over is_word r"
    by (auto simp: launch_re_def re_build in_cls_word cls w dest!: cls(2))
  from groups_over [OF this m(1) t(1)] have "list_all is_word name" using t(1) by (simp add: m grp0_def)
  with w(5) have "CHR 0x27 \<notin> set name" by (auto simp: list_all_iff)
  then show "CHR 0x27 \<notin> set (tag_of name)" using sub_chars unfolding tag_of_def by blast
  have "\<forall>r. (2, r) \<in> set (groups launch_re) \<longrightarrow> re_nonnull r"
    by (auto simp: launch_re_def re_build)
  from groups_nonnull [OF this m(1) t(2)] show "state \<noteq> []" using t(2) by (simp add: m grp0_def)
qed

section \<open>Ordered texts\<close>

text \<open>The last line that is no blank and no comment, and what it must be in front of a launch.\<close>

definition last_code :: "string list \<Rightarrow> string option" where
  "last_code ls = (case dropWhile skipped (rev ls) of [] \<Rightarrow> None | l # _ \<Rightarrow> Some l)"

definition in_order :: "string \<Rightarrow> string option \<Rightarrow> string \<Rightarrow> bool" where
  "in_order call p l =
     (case launch l of None \<Rightarrow> True
      | Some (name, state) \<Rightarrow> (case p of None \<Rightarrow> False
          | Some q \<Rightarrow> tag_call call q = Some (tag_of name) \<and> strip q = strip (order_line call state (tag_of name))))"

fun ordered_after :: "string \<Rightarrow> string option \<Rightarrow> string list \<Rightarrow> bool" where
  "ordered_after call p [] = True"
| "ordered_after call p (l # ls) = (in_order call p l \<and> ordered_after call (if skipped l then p else Some l) ls)"

definition ordered :: "string \<Rightarrow> string list \<Rightarrow> bool" where
  "ordered call ls = ordered_after call None ls"

lemma last_code_snoc [simp]: "last_code (ls @ [l]) = (if skipped l then last_code ls else Some l)"
  by (simp add: last_code_def)

lemma last_code_Nil [simp]: "last_code [] = None"
  by (simp add: last_code_def)

lemma last_code_skipped: "list_all skipped ls \<Longrightarrow> last_code (xs @ ls) = last_code xs"
  by (induction ls rule: rev_induct) (simp_all flip: append_assoc)

lemma last_code_append: "last_code (xs @ ys) = (case last_code ys of None \<Rightarrow> last_code xs | Some q \<Rightarrow> Some q)"
  by (induction ys rule: rev_induct) (simp_all flip: append_assoc)

lemma last_code_Cons: "last_code (x # xs) = (case last_code xs of None \<Rightarrow> if skipped x then None else Some x | Some q \<Rightarrow> Some q)"
  using last_code_append [of "[x]" xs] last_code_snoc [of "[]" x] by (simp split: option.split)

lemma ordered_after_append:
  "ordered_after call p (xs @ ys) \<longleftrightarrow>
     ordered_after call p xs \<and> ordered_after call (case last_code xs of None \<Rightarrow> p | Some q \<Rightarrow> Some q) ys"
  by (induction xs arbitrary: p) (auto simp: last_code_Cons split: option.splits)

lemma ordered_append: "ordered call (xs @ ys) \<longleftrightarrow> ordered call xs \<and> ordered_after call (last_code xs) ys"
  unfolding ordered_def ordered_after_append by (cases "last_code xs") simp_all

lemma ordered_no_launch: "list_all (\<lambda>l. launch l = None) ls \<Longrightarrow> ordered_after call p ls"
  by (induction ls arbitrary: p) (simp_all add: in_order_def)

lemma code_before_take:
  "i \<le> length ls \<Longrightarrow> last_code (take i ls) = map_option ((!) ls) (code_before ls i)"
  by (induction i) (auto simp: take_Suc_conv_app_nth)

text \<open>Correcting the last ordering call of a text.\<close>

lemma correct_first_split:
  assumes "\<forall>l. skipped l \<longrightarrow> \<not> P l" and "dropWhile skipped ls = q # rest" and "P q"
  shows "correct_first P w ls = Some (takeWhile skipped ls @ w # rest)"
  using assms(2) by (induction ls) (use assms(1,3) in \<open>auto split: if_splits\<close>)

lemma correct_last_split:
  assumes "\<forall>l. skipped l \<longrightarrow> \<not> P l" and "last_code out = Some q" and "P q"
  obtains pre sk where "out = pre @ q # sk" "list_all skipped sk" "correct_last P w out = Some (pre @ w # sk)"
proof -
  from assms(2) obtain rest where d: "dropWhile skipped (rev out) = q # rest"
    by (auto simp: last_code_def split: list.splits)
  let ?sk = "takeWhile skipped (rev out)"
  have "rev out = ?sk @ q # rest" by (metis d takeWhile_dropWhile_id)
  then have "out = rev rest @ q # rev ?sk" by (metis rev_append rev.simps(2) rev_rev_ident append.assoc append_Cons append_Nil)
  moreover have "list_all skipped (rev ?sk)" by (auto simp: list_all_iff dest: set_takeWhileD)
  moreover have "correct_last P w out = Some (rev rest @ w # rev ?sk)"
    by (simp add: correct_last_def correct_first_split [OF assms(1) d assms(3)])
  ultimately show ?thesis using that by blast
qed

section \<open>Tidy texts\<close>

text \<open>
  What the pass relies on. A launch's state expression has no comma (the pattern for ordering calls ends
  the state at the first comma) and its tag is not empty; its statement ends and has no other launch in
  it; what is removed behind an unordered launch is inside the text, has no launch in it, and is not the
  ordering call of the launch that follows.
\<close>

definition launch_after :: "string list \<Rightarrow> nat \<Rightarrow> string option" where
  "launch_after ls i = (let j = skip_blanks ls i in if j < length ls then map_option fst (launch (ls ! j)) else None)"

definition no_launch :: "string list \<Rightarrow> nat \<Rightarrow> nat \<Rightarrow> bool" where
  "no_launch ls a b = list_all (\<lambda>k. launch (ls ! k) = None) [a..<b]"

definition tidy_launch :: "string \<Rightarrow> string list \<Rightarrow> nat \<Rightarrow> bool" where
  "tidy_launch call ls i =
     (case launch (ls ! i) of
        None \<Rightarrow> True
      | Some (name, state) \<Rightarrow>
          CHR '','' \<notin> set state \<and> tag_of name \<noteq> [] \<and> launch (order_line call state (tag_of name)) = None \<and>
          (case statement_end ls i of
             None \<Rightarrow> False
           | Some lst \<Rightarrow> no_launch ls (i + 1) (lst + 1) \<and>
               (routed call ls i (tag_of name) = None \<longrightarrow>
                 (let e = fst (downstream call ls lst state (tag_of name)) in
                  e < length ls \<and> no_launch ls (lst + 1) (e + 1) \<and>
                  (e = lst \<or> (case launch_after ls (e + 1) of None \<Rightarrow> True
                      | Some next \<Rightarrow> tag_call call (ls ! e) \<noteq> Some (tag_of next)))))))"

definition tidy :: "string \<Rightarrow> string list \<Rightarrow> bool" where
  "tidy call ls =
     (list_all (\<lambda>c. \<not> is_space c) call \<and> list_all (\<lambda>l. tag_call call l = None \<or> launch l = None) ls \<and>
      list_all (tidy_launch call ls) [0..<length ls])"

definition amp :: "string \<Rightarrow> bool" where
  "amp l = endswith (rstrip l) ''&''"

definition pass_inv :: "string \<Rightarrow> string list \<Rightarrow> nat \<Rightarrow> string list \<Rightarrow> bool" where
  "pass_inv call ls i out \<longleftrightarrow>
     i \<le> length ls \<and> ordered call out \<and> filter is_launch out = filter is_launch (take i ls) \<and>
     (\<forall>b name. code_before ls i = Some b \<longrightarrow> launch_after ls i = Some name \<longrightarrow>
        tag_call call (ls ! b) = Some (tag_of name) \<longrightarrow> last_code out = Some (ls ! b)) \<and>
     (out = [] \<longrightarrow> i = 0) \<and> (out \<noteq> [] \<longrightarrow> i \<noteq> 0 \<and> (last out = ls ! (i - 1) \<or> \<not> amp (last out)))"

lemma skip_blanks_step: "i < length ls \<Longrightarrow> skipped (ls ! i) \<Longrightarrow> skip_blanks ls (i + 1) = skip_blanks ls i"
  "i < length ls \<Longrightarrow> \<not> skipped (ls ! i) \<Longrightarrow> skip_blanks ls i = i"
  by (subst (2) skip_blanks.simps, simp) (subst skip_blanks.simps, simp)

lemma take_snoc: "i < length ls \<Longrightarrow> take (i + 1) ls = take i ls @ [ls ! i]"
  by (simp add: take_Suc_conv_app_nth)

lemma inv_plain:
  assumes "pass_inv call ls i out" and "i < length ls" and "launch (ls ! i) = None"
  shows "pass_inv call ls (i + 1) (out @ [ls ! i])"
proof -
  have "\<not> is_launch (ls ! i)" using assms(3) by (simp add: is_launch_def)
  moreover have "ordered call (out @ [ls ! i])"
    using assms(1,3) by (simp add: pass_inv_def ordered_append in_order_def)
  moreover have "last_code (out @ [ls ! i]) = Some (ls ! b)"
    if "code_before ls (i + 1) = Some b" "launch_after ls (i + 1) = Some name" "tag_call call (ls ! b) = Some (tag_of name)" for b name
  proof (cases "skipped (ls ! i)")
    case True
    then have "code_before ls i = Some b" "launch_after ls i = Some name"
      using that skip_blanks_step(1) [OF assms(2) True] by (simp_all add: launch_after_def)
    with assms(1) that(3) True show ?thesis by (simp add: pass_inv_def)
  qed (use that in simp)
  ultimately show ?thesis using assms(1,2) unfolding pass_inv_def take_snoc [OF assms(2)] by simp
qed

lemma launch_after_here: "i < length ls \<Longrightarrow> launch (ls ! i) = Some (name, state) \<Longrightarrow> launch_after ls i = Some name"
  using code_lines(1) [of "ls ! i"] skip_blanks_step(2) [of i ls] by (simp add: launch_after_def)

lemma routed_Some: "routed call ls i tag = Some b \<longleftrightarrow> code_before ls i = Some b \<and> tag_call call (ls ! b) = Some tag"
  by (auto simp: routed_def split: option.splits)

lemma code_before_less: "code_before ls i = Some b \<Longrightarrow> b < i"
  by (induction i) (auto split: if_splits)

lemma inv_keep:
  assumes inv: "pass_inv call ls i out" and i: "i < length ls" and t: "tidy call ls"
    and l: "launch (ls ! i) = Some (name, state)" and r: "routed call ls i (tag_of name) = Some b"
    and o: "keep_launch call ls i b state (tag_of name) (out, rw) = (out', rw')"
  shows "pass_inv call ls (i + 1) out'"
proof -
  let ?want = "order_line call state (tag_of name)"
  have b: "code_before ls i = Some b" "tag_call call (ls ! b) = Some (tag_of name)" using r by (simp_all add: routed_Some)
  have lc: "last_code out = Some (ls ! b)"
    using inv b launch_after_here [OF i l] by (simp add: pass_inv_def)
  have "tidy_launch call ls i" using t i by (simp add: tidy_def list_all_iff)
  then have ti: "CHR '','' \<notin> set state" "tag_of name \<noteq> []" "launch ?want = None"
    by (simp_all add: tidy_launch_def l)
  have want: "tag_call call ?want = Some (tag_of name)"
    using tag_call_order_line [OF launch_parts(1) [OF l] ti(1,2) launch_parts(2) [OF l]] t by (simp add: tidy_def)
  have nb: "launch (ls ! b) = None"
  proof -
    have "ls ! b \<in> set ls" using i code_before_less [OF b(1)] by simp
    with t have "tag_call call (ls ! b) = None \<or> launch (ls ! b) = None" by (simp add: tidy_def list_all_iff)
    with b(2) show ?thesis by simp
  qed
  obtain mid where mid: "out' = mid @ [ls ! i]" "ordered call mid" "filter is_launch mid = filter is_launch out"
    "\<exists>q. last_code mid = Some q \<and> tag_call call q = Some (tag_of name) \<and> strip q = strip ?want"
  proof (cases "strip (ls ! b) = strip ?want")
    case True
    with o inv lc b that [of out] show ?thesis by (simp add: keep_launch_def pass_inv_def)
  next
    case False
    from correct_last_split [of "\<lambda>l. tag_call call l \<noteq> None" out "ls ! b" ?want] lc b obtain pre sk where
      c: "out = pre @ ls ! b # sk" "list_all skipped sk"
      "correct_last (\<lambda>l. tag_call call l \<noteq> None) ?want out = Some (pre @ ?want # sk)"
      using skipped_no_call(2) by auto
    have sk: "list_all (\<lambda>l. launch l = None) sk" using c(2) skipped_no_call(1) by (auto simp: list_all_iff)
    have "ordered call (pre @ ?want # sk)"
      using inv ti(3) ordered_no_launch [OF sk] by (simp add: pass_inv_def c(1) ordered_append in_order_def)
    moreover have "last_code (pre @ ?want # sk) = Some ?want"
      using last_code_skipped [OF c(2), of "pre @ [?want]"] code_lines(2) [of call ?want] want by simp
    moreover have "filter is_launch (pre @ ?want # sk) = filter is_launch out"
      by (simp add: c(1) is_launch_def nb ti(3))
    moreover have "out' = (pre @ ?want # sk) @ [ls ! i]" using o False c(3) by (auto simp: keep_launch_def)
    ultimately show ?thesis using that want by blast
  qed
  have "\<not> skipped (ls ! i)" using code_lines(1) [of "ls ! i"] l by simp
  then have "last_code out' = Some (ls ! i)" "code_before ls (i + 1) = Some i" by (simp_all add: mid(1))
  moreover have "ordered call out'"
    using mid(2,4) l by (auto simp: mid(1) ordered_append in_order_def)
  moreover have "filter is_launch out' = filter is_launch (take (i + 1) ls)"
    using inv by (simp add: mid(1,3) pass_inv_def take_snoc [OF i] del: One_nat_def)
  ultimately show ?thesis using i by (simp add: pass_inv_def mid(1))
qed

lemma no_launch_slice:
  assumes "no_launch ls a b" and "b \<le> length ls"
  shows "list_all (\<lambda>l. launch l = None) (take (b - a) (drop a ls))"
proof -
  have "take (b - a) (drop a ls) = map ((!) ls) [a..<b]"
    using assms(2) by (intro nth_equalityI) auto
  with assms(1) show ?thesis by (simp add: no_launch_def list_all_iff)
qed

lemma filter_no_launch: "list_all (\<lambda>l. launch l = None) ls \<Longrightarrow> filter is_launch ls = []"
  by (auto simp: list_all_iff is_launch_def filter_empty_conv)

lemma end_if_hit: "end_if_from ls j < length ls \<Longrightarrow> strip (ls ! end_if_from ls j) = ''end if''"
proof (induction ls j rule: end_if_from.induct)
  case (1 ls j)
  show ?case
  proof (cases "j < length ls \<and> strip (ls ! j) \<noteq> ''end if''")
    case True
    then have "end_if_from ls j = end_if_from ls (j + 1)" by (subst end_if_from.simps) simp
    with 1 True show ?thesis by simp
  next
    case False
    then have "end_if_from ls j = j" by (subst end_if_from.simps) (simp only: if_False)
    with 1 False show ?thesis by simp
  qed
qed

lemma downstream_code:
  assumes "e = fst (downstream call ls lst state tag)" and "e < length ls" and "e \<noteq> lst"
  shows "\<not> skipped (ls ! e)"
proof -
  let ?j = "skip_blanks ls (lst + 1)"
  have lead: "lstrip l = c # t \<Longrightarrow> c \<noteq> CHR ''!'' \<Longrightarrow> \<not> skipped l" for l c t using skipped_lead by blast
  consider "re_match (ordering_re call) (ls ! ?j) \<noteq> None" "e = ?j" | "sync_span ls ?j = Some (?j, e)"
    using assms(1,3) sync_span_ge [of ls ?j] by (auto simp: downstream_def Let_def split: if_splits option.splits)
  then show ?thesis
  proof cases
    case 1
    from match_lead_c [OF 1(1) [unfolded ordering_re_def seqs.simps]] lead 1(2) show ?thesis by fastforce
  next
    case 2
    then consider "re_match oneline_re (ls ! ?j) \<noteq> None" "e = ?j" | "e = end_if_from ls (skip_blanks ls (?j + 1))"
      by (auto simp: sync_span_def Let_def split: if_splits)
    then show ?thesis
    proof cases
      case 1
      from oneline_lead [OF 1(1)] lead 1(2) show ?thesis by fastforce
    next
      case 2
      with end_if_hit assms(2) have "strip (ls ! e) = ''end if''" by blast
      then show ?thesis by (simp add: skipped_def startswith_def)
    qed
  qed
qed

lemma statement_end_amp: "statement_end ls i = Some e \<Longrightarrow> \<not> amp (ls ! e)"
proof (induction ls i rule: statement_end.induct)
  case (1 ls i)
  from "1.prems" show ?case
    by (subst (asm) statement_end.simps) (auto simp: amp_def split: if_splits dest: "1.IH")
qed

lemma inv_put:
  assumes inv: "pass_inv call ls i out" and i: "i < length ls" and t: "tidy call ls" and cm: "list_all skipped comment"
    and l: "launch (ls ! i) = Some (name, state)" and st: "statement_end ls i = Some lst"
    and r: "routed call ls i (tag_of name) = None" and e: "e = fst (downstream call ls lst state (tag_of name))"
    and o: "put_call call comment ls i lst name state (out, rw) = (out', rw')"
  shows "pass_inv call ls (e + 1) out'"
proof -
  let ?want = "order_line call state (tag_of name)"
  let ?stmt = "take (lst + 1 - i) (drop i ls)"
  have "tidy_launch call ls i" using t i by (simp add: tidy_def list_all_iff)
  then have ti: "CHR '','' \<notin> set state" "tag_of name \<noteq> []" "launch ?want = None" "no_launch ls (i + 1) (lst + 1)"
    "e < length ls" "no_launch ls (lst + 1) (e + 1)"
    "e = lst \<or> (case launch_after ls (e + 1) of None \<Rightarrow> True | Some next \<Rightarrow> tag_call call (ls ! e) \<noteq> Some (tag_of next))"
    unfolding tidy_launch_def l option.case prod.case st r Let_def e [symmetric] by simp_all
  have want: "tag_call call ?want = Some (tag_of name)"
    using tag_call_order_line [OF launch_parts(1) [OF l] ti(1,2) launch_parts(2) [OF l]] t by (simp add: tidy_def)
  have le: "i \<le> lst" "lst < length ls" "lst \<le> e"
    using statement_end_bounds [OF st] downstream_ge e by auto
  define rest where "rest = take (lst + 1 - (i + 1)) (drop (i + 1) ls)"
  have stmt: "?stmt = ls ! i # rest"
    using le i by (simp add: rest_def Suc_diff_le flip: Cons_nth_drop_Suc)
  have nr: "list_all (\<lambda>l. launch l = None) rest"
    unfolding rest_def by (rule no_launch_slice) (use ti(4) le in auto)
  have nc: "list_all (\<lambda>l. launch l = None) comment"
    using cm skipped_no_call(1) by (auto simp: list_all_iff)
  have out': "out' = (out @ comment) @ [?want] @ ls ! i # rest"
    using o stmt by (auto simp: put_call_def Let_def)
  have sk: "\<not> skipped (ls ! i)" "\<not> skipped ?want"
    using code_lines(1) [of "ls ! i"] l code_lines(2) [of call ?want] want by simp_all
  have "ordered call out'"
    using inv nc nr want ti(3) sk l unfolding out' ordered_append pass_inv_def
    by (auto simp: in_order_def ordered_no_launch last_code_append intro!: ordered_no_launch)
  moreover
  have split: "take (e + 1) ls = take i ls @ ?stmt @ take (e - lst) (drop (lst + 1) ls)"
  proof -
    have "take (e + 1) ls = take (lst + 1) ls @ take (e - lst) (drop (lst + 1) ls)"
      using le(3) take_add [of "lst + 1" "e - lst" ls] by simp
    moreover have "take (lst + 1) ls = take i ls @ ?stmt"
      using le(1) take_add [of i "lst + 1 - i" ls] by simp
    ultimately show ?thesis by simp
  qed
  have ne: "list_all (\<lambda>l. launch l = None) (take (e - lst) (drop (lst + 1) ls))"
    using no_launch_slice [OF ti(6)] ti(5) by simp
  have fe: "filter is_launch (take (e - lst) (drop (Suc lst) ls)) = []" using filter_no_launch [OF ne] by simp
  have "filter is_launch out' = filter is_launch (take (e + 1) ls)"
    using inv unfolding out' split stmt
    by (simp add: filter_no_launch [OF nc] fe pass_inv_def is_launch_def ti(3))
  moreover have "last_code out' = Some (ls ! b)"
    if b: "code_before ls (e + 1) = Some b" "launch_after ls (e + 1) = Some next" "tag_call call (ls ! b) = Some (tag_of next)" for b "next"
  proof (cases "e = lst")
    case True
    have "last_code (take (lst + 1) ls) = Some (ls ! b)"
      using code_before_take [of "lst + 1" ls] b(1) le(2) True by simp
    moreover have "take (lst + 1) ls = take i ls @ ls ! i # rest" using split True stmt by simp
    ultimately show ?thesis
      using sk by (auto simp: out' last_code_append last_code_Cons split: option.splits)
  next
    case False
    from downstream_code [OF e ti(5) False] have "code_before ls (e + 1) = Some e" by simp
    with b ti(7) False show ?thesis by simp
  qed
  moreover have "last out' = ls ! lst"
  proof -
    have "last ?stmt = ls ! lst" using le by (subst last_conv_nth) auto
    then have "last (ls ! i # rest) = ls ! lst" unfolding stmt .
    then show ?thesis by (simp add: out')
  qed
  moreover note statement_end_amp [OF st]
  ultimately show ?thesis using ti(5) by (simp add: pass_inv_def out')
qed

text \<open>The loop.\<close>

lemma pass_from_inv:
  assumes "tidy call ls" and "list_all skipped comment" and "pass_inv call ls i (fst s)"
  shows "\<exists>s'. pass_from call comment ls i s = Some s' \<and> pass_inv call ls (length ls) (fst s')"
  using assms
proof (induction call comment ls i s rule: pass_from.induct)
  case (1 call comment ls i s)
  show ?case
  proof (cases "i < length ls")
    case False
    with "1.prems"(3) have "i = length ls" by (simp add: pass_inv_def)
    with "1.prems"(3) show ?thesis by (subst pass_from.simps) simp
  next
    case True
    have "\<exists>i' s'. launch_step call comment ls i s = Some (i', s') \<and> pass_inv call ls i' (fst s')"
    proof (cases "launch (ls ! i)")
      case None
      with inv_plain [OF "1.prems"(3) True None] show ?thesis by (simp add: launch_step_def)
    next
      case (Some p)
      obtain name state where l: "launch (ls ! i) = Some (name, state)" using Some by (cases p) simp
      have "tidy_launch call ls i" using "1.prems"(1) True by (simp add: tidy_def list_all_iff)
      then obtain lst where st: "statement_end ls i = Some lst"
        by (auto simp: tidy_launch_def l split: option.splits)
      show ?thesis
      proof (cases "routed call ls i (tag_of name)")
        case (Some b)
        obtain out' rw' where o: "keep_launch call ls i b state (tag_of name) (fst s, snd s) = (out', rw')" by fastforce
        from inv_keep [OF "1.prems"(3) True "1.prems"(1) l Some o] o show ?thesis
          by (simp add: launch_step_def l st Some)
      next
        case None
        obtain out' rw' where o: "put_call call comment ls i lst name state (fst s, snd s) = (out', rw')" by fastforce
        from inv_put [OF "1.prems"(3) True "1.prems"(1,2) l st None refl o] o show ?thesis
          by (simp add: launch_step_def l st None)
      qed
    qed
    then obtain i' s' where st: "launch_step call comment ls i s = Some (i', s')" "pass_inv call ls i' (fst s')" by blast
    from "1.IH" [OF True st(1) refl "1.prems"(1,2) st(2)] show ?thesis
      by (subst pass_from.simps) (simp add: True st(1))
  qed
qed

lemma pass_inv_start: "pass_inv call ls 0 []"
  by (simp add: pass_inv_def ordered_def)

lemma pass_launches_inv:
  assumes "tidy call ls" and "list_all skipped comment"
  obtains out rw' where "pass_launches call comment ls rw = Some (out, rw')" "pass_inv call ls (length ls) out"
  using pass_from_inv [OF assms, of 0 "([], rw)"] pass_inv_start by (auto simp: pass_launches_def)

lemma statement_end_exists: "i < length ls \<Longrightarrow> \<not> amp (last ls) \<Longrightarrow> \<exists>e. statement_end ls i = Some e"
proof (induction ls i rule: statement_end.induct)
  case (1 ls i)
  show ?case
  proof (cases "amp (ls ! i)")
    case True
    have "i \<noteq> length ls - 1" using True "1.prems" by (metis last_conv_nth length_0_conv not_less_zero)
    with 1 True show ?thesis by (subst statement_end.simps) (simp add: amp_def)
  next
    case False
    with "1.prems" show ?thesis by (subst statement_end.simps) (simp add: amp_def)
  qed
qed

text \<open>An ordered text is a fixed point.\<close>

lemma in_order_nth:
  assumes "ordered call ls" and "i < length ls"
  shows "in_order call (last_code (take i ls)) (ls ! i)"
proof -
  have "ls = take i ls @ ls ! i # drop (i + 1) ls" using assms(2) by (simp add: Cons_nth_drop_Suc)
  with assms(1) have "ordered call (take i ls @ ls ! i # drop (i + 1) ls)" by simp
  then show ?thesis by (simp add: ordered_append)
qed

lemma pass_from_fixed:
  assumes "ordered call ls" and "ls = [] \<or> \<not> amp (last ls)" and "i \<le> length ls" and "s = (take i ls, rw)"
  shows "pass_from call comment ls i s = Some (ls, rw)"
  using assms
proof (induction call comment ls i s rule: pass_from.induct)
  case (1 call comment ls i s)
  show ?case
  proof (cases "i < length ls")
    case False
    with "1.prems" show ?thesis by (subst pass_from.simps) simp
  next
    case True
    have st: "launch_step call comment ls i s = Some (i + 1, take (i + 1) ls, rw)"
    proof (cases "launch (ls ! i)")
      case None
      then show ?thesis by (simp add: launch_step_def "1.prems"(4) take_Suc_conv_app_nth True)
    next
      case (Some p)
      obtain name state where l: "launch (ls ! i) = Some (name, state)" using Some by (cases p) simp
      obtain lst where e: "statement_end ls i = Some lst" using statement_end_exists [OF True] "1.prems"(2) True by auto
      from in_order_nth [OF "1.prems"(1) True] l code_before_take [of i ls] True obtain b where
        "code_before ls i = Some b" "tag_call call (ls ! b) = Some (tag_of name)"
        "strip (ls ! b) = strip (order_line call state (tag_of name))"
        by (auto simp: in_order_def split: option.splits)
      then show ?thesis
        by (simp add: launch_step_def l e routed_def keep_launch_def "1.prems"(4) take_Suc_conv_app_nth True)
    qed
    from "1.IH" [OF True st refl "1.prems"(1,2)] True show ?thesis
      by (subst pass_from.simps) (simp add: st)
  qed
qed

section \<open>Properties\<close>


definition ex_shim :: "string list" where
  "ex_shim = [''  call a_run(a_state, x, &'', ''    y)'', [], ''  ierr = cudaDeviceSynchronize_()'', ''  if (ierr /= 0) then'',
     ''    stop'', ''  end if'', ''  call dace_order(b_state, '' @ [CHR 0x27] @ ''b'' @ [CHR 0x27] @ '')'', ''  call b_run(b_state)'']"


text \<open>The pass is idempotent on tidy texts that do not end within a continued statement: run on its own
  output it changes nothing and reports no rewrite.\<close>

theorem pass_launches_idempotent:
  assumes "tidy call ls" and "list_all skipped comment" and "ls \<noteq> []" and "\<not> amp (last ls)"
    and "pass_launches call comment ls rw = Some (out, rw')"
  shows "pass_launches call comment' out rw'' = Some (out, rw'')"
proof -
  obtain o' r' where "pass_launches call comment ls rw = Some (o', r')" "pass_inv call ls (length ls) o'"
    using pass_launches_inv [OF assms(1,2)] by blast
  with assms(5) have inv: "pass_inv call ls (length ls) out" by simp
  then have "out \<noteq> []" "last out = ls ! (length ls - 1) \<or> \<not> amp (last out)"
    using assms(3) by (auto simp: pass_inv_def)
  with assms(3,4) have "out = [] \<or> \<not> amp (last out)" by (auto simp: last_conv_nth)
  with inv show ?thesis
    unfolding pass_launches_def by (intro pass_from_fixed) (simp_all add: pass_inv_def)
qed

theorem pass_launches_idempotent_witness:
  "\<exists>out rw. pass_launches ''dace_order'' [] ex_shim [] = Some (out, rw) \<and>
     pass_launches ''dace_order'' [''! ordering''] out [] = Some (out, [])"
proof -
  have t: "tidy ''dace_order'' ex_shim" by code_simp
  have a: "ex_shim \<noteq> []" "\<not> amp (last ex_shim)" by code_simp+
  have "pass_launches ''dace_order'' [] ex_shim [] \<noteq> None" by code_simp
  then obtain out rw where o: "pass_launches ''dace_order'' [] ex_shim [] = Some (out, rw)" by auto
  from pass_launches_idempotent [OF t _ a o] o show ?thesis by auto
qed

text \<open>What tidiness excludes: an ordering call directly behind a launch that has none of its own is taken
  for a remnant of the old placement and removed, also when it belongs to the next launch. That launch is
  then kept as already ordered, and has no ordering call in the output.\<close>

theorem order_of_next_launch_lost:
  assumes "launch l1 = Some (n1, s1)" and "tag_call call l2 = Some (tag_of n2)" and "re_match (ordering_re call) l2 \<noteq> None"
    and "launch l3 = Some (n2, s2)" and "\<not> amp l1" and "\<not> amp l3"
    and "strip l2 = strip (order_line call s2 (tag_of n2))"
  shows "\<exists>rw'. pass_launches call comment [l1, l2, l3] rw = Some (comment @ [order_line call s1 (tag_of n1), l1, l3], rw')"
proof -
  have sk: "\<not> skipped l1" "\<not> skipped l2" "\<not> skipped l3"
    using code_lines(1) [of l1] code_lines(1) [of l3] code_lines(2) [of call l2] assms by simp_all
  have se: "statement_end [l1, l2, l3] 0 = Some 0" "statement_end [l1, l2, l3] 2 = Some 2"
    using assms(5,6) by (subst statement_end.simps, simp add: amp_def)+
  have sb: "skip_blanks [l1, l2, l3] 1 = 1" using sk by (subst skip_blanks.simps) simp
  have "\<exists>rw1. launch_step call comment [l1, l2, l3] 0 ([], rw) = Some (2, comment @ [order_line call s1 (tag_of n1), l1], rw1)"
    using sb by (simp add: launch_step_def assms(1) se routed_def downstream_def assms(3) put_call_def Let_def numeral_2_eq_2)
  then obtain rw1 where one: "launch_step call comment [l1, l2, l3] 0 ([], rw) = Some (2, comment @ [order_line call s1 (tag_of n1), l1], rw1)"
    by blast
  have two: "launch_step call comment [l1, l2, l3] 2 (comment @ [order_line call s1 (tag_of n1), l1], rw1) =
      Some (3, comment @ [order_line call s1 (tag_of n1), l1, l3], rw1)"
    using se(2) by (simp add: launch_step_def assms(2,4,7) routed_def sk numeral_2_eq_2 keep_launch_def)
  show ?thesis
    unfolding pass_launches_def
    by (subst pass_from.simps, simp add: one, subst pass_from.simps, simp add: two, subst pass_from.simps) simp
qed


theorem order_of_next_launch_lost_witness:
  "\<exists>rw. pass_launches ''dace_order'' [] [''  call a_run(a_state)'', order_line ''dace_order'' ''b_state'' ''b'', ''  call b_run(b_state)''] [] =
     Some ([order_line ''dace_order'' ''a_state'' ''a'', ''  call a_run(a_state)'', ''  call b_run(b_state)''], rw) \<and>
   \<not> ordered ''dace_order'' [order_line ''dace_order'' ''a_state'' ''a'', ''  call a_run(a_state)'', ''  call b_run(b_state)'']"
proof -
  let ?l1 = "''  call a_run(a_state)''" and ?l2 = "order_line ''dace_order'' ''b_state'' ''b''" and ?l3 = "''  call b_run(b_state)''"
  have l: "launch ?l1 = Some (''a_run'', ''a_state'')" "launch ?l3 = Some (''b_run'', ''b_state'')" "\<not> amp ?l1" "\<not> amp ?l3"
    "tag_call ''dace_order'' ?l2 = Some (tag_of ''b_run'')" "re_match (ordering_re ''dace_order'') ?l2 \<noteq> None"
    "tag_of ''a_run'' = ''a''" "tag_of ''b_run'' = ''b''"
    "\<not> ordered ''dace_order'' [order_line ''dace_order'' ''a_state'' ''a'', ?l1, ?l3]"
    by code_simp+
  have "strip ?l2 = strip (order_line ''dace_order'' ''b_state'' (tag_of ''b_run''))" by (simp only: l(8))
  from order_of_next_launch_lost [OF l(1,5,6,2,3,4) this, of "[]" "[]"] l(9) show ?thesis by (simp only: l(7) append_Nil) blast
qed

text \<open>What tidiness excludes, second: the block that reports a failed synchronise is searched for a line
  \<open>end if\<close> to the end of the text. When it ends in another spelling and no \<open>end if\<close> follows, everything
  behind the launch is deleted.\<close>

theorem open_sync_block_deletes_rest:
  assumes "launch l1 = Some (name, state)" and "\<not> amp l1" and "re_match sync_re l2 \<noteq> None" and "re_match oneline_re l2 = None"
    and "strip l3 = ''if (ierr /= 0) then''" and "\<forall>l \<in> set rest. strip l \<noteq> ''end if''"
  shows "\<exists>rw'. pass_launches call comment (l1 # l2 # l3 # rest) rw = Some (comment @ [order_line call state (tag_of name), l1], rw')"
proof -
  let ?ls = "l1 # l2 # l3 # rest"
  obtain t where l2: "lstrip l2 = CHR ''i'' # t" using sync_lead [OF assms(3)] by blast
  have s2: "\<not> skipped l2" using skipped_lead [OF _ l2] by auto
  have s3: "\<not> skipped l3" using assms(5) by (simp add: skipped_def startswith_def)
  have no: "re_match (ordering_re call) l2 = None"
    using match_lead_c [of "CHR ''c''" "''all''" _ l2] l2 unfolding ordering_re_def seqs.simps by fastforce
  have se: "statement_end ?ls 0 = Some 0" using assms(2) by (subst statement_end.simps) (simp add: amp_def)
  have sb: "skip_blanks ?ls 1 = 1" "skip_blanks ?ls 2 = 2"
    using s2 s3 by (subst skip_blanks.simps, simp)+
  have ef: "end_if_from ?ls j = length ?ls" if "2 \<le> j" "j \<le> length ?ls" for j
    using that
  proof (induction "length ?ls - j" arbitrary: j)
    case (Suc n)
    have "strip (?ls ! j) \<noteq> ''end if''"
    proof (cases "j = 2")
      case False
      then have "?ls ! j = rest ! (j - 3)" "j - 3 < length rest" using Suc by (auto simp: nth_Cons' eval_nat_numeral)
      then show ?thesis using assms(6) nth_mem by metis
    qed (simp add: assms(5) numeral_2_eq_2)
    moreover have "end_if_from ?ls (j + 1) = length ?ls" using Suc by (intro Suc.hyps(1)) auto
    ultimately show ?case using Suc.prems by (subst end_if_from.simps) simp
  next
    case 0
    then show ?case by (subst end_if_from.simps) simp
  qed
  have "sync_span ?ls 1 = Some (1, length ?ls)"
    using sb(2) ef [of 2] assms(3,4,5) by (simp add: sync_span_def Let_def numeral_2_eq_2)
  then have "\<exists>rw1. launch_step call comment ?ls 0 ([], rw) = Some (length ?ls + 1, comment @ [order_line call state (tag_of name), l1], rw1)"
    using sb(1) by (simp add: launch_step_def assms(1) se routed_def downstream_def no put_call_def Let_def)
  then show ?thesis
    unfolding pass_launches_def by (subst pass_from.simps) (auto simp: pass_from.simps)
qed

theorem open_sync_block_deletes_rest_witness:
  "\<exists>rw. pass_launches ''dace_order'' [] [''  call a_run(a_state)'', ''  ierr = cudaDeviceSynchronize_()'', ''  if (ierr /= 0) then'', ''    stop'',
     ''  endif'', ''  call b_run(b_state)'', ''end subroutine''] [] =
     Some ([order_line ''dace_order'' ''a_state'' ''a'', ''  call a_run(a_state)''], rw)"
proof -
  let ?rest = "[''    stop'', ''  endif'', ''  call b_run(b_state)'', ''end subroutine'']"
  have l: "launch ''  call a_run(a_state)'' = Some (''a_run'', ''a_state'')" "\<not> amp ''  call a_run(a_state)''"
    "re_match sync_re ''  ierr = cudaDeviceSynchronize_()'' \<noteq> None" "re_match oneline_re ''  ierr = cudaDeviceSynchronize_()'' = None"
    "strip ''  if (ierr /= 0) then'' = ''if (ierr /= 0) then''" "list_all (\<lambda>l. strip l \<noteq> ''end if'') ?rest" "tag_of ''a_run'' = ''a''"
    by code_simp+
  from open_sync_block_deletes_rest [OF l(1,2,3,4,5) l(6) [unfolded list_all_iff], of "''dace_order''" "[]" "[]"]
  show ?thesis by (simp only: l(7) append_Nil)
qed

end
