(* ===== verification/Reshape.thy ===== *)
theory Reshape
  imports Tu_Emit Value_Records
begin

text \<open>
  \<open>src/dace_fortran/reshape.py\<close>: a boundary copy rendered as one kernel per direction. The offsets its callers
  must pass are derived from the two swept subscripts of the source, which are read as affine in the loop
  variable and the extent. Names (\<open>ext\<close>, \<open>ghost\<close>, \<open>jvar\<close>) have no character that is special in a pattern.
\<close>

datatype reshape_error =
    CannotParse string
  | DifferentSlopes
  | SlopeNotUnit int
  | BadSwept
  | BadRows
  | Module emit_error

section \<open>Affine subscripts\<close>

text \<open>\<open>s.count(p)\<close> for a non-empty \<open>p\<close>.\<close>

function count_sub :: "string \<Rightarrow> string \<Rightarrow> nat" where
  "count_sub p s =
     (case s of [] \<Rightarrow> 0
      | c # t \<Rightarrow> if p \<noteq> [] \<and> startswith s p then Suc (count_sub p (drop (length p) s)) else count_sub p t)"
  by pat_completeness auto
termination by (relation "measure (\<lambda>(p, s). length s)") auto

declare count_sub.simps [simp del]

text \<open>\<open>s.replace(p, new, 1)\<close> for a non-empty \<open>p\<close>.\<close>

fun replace_first :: "string \<Rightarrow> string \<Rightarrow> string \<Rightarrow> string" where
  "replace_first p new [] = []"
| "replace_first p new (c # s) = (if startswith (c # s) p then new @ drop (length p) (c # s) else c # replace_first p new s)"

definition strip_plus :: "string \<Rightarrow> string" where
  "strip_plus s = rev (dropWhile ((=) CHR ''+'') (rev (dropWhile ((=) CHR ''+'') s)))"

text \<open>\<open>re.fullmatch\<close> of \<open>[+-]?\d+\<close> and of \<open>-?\d+\<close>.\<close>

definition digits_only :: "string \<Rightarrow> bool" where
  "digits_only s = (s \<noteq> [] \<and> list_all is_digit s)"

definition signed_digits :: "string \<Rightarrow> string \<Rightarrow> bool" where
  "signed_digits signs s = (digits_only s \<or> (s \<noteq> [] \<and> hd s \<in> set signs \<and> digits_only (tl s)))"

definition paren_re :: "regex list \<Rightarrow> string \<Rightarrow> regex" where
  "paren_re front j = seqs (front @ [chr_re CHR ''('', lit j, lit ''-1)''])"

definition coeff_re :: "string \<Rightarrow> regex" where
  "coeff_re j = seqs [Grp 1 (many re_digit), opt (chr_re CHR ''*''), Grp 2 (opt (Cls False [(43, 43), (45, 45)])), lit j]"

text \<open>The iterate's term: its coefficient and what is left of the text. \<open>None\<close> is the \<open>AttributeError\<close> of a pattern
  that does not match, which cannot happen when the variable is in the text.\<close>

definition take_iterate :: "string \<Rightarrow> string \<Rightarrow> (int \<times> string) option" where
  "take_iterate j e =
     (case re_search (coeff_re j) e of
        None \<Rightarrow> None
      | Some m \<Rightarrow>
          (let coeff = (if grp0 m 1 = [] then 1 else the (py_int (grp0 m 1))) in
           Some (if grp0 m 2 = ''-'' then - coeff else coeff, replace_first (m_text m) [] e)))"

definition unparen :: "string \<Rightarrow> string \<Rightarrow> string" where
  "unparen j e =
     (let e = re_sub (\<lambda>_. concat [''-'', j, ''+1'']) (paren_re [chr_re CHR ''-'', many re_space] j) e;
          e = re_sub (\<lambda>_. concat [''+'', j, ''-1'']) (paren_re [chr_re CHR ''+'', many re_space] j) e
      in re_sub (\<lambda>_. concat [j, ''-1'']) (paren_re [Bol] j) e)"

definition parse_affine :: "string \<Rightarrow> string \<Rightarrow> string \<Rightarrow> reshape_error + int \<times> int \<times> int" where
  "parse_affine expr ext j =
     (let e = unparen j (replace '' '' [] expr) in
      if CHR ''('' \<in> set e \<or> CHR '')'' \<in> set e then Inl (CannotParse expr)
      else
        let n = int (count_sub ext e); e = replace ext [] e in
        case (if contains j e then take_iterate j e else Some (0, e)) of
          None \<Rightarrow> Inl (CannotParse expr)
        | Some (a, e) \<Rightarrow>
            if contains j e then Inl (CannotParse expr)
            else
              let e = (if strip_plus e = [] then ''0'' else strip_plus e) in
              if e = ''-'' then Inr (a, 0, n)
              else if \<not> signed_digits ''+-'' e then Inl (CannotParse expr)
              else Inr (a, the (py_int e), n))"

section \<open>Offsets\<close>

definition sum_terms :: "string list \<Rightarrow> string" where
  "sum_terms terms =
     (let ts = filter (\<lambda>t. t \<noteq> []) (map strip terms);
          total = sum_list (map (\<lambda>t. the (py_int t)) (filter (signed_digits ''-'') ts));
          syms = filter (\<lambda>t. \<not> signed_digits ''-'' t) ts @ (if total \<noteq> 0 then [str_int total] else [])
      in if syms = [] then ''0'' else join '' + '' syms)"

text \<open>The offset of one subscript; a slope of -1 needs no frame.\<close>

definition frame :: "string \<Rightarrow> string \<Rightarrow> int \<Rightarrow> int \<Rightarrow> int \<Rightarrow> string" where
  "frame ext ghost a b n =
     sum_terms ([if n = 0 then [] else if n = 1 then ext else concat [str_int n, ''*'', ext], str_int b] @
       (if a = -1 then [] else [ghost, ''1'']))"

definition derive_offsets :: "string \<Rightarrow> string \<Rightarrow> string \<Rightarrow> string \<Rightarrow> string \<Rightarrow> reshape_error + string \<times> string" where
  "derive_offsets dst_expr src_expr ext ghost j =
     rbind (parse_affine dst_expr ext j) (\<lambda>(ad, bd, nd).
     rbind (parse_affine src_expr ext j) (\<lambda>(as, bs, ns).
       if ad \<noteq> as then Inl DifferentSlopes
       else if \<bar>ad\<bar> \<noteq> 1 then Inl (SlopeNotUnit ad)
       else Inr (frame ext ghost ad bd nd, frame ext ghost as bs ns)))"

section \<open>The kernel\<close>

type_synonym axis_range = "string \<times> string \<times> string"   \<comment> \<open>begin, end, iterate\<close>

definition nest_vars_and_bounds :: "axis_range \<times> axis_range \<Rightarrow> string \<Rightarrow> string \<Rightarrow> string list \<times> (string \<times> string) list" where
  "nest_vars_and_bounds transverse ghost iter_var =
     (case transverse of ((low_b, low_e, low_i), (high_b, high_e, high_i)) \<Rightarrow>
       ([high_i, low_i, iter_var],
        [(''0'', concat [high_e, '' - '', high_b]), (''0'', concat [low_e, '' - '', low_b]), (''0'', ghost @ '' - 1'')]))"

text \<open>The three subscripts: the swept axis at its storage position, the transverse ones around it in order.\<close>

fun place_subs :: "nat \<Rightarrow> string \<Rightarrow> nat list \<Rightarrow> axis_range list \<Rightarrow> string list" where
  "place_subs swept s [] ts = []"
| "place_subs swept s (p # ps) ts =
     (if p = swept then s # place_subs swept s ps ts
      else case ts of [] \<Rightarrow> [] | (base, _, iv) # ts' \<Rightarrow> concat [base, '' + '', iv] # place_subs swept s ps ts')"

definition plane_subs :: "nat \<Rightarrow> axis_range \<times> axis_range \<Rightarrow> string \<Rightarrow> string \<Rightarrow> string" where
  "plane_subs swept transverse iter_var plane =
     join '', '' (place_subs swept (concat [plane, '' + '', iter_var]) [1, 2, 3] [fst transverse, snd transverse])"

definition copy_line :: "string \<Rightarrow> string \<Rightarrow> nat \<Rightarrow> string" where
  "copy_line dst src r = concat [''        q'', str_nat r, ''d('', dst, '') = q'', str_nat r, ''s('', src, '')'']"

definition render_offset_copy :: "string \<Rightarrow> string \<Rightarrow> int \<Rightarrow> axis_range \<times> axis_range \<Rightarrow> int \<Rightarrow> string list \<Rightarrow> string \<Rightarrow> string \<Rightarrow>
    string \<Rightarrow> nat \<Rightarrow> reshape_error + string" where
  "render_offset_copy modname krn swept transverse nrows scalars ghost iter_var doc wp =
     (if \<not> (1 \<le> swept \<and> swept \<le> 3) then Inl BadSwept
      else if nrows < 1 then Inl BadRows
      else
        let (nest_vars, nest_bnds) = nest_vars_and_bounds transverse ghost iter_var;
            subs = plane_subs (nat swept) transverse iter_var;
            rows = [1..<nat nrows + 1];
            body = join [LF] (map (copy_line (subs ''doff'') (subs ''soff'')) rows);
            dums = map (\<lambda>r. \<lparr>du_name = concat [''q'', str_nat r, ''d''], du_rank = 3, du_intent = Some ''inout''\<rparr>) rows @
              map (\<lambda>r. \<lparr>du_name = concat [''q'', str_nat r, ''s''], du_rank = 3, du_intent = Some ''in''\<rparr>) rows
        in (case tu_module modname krn dums scalars body nest_vars nest_bnds doc wp [] of
              Inl e \<Rightarrow> Inl (Module e) | Inr t \<Rightarrow> Inr t))"

section \<open>What a sum stands for\<close>

definition eval_term :: "(string \<Rightarrow> int) \<Rightarrow> string \<Rightarrow> int" where
  "eval_term env t =
     (if signed_digits ''-'' t then the (py_int t)
      else if CHR ''*'' \<in> set t then the (py_int (before_first CHR ''*'' t)) * env (after_char CHR ''*'' t)
      else env t)"

definition eval_sum :: "(string \<Rightarrow> int) \<Rightarrow> string \<Rightarrow> int" where
  "eval_sum env s = sum_list (map (eval_term env) (filter (\<lambda>t. t \<noteq> ''+'') (split_ws s)))"

definition name_ok :: "string \<Rightarrow> bool" where
  "name_ok s = (s \<noteq> [] \<and> list_all is_word s \<and> \<not> is_digit (hd s))"

lemma word_char: "is_word c \<Longrightarrow> \<not> is_space c \<and> c \<notin> set ''*+-( )''"
proof -
  assume w: "is_word c"
  have "\<not> is_word CHR ''*''" "\<not> is_word CHR ''+''" "\<not> is_word CHR ''-''" "\<not> is_word CHR ''(''" "\<not> is_word CHR '' ''" "\<not> is_word CHR '')''"
    by code_simp+
  moreover have "\<not> is_space c" using w by (auto simp: is_word_def is_space_def range_defs)
  ultimately show ?thesis using w by auto
qed

lemma digit_char_not: "is_digit c \<Longrightarrow> c \<notin> set ''*+-( )''"
proof -
  assume "is_digit c"
  moreover have "\<not> is_digit CHR ''*''" "\<not> is_digit CHR ''+''" "\<not> is_digit CHR ''-''" "\<not> is_digit CHR ''(''" "\<not> is_digit CHR '' ''" "\<not> is_digit CHR '')''"
    by code_simp+
  ultimately show ?thesis by auto
qed

lemma digits_only_str_nat [simp]: "digits_only (str_nat n)"
  using str_nat_digits by (simp add: digits_only_def list_all_iff)

lemma signed_digits_str_int: "signed_digits ''-'' (str_int i)"
  by (simp add: signed_digits_def str_int_def)

text \<open>Tokens of a sum: words other than the plus sign.\<close>

definition token :: "string \<Rightarrow> bool" where
  "token t = (word t \<and> t \<noteq> ''+'')"

lemma token_name: "name_ok s \<Longrightarrow> token s" "name_ok s \<Longrightarrow> \<not> signed_digits ''-'' s" "name_ok s \<Longrightarrow> CHR ''*'' \<notin> set s"
  using word_char by (fastforce simp: name_ok_def token_def word_def list_all_iff signed_digits_def digits_only_def)+

lemma token_str_int [simp]: "token (str_int i)"
proof -
  have "word (str_int i)" by (rule str_int_word)
  moreover have "str_int i \<noteq> ''+''"
  proof
    assume "str_int i = ''+''"
    then have "py_int ''+'' = Some i" by (metis py_int_str_int)
    moreover have "py_int ''+'' = None" by code_simp
    ultimately show False by simp
  qed
  ultimately show ?thesis by (simp add: token_def)
qed

lemma split_sum: "list_all token ts \<Longrightarrow> filter (\<lambda>t. t \<noteq> ''+'') (split_ws (join '' + '' ts)) = ts"
proof (induction ts rule: induct_list012)
  case (2 t)
  then show ?case by (simp add: token_def split_ws_word)
next
  case (3 t u ts)
  have "word ''+''" by code_simp
  from split_ws_word(1) [OF this] have p: "split_ws (CHR ''+'' # CHR '' '' # s) = ''+'' # split_ws s" for s by simp
  from "3.prems" have "word t" "t \<noteq> ''+''" by (simp_all add: token_def)
  then have "split_ws (join '' + '' (t # u # ts)) = t # ''+'' # split_ws (join '' + '' (u # ts))"
    using split_ws_word(1) [of t "CHR ''+'' # CHR '' '' # join '' + '' (u # ts)"] p by simp
  with 3 \<open>t \<noteq> ''+''\<close> show ?case by simp
qed simp

lemma eval_sum_terms:
  assumes "list_all (\<lambda>t. t = [] \<or> token t) ts"
  shows "eval_sum env (sum_terms ts) = sum_list (map (eval_term env) (filter (\<lambda>t. t \<noteq> []) ts))"
proof -
  let ?ts = "filter (\<lambda>t. t \<noteq> []) ts"
  let ?int = "signed_digits ''-''"
  let ?total = "sum_list (map (\<lambda>t. the (py_int t)) (filter ?int ?ts))"
  let ?syms = "filter (\<lambda>t. \<not> ?int t) ?ts @ (if ?total \<noteq> 0 then [str_int ?total] else [])"
  have "map strip ts = ts"
  proof (rule map_idI)
    fix t assume "t \<in> set ts"
    with assms have "t = [] \<or> list_all (\<lambda>c. \<not> is_space c) t" by (auto simp: list_all_iff token_def word_def)
    then show "strip t = t" by (intro strip_no_space) (auto simp: list_all_iff)
  qed
  then have s: "sum_terms ts = (if ?syms = [] then ''0'' else join '' + '' ?syms)"
    by (simp add: sum_terms_def Let_def)
  have tok: "list_all token ?syms" using assms by (auto simp: list_all_iff)
  have ev: "eval_term env (str_int i) = i" for i by (simp add: eval_term_def signed_digits_str_int)
  have "eval_sum env (sum_terms ts) = sum_list (map (eval_term env) ?syms)"
  proof (cases "?syms = []")
    case True
    have "eval_sum env ''0'' = 0" by code_simp
    then show ?thesis unfolding s True by simp
  next
    case False
    then show ?thesis unfolding s eval_sum_def by (simp only: if_False split_sum [OF tok])
  qed
  also have "\<dots> = sum_list (map (eval_term env) (filter (\<lambda>t. \<not> ?int t) ?ts)) + ?total" by (simp add: ev)
  also have "?total = sum_list (map (eval_term env) (filter ?int ?ts))"
    by (intro arg_cong [where f = sum_list] map_cong refl) (simp add: eval_term_def)
  also have "sum_list (map (eval_term env) (filter (\<lambda>t. \<not> ?int t) ?ts)) + sum_list (map (eval_term env) (filter ?int ?ts)) =
      sum_list (map (eval_term env) ?ts)"
    by (induction ts) simp_all
  finally show ?thesis .
qed

lemma eval_frame:
  assumes "name_ok ext" and "name_ok ghost"
  shows "eval_sum env (frame ext ghost a b n) = n * env ext + b + (if a = -1 then 0 else env ghost + 1)"
proof -
  let ?t = "if n = 0 then [] else if n = 1 then ext else concat [str_int n, ''*'', ext]"
  have we: "list_all (\<lambda>c. \<not> is_space c) ext" "CHR ''*'' \<notin> set ext" "ext \<noteq> []"
    using assms(1) word_char by (fastforce simp: name_ok_def list_all_iff)+
  have ws: "list_all (\<lambda>c. \<not> is_space c) (str_int n)" "str_int n \<noteq> []"
    using str_int_word [of n] by (simp_all add: word_def)
  have "\<not> is_space CHR ''*''" by code_simp
  then have prod: "token (concat [str_int n, ''*'', ext])"
    using we ws by (auto simp: token_def word_def append_eq_Cons_conv)
  have ns: "\<not> is_digit CHR ''*''" by code_simp
  have nsd: "\<not> signed_digits ''-'' (concat [str_int n, ''*'', ext])"
  proof -
    have "CHR ''*'' \<in> set (concat [str_int n, ''*'', ext])" by simp
    moreover have "hd (concat [str_int n, ''*'', ext]) = hd (str_int n)" using ws(2) by simp
    moreover have "CHR ''*'' \<in> set (tl (concat [str_int n, ''*'', ext]))" using ws(2) by (cases "str_int n") simp_all
    ultimately show ?thesis unfolding signed_digits_def digits_only_def list_all_iff using ns by blast
  qed
  have star: "CHR ''*'' \<notin> set (str_int n)"
  proof -
    have "signed_digits ''-'' (str_int n)" by (rule signed_digits_str_int)
    then show ?thesis using digit_char_not by (cases "str_int n") (auto simp: signed_digits_def digits_only_def list_all_iff)
  qed
  have ev: "eval_term env (concat [str_int n, ''*'', ext]) = n * env ext"
  proof -
    have "before_first CHR ''*'' (str_int n @ CHR ''*'' # ext) = str_int n"
      using star by (auto simp: before_first_def takeWhile_append intro!: takeWhile_eq_all_conv [THEN iffD2])
    moreover have "after_char CHR ''*'' (str_int n @ CHR ''*'' # ext) = ext"
      using star by (auto simp: after_char_def dropWhile_append)
    ultimately show ?thesis using nsd by (simp add: eval_term_def)
  qed
  have t: "?t = [] \<or> token ?t" using prod token_name(1) [OF assms(1)] by auto
  have et: "sum_list (map (eval_term env) (filter (\<lambda>t. t \<noteq> []) [?t])) = n * env ext"
    using ev we(3) token_name(2,3) [OF assms(1)] by (auto simp: eval_term_def)
  have ei: "eval_term env (str_int i) = i" for i by (simp add: eval_term_def signed_digits_str_int)
  have eg: "eval_term env ghost = env ghost" "ghost \<noteq> []"
    using token_name(2,3) [OF assms(2)] assms(2) by (simp_all add: eval_term_def name_ok_def)
  have "str_int 1 = ''1''" by code_simp
  then have one: "token ''1''" "eval_term env ''1'' = 1" using token_str_int [of 1] ei [of 1] by simp_all
  have nb: "str_int b \<noteq> []" using str_int_word [of b] by (simp add: word_def)
  have all: "list_all (\<lambda>t. t = [] \<or> token t) ([?t, str_int b] @ (if a = -1 then [] else [ghost, ''1'']))"
    using t token_name(1) [OF assms(2)] one(1) by simp
  show ?thesis
    unfolding frame_def eval_sum_terms [OF all]
    using et nb eg one(2) ei by (simp split: if_splits)
qed

lemma planes_image:
  fixes a :: int
  assumes "\<bar>a\<bar> = 1"
  shows "(\<lambda>i. (a * i + p + w, a * i + q + w)) ` {1..w} =
    (\<lambda>g. (p + (if a = -1 then 0 else w + 1) + g, q + (if a = -1 then 0 else w + 1) + g)) ` {0..w - 1}" (is "?f ` ?A = ?g ` ?B")
proof -
  let ?h = "\<lambda>i. if a = -1 then w - i else i - 1"
  have "?h ` ?A = ?B"
  proof (cases "a = -1")
    case True
    have "x \<in> (\<lambda>i. w - i) ` {1..w}" if "x \<in> {0..w - 1}" for x using that by (intro image_eqI [of _ _ "w - x"]) auto
    with True show ?thesis by auto
  next
    case False
    have "x \<in> (\<lambda>i. i - 1) ` {1..w}" if "x \<in> {0..w - 1}" for x using that by (intro image_eqI [of _ _ "x + 1"]) auto
    with False show ?thesis by auto
  qed
  moreover have "?f i = ?g (?h i)" for i using assms by (auto simp: abs_if split: if_splits)
  ultimately show ?thesis by (metis (no_types, lifting) image_cong image_image)
qed

section \<open>Reading a subscript\<close>

lemma replace_char: "replace [c] [] s = filter (\<lambda>x. x \<noteq> c) s"
  by (induction s) (subst replace.simps, simp add: startswith_def)+

lemma count_char: "count_sub [c] s = count_list s c"
  by (induction s) (subst count_sub.simps, simp add: startswith_def)+

lemma contains_char: "contains [c] s \<longleftrightarrow> c \<in> set s"
  by (induction s) (auto simp: startswith_def)

lemma unparen_id: "CHR ''('' \<notin> set s \<Longrightarrow> unparen j s = s"
proof -
  assume "CHR ''('' \<notin> set s"
  moreover have "re_needs CHR ''('' (paren_re front j)" for front
  proof -
    have "re_needs CHR ''('' (seqs (front @ [chr_re CHR ''('', lit j, lit ''-1)'']))"
    proof (induction front)
      case (Cons r front)
      then show ?case by (cases "front @ [chr_re CHR ''('', lit j, lit ''-1)'']") auto
    qed (simp add: chr_re_def)
    then show ?thesis by (simp add: paren_re_def)
  qed
  ultimately show ?thesis using re_sub_absent [of "CHR ''(''"] by (simp add: unparen_def)
qed

definition letter :: "char \<Rightarrow> bool" where
  "letter c = (is_word c \<and> \<not> is_digit c)"

lemma letter_facts: "letter c \<Longrightarrow> c \<notin> set ''*+-( )''" "letter c \<Longrightarrow> \<not> is_digit c" "letter c \<Longrightarrow> c \<notin> set (str_nat n)"
  using word_char str_nat_digits by (fastforce simp: letter_def)+

text \<open>The iterate's term at the start of a text: an optional sign, and before it at most a number.\<close>

lemma opt_skip: "re_m r p c k = None \<Longrightarrow> k p c = Some x \<Longrightarrow> re_m (opt r) p c k = Some x"
  by (simp add: opt_def)

lemma opt_take: "re_m r p c k = Some x \<Longrightarrow> re_m (opt r) p c k = Some x"
  by (simp add: opt_def)

lemma sign_cls: "in_cls False [(43, 43), (45, 45)] c \<longleftrightarrow> c = CHR ''+'' \<or> c = CHR ''-''"
  using code_inject [of c "CHR ''+''"] code_inject [of c "CHR ''-''"]
  by (auto simp: in_cls_def in_ranges_def code_def simp del: code_inject)

definition sign_text :: "string \<Rightarrow> bool" where
  "sign_text s = (s = [] \<or> s = ''+'' \<or> s = ''-'')"

lemma iterate_match:
  assumes j: "letter j" and sg: "sign_text sg" and ds: "list_all is_digit ds" and "ds \<noteq> [] \<longrightarrow> sg \<noteq> []"
  shows "\<exists>m. re_search (coeff_re [j]) (ds @ sg @ j # u) = Some m \<and> m_text m = ds @ sg @ [j] \<and> grp0 m 1 = ds \<and> grp0 m 2 = sg"
proof -
  let ?s = "ds @ sg @ j # u"
  have jf: "\<not> is_digit j" "j \<noteq> CHR ''*''" "j \<noteq> CHR ''+''" "j \<noteq> CHR ''-''" using letter_facts [OF j] by auto
  have ns: "\<not> is_digit CHR ''+''" "\<not> is_digit CHR ''-''" by code_simp+
  have hd: "\<not> is_digit (hd (sg @ j # u))" using sg jf ns by (auto simp: sign_text_def)
  have star: "re_m (chr_re CHR ''*'') (q, sg @ j # u) c k = None" for q c k
    using sg jf by (auto simp: sign_text_def)
  define K where "K = (\<lambda>p' c'. Some (p' :: pos, c' :: caps))"
  obtain q where tail: "re_m (Seq (Grp 2 (opt (Cls False [(43, 43), (45, 45)]))) (lit [j])) (q', sg @ j # u) c K =
      Some ((Some j, u), (2, Suc (length sg + length u), sg) # c)" for q' c
    using sg jf by (auto simp: sign_text_def opt_def sign_cls lit_def mk_cap_def K_def)
  have "re_m (coeff_re [j]) (None, ?s) [] K = Some ((Some j, u), [(2, Suc (length sg + length u), sg), (1, length ?s, ds)])"
    unfolding coeff_re_def seqs.simps many_def re_digit_def
    apply (rule m_Seq, rule m_Grp, rule m_star, rule m_Seq, rule opt_skip)
    apply (rule star)
    using ds hd by (simp_all add: tail mk_cap_def in_cls_digit list_all_iff del: re_m.simps)
  then have at: "re_at (coeff_re [j]) (None, ?s) = Some ((Some j, u), [(2, Suc (length sg + length u), sg), (1, length ?s, ds)])"
    by (simp add: re_at_def K_def)
  show ?thesis using re_search_here [OF at] by (simp add: mk_match_def grp0_def grp_def)
qed

lemma replace_first_prefix: "p \<noteq> [] \<Longrightarrow> replace_first p new (p @ s) = new @ s"
  by (cases p) (simp_all add: startswith_def)

lemma take_iterate:
  assumes "letter j" and "sign_text sg"
  shows "take_iterate [j] (sg @ j # u) = Some (if sg = ''-'' then -1 else 1, u)"
    and "sg \<noteq> [] \<Longrightarrow> take_iterate [j] (str_nat k @ sg @ j # u) = Some (if sg = ''-'' then - int k else int k, u)"
proof -
  obtain m where m: "re_search (coeff_re [j]) ([] @ sg @ j # u) = Some m" "m_text m = [] @ sg @ [j]" "grp0 m 1 = []" "grp0 m 2 = sg"
    using iterate_match [OF assms, of "[]" u] by auto
  have "replace_first (sg @ [j]) [] ((sg @ [j]) @ u) = [] @ u" by (rule replace_first_prefix) simp
  with m show "take_iterate [j] (sg @ j # u) = Some (if sg = ''-'' then -1 else 1, u)"
    by (simp add: take_iterate_def)
  assume ne: "sg \<noteq> []"
  have "list_all is_digit (str_nat k)" using str_nat_digits by (simp add: list_all_iff)
  with iterate_match [OF assms, of "str_nat k" u] ne obtain n where
    n: "re_search (coeff_re [j]) (str_nat k @ sg @ j # u) = Some n" "m_text n = str_nat k @ sg @ [j]" "grp0 n 1 = str_nat k" "grp0 n 2 = sg"
    by auto
  have "replace_first (str_nat k @ sg @ [j]) [] ((str_nat k @ sg @ [j]) @ u) = [] @ u" by (rule replace_first_prefix) simp
  moreover have "py_int (str_nat k) = Some (int k)" using py_int_str_int [of "int k"] by (simp add: str_int_def)
  ultimately show "take_iterate [j] (str_nat k @ sg @ j # u) = Some (if sg = ''-'' then - int k else int k, u)"
    using n by (simp add: take_iterate_def)
qed

lemma parse_plain:
  assumes "letter j" and "letter x" and "j \<noteq> x" and "CHR ''('' \<notin> set s" and "CHR '')'' \<notin> set s"
    and "filter (\<lambda>c. c \<noteq> CHR '' '' \<and> c \<noteq> x) s = e" and "take_iterate [j] e = Some (a, e')" and "j \<in> set e" and "j \<notin> set e'"
    and "r = (if strip_plus e' = [] then ''0'' else strip_plus e')" and "r = ''-'' \<and> b = 0 \<or> r \<noteq> ''-'' \<and> signed_digits ''+-'' r \<and> py_int r = Some b"
  shows "parse_affine s [x] [j] = Inr (a, b, int (count_list s x))"
proof -
  have x: "x \<noteq> CHR '' ''" using letter_facts(1) [OF assms(2)] by auto
  have s': "unparen [j] (replace '' '' [] s) = filter (\<lambda>c. c \<noteq> CHR '' '') s"
    using assms(4) by (subst unparen_id) (simp_all add: replace_char)
  have "count_list (filter (\<lambda>c. c \<noteq> CHR '' '') s) x = count_list s x" using x by (induction s) auto
  moreover have "replace [x] [] (filter (\<lambda>c. c \<noteq> CHR '' '') s) = e" using assms(6) by (simp add: replace_char conj_commute)
  ultimately show ?thesis
    using assms(4,5,7-11) by (auto simp: parse_affine_def Let_def s' count_char contains_char)
qed

section \<open>Properties\<close>



text \<open>C28. Subscripts written with the iterate's term first are read exactly: the slope, the constant and the number
  of times the extent is added come back. This covers \<open>j + b\<close> and \<open>-j + b\<close> with any number of extents
  behind, for one-letter names.\<close>

definition affine_text :: "int \<Rightarrow> int \<Rightarrow> nat \<Rightarrow> char \<Rightarrow> char \<Rightarrow> string" where
  "affine_text a b n x j =
     concat [if a = -1 then ''-'' else [], [j], if b < 0 then '' - '' else '' + '', str_nat (nat \<bar>b\<bar>),
       concat (replicate n ('' + '' @ [x]))]"

theorem parse_affine_text:
  assumes "letter j" and "letter x" and "j \<noteq> x" and "\<bar>a\<bar> = 1"
  shows "parse_affine (affine_text a b n x j) [x] [j] = Inr (a, b, int n)"
proof -
  let ?sg = "if a = -1 then ''-'' else []" and ?d = "str_nat (nat \<bar>b\<bar>)" and ?sb = "if b < 0 then ''-'' else ''+''"
  let ?e = "?sb @ ?d @ replicate n CHR ''+''"
  have jx: "CHR '' '' \<noteq> x" "CHR '' '' \<noteq> j" "CHR ''+'' \<noteq> x" "CHR ''-'' \<noteq> x" "CHR ''+'' \<noteq> j" "CHR ''-'' \<noteq> j" "CHR ''('' \<noteq> x" "CHR ''('' \<noteq> j"
    "CHR '')'' \<noteq> x" "CHR '')'' \<noteq> j" "x \<notin> set ?d" "j \<notin> set ?d"
    using letter_facts(1,3) [OF assms(1)] letter_facts(1,3) [OF assms(2)] by auto
  have d: "\<forall>c \<in> set ?d. c \<noteq> CHR '' '' \<and> c \<noteq> x \<and> c \<noteq> CHR ''('' \<and> c \<noteq> CHR '')''"
  proof
    fix c assume c: "c \<in> set ?d"
    then have "is_digit c" using str_nat_digits by blast
    from digit_char_not [OF this] c jx(11) show "c \<noteq> CHR '' '' \<and> c \<noteq> x \<and> c \<noteq> CHR ''('' \<and> c \<noteq> CHR '')''" by auto
  qed
  have paren: "CHR ''('' \<notin> set (affine_text a b n x j)" "CHR '')'' \<notin> set (affine_text a b n x j)"
  proof -
    have pd: "CHR ''('' \<notin> set ?d" "CHR '')'' \<notin> set ?d" using d by blast+
    have "CHR ''('' \<notin> set (concat (replicate n ('' + '' @ [x])))" "CHR '')'' \<notin> set (concat (replicate n ('' + '' @ [x])))"
      using jx by (induction n) simp_all
    with pd jx show "CHR ''('' \<notin> set (affine_text a b n x j)" "CHR '')'' \<notin> set (affine_text a b n x j)"
      by (simp_all add: affine_text_def)
  qed
  have ext: "filter (\<lambda>c. c \<noteq> CHR '' '' \<and> c \<noteq> x) (concat (replicate n ('' + '' @ [x]))) = replicate n CHR ''+''"
    using jx by (induction n) auto
  have fd: "filter (\<lambda>c. c \<noteq> CHR '' '' \<and> c \<noteq> x) ?d = ?d" using d by (simp add: filter_id_conv)
  have f: "filter (\<lambda>c. c \<noteq> CHR '' '' \<and> c \<noteq> x) (affine_text a b n x j) = ?sg @ j # ?e"
    using jx assms(3) ext by (simp add: affine_text_def fd)
  have "sign_text ?sg" by (simp add: sign_text_def)
  from take_iterate(1) [OF assms(1) this, of ?e] assms(4) have t: "take_iterate [j] (?sg @ j # ?e) = Some (a, ?e)"
    by (auto simp: abs_if split: if_splits)
  have count: "count_list (affine_text a b n x j) x = n"
  proof -
    have "count_list (concat (replicate n ('' + '' @ [x]))) x = n" using jx by (induction n) auto
    moreover have "count_list ?d x = 0" using jx(11) by (simp add: count_list_0_iff)
    ultimately show ?thesis using jx assms(3) by (simp add: affine_text_def)
  qed
  have sp: "strip_plus (str_nat k @ replicate n CHR ''+'') = str_nat k" "strip_plus (CHR ''+'' # str_nat k @ replicate n CHR ''+'') = str_nat k"
    "strip_plus (CHR ''-'' # str_nat k @ replicate n CHR ''+'') = CHR ''-'' # str_nat k" for k
  proof -
    obtain c u where u: "rev (str_nat k) = c # u" by (cases "rev (str_nat k)") auto
    then have "c \<in> set (str_nat k)" by (metis list.set_intros(1) set_rev)
    then have c: "c \<noteq> CHR ''+''" using str_nat_digits digit_char_not by fastforce
    obtain e v where v: "str_nat k = e # v" by (cases "str_nat k") auto
    then have "e \<in> set (str_nat k)" by simp
    then have e: "e \<noteq> CHR ''+''" using str_nat_digits digit_char_not by fastforce
    have bk: "rev (dropWhile ((=) CHR ''+'') (replicate n CHR ''+'' @ rev (str_nat k) @ w)) = rev w @ str_nat k" for w
      using c u by (subst dropWhile_append2) (auto simp: rev_swap)
    show "strip_plus (str_nat k @ replicate n CHR ''+'') = str_nat k" "strip_plus (CHR ''+'' # str_nat k @ replicate n CHR ''+'') = str_nat k"
      using bk [of "[]"] e by (simp_all add: strip_plus_def v)
    show "strip_plus (CHR ''-'' # str_nat k @ replicate n CHR ''+'') = CHR ''-'' # str_nat k"
      using bk [of "[CHR 0x2D]"] by (simp add: strip_plus_def)
  qed
  define r where "r = (if b < 0 then CHR ''-'' # ?d else ?d)"
  have "strip_plus ?e = r" using sp by (simp add: r_def)
  moreover have "r \<noteq> []" by (simp add: r_def)
  moreover have "r \<noteq> ''-''"
  proof
    assume "r = ''-''"
    then have "py_int ''-'' = Some b" by (metis r_def str_int_def py_int_str_int abs_of_nonneg abs_of_neg not_less)
    moreover have "py_int ''-'' = None" by code_simp
    ultimately show False by simp
  qed
  moreover have "signed_digits ''+-'' r" by (simp add: r_def signed_digits_def)
  moreover have "r = str_int b" by (simp add: r_def str_int_def)
  ultimately show ?thesis
    using parse_plain [OF assms(1-3) paren f t] jx count by simp
qed

theorem parse_affine_text_witness:
  "parse_affine ''-j + 3 + m + m'' ''m'' ''j'' = Inr (-1, 3, 2)"
proof -
  have l: "letter CHR ''j''" "letter CHR ''m''" by code_simp+
  have "affine_text (-1) 3 2 CHR ''m'' CHR ''j'' = ''-j + 3 + m + m''" by code_simp
  with parse_affine_text [OF l, of "-1" 3 2] show ?thesis by simp
qed

text \<open>Subscripts written another way are misread without an error: a constant in front of the iterate's term is taken
  for its coefficient, so \<open>1 + j\<close> and \<open>1 - j\<close> lose their constant, and the sign in front of the extent is
  ignored, so \<open>j - m\<close> is read as \<open>j + m\<close>. The derived offsets are then off without the module refusing.\<close>

theorem parse_affine_misreads:
  assumes "letter j" and "letter x" and "j \<noteq> x"
  shows "parse_affine (str_nat k @ '' + '' @ [j]) [x] [j] = Inr (int k, 0, 0) \<and>
    parse_affine (str_nat k @ '' - '' @ [j]) [x] [j] = Inr (- int k, 0, 0) \<and>
    parse_affine ([j] @ '' - '' @ [x]) [x] [j] = Inr (1, 0, 1)"
proof -
  let ?d = "str_nat k"
  have jx: "CHR '' '' \<noteq> x" "CHR '' '' \<noteq> j" "CHR ''+'' \<noteq> x" "CHR ''-'' \<noteq> x" "CHR ''+'' \<noteq> j" "CHR ''-'' \<noteq> j" "CHR ''('' \<noteq> x" "CHR ''('' \<noteq> j"
    "CHR '')'' \<noteq> x" "CHR '')'' \<noteq> j" "x \<notin> set ?d" "j \<notin> set ?d"
    using letter_facts(1,3) [OF assms(1)] letter_facts(1,3) [OF assms(2)] by auto
  have nd: "CHR '' '' \<notin> set ?d" "CHR ''('' \<notin> set ?d" "CHR '')'' \<notin> set ?d"
    using str_nat_digits digit_char_not by fastforce+
  have fd: "filter (\<lambda>c. c \<noteq> CHR '' '' \<and> c \<noteq> x) ?d = ?d" using nd(1) jx(11) by (intro filter_True) auto
  have count: "count_list ?d x = 0" using jx(11) by (simp add: count_list_0_iff)
  have sg: "sign_text [CHR ''+'']" "sign_text [CHR ''-'']" "sign_text []" by (simp_all add: sign_text_def)
  have zero: "signed_digits ''+-'' ''0'' \<and> py_int ''0'' = Some 0" by code_simp
  have e: "strip_plus [] = []" "strip_plus ''-'' = ''-''" by code_simp+
  have "parse_affine (?d @ '' + '' @ [j]) [x] [j] = Inr (int k, 0, int (count_list (?d @ '' + '' @ [j]) x))"
    by (rule parse_plain [OF assms _ _ _ take_iterate(2) [OF assms(1) sg(1), of k "[]", simplified]])
      (use jx nd fd assms(3) e zero in auto)
  with count jx assms(3) have r1: "parse_affine (?d @ '' + '' @ [j]) [x] [j] = Inr (int k, 0, 0)" by simp
  have "parse_affine (?d @ '' - '' @ [j]) [x] [j] = Inr (- int k, 0, int (count_list (?d @ '' - '' @ [j]) x))"
    by (rule parse_plain [OF assms _ _ _ take_iterate(2) [OF assms(1) sg(2), of k "[]", simplified]])
      (use jx nd fd assms(3) e zero in auto)
  with count jx assms(3) have r2: "parse_affine (?d @ '' - '' @ [j]) [x] [j] = Inr (- int k, 0, 0)" by simp
  have "parse_affine ([j] @ '' - '' @ [x]) [x] [j] = Inr (1, 0, int (count_list ([j] @ '' - '' @ [x]) x))"
    by (rule parse_plain [OF assms _ _ _ take_iterate(1) [OF assms(1) sg(3), of "''-''", simplified]])
      (use jx assms(3) e in auto)
  with jx assms(3) have "parse_affine ([j] @ '' - '' @ [x]) [x] [j] = Inr (1, 0, 1)" by simp
  with r1 r2 show ?thesis by blast
qed

theorem parse_affine_misreads_witness:
  "parse_affine ''1 + j'' ''m'' ''j'' = Inr (1, 0, 0) \<and> parse_affine ''1 - j'' ''m'' ''j'' = Inr (-1, 0, 0) \<and>
   parse_affine ''j - m'' ''m'' ''j'' = Inr (1, 0, 1)"
proof -
  have l: "letter CHR ''j''" "letter CHR ''m''" "str_nat 1 = ''1''" by code_simp+
  then show ?thesis using parse_affine_misreads [OF l(1,2), of 1] by simp
qed

end
