(* ===== verification/Abi_Interface.thy ===== *)
theory Abi_Interface
  imports Prelude
begin

text \<open>
  \<open>src/dace_fortran/abi_interface.py\<close>: the Fortran dummy declarations of a compiled library, from its ABI manifest.
  The manifest's keys that may be missing are options; the messages of the errors are left out, their
  subjects are kept.
\<close>

record abi_arg =
  ab_name :: string
  ab_kind :: "string option"
  ab_dtype :: "string option"

datatype abi_error =
    UntypedArgument string string     \<comment> \<open>the argument, the library\<close>
  | UnsupportedDtype string string string
  | UnsupportedKind "string option" string string

definition ARRAY_TYPE :: string where "ARRAY_TYPE = ''type(c_ptr)''"
definition EXTENT_TYPE :: string where "EXTENT_TYPE = ''integer(c_int64_t)''"

definition BY_VALUE_TYPE :: "(string \<times> string) list" where
  "BY_VALUE_TYPE = [(''double'', ''real(c_double)''), (''float'', ''real(c_float)''), (''int'', ''integer(c_int)''),
     (''int64_t'', ''integer(c_int64_t)''), (''int64'', ''integer(c_int64_t)''), (''bool'', ''logical(c_bool)'')]"

definition by_value_type :: "string \<Rightarrow> string \<Rightarrow> string \<Rightarrow> abi_error + string" where
  "by_value_type dtype name library =
     (if dtype = ''unknown'' then Inl (UntypedArgument name library)
      else of_option (UnsupportedDtype dtype name library) (map_of BY_VALUE_TYPE dtype))"

definition arg_declaration :: "string \<Rightarrow> string \<Rightarrow> abi_arg \<Rightarrow> abi_error + string" where
  "arg_declaration indent library a =
     (if ab_kind a = Some ''array'' then Inr (concat [indent, ARRAY_TYPE, '', value :: '', ab_name a])
      else if ab_kind a = Some ''extent'' then Inr (concat [indent, EXTENT_TYPE, '', value :: '', ab_name a])
      else if ab_kind a = Some ''scalar'' \<or> ab_kind a = Some ''symbol''
      then rbind (by_value_type (case ab_dtype a of None \<Rightarrow> ''unknown'' | Some t \<Rightarrow> t) (ab_name a) library) (\<lambda>ftype.
        Inr (concat [indent, ftype, '', value :: '', ab_name a]))
      else Inl (UnsupportedKind (ab_kind a) (ab_name a) library))"

definition declarations :: "string \<Rightarrow> string \<Rightarrow> abi_arg list \<Rightarrow> abi_error + string list" where
  "declarations indent library args = rmap (arg_declaration indent library) args"

text \<open>A later argument of the same name takes the place of an earlier one.\<close>

definition by_name :: "string \<Rightarrow> string \<Rightarrow> abi_arg list \<Rightarrow> abi_error + (string \<rightharpoonup> string)" where
  "by_name indent library args =
     rbind (declarations indent library args) (\<lambda>ds. Inr (map_of (rev (zip (map ab_name args) ds))))"

section \<open>What is declared\<close>

text \<open>The Fortran type of an argument the manifest describes completely.\<close>

definition typed :: "abi_arg \<Rightarrow> string option" where
  "typed a =
     (case ab_kind a of
        None \<Rightarrow> None
      | Some k \<Rightarrow>
          if k = ''array'' then Some ARRAY_TYPE else if k = ''extent'' then Some EXTENT_TYPE
          else if k = ''scalar'' \<or> k = ''symbol'' then Option.bind (ab_dtype a) (map_of BY_VALUE_TYPE) else None)"

lemma unknown_untyped: "map_of BY_VALUE_TYPE ''unknown'' = None"
  by code_simp

lemma arg_declaration_typed:
  "arg_declaration indent library a = Inr d \<longleftrightarrow> (\<exists>t. typed a = Some t \<and> d = indent @ t @ '', value :: '' @ ab_name a)"
proof -
  have bv: "by_value_type (case ab_dtype a of None \<Rightarrow> ''unknown'' | Some t \<Rightarrow> t) n l = Inr t \<longleftrightarrow>
      Option.bind (ab_dtype a) (map_of BY_VALUE_TYPE) = Some t" for n l t
    using unknown_untyped
    by (cases "ab_dtype a") (auto simp: by_value_type_def of_option_def split: option.splits)
  consider "ab_kind a = None" | "ab_kind a = Some ''array''" | "ab_kind a = Some ''extent''"
    | "ab_kind a = Some ''scalar'' \<or> ab_kind a = Some ''symbol''"
    | k where "ab_kind a = Some k" "k \<noteq> ''array''" "k \<noteq> ''extent''" "k \<noteq> ''scalar''" "k \<noteq> ''symbol''" by fastforce
  then show ?thesis
  proof cases
    case 4
    then show ?thesis by (auto simp: arg_declaration_def typed_def rbind_Inr_iff bv)
  qed (auto simp: arg_declaration_def typed_def)
qed

text \<open>The declarations are one line per argument in the manifest's order, each with the type the manifest records, and
  they are produced exactly when the manifest types every argument; nothing is guessed.\<close>

theorem declarations_iff:
  "declarations indent library args = Inr ds \<longleftrightarrow>
     list_all2 (\<lambda>a d. \<exists>t. typed a = Some t \<and> d = indent @ t @ '', value :: '' @ ab_name a) args ds"
  by (simp add: declarations_def rmap_Inr_iff arg_declaration_typed)

lemma by_name_lookup:
  assumes "by_name indent library args = Inr m" and "distinct (map ab_name args)" and "a \<in> set args"
  shows "\<exists>d. arg_declaration indent library a = Inr d \<and> m (ab_name a) = Some d"
proof -
  from assms(1) obtain ds where ds: "list_all2 (\<lambda>a d. arg_declaration indent library a = Inr d) args ds"
    "m = map_of (rev (zip (map ab_name args) ds))"
    by (auto simp: by_name_def declarations_def rbind_Inr_iff rmap_Inr_iff)
  from assms(3) obtain i where i: "i < length args" "args ! i = a" by (auto simp: in_set_conv_nth)
  have len: "length ds = length args" using ds(1) by (simp add: list_all2_lengthD)
  have "distinct (map fst (rev (zip (map ab_name args) ds)))" using assms(2) len by (simp flip: rev_map)
  moreover have "(ab_name a, ds ! i) \<in> set (rev (zip (map ab_name args) ds))"
    using i len by (auto simp: set_zip intro!: exI [of _ i])
  ultimately have "m (ab_name a) = Some (ds ! i)" unfolding ds(2) by (rule map_of_is_SomeI)
  moreover have "arg_declaration indent library a = Inr (ds ! i)" using list_all2_nthD [OF ds(1) i(1)] i(2) by simp
  ultimately show ?thesis by blast
qed

end
