(* ===== verification/Source_Scan.thy ===== *)
theory Source_Scan
  imports Regex "HOL-Library.Sublist"
begin

text \<open>
  The helpers every pass of \<open>preprocess.py\<close> works with: \<open>_scan_line\<close>, which finds the comment and the
  character literals of a line, \<open>_code_of\<close> and \<open>_line_clip_comment\<close> on top of it, the split of a line into
  code, comment and line end, and the edits a pass collects and applies from right to left.

  A locale states what a pass that collects edits owes, and derives what then holds of the text it returns.
\<close>

section \<open>Comments and character literals\<close>

type_synonym spans = "(nat \<times> nat) list"

text \<open>How many characters after the opening quote belong to the literal, the closing quote included; a
  doubled quote does not close it.\<close>

fun literal_end :: "char \<Rightarrow> string \<Rightarrow> nat" where
  "literal_end q [] = 0"
| "literal_end q [c] = 1"
| "literal_end q (c # d # u) =
     (if c = q then (if d = q then 2 + literal_end q u else 1) else 1 + literal_end q (d # u))"

definition is_quote :: "char \<Rightarrow> bool" where
  "is_quote c = (code c = 39 \<or> code c = 34)"

function scan_from :: "nat \<Rightarrow> string \<Rightarrow> nat \<times> spans" where
  "scan_from i [] = (i, [])"
| "scan_from i (c # u) =
     (if is_quote c then
        (let k = literal_end c u; (cut, sp) = scan_from (i + 1 + k) (drop k u) in (cut, (i, i + 1 + k) # sp))
      else if c = CHR ''!'' then (i, [])
      else scan_from (i + 1) u)"
  by pat_completeness auto
termination
  by (relation "measure (\<lambda>(i, u). length u)") auto

text \<open>Where the comment starts (the length of the line if there is none) and the literals before it.\<close>

definition scan_line :: "string \<Rightarrow> nat \<times> spans" where
  "scan_line body = scan_from 0 body"

definition in_spans :: "spans \<Rightarrow> nat \<Rightarrow> bool" where
  "in_spans sp i = list_ex (\<lambda>(s, e). s \<le> i \<and> i < e) sp"

text \<open>\<open>_code_of\<close>: the code of a line with its literals blanked, and \<open>_line_clip_comment\<close>.\<close>

definition code_of_line :: "string \<Rightarrow> string" where
  "code_of_line l =
     (let (n, sp) = scan_line l in map (\<lambda>i. if in_spans sp i then CHR '' '' else l ! i) [0..<n])"

definition clip_comment :: "string \<Rightarrow> string" where
  "clip_comment raw = take (fst (scan_line raw)) raw"

section \<open>Lines\<close>

text \<open>\<open>line.rstrip("\r\n")\<close>, and what it takes off.\<close>

definition line_body :: "string \<Rightarrow> string" where
  "line_body l = rev (dropWhile (\<lambda>c. c = LF \<or> c = CR) (rev l))"

definition line_end :: "string \<Rightarrow> string" where
  "line_end l = drop (length (line_body l)) l"

definition line_code :: "string \<Rightarrow> string" where
  "line_code l = clip_comment (line_body l)"

definition line_strings :: "string \<Rightarrow> spans" where
  "line_strings l = snd (scan_line (line_body l))"

definition line_tail :: "string \<Rightarrow> string" where
  "line_tail l = drop (fst (scan_line (line_body l))) (line_body l) @ line_end l"

text \<open>The loop of the passes that rewrite the code of each line.\<close>

definition on_lines :: "(string \<Rightarrow> spans \<Rightarrow> string) \<Rightarrow> string \<Rightarrow> string" where
  "on_lines f source = concat (map (\<lambda>l. f (line_code l) (line_strings l) @ line_tail l) (splitlines_keep source))"

section \<open>Edits\<close>

type_synonym edit = "nat \<times> nat \<times> string"

definition apply_edit :: "edit \<Rightarrow> string \<Rightarrow> string" where
  "apply_edit e s = (case e of (b, f, r) \<Rightarrow> take b s @ r @ drop f s)"

text \<open>Edits in the order of the text, applied from the last to the first.\<close>

definition apply_edits :: "edit list \<Rightarrow> string \<Rightarrow> string" where
  "apply_edits es s = foldr apply_edit es s"

section \<open>Facts\<close>

lemma literal_end_le: "literal_end q u \<le> length u"
  by (induction q u rule: literal_end.induct) auto

lemma scan_from_bounds:
  "scan_from i u = (n, sp) \<Longrightarrow> i \<le> n \<and> n \<le> i + length u \<and> (\<forall>(s, e) \<in> set sp. i \<le> s \<and> s < e \<and> e \<le> n)"
proof (induction i u arbitrary: n sp rule: scan_from.induct)
  case (2 i c u)
  show ?case
  proof (cases "is_quote c")
    case True
    define k where "k = literal_end c u"
    obtain n' sp' where r: "scan_from (i + 1 + k) (drop k u) = (n', sp')" by force
    with "2.prems" True have "n = n'" "sp = (i, i + 1 + k) # sp'" by (auto simp: k_def Let_def)
    with "2.IH"(1) [OF True k_def, of n' sp'] r literal_end_le [of c u] show ?thesis
      by (auto simp: k_def)
  next
    case False
    show ?thesis
    proof (cases "c = CHR ''!''")
      case True
      with False "2.prems" show ?thesis by auto
    next
      case ne: False
      with False "2.prems" "2.IH"(2) [OF False ne, of n sp] show ?thesis by fastforce
    qed
  qed
qed simp

lemma scan_line_cut: "fst (scan_line l) \<le> length l"
  using scan_from_bounds [of 0 l "fst (scan_line l)" "snd (scan_line l)"] by (simp add: scan_line_def)

lemma scan_line_spans: "(s, e) \<in> set (snd (scan_line l)) \<Longrightarrow> s < e \<and> e \<le> fst (scan_line l)"
  using scan_from_bounds [of 0 l "fst (scan_line l)" "snd (scan_line l)"] by (auto simp: scan_line_def)

lemma line_parts: "line_body l @ line_end l = l"
proof -
  obtain w where "rev l = w @ dropWhile (\<lambda>c. c = LF \<or> c = CR) (rev l)"
    by (metis takeWhile_dropWhile_id)
  then have "l = line_body l @ rev w"
    unfolding line_body_def by (metis rev_append rev_rev_ident)
  then have "line_end l = rev w" unfolding line_end_def by (metis append_eq_conv_conj)
  with \<open>l = line_body l @ rev w\<close> show ?thesis by simp
qed

lemma line_code_tail: "line_code l @ line_tail l = l"
  using line_parts [of l] by (simp add: line_code_def clip_comment_def line_tail_def flip: append_assoc)

lemma on_lines_id: "(\<And>l. l \<in> set (splitlines_keep s) \<Longrightarrow> f (line_code l) (line_strings l) = line_code l) \<Longrightarrow> on_lines f s = s"
proof -
  assume "\<And>l. l \<in> set (splitlines_keep s) \<Longrightarrow> f (line_code l) (line_strings l) = line_code l"
  then have "on_lines f s = concat (map (\<lambda>l. l) (splitlines_keep s))"
    unfolding on_lines_def by (intro arg_cong [where f = concat] map_cong refl) (simp add: line_code_tail)
  then show ?thesis by simp
qed

text \<open>Edits that start at \<open>i\<close> or later, lie in the text and do not overlap, in the order of the text.\<close>

fun edits_from :: "nat \<Rightarrow> nat \<Rightarrow> edit list \<Rightarrow> bool" where
  "edits_from i n [] = (i \<le> n)"
| "edits_from i n ((b, f, r) # es) = (i \<le> b \<and> b \<le> f \<and> edits_from f n es)"

text \<open>What such edits do to the text from \<open>i\<close> on.\<close>

fun edited :: "nat \<Rightarrow> string \<Rightarrow> edit list \<Rightarrow> string" where
  "edited i s [] = drop i s"
| "edited i s ((b, f, r) # es) = take (b - i) (drop i s) @ r @ edited f s es"

lemma edits_from_le: "edits_from i n es \<Longrightarrow> i \<le> n"
  by (induction i n es rule: edits_from.induct) auto

lemma apply_edits_splice: "edits_from i (length s) es \<Longrightarrow> apply_edits es s = take i s @ edited i s es"
proof (induction i "length s" es rule: edits_from.induct)
  case (2 i b f r es)
  from 2 have ih: "apply_edits es s = take f s @ edited f s es" by simp
  have le: "i \<le> b" "b \<le> f" "f \<le> length s" using 2 edits_from_le [of f "length s" es] by auto
  then have "take b s = take i s @ take (b - i) (drop i s)" by (metis le_add_diff_inverse take_add)
  with ih le show ?case by (simp add: apply_edits_def apply_edit_def min_def)
qed (simp add: apply_edits_def)

lemma edits_from_snoc:
  "edits_from i n es \<Longrightarrow> (es = [] \<longrightarrow> i \<le> b) \<Longrightarrow> (es \<noteq> [] \<longrightarrow> fst (snd (last es)) \<le> b) \<Longrightarrow> b \<le> f \<Longrightarrow> f \<le> n \<Longrightarrow>
     edits_from i n (es @ [(b, f, r)])"
proof (induction i n es rule: edits_from.induct)
  case (2 i n ba fa ra es)
  then have "edits_from fa n (es @ [(b, f, r)])" by (intro "2.IH") (auto split: if_splits)
  with 2 show ?case by simp
qed simp

section \<open>What a line that matches begins with\<close>

definition hits :: "regex \<Rightarrow> string \<Rightarrow> bool" where
  "hits r l = (re_match r l \<noteq> None)"

definition re_starts :: "string \<Rightarrow> regex \<Rightarrow> bool" where
  "re_starts s r = (\<forall>x y. y \<in> re_set r x \<longrightarrow> startswith (lower (snd (fst x))) s)"

lemma starts_Seq: "re_starts s a \<Longrightarrow> re_starts s (Seq a b)"
  unfolding re_starts_def re_set.simps by blast

lemma starts_Grp: "re_starts s a \<Longrightarrow> re_starts s (Grp n a)"
  unfolding re_starts_def re_set.simps by blast

lemma starts_Alt: "re_starts s a \<Longrightarrow> re_starts s b \<Longrightarrow> re_starts s (Alt a b)"
  unfolding re_starts_def re_set.simps by blast

lemma in_cls_ichr: "in_cls False [(n, n), (n - 32, n - 32)] x \<longleftrightarrow> code x = n \<or> code x = n - 32"
  by (auto simp: in_cls_def in_ranges_def)

lemma ichr_lower: "y \<in> re_set (ichr_re c) x \<Longrightarrow> \<exists>d u. snd (fst x) = d # u \<and> y = ((Some d, u), snd x) \<and> lower_char d = lower_char c"
proof -
  assume y: "y \<in> re_set (ichr_re c) x"
  have "\<exists>neg rs. ichr_re c = Cls neg rs" unfolding ichr_re_def Let_def by (metis (full_types))
  then obtain neg rs where r: "ichr_re c = Cls neg rs" by blast
  from y r obtain d u where d: "snd (fst x) = d # u" "in_cls neg rs d" "y = ((Some d, u), snd x)"
    by (auto split: list.splits if_splits)
  let ?n = "code (lower_char c)"
  have "lower_char d = lower_char c"
  proof (cases "in_ranges [(97, 122)] ?n")
    case True
    then have "neg = False" "rs = [(?n, ?n), (?n - 32, ?n - 32)]" using r by (simp_all add: ichr_re_def Let_def)
    with d(2) have "code d = ?n \<or> code d = ?n - 32" by (simp add: in_cls_ichr)
    then show ?thesis
    proof
      assume "code d = ?n"
      then show ?thesis by simp
    next
      assume e: "code d = ?n - 32"
      with True have "in_ranges [(65, 90), (192, 214), (216, 222)] (code d)" by (simp add: in_ranges_def)
      then have "lower_char d = char_of (code d + 32)" by (simp add: lower_char_def)
      with e show ?thesis by (simp add: code_def)
    qed
  next
    case False
    then have "neg = False" "rs = [(?n, ?n)]" using r by (simp_all add: ichr_re_def Let_def)
    with d(2) have "d = lower_char c" by simp
    then show ?thesis by simp
  qed
  with d show ?thesis by blast
qed

lemma ilit_lower:
  "y \<in> re_set (ilit s) x \<Longrightarrow> \<exists>w. snd (fst x) = w @ snd (fst y) \<and> lower w = lower s"
proof (induction s arbitrary: x)
  case (Cons c s)
  show ?case
  proof (cases s)
    case Nil
    with Cons.prems have "y \<in> re_set (ichr_re c) x" by (simp add: ilit_def)
    from ichr_lower [OF this] Nil show ?thesis by (auto simp: lower_def)
  next
    case (Cons d t)
    with Cons.prems obtain z where z: "z \<in> re_set (ichr_re c) x" "y \<in> re_set (ilit s) z" by (auto simp: ilit_def)
    from Cons.IH [OF z(2)] obtain w where w: "snd (fst z) = w @ snd (fst y)" "lower w = lower s" by blast
    from ichr_lower [OF z(1)] w show ?thesis by (auto simp: lower_def intro: exI [of _ "_ # w"])
  qed
qed (simp add: ilit_def)

lemma starts_ilit: "lower s = take n (lower t) \<Longrightarrow> re_starts (lower s) (ilit t)"
proof -
  assume p: "lower s = take n (lower t)"
  show ?thesis
    unfolding re_starts_def
  proof (intro allI impI)
    fix x y assume "y \<in> re_set (ilit t) x"
    from ilit_lower [OF this] obtain w where w: "snd (fst x) = w @ snd (fst y)" "lower w = lower t" by blast
    have "length (lower s) = min n (length (lower t))" using p by simp
    then have l: "length s \<le> length w" using w(2) by (metis length_lower min.cobounded2)
    have "take (length s) (lower t) = lower s"
      using p by (metis length_lower length_take take_take min.commute take_all_iff nle_le append_take_drop_id min_def)
    moreover have "length t = length w" using w(2) by (metis length_lower)
    ultimately show "startswith (lower (snd (fst x))) (lower s)" using w l by (simp add: startswith_def)
  qed
qed

lemmas re_starts_intros = starts_Seq starts_Grp starts_Alt

text \<open>A directive: the text behind the number sign and the blanks around it.\<close>

definition cpp_re :: "regex \<Rightarrow> regex" where
  "cpp_re r = seqs [Bol, many re_space, chr_re CHR ''#'', many re_space, r]"

definition cpp_word :: "string \<Rightarrow> string" where
  "cpp_word l = lower (lstrip (drop 1 (lstrip l)))"

lemma spaces_lstrip:
  assumes "y \<in> re_set (many re_space) x" and "snd (fst y) = c # u" and "\<not> is_space c"
  shows "lstrip (snd (fst x)) = c # u"
proof -
  from star_cls_consumed [of y True False space_ranges x] assms(1) obtain w where
    w: "snd (fst x) = w @ snd (fst y)" "list_all (in_cls False space_ranges) w"
    by (auto simp: many_def re_space_def)
  with assms(2,3) show ?thesis
    by (auto simp: lstrip_def in_cls_space list_all_iff dropWhile_append)
qed

lemma cpp_hits:
  assumes "hits (cpp_re r) l" and "re_starts (c # s) r" and "\<not> is_space c" and "lower_char c = c"
  shows "\<exists>t. lstrip l = CHR ''#'' # t \<and> startswith (cpp_word l) (c # s)"
proof -
  obtain q where "q \<in> re_set (cpp_re r) ((None, l), [])"
    using assms(1) unfolding hits_def re_match_None_iff by blast
  then have "\<exists>x1 \<in> re_set (many re_space) ((None, l), []). \<exists>x2 \<in> re_set (chr_re CHR ''#'') x1.
      \<exists>x3 \<in> re_set (many re_space) x2. q \<in> re_set r x3"
    unfolding cpp_re_def seqs.simps re_set.simps(3,7) by (simp del: re_set.simps(1,2,4-11) split_paired_Ex)
  then obtain x1 x2 x3 y where m: "x1 \<in> re_set (many re_space) ((None, l), [])" "x2 \<in> re_set (chr_re CHR ''#'') x1"
    "x3 \<in> re_set (many re_space) x2" "y \<in> re_set r x3"
    by blast
  from m(2) have h: "snd (fst x1) = CHR ''#'' # snd (fst x2)"
    by (auto simp: chr_re_def split: list.splits if_splits)
  have "\<not> is_space CHR ''#''" by code_simp
  from spaces_lstrip [OF m(1) h this] have l: "lstrip l = CHR ''#'' # snd (fst x2)" by simp
  have st: "startswith (lower (snd (fst x3))) (c # s)" using assms(2) m(4) unfolding re_starts_def by blast
  then obtain d u where d: "snd (fst x3) = d # u" "lower_char d = c"
    by (cases "snd (fst x3)") (auto simp: startswith_def lower_def)
  have "\<not> is_space d"
  proof
    assume "is_space d"
    then have "lower_char d = d" by (auto simp: is_space_def lower_char_def range_defs)
    with d(2) \<open>is_space d\<close> assms(3) show False by simp
  qed
  from spaces_lstrip [OF m(3) d(1) this] have "lstrip (snd (fst x2)) = snd (fst x3)" using d(1) by simp
  with st have "startswith (cpp_word l) (c # s)" by (simp add: cpp_word_def l)
  with l show ?thesis by blast
qed

lemma bang_lead:
  assumes "hits (Seq Bol (Seq (many re_space) (Seq (chr_re CHR ''!'') r))) l"
  shows "\<exists>t. lstrip l = CHR ''!'' # t"
proof -
  obtain q where "q \<in> re_set (Seq Bol (Seq (many re_space) (Seq (chr_re CHR ''!'') r))) ((None, l), [])"
    using assms unfolding hits_def re_match_None_iff by blast
  then have "\<exists>x1 \<in> re_set (many re_space) ((None, l), []). \<exists>x2 \<in> re_set (chr_re CHR ''!'') x1. q \<in> re_set r x2"
    unfolding re_set.simps(3,7) by (simp del: re_set.simps(1,2,4-11) split_paired_Ex)
  then obtain x1 x2 where m: "x1 \<in> re_set (many re_space) ((None, l), [])" "x2 \<in> re_set (chr_re CHR ''!'') x1" by blast
  from m(2) have h: "snd (fst x1) = CHR ''!'' # snd (fst x2)"
    by (auto simp: chr_re_def split: list.splits if_splits)
  have "\<not> is_space CHR ''!''" by code_simp
  from spaces_lstrip [OF m(1) h this] show ?thesis by simp
qed

section \<open>Splitting what was joined\<close>

text \<open>One line with its end, and a text's lines: only the last one can lack an end.\<close>

definition is_line :: "string \<Rightarrow> bool" where
  "is_line l = (l \<noteq> [] \<and> CR \<notin> set l \<and> list_all (\<lambda>c. \<not> is_eol c) (butlast l))"

fun lines_ok :: "string list \<Rightarrow> bool" where
  "lines_ok [] = True"
| "lines_ok (l # ls) = (is_line l \<and> (ls \<noteq> [] \<longrightarrow> is_eol (last l)) \<and> lines_ok ls)"

lemma split_ended: "is_line l \<Longrightarrow> is_eol (last l) \<Longrightarrow> splitlines_keep (l @ s) = l # splitlines_keep s"
proof (induction l)
  case (Cons c l)
  have ncr: "c \<noteq> CR" using Cons.prems(1) by (auto simp: is_line_def)
  show ?case
  proof (cases l)
    case Nil
    with Cons.prems ncr show ?thesis by simp
  next
    case (Cons d m)
    with Cons.prems have "is_line l" "is_eol (last l)" "\<not> is_eol c" by (auto simp: is_line_def)
    with Cons.IH ncr show ?thesis by simp
  qed
qed (simp add: is_line_def)

lemma split_unended: "is_line l \<Longrightarrow> \<not> is_eol (last l) \<Longrightarrow> splitlines_keep l = [l]"
proof (induction l)
  case (Cons c l)
  have ncr: "c \<noteq> CR" using Cons.prems(1) by (auto simp: is_line_def)
  show ?case
  proof (cases l)
    case Nil
    with Cons.prems ncr show ?thesis by simp
  next
    case (Cons d m)
    with Cons.prems have "is_line l" "\<not> is_eol (last l)" "\<not> is_eol c" by (auto simp: is_line_def)
    with Cons.IH ncr show ?thesis by simp
  qed
qed (simp add: is_line_def)

lemma split_concat: "lines_ok ls \<Longrightarrow> splitlines_keep (concat ls) = ls"
proof (induction ls)
  case (Cons l ls)
  then show ?case
    by (cases "is_eol (last l)") (auto simp: split_ended split_unended)
qed simp

lemma splitlines_ok: "CR \<notin> set s \<Longrightarrow> lines_ok (splitlines_keep s)"
proof (induction s)
  case (Cons c s)
  then have ih: "lines_ok (splitlines_keep s)" and c: "c \<noteq> CR" by auto
  show ?case
  proof (cases "is_eol c")
    case True
    with ih c show ?thesis by (simp add: is_line_def)
  next
    case False
    have "concat (splitlines_keep s) = s" by simp
    then show ?thesis
      using ih c False by (cases "splitlines_keep s") (auto simp: is_line_def)
  qed
qed simp

lemma lines_ok_subseq: "subseq ls' ls \<Longrightarrow> lines_ok ls \<Longrightarrow> lines_ok ls'"
proof (induction ls' ls rule: list_emb.induct)
  case (list_emb_Cons2 x y xs ys)
  then show ?case by (auto simp: list_emb_Nil2)
qed (auto simp: lines_ok.simps)

end
