(* ===== verification/Line_Edits.thy ===== *)
theory Line_Edits
  imports Source_Scan
begin

text \<open>
  What the passes of \<open>preprocess.py\<close> share that collect edits from the matches of a pattern and apply them from
  right to left: where the matches of \<open>finditer\<close> lie, and a locale with the contract of such a pass.
\<close>

section \<open>The matches of a text\<close>

lemma re_scan_sound:
  "Inr m \<in> set (re_scan r n q u) \<Longrightarrow> \<exists>p x. adv (q, u) p \<and> re_at r p = Some x \<and> m = mk_match n p x"
proof (induction r n q u rule: re_scan.induct)
  case (1 r n q u)
  have next': "\<exists>p x. adv (q, u) p \<and> re_at r p = Some x \<and> m = mk_match n p x"
    if "u = c # t" "\<exists>p x. adv (Some c, t) p \<and> re_at r p = Some x \<and> m = mk_match n p x" for c t
    using that adv_step adv_trans by blast
  show ?case
  proof (cases "re_at r (q, u)")
    case None
    with "1.prems" obtain c t where ct: "u = c # t" "Inr m \<in> set (re_scan r n (Some c) t)"
      by (subst (asm) re_scan.simps) (auto split: list.splits)
    from next' [OF ct(1) "1.IH"(1) [OF None ct]] show ?thesis .
  next
    case (Some x)
    note adv = re_at_adv [OF Some]
    show ?thesis
    proof (cases "left (fst x) < length u")
      case True
      with "1.prems" Some consider "m = mk_match n (q, u) x" | "Inr m \<in> set (re_scan r n (fst (fst x)) (snd (fst x)))"
        by (subst (asm) re_scan.simps) auto
      then show ?thesis
      proof cases
        case 1
        with Some show ?thesis using adv_refl by blast
      next
        case 2
        from "1.IH"(2) [OF Some True 2] adv show ?thesis by (metis adv_trans prod.collapse)
      qed
    next
      case False
      with "1.prems" Some consider "m = mk_match n (q, u) x" | c t where "u = c # t" "Inr m \<in> set (re_scan r n (Some c) t)"
        by (subst (asm) re_scan.simps) (auto split: list.splits)
      then show ?thesis
      proof cases
        case 1
        with Some show ?thesis using adv_refl by blast
      next
        case (2 c t)
        from next' [OF 2(1) "1.IH"(3) [OF Some False 2]] show ?thesis .
      qed
    qed
  qed
qed

lemma adv_drop: "adv (None, s) p \<Longrightarrow> snd p = drop (length s - left p) s"
  by (auto simp: adv_def)

text \<open>A match is a part of the text.\<close>

lemma finditer_match:
  assumes "m \<in> set (re_finditer r s)"
  shows "m_start m \<le> m_end m" "m_end m \<le> length s" "m_text m = take (m_end m - m_start m) (drop (m_start m) s)"
    "re_nonnull r \<Longrightarrow> m_start m < m_end m"
proof -
  have "Inr m \<in> set xs" if "m \<in> set (matches xs)" for xs
    using that by (induction xs rule: matches.induct) auto
  then have "Inr m \<in> set (re_scan r (length s) None s)" using assms by (simp add: re_finditer_def)
  from re_scan_sound [OF this] obtain p x where px: "adv (None, s) p" "re_at r p = Some x" "m = mk_match (length s) p x" by blast
  have le: "left p \<le> length s" using adv_left [OF px(1)] by simp
  note b = mk_match_bounds [OF re_at_adv [OF px(2)] le]
  show "m_start m \<le> m_end m" "m_end m \<le> length s" using b px(3) by simp_all
  have d: "snd p = drop (m_start m) s" using adv_drop [OF px(1)] px(3) by (simp add: mk_match_def)
  have "left (fst x) \<le> left p" using adv_left [OF re_at_adv [OF px(2)]] .
  then have "m_end m - m_start m = left p - left (fst x)" using px(3) le by (simp add: mk_match_def)
  moreover have "m_text m = take (left p - left (fst x)) (snd p)" using px(3) by (simp add: mk_match_def)
  ultimately show "m_text m = take (m_end m - m_start m) (drop (m_start m) s)" by (simp only: d)
  show "m_start m < m_end m" if "re_nonnull r"
    using nonnull_sound [OF re_at_Some_set [OF px(2)] that] px(3) le by (simp add: mk_match_def)
qed

text \<open>The matches follow each other without overlap.\<close>

fun ascending :: "nat \<Rightarrow> rmatch list \<Rightarrow> bool" where
  "ascending i [] = True"
| "ascending i (m # ms) = (i \<le> m_start m \<and> m_start m \<le> m_end m \<and> ascending (m_end m) ms)"

lemma ascending_mono: "ascending i ms \<Longrightarrow> j \<le> i \<Longrightarrow> ascending j ms"
  by (cases ms) auto

lemma scan_ascending: "length u \<le> n \<Longrightarrow> ascending (n - length u) (matches (re_scan r n q u))"
proof (induction r n q u rule: re_scan.induct)
  case (1 r n q u)
  have step: "ascending (n - length u) (matches (case u of [] \<Rightarrow> [] | c # t \<Rightarrow> Inl c # re_scan r n (Some c) t))"
    if "\<And>c t. u = c # t \<Longrightarrow> ascending (n - length t) (matches (re_scan r n (Some c) t))"
  proof (cases u)
    case (Cons c t)
    have "ascending (n - length u) (matches (re_scan r n (Some c) t))"
      by (rule ascending_mono [OF that [OF Cons]]) (simp add: Cons)
    with Cons show ?thesis by simp
  qed simp
  show ?case
  proof (cases "re_at r (q, u)")
    case None
    then have "re_scan r n q u = (case u of [] \<Rightarrow> [] | c # t \<Rightarrow> Inl c # re_scan r n (Some c) t)"
      by (subst re_scan.simps) simp
    moreover have "ascending (n - length t) (matches (re_scan r n (Some c) t))" if "u = c # t" for c t
      using "1.IH"(1) [OF None that] "1.prems" that by simp
    ultimately show ?thesis using step by simp
  next
    case (Some x)
    have b: "m_start (mk_match n (q, u) x) = n - length u" "m_end (mk_match n (q, u) x) = n - left (fst x)" by (simp_all add: mk_match_def)
    have le: "left (fst x) \<le> length u" using adv_left [OF re_at_adv [OF Some]] by simp
    show ?thesis
    proof (cases "left (fst x) < length u")
      case True
      then have "re_scan r n q u = Inr (mk_match n (q, u) x) # re_scan r n (fst (fst x)) (snd (fst x))"
        using re_scan_hit [OF Some] by simp
      with "1.IH"(2) [OF Some True] "1.prems" b le show ?thesis by simp
    next
      case False
      then have eq: "re_scan r n q u = Inr (mk_match n (q, u) x) # (case u of [] \<Rightarrow> [] | c # t \<Rightarrow> Inl c # re_scan r n (Some c) t)"
        using Some by (subst re_scan.simps) simp
      have l: "left (fst x) = length u" using False le by simp
      have "ascending (n - length t) (matches (re_scan r n (Some c) t))" if "u = c # t" for c t
        using "1.IH"(3) [OF Some False that] "1.prems" that by simp
      with eq b l step show ?thesis by simp
    qed
  qed
qed

lemma finditer_ascending: "ascending 0 (re_finditer r s)"
  using scan_ascending [of s "length s" r None] by (simp add: re_finditer_def)

section \<open>Passes that collect edits\<close>

text \<open>A text with some of its parts replaced by others they are related to.\<close>

inductive replaced :: "(string \<Rightarrow> string \<Rightarrow> bool) \<Rightarrow> string \<Rightarrow> string \<Rightarrow> bool" for ok where
  same: "replaced ok u u"
| keep: "replaced ok u v \<Longrightarrow> replaced ok (w @ u) (w @ v)"
| change: "ok p r \<Longrightarrow> replaced ok u v \<Longrightarrow> replaced ok (p @ u) (r @ v)"

lemma replaced_append: "replaced ok u v \<Longrightarrow> replaced ok s t \<Longrightarrow> replaced ok (u @ s) (v @ t)"
  by (induction rule: replaced.induct) (auto intro: replaced.intros)

lemma replaced_edits:
  assumes "edits_from i (length s) es" and "\<And>b f r. (b, f, r) \<in> set es \<Longrightarrow> ok (take (f - b) (drop b s)) r"
  shows "replaced ok (drop i s) (edited i s es)"
  using assms
proof (induction i "length s" es rule: edits_from.induct)
  case (2 i b f r es)
  then have ih: "replaced ok (drop f s) (edited f s es)" by auto
  have le: "i \<le> b" "b \<le> f" using "2.prems" by auto
  have "drop i s = take (b - i) (drop i s) @ take (f - b) (drop b s) @ drop f s"
    using le by (metis append_take_drop_id drop_drop le_add_diff_inverse2)
  moreover have "ok (take (f - b) (drop b s)) r" using "2.prems" by simp
  then have "replaced ok (take (b - i) (drop i s) @ take (f - b) (drop b s) @ drop f s) (take (b - i) (drop i s) @ r @ edited f s es)"
    using ih by (intro replaced.keep replaced.change)
  ultimately show ?case by simp
qed (auto intro: replaced.intros)

locale edit_pass =
  fixes edits :: "string \<Rightarrow> spans \<Rightarrow> edit list"
    and ok :: "string \<Rightarrow> string \<Rightarrow> bool"
  assumes in_order: "edits_from 0 (length tx) (edits tx sp)"
    and sound: "(b, f, r) \<in> set (edits tx sp) \<Longrightarrow> ok (take (f - b) (drop b tx)) r"
begin

text \<open>The pass over a line's code is the code with its edits made, all at once.\<close>

lemma line_edited: "apply_edits (edits tx sp) tx = edited 0 tx (edits tx sp)"
  using apply_edits_splice [OF in_order] by simp

lemma line_replaced: "replaced ok tx (apply_edits (edits tx sp) tx)"
  unfolding line_edited using replaced_edits [of 0 tx "edits tx sp" ok] in_order sound by simp

text \<open>Comments, literals' line ends and everything outside the edits are kept.\<close>

lemma source_replaced: "replaced ok s (on_lines (\<lambda>t sp. apply_edits (edits t sp) t) s)"
proof -
  have "replaced ok (concat ls) (concat (map (\<lambda>l. apply_edits (edits (line_code l) (line_strings l)) (line_code l) @ line_tail l) ls))" for ls
  proof (induction ls)
    case (Cons l ls)
    have "replaced ok (line_code l @ line_tail l) (apply_edits (edits (line_code l) (line_strings l)) (line_code l) @ line_tail l)"
      by (intro replaced_append line_replaced replaced.same)
    with Cons show ?case by (simp add: line_code_tail replaced_append del: append_assoc)
  qed (simp add: replaced.same)
  from this [of "splitlines_keep s"] show ?thesis by (simp add: on_lines_def)
qed

lemma no_edits: "(\<And>l. l \<in> set (splitlines_keep s) \<Longrightarrow> edits (line_code l) (line_strings l) = []) \<Longrightarrow>
   on_lines (\<lambda>t sp. apply_edits (edits t sp) t) s = s"
  by (rule on_lines_id) (simp add: apply_edits_def)

end

end
