(* ===== verification/Power_Rewrite.thy ===== *)
theory Power_Rewrite
  imports Line_Edits
begin

text \<open>
  \<open>rewrite_integer_powers\<close> and \<open>promote_real_literals_to_double\<close> of \<open>preprocess.py\<close>. Indices into the code run
  as in the source; an exponent's value is the correctly rounded double of its text.
\<close>

section \<open>Patterns\<close>

definition kind_suffix_re :: regex where
  "kind_suffix_re = alts [seqs [chr_re CHR ''_'', Cls False [(65, 90), (97, 122)], many re_word], Seq (chr_re CHR ''_'') (some1 re_digit)]"

definition exponent_re :: regex where
  "exponent_re = seqs [Cls False [(101, 101), (69, 69), (100, 100), (68, 68)], opt (Cls False [(43, 43), (45, 45)]), some1 re_digit]"

definition REAL_EXP :: regex where
  "REAL_EXP = seqs [some1 re_digit, chr_re CHR ''.'', many re_digit, opt exponent_re, opt kind_suffix_re]"

definition not_word_or_dot :: regex where
  "not_word_or_dot = Look False (Cls False ((46, 46) # word_ranges))"

definition INT_POW_RE :: regex where
  "INT_POW_RE = seqs [lit ''**'', many re_space,
     alts [seqs [chr_re CHR ''('', many re_space, Grp 1 REAL_EXP, many re_space, chr_re CHR '')''], Seq (Grp 2 REAL_EXP) not_word_or_dot]]"

definition CALL_IN_BASE :: regex where
  "CALL_IN_BASE = seqs [re_ident_start, many re_word, many re_space, chr_re CHR ''('']"

definition REAL_LIT_RE :: regex where
  "REAL_LIT_RE = seqs [NBehind ((46, 46) # word_ranges),
     Grp 1 (alts [seqs [some1 re_digit, chr_re CHR ''.'', many re_digit], Seq (chr_re CHR ''.'') (some1 re_digit), some1 re_digit]),
     opt (Grp 2 exponent_re), opt (Grp 3 kind_suffix_re), not_word_or_dot]"

section \<open>The value of an exponent\<close>

function bits :: "int \<Rightarrow> nat" where
  "bits n = (if n \<le> 0 then 0 else 1 + bits (n div 2))"
  by pat_completeness auto
termination
  by (relation "measure nat") auto

declare bits.simps [simp del]

text \<open>A quotient rounded to the nearest integer, halves to the even one.\<close>

definition round_quot :: "int \<Rightarrow> int \<Rightarrow> int" where
  "round_quot a b =
     (let q = a div b; r = a mod b in if 2 * r < b \<or> 2 * r = b \<and> even q then q else q + 1)"

text \<open>The double nearest to \<open>p / q\<close> when it is a whole number not below 1. Doubles have 53 bits; the one
  below 1 is \<open>1 - 2 ^ -53\<close>.\<close>

definition double_whole :: "int \<Rightarrow> int \<Rightarrow> int option" where
  "double_whole p q =
     (if p * 2 ^ 54 < q * (2 ^ 54 - 1) then None
      else if p < q then Some 1
      else let n = bits (p div q) in
        if n \<le> 53 then
          (let m = round_quot (p * 2 ^ (53 - n)) q in if m mod 2 ^ (53 - n) = 0 then Some (m div 2 ^ (53 - n)) else None)
        else Some (round_quot p (q * 2 ^ (n - 53)) * 2 ^ (n - 53)))"

text \<open>\<open>float\<close> on digits, a dot, digits and an optional exponent: numerator and denominator.\<close>

definition exponent_letter :: "char \<Rightarrow> bool" where
  "exponent_letter c = (c \<in> set ''eEdD'')"

definition int_of_digits :: "string \<Rightarrow> int" where
  "int_of_digits s = foldl (\<lambda>n c. 10 * n + (code c - 48)) 0 s"

definition real_fraction :: "string \<Rightarrow> int \<times> int" where
  "real_fraction t =
     (let mant = takeWhile (Not \<circ> exponent_letter) t; ex = drop 1 (dropWhile (Not \<circ> exponent_letter) t);
          whole = before_first CHR ''.'' mant; frac = after_char CHR ''.'' mant;
          digits = int_of_digits (whole @ frac);
          e = (if ex = [] then 0 else the (py_int ex)) - int (length frac)
      in if 0 \<le> e then (digits * 10 ^ nat e, 1) else (digits, 10 ^ nat (- e)))"

datatype power_error = ExponentOverflow

definition real_exp_int_value :: "string \<Rightarrow> power_error + int option" where
  "real_exp_int_value tok =
     (let mant = re_sub (\<lambda>_. []) (Seq (Grp 1 kind_suffix_re) Eol) tok; (p, q) = real_fraction mant in
      case double_whole p q of
        None \<Rightarrow> Inr None
      | Some n \<Rightarrow> (if n \<ge> 2 ^ 1024 then Inl ExponentOverflow else Inr (Some n)))"

section \<open>The base of a power\<close>

fun back_while :: "(char \<Rightarrow> bool) \<Rightarrow> string \<Rightarrow> nat \<Rightarrow> nat" where
  "back_while P s i = (if i > 0 \<and> P (s ! (i - 1)) then back_while P s (i - 1) else i)"

declare back_while.simps [simp del]

lemma back_while_le: "back_while P s i \<le> i"
proof (induction P s i rule: back_while.induct)
  case (1 P s i)
  then show ?case by (subst back_while.simps) auto
qed

text \<open>The opening parenthesis that belongs to the closing one before \<open>k\<close>.\<close>

fun open_paren :: "string \<Rightarrow> nat \<Rightarrow> nat \<Rightarrow> nat option" where
  "open_paren s depth 0 = None"
| "open_paren s depth (Suc k) =
     (if s ! k = CHR '')'' then open_paren s (depth + 1) k
      else if s ! k = CHR ''('' then (if depth - 1 = 0 then Some k else open_paren s (depth - 1) k)
      else open_paren s depth k)"

lemma open_paren_less: "open_paren s d k = Some i \<Longrightarrow> i < k"
  by (induction s d k rule: open_paren.induct) (fastforce split: if_splits)+

function power_walk :: "string \<Rightarrow> nat \<Rightarrow> nat option" where
  "power_walk s i =
     (case (if i > 0 \<and> s ! (i - 1) = CHR '')'' then map_option (back_while is_word s) (open_paren s 0 i)
            else Some (back_while is_word s i)) of
        None \<Rightarrow> None
      | Some j \<Rightarrow> (if j < i \<and> j > 0 \<and> s ! (j - 1) = CHR ''%'' then power_walk s (j - 1) else Some j))"
  by pat_completeness auto
termination
  by (relation "measure snd") auto

declare power_walk.simps [simp del]

definition extract_power_base :: "string \<Rightarrow> nat \<Rightarrow> (nat \<times> nat) option" where
  "extract_power_base s star =
     (let e = back_while (\<lambda>c. c \<in> {CHR '' '', CHR 0x09}) s star in
      case power_walk s e of None \<Rightarrow> None | Some i \<Rightarrow> (if i = e then None else Some (i, e)))"

section \<open>The rewriting\<close>

definition exponent_text :: "rmatch \<Rightarrow> string" where
  "exponent_text m = (if grp0 m 1 \<noteq> [] then grp0 m 1 else grp0 m 2)"

definition repeated :: "string \<Rightarrow> nat \<Rightarrow> string" where
  "repeated base n = concat [''('', join ''*'' (replicate n base), '')'']"

text \<open>What a match asks for: the base it has and what to write instead of base, blanks and exponent. \<open>None\<close>: it is
  in a literal, has no whole exponent, has no base or has a call in it.\<close>

definition power_edit :: "string \<Rightarrow> spans \<Rightarrow> rmatch \<Rightarrow> edit option" where
  "power_edit s sp m =
     (if in_spans sp (m_start m) then None
      else case real_exp_int_value (exponent_text m) of
        Inr (Some n) \<Rightarrow>
          (case extract_power_base s (m_start m) of
             None \<Rightarrow> None
           | Some (b, e) \<Rightarrow>
               (let base = take (e - b) (drop b s) in
                if re_search CALL_IN_BASE base \<noteq> None then None else Some (b, m_end m, repeated base (nat n))))
      | _ \<Rightarrow> None)"

text \<open>The loop over the matches: an edit whose base begins before the end of the last one is left out.\<close>

definition add_edit :: "string \<Rightarrow> spans \<Rightarrow> rmatch \<Rightarrow> edit list \<Rightarrow> edit list" where
  "add_edit s sp m es =
     (case power_edit s sp m of
        None \<Rightarrow> es
      | Some (b, f, r) \<Rightarrow> (if es \<noteq> [] \<and> b < fst (snd (last es)) then es else es @ [(b, f, r)]))"

definition power_edits :: "string \<Rightarrow> spans \<Rightarrow> edit list" where
  "power_edits s sp = fold (add_edit s sp) (re_finditer INT_POW_RE s) []"

text \<open>An exponent beyond the doubles: \<open>int\<close> of the infinity raises \<open>OverflowError\<close>.\<close>

definition overflows :: "string \<Rightarrow> spans \<Rightarrow> bool" where
  "overflows s sp =
     list_ex (\<lambda>m. \<not> in_spans sp (m_start m) \<and> real_exp_int_value (exponent_text m) = Inl ExponentOverflow) (re_finditer INT_POW_RE s)"

definition rewrite_integer_powers :: "string \<Rightarrow> power_error + string" where
  "rewrite_integer_powers source =
     (if list_ex (\<lambda>l. overflows (line_code l) (line_strings l)) (splitlines_keep source) then Inl ExponentOverflow
      else Inr (on_lines (\<lambda>s sp. apply_edits (power_edits s sp) s) source))"

section \<open>Literals\<close>

definition DOUBLE_KINDS :: "string list" where
  "DOUBLE_KINDS = [''jprb'', ''jprd'', ''dp'', ''8'', ''16'', ''r8'', ''qp'']"

definition promote_one :: "rmatch \<Rightarrow> string" where
  "promote_one m =
     (let mant = grp0 m 1; expo = grp0 m 2; kind = grp0 m 3 in
      if CHR ''.'' \<notin> set mant \<and> expo = [] then m_text m
      else if take 1 expo \<in> {''d'', ''D''} then m_text m
      else if kind \<noteq> [] \<and> lower (drop 1 kind) \<in> set DOUBLE_KINDS then m_text m
      else if expo \<noteq> [] then concat [mant, ''D'', drop 1 expo]
      else mant @ ''D0'')"

definition promote_real_literals_to_double :: "string \<Rightarrow> string" where
  "promote_real_literals_to_double source =
     on_lines (\<lambda>s sp. re_sub (\<lambda>m. if in_spans sp (m_start m) then m_text m else promote_one m) REAL_LIT_RE s) source"

section \<open>What an edit replaces\<close>

lemma power_walk_le: "power_walk s i = Some j \<Longrightarrow> j \<le> i"
proof (induction s i arbitrary: j rule: power_walk.induct)
  case (1 s i)
  let ?first = "if i > 0 \<and> s ! (i - 1) = CHR '')'' then map_option (back_while is_word s) (open_paren s 0 i) else Some (back_while is_word s i)"
  obtain k where k: "?first = Some k" using "1.prems" by (subst (asm) power_walk.simps) (auto split: option.splits)
  have le: "k \<le> i"
  proof (cases "i > 0 \<and> s ! (i - 1) = CHR '')''")
    case True
    with k obtain p where "open_paren s 0 i = Some p" "k = back_while is_word s p" by auto
    with open_paren_less [of s 0 i p] back_while_le [of is_word s p] show ?thesis by simp
  next
    case False
    with k back_while_le [of is_word s i] show ?thesis by auto
  qed
  show ?case
  proof (cases "k < i \<and> k > 0 \<and> s ! (k - 1) = CHR ''%''")
    case True
    with "1.prems" k have "power_walk s (k - 1) = Some j" by (subst (asm) power_walk.simps) simp
    from "1.IH" [OF k True this] le show ?thesis by simp
  next
    case False
    with "1.prems" k le show ?thesis by (subst (asm) power_walk.simps) (simp split: if_splits)
  qed
qed

lemma back_while_all: "back_while P s i \<le> k \<Longrightarrow> k < i \<Longrightarrow> P (s ! k)"
proof (induction P s i rule: back_while.induct)
  case (1 P s i)
  then show ?case
    by (subst (asm) (2) back_while.simps) (cases "k = i - 1"; auto split: if_splits)
qed

lemma extract_base:
  assumes "extract_power_base s star = Some (b, e)"
  shows "b < e" "e \<le> star" "\<forall>k. e \<le> k \<and> k < star \<longrightarrow> s ! k \<in> {CHR '' '', CHR 0x09}"
proof -
  let ?P = "\<lambda>c. c \<in> {CHR '' '', CHR 0x09}"
  have e: "e = back_while ?P s star" and "power_walk s e = Some b" "b \<noteq> e"
    using assms by (auto simp: extract_power_base_def Let_def split: option.splits if_splits)
  then show "b < e" using power_walk_le [of s e b] by simp
  show "e \<le> star" using e back_while_le [of ?P s star] by simp
  show "\<forall>k. e \<le> k \<and> k < star \<longrightarrow> s ! k \<in> {CHR '' '', CHR 0x09}" using e back_while_all [of ?P s star] by blast
qed

text \<open>A power: its base, blanks, and a match of the pattern whose exponent has the whole value \<open>n\<close>; and what is
  written for it.\<close>

definition power_part :: "string \<Rightarrow> string \<Rightarrow> bool" where
  "power_part p r \<longleftrightarrow>
     (\<exists>base blanks m s n. p = base @ blanks @ m_text m \<and> base \<noteq> [] \<and> re_search CALL_IN_BASE base = None \<and>
        set blanks \<subseteq> {CHR '' '', CHR 0x09} \<and> m \<in> set (re_finditer INT_POW_RE s) \<and>
        real_exp_int_value (exponent_text m) = Inr (Some n) \<and> r = ''('' @ join ''*'' (replicate (nat n) base) @ '')'')"

lemma power_edit_facts:
  assumes "power_edit s sp m = Some (b, f, r)" and m: "m \<in> set (re_finditer INT_POW_RE s)"
  shows "b < f" "f = m_end m" "f \<le> length s" "power_part (take (f - b) (drop b s)) r" "\<not> in_spans sp (m_start m)"
proof -
  from assms(1) obtain n e where x: "real_exp_int_value (exponent_text m) = Inr (Some n)" "extract_power_base s (m_start m) = Some (b, e)"
    "re_search CALL_IN_BASE (take (e - b) (drop b s)) = None" "f = m_end m" "r = repeated (take (e - b) (drop b s)) (nat n)" "\<not> in_spans sp (m_start m)"
    by (auto simp: power_edit_def Let_def split: if_splits sum.splits option.splits)
  note eb = extract_base [OF x(2)] and mm = finditer_match [OF m]
  show "b < f" "f = m_end m" "f \<le> length s" "\<not> in_spans sp (m_start m)" using eb mm x by auto
  let ?base = "take (e - b) (drop b s)" and ?bl = "take (m_start m - e) (drop e s)"
  have "take (f - b) (drop b s) = ?base @ take (f - e) (drop e s)"
  proof -
    have "f - b = (e - b) + (f - e)" using eb mm x(4) by simp
    then have "take (f - b) (drop b s) = ?base @ take (f - e) (drop (e - b) (drop b s))" by (simp only: take_add)
    moreover have "drop (e - b) (drop b s) = drop e s" using eb by simp
    ultimately show ?thesis by simp
  qed
  also have "take (f - e) (drop e s) = ?bl @ m_text m"
  proof -
    have "f - e = (m_start m - e) + (m_end m - m_start m)" using eb mm x(4) by simp
    then have "take (f - e) (drop e s) = ?bl @ take (m_end m - m_start m) (drop (m_start m - e) (drop e s))" by (simp only: take_add)
    moreover have "drop (m_start m - e) (drop e s) = drop (m_start m) s" using eb by simp
    ultimately show ?thesis using mm(3) by simp
  qed
  finally have p: "take (f - b) (drop b s) = ?base @ ?bl @ m_text m" .
  have "set ?bl \<subseteq> {CHR '' '', CHR 0x09}"
  proof
    fix c assume "c \<in> set ?bl"
    then obtain k where "k < length ?bl" "c = ?bl ! k" by (metis in_set_conv_nth)
    moreover from this(1) have "k < m_start m - e" "k < length s - e" by auto
    moreover from this have "e \<le> e + k \<and> e + k < m_start m" "?bl ! k = s ! (e + k)" by auto
    ultimately show "c \<in> {CHR '' '', CHR 0x09}" using eb(3) by metis
  qed
  moreover have "?base \<noteq> []" using eb mm by simp
  moreover have "r = ''('' @ join ''*'' (replicate (nat n) ?base) @ '')''" using x(5) by (simp add: repeated_def)
  ultimately show "power_part (take (f - b) (drop b s)) r"
    unfolding power_part_def using p x(1,3) m by blast
qed

definition part_edit :: "string \<Rightarrow> edit \<Rightarrow> bool" where
  "part_edit s e = (case e of (b, f, r) \<Rightarrow> power_part (take (f - b) (drop b s)) r)"

lemma power_edits_fold:
  assumes "ascending i ms" and "set ms \<subseteq> set (re_finditer INT_POW_RE s)" and "edits_from 0 (length s) es"
    and "es \<noteq> [] \<longrightarrow> fst (snd (last es)) \<le> i"
    and "\<forall>e \<in> set es. part_edit s e"
  shows "edits_from 0 (length s) (fold (add_edit s sp) ms es) \<and>
    (\<forall>e \<in> set (fold (add_edit s sp) ms es). part_edit s e)"
  using assms
proof (induction ms arbitrary: i es)
  case (Cons m ms)
  from Cons.prems have m: "m \<in> set (re_finditer INT_POW_RE s)" and le: "i \<le> m_end m" by auto
  have next': "edits_from 0 (length s) (add_edit s sp m es) \<and> (add_edit s sp m es \<noteq> [] \<longrightarrow> fst (snd (last (add_edit s sp m es))) \<le> m_end m) \<and>
      (\<forall>e \<in> set (add_edit s sp m es). part_edit s e)"
  proof (cases "power_edit s sp m")
    case None
    with Cons.prems le show ?thesis by (auto simp: add_edit_def)
  next
    case (Some y)
    obtain b f r where y: "y = (b, f, r)" by (cases y) auto
    note e = power_edit_facts [OF Some [unfolded y] m]
    show ?thesis
    proof (cases "es \<noteq> [] \<and> b < fst (snd (last es))")
      case True
      with Some y Cons.prems le show ?thesis by (auto simp: add_edit_def)
    next
      case False
      then have "edits_from 0 (length s) (es @ [(b, f, r)])"
        using e Cons.prems(3) by (intro edits_from_snoc) auto
      with False Some y Cons.prems(5) e show ?thesis by (auto simp: add_edit_def part_edit_def)
    qed
  qed
  from Cons.prems(1,2) have "ascending (m_end m) ms" "set ms \<subseteq> set (re_finditer INT_POW_RE s)" by auto
  from Cons.IH [OF this, of "add_edit s sp m es"] next' show ?case by simp
qed simp

interpretation power_pass: edit_pass power_edits power_part
proof
  fix s sp
  have f: "edits_from 0 (length s) (power_edits s sp) \<and> (\<forall>e \<in> set (power_edits s sp). part_edit s e)"
    unfolding power_edits_def by (rule power_edits_fold [OF finditer_ascending]) auto
  then show "edits_from 0 (length s) (power_edits s sp)" by blast
  show "power_part (take (f - b) (drop b s)) r" if "(b, f, r) \<in> set (power_edits s sp)" for b f r
    using f that by (auto simp: part_edit_def)
qed

text \<open>When the edits the matches ask for do not overlap, all of them are made.\<close>

lemma all_edits:
  assumes "edits_from i n (es @ List.map_filter (power_edit s sp) ms)" and "\<forall>(b, f, r) \<in> set es. b \<le> f"
  shows "fold (add_edit s sp) ms es = es @ List.map_filter (power_edit s sp) ms"
  using assms
proof (induction ms arbitrary: es)
  case (Cons m ms)
  show ?case
  proof (cases "power_edit s sp m")
    case None
    with Cons show ?thesis by (simp add: add_edit_def List.map_filter_simps)
  next
    case (Some y)
    obtain b f r where y: "y = (b, f, r)" by (cases y) auto
    have "fst (snd (last es)) \<le> b \<and> b \<le> f" if "es \<noteq> []"
    proof -
      have two: "edits_from i n (us @ u # (b, f, r) # vs) \<Longrightarrow> fst (snd u) \<le> b \<and> b \<le> f" for us u vs i
        by (induction us arbitrary: i) (auto split: prod.splits, (cases u; auto)+)
      have "es = butlast es @ [last es]" using that by simp
      then obtain us u where es: "es = us @ [u]" by blast
      from Cons.prems(1) Some y have "edits_from i n (us @ u # (b, f, r) # List.map_filter (power_edit s sp) ms)"
        by (simp add: List.map_filter_simps es)
      from two [OF this] show ?thesis by (simp add: es)
    qed
    then have "add_edit s sp m es = es @ [(b, f, r)]" using Some y by (auto simp: add_edit_def)
    moreover have "fold (add_edit s sp) ms (es @ [(b, f, r)]) = (es @ [(b, f, r)]) @ List.map_filter (power_edit s sp) ms"
    proof (rule Cons.IH)
      show "edits_from i n ((es @ [(b, f, r)]) @ List.map_filter (power_edit s sp) ms)"
        using Cons.prems(1) Some y by (simp add: List.map_filter_simps)
      have "edits_from i n (us @ (b, f, r) # vs) \<Longrightarrow> b \<le> f" for us vs
        by (induction us arbitrary: i) (auto split: prod.splits)
      with Cons.prems Some y show "\<forall>(b, f, r) \<in> set (es @ [(b, f, r)]). b \<le> f" by (fastforce simp: List.map_filter_simps)
    qed
    ultimately show ?thesis using Some y by (simp add: List.map_filter_simps)
  qed
qed (simp add: List.map_filter_simps)

section \<open>Properties\<close>



text \<open>Two powers come out wrong. Of a stacked power, which is read from the right, the left one is expanded:
  \<open>a ** (3 ** 2)\<close> becomes the square of the cube. And the scan for the base stops at the dot of a real
  literal, so that only the digits behind it are taken for the base.\<close>

theorem powers_misread:
  "rewrite_integer_powers ''a**3.0**2.0'' = Inr ''(a*a*a)**2.0'' \<and>
   rewrite_integer_powers ''(a*a*a)**2.0'' = Inr ''((a*a*a)*(a*a*a))'' \<and>
   rewrite_integer_powers ''2.5**2.0'' = Inr ''2.(5*5)''"
proof (intro conjI)
  show "rewrite_integer_powers ''a**3.0**2.0'' = Inr ''(a*a*a)**2.0''" by code_simp
  show "rewrite_integer_powers ''(a*a*a)**2.0'' = Inr ''((a*a*a)*(a*a*a))''" by code_simp
  show "rewrite_integer_powers ''2.5**2.0'' = Inr ''2.(5*5)''" by code_simp
qed

end
