(* ===== verification/Kind_Params.thy ===== *)
theory Kind_Params
  imports Line_Edits
begin

text \<open>
  \<open>normalize_kind_parameters\<close> of \<open>preprocess.py\<close>: symbolic precision kinds are replaced by their widths at every
  use, unless the caller opted out or the source binds them.
\<close>

section \<open>Aliases\<close>

definition DEFAULT_KIND_ALIASES :: "(string \<times> int option) list" where
  "DEFAULT_KIND_ALIASES = [(''wp'', Some 8), (''rp'', Some 8), (''sp'', Some 4), (''dp'', Some 8), (''qp'', Some 16)]"

definition KIND_EQ_RE :: regex where
  "KIND_EQ_RE = seqs [Wordb, Grp 1 (seqs [ilit ''KIND'', many re_space, chr_re CHR ''='', many re_space]),
     Grp 2 (Seq re_ident_start (many re_word)), Wordb]"

definition TYPE_PAREN_RE :: regex where
  "TYPE_PAREN_RE = seqs [Wordb, Grp 1 (alts [ilit ''REAL'', ilit ''INTEGER'', ilit ''COMPLEX'', ilit ''LOGICAL'']),
     Grp 2 (seqs [many re_space, chr_re CHR ''('', many re_space]), Grp 3 (Seq re_ident_start (many re_word)),
     Grp 4 (Seq (many re_space) (chr_re CHR '')''))]"

definition LITERAL_KIND_RE :: regex where
  "LITERAL_KIND_RE = seqs [Wordb,
     Grp 1 (seqs [some1 re_digit, opt (Seq (chr_re CHR ''.'') (many re_digit)),
       opt (seqs [Cls False [(101, 101), (69, 69), (100, 100), (68, 68)], opt (Cls False [(43, 43), (45, 45)]), some1 re_digit])]),
     chr_re CHR ''_'', Grp 2 (Seq re_ident_start (many re_word)), Wordb]"

definition PARAM_BIND_RE :: regex where
  "PARAM_BIND_RE = seqs [Wordb, ilit ''INTEGER'', Wordb, many (Cls True [(58, 58), (10, 10)]), lit ''::'', many re_space,
     Grp 1 (Seq re_ident_start (many re_word)), many re_space, chr_re CHR ''='', many re_space, Grp 2 (some1 re_digit), Wordb]"

text \<open>The names the source binds to an integer literal; the first binding of a name wins.\<close>

fun bind_lines :: "string list \<Rightarrow> (string \<times> nat) list \<Rightarrow> (string \<times> nat) list" where
  "bind_lines [] d = d"
| "bind_lines (raw # ls) d =
     bind_lines ls
       (case re_search PARAM_BIND_RE (code_of_line raw) of
          None \<Rightarrow> d
        | Some m \<Rightarrow>
            (let k = lower (grp0 m 1) in if map_of d k = None then d @ [(k, nat_of_digits (grp0 m 2))] else d))"

definition local_kind_bindings :: "string \<Rightarrow> (string \<times> nat) list" where
  "local_kind_bindings source = bind_lines (splitlines source) []"

text \<open>The table in force: the defaults with the caller's entries on top, without those set to \<open>None\<close> and without
  the bound ones.\<close>

definition alias_table :: "(string \<times> int option) list \<Rightarrow> string \<Rightarrow> string \<Rightarrow> int option" where
  "alias_table kind_map source k =
     (if k \<in> fst ` set (local_kind_bindings source) then None
      else case map_of (rev (map (\<lambda>(a, v). (lower a, v)) kind_map)) k of
        Some v \<Rightarrow> v
      | None \<Rightarrow> Option.bind (map_of DEFAULT_KIND_ALIASES k) id)"

section \<open>The three uses\<close>

type_synonym kind_rule = "regex \<times> (rmatch \<Rightarrow> string \<times> (int \<Rightarrow> string))"   \<comment> \<open>the symbol of a match and the text for its width\<close>

definition kind_rules :: "kind_rule list" where
  "kind_rules =
     [(KIND_EQ_RE, \<lambda>m. (grp0 m 2, \<lambda>v. grp0 m 1 @ str_int v)),
      (TYPE_PAREN_RE, \<lambda>m. (grp0 m 3, \<lambda>v. concat [grp0 m 1, grp0 m 2, str_int v, grp0 m 4])),
      (LITERAL_KIND_RE, \<lambda>m. (grp0 m 2, \<lambda>v. concat [grp0 m 1, ''_'', str_int v]))]"

definition kind_edit :: "(string \<Rightarrow> int option) \<Rightarrow> spans \<Rightarrow> (rmatch \<Rightarrow> string \<times> (int \<Rightarrow> string)) \<Rightarrow> rmatch \<Rightarrow> edit option" where
  "kind_edit aliases sp rule m =
     (if in_spans sp (m_start m) then None
      else map_option (\<lambda>v. (m_start m, m_end m, snd (rule m) v)) (aliases (lower (fst (rule m)))))"

definition disjoint_from :: "edit list \<Rightarrow> edit \<Rightarrow> bool" where
  "disjoint_from es e = list_all (\<lambda>(eb, ee, _). fst (snd e) \<le> eb \<or> fst e \<ge> ee) es"

definition add_kind_edit :: "(string \<Rightarrow> int option) \<Rightarrow> spans \<Rightarrow> (rmatch \<Rightarrow> string \<times> (int \<Rightarrow> string)) \<Rightarrow> rmatch \<Rightarrow> edit list \<Rightarrow> edit list" where
  "add_kind_edit aliases sp rule m es =
     (case kind_edit aliases sp rule m of
        None \<Rightarrow> es
      | Some e \<Rightarrow> (if disjoint_from es e then es @ [e] else es))"

definition queued_edits :: "(string \<Rightarrow> int option) \<Rightarrow> string \<Rightarrow> spans \<Rightarrow> edit list" where
  "queued_edits aliases s sp =
     fold (\<lambda>(r, rule). fold (add_kind_edit aliases sp rule) (re_finditer r s)) kind_rules []"

definition kind_edits :: "(string \<Rightarrow> int option) \<Rightarrow> string \<Rightarrow> spans \<Rightarrow> edit list" where
  "kind_edits aliases s sp = sort_key fst (queued_edits aliases s sp)"

definition normalize_kind_parameters :: "(string \<times> int option) list \<Rightarrow> bool \<Rightarrow> string \<Rightarrow> string" where
  "normalize_kind_parameters kind_map passthrough source =
     (if passthrough then source
      else on_lines (\<lambda>s sp. apply_edits (kind_edits (alias_table kind_map source) s sp) s) source)"

section \<open>The queued edits\<close>

definition sep :: "edit \<Rightarrow> edit \<Rightarrow> bool" where
  "sep e x = (fst (snd e) \<le> fst x \<or> fst (snd x) \<le> fst e)"

lemma sep_sym: "sep e x \<longleftrightarrow> sep x e"
  by (auto simp: sep_def)

lemma disjoint_from_sep: "disjoint_from es e \<longleftrightarrow> (\<forall>x \<in> set es. sep e x)"
  by (auto simp: disjoint_from_def sep_def list_all_iff split_beta)

definition separated :: "nat \<Rightarrow> edit list \<Rightarrow> bool" where
  "separated n es = (distinct es \<and> (\<forall>e \<in> set es. fst e < fst (snd e) \<and> fst (snd e) \<le> n) \<and>
     (\<forall>e \<in> set es. \<forall>x \<in> set es. e \<noteq> x \<longrightarrow> sep e x))"

lemma separated_sorted:
  assumes "sorted (map fst es)" and "separated n es" and "i \<le> n" and "\<forall>e \<in> set es. i \<le> fst e"
  shows "edits_from i n es"
  using assms
proof (induction es arbitrary: i)
  case (Cons e es)
  obtain b f r where e: "e = (b, f, r)" by (cases e) auto
  have below: "f \<le> fst x" if "x \<in> set es" for x
  proof -
    have "sep e x" "b \<le> fst x" "fst x < fst (snd x)" using Cons.prems that e by (auto simp: separated_def)
    then show ?thesis by (auto simp: sep_def e)
  qed
  have "edits_from f n es"
  proof (rule Cons.IH)
    show "separated n es" using Cons.prems(2) by (auto simp: separated_def)
    show "f \<le> n" using Cons.prems(2) e by (auto simp: separated_def)
  qed (use Cons.prems below in auto)
  with Cons.prems e show ?case by (auto simp: separated_def)
qed simp

text \<open>What a match asks to be replaced, and what is written for it.\<close>

definition kind_part :: "(string \<Rightarrow> int option) \<Rightarrow> string \<Rightarrow> string \<Rightarrow> bool" where
  "kind_part aliases p r \<longleftrightarrow>
     (\<exists>(rx, rule) \<in> set kind_rules. \<exists>s. \<exists>m \<in> set (re_finditer rx s). \<exists>v.
        p = m_text m \<and> aliases (lower (fst (rule m))) = Some v \<and> r = snd (rule m) v)"

definition wanted :: "(string \<Rightarrow> int option) \<Rightarrow> string \<Rightarrow> spans \<Rightarrow> edit set" where
  "wanted aliases s sp = {e. \<exists>(rx, rule) \<in> set kind_rules. \<exists>m \<in> set (re_finditer rx s). kind_edit aliases sp rule m = Some e}"

lemma kind_rules_nonnull: "\<forall>(rx, rule) \<in> set kind_rules. re_nonnull rx"
proof -
  have "list_all re_nonnull [KIND_EQ_RE, TYPE_PAREN_RE, LITERAL_KIND_RE]" by code_simp
  then show ?thesis by (simp add: kind_rules_def)
qed

lemma kind_edit_range:
  assumes "(rx, rule) \<in> set kind_rules" and "m \<in> set (re_finditer rx s)" and "kind_edit aliases sp rule m = Some (b, f, r)"
  shows "b < f" "f \<le> length s" "kind_part aliases (take (f - b) (drop b s)) r" "\<not> in_spans sp b"
proof -
  have nn: "re_nonnull rx" using kind_rules_nonnull assms(1) by blast
  note mm = finditer_match [OF assms(2)]
  from assms(3) obtain v where v: "aliases (lower (fst (rule m))) = Some v" "b = m_start m" "f = m_end m" "r = snd (rule m) v" "\<not> in_spans sp b"
    by (auto simp: kind_edit_def split: if_splits)
  show "b < f" "f \<le> length s" "\<not> in_spans sp b" using v mm(2) mm(4) [OF nn] by simp_all
  have "take (f - b) (drop b s) = m_text m" using mm(3) v by simp
  then show "kind_part aliases (take (f - b) (drop b s)) r" unfolding kind_part_def using assms(1,2) v by blast
qed

lemma add_kind_edits:
  assumes "(rx, rule) \<in> set kind_rules" and "set ms \<subseteq> set (re_finditer rx s)" and "separated (length s) es" and "set es \<subseteq> wanted aliases s sp"
  defines "es' \<equiv> fold (add_kind_edit aliases sp rule) ms es"
  shows "separated (length s) es' \<and> set es \<subseteq> set es' \<and> set es' \<subseteq> wanted aliases s sp \<and>
    (\<forall>m \<in> set ms. \<forall>e. kind_edit aliases sp rule m = Some e \<longrightarrow> (\<exists>x \<in> set es'. x = e \<or> \<not> sep e x))"
  using assms(2-4) unfolding es'_def
proof (induction ms arbitrary: es)
  case (Cons m ms)
  let ?es = "add_kind_edit aliases sp rule m es"
  have m: "m \<in> set (re_finditer rx s)" using Cons.prems(1) by simp
  have "separated (length s) ?es \<and> set es \<subseteq> set ?es \<and> set ?es \<subseteq> wanted aliases s sp \<and>
      (\<forall>e. kind_edit aliases sp rule m = Some e \<longrightarrow> (\<exists>x \<in> set ?es. x = e \<or> \<not> sep e x))"
  proof (cases "kind_edit aliases sp rule m")
    case None
    with Cons.prems show ?thesis by (simp add: add_kind_edit_def)
  next
    case (Some e)
    obtain b f r where e: "e = (b, f, r)" by (cases e) auto
    note rg = kind_edit_range [OF assms(1) m Some [unfolded e]]
    show ?thesis
    proof (cases "disjoint_from es e")
      case True
      then have d: "\<forall>x \<in> set es. sep e x" by (simp add: disjoint_from_sep)
      then have "e \<notin> set es" using rg(1) by (auto simp: sep_def e)
      moreover have "e \<in> wanted aliases s sp" using assms(1) m Some by (auto simp: wanted_def)
      ultimately show ?thesis
        using True Some Cons.prems rg d sep_sym by (auto simp: add_kind_edit_def separated_def e)
    next
      case False
      with Some Cons.prems show ?thesis by (auto simp: add_kind_edit_def disjoint_from_sep)
    qed
  qed
  with Cons.IH [of ?es] Cons.prems(1) show ?case by (simp del: Cons.IH) blast
qed simp

definition met :: "(string \<Rightarrow> int option) \<Rightarrow> string \<Rightarrow> spans \<Rightarrow> kind_rule \<Rightarrow> edit list \<Rightarrow> bool" where
  "met aliases s sp p es =
     (\<forall>m \<in> set (re_finditer (fst p) s). \<forall>e. kind_edit aliases sp (snd p) m = Some e \<longrightarrow> (\<exists>x \<in> set es. x = e \<or> \<not> sep e x))"

lemma met_mono: "met aliases s sp p es \<Longrightarrow> set es \<subseteq> set es' \<Longrightarrow> met aliases s sp p es'"
  unfolding met_def by blast

lemma queue_rules:
  fixes aliases s sp
  defines "q \<equiv> \<lambda>(r, rule). fold (add_kind_edit aliases sp rule) (re_finditer r s)"
  assumes "set rs \<subseteq> set kind_rules" and "separated (length s) es" and "set es \<subseteq> wanted aliases s sp"
  shows "separated (length s) (fold q rs es) \<and> set es \<subseteq> set (fold q rs es) \<and> set (fold q rs es) \<subseteq> wanted aliases s sp \<and>
    (\<forall>p \<in> set rs. met aliases s sp p (fold q rs es))"
  using assms(2-4)
proof (induction rs arbitrary: es)
  case (Cons p rs)
  obtain rx rule where p: "p = (rx, rule)" by force
  have r: "(rx, rule) \<in> set kind_rules" "set rs \<subseteq> set kind_rules" using Cons.prems(1) p by simp_all
  let ?es = "q p es"
  have "?es = fold (add_kind_edit aliases sp rule) (re_finditer rx s) es" by (simp add: q_def p)
  with add_kind_edits [OF r(1) subset_refl Cons.prems(2,3)]
  have a: "separated (length s) ?es" "set es \<subseteq> set ?es" "set ?es \<subseteq> wanted aliases s sp" "met aliases s sp p ?es"
    unfolding met_def p by simp_all
  note ih = Cons.IH [OF r(2) a(1,3)]
  have "met aliases s sp p (fold q rs ?es)" using met_mono [OF a(4)] ih by blast
  with a(2) ih show ?case by auto
qed simp

lemma queued_edits_facts:
  "separated (length s) (queued_edits aliases s sp) \<and> set (queued_edits aliases s sp) \<subseteq> wanted aliases s sp \<and>
    (\<forall>e \<in> wanted aliases s sp. \<exists>x \<in> set (queued_edits aliases s sp). x = e \<or> \<not> sep e x)"
proof -
  have "separated (length s) []" by (simp add: separated_def)
  from queue_rules [OF subset_refl this, of aliases sp, folded queued_edits_def]
  have q: "separated (length s) (queued_edits aliases s sp)" "set (queued_edits aliases s sp) \<subseteq> wanted aliases s sp"
    "\<forall>p \<in> set kind_rules. met aliases s sp p (queued_edits aliases s sp)" by simp_all
  have "\<exists>x \<in> set (queued_edits aliases s sp). x = e \<or> \<not> sep e x" if "e \<in> wanted aliases s sp" for e
  proof -
    from that obtain rx rule m where "(rx, rule) \<in> set kind_rules" "m \<in> set (re_finditer rx s)" "kind_edit aliases sp rule m = Some e"
      by (auto simp: wanted_def)
    then show ?thesis using q(3) unfolding met_def by fastforce
  qed
  with q show ?thesis by blast
qed

interpretation kind_pass: edit_pass "kind_edits aliases" "kind_part aliases" for aliases
proof
  fix s sp
  let ?q = "queued_edits aliases s sp"
  note q = queued_edits_facts [of s aliases sp]
  have "separated (length s) (kind_edits aliases s sp)"
    using q by (simp add: separated_def kind_edits_def)
  then show "edits_from 0 (length s) (kind_edits aliases s sp)"
    by (intro separated_sorted) (simp_all add: kind_edits_def)
  show "kind_part aliases (take (f - b) (drop b s)) r" if "(b, f, r) \<in> set (kind_edits aliases s sp)" for b f r
  proof -
    have "(b, f, r) \<in> wanted aliases s sp" using that q by (auto simp: kind_edits_def)
    then obtain rx rule m where "(rx, rule) \<in> set kind_rules" "m \<in> set (re_finditer rx s)" "kind_edit aliases sp rule m = Some (b, f, r)"
      by (auto simp: wanted_def)
    from kind_edit_range(3) [OF this] show ?thesis .
  qed
qed

section \<open>Properties\<close>



text \<open>Of a declaration only the first name is taken for bound: a kind that is bound by a later entity of the
  same declaration is overwritten with its default width.\<close>

theorem later_binding_overwritten:
  "local_kind_bindings ''INTEGER, PARAMETER :: sp = 4, dp = 4'' = [(''sp'', 4)] \<and>
   normalize_kind_parameters [] False (''INTEGER, PARAMETER :: sp = 4, dp = 4'' @ [LF] @ ''real(dp) :: x'') =
     ''INTEGER, PARAMETER :: sp = 4, dp = 4'' @ [LF] @ ''real(8) :: x''"
proof
  show "local_kind_bindings ''INTEGER, PARAMETER :: sp = 4, dp = 4'' = [(''sp'', 4)]" by code_simp
  show "normalize_kind_parameters [] False (''INTEGER, PARAMETER :: sp = 4, dp = 4'' @ [LF] @ ''real(dp) :: x'') =
     ''INTEGER, PARAMETER :: sp = 4, dp = 4'' @ [LF] @ ''real(8) :: x''" by code_simp
qed

end
