(* ===== verification/Cpp_Strip.thy ===== *)
theory Cpp_Strip
  imports Source_Scan
begin

text \<open>
  \<open>strip_openmp_directives\<close> and \<open>_balance_cpp\<close> of \<open>preprocess.py\<close>: the line filter that drops accelerator
  directives and resolves the conditionals on \<open>_OPENMP\<close> and \<open>_OPENACC\<close>, and the repair of conditionals a
  module block was cut out of. The stack of open conditionals is a list with the innermost one in front.
\<close>

section \<open>Patterns\<close>

definition omp_sentinel_re :: regex where
  "omp_sentinel_re = seqs [Bol, many re_space, chr_re CHR ''!'', many re_space, chr_re CHR ''$'', many re_space,
     alts [ilit ''omp'', ilit ''acc'', ilit ''cuf''], Wordb]"

definition omp_cond_line_re :: regex where
  "omp_cond_line_re = seqs [Bol, many re_space, chr_re CHR ''!'', many re_space, chr_re CHR ''$'',
     some1 (Cls False [(32, 32), (9, 9)]), re_nonspace]"

definition vendor_directive_re :: regex where
  "vendor_directive_re = seqs [Bol, many re_space, chr_re CHR ''!'', many re_space, ilit ''DIR'', chr_re CHR ''$'']"

definition omp_include_re :: regex where
  "omp_include_re = cpp_re (seqs [ilit ''include'', many re_space, Cls False [(60, 60), (34, 34)],
     many (Cls True [(62, 62), (34, 34)]), ilit ''omp_definitions'', many (Cls True [(62, 62), (34, 34)]), chr_re CHR ''.'',
     ilit ''inc'', Cls False [(62, 62), (34, 34)], many re_space, Eol])"

definition cpp_ifdef_re :: regex where
  "cpp_ifdef_re = cpp_re (seqs [Grp 1 (seqs [ilit ''if'', opt (ichr_re CHR ''n''), ilit ''def'']), some1 re_space, Grp 2 (some1 re_word)])"

definition cpp_ifdefined_re :: regex where
  "cpp_ifdefined_re = cpp_re (seqs [ilit ''if'', some1 re_space, opt (Grp 1 (chr_re CHR ''!'')), many re_space, ilit ''defined'',
     many re_space, chr_re CHR ''('', many re_space, Grp 2 (some1 re_word), many re_space, chr_re CHR '')'', many re_space, Eol])"

definition cpp_if_re :: regex where "cpp_if_re = cpp_re (Seq (ilit ''if'') Wordb)"
definition cpp_else_re :: regex where "cpp_else_re = cpp_re (Seq (ilit ''else'') Wordb)"
definition cpp_elif_re :: regex where "cpp_elif_re = cpp_re (Seq (ilit ''elif'') Wordb)"
definition cpp_endif_re :: regex where "cpp_endif_re = cpp_re (Seq (ilit ''endif'') Wordb)"

definition OMP_ACC_MACROS :: "string list" where
  "OMP_ACC_MACROS = [''_OPENMP'', ''_OPENACC'']"

section \<open>Directives\<close>

text \<open>The chain of tests on a line, in its order. An opener is on one of the two macros (and its first arm is
  dropped or kept), or another one.\<close>

datatype directive = OmpIf bool | OtherIf | Else | Elif | Endif | Plain

definition directive :: "string \<Rightarrow> directive" where
  "directive l =
     (case re_match cpp_ifdef_re l of
        Some m \<Rightarrow> (if grp0 m 2 \<in> set OMP_ACC_MACROS then OmpIf (lower (grp0 m 1) = ''ifdef'') else OtherIf)
      | None \<Rightarrow>
          (case re_match cpp_ifdefined_re l of
             Some m \<Rightarrow> (if grp0 m 2 \<in> set OMP_ACC_MACROS then OmpIf (grp0 m 1 = []) else OtherIf)
           | None \<Rightarrow>
               (if hits cpp_if_re l then OtherIf
                else if hits cpp_else_re l then Else
                else if hits cpp_elif_re l then Elif
                else if hits cpp_endif_re l then Endif else Plain)))"

definition inert :: "string \<Rightarrow> bool" where
  "inert l = (hits omp_sentinel_re l \<or> hits omp_cond_line_re l \<or> hits omp_include_re l \<or> hits vendor_directive_re l)"

section \<open>The filter\<close>

type_synonym cond_stack = "(bool \<times> bool) list"   \<comment> \<open>on one of the macros, dropping now\<close>

definition dropping :: "cond_stack \<Rightarrow> bool" where
  "dropping st = list_ex (\<lambda>(omp, d). omp \<and> d) st"

definition emit :: "string \<Rightarrow> cond_stack \<Rightarrow> string list \<Rightarrow> cond_stack \<times> string list" where
  "emit l st out = (st, if dropping st \<or> inert l then out else out @ [l])"

fun strip_step :: "string \<Rightarrow> cond_stack \<times> string list \<Rightarrow> cond_stack \<times> string list" where
  "strip_step l (st, out) =
     (case directive l of
        OmpIf d \<Rightarrow> ((True, d) # st, out)
      | OtherIf \<Rightarrow> emit l ((False, False) # st) out
      | Else \<Rightarrow> (case st of (True, d) # st' \<Rightarrow> ((True, \<not> d) # st', out) | _ \<Rightarrow> emit l st out)
      | Elif \<Rightarrow> (case st of (True, d) # st' \<Rightarrow> ((True, True) # st', out) | _ \<Rightarrow> emit l st out)
      | Endif \<Rightarrow> (case st of (True, d) # st' \<Rightarrow> (st', out) | _ \<Rightarrow> emit l (drop 1 st) out)
      | Plain \<Rightarrow> emit l st out)"

declare strip_step.simps [simp del]

definition strip_lines :: "string list \<Rightarrow> string list" where
  "strip_lines ls = snd (fold strip_step ls ([], []))"

definition strip_openmp_directives :: "string \<Rightarrow> string" where
  "strip_openmp_directives source = concat (strip_lines (splitlines_keep source))"

section \<open>Balancing a block\<close>

definition cpp_open_re :: regex where
  "cpp_open_re = cpp_re (Seq (alts [ilit ''if'', ilit ''ifdef'', ilit ''ifndef'']) Wordb)"
definition cpp_mid_re :: regex where
  "cpp_mid_re = cpp_re (Seq (alts [ilit ''else'', ilit ''elif'']) Wordb)"

text \<open>The open conditionals' line numbers, innermost in front, and the lines to drop.\<close>

definition balance_step :: "nat \<Rightarrow> string \<Rightarrow> nat list \<times> nat list \<Rightarrow> nat list \<times> nat list" where
  "balance_step i l st =
     (case st of (open_idx, drp) \<Rightarrow>
       if hits cpp_open_re l then (i # open_idx, drp)
       else if hits cpp_endif_re l then (case open_idx of [] \<Rightarrow> ([], i # drp) | _ # os \<Rightarrow> (os, drp))
       else if hits cpp_mid_re l \<and> open_idx = [] then (open_idx, i # drp)
       else (open_idx, drp))"

fun balance_from :: "nat \<Rightarrow> string list \<Rightarrow> nat list \<times> nat list \<Rightarrow> nat list \<times> nat list" where
  "balance_from i [] st = st"
| "balance_from i (l # ls) st = balance_from (i + 1) ls (balance_step i l st)"

definition balance_drop :: "string list \<Rightarrow> nat list" where
  "balance_drop ls = (let (open_idx, drp) = balance_from 0 ls ([], []) in open_idx @ drp)"

definition without :: "nat list \<Rightarrow> 'a list \<Rightarrow> 'a list" where
  "without is xs = map snd (filter (\<lambda>(i, x). i \<notin> set is) (zip [0..<length xs] xs))"

definition balance_cpp :: "string \<Rightarrow> string" where
  "balance_cpp block = concat (without (balance_drop (splitlines_keep block)) (splitlines_keep block))"

section \<open>Directives begin with their word\<close>

lemma directive_word:
  assumes "directive l \<noteq> Plain"
  shows "\<exists>t. lstrip l = CHR ''#'' # t \<and>
    (startswith (cpp_word l) ''if'' \<or> startswith (cpp_word l) ''el'' \<or> startswith (cpp_word l) ''en'')"
proof -
  have c: "\<not> is_space CHR ''i''" "\<not> is_space CHR ''e''" "lower_char CHR ''i'' = CHR ''i''" "lower_char CHR ''e'' = CHR ''e''"
    by code_simp+
  have w: "lower ''if'' = ''if''" "lower ''el'' = ''el''" "lower ''en'' = ''en''" "lower ''else'' = ''else''" "lower ''elif'' = ''elif''"
    "lower ''endif'' = ''endif''"
    by code_simp+
  have i: "re_starts ''if'' (ilit ''if'')" "re_starts ''el'' (ilit ''else'')" "re_starts ''el'' (ilit ''elif'')" "re_starts ''en'' (ilit ''endif'')"
    using starts_ilit [of "''if''" 2 "''if''"] starts_ilit [of "''el''" 2 "''else''"] starts_ilit [of "''el''" 2 "''elif''"]
      starts_ilit [of "''en''" 2 "''endif''"] by (simp_all add: w)
  from assms consider "hits cpp_ifdef_re l" | "hits cpp_ifdefined_re l" | "hits cpp_if_re l" | "hits cpp_else_re l"
    | "hits cpp_elif_re l" | "hits cpp_endif_re l"
    unfolding directive_def hits_def by (auto split: option.splits if_splits)
  then show ?thesis
  proof cases
    case 1
    have "re_starts ''if'' (seqs [Grp 1 (seqs [ilit ''if'', opt (ichr_re CHR ''n''), ilit ''def'']), some1 re_space, Grp 2 (some1 re_word)])"
      unfolding seqs.simps by (intro re_starts_intros i)
    from cpp_hits [OF 1 [unfolded cpp_ifdef_re_def] this c(1,3)] show ?thesis by blast
  next
    case 2
    have "re_starts ''if'' (seqs [ilit ''if'', some1 re_space, opt (Grp 1 (chr_re CHR ''!'')), many re_space, ilit ''defined'',
     many re_space, chr_re CHR ''('', many re_space, Grp 2 (some1 re_word), many re_space, chr_re CHR '')'', many re_space, Eol])"
      unfolding seqs.simps by (intro re_starts_intros i)
    from cpp_hits [OF 2 [unfolded cpp_ifdefined_re_def] this c(1,3)] show ?thesis by blast
  next
    case 3
    from cpp_hits [OF 3 [unfolded cpp_if_re_def] starts_Seq [OF i(1)] c(1,3)] show ?thesis by blast
  next
    case 4
    from cpp_hits [OF 4 [unfolded cpp_else_re_def] starts_Seq [OF i(2)] c(2,4)] show ?thesis by blast
  next
    case 5
    from cpp_hits [OF 5 [unfolded cpp_elif_re_def] starts_Seq [OF i(3)] c(2,4)] show ?thesis by blast
  next
    case 6
    from cpp_hits [OF 6 [unfolded cpp_endif_re_def] starts_Seq [OF i(4)] c(2,4)] show ?thesis by blast
  qed
qed

lemma inert_plain: "inert l \<Longrightarrow> directive l = Plain"
proof (rule ccontr)
  assume i: "inert l" and "directive l \<noteq> Plain"
  from directive_word [OF this(2)] obtain t where
    t: "lstrip l = CHR ''#'' # t" "startswith (cpp_word l) ''if'' \<or> startswith (cpp_word l) ''el'' \<or> startswith (cpp_word l) ''en''"
    by blast
  from i consider "\<exists>t. lstrip l = CHR ''!'' # t" | "hits omp_include_re l"
    unfolding inert_def omp_sentinel_re_def omp_cond_line_re_def vendor_directive_re_def seqs.simps using bang_lead by blast
  then show False
  proof cases
    case 1
    with t show ?thesis by auto
  next
    case 2
    have c: "\<not> is_space CHR ''i''" "lower_char CHR ''i'' = CHR ''i''" "lower ''in'' = take 2 (lower ''include'')" "lower ''in'' = ''in''"
      by code_simp+
    from starts_ilit [OF c(3)] have "re_starts ''in'' (ilit ''include'')" unfolding c(4) .
    then have "re_starts ''in'' (seqs [ilit ''include'', many re_space, Cls False [(60, 60), (34, 34)],
     many (Cls True [(62, 62), (34, 34)]), ilit ''omp_definitions'', many (Cls True [(62, 62), (34, 34)]), chr_re CHR ''.'',
     ilit ''inc'', Cls False [(62, 62), (34, 34)], many re_space, Eol])"
      unfolding seqs.simps by (rule starts_Seq)
    from cpp_hits [OF 2 [unfolded omp_include_re_def] this c(1,2)] t(2) show ?thesis
      by (auto simp: startswith_def)
  qed
qed

section \<open>Stripping twice\<close>

text \<open>The conditionals that stay open in the output: those outside the outermost arm that is dropped, less the
  ones on the two macros.\<close>

fun kept_open :: "cond_stack \<Rightarrow> cond_stack" where
  "kept_open [] = []"
| "kept_open (x # st) = (if dropping (x # st) \<or> fst x then kept_open st else x # kept_open st)"

lemma dropping_simps [simp]: "dropping []  = False" "dropping ((a, d) # st) = (a \<and> d \<or> dropping st)"
  by (simp_all add: dropping_def)

lemma kept_open_plain: "dropping (kept_open st) = False" "kept_open st = (True, d) # r \<Longrightarrow> False"
  by (induction st) (auto split: if_splits)

lemma strip_step_out: "strip_step l (st, out) = (fst (strip_step l (st, [])), out @ snd (strip_step l (st, [])))"
  by (auto simp: strip_step.simps emit_def split: directive.splits list.splits prod.splits bool.splits)

lemma kept_open_step:
  assumes "strip_step l (st, []) = (st', e)"
  shows "(e = [] \<and> kept_open st' = kept_open st) \<or> (e = [l] \<and> strip_step l (kept_open st, []) = (kept_open st', [l]))"
proof (cases st)
  case Nil
  with assms show ?thesis
    using inert_plain [of l] by (cases "directive l") (auto simp: strip_step.simps emit_def split: if_splits)
next
  case (Cons x r)
  obtain a d where x: "x = (a, d)" by force
  note keep = kept_open_plain(1) [of r] kept_open_plain(1) [of st] inert_plain [of l]
  show ?thesis
    using assms keep unfolding Cons x
    by (cases "directive l"; cases a; cases d; cases "dropping r"; cases "inert l")
      (auto simp: strip_step.simps emit_def split: list.splits prod.splits bool.splits dest: kept_open_plain(2))
qed

lemma strip_again:
  "fold strip_step ls (st, out) = (st', out @ es) \<Longrightarrow> fold strip_step es (kept_open st, o2) = (kept_open st', o2 @ es)"
proof (induction ls arbitrary: st out o2 es)
  case (Cons l ls)
  define s1 e where "s1 = fst (strip_step l (st, []))" and "e = snd (strip_step l (st, []))"
  then have step: "strip_step l (st, []) = (s1, e)" by simp
  then have "strip_step l (st, out) = (s1, out @ e)" using strip_step_out [of l st out] by simp
  with Cons.prems have run: "fold strip_step ls (s1, out @ e) = (st', out @ es)" by simp
  moreover have "\<exists>es1. fold strip_step ls (s1, out @ e) = (st', (out @ e) @ es1)"
  proof -
    have "\<exists>w. snd (fold strip_step ls q) = snd q @ w" for q
    proof (induction ls arbitrary: q)
      case (Cons l ls)
      show ?case using Cons.IH [of "strip_step l q"] strip_step_out [of l "fst q" "snd q"] by (cases q) auto
    qed simp
    from this [of "(s1, out @ e)"] run show ?thesis by auto
  qed
  ultimately obtain es1 where es: "es = e @ es1" and rest: "fold strip_step ls (s1, out @ e) = (st', (out @ e) @ es1)"
    by auto
  note ih = Cons.IH [OF rest]
  from kept_open_step [OF step] show ?case
  proof
    assume "e = [] \<and> kept_open s1 = kept_open st"
    with ih [of o2] es show ?thesis by simp
  next
    assume "e = [l] \<and> strip_step l (kept_open st, []) = (kept_open s1, [l])"
    with ih [of "o2 @ [l]"] es strip_step_out [of l "kept_open st" o2] show ?thesis by simp
  qed
qed simp

lemma strip_lines_idem: "strip_lines (strip_lines ls) = strip_lines ls"
proof -
  obtain st es where "fold strip_step ls ([], []) = (st, es)" by force
  with strip_again [of ls "[]" "[]" st es "[]"] show ?thesis by (simp add: strip_lines_def)
qed

lemma subseq_strip: "\<exists>es. snd (fold strip_step ls (st, out)) = out @ es \<and> subseq es ls"
proof (induction ls arbitrary: st out)
  case (Cons l ls)
  define s1 e where "s1 = fst (strip_step l (st, []))" and "e = snd (strip_step l (st, []))"
  have step: "strip_step l (st, out) = (s1, out @ e)" using strip_step_out [of l st out] by (simp add: s1_def e_def)
  from kept_open_step [of l st s1 e] have e: "e = [] \<or> e = [l]" by (auto simp: s1_def e_def)
  from Cons.IH [of s1 "out @ e"] obtain es where "snd (fold strip_step ls (s1, out @ e)) = (out @ e) @ es" "subseq es ls" by blast
  with step e show ?case by auto
qed simp

lemma strip_lines_subseq: "subseq (strip_lines ls) ls"
  using subseq_strip [of ls "[]" "[]"] by (auto simp: strip_lines_def)

section \<open>Well-nested sources\<close>

text \<open>A source as the C preprocessor sees it: lines, conditionals on one of the two macros with an optional
  \<open>#else\<close> arm, and other conditionals with any number of further arms.\<close>

datatype item =
    Line string
  | OmpCond string "item list" "(string \<times> item list) list" string  \<comment> \<open>at most one further arm\<close>
  | OtherCond string "item list" "(string \<times> item list) list" string

fun item_ok :: "item \<Rightarrow> bool" where
  "item_ok (Line l) = (directive l = Plain)"
| "item_ok (OmpCond opn as arms cls) =
     ((\<exists>d. directive opn = OmpIf d) \<and> list_all item_ok as \<and> length arms \<le> 1 \<and>
      list_all (\<lambda>(l, b). directive l = Else \<and> list_all item_ok b) arms \<and> directive cls = Endif)"
| "item_ok (OtherCond opn as arms cls) =
     (directive opn = OtherIf \<and> list_all item_ok as \<and>
      list_all (\<lambda>(l, b). directive l \<in> {Else, Elif} \<and> list_all item_ok b) arms \<and> directive cls = Endif)"

fun item_lines :: "item \<Rightarrow> string list" where
  "item_lines (Line l) = [l]"
| "item_lines (OmpCond opn as arms cls) =
     opn # concat (map item_lines as) @ concat (map (\<lambda>(l, b). l # concat (map item_lines b)) arms) @ [cls]"
| "item_lines (OtherCond opn as arms cls) =
     opn # concat (map item_lines as) @ concat (map (\<lambda>(l, b). l # concat (map item_lines b)) arms) @ [cls]"

text \<open>What is left of it when neither macro is defined: an arm of the conditionals on them, the others whole.\<close>

fun resolved :: "item \<Rightarrow> string list" where
  "resolved (Line l) = (if inert l then [] else [l])"
| "resolved (OmpCond opn as arms cls) =
     (if directive opn = OmpIf True then concat (map (\<lambda>(l, b). concat (map resolved b)) arms)
      else concat (map resolved as))"
| "resolved (OtherCond opn as arms cls) =
     opn # concat (map resolved as) @ concat (map (\<lambda>(l, b). l # concat (map resolved b)) arms) @ [cls]"

definition neutral :: "string list \<Rightarrow> string list \<Rightarrow> bool" where
  "neutral ls rs = (\<forall>st out. fold strip_step ls (st, out) = (st, if dropping st then out else out @ rs))"

lemma neutralD: "neutral ls rs \<Longrightarrow> fold strip_step ls (st, out) = (st, if dropping st then out else out @ rs)"
  by (simp add: neutral_def)

lemma lines_neutral_append: "neutral as bs \<Longrightarrow> neutral cs ds \<Longrightarrow> neutral (as @ cs) (bs @ ds)"
  by (simp add: neutral_def)

lemma lines_neutral_concat: "(\<And>x. x \<in> set xs \<Longrightarrow> neutral (f x) (g x)) \<Longrightarrow> neutral (concat (map f xs)) (concat (map g xs))"
  by (induction xs) (auto simp: neutral_def)

lemma directive_emit: "directive l \<noteq> Plain \<Longrightarrow> \<not> inert l"
  using inert_plain by blast

lemma other_arms:
  assumes "\<And>l b. (l, b) \<in> set arms \<Longrightarrow> directive l \<in> {Else, Elif} \<and> neutral (f b) (g b)"
  shows "fold strip_step (concat (map (\<lambda>(l, b). l # f b) arms)) ((False, False) # st, out) =
    ((False, False) # st, if dropping st then out else out @ concat (map (\<lambda>(l, b). l # g b) arms))"
  using assms
proof (induction arms arbitrary: out)
  case (Cons x arms)
  obtain l b where x: "x = (l, b)" by force
  from Cons.prems [of l b] have d: "directive l \<in> {Else, Elif}" "neutral (f b) (g b)" by (auto simp: x)
  have step: "strip_step l ((False, False) # st, out) = ((False, False) # st, if dropping st then out else out @ [l])"
    using d(1) directive_emit [of l] by (auto simp: strip_step.simps emit_def)
  show ?case
    using Cons.IH [OF Cons.prems] neutralD [OF d(2)] step by (simp add: x)
qed simp

lemma item_neutral: "item_ok i \<Longrightarrow> neutral (item_lines i) (resolved i)"
proof (induction i)
  case (Line l)
  then show ?case by (simp add: neutral_def strip_step.simps emit_def)
next
  case (OmpCond opn as arms cls)
  then obtain d where d: "directive opn = OmpIf d" "directive cls = Endif" "length arms \<le> 1" by auto
  have body: "neutral (concat (map item_lines as)) (concat (map resolved as))"
    using OmpCond by (intro lines_neutral_concat) (auto simp: list_all_iff)
  have arm: "directive l = Else \<and> neutral (concat (map item_lines b)) (concat (map resolved b))" if "(l, b) \<in> set arms" for l b
    using that OmpCond by (intro conjI lines_neutral_concat) (fastforce simp: list_all_iff)+
  consider "arms = []" | l b where "arms = [(l, b)]"
    using d(3) by (cases arms) (auto simp: le_Suc_eq)
  then show ?case
  proof cases
    case 1
    then show ?thesis
      by (auto simp: neutral_def strip_step.simps d neutralD [OF body])
  next
    case 2
    with arm [of l b] have a: "directive l = Else" "neutral (concat (map item_lines b)) (concat (map resolved b))" by auto
    show ?thesis
      by (auto simp: neutral_def 2 strip_step.simps d a(1) neutralD [OF body] neutralD [OF a(2)])
  qed
next
  case (OtherCond opn as arms cls)
  then have d: "directive opn = OtherIf" "directive cls = Endif" by auto
  have body: "neutral (concat (map item_lines as)) (concat (map resolved as))"
    using OtherCond by (intro lines_neutral_concat) (auto simp: list_all_iff)
  have arm: "directive l \<in> {Else, Elif} \<and> neutral (concat (map item_lines b)) (concat (map resolved b))" if "(l, b) \<in> set arms" for l b
    using that OtherCond by (intro conjI lines_neutral_concat) (fastforce simp: list_all_iff)+
  show ?case
    unfolding neutral_def
  proof (intro allI)
    fix st out
    have "\<not> inert opn" "\<not> inert cls" using d directive_emit by simp_all
    then have opn: "strip_step opn (st, out) = ((False, False) # st, if dropping st then out else out @ [opn])"
      and cls: "strip_step cls ((False, False) # st, o2) = (st, if dropping st then o2 else o2 @ [cls])" for o2
      by (simp_all add: strip_step.simps d emit_def)
    show "fold strip_step (item_lines (OtherCond opn as arms cls)) (st, out) =
        (st, if dropping st then out else out @ resolved (OtherCond opn as arms cls))"
      using other_arms [of arms "\<lambda>b. concat (map item_lines b)" "\<lambda>b. concat (map resolved b)" st, OF arm]
      by (simp add: opn cls neutralD [OF body])
  qed
qed

lemma strip_items: "list_all item_ok items \<Longrightarrow> strip_lines (concat (map item_lines items)) = concat (map resolved items)"
  using lines_neutral_concat [of items item_lines resolved] item_neutral
  by (simp add: list_all_iff strip_lines_def neutral_def)

section \<open>Balanced blocks\<close>

definition cpp_line :: "string \<Rightarrow> bool" where
  "cpp_line l = (hits cpp_open_re l \<or> hits cpp_endif_re l \<or> hits cpp_mid_re l)"

definition is_mid :: "string \<Rightarrow> bool" where
  "is_mid l = (\<not> hits cpp_open_re l \<and> \<not> hits cpp_endif_re l \<and> hits cpp_mid_re l)"

text \<open>How many conditionals a sequence of lines leaves open; \<open>None\<close> for a directive without its opener.\<close>

definition depth_step :: "string \<Rightarrow> nat option \<Rightarrow> nat option" where
  "depth_step l d =
     (case d of None \<Rightarrow> None
      | Some n \<Rightarrow>
          (if hits cpp_open_re l then Some (n + 1)
           else if hits cpp_endif_re l then (if n = 0 then None else Some (n - 1))
           else if hits cpp_mid_re l \<and> n = 0 then None else Some n))"

definition cpp_depth :: "string list \<Rightarrow> nat option" where
  "cpp_depth ls = fold depth_step ls (Some 0)"

lemma cpp_depth_snoc: "cpp_depth (ls @ [l]) = depth_step l (cpp_depth ls)" "cpp_depth [] = Some 0"
  by (simp_all add: cpp_depth_def)

lemma balance_from_snoc: "balance_from i (ls @ [l]) st = balance_step (i + length ls) l (balance_from i ls st)"
  by (induction i ls st rule: balance_from.induct) simp_all

lemma without_snoc: "without js (xs @ [x]) = without js xs @ (if length xs \<in> set js then [] else [x])"
  by (simp add: without_def)

lemma without_cong: "(\<And>i. i < length xs \<Longrightarrow> i \<in> set js \<longleftrightarrow> i \<in> set ks) \<Longrightarrow> without js xs = without ks xs"
  unfolding without_def by (intro arg_cong [where f = "map snd"] filter_cong refl) (auto dest: set_zip_leftD)

lemma without_none [simp]: "without [] xs = xs"
  by (induction xs rule: rev_induct) (simp_all add: without_snoc, simp add: without_def)

text \<open>Line numbers recorded are those of directives read so far.\<close>

lemma balance_lines:
  "balance_from 0 ls ([], []) = (os, ds) \<Longrightarrow> \<forall>i \<in> set os \<union> set ds. i < length ls \<and> cpp_line (ls ! i)"
proof (induction ls arbitrary: os ds rule: rev_induct)
  case (snoc l ls)
  obtain os1 ds1 where b: "balance_from 0 ls ([], []) = (os1, ds1)" by force
  have "\<forall>i \<in> set os1 \<union> set ds1. i < length (ls @ [l]) \<and> cpp_line ((ls @ [l]) ! i)"
  proof
    fix i assume "i \<in> set os1 \<union> set ds1"
    with snoc.IH [OF b] have "i < length ls" "cpp_line (ls ! i)" by blast+
    then show "i < length (ls @ [l]) \<and> cpp_line ((ls @ [l]) ! i)" by (simp add: nth_append)
  qed
  with snoc.prems b show ?case
    by (auto simp: balance_from_snoc balance_step_def cpp_line_def split: if_splits list.splits)
qed simp

text \<open>Whatever innermost part of the open conditionals is kept, the lines left are nested and leave that many
  open.\<close>

lemma balance_depth:
  assumes "\<forall>l \<in> set ls. \<not> is_mid l" and "balance_from 0 ls ([], []) = (js @ os, ds)"
  shows "cpp_depth (without (os @ ds) ls) = Some (length js)"
  using assms
proof (induction ls arbitrary: js os ds rule: rev_induct)
  case (snoc l ls)
  obtain opn drp where b: "balance_from 0 ls ([], []) = (opn, drp)" by force
  have old: "without (u @ length ls # v) ls = without (u @ v) ls" "without (length ls # v) ls = without v ls" for u v
    by (intro without_cong, auto)+
  have fresh: "length ls \<notin> set opn" "length ls \<notin> set drp" using balance_lines [OF b] by auto
  have ih: "cpp_depth (without (os @ drp) ls) = Some (length js)" if "opn = js @ os" for js os
    using snoc.IH [of js os drp] snoc.prems(1) b that by simp
  have nm: "\<not> is_mid l" using snoc.prems(1) by simp
  from snoc.prems(2) have st: "balance_step (length ls) l (opn, drp) = (js @ os, ds)" by (simp add: balance_from_snoc b)
  consider (o) "hits cpp_open_re l" | (e) "\<not> hits cpp_open_re l" "hits cpp_endif_re l" "opn \<noteq> []"
    | (x) "\<not> hits cpp_open_re l" "hits cpp_endif_re l" "opn = []" | (n) "\<not> hits cpp_open_re l" "\<not> hits cpp_endif_re l" by blast
  then show ?case
  proof cases
    case o
    with st have eq: "length ls # opn = js @ os" "drp = ds" by (simp_all add: balance_step_def)
    show ?thesis
    proof (cases js)
      case Nil
      with eq have "os = length ls # opn" by simp
      with ih [of "[]" opn] Nil eq(2) show ?thesis by (simp add: without_snoc old)
    next
      case (Cons j js')
      with eq have "opn = js' @ os" by simp
      from ih [OF this] this eq Cons fresh o show ?thesis by (auto simp: without_snoc cpp_depth_snoc depth_step_def)
    qed
  next
    case e
    with st obtain j where "opn = (j # js) @ os" "drp = ds" by (auto simp: balance_step_def split: list.splits)
    from ih [OF this(1)] this fresh e show ?thesis by (auto simp: without_snoc cpp_depth_snoc depth_step_def)
  next
    case x
    with st have "js = []" "os = []" "ds = length ls # drp" by (auto simp: balance_step_def)
    with x ih [of "[]" "[]"] show ?thesis by (simp add: without_snoc old)
  next
    case n
    with nm have "\<not> hits cpp_mid_re l" by (simp add: is_mid_def)
    with n st have "opn = js @ os" "drp = ds" by (auto simp: balance_step_def split: if_splits)
    from ih [OF this(1)] this fresh n \<open>\<not> hits cpp_mid_re l\<close> show ?thesis
      by (auto simp: without_snoc cpp_depth_snoc depth_step_def)
  qed
qed (simp add: without_def cpp_depth_snoc)

lemma balance_nested: "cpp_depth ls = Some n \<Longrightarrow> \<exists>os. balance_from 0 ls ([], []) = (os, []) \<and> length os = n"
proof (induction ls arbitrary: n rule: rev_induct)
  case (snoc l ls)
  obtain m where m: "cpp_depth ls = Some m"
    using snoc.prems by (cases "cpp_depth ls") (auto simp: cpp_depth_snoc depth_step_def)
  from snoc.IH [OF m] obtain os where os: "balance_from 0 ls ([], []) = (os, [])" "length os = m" by blast
  with snoc.prems m show ?case
    by (cases os) (auto simp: cpp_depth_snoc depth_step_def balance_from_snoc balance_step_def split: if_splits)
qed (simp add: cpp_depth_snoc)

lemma without_filter: "(\<forall>i < length ls. i \<in> set js \<longrightarrow> \<not> P (ls ! i)) \<Longrightarrow> filter P (without js ls) = filter P ls"
proof (induction ls rule: rev_induct)
  case (snoc l ls)
  have "\<forall>i < length ls. i \<in> set js \<longrightarrow> \<not> P (ls ! i)"
    using snoc.prems by (metis less_SucI length_append_singleton nth_append)
  moreover have "length ls \<in> set js \<longrightarrow> \<not> P l" using snoc.prems by (metis lessI length_append_singleton nth_append_length)
  ultimately show ?case using snoc.IH by (simp add: without_snoc)
qed (simp add: without_def)

lemma subseq_without: "subseq (without js ls) ls"
proof (induction ls rule: rev_induct)
  case (snoc l ls)
  then show ?case using list_emb_append_mono [of "(=)" "without js ls" ls "[l]" "[l]"] by (auto simp: without_snoc)
qed (simp add: without_def)

section \<open>Properties\<close>


definition ln :: "string \<Rightarrow> string" where
  "ln s = s @ [LF]"

definition ex_items :: "item list" where
  "ex_items = [Line (ln ''a''), OmpCond (ln ''#ifdef _OPENMP'') [Line (ln ''b''), OtherCond (ln ''#if X'') [Line (ln ''c'')] [] (ln ''#endif'')]
     [(ln ''#else'', [Line (ln ''d''), Line (ln ''!$acc loop'')])] (ln ''#endif''), Line (ln ''e'')]"


text \<open>Filtering is idempotent: on its own output it changes nothing, whatever the nesting of the source.\<close>

theorem strip_twice:
  assumes "CR \<notin> set source"
  shows "strip_openmp_directives (strip_openmp_directives source) = strip_openmp_directives source"
proof -
  let ?ls = "splitlines_keep source"
  have "lines_ok (strip_lines ?ls)"
    using lines_ok_subseq [OF strip_lines_subseq splitlines_ok [OF assms]] .
  then show ?thesis by (simp add: strip_openmp_directives_def split_concat strip_lines_idem)
qed

theorem strip_twice_witness:
  "strip_openmp_directives (strip_openmp_directives (ln ''#endif'' @ ln ''#if X'' @ ln ''!$omp end'')) =
     strip_openmp_directives (ln ''#endif'' @ ln ''#if X'' @ ln ''!$omp end'')"
proof -
  have "CR \<notin> set (ln ''#endif'' @ ln ''#if X'' @ ln ''!$omp end'')" by code_simp
  then show ?thesis by (rule strip_twice)
qed

text \<open>An \<open>#elif\<close> between the arms of a conditional that tests that a macro is not defined turns the first
  arm off, so that the \<open>#else\<close> turns the last one on: both are left in the text, of which the C preprocessor
  keeps only the first.\<close>

theorem elif_keeps_two_arms:
  assumes "directive opn = OmpIf False" and "directive mid = Elif" and "directive els = Else" and "directive cls = Endif"
    and "list_all item_ok as" and "list_all item_ok bs" and "list_all item_ok cs"
  shows "strip_lines (opn # concat (map item_lines as) @ mid # concat (map item_lines bs) @ els # concat (map item_lines cs) @ [cls]) =
    concat (map resolved as) @ concat (map resolved cs)"
proof -
  have n: "neutral (concat (map item_lines xs)) (concat (map resolved xs))" if "list_all item_ok xs" for xs
    using that item_neutral by (intro lines_neutral_concat) (auto simp: list_all_iff)
  show ?thesis
    by (simp add: strip_lines_def strip_step.simps assms(1-4) neutralD [OF n] assms(5-7))
qed

theorem elif_keeps_two_arms_witness:
  "strip_lines [ln ''#ifndef _OPENMP'', ln ''a'', ln ''#elif X'', ln ''b'', ln ''#else'', ln ''c'', ln ''#endif''] = [ln ''a'', ln ''c'']"
proof -
  have d: "directive (ln ''#ifndef _OPENMP'') = OmpIf False" "directive (ln ''#elif X'') = Elif" "directive (ln ''#else'') = Else"
    "directive (ln ''#endif'') = Endif" and p: "directive (ln ''a'') = Plain" "directive (ln ''b'') = Plain" "directive (ln ''c'') = Plain"
    and "\<not> inert (ln ''a'')" "\<not> inert (ln ''c'')"
    by code_simp+
  then show ?thesis
    using elif_keeps_two_arms [OF d, of "[Line (ln ''a'')]" "[Line (ln ''b'')]" "[Line (ln ''c'')]"] by simp
qed

text \<open>Balancing a block drops directives only and in place, changes nothing when the conditionals are nested
  already, and in a block without \<open>#else\<close> and \<open>#elif\<close> leaves nested conditionals.\<close>

theorem balance_cpp_balanced:
  assumes "ls = splitlines_keep block" and "rs = without (balance_drop ls) ls"
  shows "balance_cpp block = concat rs \<and> filter (\<lambda>l. \<not> cpp_line l) rs = filter (\<lambda>l. \<not> cpp_line l) ls \<and>
    (cpp_depth ls = Some 0 \<longrightarrow> rs = ls) \<and> ((\<forall>l \<in> set ls. \<not> is_mid l) \<longrightarrow> cpp_depth rs = Some 0)"
proof -
  obtain os ds where b: "balance_from 0 ls ([], []) = (os, ds)" by force
  then have dr: "balance_drop ls = os @ ds" by (simp add: balance_drop_def)
  have "filter (\<lambda>l. \<not> cpp_line l) rs = filter (\<lambda>l. \<not> cpp_line l) ls"
    unfolding assms(2) dr using balance_lines [OF b] by (intro without_filter) auto
  moreover have "cpp_depth ls = Some 0 \<longrightarrow> rs = ls" using balance_nested [of ls 0] b dr by (auto simp: assms(2))
  moreover have "(\<forall>l \<in> set ls. \<not> is_mid l) \<longrightarrow> cpp_depth rs = Some 0"
    using balance_depth [of ls "[]" os ds] b by (simp add: assms(2) dr)
  ultimately show ?thesis by (simp add: balance_cpp_def assms)
qed

theorem balance_cpp_balanced_witness:
  "cpp_depth (without (balance_drop [ln ''#ifdef A'', ln ''a'', ln ''#if B'', ln ''#endif'']) [ln ''#ifdef A'', ln ''a'', ln ''#if B'', ln ''#endif'']) = Some 0"
proof -
  let ?ls = "[ln ''#ifdef A'', ln ''a'', ln ''#if B'', ln ''#endif'']"
  have "lines_ok ?ls" by code_simp
  then have s: "splitlines_keep (concat ?ls) = ?ls" by (rule split_concat)
  have "list_all (\<lambda>l. \<not> is_mid l) ?ls" by code_simp
  then have "\<forall>l \<in> set ?ls. \<not> is_mid l" by (simp only: list_all_iff)
  then show ?thesis using balance_cpp_balanced [OF s [symmetric] refl] by blast
qed

text \<open>Behind an opener that stays unmatched an \<open>#else\<close> or \<open>#elif\<close> is not dropped: the opener goes, and the
  directive is left without one.\<close>

theorem balance_leaves_orphan_else:
  assumes "hits cpp_open_re opn" and "is_mid els" and "\<not> cpp_line a" and "\<not> cpp_line b"
  shows "without (balance_drop [opn, a, els, b]) [opn, a, els, b] = [a, els, b] \<and> cpp_depth [a, els, b] = None"
  using assms
  by (auto simp: balance_drop_def balance_step_def is_mid_def cpp_line_def without_def cpp_depth_def depth_step_def upt_rec)

theorem balance_leaves_orphan_else_witness:
  "without (balance_drop [ln ''#ifdef A'', ln ''module m'', ln ''#else'', ln ''end module'']) [ln ''#ifdef A'', ln ''module m'', ln ''#else'', ln ''end module''] =
     [ln ''module m'', ln ''#else'', ln ''end module'']"
proof -
  have "hits cpp_open_re (ln ''#ifdef A'')" "is_mid (ln ''#else'')" "\<not> cpp_line (ln ''module m'')" "\<not> cpp_line (ln ''end module'')" by code_simp+
  from balance_leaves_orphan_else [OF this] show ?thesis by blast
qed

end
