(* ===== verification/Stub_Bodies.thy ===== *)
theory Stub_Bodies
  imports Source_Scan
begin

text \<open>
  \<open>_stub_procedure_bodies\<close> of \<open>preprocess.py\<close>: the bodies of the procedures that stay external are emptied,
  their openers, specification parts and \<open>END\<close> lines kept. The three inner loops of the source are the three
  functions below; each returns the lines it keeps and the lines that are left.
\<close>

section \<open>Patterns\<close>

text \<open>The alternatives a procedure's opener can begin with, and the pattern (\<open>_PROC_OPEN_RE\<close>; \<open>_SCOPE_OPEN_RE\<close> is
  the same text).\<close>

definition proc_kinds :: "regex list" where
  "proc_kinds =
     [ilit ''SUBROUTINE'', ilit ''FUNCTION'', seqs [ilit ''REAL'', many re_space, ilit ''FUNCTION''],
      seqs [ilit ''INTEGER'', many re_space, ilit ''FUNCTION''], seqs [ilit ''LOGICAL'', many re_space, ilit ''FUNCTION''],
      seqs [ilit ''DOUBLE'', some1 re_space, ilit ''PRECISION'', some1 re_space, ilit ''FUNCTION''],
      seqs [alts [ilit ''REAL'', ilit ''INTEGER'', ilit ''LOGICAL'', ilit ''COMPLEX'', ilit ''CHARACTER''], many re_space, chr_re CHR ''('',
        many re_space, many (Cls True [(41, 41)]), chr_re CHR '')'', some1 re_space, ilit ''FUNCTION'']]"

definition re_letter :: regex where
  "re_letter = Cls False [(65, 90), (97, 122)]"

definition PROC_OPEN_RE :: regex where
  "PROC_OPEN_RE = seqs [Bol, many re_space,
     many (Seq (alts [ilit ''RECURSIVE'', ilit ''PURE'', ilit ''ELEMENTAL'', ilit ''IMPURE'']) (some1 re_space)),
     alts proc_kinds, some1 re_space, Grp 1 (Seq re_letter (many re_word))]"

definition PROC_END_RE :: regex where
  "PROC_END_RE = seqs [Bol, many re_space, ilit ''END'', many re_space, alts [ilit ''SUBROUTINE'', ilit ''FUNCTION''], Wordb]"

definition CONTAINS_RE :: regex where
  "CONTAINS_RE = seqs [Bol, many re_space, ilit ''CONTAINS'', Wordb]"

definition INTERFACE_OPEN_RE :: regex where
  "INTERFACE_OPEN_RE = seqs [Bol, many re_space, opt (Seq (ilit ''ABSTRACT'') (some1 re_space)), ilit ''INTERFACE'', Wordb]"

definition INTERFACE_END_RE :: regex where
  "INTERFACE_END_RE = seqs [Bol, many re_space, ilit ''END'', many re_space, ilit ''INTERFACE'', Wordb]"

definition spec_words :: "string list" where
  "spec_words = [''USE'', ''IMPLICIT'', ''INTEGER'', ''REAL'', ''DOUBLE PRECISION'', ''COMPLEX'', ''LOGICAL'', ''CHARACTER'', ''TYPE'', ''CLASS'',
     ''PROCEDURE'', ''INTERFACE'', ''END INTERFACE'', ''END TYPE'', ''MODULE PROCEDURE'', ''PARAMETER'', ''DIMENSION'', ''ALLOCATABLE'',
     ''POINTER'', ''TARGET'', ''INTENT'', ''OPTIONAL'', ''SAVE'', ''EXTERNAL'', ''INTRINSIC'', ''COMMON'', ''DATA'', ''NAMELIST'', ''IMPORT'',
     ''VALUE'', ''VOLATILE'', ''ASYNCHRONOUS'', ''SEQUENCE'', ''GENERIC'', ''ENUM'', ''ENUMERATOR'', ''EQUIVALENCE'', ''BIND'', ''CONTIGUOUS'']"

text \<open>A keyword of the pattern: a blank in it stands for \<open>\s+\<close>.\<close>

definition word_re :: "string \<Rightarrow> regex" where
  "word_re w = seqs (map (\<lambda>c. if c = CHR '' '' then some1 re_space else ichr_re c) w @ [Wordb])"

definition SPEC_LINE_RE :: regex where
  "SPEC_LINE_RE = seqs [Bol, many re_space, alts (chr_re CHR ''&'' # map word_re spec_words)]"

section \<open>Lines\<close>

definition code_part :: "string \<Rightarrow> string" where
  "code_part l = code_of_line (line_body l)"

definition proc_open :: "string \<Rightarrow> string option" where
  "proc_open l = map_option (\<lambda>m. grp0 m 1) (re_match PROC_OPEN_RE (code_part l))"

definition proc_end :: "string \<Rightarrow> bool" where
  "proc_end l = hits PROC_END_RE (code_part l)"

definition iface_open :: "string \<Rightarrow> bool" where
  "iface_open l = hits INTERFACE_OPEN_RE (code_part l)"

definition iface_end :: "string \<Rightarrow> bool" where
  "iface_end l = hits INTERFACE_END_RE (code_part l)"

text \<open>What ends the specification part: the procedure's end, a \<open>CONTAINS\<close>, another procedure, or a line with
  code that is no specification.\<close>

definition spec_stop :: "string \<Rightarrow> bool" where
  "spec_stop l =
     (proc_end l \<or> hits CONTAINS_RE (code_part l) \<or> proc_open l \<noteq> None \<or>
      strip (code_part l) \<noteq> [] \<and> \<not> hits SPEC_LINE_RE (code_part l))"

definition is_target :: "string list \<Rightarrow> string \<Rightarrow> bool" where
  "is_target targets nm = (lower nm \<in> set targets \<or> list_ex (\<lambda>t. startswith (lower nm) (t @ ''_'')) targets)"

section \<open>The loops\<close>

fun keep_interface :: "nat \<Rightarrow> string list \<Rightarrow> string list \<times> string list" where
  "keep_interface d [] = ([], [])"
| "keep_interface d (l # ls) =
     (if iface_open l then (let (k, r) = keep_interface (d + 1) ls in (l # k, r))
      else if iface_end l then
        (if d - 1 = 0 then ([l], ls) else let (k, r) = keep_interface (d - 1) ls in (l # k, r))
      else (let (k, r) = keep_interface d ls in (l # k, r)))"

lemma keep_interface_length: "length (snd (keep_interface d ls)) \<le> length ls"
  by (induction d ls rule: keep_interface.induct) (auto simp: Let_def split_beta)

function keep_spec :: "string list \<Rightarrow> string list \<times> string list" where
  "keep_spec [] = ([], [])"
| "keep_spec (l # ls) =
     (if iface_open l then
        (let (k, r) = keep_interface 1 ls; (k', r') = keep_spec r in (l # k @ k', r'))
      else if spec_stop l then ([], l # ls)
      else (let (k, r) = keep_spec ls in (l # k, r)))"
  by pat_completeness auto
termination
proof (relation "measure length", goal_cases)
  case (2 l ls x k r)
  then have "r = snd (keep_interface 1 ls)" by (metis snd_conv)
  then show ?case using keep_interface_length [of 1 ls] by simp
qed auto

fun drop_body :: "nat \<Rightarrow> string list \<Rightarrow> string list \<times> string list" where
  "drop_body d [] = ([], [])"
| "drop_body d (l # ls) =
     (if proc_open l \<noteq> None then drop_body (d + 1) ls
      else if proc_end l then (if d - 1 = 0 then ([l], ls) else drop_body (d - 1) ls)
      else drop_body d ls)"

lemma drop_body_length: "length (snd (drop_body d ls)) \<le> length ls"
  by (induction d ls rule: drop_body.induct) auto

lemma keep_spec_length: "length (snd (keep_spec ls)) \<le> length ls"
proof (induction ls rule: keep_spec.induct)
  case (2 l ls)
  obtain k r where k: "keep_interface 1 ls = (k, r)" by force
  with keep_interface_length [of 1 ls] have "length r \<le> length ls" by simp
  then show ?case
  proof (cases "iface_open l")
    case True
    with 2(1) [of "(k, r)" k r] k \<open>length r \<le> length ls\<close> show ?thesis by (simp add: split_beta)
  next
    case False
    with 2 show ?thesis by (cases "spec_stop l") (simp_all add: split_beta le_SucI)
  qed
qed simp

function stub_lines :: "string list \<Rightarrow> string list \<Rightarrow> string list" where
  "stub_lines targets [] = []"
| "stub_lines targets (l # ls) =
     (case proc_open l of
        None \<Rightarrow> l # stub_lines targets ls
      | Some nm \<Rightarrow>
          (if is_target targets nm then
             (let (spec, r) = keep_spec ls; (fin, r') = drop_body 1 r in l # spec @ fin @ stub_lines targets r')
           else l # stub_lines targets ls))"
  by pat_completeness auto
termination
proof (relation "measure (\<lambda>(t, ls). length ls)", goal_cases)
  case (3 targets l ls nm x spec r y fin r')
  then have "r' = snd (drop_body 1 r)" "r = snd (keep_spec ls)" by (metis snd_conv)+
  then show ?case using drop_body_length [of 1 r] keep_spec_length [of ls] by simp
qed auto

definition stub_procedure_bodies :: "string \<Rightarrow> string list \<Rightarrow> string" where
  "stub_procedure_bodies txt names =
     (if names = [] then txt else concat (stub_lines (map lower names) (splitlines_keep txt)))"

section \<open>Procedures as units\<close>

text \<open>A file as a sequence of single lines and procedures: opener with the name it defines, specification part,
  body, end. The body holds lines and procedures in turn.\<close>

datatype unit_item =
    Single string
  | Procedure string string "string list" "unit_item list" string

fun unit_lines :: "unit_item \<Rightarrow> string list" where
  "unit_lines (Single l) = [l]"
| "unit_lines (Procedure opn nm spec body fin) = opn # spec @ concat (map unit_lines body) @ [fin]"

text \<open>What is left of it: a procedure that is a target loses its body.\<close>

fun stubbed :: "string list \<Rightarrow> unit_item \<Rightarrow> unit_item" where
  "stubbed targets (Single l) = Single l"
| "stubbed targets (Procedure opn nm spec body fin) =
     Procedure opn nm spec (if is_target targets nm then [] else map (stubbed targets) body) fin"

text \<open>A specification part: lines that do not stop it, and whole interface blocks with the procedures they declare.\<close>

definition quiet :: "string \<Rightarrow> bool" where
  "quiet l = (proc_open l = None \<and> \<not> proc_end l)"

inductive iface_body :: "string list \<Rightarrow> bool" where
  none: "iface_body []"
| line: "\<not> iface_open l \<Longrightarrow> \<not> iface_end l \<Longrightarrow> quiet l \<Longrightarrow> iface_body ls \<Longrightarrow> iface_body (l # ls)"
| decl: "proc_open opn = Some nm \<Longrightarrow> list_all (\<lambda>l. \<not> spec_stop l) spec \<Longrightarrow> proc_end fin \<Longrightarrow> proc_open fin = None \<Longrightarrow>
     list_all (\<lambda>l. \<not> iface_open l \<and> \<not> iface_end l) (opn # fin # spec) \<Longrightarrow> iface_body ls \<Longrightarrow> iface_body (opn # spec @ fin # ls)"

inductive spec_part :: "string list \<Rightarrow> bool" where
  none: "spec_part []"
| line: "\<not> iface_open l \<Longrightarrow> \<not> spec_stop l \<Longrightarrow> spec_part ls \<Longrightarrow> spec_part (l # ls)"
| iface: "iface_open l \<Longrightarrow> quiet l \<Longrightarrow> iface_body bs \<Longrightarrow> iface_end c \<Longrightarrow> \<not> iface_open c \<Longrightarrow> quiet c \<Longrightarrow> spec_part ls \<Longrightarrow>
     spec_part (l # bs @ c # ls)"

fun unit_ok :: "unit_item \<Rightarrow> bool" where
  "unit_ok (Single l) = quiet l"
| "unit_ok (Procedure opn nm spec body fin) =
     (proc_open opn = Some nm \<and> spec_part spec \<and> list_all unit_ok body \<and> proc_end fin \<and> proc_open fin = None \<and>
      (let l = hd (concat (map unit_lines body) @ [fin]) in spec_stop l \<and> \<not> iface_open l))"

section \<open>Stubbing a file of units\<close>

text \<open>Lines the two scans pass over without a trace.\<close>

definition passes :: "string list \<Rightarrow> bool" where
  "passes ls = ((\<forall>d rest. 0 < d \<longrightarrow> drop_body d (ls @ rest) = drop_body d rest) \<and>
     (\<forall>t rest. stub_lines t (ls @ rest) = ls @ stub_lines t rest))"

lemma passes_Nil: "passes []"
  by (simp add: passes_def)

lemma passes_append: "passes ls \<Longrightarrow> passes ms \<Longrightarrow> passes (ls @ ms)"
  by (simp add: passes_def)

lemma passes_quiet: "quiet l \<Longrightarrow> passes ls \<Longrightarrow> passes (l # ls)"
  by (simp add: passes_def quiet_def)

lemma spec_stop_quiet: "\<not> spec_stop l \<Longrightarrow> quiet l"
  by (simp add: spec_stop_def quiet_def)

lemma proc_end_stops: "proc_end l \<Longrightarrow> spec_stop l"
  by (simp add: spec_stop_def)

lemma keep_spec_lines:
  "list_all (\<lambda>l. \<not> spec_stop l) spec \<Longrightarrow> list_all (\<lambda>l. \<not> iface_open l) spec \<Longrightarrow> spec_stop l \<Longrightarrow> \<not> iface_open l \<Longrightarrow>
     keep_spec (spec @ l # rest) = (spec, l # rest)"
  by (induction spec) simp_all

lemma passes_lines: "list_all quiet ls \<Longrightarrow> passes ls"
  by (induction ls) (simp_all add: passes_Nil passes_quiet)

lemma passes_decl:
  assumes "proc_open opn = Some nm" and "list_all (\<lambda>l. \<not> spec_stop l) spec" and "proc_end fin" and "proc_open fin = None"
    and "list_all (\<lambda>l. \<not> iface_open l \<and> \<not> iface_end l) (opn # fin # spec)"
  shows "passes (opn # spec @ [fin])"
proof -
  have "passes spec" using assms(2) spec_stop_quiet by (intro passes_lines) (auto simp: list_all_iff)
  then have p: "0 < d \<Longrightarrow> drop_body d (spec @ rest) = drop_body d rest" "stub_lines t (spec @ rest) = spec @ stub_lines t rest" for d t rest
    by (simp_all add: passes_def)
  have k: "keep_spec (spec @ fin # rest) = (spec, fin # rest)" for rest
    using assms by (intro keep_spec_lines) (auto simp: list_all_iff proc_end_stops)
  show ?thesis
    using assms(1,3,4) p k by (auto simp: passes_def)
qed

lemma iface_passes: "iface_body bs \<Longrightarrow> passes bs"
proof (induction rule: iface_body.induct)
  case (decl opn nm spec fin ls)
  then have "passes (opn # spec @ [fin])" by (intro passes_decl)
  from passes_append [OF this decl.IH] show ?case by simp
qed (simp_all add: passes_Nil passes_quiet)

lemma spec_passes: "spec_part ls \<Longrightarrow> passes ls"
proof (induction rule: spec_part.induct)
  case (iface l bs c ls)
  have "passes (c # ls)" using iface by (intro passes_quiet)
  with iface have "passes (bs @ c # ls)" using iface_passes passes_append by blast
  with iface show ?case by (intro passes_quiet)
qed (simp_all add: passes_Nil passes_quiet spec_stop_quiet)

lemma keep_interface_plain:
  "list_all (\<lambda>l. \<not> iface_open l \<and> \<not> iface_end l) ls \<Longrightarrow>
     keep_interface d (ls @ rest) = (let (k, r) = keep_interface d rest in (ls @ k, r))"
  by (induction ls) (auto simp: Let_def split_beta)

lemma keep_interface_body: "iface_body bs \<Longrightarrow> keep_interface d (bs @ rest) = (let (k, r) = keep_interface d rest in (bs @ k, r))"
proof (induction arbitrary: rest rule: iface_body.induct)
  case (decl opn nm spec fin ls)
  have "list_all (\<lambda>l. \<not> iface_open l \<and> \<not> iface_end l) (opn # spec @ [fin])" using decl(5) by auto
  from keep_interface_plain [OF this, of d "ls @ rest"] decl.IH [of rest] show ?case by (auto simp: Let_def split_beta)
qed (simp_all add: Let_def split_beta)

lemma keep_spec_part:
  assumes "spec_part spec" and "spec_stop l" and "\<not> iface_open l"
  shows "keep_spec (spec @ l # rest) = (spec, l # rest)"
  using assms(1)
proof (induction rule: spec_part.induct)
  case (iface o' bs c ls)
  then have "keep_interface 1 (bs @ c # ls @ l # rest) = (bs @ [c], ls @ l # rest)" by (simp add: keep_interface_body)
  with iface show ?case by simp
qed (simp_all add: assms)

lemma unit_drops: "unit_ok u \<Longrightarrow> 0 < d \<Longrightarrow> drop_body d (unit_lines u @ rest) = drop_body d rest"
proof (induction u arbitrary: d rest)
  case (Procedure opn nm spec body fin)
  have body: "drop_body e (concat (map unit_lines us) @ r) = drop_body e r" if "set us \<subseteq> set body" "0 < e" for us e r
    using that Procedure by (induction us arbitrary: r) (auto simp: list_all_iff)
  have "passes spec" using Procedure.prems(1) spec_passes by simp
  with Procedure.prems body show ?case by (simp add: passes_def)
qed (simp add: quiet_def)

lemma stub_unit: "unit_ok u \<Longrightarrow> stub_lines t (unit_lines u @ rest) = unit_lines (stubbed t u) @ stub_lines t rest"
proof (induction u arbitrary: rest)
  case (Procedure opn nm spec body fin)
  let ?b = "concat (map unit_lines body)"
  have units: "list_all unit_ok body" and fin: "proc_end fin" "proc_open fin = None" and spec: "spec_part spec"
    using Procedure.prems by auto
  show ?case
  proof (cases "is_target t nm")
    case True
    have "drop_body 1 (concat (map unit_lines us) @ fin # rest) = ([fin], rest)" if "set us \<subseteq> set body" for us
      using that units fin by (induction us) (auto simp: list_all_iff unit_drops)
    then have d: "drop_body 1 (?b @ fin # rest) = ([fin], rest)" by simp
    obtain l ls where l: "?b @ [fin] = l # ls" by (cases "?b @ [fin]") auto
    then have "spec_stop l" "\<not> iface_open l" using Procedure.prems by auto
    from keep_spec_part [OF spec this, of "ls @ rest"] l
    have "keep_spec (spec @ ?b @ fin # rest) = (spec, ?b @ fin # rest)" by (metis append.assoc append_Cons append_Nil)
    with d Procedure.prems True show ?thesis by simp
  next
    case False
    have "stub_lines t (concat (map unit_lines us) @ r) = concat (map unit_lines (map (stubbed t) us)) @ stub_lines t r"
      if "set us \<subseteq> set body" for us r
      using that Procedure.IH units by (induction us arbitrary: r) (auto simp: list_all_iff)
    then have "stub_lines t (?b @ fin # rest) = concat (map unit_lines (map (stubbed t) body)) @ fin # stub_lines t rest"
      using fin by simp
    moreover have "stub_lines t (spec @ r) = spec @ stub_lines t r" for r using spec_passes [OF spec] by (simp add: passes_def)
    ultimately show ?thesis using Procedure.prems False by simp
  qed
qed (simp add: quiet_def)

lemma stub_units: "list_all unit_ok us \<Longrightarrow> stub_lines t (concat (map unit_lines us)) = concat (map unit_lines (map (stubbed t) us))"
proof -
  have "stub_lines t (concat (map unit_lines us) @ []) = concat (map unit_lines (map (stubbed t) us)) @ stub_lines t []"
    if "list_all unit_ok us" using that by (induction us) (simp_all add: stub_unit)
  then show "list_all unit_ok us \<Longrightarrow> ?thesis" by simp
qed

lemma stubbed_none: "stubbed [] u = u"
  by (induction u) (auto simp: is_target_def map_idI)

section \<open>Properties\<close>


definition eol :: "string \<Rightarrow> string" where
  "eol s = s @ [LF]"

definition ex_units :: "unit_item list" where
  "ex_units = [Single (eol ''contains''), Procedure (eol ''subroutine sync_a(x)'') ''sync_a'' [eol ''real :: x''] [Single (eol ''x = 1''),
     Single (eol ''contains''), Procedure (eol ''subroutine g'') ''g'' [] [] (eol ''end subroutine'')] (eol ''end subroutine'')]"


text \<open>An opener continued on the next line without a leading ampersand is cut: the continuation is taken for
  the first executable statement, so the rest of the statement and all declarations are dropped.\<close>

theorem continued_opener_cut:
  assumes "proc_open l1 = Some nm" and "is_target targets nm" and "spec_stop l2" and "\<not> iface_open l2"
    and "list_all quiet (l2 # ls)" and "proc_end fin" and "proc_open fin = None"
  shows "stub_lines targets (l1 # l2 # ls @ [fin]) = [l1, fin]"
proof -
  have "passes (l2 # ls)" using assms(5) by (rule passes_lines)
  then have "drop_body 1 ((l2 # ls) @ [fin]) = drop_body 1 [fin]" unfolding passes_def by (meson zero_less_one)
  then have "drop_body 1 (l2 # ls @ [fin]) = ([fin], [])" using assms(6,7) by simp
  then show ?thesis using assms(1-4) by simp
qed

theorem continued_opener_cut_witness:
  "stub_lines [''f''] [eol ''subroutine f(a, &'', eol ''    b)'', eol ''real :: a, b'', eol ''a = b'', eol ''end subroutine''] =
     [eol ''subroutine f(a, &'', eol ''end subroutine'']"
proof -
  have f: "proc_open (eol ''subroutine f(a, &'') = Some ''f''" "is_target [''f''] ''f''" "spec_stop (eol ''    b)'')" "\<not> iface_open (eol ''    b)'')"
    "list_all quiet (eol ''    b)'' # [eol ''real :: a, b'', eol ''a = b''])" "proc_end (eol ''end subroutine'')" "proc_open (eol ''end subroutine'') = None"
    by code_simp+
  from continued_opener_cut [OF f] show ?thesis by simp
qed

end
