(* ===== verification/Use_Order.thy ===== *)
theory Use_Order
  imports Prelude
begin

text \<open>
  The loop of \<open>merge_used_modules\<close> (\<open>preprocess.py\<close>) that orders the modules: a depth-first walk with an
  explicit stack, over the modules of the index and the names each one uses. The stack is a list with its
  top in front; the walk is a \<open>partial_function\<close>, so that not returning is \<open>None\<close>.
\<close>

section \<open>The walk\<close>

definition pushed :: "('k \<Rightarrow> 'b option) \<Rightarrow> 'k list \<Rightarrow> 'k list \<Rightarrow> ('k \<times> bool) list" where
  "pushed idx ds placed = map (\<lambda>d. (d, False)) (filter (\<lambda>d. d \<notin> set placed \<and> idx d \<noteq> None) ds)"

partial_function (option) place ::
  "('k \<Rightarrow> 'b option) \<Rightarrow> ('b \<Rightarrow> 'k list) \<Rightarrow> ('k \<times> bool) list \<Rightarrow> 'k list \<Rightarrow> ('k \<times> 'b) list \<Rightarrow> ('k \<times> 'b) list option" where
  "place idx deps stack placed order =
     (case stack of
        [] \<Rightarrow> Some order
      | (nm, expanded) # st \<Rightarrow>
          (if nm \<in> set placed then place idx deps st placed order
           else case idx nm of
             None \<Rightarrow> place idx deps st placed order
           | Some blk \<Rightarrow>
               (if expanded then place idx deps st (nm # placed) (order @ [(nm, blk)])
                else place idx deps (pushed idx (deps blk) placed @ (nm, True) # st) placed order)))"

lemma place_Nil [simp]: "place idx deps [] placed order = Some order"
  by (simp add: place.simps)

lemma place_skip: "nm \<in> set placed \<or> idx nm = None \<Longrightarrow> place idx deps ((nm, e) # st) placed order = place idx deps st placed order"
  by (subst place.simps) auto

lemma place_expanded:
  "nm \<notin> set placed \<Longrightarrow> idx nm = Some blk \<Longrightarrow>
     place idx deps ((nm, True) # st) placed order = place idx deps st (nm # placed) (order @ [(nm, blk)])"
  by (subst place.simps) simp

lemma place_fresh:
  "nm \<notin> set placed \<Longrightarrow> idx nm = Some blk \<Longrightarrow>
     place idx deps ((nm, False) # st) placed order = place idx deps (pushed idx (deps blk) placed @ (nm, True) # st) placed order"
  by (subst place.simps) simp

text \<open>The edges of the graph: a module of the index and one it uses.\<close>

definition uses :: "('k \<Rightarrow> 'b option) \<Rightarrow> ('b \<Rightarrow> 'k list) \<Rightarrow> ('k \<times> 'k) set" where
  "uses idx deps = {(n, d). \<exists>blk. idx n = Some blk \<and> d \<in> set (deps blk) \<and> idx d \<noteq> None}"

definition reached :: "('k \<Rightarrow> 'b option) \<Rightarrow> ('b \<Rightarrow> 'k list) \<Rightarrow> 'k list \<Rightarrow> 'k set" where
  "reached idx deps roots = (uses idx deps)\<^sup>* `` {r \<in> set roots. idx r \<noteq> None}"

text \<open>A sequence in which every module comes with its block, once, and behind the modules it uses.\<close>

fun ordered_from :: "('k \<Rightarrow> 'b option) \<Rightarrow> ('b \<Rightarrow> 'k list) \<Rightarrow> 'k set \<Rightarrow> ('k \<times> 'b) list \<Rightarrow> bool" where
  "ordered_from idx deps D [] = True"
| "ordered_from idx deps D ((n, blk) # ms) =
     (idx n = Some blk \<and> n \<notin> D \<and> (\<forall>d \<in> set (deps blk). idx d \<noteq> None \<longrightarrow> d \<in> D) \<and>
      ordered_from idx deps (insert n D) ms)"

lemma ordered_from_append:
  "ordered_from idx deps D (ms @ ns) \<longleftrightarrow> ordered_from idx deps D ms \<and> ordered_from idx deps (D \<union> fst ` set ms) ns"
  by (induction ms arbitrary: D) auto

lemma ordered_from_fresh: "ordered_from idx deps D ms \<Longrightarrow> fst ` set ms \<inter> D = {} \<and> distinct (map fst ms)"
proof (induction ms arbitrary: D)
  case (Cons m ms)
  obtain n blk where m: "m = (n, blk)" by force
  with Cons.prems Cons.IH [of "insert n D"] show ?case by (auto simp: image_iff)
qed simp

section \<open>A run that returns is in order\<close>

text \<open>What holds of the stack: below the entries above it, a module waiting to be placed has all it uses.\<close>

fun stack_ok :: "('k \<Rightarrow> 'b option) \<Rightarrow> ('b \<Rightarrow> 'k list) \<Rightarrow> 'k set \<Rightarrow> ('k \<times> bool) list \<Rightarrow> bool" where
  "stack_ok idx deps ab [] = True"
| "stack_ok idx deps ab ((n, e) # st) =
     ((e \<longrightarrow> (\<forall>blk. idx n = Some blk \<longrightarrow> (\<forall>d \<in> set (deps blk). idx d \<noteq> None \<longrightarrow> d \<in> ab))) \<and>
      stack_ok idx deps (insert n ab) st)"

lemma stack_ok_mono: "stack_ok idx deps A st \<Longrightarrow> A \<inter> dom idx \<subseteq> B \<Longrightarrow> stack_ok idx deps B st"
proof (induction st arbitrary: A B)
  case (Cons x st)
  obtain n e where x: "x = (n, e)" by force
  from Cons.prems x have "stack_ok idx deps (insert n A) st" "insert n A \<inter> dom idx \<subseteq> insert n B" by auto
  from Cons.IH [OF this] Cons.prems x show ?case by auto
qed simp

lemma stack_ok_pushed:
  "stack_ok idx deps A (map (\<lambda>d. (d, False)) ds @ st) \<longleftrightarrow> stack_ok idx deps (A \<union> set ds) st"
  by (induction ds arbitrary: A) auto

definition sound_run :: "('k \<Rightarrow> 'b option) \<Rightarrow> ('b \<Rightarrow> 'k list) \<Rightarrow> ('k \<times> bool) list \<Rightarrow> 'k list \<Rightarrow> ('k \<times> 'b) list \<Rightarrow> ('k \<times> 'b) list \<Rightarrow> bool" where
  "sound_run idx deps stack placed order r =
     (stack_ok idx deps (set placed) stack \<longrightarrow>
       (\<exists>ms. r = order @ ms \<and> ordered_from idx deps (set placed) ms \<and>
         fst ` set stack \<inter> dom idx \<subseteq> set placed \<union> fst ` set ms))"

lemma place_sound:
  assumes "place idx deps stack placed order = Some r"
  shows "sound_run idx deps stack placed order r"
proof (rule place.raw_induct [OF _ assms])
  fix f and idx :: "'k \<Rightarrow> 'b option" and deps stack placed order r
  assume ih: "\<And>idx deps stack placed order r. f idx deps stack placed order = Some r \<Longrightarrow> sound_run idx deps stack placed order r"
    and body: "(case stack of
        [] \<Rightarrow> Some order
      | (nm, expanded) # st \<Rightarrow>
          (if nm \<in> set placed then f idx deps st placed order
           else case idx nm of
             None \<Rightarrow> f idx deps st placed order
           | Some blk \<Rightarrow>
               (if expanded then f idx deps st (nm # placed) (order @ [(nm, blk)])
                else f idx deps (pushed idx (deps blk) placed @ (nm, True) # st) placed order))) = Some r"
  show "sound_run idx deps stack placed order r"
  proof (cases stack)
    case Nil
    with body show ?thesis by (simp add: sound_run_def)
  next
    case (Cons x st)
    obtain n e where x: "x = (n, e)" by force
    show ?thesis
      unfolding sound_run_def
    proof
      assume ok: "stack_ok idx deps (set placed) stack"
      show "\<exists>ms. r = order @ ms \<and> ordered_from idx deps (set placed) ms \<and> fst ` set stack \<inter> dom idx \<subseteq> set placed \<union> fst ` set ms"
      proof (cases "n \<in> set placed \<or> idx n = None")
        case True
        then have run: "f idx deps st placed order = Some r" using body Cons x by (auto split: if_splits)
        have "stack_ok idx deps (set placed) st" using ok True Cons x by (auto elim!: stack_ok_mono)
        with ih [OF run] True show ?thesis using Cons x by (auto simp: sound_run_def)
      next
        case False
        then obtain blk where blk: "idx n = Some blk" "n \<notin> set placed" by auto
        show ?thesis
        proof (cases e)
          case True
          then have run: "f idx deps st (n # placed) (order @ [(n, blk)]) = Some r" using body Cons x blk by simp
          have "stack_ok idx deps (set (n # placed)) st" using ok Cons x by simp
          with ih [OF run] obtain ms where ms: "r = (order @ [(n, blk)]) @ ms"
            "ordered_from idx deps (set (n # placed)) ms" "fst ` set st \<inter> dom idx \<subseteq> set (n # placed) \<union> fst ` set ms"
            unfolding sound_run_def by blast
          have "ordered_from idx deps (set placed) ((n, blk) # ms)" using ms(2) blk ok Cons x True by simp
          with ms show ?thesis using Cons x by (intro exI [of _ "(n, blk) # ms"]) auto
        next
          case False
          then have run: "f idx deps (pushed idx (deps blk) placed @ (n, True) # st) placed order = Some r"
            using body Cons x blk by simp
          have "stack_ok idx deps (set placed) (pushed idx (deps blk) placed @ (n, True) # st)"
            using ok Cons x blk False unfolding pushed_def stack_ok_pushed by (auto elim!: stack_ok_mono)
          with ih [OF run] show ?thesis using Cons x by (auto simp: pushed_def sound_run_def)
        qed
      qed
    qed
  qed
qed

text \<open>In such a sequence every module stands behind those it uses, so a cycle has no place in it.\<close>

lemma ordered_from_before:
  assumes "ordered_from idx deps D ms" and "D \<inter> dom idx = {}" and "(a, b) \<in> uses idx deps" and "a \<in> fst ` set ms"
  shows "\<exists>us blk vs. ms = us @ (a, blk) # vs \<and> a \<notin> fst ` set us \<and> b \<in> fst ` set us"
proof -
  from assms(4) obtain blk where "(a, blk) \<in> set ms" by auto
  then obtain us vs where ms: "ms = us @ (a, blk) # vs" by (meson split_list)
  with assms(1) have o: "ordered_from idx deps (D \<union> fst ` set us) ((a, blk) # vs)" by (simp add: ordered_from_append)
  from assms(3) have b: "idx b \<noteq> None" "\<exists>k. idx a = Some k \<and> b \<in> set (deps k)" by (auto simp: uses_def)
  with o have "b \<in> D \<union> fst ` set us" "a \<notin> fst ` set us" by auto
  with b(1) assms(2) ms show ?thesis by blast
qed

lemma ordered_from_acyclic:
  assumes "ordered_from idx deps D ms" and "D \<inter> dom idx = {}" and "a \<in> fst ` set ms"
  shows "(a, a) \<notin> (uses idx deps)\<^sup>+"
proof
  define pos where "pos = (\<lambda>x. length (takeWhile (\<lambda>y. fst y \<noteq> x) ms))"
  have step: "pos b < pos a \<and> b \<in> fst ` set ms" if "(a, b) \<in> uses idx deps" "a \<in> fst ` set ms" for a b
  proof -
    note edge = that
    obtain us blk vs where ms: "ms = us @ (a, blk) # vs" "a \<notin> fst ` set us" "b \<in> fst ` set us"
      using ordered_from_before [OF assms(1,2) edge] by blast
    have "pos a = length us"
      unfolding pos_def ms(1) using ms(2) by (subst takeWhile_append2) (auto simp: image_iff)
    moreover have "pos b < length us"
    proof -
      obtain y where y: "y \<in> set us" "\<not> (fst y \<noteq> b)" using ms(3) by auto
      have "takeWhile (\<lambda>y. fst y \<noteq> b) ms = takeWhile (\<lambda>y. fst y \<noteq> b) us"
        unfolding ms(1) using takeWhile_append1 [of y us "\<lambda>y. fst y \<noteq> b"] y by simp
      moreover have "length (takeWhile (\<lambda>y. fst y \<noteq> b) us) < length us"
      proof (rule ccontr)
        assume "\<not> length (takeWhile (\<lambda>y. fst y \<noteq> b) us) < length us"
        then have "takeWhile (\<lambda>y. fst y \<noteq> b) us = us"
          using takeWhile_eq_take [of "\<lambda>y. fst y \<noteq> b" us] by simp
        then have "\<forall>y \<in> set us. fst y \<noteq> b" unfolding takeWhile_eq_all_conv .
        with y show False by blast
      qed
      ultimately show ?thesis by (simp add: pos_def)
    qed
    ultimately show ?thesis using ms by auto
  qed
  have "pos b < pos a \<and> b \<in> fst ` set ms" if "(a, b) \<in> (uses idx deps)\<^sup>+" "a \<in> fst ` set ms" for a b
    using that
  proof (induction rule: trancl_induct)
    case (base y)
    then show ?case using step by blast
  next
    case (step y z)
    then show ?case using \<open>\<And>b a. (a, b) \<in> uses idx deps \<Longrightarrow> a \<in> fst ` set ms \<Longrightarrow> pos b < pos a \<and> b \<in> fst ` set ms\<close> by fastforce
  qed
  moreover assume "(a, a) \<in> (uses idx deps)\<^sup>+"
  ultimately show False using assms(3) by blast
qed

lemma ordered_from_closed:
  assumes "ordered_from idx deps D ms" and "D \<inter> dom idx = {}" and "(a, b) \<in> (uses idx deps)\<^sup>*" and "a \<in> fst ` set ms"
  shows "b \<in> fst ` set ms"
  using assms(3,4)
proof (induction rule: rtrancl_induct)
  case (step y z)
  then obtain us blk vs where "ms = us @ (y, blk) # vs" "z \<in> fst ` set us"
    using ordered_from_before [OF assms(1,2) step(2)] by blast
  then show ?case by auto
qed

section \<open>Without a cycle the walk returns\<close>

lemma place_visit:
  assumes "wf {(d, n). (n, d) \<in> uses idx deps \<and> n \<in> S}" and "uses idx deps `` S \<subseteq> S" and "n \<in> S"
  shows "\<exists>ms. place idx deps ((n, False) # st) placed order = place idx deps st (rev (map fst ms) @ placed) (order @ ms) \<and>
     fst ` set ms \<subseteq> S"
  using assms(1,3)
proof (induction n arbitrary: st placed order rule: wf_induct_rule)
  case (less n)
  show ?case
  proof (cases "n \<in> set placed \<or> idx n = None")
    case True
    then show ?thesis by (intro exI [of _ "[]"]) (simp add: place_skip)
  next
    case False
    then obtain blk where blk: "idx n = Some blk" "n \<notin> set placed" by auto
    let ?ds = "filter (\<lambda>d. d \<notin> set placed \<and> idx d \<noteq> None) (deps blk)"
    have each: "(d, n) \<in> {(d, n). (n, d) \<in> uses idx deps \<and> n \<in> S} \<and> d \<in> S" if "d \<in> set ?ds" for d
      using that blk less.prems assms(2) by (auto simp: uses_def)
    have "\<exists>ms. place idx deps (map (\<lambda>d. (d, False)) ds @ st') pl ord = place idx deps st' (rev (map fst ms) @ pl) (ord @ ms) \<and>
        fst ` set ms \<subseteq> S" if "set ds \<subseteq> set ?ds" for ds st' pl ord
      using that
    proof (induction ds arbitrary: pl ord)
      case (Cons d ds)
      from each [of d] Cons.prems have d: "(d, n) \<in> {(d, n). (n, d) \<in> uses idx deps \<and> n \<in> S}" "d \<in> S" by auto
      from less.IH [OF d, of "map (\<lambda>d. (d, False)) ds @ st'" pl ord] obtain ms where
        ms: "place idx deps ((d, False) # map (\<lambda>d. (d, False)) ds @ st') pl ord =
          place idx deps (map (\<lambda>d. (d, False)) ds @ st') (rev (map fst ms) @ pl) (ord @ ms)" "fst ` set ms \<subseteq> S" by blast
      from Cons.IH [of "rev (map fst ms) @ pl" "ord @ ms"] Cons.prems obtain ns where
        "place idx deps (map (\<lambda>d. (d, False)) ds @ st') (rev (map fst ms) @ pl) (ord @ ms) =
          place idx deps st' (rev (map fst ns) @ rev (map fst ms) @ pl) ((ord @ ms) @ ns)" "fst ` set ns \<subseteq> S" by auto
      with ms show ?case by (intro exI [of _ "ms @ ns"]) auto
    qed (auto intro: exI [of _ "[]"])
    from this [of ?ds "(n, True) # st" placed order] obtain ms where
      ms: "place idx deps (pushed idx (deps blk) placed @ (n, True) # st) placed order =
        place idx deps ((n, True) # st) (rev (map fst ms) @ placed) (order @ ms)" "fst ` set ms \<subseteq> S"
      by (auto simp: pushed_def)
    show ?thesis
    proof (cases "n \<in> set (rev (map fst ms) @ placed)")
      case True
      with ms blk show ?thesis by (intro exI [of _ ms]) (simp add: place_fresh place_skip)
    next
      case False
      with ms blk less.prems show ?thesis
        by (intro exI [of _ "ms @ [(n, blk)]"]) (simp add: place_fresh place_expanded)
    qed
  qed
qed

lemma place_roots:
  assumes "wf {(d, n). (n, d) \<in> uses idx deps \<and> n \<in> S}" and "uses idx deps `` S \<subseteq> S" and "\<forall>r \<in> set roots. r \<in> S \<or> idx r = None"
  shows "\<exists>ms. place idx deps (map (\<lambda>r. (r, False)) roots) placed order = Some (order @ ms) \<and> fst ` set ms \<subseteq> S"
  using assms(3)
proof (induction roots arbitrary: placed order)
  case (Cons r rs)
  show ?case
  proof (cases "r \<in> S")
    case True
    from place_visit [OF assms(1,2) True, of "map (\<lambda>r. (r, False)) rs" placed order] obtain ms where
      "place idx deps ((r, False) # map (\<lambda>r. (r, False)) rs) placed order =
        place idx deps (map (\<lambda>r. (r, False)) rs) (rev (map fst ms) @ placed) (order @ ms)" "fst ` set ms \<subseteq> S" by blast
    moreover from Cons.IH [of "rev (map fst ms) @ placed" "order @ ms"] Cons.prems obtain ns where
      "place idx deps (map (\<lambda>r. (r, False)) rs) (rev (map fst ms) @ placed) (order @ ms) = Some ((order @ ms) @ ns)" "fst ` set ns \<subseteq> S"
      by auto
    ultimately show ?thesis by (intro exI [of _ "ms @ ns"]) auto
  next
    case False
    with Cons show ?thesis by (simp add: place_skip)
  qed
qed simp

lemma reached_closed: "uses idx deps `` reached idx deps roots \<subseteq> reached idx deps roots"
  by (auto simp: reached_def intro: rtrancl_into_rtrancl)

lemma reached_root: "r \<in> set roots \<Longrightarrow> idx r \<noteq> None \<Longrightarrow> r \<in> reached idx deps roots"
  by (auto simp: reached_def)

lemma stack_ok_roots: "stack_ok idx deps A (map (\<lambda>r. (r, False)) roots)"
  by (induction roots arbitrary: A) auto

text \<open>The walk returns exactly when no cycle can be reached from the roots, and then with the reached modules,
  each once and behind the ones it uses.\<close>

lemma place_returns_iff:
  assumes "finite (dom idx)" and "set placed \<inter> dom idx = {}"
  shows "place idx deps (map (\<lambda>r. (r, False)) roots) placed [] \<noteq> None \<longleftrightarrow>
    (\<forall>n \<in> reached idx deps roots. (n, n) \<notin> (uses idx deps)\<^sup>+)"
    and "place idx deps (map (\<lambda>r. (r, False)) roots) placed [] = Some ms \<Longrightarrow>
      ordered_from idx deps (set placed) ms \<and> fst ` set ms = reached idx deps roots"
proof -
  let ?S = "reached idx deps roots"
  let ?R = "{(d, n). (n, d) \<in> uses idx deps \<and> n \<in> ?S}"
  have run: "ordered_from idx deps (set placed) ms \<and> ?S \<subseteq> fst ` set ms"
    if r: "place idx deps (map (\<lambda>r. (r, False)) roots) placed [] = Some ms" for ms
  proof -
    from place_sound [OF r] have o: "ordered_from idx deps (set placed) ms" and
      s: "set roots \<inter> dom idx \<subseteq> set placed \<union> fst ` set ms"
      by (auto simp: sound_run_def stack_ok_roots image_image)
    have "n \<in> fst ` set ms" if "n \<in> ?S" for n
    proof -
      from that obtain r where "r \<in> set roots" "idx r \<noteq> None" "(r, n) \<in> (uses idx deps)\<^sup>*" by (auto simp: reached_def)
      moreover from this have "r \<in> fst ` set ms" using s assms(2) by auto
      ultimately show ?thesis using ordered_from_closed [OF o assms(2)] by blast
    qed
    with o show ?thesis by blast
  qed
  have acyc: "\<forall>n \<in> ?S. (n, n) \<notin> (uses idx deps)\<^sup>+"
    if r: "place idx deps (map (\<lambda>r. (r, False)) roots) placed [] = Some ms" for ms
  proof
    fix n assume "n \<in> ?S"
    with run [OF r] have "ordered_from idx deps (set placed) ms" "n \<in> fst ` set ms" by blast+
    then show "(n, n) \<notin> (uses idx deps)\<^sup>+" using ordered_from_acyclic assms(2) by metis
  qed
  have wf: "wf ?R" if "\<forall>n \<in> ?S. (n, n) \<notin> (uses idx deps)\<^sup>+"
  proof -
    have "?R \<subseteq> dom idx \<times> dom idx" by (auto simp: uses_def)
    then have "finite ?R" using assms(1) finite_subset by blast
    moreover have "acyclic ?R"
    proof (rule acyclicI, rule allI)
      fix x
      show "(x, x) \<notin> ?R\<^sup>+"
      proof
        assume x: "(x, x) \<in> ?R\<^sup>+"
        have "(a, b) \<in> ?R\<^sup>+ \<Longrightarrow> (b, a) \<in> (uses idx deps)\<^sup>+ \<and> b \<in> ?S" for a b
        proof (induction rule: trancl_induct)
          case (step y z)
          then show ?case by (auto intro: trancl_into_trancl2)
        qed auto
        from this [OF x] that show False by blast
      qed
    qed
    ultimately show ?thesis by (rule finite_acyclic_wf)
  qed
  have ran: "\<exists>ns. place idx deps (map (\<lambda>r. (r, False)) roots) placed [] = Some ns \<and> fst ` set ns \<subseteq> ?S"
    if "\<forall>n \<in> ?S. (n, n) \<notin> (uses idx deps)\<^sup>+"
  proof -
    have "\<forall>r \<in> set roots. r \<in> ?S \<or> idx r = None" using reached_root by metis
    from place_roots [OF wf [OF that] reached_closed this, of placed "[]"] show ?thesis by simp
  qed
  show "place idx deps (map (\<lambda>r. (r, False)) roots) placed [] \<noteq> None \<longleftrightarrow> (\<forall>n \<in> ?S. (n, n) \<notin> (uses idx deps)\<^sup>+)"
  proof
    assume "place idx deps (map (\<lambda>r. (r, False)) roots) placed [] \<noteq> None"
    then obtain ms where "place idx deps (map (\<lambda>r. (r, False)) roots) placed [] = Some ms" by auto
    from acyc [OF this] show "\<forall>n \<in> ?S. (n, n) \<notin> (uses idx deps)\<^sup>+" .
  next
    assume "\<forall>n \<in> ?S. (n, n) \<notin> (uses idx deps)\<^sup>+"
    from ran [OF this] show "place idx deps (map (\<lambda>r. (r, False)) roots) placed [] \<noteq> None" by auto
  qed
  show "ordered_from idx deps (set placed) ms \<and> fst ` set ms = ?S"
    if r: "place idx deps (map (\<lambda>r. (r, False)) roots) placed [] = Some ms"
  proof -
    have "\<forall>n \<in> ?S. (n, n) \<notin> (uses idx deps)\<^sup>+" by (rule acyc [OF r])
    from ran [OF this] obtain ns where "place idx deps (map (\<lambda>r. (r, False)) roots) placed [] = Some ns" "fst ` set ns \<subseteq> ?S" by blast
    with r have "fst ` set ms \<subseteq> ?S" by simp
    with run [OF r] show ?thesis by blast
  qed
qed

end
