(* ===== verification/Module_Merge.thy ===== *)
theory Module_Merge
  imports Cpp_Strip Stub_Bodies Use_Order
begin

text \<open>
  \<open>merge_used_modules\<close> of \<open>preprocess.py\<close>: the modules a source uses are cut out of the files of the search
  path and spliced in front of it, dependencies first. The files are their texts, in the order the search path is
  scanned (reading them is I/O; unreadable ones are skipped before). With the helpers of
  \<open>external_functions.py\<close>.
\<close>

section \<open>Modules of a file\<close>

definition USE_RE :: regex where
  "USE_RE = seqs [Bol, many re_space, ilit ''use'', Wordb, many re_space,
     opt (seqs [chr_re CHR '','', many re_space, ilit ''intrinsic'', many re_space]), opt (lit ''::''), many re_space,
     Grp 1 (Seq re_letter (many re_word))]"

definition MODULE_OPEN_RE :: regex where
  "MODULE_OPEN_RE = seqs [Bol, many re_space, ilit ''module'', some1 re_space,
     Look False (alts [Seq (ilit ''procedure'') Wordb, Seq (ilit ''subroutine'') Wordb, Seq (ilit ''function'') Wordb]),
     Grp 1 (Seq re_letter (many re_word)), many re_space, Eol]"

definition MODULE_END_RE :: regex where
  "MODULE_END_RE = seqs [Bol, many re_space, ilit ''end'', many re_space, ilit ''module'', Wordb]"

definition PREAMBLE_LINE_RE :: regex where
  "PREAMBLE_LINE_RE = seqs [Bol, many re_space, alts [chr_re CHR ''#'', chr_re CHR ''!'', Eol]]"

definition INTRINSIC_MODULES :: "string list" where
  "INTRINSIC_MODULES = [''iso_c_binding'', ''iso_fortran_env'', ''ieee_arithmetic'', ''ieee_exceptions'', ''ieee_features'', ''omp_lib'',
     ''omp_lib_kinds'', ''openacc'', ''mpi'', ''mpi_f08'']"

definition module_open :: "string \<Rightarrow> string option" where
  "module_open l = map_option (\<lambda>m. lower (grp0 m 1)) (re_match MODULE_OPEN_RE (code_part l))"

definition module_end :: "string \<Rightarrow> bool" where
  "module_end l = hits MODULE_END_RE (code_part l)"

fun walk_back :: "string list \<Rightarrow> nat \<Rightarrow> nat \<Rightarrow> nat" where
  "walk_back ls last_end start =
     (if start > last_end \<and> hits PREAMBLE_LINE_RE (ls ! (start - 1)) then walk_back ls last_end (start - 1) else start)"

declare walk_back.simps [simp del]

function module_close :: "string list \<Rightarrow> nat \<Rightarrow> nat" where
  "module_close ls i = (if i < length ls \<and> \<not> module_end (ls ! i) then module_close ls (i + 1) else i)"
  by pat_completeness auto
termination
  by (relation "measure (\<lambda>(ls, i). length ls - i)") auto

declare module_close.simps [simp del]

lemma module_close_ge: "i \<le> module_close ls i"
proof (induction ls i rule: module_close.induct)
  case (1 ls i)
  then show ?case by (subst module_close.simps) auto
qed

definition block_lines :: "string list \<Rightarrow> nat \<Rightarrow> nat \<Rightarrow> string list" where
  "block_lines ls start e = take (e + 1 - start) (drop start ls)"

function blocks_from :: "string list \<Rightarrow> nat \<Rightarrow> nat \<Rightarrow> (string \<times> string) list" where
  "blocks_from ls i last_end =
     (if i < length ls then
        (case module_open (ls ! i) of
           None \<Rightarrow> blocks_from ls (i + 1) last_end
         | Some name \<Rightarrow>
             (let start = walk_back ls last_end i; e = min (module_close ls (i + 1)) (length ls - 1) in
              (name, balance_cpp (concat (block_lines ls start e))) # blocks_from ls (e + 1) (e + 1)))
      else [])"
  by pat_completeness auto
termination
proof (relation "measure (\<lambda>(ls, i, e). length ls - i)", goal_cases)
  case (3 ls i last_end name start e)
  then show ?case using module_close_ge [of "i + 1" ls] by auto
qed auto

declare blocks_from.simps [simp del]

definition module_blocks :: "string \<Rightarrow> (string \<times> string) list" where
  "module_blocks txt = blocks_from (splitlines_keep txt) 0 0"

section \<open>Modules a text uses\<close>

definition use_name :: "string \<Rightarrow> string option" where
  "use_name raw = map_option (\<lambda>m. lower (grp0 m 1)) (re_match USE_RE (code_of_line raw))"

fun used_loop :: "string list \<Rightarrow> string list \<Rightarrow> string list \<Rightarrow> string list" where
  "used_loop resolve seen [] = []"
| "used_loop resolve seen (raw # ls) =
     (case use_name raw of
        None \<Rightarrow> used_loop resolve seen ls
      | Some nm \<Rightarrow>
          (if nm \<in> set INTRINSIC_MODULES \<and> nm \<notin> set resolve \<or> nm \<in> set seen then used_loop resolve seen ls
           else nm # used_loop resolve (nm # seen) ls))"

definition used_modules :: "string list \<Rightarrow> string \<Rightarrow> string list" where
  "used_modules resolve txt = used_loop resolve [] (splitlines txt)"

section \<open>External functions\<close>

record external_function =
  ef_name :: string
  ef_c_function :: "string option"
  ef_library :: "string option"

text \<open>Construction refuses a blank name; the symbol is the C function's name, or the name where there is none.\<close>

datatype external_error = EmptyProcedureName

definition new_external_function :: "string \<Rightarrow> string option \<Rightarrow> string option \<Rightarrow> external_error + external_function" where
  "new_external_function name c_function lib =
     (if strip name = [] then Inl EmptyProcedureName
      else Inr \<lparr>ef_name = name, ef_c_function = c_function, ef_library = lib\<rparr>)"

definition ef_symbol :: "external_function \<Rightarrow> string" where
  "ef_symbol f = (case ef_c_function f of Some c \<Rightarrow> (if c = [] then ef_name f else c) | None \<Rightarrow> ef_name f)"

datatype merge_error = DuplicateExternals "string list" | EmittedAndIgnored "string list"

definition dont_inline_names :: "external_function list \<Rightarrow> string list \<Rightarrow> string list" where
  "dont_inline_names fns do_not_emit = remdups (map (lower \<circ> ef_name) fns @ map lower do_not_emit)"

definition validate :: "external_function list \<Rightarrow> string list \<Rightarrow> merge_error + unit" where
  "validate fns do_not_emit =
     (let names = map (lower \<circ> ef_name) fns;
          dupes = sort (remdups (filter (\<lambda>n. count_list names n > 1) names));
          both = sort (remdups (filter (\<lambda>n. n \<in> set (map lower do_not_emit)) names))
      in if dupes \<noteq> [] then Inl (DuplicateExternals dupes)
         else if both \<noteq> [] then Inl (EmittedAndIgnored both) else Inr ())"

section \<open>The merge\<close>

text \<open>The first block of a name wins; names the source defines itself are left out.\<close>

definition module_index :: "string list \<Rightarrow> string list \<Rightarrow> string \<Rightarrow> string option" where
  "module_index in_source files =
     map_of (filter (\<lambda>(nm, blk). nm \<notin> set in_source) (concat (map module_blocks files)))"

definition merge_order :: "string list \<Rightarrow> string list \<Rightarrow> string \<Rightarrow> (string \<times> string) list option" where
  "merge_order files resolve source =
     (let in_source = map fst (module_blocks source) in
      place (module_index in_source files) (used_modules resolve) (map (\<lambda>nm. (nm, False)) (used_modules resolve source)) in_source [])"

definition merge_parts :: "string list \<Rightarrow> string \<Rightarrow> string" where
  "merge_parts blks source =
     concat (map (\<lambda>blk. if endswith blk [LF] then blk else blk @ [LF]) blks) @ [LF] @ source"

text \<open>\<open>None\<close>: the call does not return.\<close>

definition merge_used_modules ::
  "string \<Rightarrow> string list \<Rightarrow> external_function list \<Rightarrow> string list \<Rightarrow> string list \<Rightarrow> (merge_error + string) option" where
  "merge_used_modules source files fns do_not_emit resolve_intrinsic =
     (case validate fns do_not_emit of
        Inl e \<Rightarrow> Some (Inl e)
      | Inr _ \<Rightarrow>
          map_option (\<lambda>order. Inr (stub_procedure_bodies
            (if order = [] then source else merge_parts (map snd order) source) (dont_inline_names fns do_not_emit)))
          (merge_order files (map lower resolve_intrinsic) source))"

section \<open>Facts\<close>

lemma index_finite: "finite (dom (module_index in_source files))"
  by (simp add: module_index_def finite_dom_map_of)

lemma index_not_own: "set in_source \<inter> dom (module_index in_source files) = {}"
  by (auto simp: module_index_def dest: map_of_SomeD)

text \<open>The modules the source reaches through the files, and the edges between them.\<close>

definition use_edges :: "string list \<Rightarrow> string list \<Rightarrow> string \<Rightarrow> (string \<times> string) set" where
  "use_edges files resolve source = uses (module_index (map fst (module_blocks source)) files) (used_modules resolve)"

definition use_reached :: "string list \<Rightarrow> string list \<Rightarrow> string \<Rightarrow> string set" where
  "use_reached files resolve source =
     reached (module_index (map fst (module_blocks source)) files) (used_modules resolve) (used_modules resolve source)"

lemma merge_order_iff:
  "merge_order files resolve source \<noteq> None \<longleftrightarrow>
     (\<forall>n \<in> use_reached files resolve source. (n, n) \<notin> (use_edges files resolve source)\<^sup>+)"
  unfolding merge_order_def use_reached_def use_edges_def Let_def
  by (rule place_returns_iff(1) [OF index_finite index_not_own])

lemma merge_order_ordered:
  assumes "merge_order files resolve source = Some order"
  shows "ordered_from (module_index (map fst (module_blocks source)) files) (used_modules resolve) (set (map fst (module_blocks source))) order"
    and "fst ` set order = use_reached files resolve source"
  using place_returns_iff(2) [OF index_finite index_not_own assms [unfolded merge_order_def Let_def]]
  unfolding use_reached_def by blast+

section \<open>Cutting a file into its modules\<close>

text \<open>A file as the blocks of its modules with lines between them: the lines before the preamble, the preamble, the
  opener with the name, the body and the end.\<close>

record module_unit =
  mu_gap :: "string list"
  mu_preamble :: "string list"
  mu_open :: string
  mu_name :: string
  mu_body :: "string list"
  mu_end :: string

definition module_ok :: "module_unit \<Rightarrow> bool" where
  "module_ok u =
     (list_all (\<lambda>l. module_open l = None) (mu_gap u @ mu_preamble u) \<and>
      (mu_gap u \<noteq> [] \<longrightarrow> \<not> hits PREAMBLE_LINE_RE (last (mu_gap u))) \<and>
      list_all (hits PREAMBLE_LINE_RE) (mu_preamble u) \<and> module_open (mu_open u) = Some (mu_name u) \<and>
      list_all (\<lambda>l. \<not> module_end l) (mu_body u) \<and> module_end (mu_end u))"

definition own_lines :: "module_unit \<Rightarrow> string list" where
  "own_lines u = mu_preamble u @ [mu_open u] @ mu_body u @ [mu_end u]"

definition unit_text :: "module_unit \<Rightarrow> string list" where
  "unit_text u = mu_gap u @ own_lines u"

lemma blocks_skip:
  "list_all (\<lambda>l. module_open l = None) ms \<Longrightarrow> blocks_from (P @ ms @ Q) (length P) e = blocks_from (P @ ms @ Q) (length P + length ms) e"
proof (induction ms arbitrary: P)
  case (Cons m ms)
  have "blocks_from (P @ (m # ms) @ Q) (length P) e = blocks_from ((P @ [m]) @ ms @ Q) (length (P @ [m])) e"
    using Cons.prems by (subst blocks_from.simps) simp
  also have "\<dots> = blocks_from ((P @ [m]) @ ms @ Q) (length (P @ [m]) + length ms) e"
    using Cons.prems by (intro Cons.IH) simp
  finally show ?case by simp
qed simp

lemma blocks_end: "list_all (\<lambda>l. module_open l = None) ms \<Longrightarrow> blocks_from (P @ ms) (length P) e = []"
proof -
  assume "list_all (\<lambda>l. module_open l = None) ms"
  moreover have "blocks_from (P @ ms) (length P + length ms) e = []" by (subst blocks_from.simps) simp
  ultimately show ?thesis using blocks_skip [of ms P "[]" e] by simp
qed

lemma walk_back_preamble:
  assumes "list_all (hits PREAMBLE_LINE_RE) ps" and "gap \<noteq> [] \<longrightarrow> \<not> hits PREAMBLE_LINE_RE (last gap)"
  shows "walk_back (P @ gap @ ps @ Q) (length P) (length P + length gap + length ps) = length P + length gap"
  using assms(1)
proof (induction ps arbitrary: Q rule: rev_induct)
  case Nil
  show ?case
  proof (cases "gap = []")
    case True
    then show ?thesis by (subst walk_back.simps) simp
  next
    case False
    then obtain g x where "gap = g @ [x]" by (cases gap rule: rev_cases) auto
    then have "(P @ gap @ [] @ Q) ! (length P + length gap - 1) = last gap" by (simp add: nth_append)
    with False assms(2) show ?thesis by (subst walk_back.simps) simp
  qed
next
  case (snoc p ps)
  have "(P @ gap @ (ps @ [p]) @ Q) ! (length P + length gap + length ps) = p" by (simp add: nth_append)
  with snoc snoc.IH [of "p # Q"] show ?case by (subst walk_back.simps) simp
qed

lemma module_close_body:
  "list_all (\<lambda>l. \<not> module_end l) bs \<Longrightarrow> module_end c \<Longrightarrow> module_close (P @ bs @ c # Q) (length P) = length P + length bs"
proof (induction bs arbitrary: P)
  case Nil
  then show ?case by (subst module_close.simps) simp
next
  case (Cons b bs)
  have "module_close (P @ (b # bs) @ c # Q) (length P) = module_close ((P @ [b]) @ bs @ c # Q) (length (P @ [b]))"
    using Cons.prems by (subst module_close.simps) simp
  also have "\<dots> = length (P @ [b]) + length bs" by (rule Cons.IH) (use Cons.prems in simp_all)
  finally show ?case by simp
qed

lemma blocks_unit:
  assumes "module_ok u"
  shows "blocks_from (P @ unit_text u @ Q) (length P) (length P) =
    (mu_name u, balance_cpp (concat (own_lines u))) # blocks_from ((P @ unit_text u) @ Q) (length (P @ unit_text u)) (length (P @ unit_text u))"
proof -
  let ?g = "mu_gap u" and ?p = "mu_preamble u" and ?b = "mu_body u"
  let ?ls = "P @ unit_text u @ Q" and ?i = "length P + length ?g + length ?p"
  note ok = assms [unfolded module_ok_def]
  have ls: "?ls = P @ (?g @ ?p) @ mu_open u # ?b @ mu_end u # Q" "?ls = P @ ?g @ ?p @ (mu_open u # ?b @ mu_end u # Q)"
    "?ls = (P @ ?g @ ?p @ [mu_open u]) @ ?b @ mu_end u # Q" "?ls = (P @ ?g) @ own_lines u @ Q"
    by (simp_all add: unit_text_def own_lines_def)
  have "blocks_from ?ls (length P) (length P) = blocks_from ?ls ?i (length P)"
    using blocks_skip [of "?g @ ?p" P "mu_open u # ?b @ mu_end u # Q" "length P"] ok ls(1) by (simp add: add.assoc)
  moreover have nth: "?ls ! ?i = mu_open u" "?i < length ?ls" by (simp_all add: ls(1) nth_append)
  moreover have w: "walk_back ?ls (length P) ?i = length P + length ?g"
    using walk_back_preamble [of ?p ?g P "mu_open u # ?b @ mu_end u # Q"] ok ls(2) by simp
  moreover have c: "module_close ?ls (?i + 1) = ?i + 1 + length ?b"
    using module_close_body [of ?b "mu_end u" "P @ ?g @ ?p @ [mu_open u]" Q] ok ls(3) by (simp add: add.assoc)
  moreover have e: "min (?i + 1 + length ?b) (length ?ls - 1) = ?i + 1 + length ?b" by (simp add: ls(1))
  moreover have "block_lines ?ls (length P + length ?g) (?i + 1 + length ?b) = own_lines u"
    by (simp add: block_lines_def ls(4) own_lines_def)
  moreover have "?i + 1 + length ?b + 1 = length (P @ unit_text u)" by (simp add: unit_text_def own_lines_def)
  moreover have "blocks_from ?ls ?i (length P) =
      (let start = walk_back ?ls (length P) ?i; e = min (module_close ?ls (?i + 1)) (length ?ls - 1) in
       (mu_name u, balance_cpp (concat (block_lines ?ls start e))) # blocks_from ?ls (e + 1) (e + 1))"
    using nth ok by (subst blocks_from.simps) simp
  ultimately show ?thesis by (simp only: Let_def append_assoc)
qed

lemma blocks_units:
  "list_all module_ok us \<Longrightarrow> list_all (\<lambda>l. module_open l = None) tail \<Longrightarrow>
     blocks_from (P @ concat (map unit_text us) @ tail) (length P) (length P) =
       map (\<lambda>u. (mu_name u, balance_cpp (concat (own_lines u)))) us"
proof (induction us arbitrary: P)
  case (Cons u us)
  from Cons.IH [of "P @ unit_text u"] Cons.prems blocks_unit [of u P "concat (map unit_text us) @ tail"]
  show ?case by simp
qed (simp add: blocks_end)

section \<open>Properties\<close>

text \<open>The blocks of a file are its modules: for lines between modules, preamble lines (directives, comments,
  blank lines) and modules in turn, every module is found once, in order, with its lower-cased name, and its
  block is its own lines with the preamble directly in front of them, balanced.\<close>

theorem module_blocks_are_units:
  assumes "splitlines_keep txt = concat (map unit_text us) @ tail" and "list_all module_ok us" and "list_all (\<lambda>l. module_open l = None) tail"
  shows "module_blocks txt = map (\<lambda>u. (mu_name u, balance_cpp (concat (own_lines u)))) us"
  using blocks_units [OF assms(2,3), of "[]"] by (simp add: module_blocks_def assms(1))

definition ex_file :: "module_unit list" where
  "ex_file =
     [\<lparr>mu_gap = [eol ''x = 1''], mu_preamble = [eol ''#ifdef A''], mu_open = eol ''module B'', mu_name = ''b'', mu_body = [eol ''use c''],
       mu_end = eol ''end module''\<rparr>,
      \<lparr>mu_gap = [], mu_preamble = [eol ''#endif''], mu_open = eol ''MODULE c'', mu_name = ''c'', mu_body = [], mu_end = eol ''end module c''\<rparr>]"

definition ex_text :: string where
  "ex_text = concat (concat (map unit_text ex_file))"

theorem module_blocks_are_units_witness:
  "module_blocks ex_text =
     [(''b'', concat [eol ''module B'', eol ''use c'', eol ''end module'']), (''c'', concat [eol ''MODULE c'', eol ''end module c''])]"
proof -
  let ?ls = "concat (map unit_text ex_file)"
  have "lines_ok ?ls" by code_simp
  then have s: "splitlines_keep (concat ?ls) = ?ls @ []" using split_concat by simp
  have "list_all module_ok ex_file" by code_simp
  from module_blocks_are_units [OF s this] have
    "module_blocks ex_text = map (\<lambda>u. (mu_name u, balance_cpp (concat (own_lines u)))) ex_file" by (simp add: ex_text_def)
  moreover have "map (\<lambda>u. (mu_name u, balance_cpp (concat (own_lines u)))) ex_file =
      [(''b'', concat [eol ''module B'', eol ''use c'', eol ''end module'']), (''c'', concat [eol ''MODULE c'', eol ''end module c''])]"
    by code_simp
  ultimately show ?thesis by metis
qed

text \<open>C22. For valid options the merge returns exactly when no module that is reached from the source uses itself,
  directly or through others. The walk does not drop the edge that closes a cycle: it follows it without end.\<close>

theorem merge_returns_iff:
  assumes "validate fns do_not_emit = Inr ()"
  shows "merge_used_modules source files fns do_not_emit resolve \<noteq> None \<longleftrightarrow>
    (\<forall>n \<in> use_reached files (map lower resolve) source. (n, n) \<notin> (use_edges files (map lower resolve) source)\<^sup>+)"
  using merge_order_iff [of files "map lower resolve" source] by (simp add: merge_used_modules_def assms)

definition cyclic_file :: string where
  "cyclic_file = concat [eol ''module a'', eol ''use b'', eol ''end module'', eol ''module b'', eol ''use a'', eol ''end module'']"

theorem merge_returns_iff_witness:
  "merge_used_modules (eol ''use a'') [cyclic_file] [] [] [] = None"
proof -
  have v: "validate [] [] = Inr ()" by code_simp
  have src: "module_blocks (eol ''use a'') = []" "used_modules [] (eol ''use a'') = [''a'']" by code_simp+
  have ix: "module_index [] [cyclic_file] ''a'' = Some (concat [eol ''module a'', eol ''use b'', eol ''end module''])"
    "module_index [] [cyclic_file] ''b'' = Some (concat [eol ''module b'', eol ''use a'', eol ''end module''])"
    "used_modules [] (concat [eol ''module a'', eol ''use b'', eol ''end module'']) = [''b'']"
    "used_modules [] (concat [eol ''module b'', eol ''use a'', eol ''end module'']) = [''a'']"
    by code_simp+
  then have "(''a'', ''b'') \<in> use_edges [cyclic_file] (map lower []) (eol ''use a'')" "(''b'', ''a'') \<in> use_edges [cyclic_file] (map lower []) (eol ''use a'')"
    by (simp_all add: use_edges_def uses_def src)
  then have "(''a'', ''a'') \<in> (use_edges [cyclic_file] (map lower []) (eol ''use a''))\<^sup>+" by (meson r_into_trancl trancl_trans)
  moreover have "''a'' \<in> use_reached [cyclic_file] (map lower []) (eol ''use a'')"
    using ix(1) by (auto simp: use_reached_def reached_def src)
  ultimately show ?thesis using merge_returns_iff [OF v, of "eol ''use a''" "[cyclic_file]" "[]"] by blast
qed

text \<open>C23. A merge that returns a text has spliced in, in front of the source, exactly the modules reached from
  it that the source does not define itself, each once, and each behind all the modules it uses; the stubs
  are then taken from the whole. When there is none, the source is left as it is.\<close>

theorem merge_splices_dependencies:
  assumes "merge_used_modules source files fns do_not_emit resolve = Some (Inr out)"
  shows "\<exists>order. out = stub_procedure_bodies (if order = [] then source else merge_parts (map snd order) source) (dont_inline_names fns do_not_emit) \<and>
    ordered_from (module_index (map fst (module_blocks source)) files) (used_modules (map lower resolve)) (set (map fst (module_blocks source))) order \<and>
    distinct (map fst order) \<and> fst ` set order = use_reached files (map lower resolve) source"
proof -
  from assms obtain order where "merge_order files (map lower resolve) source = Some order"
    "out = stub_procedure_bodies (if order = [] then source else merge_parts (map snd order) source) (dont_inline_names fns do_not_emit)"
    by (auto simp: merge_used_modules_def split: sum.splits)
  with merge_order_ordered [OF this(1)] ordered_from_fresh show ?thesis by blast
qed

theorem merge_splices_dependencies_witness:
  "\<exists>order. use_reached [ex_text] [] (eol ''use b'') = {''b'', ''c''} \<and> map fst order = [''c'', ''b''] \<and>
     merge_used_modules (eol ''use b'') [ex_text] [] [] [] = Some (Inr (merge_parts (map snd order) (eol ''use b'')))"
proof -
  define b c where "b = concat [eol ''module B'', eol ''use c'', eol ''end module'']" and "c = concat [eol ''MODULE c'', eol ''end module c'']"
  let ?order = "[(''c'', c), (''b'', b)]"
  have src: "module_blocks (eol ''use b'') = []" "used_modules [] (eol ''use b'') = [''b'']" "validate [] [] = Inr ()" "dont_inline_names [] [] = []"
    by code_simp+
  have blk: "module_blocks ex_text = [(''b'', b), (''c'', c)]" unfolding b_def c_def by code_simp
  have u: "used_modules [] b = [''c'']" "used_modules [] c = []" unfolding b_def c_def by code_simp+
  have ix: "module_index [] [ex_text] ''b'' = Some b" "module_index [] [ex_text] ''c'' = Some c" by (simp_all add: module_index_def blk)
  have "merge_order [ex_text] [] (eol ''use b'') = Some ?order"
    unfolding merge_order_def Let_def src list.map
    by (simp add: place_fresh place_expanded ix u pushed_def)
  then have run: "merge_used_modules (eol ''use b'') [ex_text] [] [] [] = Some (Inr (merge_parts (map snd ?order) (eol ''use b'')))"
    by (simp add: merge_used_modules_def src stub_procedure_bodies_def)
  from merge_splices_dependencies [OF run] obtain ord2 where
    "ordered_from (module_index [] [ex_text]) (used_modules []) {} ord2" "fst ` set ord2 = use_reached [ex_text] [] (eol ''use b'')" by (auto simp: src)
  moreover have "use_reached [ex_text] [] (eol ''use b'') = {''b'', ''c''}"
    using merge_order_ordered(2) [OF \<open>merge_order [ex_text] [] (eol ''use b'') = Some ?order\<close>] by auto
  ultimately show ?thesis using run by (intro exI [of _ ?order]) simp
qed

end
