(* ===== verification/External_Modules.thy ===== *)
theory External_Modules
  imports Module_Merge
begin

text \<open>
  \<open>replace_external_with_modules\<close> of \<open>preprocess.py\<close>: \<open>EXTERNAL\<close> declarations of procedures that a module of the
  search path defines become imports of that module. The files are their texts, as in the merge.
\<close>

section \<open>Patterns\<close>

definition name_list_re :: regex where
  "name_list_re = seqs [re_ident_start, many re_word,
     many (seqs [many re_space, chr_re CHR '','', many re_space, re_ident_start, many re_word])]"

definition EXTERNAL_DECL_RE :: regex where
  "EXTERNAL_DECL_RE = seqs [Bol, Grp 1 (many re_space), ilit ''EXTERNAL'', many re_space, opt (Seq (lit ''::'') (many re_space)),
     Grp 2 name_list_re, many re_space, Eol]"

definition FUNC_RESULT_TYPE_DECL_RE :: regex where
  "FUNC_RESULT_TYPE_DECL_RE = seqs [Bol, many re_space,
     Grp 1 (Seq (alts [ilit ''REAL'', ilit ''INTEGER'', ilit ''LOGICAL'', ilit ''COMPLEX'', seqs [ilit ''DOUBLE'', some1 re_space, ilit ''PRECISION'']])
       (opt (seqs [many re_space, chr_re CHR ''('', many re_space, many (Cls True [(41, 41)]), many re_space, chr_re CHR '')'']))),
     many re_space, opt (Seq (lit ''::'') (many re_space)), Grp 2 name_list_re, many re_space, Eol]"

definition attribute_words :: "string list" where
  "attribute_words = [''intent'', ''parameter'', ''dimension'', ''allocatable'', ''pointer'', ''target'', ''save'', ''optional'', ''public'',
     ''private'', ''value'']"

definition ATTRIBUTE_RE :: regex where
  "ATTRIBUTE_RE = seqs [Wordb, Grp 1 (alts (map ilit attribute_words)), Wordb]"

definition SCOPE_END_RE :: regex where
  "SCOPE_END_RE = seqs [Bol, many re_space, ilit ''END'', some1 re_space, Grp 1 (alts [ilit ''SUBROUTINE'', ilit ''FUNCTION'']), Wordb]"

section \<open>Lines\<close>

definition scope_open :: "string \<Rightarrow> bool" where
  "scope_open raw = hits PROC_OPEN_RE (code_of_line raw)"

definition scope_end :: "string \<Rightarrow> bool" where
  "scope_end raw = hits SCOPE_END_RE (code_of_line raw)"

definition name_list :: "string \<Rightarrow> string list" where
  "name_list s = map strip (split_on CHR '','' s)"

text \<open>The names an \<open>EXTERNAL\<close> line declares, and those a bare type declaration does.\<close>

definition external_names :: "string \<Rightarrow> string list option" where
  "external_names raw = map_option (\<lambda>m. name_list (grp0 m 2)) (re_match EXTERNAL_DECL_RE (code_of_line raw))"

definition result_names :: "string \<Rightarrow> string list option" where
  "result_names raw =
     (if re_search ATTRIBUTE_RE (code_of_line raw) \<noteq> None then None
      else map_option (\<lambda>m. name_list (grp0 m 2)) (re_match FUNC_RESULT_TYPE_DECL_RE (code_of_line raw)))"

section \<open>The index\<close>

definition block_procedures :: "string \<times> string \<Rightarrow> (string \<times> string) list" where
  "block_procedures b =
     concat (map (\<lambda>raw. case re_match PROC_OPEN_RE (code_of_line raw) of None \<Rightarrow> [] | Some m \<Rightarrow> [(lower (grp0 m 1), fst b)]) (splitlines (snd b)))"

definition index_procedures :: "string list \<Rightarrow> string \<Rightarrow> string option" where
  "index_procedures files = map_of (concat (map block_procedures (concat (map module_blocks files))))"

section \<open>The scopes\<close>

text \<open>Pass 1: the line numbers of a scope's opener and behind its last line.\<close>

fun scopes_from :: "nat \<Rightarrow> nat option \<Rightarrow> string list \<Rightarrow> (nat \<times> nat) list" where
  "scopes_from i cur [] = (case cur of None \<Rightarrow> [] | Some k \<Rightarrow> [(k, i)])"
| "scopes_from i cur (raw # ls) =
     (if scope_open raw then (case cur of None \<Rightarrow> [] | Some k \<Rightarrow> [(k, i)]) @ scopes_from (i + 1) (Some i) ls
      else if scope_end raw then (case cur of None \<Rightarrow> [] | Some k \<Rightarrow> [(k, i + 1)]) @ scopes_from (i + 1) None ls
      else scopes_from (i + 1) cur ls)"

definition scope_lines :: "string list \<Rightarrow> nat \<times> nat \<Rightarrow> string list" where
  "scope_lines ls k = take (snd k - fst k) (drop (fst k) ls)"

text \<open>The names of an \<open>EXTERNAL\<close> line that is replaced: all of them are in the index.\<close>

definition resolved_names :: "(string \<Rightarrow> string option) \<Rightarrow> string \<Rightarrow> string list option" where
  "resolved_names idx raw =
     (case external_names raw of
        None \<Rightarrow> None
      | Some ns \<Rightarrow> (if list_all (\<lambda>n. idx (lower n) \<noteq> None) ns then Some ns else None))"

definition scope_names :: "(string \<Rightarrow> string option) \<Rightarrow> string list \<Rightarrow> string list" where
  "scope_names idx sl = concat (List.map_filter (resolved_names idx) sl)"

text \<open>Pass 2 for one scope: the names by module, in the order they come, and what is done with a line.\<close>

fun add_name :: "'k \<Rightarrow> 'v \<Rightarrow> ('k \<times> 'v list) list \<Rightarrow> ('k \<times> 'v list) list" where
  "add_name k v [] = [(k, [v])]"
| "add_name k v ((k', vs) # d) = (if k = k' then (k', vs @ [v]) # d else (k', vs) # add_name k v d)"

definition names_by_module :: "(string \<Rightarrow> string option) \<Rightarrow> string list \<Rightarrow> (string \<times> string list) list" where
  "names_by_module idx ns = fold (\<lambda>n. add_name (the (idx (lower n))) n) ns []"

definition scope_already_uses :: "string list \<Rightarrow> string \<Rightarrow> bool" where
  "scope_already_uses sl m = list_ex (\<lambda>raw. use_name raw = Some (lower m)) sl"

definition use_line :: "string \<Rightarrow> string \<times> string list \<Rightarrow> string" where
  "use_line indent p = concat [indent, ''  USE '', fst p, '', ONLY: '', join '', '' (snd p), [LF]]"

definition synth_uses :: "(string \<Rightarrow> string option) \<Rightarrow> string list \<Rightarrow> string list" where
  "synth_uses idx sl =
     map (use_line (takeWhile is_space (hd sl)))
       (filter (\<lambda>p. \<not> scope_already_uses sl (fst p)) (names_by_module idx (scope_names idx sl)))"

definition dropped_line :: "(string \<Rightarrow> string option) \<Rightarrow> string list \<Rightarrow> string \<Rightarrow> bool" where
  "dropped_line idx sl raw =
     (let ns = map lower (scope_names idx sl) in
      if scope_names idx sl = [] then False
      else if external_names raw \<noteq> None then resolved_names idx raw \<noteq> None
      else case result_names raw of None \<Rightarrow> False | Some ds \<Rightarrow> list_all (\<lambda>d. lower d \<in> set ns) ds)"

section \<open>The rewriting\<close>

text \<open>Pass 3, on one scope: the opener, the imports, and the lines that stay. (The opener itself is never dropped
  or it would be an \<open>EXTERNAL\<close> or a type declaration; it goes through the same test.)\<close>

definition rewritten_scope :: "(string \<Rightarrow> string option) \<Rightarrow> string list \<Rightarrow> string list" where
  "rewritten_scope idx sl =
     filter (\<lambda>l. \<not> dropped_line idx sl l) (take 1 sl) @ synth_uses idx sl @ filter (\<lambda>l. \<not> dropped_line idx sl l) (drop 1 sl)"

fun rewrite_scopes :: "(string \<Rightarrow> string option) \<Rightarrow> string list \<Rightarrow> nat \<Rightarrow> (nat \<times> nat) list \<Rightarrow> string list" where
  "rewrite_scopes idx ls i [] = drop i ls"
| "rewrite_scopes idx ls i (k # ks) =
     take (fst k - i) (drop i ls) @ rewritten_scope idx (scope_lines ls k) @ rewrite_scopes idx ls (snd k) ks"

definition replace_external_with_modules :: "string \<Rightarrow> string list \<Rightarrow> string" where
  "replace_external_with_modules source files =
     (let ls = splitlines_keep source in concat (rewrite_scopes (index_procedures files) ls 0 (scopes_from 0 None ls)))"

definition replaced_lines :: "(string \<Rightarrow> string option) \<Rightarrow> string list \<Rightarrow> string list" where
  "replaced_lines idx ls = rewrite_scopes idx ls 0 (scopes_from 0 None ls)"

section \<open>The passes as one\<close>

text \<open>The same in one pass over the lines, the lines of the scope that is open in hand.\<close>

fun one_pass :: "(string \<Rightarrow> string option) \<Rightarrow> string list \<Rightarrow> string list \<Rightarrow> string list" where
  "one_pass idx cur [] = (if cur = [] then [] else rewritten_scope idx cur)"
| "one_pass idx cur (l # ls) =
     (if scope_open l then (if cur = [] then [] else rewritten_scope idx cur) @ one_pass idx [l] ls
      else if cur = [] then l # one_pass idx [] ls
      else if scope_end l then rewritten_scope idx (cur @ [l]) @ one_pass idx [] ls
      else one_pass idx (cur @ [l]) ls)"

lemma scopes_from_later: "k \<in> set (scopes_from j cur ls) \<Longrightarrow> j \<le> fst k \<or> cur = Some (fst k)"
proof (induction j cur ls rule: scopes_from.induct)
  case (2 i cur raw ls)
  have cur: "k \<in> set (case cur of None \<Rightarrow> [] | Some k \<Rightarrow> [(k, j)]) \<Longrightarrow> cur = Some (fst k)" for j
    by (cases cur) auto
  consider "scope_open raw" | "\<not> scope_open raw" "scope_end raw" | "\<not> scope_open raw" "\<not> scope_end raw" by blast
  then show ?case
  proof cases
    case 1
    with 2 cur [of i] show ?thesis by fastforce
  next
    case 2
    with "2.IH" "2.prems" cur [of "i + 1"] show ?thesis by fastforce
  next
    case 3
    with "2.IH" "2.prems" show ?thesis by fastforce
  qed
qed (auto split: option.splits)

lemma rewrite_scopes_one_pass:
  "rewrite_scopes idx (P @ ls) (length P) (scopes_from (length P) None ls) = one_pass idx [] ls \<and>
   (cur \<noteq> [] \<longrightarrow> rewrite_scopes idx (P @ cur @ ls) (length P) (scopes_from (length P + length cur) (Some (length P)) ls) = one_pass idx cur ls)"
proof (induction ls arbitrary: P cur)
  case Nil
  show ?case by (auto simp: scope_lines_def)
next
  case (Cons l ls)
  have none: "rewrite_scopes idx (P @ l # ls) (length P) (scopes_from (length P) None (l # ls)) = one_pass idx [] (l # ls)" for P
  proof (cases "scope_open l")
    case True
    with Cons.IH [of P "[l]"] show ?thesis by simp
  next
    case False
    have shift: "rewrite_scopes idx (P @ l # ls) (length P) ks = l # rewrite_scopes idx ((P @ [l]) @ ls) (length (P @ [l])) ks"
      if "\<forall>k \<in> set ks. length P < fst k" for ks
      using that by (cases ks) (simp_all add: take_Cons' Suc_diff_Suc)
    have s: "\<forall>k \<in> set (scopes_from (length P + 1) None ls). length P < fst k"
      using scopes_from_later [of _ "length P + 1" None ls] by fastforce
    from Cons.IH [of "P @ [l]" cur] have ih: "rewrite_scopes idx ((P @ [l]) @ ls) (length (P @ [l])) (scopes_from (length (P @ [l])) None ls) = one_pass idx [] ls"
      by blast
    show ?thesis
      using False shift [OF s] ih by (cases "scope_end l") simp_all
  qed
  have some: "rewrite_scopes idx (P @ cur @ l # ls) (length P) (scopes_from (length P + length cur) (Some (length P)) (l # ls)) = one_pass idx cur (l # ls)"
    if "cur \<noteq> []"
  proof -
    have sc: "scope_lines (P @ cur @ l # ls) (length P, length P + length cur) = cur"
      "scope_lines (P @ cur @ l # ls) (length P, length P + length cur + 1) = cur @ [l]"
      by (simp_all add: scope_lines_def)
    consider "scope_open l" | "\<not> scope_open l" "scope_end l" | "\<not> scope_open l" "\<not> scope_end l" by blast
    then show ?thesis
    proof cases
      case 1
      from Cons.IH [of "P @ cur" "[l]"] have "rewrite_scopes idx (P @ cur @ l # ls) (length P + length cur)
          (scopes_from (length P + length cur + 1) (Some (length P + length cur)) ls) = one_pass idx [l] ls" by simp
      with 1 sc that show ?thesis by simp
    next
      case 2
      from Cons.IH [of "P @ cur @ [l]" cur] have "rewrite_scopes idx (P @ cur @ l # ls) (length P + length cur + 1)
          (scopes_from (length P + length cur + 1) None ls) = one_pass idx [] ls" by simp
      with 2 sc that show ?thesis by simp
    next
      case 3
      from Cons.IH [of P "cur @ [l]"] 3 that show ?thesis by simp
    qed
  qed
  from none some show ?case by blast
qed

lemma replaced_lines_one_pass: "replaced_lines idx ls = one_pass idx [] ls"
  using rewrite_scopes_one_pass [of idx "[]" ls] by (simp add: replaced_lines_def)

section \<open>Lines that keep their place\<close>

definition no_names :: "string \<Rightarrow> bool" where
  "no_names l = (external_names l = None \<and> result_names l = None)"

lemma scope_names_Nil: "(\<forall>l \<in> set sl. resolved_names idx l = None) \<Longrightarrow> scope_names idx sl = []"
  by (induction sl) (auto simp: scope_names_def List.map_filter_simps)

lemma rewritten_scope_same: "\<forall>l \<in> set sl. resolved_names idx l = None \<Longrightarrow> rewritten_scope idx sl = sl"
  by (cases sl) (simp_all add: rewritten_scope_def dropped_line_def scope_names_Nil synth_uses_def names_by_module_def)

section \<open>The synthesised lines\<close>

definition leads_in :: "char set \<Rightarrow> regex \<Rightarrow> bool" where
  "leads_in A r = (\<forall>x y. y \<in> re_set r x \<longrightarrow> (\<exists>c t. snd (fst x) = c # t \<and> lower_char c \<in> A))"

lemma leads_in_Seq: "leads_in A a \<Longrightarrow> leads_in A (Seq a b)"
  unfolding leads_in_def re_set.simps by blast

lemma leads_in_Alt: "leads_in A a \<Longrightarrow> leads_in A b \<Longrightarrow> leads_in A (Alt a b)"
  unfolding leads_in_def re_set.simps by blast

lemma leads_in_star: "leads_in A a \<Longrightarrow> leads_in A b \<Longrightarrow> leads_in A (Seq (Star g a) b)"
  unfolding leads_in_def
proof (intro allI impI)
  fix x y
  assume a: "\<forall>x y. y \<in> re_set a x \<longrightarrow> (\<exists>c t. snd (fst x) = c # t \<and> lower_char c \<in> A)"
    and b: "\<forall>x y. y \<in> re_set b x \<longrightarrow> (\<exists>c t. snd (fst x) = c # t \<and> lower_char c \<in> A)" and "y \<in> re_set (Seq (Star g a) b) x"
  then obtain z where z: "z \<in> re_set (Star g a) x" "y \<in> re_set b z" unfolding re_set.simps(3) by blast
  from z(1) have "(x, z) \<in> (loop_rel (re_set a))\<^sup>*" by (simp add: loop_rel_def)
  then show "\<exists>c t. snd (fst x) = c # t \<and> lower_char c \<in> A"
  proof (cases rule: converse_rtranclE)
    case base
    with b z(2) show ?thesis by blast
  next
    case (step w)
    then have "w \<in> re_set a x" unfolding loop_rel_def by blast
    with a show ?thesis by blast
  qed
qed

lemma leads_in_ilit: "s \<noteq> [] \<Longrightarrow> lower_char (hd s) \<in> A \<Longrightarrow> leads_in A (ilit s)"
  unfolding leads_in_def
proof (intro allI impI)
  fix x y assume s: "s \<noteq> []" "lower_char (hd s) \<in> A" and y: "y \<in> re_set (ilit s) x"
  from ilit_lower [OF y] obtain w where w: "snd (fst x) = w @ snd (fst y)" "lower w = lower s" by blast
  with s(1) obtain c t where "w = c # t" by (cases w) (auto simp: lower_def)
  with w s show "\<exists>c t. snd (fst x) = c # t \<and> lower_char c \<in> A" by (cases s) (auto simp: lower_def)
qed

lemmas leads_in_intros = leads_in_Seq leads_in_Alt leads_in_star leads_in_ilit

lemma hits_lead:
  assumes "hits (Seq Bol (Seq b r)) l" and "b = many re_space \<or> b = Grp 1 (many re_space)" and "leads_in A r"
    and "\<forall>c. is_space c \<longrightarrow> lower_char c \<notin> A"
  shows "\<exists>c t. lstrip l = c # t \<and> lower_char c \<in> A"
proof -
  obtain q where q: "q \<in> re_set (Seq Bol (Seq b r)) ((None, l), [])"
    using assms(1) unfolding hits_def re_match_None_iff by blast
  then have "\<exists>x1 \<in> re_set b ((None, l), []). q \<in> re_set r x1"
    unfolding re_set.simps(3,7) by simp
  then obtain x1 where x1: "x1 \<in> re_set b ((None, l), [])" "q \<in> re_set r x1" by blast
  have "\<exists>x2 \<in> re_set (many re_space) ((None, l), []). fst x2 = fst x1"
  proof (cases "b = many re_space")
    case False
    with assms(2) x1(1) show ?thesis by (auto intro: rev_bexI)
  qed (use x1 in blast)
  then obtain x2 where x2: "x2 \<in> re_set (many re_space) ((None, l), [])" "fst x2 = fst x1" by blast
  from x1(2) assms(3) obtain c t where c: "snd (fst x1) = c # t" "lower_char c \<in> A" unfolding leads_in_def by blast
  then have "\<not> is_space c" using assms(4) by blast
  with spaces_lstrip [OF x2(1)] c x2(2) show ?thesis by auto
qed

definition opener_leads :: "char set" where
  "opener_leads = set ''rpeisfldc''"

lemma opener_leads_space: "is_space c \<Longrightarrow> lower_char c \<notin> opener_leads"
proof
  assume s: "is_space c" and l: "lower_char c \<in> opener_leads"
  then have "lower_char c = c" by (auto simp: is_space_def lower_char_def range_defs)
  with l have "c \<in> opener_leads" by simp
  moreover have "list_all (\<lambda>c. \<not> is_space c) ''rpeisfldc''" by code_simp
  ultimately show False using s by (auto simp: opener_leads_def list_all_iff)
qed

lemma line_leads:
  assumes "scope_open l \<or> scope_end l \<or> external_names l \<noteq> None"
  shows "\<exists>c t. lstrip (code_of_line l) = c # t \<and> lower_char c \<in> opener_leads"
proof -
  have lc: "lower_char CHR ''R'' \<in> opener_leads" "lower_char CHR ''P'' \<in> opener_leads" "lower_char CHR ''E'' \<in> opener_leads"
    "lower_char CHR ''I'' \<in> opener_leads" "lower_char CHR ''S'' \<in> opener_leads" "lower_char CHR ''F'' \<in> opener_leads"
    "lower_char CHR ''L'' \<in> opener_leads" "lower_char CHR ''D'' \<in> opener_leads" "lower_char CHR ''C'' \<in> opener_leads"
    unfolding opener_leads_def by code_simp+
  from assms consider "hits PROC_OPEN_RE (code_of_line l)" | "hits SCOPE_END_RE (code_of_line l)" | "hits EXTERNAL_DECL_RE (code_of_line l)"
    by (auto simp: scope_open_def scope_end_def external_names_def hits_def)
  then show ?thesis
  proof cases
    case 1
    have "leads_in opener_leads (seqs [many (Seq (alts [ilit ''RECURSIVE'', ilit ''PURE'', ilit ''ELEMENTAL'', ilit ''IMPURE'']) (some1 re_space)),
        alts proc_kinds, some1 re_space, Grp 1 (Seq re_letter (many re_word))])"
      unfolding seqs.simps alts.simps proc_kinds_def many_def by (intro leads_in_intros) (simp_all add: lc)
    with hits_lead [OF 1 [unfolded PROC_OPEN_RE_def seqs.simps]] opener_leads_space show ?thesis unfolding seqs.simps by blast
  next
    case 2
    have "leads_in opener_leads (seqs [ilit ''END'', some1 re_space, Grp 1 (alts [ilit ''SUBROUTINE'', ilit ''FUNCTION'']), Wordb])"
      unfolding seqs.simps by (intro leads_in_intros) (simp_all add: lc)
    with hits_lead [OF 2 [unfolded SCOPE_END_RE_def seqs.simps]] opener_leads_space show ?thesis unfolding seqs.simps by blast
  next
    case 3
    have "leads_in opener_leads (seqs [ilit ''EXTERNAL'', many re_space, opt (Seq (lit ''::'') (many re_space)), Grp 2 name_list_re, many re_space, Eol])"
      unfolding seqs.simps by (intro leads_in_intros) (simp_all add: lc)
    with hits_lead [OF 3 [unfolded EXTERNAL_DECL_RE_def seqs.simps]] opener_leads_space show ?thesis unfolding seqs.simps by blast
  qed
qed

lemma result_lead: "result_names l \<noteq> None \<Longrightarrow> \<exists>c t. lstrip (code_of_line l) = c # t \<and> lower_char c \<in> set ''rilcd''"
proof -
  assume "result_names l \<noteq> None"
  then have h: "hits FUNC_RESULT_TYPE_DECL_RE (code_of_line l)" by (auto simp: result_names_def hits_def split: if_splits)
  have lc: "lower_char CHR ''R'' = CHR ''r''" "lower_char CHR ''I'' = CHR ''i''" "lower_char CHR ''L'' = CHR ''l''" "lower_char CHR ''D'' = CHR ''d''"
    "lower_char CHR ''C'' = CHR ''c''" by code_simp+
  have g: "leads_in A a \<Longrightarrow> leads_in A (Grp n a)" for A n a unfolding leads_in_def re_set.simps by blast
  have "list_all (\<lambda>c. \<not> is_space c \<and> lower_char c = c) ''rilcd''" by code_simp
  moreover have "lower_char c = c" if "is_space c" for c using that by (auto simp: is_space_def lower_char_def range_defs)
  ultimately have sp: "\<forall>c. is_space c \<longrightarrow> lower_char c \<notin> set ''rilcd''" by (auto simp: list_all_iff)
  have "leads_in (set ''rilcd'') (seqs [Grp 1 (Seq (alts [ilit ''REAL'', ilit ''INTEGER'', ilit ''LOGICAL'', ilit ''COMPLEX'', seqs [ilit ''DOUBLE'', some1 re_space, ilit ''PRECISION'']])
       (opt (seqs [many re_space, chr_re CHR ''('', many re_space, many (Cls True [(41, 41)]), many re_space, chr_re CHR '')'']))),
     many re_space, opt (Seq (lit ''::'') (many re_space)), Grp 2 name_list_re, many re_space, Eol])"
    unfolding seqs.simps alts.simps by (intro leads_in_intros g) (simp_all add: lc)
  with hits_lead [OF h [unfolded FUNC_RESULT_TYPE_DECL_RE_def seqs.simps]] sp show ?thesis unfolding seqs.simps by blast
qed

lemma no_names_lead: "lstrip (code_of_line l) = c # t \<Longrightarrow> lower_char c \<notin> set ''rilcd'' \<Longrightarrow> external_names l = None \<Longrightarrow> no_names l"
  unfolding no_names_def using result_lead [of l] by fastforce

lemma scan_shift: "scan_from (i + k) u = (let (n, sp) = scan_from i u in (n + k, map (\<lambda>(s, e). (s + k, e + k)) sp))"
proof (induction i u rule: scan_from.induct)
  case (2 i c u)
  show ?case
  proof (cases "is_quote c")
    case True
    with "2.IH"(1) [OF True refl] show ?thesis
      by (simp add: Let_def split_beta add.commute add.left_commute add.assoc)
  next
    case False
    with "2.IH"(2) show ?thesis by (cases "c = CHR ''!''") (simp_all add: Let_def split_beta)
  qed
qed simp

lemma code_of_prefix:
  assumes "list_all (\<lambda>c. \<not> is_quote c \<and> c \<noteq> CHR ''!'') w"
  shows "code_of_line (w @ v) = w @ code_of_line v"
proof -
  have pre: "scan_from i (w @ v) = scan_from (i + length w) v" if "list_all (\<lambda>c. \<not> is_quote c \<and> c \<noteq> CHR ''!'') w" for i w
    using that by (induction w arbitrary: i) auto
  obtain n sp where s: "scan_line v = (n, sp)" by force
  have "scan_from (0 + length w) v = (n + length w, map (\<lambda>(s, e). (s + length w, e + length w)) sp)"
    using scan_shift [of 0 "length w" v] s by (simp add: scan_line_def)
  with pre [OF assms, of 0] have l: "scan_line (w @ v) = (n + length w, map (\<lambda>(s, e). (s + length w, e + length w)) sp)"
    by (simp add: scan_line_def)
  have in_sp: "in_spans (map (\<lambda>(s, e). (s + length w, e + length w)) sp) i \<longleftrightarrow> length w \<le> i \<and> in_spans sp (i - length w)" for i
    by (induction sp) (auto simp: in_spans_def)
  have n: "n \<le> length v" using scan_line_cut [of v] s by simp
  show ?thesis
    unfolding code_of_line_def l s Let_def prod.case
    by (rule nth_equalityI) (use n in \<open>auto simp: in_sp nth_append\<close>)
qed

lemma use_line_plain:
  assumes "list_all is_space indent"
  shows "\<not> scope_open (use_line indent p)" "\<not> scope_end (use_line indent p)" "external_names (use_line indent p) = None"
proof -
  let ?w = "indent @ ''  USE ''"
  have q: "\<not> is_quote c \<and> c \<noteq> CHR ''!''" if "is_space c" for c
  proof -
    have "\<not> is_space CHR ''!''" by code_simp
    with that show ?thesis by (auto simp: is_space_def is_quote_def range_defs)
  qed
  have "list_all (\<lambda>c. \<not> is_quote c \<and> c \<noteq> CHR ''!'') ''  USE ''" by code_simp
  then have w: "list_all (\<lambda>c. \<not> is_quote c \<and> c \<noteq> CHR ''!'') ?w" using assms q by (auto simp: list_all_iff)
  have "\<exists>z. code_of_line (use_line indent p) = indent @ ''  USE '' @ z"
    using code_of_prefix [OF w, of "concat [fst p, '', ONLY: '', join '', '' (snd p), [LF]]"] by (simp add: use_line_def)
  then obtain z where z: "code_of_line (use_line indent p) = indent @ ''  USE '' @ z" by blast
  have "is_space CHR '' ''" "\<not> is_space CHR ''U''" "lower_char CHR ''U'' = CHR ''u''" "CHR ''u'' \<notin> opener_leads"
    unfolding opener_leads_def by code_simp+
  then have "lstrip (code_of_line (use_line indent p)) = ''USE '' @ z" "lower_char CHR ''U'' \<notin> opener_leads"
    using assms by (simp_all add: z lstrip_def dropWhile_append list_all_iff)
  note lead = this
  have "\<not> (scope_open (use_line indent p) \<or> scope_end (use_line indent p) \<or> external_names (use_line indent p) \<noteq> None)"
  proof
    assume "scope_open (use_line indent p) \<or> scope_end (use_line indent p) \<or> external_names (use_line indent p) \<noteq> None"
    from line_leads [OF this] obtain c t where "lstrip (code_of_line (use_line indent p)) = c # t" "lower_char c \<in> opener_leads" by blast
    with lead show False by simp
  qed
  then show "\<not> scope_open (use_line indent p)" "\<not> scope_end (use_line indent p)" "external_names (use_line indent p) = None" by simp_all
qed

section \<open>Rewriting twice\<close>

lemma resolved_nonempty: "resolved_names idx l = Some ns \<Longrightarrow> ns \<noteq> []"
  by (auto simp: resolved_names_def external_names_def name_list_def split: option.splits if_splits)

lemma scope_names_iff: "scope_names idx sl = [] \<longleftrightarrow> (\<forall>l \<in> set sl. resolved_names idx l = None)"
proof (induction sl)
  case (Cons l sl)
  then show ?case
    using resolved_nonempty [of idx l] by (cases "resolved_names idx l") (auto simp: scope_names_def List.map_filter_simps)
qed (simp add: scope_names_def List.map_filter_simps)

lemma kept_unresolved: "l \<in> set sl \<Longrightarrow> \<not> dropped_line idx sl l \<Longrightarrow> resolved_names idx l = None"
proof (cases "scope_names idx sl = []")
  case True
  then show "l \<in> set sl \<Longrightarrow> ?thesis" by (simp add: scope_names_iff)
next
  case False
  assume "\<not> dropped_line idx sl l"
  with False show ?thesis
    by (cases "external_names l") (auto simp: dropped_line_def resolved_names_def Let_def split: option.splits if_splits)
qed

lemma no_names_kept: "no_names l \<Longrightarrow> \<not> dropped_line idx sl l \<and> resolved_names idx l = None"
  by (simp add: no_names_def dropped_line_def resolved_names_def)

text \<open>No line of a scope is left that would be resolved.\<close>

fun clean :: "(string \<Rightarrow> string option) \<Rightarrow> bool \<Rightarrow> string list \<Rightarrow> bool" where
  "clean idx s [] = True"
| "clean idx s (l # ls) =
     (if scope_open l then resolved_names idx l = None \<and> clean idx True ls
      else (s \<longrightarrow> resolved_names idx l = None) \<and> clean idx (s \<and> \<not> scope_end l) ls)"

lemma clean_one_pass:
  "clean idx (cur \<noteq> []) ls \<Longrightarrow> \<forall>l \<in> set cur. resolved_names idx l = None \<Longrightarrow> one_pass idx cur ls = cur @ ls"
proof (induction ls arbitrary: cur)
  case Nil
  then show ?case by (simp add: rewritten_scope_same)
next
  case (Cons l ls)
  consider "scope_open l" | "\<not> scope_open l" "cur = []" | "\<not> scope_open l" "cur \<noteq> []" "scope_end l"
    | "\<not> scope_open l" "cur \<noteq> []" "\<not> scope_end l" by blast
  then show ?case
  proof cases
    case 3
    with Cons.prems have "rewritten_scope idx (cur @ [l]) = cur @ [l]" by (intro rewritten_scope_same) auto
    with 3 Cons.IH [of "[]"] Cons.prems show ?thesis by simp
  next
    case 4
    with Cons.IH [of "cur @ [l]"] Cons.prems show ?thesis by simp
  next
    case 1
    with Cons.IH [of "[l]"] Cons.prems show ?thesis by (cases "cur = []") (simp_all add: rewritten_scope_same)
  next
    case 2
    with Cons.IH [of "[]"] Cons.prems show ?thesis by simp
  qed
qed

lemma clean_skip: "(\<forall>l \<in> set B. \<not> scope_open l \<and> \<not> scope_end l \<and> resolved_names idx l = None) \<Longrightarrow> clean idx s (B @ rest) = clean idx s rest"
  by (induction B) auto

definition tame :: "string \<Rightarrow> bool" where
  "tame l = (scope_open l \<or> scope_end l \<longrightarrow> no_names l)"

lemma clean_scope:
  assumes "scope_open h" and "\<forall>l \<in> set body. \<not> scope_open l \<and> \<not> scope_end l" and "tame h"
    and "tail = [] \<or> (\<exists>e. tail = [e] \<and> scope_end e \<and> \<not> scope_open e \<and> tame e)"
  shows "clean idx s (rewritten_scope idx (h # body @ tail) @ rest) = clean idx (tail = []) rest"
proof -
  let ?sl = "h # body @ tail" and ?keep = "filter (\<lambda>l. \<not> dropped_line idx (h # body @ tail) l) body"
  have h: "\<not> dropped_line idx ?sl h" "resolved_names idx h = None"
    using no_names_kept assms(1,3) by (auto simp: tame_def)
  have t: "filter (\<lambda>l. \<not> dropped_line idx ?sl l) tail = tail" "\<forall>l \<in> set tail. resolved_names idx l = None"
    using no_names_kept assms(4) by (auto simp: tame_def)
  have u: "\<forall>l \<in> set (synth_uses idx ?sl). \<not> scope_open l \<and> \<not> scope_end l \<and> resolved_names idx l = None"
  proof -
    have "list_all is_space (takeWhile is_space (hd ?sl))" by (auto simp: list_all_iff dest: set_takeWhileD)
    from use_line_plain [OF this] show ?thesis by (auto simp: synth_uses_def resolved_names_def)
  qed
  have k: "\<forall>l \<in> set ?keep. \<not> scope_open l \<and> \<not> scope_end l \<and> resolved_names idx l = None"
    using assms(2) kept_unresolved [of _ ?sl idx] by auto
  have "rewritten_scope idx ?sl = h # (synth_uses idx ?sl @ ?keep) @ tail"
    using h t by (simp add: rewritten_scope_def)
  moreover have "clean idx s (h # (synth_uses idx ?sl @ ?keep) @ tail @ rest) = clean idx True (tail @ rest)"
    using clean_skip [of "synth_uses idx ?sl @ ?keep" idx True "tail @ rest"] u k assms(1) h(2) by auto
  moreover have "clean idx True (tail @ rest) = clean idx (tail = []) rest"
    using assms(4) t(2) by auto
  ultimately show ?thesis by simp
qed

lemma clean_result:
  assumes "list_all tame ls"
  shows "clean idx False (one_pass idx [] ls)"
    and "\<forall>l \<in> set body. \<not> scope_open l \<and> \<not> scope_end l \<Longrightarrow> scope_open h \<Longrightarrow> tame h \<Longrightarrow> clean idx s (one_pass idx (h # body) ls)"
proof -
  have "clean idx False (one_pass idx [] ls) \<and>
      (\<forall>h body s. (\<forall>l \<in> set body. \<not> scope_open l \<and> \<not> scope_end l) \<longrightarrow> scope_open h \<longrightarrow> tame h \<longrightarrow> clean idx s (one_pass idx (h # body) ls))"
    using assms
  proof (induction ls)
    case Nil
    show ?case using clean_scope [of _ _ "[]" _ _ "[]"] by simp
  next
    case (Cons l ls)
    from Cons have ih: "clean idx False (one_pass idx [] ls)"
      "\<And>h body s. \<forall>l \<in> set body. \<not> scope_open l \<and> \<not> scope_end l \<Longrightarrow> scope_open h \<Longrightarrow> tame h \<Longrightarrow> clean idx s (one_pass idx (h # body) ls)"
      and l: "tame l" by simp_all
    have "clean idx False (one_pass idx [] (l # ls))"
      using ih(1) ih(2) [of "[]" l False] l by simp
    moreover have "clean idx s (one_pass idx (h # body) (l # ls))"
      if b: "\<forall>l \<in> set body. \<not> scope_open l \<and> \<not> scope_end l" "scope_open h" "tame h" for h body s
    proof -
      consider "scope_open l" | "\<not> scope_open l" "scope_end l" | "\<not> scope_open l" "\<not> scope_end l" by blast
      then show ?thesis
      proof cases
        case 1
        with clean_scope [OF b(2,1,3), of "[]" idx s "one_pass idx [l] ls"] ih(2) [of "[]" l True] l show ?thesis by simp
      next
        case 2
        with clean_scope [OF b(2,1,3), of "[l]" idx s "one_pass idx [] ls"] ih(1) l show ?thesis by simp
      next
        case 3
        with ih(2) [of "body @ [l]" h s] b show ?thesis by simp
      qed
    qed
    ultimately show ?case by blast
  qed
  then show "clean idx False (one_pass idx [] ls)"
    and "\<forall>l \<in> set body. \<not> scope_open l \<and> \<not> scope_end l \<Longrightarrow> scope_open h \<Longrightarrow> tame h \<Longrightarrow> clean idx s (one_pass idx (h # body) ls)"
    by blast+
qed

section \<open>Properties\<close>

text \<open>C26. Replacing is idempotent: on the lines it returns, with the same index, it changes nothing. (The lines that
  open or end a procedure are no declarations.)\<close>

theorem replaced_twice:
  assumes "list_all tame ls"
  shows "replaced_lines idx (replaced_lines idx ls) = replaced_lines idx ls"
  using clean_one_pass [of idx "[]" "one_pass idx [] ls"] clean_result(1) [OF assms]
  by (simp add: replaced_lines_one_pass)

definition ex_index :: "string \<Rightarrow> string option" where
  "ex_index = map_of [(''bar'', ''m''), (''baz'', ''k'')]"

lemma ex_lines:
  "scope_open (eol ''subroutine s'')" "scope_end (eol ''end subroutine'')" "\<not> scope_open (eol ''end subroutine'')"
  "\<not> scope_open (eol '' external bar'')" "\<not> scope_end (eol '' external bar'')" "external_names (eol '' external bar'') = Some [''bar'']"
  "\<not> scope_open (eol '' use m, only: f'')" "\<not> scope_end (eol '' use m, only: f'')" "use_name (eol '' use m, only: f'') = Some ''m''"
  by code_simp+

lemma ex_no_names: "no_names (eol ''subroutine s'')" "no_names (eol ''end subroutine'')" "no_names (eol '' use m, only: f'')"
proof -
  have l: "lstrip (code_of_line (eol ''subroutine s'')) = CHR ''s'' # eol ''ubroutine s''" "lstrip (code_of_line (eol ''end subroutine'')) = CHR ''e'' # eol ''nd subroutine''"
    "lstrip (code_of_line (eol '' use m, only: f'')) = CHR ''u'' # eol ''se m, only: f''" by code_simp+
  have c: "lower_char CHR ''s'' \<notin> set ''rilcd''" "lower_char CHR ''e'' \<notin> set ''rilcd''" "lower_char CHR ''u'' \<notin> set ''rilcd''" by code_simp+
  have e: "external_names (eol ''subroutine s'') = None" "external_names (eol ''end subroutine'') = None" "external_names (eol '' use m, only: f'') = None"
    by code_simp+
  show "no_names (eol ''subroutine s'')" "no_names (eol ''end subroutine'')" "no_names (eol '' use m, only: f'')"
    using no_names_lead l c e by blast+
qed

theorem replaced_twice_witness:
  "\<exists>out. out = replaced_lines ex_index [eol ''subroutine s'', eol '' external bar'', eol ''end subroutine''] \<and>
     out = [eol ''subroutine s'', ''  USE m, ONLY: bar'' @ [LF], eol ''end subroutine''] \<and> replaced_lines ex_index out = out"
proof -
  let ?ls = "[eol ''subroutine s'', eol '' external bar'', eol ''end subroutine'']"
  have "list_all tame ?ls" using ex_lines ex_no_names by (simp add: tame_def)
  from replaced_twice [OF this, of ex_index] have tw: "replaced_lines ex_index (replaced_lines ex_index ?ls) = replaced_lines ex_index ?ls" .
  have r: "resolved_names ex_index (eol '' external bar'') = Some [''bar'']"
  proof -
    have "ex_index (lower ''bar'') = Some ''m''" by code_simp
    then show ?thesis by (simp add: resolved_names_def ex_lines)
  qed
  note nn = no_names_kept [OF ex_no_names(1)] no_names_kept [OF ex_no_names(2)]
  have sn: "scope_names ex_index ?ls = [''bar'']" using nn r by (simp add: scope_names_def List.map_filter_simps)
  have ix: "names_by_module ex_index [''bar''] = [(''m'', [''bar''])]" by code_simp
  have "\<not> scope_already_uses ?ls ''m''" by code_simp
  moreover have "use_line (takeWhile is_space (hd ?ls)) (''m'', [''bar'']) = ''  USE m, ONLY: bar'' @ [LF]" by code_simp
  ultimately have sy: "synth_uses ex_index ?ls = [''  USE m, ONLY: bar'' @ [LF]]" unfolding synth_uses_def sn ix by simp
  have "dropped_line ex_index ?ls (eol '' external bar'')" using sn r ex_lines by (simp add: dropped_line_def)
  with nn sy have "rewritten_scope ex_index ?ls = [eol ''subroutine s'', ''  USE m, ONLY: bar'' @ [LF], eol ''end subroutine'']"
    by (simp add: rewritten_scope_def)
  then have "replaced_lines ex_index ?ls = [eol ''subroutine s'', ''  USE m, ONLY: bar'' @ [LF], eol ''end subroutine'']"
    using ex_lines by (simp add: replaced_lines_one_pass)
  with tw show ?thesis by simp
qed

text \<open>When the scope already uses the module, the declaration goes without an import, also when that use is
  restricted to other names: the procedure is then neither declared nor imported.\<close>

theorem only_import_loses_names:
  assumes "scope_open l1" and "use_name l2 = Some (lower m)" and "resolved_names idx l3 = Some ns" and "\<forall>n \<in> set ns. idx (lower n) = Some m"
    and "scope_end l4" and "\<not> scope_open l2" "\<not> scope_end l2" "no_names l2" "no_names l1" "no_names l4" "\<not> scope_open l3" "\<not> scope_end l3" "\<not> scope_open l4"
  shows "replaced_lines idx [l1, l2, l3, l4] = [l1, l2, l4]"
proof -
  let ?sl = "[l1, l2, l3, l4]"
  note nn = no_names_kept [OF \<open>no_names l1\<close>] no_names_kept [OF \<open>no_names l2\<close>] no_names_kept [OF \<open>no_names l4\<close>]
  have names: "scope_names idx ?sl = ns" using nn assms(3) by (simp add: scope_names_def List.map_filter_simps)
  have "ns \<noteq> []" by (rule resolved_nonempty [OF assms(3)])
  have "external_names l3 \<noteq> None" using assms(3) by (cases "external_names l3") (simp_all add: resolved_names_def)
  then have d: "dropped_line idx ?sl l3" using names \<open>ns \<noteq> []\<close> assms(3) by (simp add: dropped_line_def)
  have keys: "fst ` set (names_by_module idx ns) \<subseteq> {m}"
  proof -
    have add: "fst ` set (add_name k v ps) = insert k (fst ` set ps)" for k v and ps :: "(string \<times> string list) list"
      by (induction k v ps rule: add_name.induct) auto
    have "fst ` set (fold (\<lambda>n. add_name (the (idx (lower n))) n) xs ps) \<subseteq> insert m (fst ` set ps)" if "set xs \<subseteq> set ns" for xs ps
      using that
    proof (induction xs arbitrary: ps)
      case (Cons n xs)
      then have "idx (lower n) = Some m" using assms(4) by simp
      with Cons.IH [of "add_name m n ps"] Cons.prems show ?case by (simp add: add)
    qed auto
    from this [of ns "[]"] show ?thesis by (simp add: names_by_module_def)
  qed
  have "scope_already_uses ?sl m" using assms(2) by (simp add: scope_already_uses_def)
  with keys have "filter (\<lambda>p. \<not> scope_already_uses ?sl (fst p)) (names_by_module idx ns) = []"
    by (auto simp: filter_empty_conv)
  then have "synth_uses idx ?sl = []" by (simp add: synth_uses_def names)
  with d nn have "rewritten_scope idx ?sl = [l1, l2, l4]" by (simp add: rewritten_scope_def)
  with assms show ?thesis by (simp add: replaced_lines_one_pass)
qed

theorem only_import_loses_names_witness:
  "replaced_lines ex_index [eol ''subroutine s'', eol '' use m, only: f'', eol '' external bar'', eol ''end subroutine''] =
     [eol ''subroutine s'', eol '' use m, only: f'', eol ''end subroutine'']"
proof -
  have x: "lower ''m'' = ''m''" "ex_index (lower ''bar'') = Some ''m''" by code_simp+
  have r: "resolved_names ex_index (eol '' external bar'') = Some [''bar'']" using x by (simp add: resolved_names_def ex_lines)
  have a: "\<forall>n \<in> set [''bar'']. ex_index (lower n) = Some ''m''" using x by simp
  have u: "use_name (eol '' use m, only: f'') = Some (lower ''m'')" using x ex_lines by simp
  show ?thesis
    by (rule only_import_loses_names [OF ex_lines(1) u r a ex_lines(2,7,8) ex_no_names(3,1,2) ex_lines(4,5,3)])
qed

end
