(* ===== verification/Word_Sub.thy ===== *)
theory Word_Sub
  imports Regex
begin

text \<open>
  Replacing a whole word: what \<open>re.sub(rf"\b{w}\b", ...)\<close> does to a text when \<open>w\<close> is a name.
\<close>

definition word_re :: "string \<Rightarrow> regex" where
  "word_re w = seqs [Wordb, lit w, Wordb]"

section \<open>Words\<close>

text \<open>A text with its words, the maximal runs of word characters, replaced.\<close>

function on_words :: "(string \<Rightarrow> string) \<Rightarrow> string \<Rightarrow> string" where
  "on_words f [] = []"
| "on_words f (c # s) =
     (if is_word c then f (c # takeWhile is_word s) @ on_words f (dropWhile is_word s) else c # on_words f s)"
  by pat_completeness auto
termination
  by (relation "measure (\<lambda>(f, s). length s)") (auto simp: le_imp_less_Suc length_dropWhile_le)

definition is_name :: "string \<Rightarrow> bool" where
  "is_name w \<longleftrightarrow> w \<noteq> [] \<and> list_all is_word w"

lemma in_cls_chr_eq: "in_cls False [(code a, code a)] b \<longleftrightarrow> a = b"
  by (auto simp: in_cls_def in_ranges_def order_antisym simp flip: code_inject)

lemma re_m_lit: "re_m (lit w) (q, u) c k = (if take (length w) u = w then k (char_after q w, drop (length w) u) c else None)"
proof (induction w arbitrary: q u)
  case (Cons a w)
  have "lit (a # w) = (if w = [] then chr_re a else Seq (chr_re a) (lit w))" by (cases w) (simp_all add: lit_def)
  with Cons show ?case
    by (cases u) (auto simp: chr_re_def in_cls_chr_eq char_after_def)
qed (simp add: lit_def char_after_def)

lemma word_re_at:
  assumes "is_name w"
  shows "re_at (word_re w) (q, u) =
    (if opt_word q \<noteq> opt_word (next_char u) \<and> take (length w) u = w \<and> \<not> opt_word (next_char (drop (length w) u))
     then Some ((Some (last w), drop (length w) u), []) else None)"
proof -
  have "is_word (last w)" using assms by (simp add: is_name_def list_all_iff)
  with assms show ?thesis by (auto simp: re_at_def word_re_def re_m_lit char_after_def opt_word_def is_name_def)
qed

lemma scan_in_word:
  assumes "is_name w" and "list_all is_word v" and "opt_word q" and "u = [] \<or> \<not> is_word (hd u)"
  shows "re_scan (word_re w) n q (v @ u) = map Inl v @ re_scan (word_re w) n (char_after q v) u"
  using assms(2,3)
proof (induction v arbitrary: q)
  case (Cons c v)
  then have "re_at (word_re w) (q, c # v @ u) = None" by (simp add: word_re_at [OF assms(1)] next_char_def opt_word_def)
  moreover have "char_after q (c # v) = char_after (Some c) v" by (simp add: char_after_def)
  ultimately show ?case using Cons.IH [of "Some c"] Cons.prems by (simp add: re_scan_skip opt_word_def)
qed (simp add: char_after_def)

lemma sub_word:
  assumes w: "is_name w"
  shows "re_sub (\<lambda>m. g (m_text m)) (word_re w) s = on_words (\<lambda>v. if v = w then g w else v) s"
proof -
  let ?f = "\<lambda>v. if v = w then g w else v" and ?r = "word_re w"
  let ?p = "\<lambda>xs. concat (map (case_sum (\<lambda>c. [c]) (\<lambda>m. g (m_text m))) xs)"
  have "?p (re_scan ?r n q u) = on_words ?f u" if "\<not> opt_word q \<or> u = [] \<or> \<not> is_word (hd u)" for n q u
    using that
  proof (induction ?f u arbitrary: q rule: on_words.induct)
    case 1
    have "re_at ?r (q, []) = None" using w by (auto simp: word_re_at is_name_def)
    then show ?case by (simp add: re_scan_Nil)
  next
    case (2 c s)
    show ?case
    proof (cases "is_word c")
      case False
      obtain x w' where "w = x # w'" "is_word x" using w by (cases w) (simp_all add: is_name_def)
      with False have "take (length w) (c # s) \<noteq> w" by auto
      then have "re_at ?r (q, c # s) = None" by (simp add: word_re_at [OF w])
      moreover have "\<not> opt_word (Some c)" using False by (simp add: opt_word_def)
      ultimately show ?thesis using False "2.hyps"(2) [OF False, of "Some c"] by (simp add: re_scan_skip)
    next
      case True
      define v where "v = c # takeWhile is_word s"
      define u where "u = dropWhile is_word s"
      have "c # s = v @ u" "v \<noteq> []" by (simp_all add: v_def u_def)
      moreover have "list_all is_word v" using True by (auto simp: v_def list_all_iff dest: set_takeWhileD)
      ultimately have vu: "c # s = v @ u" "list_all is_word v" "v \<noteq> []" by simp_all
      have u: "u = [] \<or> \<not> is_word (hd u)" unfolding u_def by (metis hd_dropWhile)
      then have nu: "\<not> opt_word (next_char u)" by (cases u) (simp_all add: opt_word_def next_char_def)
      have q: "\<not> opt_word q" "opt_word (next_char (c # s))" using "2.prems" True by (simp_all add: opt_word_def next_char_def)
      have rest: "?p (re_scan ?r n (Some x) u) = on_words ?f u" for x
        using "2.hyps"(1) [OF True, of "Some x"] u by (simp add: u_def)
      show ?thesis
      proof (cases "v = w")
        case True
        have at: "re_at ?r (q, c # s) = Some ((Some (last w), u), [])"
          unfolding word_re_at [OF w] using q nu vu True by simp
        have "left (Some (last w), u) < length (c # s)" using vu by simp
        then have "re_scan ?r n q (c # s) = Inr (mk_match n (q, c # s) ((Some (last w), u), [])) # re_scan ?r n (Some (last w)) u"
          using re_scan_hit [OF at] by simp
        moreover have "m_text (mk_match n (q, c # s) ((Some (last w), u), [])) = w"
          using vu True by (simp add: mk_match_def)
        ultimately show ?thesis using rest \<open>is_word c\<close> True by (simp add: v_def u_def)
      next
        case False
        have "re_at ?r (q, c # s) = None"
        proof (rule ccontr)
          assume "re_at ?r (q, c # s) \<noteq> None"
          then have t: "take (length w) (v @ u) = w" "\<not> opt_word (next_char (drop (length w) (v @ u)))"
            unfolding word_re_at [OF w] vu(1) by (simp_all split: if_splits)
          show False
          proof (cases "length w \<le> length v")
            case True
            with t have "w = take (length w) v" by simp
            moreover have "length w = length v"
            proof (rule ccontr)
              assume "length w \<noteq> length v"
              with True have l: "length w < length v" by simp
              then have "next_char (drop (length w) (v @ u)) = Some (v ! length w)"
                by (simp add: next_char_def Cons_nth_drop_Suc [symmetric])
              moreover have "is_word (v ! length w)" using vu(2) l by (simp add: list_all_length)
              ultimately show False using t(2) by (simp add: opt_word_def)
            qed
            ultimately show False using \<open>v \<noteq> w\<close> by simp
          next
            case False
            with t(1) have wv: "w = v @ take (length w - length v) u" by simp
            with False have "take (length w - length v) u \<noteq> []" by (metis append_Nil2 nle_le)
            then obtain y u' where y: "u = y # u'" by (cases u) auto
            with wv False have "y \<in> set w" by (metis append_Cons in_set_conv_decomp take_Suc_Cons Suc_diff_Suc not_le)
            with w y have "is_word (hd u)" "u \<noteq> []" by (simp_all add: is_name_def list_all_iff)
            with u show False by simp
          qed
        qed
        then have "re_scan ?r n q (c # s) = Inl c # re_scan ?r n (Some c) (takeWhile is_word s @ u)"
          by (simp add: re_scan_skip u_def)
        also have "re_scan ?r n (Some c) (takeWhile is_word s @ u) =
            map Inl (takeWhile is_word s) @ re_scan ?r n (char_after (Some c) (takeWhile is_word s)) u"
          using u True by (intro scan_in_word [OF w]) (auto simp: opt_word_def list_all_iff dest: set_takeWhileD)
        finally show ?thesis
          using rest [of "last v"] True False by (simp add: v_def u_def char_after_def o_def split: if_splits)
      qed
    qed
  qed
  from this [of None s] show ?thesis by (simp add: re_sub_def opt_word_def)
qed

text \<open>Replacing twice is replacing once, when the first replacement puts names in the place of names.\<close>

lemma on_words_name:
  assumes "is_name v" and "u = [] \<or> \<not> is_word (hd u)"
  shows "on_words f (v @ u) = f v @ on_words f u"
proof -
  obtain c w where v: "v = c # w" "is_word c" "\<forall>x \<in> set w. is_word x"
    using assms(1) by (cases v) (auto simp: is_name_def list_all_iff)
  moreover have "takeWhile is_word (w @ u) = w" "dropWhile is_word (w @ u) = u"
    using v(3) assms(2) by (cases u; simp add: takeWhile_append dropWhile_append)+
  ultimately show ?thesis by simp
qed

lemma on_words_gap: "u \<noteq> [] \<Longrightarrow> \<not> is_word (hd u) \<Longrightarrow> on_words f u \<noteq> [] \<and> hd (on_words f u) = hd u"
  by (cases u) simp_all

lemma on_words_comp:
  assumes "\<And>w. is_name w \<Longrightarrow> is_name (g w)"
  shows "on_words f (on_words g s) = on_words (\<lambda>w. f (g w)) s"
  using assms
proof (induction g s rule: on_words.induct)
  case (2 g c s)
  show ?case
  proof (cases "is_word c")
    case True
    let ?v = "c # takeWhile is_word s" and ?u = "dropWhile is_word s"
    have "is_name ?v" using True by (auto simp: is_name_def list_all_iff dest: set_takeWhileD)
    then have "is_name (g ?v)" by (rule "2.prems")
    moreover have "?u = [] \<or> \<not> is_word (hd ?u)" by (metis hd_dropWhile)
    then have "on_words g ?u = [] \<or> \<not> is_word (hd (on_words g ?u))" using on_words_gap [of ?u g] by fastforce
    ultimately have "on_words f (g ?v @ on_words g ?u) = f (g ?v) @ on_words f (on_words g ?u)" by (rule on_words_name)
    with "2.IH"(1) [OF True "2.prems"] True show ?thesis by simp
  next
    case False
    with "2.IH"(2) [OF False "2.prems"] show ?thesis by simp
  qed
qed simp

lemma on_words_cong: "(\<And>w. is_name w \<Longrightarrow> f w = g w) \<Longrightarrow> on_words f s = on_words g s"
proof (induction f s rule: on_words.induct)
  case (2 f c s)
  have "is_word c \<Longrightarrow> is_name (c # takeWhile is_word s)" by (auto simp: is_name_def list_all_iff dest: set_takeWhileD)
  with 2 show ?case by simp
qed simp

lemma on_words_id: "(\<And>w. is_name w \<Longrightarrow> f w = w) \<Longrightarrow> on_words f s = s"
proof (induction f s rule: on_words.induct)
  case (2 f c s)
  have "is_word c \<Longrightarrow> is_name (c # takeWhile is_word s)" by (auto simp: is_name_def list_all_iff dest: set_takeWhileD)
  with 2 show ?case by simp
qed simp

end
