(* ===== verification/Tu_Binding.thy ===== *)
theory Tu_Binding
  imports Word_Sub Json
begin

text \<open>
  \<open>tu_bindings.py\<close>: the record that says which access of the source becomes which dummy of a translation unit, its
  selection by matching, and its application to a statement. A record is parsed JSON; reading the file is I/O. The texts
  of a record contain no backslash, which \<open>re.sub\<close> would treat as an escape in a replacement.
\<close>

section \<open>Errors\<close>

text \<open>The three constructors in the middle are \<open>ShapeNotRecorded\<close>, the last one is what is no \<open>BindingError\<close>.\<close>

datatype bind_error =
    NoField string string             \<comment> \<open>an access without a required key\<close>
  | BadIntent string string
  | NoAccesses string
  | RowsNoField string string
  | RowsMissing
  | Unbound "string list"
  | RowVariableLeft string
  | RecordMissing
  | FamilyWithoutShapes
  | NoShapes string
  | NoTable string
  | NoneBinds "string list"
  | Python py_error

definition binding_error :: "bind_error \<Rightarrow> bool" where
  "binding_error e = (case e of Python _ \<Rightarrow> False | _ \<Rightarrow> True)"

definition py :: "'a py \<Rightarrow> bind_error + 'a" where
  "py r = (case r of Inl e \<Rightarrow> Inl (Python e) | Inr x \<Rightarrow> Inr x)"

section \<open>Records\<close>

record access =
  ac_base :: string
  ac_dummy :: string
  ac_intent :: string
  ac_rank :: int

record row_loop =
  rw_var :: string
  rw_from :: string
  rw_count :: int
  rw_loop :: bool

record binding =
  bn_family :: string
  bn_accesses :: "access list"
  bn_loop_vars :: "(string \<times> string) list"
  bn_bounds :: "string list"
  bn_rows :: "row_loop option"
  bn_source_routine :: string
  bn_partial :: bool
  bn_key :: string
  bn_library :: "json option"
  bn_loop_bounds :: "json option"
  bn_locals :: "string list"
  bn_bounds_from_caller :: bool
  bn_reshape :: "json option"
  bn_raw :: "(string \<times> json) list"

record family =
  fm_name :: string
  fm_raw :: "(string \<times> json) list"

text \<open>\<open>bool(x)\<close> of a JSON value, and \<open>raw.get(k)\<close> with \<open>null\<close> for a missing key.\<close>

fun truthy :: "json \<Rightarrow> bool" where
  "truthy JNull = False"
| "truthy (JBool b) = b"
| "truthy (JInt i) = (i \<noteq> 0)"
| "truthy (JStr s) = (s \<noteq> [])"
| "truthy (JList xs) = (xs \<noteq> [])"
| "truthy (JObj d) = (d \<noteq> [])"

definition get_flag :: "string \<Rightarrow> (string \<times> json) list \<Rightarrow> bool" where
  "get_flag k d = (case map_of d k of None \<Rightarrow> False | Some v \<Rightarrow> truthy v)"

definition get_value :: "string \<Rightarrow> (string \<times> json) list \<Rightarrow> json option" where
  "get_value k d = (case map_of d k of Some JNull \<Rightarrow> None | x \<Rightarrow> x)"

text \<open>\<open>Path(where).stem\<close>.\<close>

definition path_stem :: "string \<Rightarrow> string" where
  "path_stem p =
     (let parts = filter (\<lambda>c. c \<noteq> [] \<and> c \<noteq> ''.'') (split_on CHR ''/'' p); name = (if parts = [] then [] else last parts);
          stem = before_last CHR ''.'' name
      in if CHR ''.'' \<in> set name \<and> stem \<noteq> [] \<and> length stem + 1 < length name then stem else name)"

definition access_of :: "string \<Rightarrow> json \<Rightarrow> bind_error + access" where
  "access_of loc j =
     rbind (py (j_obj j)) (\<lambda>a.
       case filter (\<lambda>k. map_of a k = None) [''base'', ''dummy'', ''intent'', ''rank''] of
         k # _ \<Rightarrow> Inl (NoField loc k)
       | [] \<Rightarrow>
           rbind (py (j_item ''intent'' j_str a)) (\<lambda>intent.
             if intent \<notin> {''in'', ''inout'', ''out''} then Inl (BadIntent loc intent)
             else rbind (py (j_item ''base'' j_str a)) (\<lambda>base.
               rbind (py (j_item ''dummy'' j_str a)) (\<lambda>dummy.
               rbind (py (j_item ''rank'' j_int a)) (\<lambda>rank.
                 Inr \<lparr>ac_base = base, ac_dummy = dummy, ac_intent = intent, ac_rank = rank\<rparr>)))))"

definition accesses_of :: "(string \<times> json) list \<Rightarrow> string \<Rightarrow> bind_error + access list" where
  "accesses_of raw loc =
     rbind (py (j_item ''accesses'' (j_list (\<lambda>j. Inr j)) raw)) (\<lambda>js. rmap (access_of loc) js)"

definition rows_of :: "string \<Rightarrow> (string \<times> json) list \<Rightarrow> bind_error + row_loop option" where
  "rows_of loc raw =
     (case get_value ''rows'' raw of
        None \<Rightarrow> Inr None
      | Some j \<Rightarrow>
          rbind (py (j_obj j)) (\<lambda>d.
            case filter (\<lambda>k. map_of d k = None) [''var'', ''from'', ''count''] of
              k # _ \<Rightarrow> Inl (RowsNoField loc k)
            | [] \<Rightarrow>
                rbind (py (j_item ''var'' j_str d)) (\<lambda>var.
                rbind (py (j_item ''from'' j_str d)) (\<lambda>base.
                rbind (py (j_item ''count'' j_int d)) (\<lambda>n.
                  Inr (Some \<lparr>rw_var = var, rw_from = base, rw_count = n, rw_loop = get_flag ''loop'' d\<rparr>))))))"

definition strings_or_none :: "json \<Rightarrow> string list py" where
  "strings_or_none j = (if truthy j then j_list j_str j else Inr [])"

definition from_dict :: "(string \<times> json) list \<Rightarrow> string \<Rightarrow> bind_error + binding" where
  "from_dict raw loc =
     (if map_of raw ''accesses'' = None then Inl (NoAccesses loc)
      else rbind (accesses_of raw loc) (\<lambda>accs.
           rbind (rows_of loc raw) (\<lambda>rows.
           rbind (py (j_get ''family'' (path_stem loc) j_str raw)) (\<lambda>fam.
           rbind (py (j_get ''loop_vars'' [] (j_dict j_str) raw)) (\<lambda>lv.
           rbind (py (j_get ''bounds'' [] (j_list j_str) raw)) (\<lambda>bounds.
           rbind (py (j_get ''source_routine'' [] j_str raw)) (\<lambda>routine.
           rbind (py (j_get ''locals'' [] strings_or_none raw)) (\<lambda>locals.
             Inr \<lparr>bn_family = fam, bn_accesses = accs, bn_loop_vars = lv, bn_bounds = bounds, bn_rows = rows,
                   bn_source_routine = routine, bn_partial = get_flag ''partial'' raw, bn_key = [],
                   bn_library = get_value ''library'' raw, bn_loop_bounds = get_value ''loop_bounds'' raw, bn_locals = locals,
                   bn_bounds_from_caller = get_flag ''bounds_from_caller'' raw, bn_reshape = get_value ''reshape'' raw,
                   bn_raw = raw\<rparr>))))))))"

section \<open>Applying a table\<close>

definition row_expressions :: "binding \<Rightarrow> string list" where
  "row_expressions b =
     (case bn_rows b of
        None \<Rightarrow> []
      | Some rw \<Rightarrow>
          (if rw_loop rw then [rw_var rw]
           else map (\<lambda>r. if r = 0 then rw_from rw else concat [rw_from rw, '' + '', str_nat r]) [0..<nat (rw_count rw)]))"

definition ROW :: string where "ROW = ''%(row)''"

text \<open>\<open>_match\<close>: the access whose base, with the row filled in, is the given text.\<close>

definition match_access :: "binding \<Rightarrow> string \<Rightarrow> string option \<Rightarrow> access option" where
  "match_access b base row =
     List.find (\<lambda>a. if contains ROW (ac_base a) then (case row of None \<Rightarrow> False | Some e \<Rightarrow> replace ROW e (ac_base a) = base)
                     else ac_base a = base) (bn_accesses b)"

definition component_re :: "string \<Rightarrow> regex" where
  "component_re var = seqs [lit ''%vf('', many re_space, lit var, many re_space, chr_re CHR '')'']"

definition indexed_re :: "string \<Rightarrow> string \<Rightarrow> regex" where
  "indexed_re name var = seqs [Wordb, lit name, chr_re CHR ''('', many re_space, lit var, many re_space, chr_re CHR '')'']"

text \<open>The text of a base in front of its row, if an opening parenthesis ends it: the name of the array.\<close>

fun before_sub :: "string \<Rightarrow> string \<Rightarrow> string" where
  "before_sub p [] = []"
| "before_sub p (c # s) = (if startswith (c # s) p then [] else c # before_sub p s)"

definition row_array :: "access \<Rightarrow> string option" where
  "row_array a =
     (let head = before_sub ROW (ac_base a) in
      if contains ROW (ac_base a) \<and> endswith head ''('' then Some (last (split_on CHR ''%'' (butlast head))) else None)"

definition expand_rows :: "binding \<Rightarrow> string \<Rightarrow> string \<Rightarrow> string \<Rightarrow> string" where
  "expand_rows b var e stmt =
     foldl (\<lambda>out a. case row_array a of
                None \<Rightarrow> out
              | Some name \<Rightarrow> re_sub (\<lambda>_. concat [name, ''('', e, '')'']) (indexed_re name var) out)
       (re_sub (\<lambda>_. concat [''%vf('', e, '')'']) (component_re var) stmt) (bn_accesses b)"

definition storage_re :: "string \<Rightarrow> regex" where
  "storage_re want = seqs [lit want, many re_space, lit ''%sf'', many re_space, chr_re CHR ''('']"

definition plain_array_re :: "string \<Rightarrow> regex" where
  "plain_array_re want = seqs [Wordb, lit want, many re_space, Look True (chr_re CHR ''('')]"

definition longest_first :: "binding \<Rightarrow> access list" where
  "longest_first b = sort_key (\<lambda>a. - int (length (ac_base a))) (bn_accesses b)"

definition wanted_base :: "string option \<Rightarrow> access \<Rightarrow> string" where
  "wanted_base row a = (case row of None \<Rightarrow> ac_base a | Some e \<Rightarrow> replace ROW e (ac_base a))"

definition dummy_name :: "nat \<Rightarrow> access \<Rightarrow> string" where
  "dummy_name n a = replace ''{n}'' (str_nat n) (ac_dummy a)"

definition bind_storage :: "string option \<Rightarrow> nat \<Rightarrow> string \<Rightarrow> access \<Rightarrow> string" where
  "bind_storage row n out a =
     (if contains ROW (ac_base a) \<and> row = None then out
      else re_sub (\<lambda>_. dummy_name n a @ ''('') (storage_re (wanted_base row a)) out)"

definition bind_plain :: "string option \<Rightarrow> nat \<Rightarrow> string \<Rightarrow> access \<Rightarrow> string" where
  "bind_plain row n out a =
     (if CHR ''%'' \<in> set (ac_base a) then out else re_sub (\<lambda>_. dummy_name n a) (plain_array_re (wanted_base row a)) out)"

definition subscript_re :: regex where
  "subscript_re = seqs [chr_re CHR ''('', many (Cls True [(40, 41)]), chr_re CHR '')'']"

definition LEFT_RE :: regex where
  "LEFT_RE = seqs [Grp 1 (seqs [re_ident_start, many re_word, opt subscript_re,
       many (seqs [chr_re CHR ''%'', some1 re_word, opt subscript_re])]), lit ''%sf'', many re_space, chr_re CHR ''('']"

definition accesses_left :: "string \<Rightarrow> string list" where
  "accesses_left out = sort (remdups (map (\<lambda>m. grp0 m 1) (re_finditer LEFT_RE out)))"

definition WORD_RE :: regex where
  "WORD_RE = seqs [Wordb, Grp 1 (some1 re_word), Wordb]"

definition substitute :: "binding \<Rightarrow> string \<Rightarrow> nat option \<Rightarrow> bind_error + string" where
  "substitute b stmt row_index =
     rbind (case row_index of
              None \<Rightarrow> Inr None
            | Some r \<Rightarrow>
                (if bn_rows b = None then Inl RowsMissing
                 else if r < length (row_expressions b) then Inr (Some (row_expressions b ! r)) else Inl (Python IndexError)))
       (\<lambda>row.
         let n = (case row_index of None \<Rightarrow> 1 | Some r \<Rightarrow> r + 1);
             expanded = (case (row, bn_rows b) of (Some e, Some rw) \<Rightarrow> expand_rows b (rw_var rw) e stmt | _ \<Rightarrow> stmt);
             stored = foldl (bind_storage row n) expanded (longest_first b);
             out = foldl (bind_plain row n) stored (longest_first b)
         in if accesses_left out \<noteq> [] then Inl (Unbound (accesses_left out))
            else case bn_rows b of
              None \<Rightarrow> Inr out
            | Some rw \<Rightarrow>
                (if row_index = None \<and> rw_var rw \<in> set (map (\<lambda>m. grp0 m 1) (re_finditer WORD_RE out))
                 then Inl (RowVariableLeft (rw_var rw)) else Inr out))"

definition rename_step :: "(string \<times> string) list \<Rightarrow> string \<Rightarrow> string \<times> string \<Rightarrow> string" where
  "rename_step lv out p =
     (let skip = filter (\<lambda>w. w \<noteq> fst p) (map fst lv @ map snd lv) in
      re_sub (\<lambda>m. if m_text m \<in> set skip then m_text m else snd p) (word_re (fst p)) out)"

definition rename_loops :: "binding \<Rightarrow> string \<Rightarrow> string" where
  "rename_loops b stmt = foldl (rename_step (bn_loop_vars b)) stmt (bn_loop_vars b)"

definition add_dummy :: "(string \<times> int \<times> string) list \<Rightarrow> string \<times> int \<times> string \<Rightarrow> (string \<times> int \<times> string) list" where
  "add_dummy out d = (if fst d \<in> fst ` set out then out else out @ [d])"

definition dummies :: "binding \<Rightarrow> (string \<times> int \<times> string) list" where
  "dummies b =
     (let n = (case bn_rows b of None \<Rightarrow> 1 | Some rw \<Rightarrow> nat (rw_count rw)) in
      foldl add_dummy [] (concat (map (\<lambda>a. map (\<lambda>r. (dummy_name (r + 1) a, ac_rank a, ac_intent a)) [0..<n]) (bn_accesses b))))"

definition rows_used :: "string list \<Rightarrow> binding \<Rightarrow> bool" where
  "rows_used stmts b =
     (case bn_rows b of None \<Rightarrow> False | Some rw \<Rightarrow> list_ex (\<lambda>s. re_search (component_re (rw_var rw)) s \<noteq> None) stmts)"

section \<open>Selecting a table\<close>

definition shapes :: "family \<Rightarrow> bind_error + (string \<times> json) list" where
  "shapes f = py (j_get ''shapes'' [] j_obj (fm_raw f))"

definition keys :: "family \<Rightarrow> bind_error + string list" where
  "keys f = rbind (shapes f) (\<lambda>sh. Inr (filter (\<lambda>k. CHR '':'' \<in> set k) (map fst sh)))"

definition has :: "family \<Rightarrow> string \<Rightarrow> string \<Rightarrow> bind_error + bool" where
  "has f op dim = rbind (shapes f) (\<lambda>sh. Inr (map_of sh (concat [op, '':'', dim]) \<noteq> None))"

text \<open>The property \<open>reshape\<close> of a family.\<close>

definition family_reshape :: "family \<Rightarrow> json option" where
  "family_reshape f = get_value ''reshape'' (fm_raw f)"

definition override :: "(string \<times> json) list \<Rightarrow> string \<Rightarrow> (string \<times> json) list \<Rightarrow> (string \<times> json) list" where
  "override shape k raw = (case map_of shape k of None \<Rightarrow> raw | Some v \<Rightarrow> AList.update k v raw)"

definition shape_fields :: "string list" where
  "shape_fields = [''accesses'', ''loop_vars'', ''library'', ''loop_bounds'', ''locals'', ''partial'']"

definition by_key :: "family \<Rightarrow> string \<Rightarrow> bind_error + binding" where
  "by_key f key =
     rbind (shapes f) (\<lambda>sh.
       case map_of sh key of
         None \<Rightarrow> Inl (NoTable key)
       | Some j \<Rightarrow>
           rbind (py (j_obj j)) (\<lambda>shape.
             let loc = concat [fm_name f, ''['', key, '']''] in
             if map_of shape ''accesses'' = None then Inl (NoAccesses loc)
             else rbind (from_dict (fold (override shape) shape_fields (fm_raw f)) loc) (\<lambda>b. Inr (b\<lparr>bn_key := key\<rparr>))))"

definition row_choice :: "binding \<Rightarrow> nat option" where
  "row_choice b = (if bn_rows b = None then None else Some 0)"

text \<open>The loop over the statements, for one table.\<close>

definition bind_all :: "binding \<Rightarrow> string list \<Rightarrow> bind_error + unit" where
  "bind_all b stmts = rbind (rmap (\<lambda>s. substitute b s (row_choice b)) stmts) (\<lambda>_. Inr ())"

fun try_tables :: "family \<Rightarrow> string list \<Rightarrow> binding option \<Rightarrow> string list \<Rightarrow> bind_error + binding option" where
  "try_tables f stmts fallback [] = Inr fallback"
| "try_tables f stmts fallback (key # ks) =
     rbind (by_key f key) (\<lambda>b.
       case bind_all b stmts of
         Inr _ \<Rightarrow> Inr (Some b)
       | Inl e \<Rightarrow>
           (if binding_error e
            then try_tables f stmts (if bn_partial b \<and> fallback = None then Some b else fallback) ks
            else Inl e))"

definition for_statements :: "family \<Rightarrow> string list \<Rightarrow> bind_error + binding" where
  "for_statements f stmts =
     rbind (keys f) (\<lambda>ks.
       if ks = [] then Inl (NoShapes (fm_name f))
       else rbind (try_tables f stmts None ks) (\<lambda>r. of_option (NoneBinds ks) r))"

text \<open>\<open>load_family\<close>, on the parsed file, \<open>None\<close> when there is none.\<close>

definition load_family :: "string \<Rightarrow> (string \<times> json) list option \<Rightarrow> bind_error + family" where
  "load_family name file =
     (case file of
        None \<Rightarrow> Inl RecordMissing
      | Some raw \<Rightarrow>
          (if map_of raw ''shapes'' = None then Inl FamilyWithoutShapes
           else rbind (py (j_get ''family'' (path_stem (name @ ''.json'')) j_str raw)) (\<lambda>fam.
             Inr \<lparr>fm_name = fam, fm_raw = raw\<rparr>)))"

section \<open>Selection\<close>

definition binds :: "binding \<Rightarrow> string list \<Rightarrow> bool" where
  "binds b stmts = is_ok (bind_all b stmts)"

lemma try_tables_find:
  assumes "rmap (by_key f) ks = Inr bs" and "\<forall>b \<in> set bs. \<forall>e. bind_all b stmts = Inl e \<longrightarrow> binding_error e"
  shows "try_tables f stmts fallback ks =
    Inr (case List.find (\<lambda>b. binds b stmts) bs of
           Some b \<Rightarrow> Some b
         | None \<Rightarrow> (case fallback of Some b \<Rightarrow> Some b | None \<Rightarrow> List.find bn_partial bs))"
  using assms
proof (induction ks arbitrary: bs fallback)
  case (Cons k ks)
  from Cons.prems(1) obtain b bs' where b: "by_key f k = Inr b" and bs': "rmap (by_key f) ks = Inr bs'" and bs: "bs = b # bs'"
    by (auto simp: rbind_Inr_iff)
  have later: "\<forall>b \<in> set bs'. \<forall>e. bind_all b stmts = Inl e \<longrightarrow> binding_error e" using Cons.prems(2) bs by simp
  note ih = Cons.IH [OF bs' later]
  show ?case
  proof (cases "bind_all b stmts")
    case (Inl e)
    then have "binding_error e" using Cons.prems(2) bs by simp
    with Inl b bs ih show ?thesis by (cases fallback; cases "bn_partial b") (auto simp: binds_def split: option.splits)
  next
    case (Inr u)
    with b bs show ?thesis by (simp add: binds_def)
  qed
qed (simp split: option.splits)

text \<open>C27. When the tables of a family can be read, the one that is chosen for a set of statements is the first that
  binds them all; only when none does, the first that is marked partial; and when there is none of these either, or no
  table at all, the shape is reported as not recorded.\<close>

theorem for_statements_selects:
  assumes "keys f = Inr ks" and "rmap (by_key f) ks = Inr bs"
    and "\<forall>b \<in> set bs. \<forall>e. bind_all b stmts = Inl e \<longrightarrow> binding_error e"
  shows "for_statements f stmts =
    (if ks = [] then Inl (NoShapes (fm_name f))
     else case List.find (\<lambda>b. binds b stmts) bs of
       Some b \<Rightarrow> Inr b
     | None \<Rightarrow> (case List.find bn_partial bs of Some b \<Rightarrow> Inr b | None \<Rightarrow> Inl (NoneBinds ks)))"
  using try_tables_find [OF assms(2,3), of None] assms(1)
  by (simp add: for_statements_def split: option.splits)

definition ex_access :: "string \<Rightarrow> string \<Rightarrow> json" where
  "ex_access base dummy = JObj [(''base'', JStr base), (''dummy'', JStr dummy), (''intent'', JStr ''in''), (''rank'', JInt 3)]"

definition ex_family :: family where
  "ex_family = \<lparr>fm_name = ''grad'', fm_raw = [(''shapes'', JObj
     [(''G:x'', JObj [(''accesses'', JList [ex_access ''px'' ''a'']), (''partial'', JBool True)]),
      (''note'', JNull),
      (''G:y'', JObj [(''accesses'', JList [ex_access ''py'' ''b''])])])]\<rparr>"

theorem for_statements_selects_witness:
  "(\<exists>b. for_statements ex_family [''r = py%sf(j)''] = Inr b \<and> bn_key b = ''G:y'') \<and>
   (\<exists>b. for_statements ex_family [''r = pz%sf(j)''] = Inr b \<and> bn_key b = ''G:x'')"
proof -
  obtain bx yb where r: "rmap (by_key ex_family) [''G:x'', ''G:y''] = Inr [bx, yb]" "bn_key bx = ''G:x''" "bn_key yb = ''G:y''" "bn_partial bx"
    "\<forall>e. bind_all bx [''r = py%sf(j)''] = Inl e \<longrightarrow> binding_error e" "\<not> binds bx [''r = py%sf(j)'']" "binds yb [''r = py%sf(j)'']"
    "\<forall>e. bind_all yb [''r = py%sf(j)''] = Inl e \<longrightarrow> binding_error e"
    "\<forall>e. bind_all bx [''r = pz%sf(j)''] = Inl e \<longrightarrow> binding_error e" "\<not> binds bx [''r = pz%sf(j)'']"
    "\<forall>e. bind_all yb [''r = pz%sf(j)''] = Inl e \<longrightarrow> binding_error e" "\<not> binds yb [''r = pz%sf(j)'']"
  proof -
    have "is_ok (by_key ex_family ''G:x'')" "is_ok (by_key ex_family ''G:y'')" by code_simp+
    then obtain bx yb where b: "by_key ex_family ''G:x'' = Inr bx" "by_key ex_family ''G:y'' = Inr yb" by (auto simp: is_ok_iff)
    have "rbind (by_key ex_family ''G:x'') (\<lambda>b. bind_all b [''r = py%sf(j)'']) = Inl (Unbound [''py''])"
      "rbind (by_key ex_family ''G:y'') (\<lambda>b. bind_all b [''r = py%sf(j)'']) = Inr ()"
      "rbind (by_key ex_family ''G:x'') (\<lambda>b. bind_all b [''r = pz%sf(j)'']) = Inl (Unbound [''pz''])"
      "rbind (by_key ex_family ''G:y'') (\<lambda>b. bind_all b [''r = pz%sf(j)'']) = Inl (Unbound [''pz''])"
      "rbind (by_key ex_family ''G:x'') (\<lambda>b. Inr (bn_key b, bn_partial b)) = Inr (''G:x'', True)"
      "rbind (by_key ex_family ''G:y'') (\<lambda>b. Inr (bn_key b)) = Inr ''G:y''"
      by code_simp+
    with b have k: "bind_all bx [''r = py%sf(j)''] = Inl (Unbound [''py''])" "bind_all yb [''r = py%sf(j)''] = Inr ()"
      "bind_all bx [''r = pz%sf(j)''] = Inl (Unbound [''pz''])" "bind_all yb [''r = pz%sf(j)''] = Inl (Unbound [''pz''])"
      "bn_key bx = ''G:x''" "bn_key yb = ''G:y''" "bn_partial bx"
      by simp_all
    show ?thesis by (rule that [of bx yb]) (use k b in \<open>simp_all add: binds_def binding_error_def\<close>)
  qed
  have ks: "keys ex_family = Inr [''G:x'', ''G:y'']" by code_simp
  note sel = for_statements_selects [OF ks r(1)]
  have "for_statements ex_family [''r = py%sf(j)''] = Inr yb" using sel [of "[''r = py%sf(j)'']"] r by simp
  moreover have "for_statements ex_family [''r = pz%sf(j)''] = Inr bx" using sel [of "[''r = pz%sf(j)'']"] r by simp
  ultimately show ?thesis using r(2,3) by blast
qed

section \<open>Renaming\<close>

definition rename_word :: "string \<Rightarrow> string \<times> string \<Rightarrow> string" where
  "rename_word w p = (if w = fst p then snd p else w)"

lemma rename_step_words: "is_name (fst p) \<Longrightarrow> rename_step lv s p = on_words (\<lambda>w. rename_word w p) s"
  using sub_word [of "fst p" "\<lambda>w. if w \<in> set (filter (\<lambda>w. w \<noteq> fst p) (map fst lv @ map snd lv)) then w else snd p" s]
  by (simp add: rename_step_def Let_def rename_word_def cong: if_cong)

lemma rename_steps_words:
  assumes "\<forall>(a, d) \<in> set ps. is_name a \<and> is_name d"
  shows "foldl (rename_step lv) s ps = on_words (\<lambda>w. foldl rename_word w ps) s"
  using assms
proof (induction ps arbitrary: s)
  case Nil
  show ?case by (simp add: on_words_id)
next
  case (Cons p ps)
  then have p: "is_name (fst p)" "is_name (snd p)" by auto
  have n: "is_name w \<Longrightarrow> is_name (rename_word w p)" for w using p(2) by (simp add: rename_word_def)
  show ?case using Cons.IH [of "rename_step lv s p"] Cons.prems
    by (simp add: rename_step_words [OF p(1)] on_words_comp [OF n])
qed

lemma rename_word_later: "d \<notin> fst ` set ps \<Longrightarrow> foldl rename_word d ps = d"
  by (induction ps) (auto simp: rename_word_def)

text \<open>C28. When no loop variable is renamed to one that is renamed after it, the renaming replaces every loop variable by
  its new name at once, as whole words, and leaves all other text alone.\<close>

theorem renamed_at_once:
  assumes "\<forall>(a, d) \<in> set (bn_loop_vars b). is_name a \<and> is_name d" and "distinct (map fst (bn_loop_vars b))"
    and "sorted_wrt (\<lambda>p q. snd p \<noteq> fst q) (bn_loop_vars b)"
  shows "rename_loops b stmt = on_words (\<lambda>w. case map_of (bn_loop_vars b) w of None \<Rightarrow> w | Some d \<Rightarrow> d) stmt"
proof -
  have "foldl rename_word w ps = (case map_of ps w of None \<Rightarrow> w | Some d \<Rightarrow> d)"
    if "distinct (map fst ps)" "sorted_wrt (\<lambda>p q. snd p \<noteq> fst q) ps" for ps w
    using that
  proof (induction ps arbitrary: w)
    case (Cons p ps)
    then have l: "snd p \<notin> fst ` set ps" by auto
    show ?case
    proof (cases "w = fst p")
      case True
      then have "rename_word w p = snd p" by (simp add: rename_word_def)
      with True rename_word_later [OF l] show ?thesis by simp
    next
      case False
      with Cons show ?thesis by (simp add: rename_word_def)
    qed
  qed simp
  with assms show ?thesis by (simp add: rename_loops_def rename_steps_words)
qed

definition ex_binding :: "(string \<times> string) list \<Rightarrow> access list \<Rightarrow> row_loop option \<Rightarrow> binding" where
  "ex_binding lv accs rows = \<lparr>bn_family = [], bn_accesses = accs, bn_loop_vars = lv, bn_bounds = [], bn_rows = rows,
     bn_source_routine = [], bn_partial = False, bn_key = [], bn_library = None, bn_loop_bounds = None, bn_locals = [],
     bn_bounds_from_caller = False, bn_reshape = None, bn_raw = []\<rparr>"

theorem renamed_at_once_witness:
  "rename_loops (ex_binding [(''j'', ''a''), (''k'', ''j'')] [] None) ''q(j, k, jk) = j + k'' = ''q(a, j, jk) = a + j''"
proof -
  let ?b = "ex_binding [(''j'', ''a''), (''k'', ''j'')] [] None"
  have "\<forall>(a, d) \<in> set (bn_loop_vars ?b). is_name a \<and> is_name d" "distinct (map fst (bn_loop_vars ?b))"
    "sorted_wrt (\<lambda>p q. snd p \<noteq> fst q) (bn_loop_vars ?b)"
    by (code_simp, code_simp, simp add: ex_binding_def)
  note renamed_at_once [OF this, of "''q(j, k, jk) = j + k''"]
  also have "on_words (\<lambda>w. case map_of (bn_loop_vars ?b) w of None \<Rightarrow> w | Some d \<Rightarrow> d) ''q(j, k, jk) = j + k'' = ''q(a, j, jk) = a + j''"
    by code_simp
  finally show ?thesis .
qed

text \<open>Two loop variables that are exchanged become one: the second renaming undoes the first, because the names it is to
  skip never include the one it looks for.\<close>

theorem exchange_collapses:
  assumes "is_name a" and "is_name d" and "a \<noteq> d" and "bn_loop_vars b = [(a, d), (d, a)]"
  shows "rename_loops b stmt = on_words (\<lambda>w. if w = d then a else w) stmt"
proof -
  have "rename_loops b stmt = on_words (\<lambda>w. foldl rename_word w [(a, d), (d, a)]) stmt"
    using rename_steps_words [of "[(a, d), (d, a)]" "[(a, d), (d, a)]" stmt] assms by (simp add: rename_loops_def)
  moreover have "(\<lambda>w. foldl rename_word w [(a, d), (d, a)]) = (\<lambda>w. if w = d then a else w)"
    using assms(3) by (auto simp: rename_word_def)
  ultimately show ?thesis by simp
qed

theorem exchange_collapses_witness:
  "rename_loops (ex_binding [(''j'', ''k''), (''k'', ''j'')] [] None) ''q(j, k)'' = ''q(j, j)''"
proof -
  have n: "is_name ''j''" "is_name ''k''" by code_simp+
  have "rename_loops (ex_binding [(''j'', ''k''), (''k'', ''j'')] [] None) ''q(j, k)'' = on_words (\<lambda>w. if w = ''k'' then ''j'' else w) ''q(j, k)''"
    by (rule exchange_collapses [OF n]) (simp_all add: ex_binding_def)
  also have "\<dots> = ''q(j, j)''" by code_simp
  finally show ?thesis .
qed

section \<open>Dummies\<close>

lemma add_dummies:
  "set (map fst (foldl add_dummy out ds)) = set (map fst out) \<union> set (map fst ds) \<and>
   (distinct (map fst out) \<longrightarrow> distinct (map fst (foldl add_dummy out ds))) \<and> set (foldl add_dummy out ds) \<subseteq> set out \<union> set ds"
proof (induction ds arbitrary: out)
  case (Cons d ds)
  show ?case
  proof (cases "fst d \<in> fst ` set out")
    case True
    with Cons.IH [of out] show ?thesis by (auto simp: add_dummy_def)
  next
    case False
    then have "add_dummy out d = out @ [d]" by (simp add: add_dummy_def)
    with False Cons.IH [of "out @ [d]"] show ?thesis by auto
  qed
qed simp

text \<open>The dummies of a table are named once each, and they are those of its accesses, one for every row.\<close>

theorem dummies_once:
  assumes "n = (case bn_rows b of None \<Rightarrow> 1 | Some rw \<Rightarrow> nat (rw_count rw))"
  shows "distinct (map fst (dummies b)) \<and>
    set (map fst (dummies b)) = {dummy_name (r + 1) a | a r. a \<in> set (bn_accesses b) \<and> r < n}"
proof -
  let ?ds = "concat (map (\<lambda>a. map (\<lambda>r. (dummy_name (r + 1) a, ac_rank a, ac_intent a)) [0..<n]) (bn_accesses b))"
  have "map fst ?ds = concat (map (\<lambda>a. map (\<lambda>r. dummy_name (r + 1) a) [0..<n]) (bn_accesses b))"
    by (simp add: map_concat o_def)
  then have "set (map fst ?ds) = {dummy_name (r + 1) a | a r. a \<in> set (bn_accesses b) \<and> r < n}" by (simp only:) (auto, blast)
  moreover have "dummies b = foldl add_dummy [] ?ds" using assms by (simp add: dummies_def)
  ultimately show ?thesis using add_dummies [of "[]" ?ds] by simp
qed

text \<open>A base is looked for without regard to what stands in front of it, so an access to another array whose name
  ends with it is not refused: the end of that name is replaced.\<close>

theorem suffix_taken_for_access:
  "substitute (ex_binding [] [\<lparr>ac_base = ''p'', ac_dummy = ''x'', ac_intent = ''in'', ac_rank = 3\<rparr>] None) ''r = dp%sf(j)'' None =
     Inr ''r = dx(j)''"
proof -
  let ?a = "\<lparr>ac_base = ''p'', ac_dummy = ''x'', ac_intent = ''in'', ac_rank = 3\<rparr>"
  have a: "contains ROW ''p'' = False" "dummy_name 1 ?a = ''x''" by code_simp+
  have s: "re_sub (\<lambda>_. ''x('') (storage_re ''p'') ''r = dp%sf(j)'' = ''r = dx(j)''" by code_simp
  have p: "re_sub (\<lambda>_. ''x'') (plain_array_re ''p'') ''r = dx(j)'' = ''r = dx(j)''" by code_simp
  have l: "accesses_left ''r = dx(j)'' = []" by code_simp
  show ?thesis
    using a s p l by (simp add: substitute_def ex_binding_def longest_first_def bind_storage_def bind_plain_def wanted_base_def)
qed

end
