(* ===== verification/Fortran_Program.thy ===== *)
theory Fortran_Program
  imports Regex
begin

text \<open>
  The reader of \<open>substitute/outside_refs.py\<close>: the statements of a Fortran file and the program's modules, procedures,
  generic names and type bindings. The scopes of a program stand in one list; where the code keeps a reference to a
  scope the model keeps its index there, so that a module read twice gives two scopes, the later one under its name. Sets
  are lists without duplicates. A file is its name and its text.
\<close>

section \<open>Statements\<close>

record statement =
  st_text :: string
  st_line :: nat
  st_guarded :: bool

text \<open>The code of a line: the contents of literals dropped, the comment cut off; and the quote that is still open.\<close>

fun blank_line :: "char option \<Rightarrow> string \<Rightarrow> string \<times> char option" where
  "blank_line q [] = ([], q)"
| "blank_line None (c # s) =
     (if c = CHR 0x27 \<or> c = CHR 0x22 then (let (t, q) = blank_line (Some c) s in (c # t, q))
      else if c = CHR ''!'' then ([], None)
      else (let (t, q) = blank_line None s in (c # t, q)))"
| "blank_line (Some q) (c # s) =
     (if c = q then
        (case s of
           d # t \<Rightarrow> (if d = q then blank_line (Some q) t else (let (t, q') = blank_line None s in (c # t, q')))
         | [] \<Rightarrow> ([c], None))
      else blank_line (Some q) s)"

definition line_code :: "string \<Rightarrow> string" where
  "line_code raw = (let (t, q) = blank_line None raw in rstrip t @ (case q of None \<Rightarrow> [] | Some c \<Rightarrow> [c]))"

definition squeeze :: "string \<Rightarrow> string" where
  "squeeze s = re_sub (\<lambda>_. '' '') (some1 re_space) s"

text \<open>What the loop over the lines carries: the depth of preprocessor conditionals, the statement begun, its first line and
  whether a conditional guards it.\<close>

record line_state =
  ls_depth :: nat
  ls_pending :: string
  ls_start :: nat
  ls_guarded :: bool

definition cpp_depth :: "string \<Rightarrow> nat \<Rightarrow> nat" where
  "cpp_depth stripped d =
     (let word = (case split_ws (tl stripped) of [] \<Rightarrow> [] | w # _ \<Rightarrow> w) in
      if word \<in> {''if'', ''ifdef'', ''ifndef''} then d + 1 else if word = ''endif'' then d - 1 else d)"

definition parts_of :: "string \<Rightarrow> nat \<Rightarrow> bool \<Rightarrow> statement list" where
  "parts_of full start guarded =
     map (\<lambda>part. \<lparr>st_text = squeeze (lower part), st_line = start, st_guarded = guarded\<rparr>)
       (filter (\<lambda>p. p \<noteq> []) (map strip (split_on CHR '';'' full)))"

definition line_step :: "nat \<Rightarrow> string \<Rightarrow> line_state \<Rightarrow> line_state \<times> statement list" where
  "line_step number raw s =
     (if startswith (strip raw) ''#'' then (s\<lparr>ls_depth := cpp_depth (strip raw) (ls_depth s)\<rparr>, [])
      else
        (let s = (if ls_pending s = [] then s\<lparr>ls_start := number, ls_guarded := ls_depth s > 0\<rparr> else s);
             body = strip (line_code raw);
             body = (if ls_pending s \<noteq> [] \<and> startswith body ''&'' then tl body else body)
         in if endswith body ''&'' then (s\<lparr>ls_pending := ls_pending s @ butlast body @ '' ''\<rparr>, [])
            else (s\<lparr>ls_pending := []\<rparr>, parts_of (strip (ls_pending s @ body)) (ls_start s) (ls_guarded s))))"

fun lines_from :: "nat \<Rightarrow> string list \<Rightarrow> line_state \<Rightarrow> statement list" where
  "lines_from number [] s = []"
| "lines_from number (raw # ls) s = (let (s', out) = line_step number raw s in out @ lines_from (number + 1) ls s')"

definition logical_lines :: "string \<Rightarrow> statement list" where
  "logical_lines t = lines_from 1 (splitlines t) \<lparr>ls_depth = 0, ls_pending = [], ls_start = 0, ls_guarded = False\<rparr>"

section \<open>Text helpers\<close>

fun split_top_sep :: "char \<Rightarrow> int \<Rightarrow> string \<Rightarrow> string \<Rightarrow> string list" where
  "split_top_sep sep depth cur [] = [strip cur]"
| "split_top_sep sep depth cur (c # s) =
     (let depth = (if c \<in> set ''(['' then depth + 1 else if c \<in> set '')]'' then depth - 1 else depth) in
      if c = sep \<and> depth = 0 then strip cur # split_top_sep sep depth [] s
      else split_top_sep sep depth (cur @ [c]) s)"

definition split_items :: "string \<Rightarrow> string list" where
  "split_items s = split_top_sep CHR '','' 0 [] s"

text \<open>The closing parenthesis that belongs to the opening one at a position; without one, the last position.\<close>

fun paren_from :: "int \<Rightarrow> nat \<Rightarrow> string \<Rightarrow> nat option" where
  "paren_from depth i [] = None"
| "paren_from depth i (c # s) =
     (if c = CHR ''('' then paren_from (depth + 1) (i + 1) s
      else if c = CHR '')'' then (if depth - 1 = 0 then Some i else paren_from (depth - 1) (i + 1) s)
      else paren_from depth (i + 1) s)"

definition matching_paren :: "string \<Rightarrow> nat \<Rightarrow> nat" where
  "matching_paren s at = (case paren_from 0 at (drop at s) of Some i \<Rightarrow> i | None \<Rightarrow> length s - 1)"

text \<open>\<open>s.split(p, 1)\<close> as the part before and the part behind, if \<open>p\<close> occurs.\<close>

fun split_once :: "string \<Rightarrow> string \<Rightarrow> (string \<times> string) option" where
  "split_once p [] = (if p = [] then Some ([], []) else None)"
| "split_once p (c # s) =
     (if startswith (c # s) p then Some ([], drop (length p) (c # s))
      else map_option (\<lambda>(a, b). (c # a, b)) (split_once p s))"

definition lower_start :: regex where "lower_start = Cls False [(97, 122), (95, 95)]"
definition ident_re :: regex where "ident_re = Seq lower_start (many re_word)"

definition is_ident :: "string \<Rightarrow> bool" where
  "is_ident s = (case s of [] \<Rightarrow> False | c # t \<Rightarrow> in_ranges [(97, 122), (95, 95)] (code c) \<and> list_all is_word t)"

text \<open>The name at the start of an item.\<close>

definition leading_name :: "string \<Rightarrow> string option" where
  "leading_name item = map_option m_text (re_match ident_re item)"

definition starts :: "regex \<Rightarrow> string \<Rightarrow> bool" where
  "starts r s = (re_match r s \<noteq> None)"

definition adds :: "'a list \<Rightarrow> 'a list \<Rightarrow> 'a list" where
  "adds xs ys = fold List.insert ys xs"

lemma set_adds [simp]: "set (adds xs ys) = set xs \<union> set ys"
  by (induction ys arbitrary: xs) (auto simp: adds_def)

fun add_member :: "'k \<Rightarrow> 'v \<Rightarrow> ('k \<times> 'v list) list \<Rightarrow> ('k \<times> 'v list) list" where
  "add_member k v [] = [(k, [v])]"
| "add_member k v ((k', vs) # d) = (if k = k' then (k', List.insert v vs) # d else (k', vs) # add_member k v d)"

definition members :: "'k \<Rightarrow> ('k \<times> 'v list) list \<Rightarrow> 'v list" where
  "members k d = (case map_of d k of None \<Rightarrow> [] | Some vs \<Rightarrow> vs)"

lemma members_simps [simp]: "members k [] = []" "members k ((k', vs) # d) = (if k = k' then vs else members k d)"
  by (simp_all add: members_def)

lemma set_members_add [simp]: "set (members k (add_member k' v d)) = (if k = k' then insert v (set (members k d)) else set (members k d))"
proof (induction d)
  case (Cons p d)
  then show ?case by (cases p; cases "k = fst p"; cases "k' = fst p"; simp)
qed simp

section \<open>Use statements and declarations\<close>

record use_stmt =
  us_module :: string
  us_only :: "(string \<times> string) list option"
  us_renames :: "(string \<times> string) list"

definition local_names :: "use_stmt \<Rightarrow> string list \<Rightarrow> string list" where
  "local_names u exported =
     (case us_only u of
        Some only \<Rightarrow> remdups (map fst (filter (\<lambda>(l, r). r \<in> set exported) only))
      | None \<Rightarrow> adds exported (map fst (filter (\<lambda>(l, r). r \<in> set exported) (us_renames u))))"

definition opt_colons :: regex where "opt_colons = opt (lit ''::'')"

definition USE_STMT_RE :: regex where
  "USE_STMT_RE = seqs [Bol, lit ''use'', Wordb, many re_space,
     opt (seqs [chr_re CHR '','', many re_space, alts [lit ''intrinsic'', lit ''non_intrinsic''], many re_space]), opt_colons,
     many re_space, Grp 1 ident_re, many re_space, opt (seqs [chr_re CHR '','', many re_space, Grp 2 (many re_dot)]), Eol]"

definition ONLY_RE :: regex where
  "ONLY_RE = seqs [Bol, lit ''only'', many re_space, chr_re CHR '':'', many re_space, Grp 1 (many re_dot), Eol]"

definition use_pairs :: "string \<Rightarrow> (string \<times> string) list" where
  "use_pairs s =
     fold (\<lambda>item d.
         let (local, remote) = (case split_once ''=>'' item of Some (a, b) \<Rightarrow> (strip a, strip b) | None \<Rightarrow> (strip item, strip item)) in
         if item \<noteq> [] \<and> is_ident local \<and> is_ident remote then AList.update local remote d else d)
       (split_items s) []"

definition parse_use :: "string \<Rightarrow> use_stmt option" where
  "parse_use s =
     (case re_match USE_STMT_RE s of
        None \<Rightarrow> None
      | Some m \<Rightarrow>
          (case grp m 2 of
             None \<Rightarrow> Some \<lparr>us_module = grp0 m 1, us_only = None, us_renames = []\<rparr>
           | Some rest \<Rightarrow>
               (case re_match ONLY_RE rest of
                  Some o1 \<Rightarrow> Some \<lparr>us_module = grp0 m 1, us_only = Some (use_pairs (grp0 o1 1)), us_renames = []\<rparr>
                | None \<Rightarrow> Some \<lparr>us_module = grp0 m 1, us_only = None, us_renames = use_pairs rest\<rparr>)))"

definition type_words :: "string list" where
  "type_words = [''integer'', ''real'', ''logical'', ''complex'', ''character'']"

definition double_precision :: regex where
  "double_precision = seqs [lit ''double'', some1 re_space, lit ''precision'']"

definition opens :: "string \<Rightarrow> regex" where
  "opens w = seqs [lit w, many re_space, chr_re CHR ''('']"

definition TYPE_DECL_RE :: regex where
  "TYPE_DECL_RE = Seq Bol (Grp 1 (alts (map lit type_words @
     [double_precision, lit ''doubleprecision'', opens ''type'', opens ''class'', opens ''procedure''])))"

definition SELECTOR_RE :: regex where
  "SELECTOR_RE = Seq Bol (Seq (alts [lit ''type'', lit ''class'']) (Seq (many re_space) (chr_re CHR ''('')))"

definition AFTER_TYPE_RE :: regex where
  "AFTER_TYPE_RE = seqs [Bol, some1 re_word, opt (Seq (some1 re_space) (lit ''precision'')), many re_space,
     alts [chr_re CHR ''('', chr_re CHR ''*'', lit ''::'', re_space, chr_re CHR '','']]"

definition parens2 :: regex where
  "parens2 = seqs [chr_re CHR ''('', many (Alt (Cls True [(40, 41)]) (seqs [chr_re CHR ''('', many (Cls True [(40, 41)]), chr_re CHR '')''])),
     chr_re CHR '')'']"

definition OLD_DECL_RE :: regex where
  "OLD_DECL_RE = seqs [Bol, alts [double_precision, some1 re_word], many re_space, opt parens2, many re_space,
     opt (seqs [chr_re CHR ''*'', many re_space, some1 re_digit]), many re_space, Grp 1 (many re_dot), Eol]"

definition leading_names :: "string list \<Rightarrow> string list" where
  "leading_names items = remdups (List.map_filter leading_name items)"

definition declared_entities :: "string \<Rightarrow> string list option" where
  "declared_entities s =
     (if \<not> starts TYPE_DECL_RE s then None
      else if \<not> starts SELECTOR_RE s \<and> \<not> starts AFTER_TYPE_RE s then None
      else Some (leading_names (split_items
        (case split_once ''::'' s of
           Some (_, e) \<Rightarrow> e
         | None \<Rightarrow> (case re_match OLD_DECL_RE s of None \<Rightarrow> [] | Some m \<Rightarrow> grp0 m 1)))))"

definition attribute_words :: "string list" where
  "attribute_words = [''dimension'', ''allocatable'', ''pointer'', ''target'', ''save'', ''parameter'', ''external'', ''intrinsic'',
     ''optional'', ''intent'', ''value'', ''volatile'', ''asynchronous'', ''contiguous'', ''protected'', ''data'']"

definition any_word :: "string list \<Rightarrow> regex" where
  "any_word ws = seqs [Bol, Grp 1 (alts (map lit ws)), Wordb]"

definition ATTR_STMT_RE :: regex where
  "ATTR_STMT_RE = any_word attribute_words"

definition ATTR_HEAD_RE :: regex where
  "ATTR_HEAD_RE = seqs [Bol, some1 re_word, many re_space, opt (seqs [chr_re CHR ''('', many (Cls True [(41, 41)]), chr_re CHR '')''])]"

definition attr_entities :: "string \<Rightarrow> string list" where
  "attr_entities s =
     leading_names (split_items
       (case split_once ''::'' s of Some (_, e) \<Rightarrow> e | None \<Rightarrow> re_sub_first (\<lambda>_. []) ATTR_HEAD_RE s))"

section \<open>Scopes and programs\<close>

datatype scope_kind = Module | Subroutine | Function | Program

record scope =
  sc_name :: string
  sc_kind :: scope_kind
  sc_file :: string
  sc_line :: nat
  sc_module :: "nat option"
  sc_host :: "nat option"
  sc_dummies :: "string list"
  sc_dummy_order :: "string list"
  sc_declared :: "string list"
  sc_guarded_declared :: "string list"
  sc_uses :: "use_stmt list"
  sc_statements :: "statement list"
  sc_bind_c :: bool
  sc_procedures :: "nat list"

record program =
  pg_scopes :: "scope list"
  pg_modules :: "(string \<times> nat) list"
  pg_procedures :: "nat list"
  pg_generics :: "(string \<times> string list) list"
  pg_bound :: "string list"
  pg_bindings :: "(string \<times> string list) list"

definition empty_program :: program where
  "empty_program = \<lparr>pg_scopes = [], pg_modules = [], pg_procedures = [], pg_generics = [], pg_bound = [], pg_bindings = []\<rparr>"

definition new_scope :: "string \<Rightarrow> scope_kind \<Rightarrow> string \<Rightarrow> nat \<Rightarrow> scope" where
  "new_scope name kind file line = \<lparr>sc_name = name, sc_kind = kind, sc_file = file, sc_line = line, sc_module = None, sc_host = None,
     sc_dummies = [], sc_dummy_order = [], sc_declared = [], sc_guarded_declared = [], sc_uses = [], sc_statements = [],
     sc_bind_c = False, sc_procedures = []\<rparr>"

definition on_scope :: "nat \<Rightarrow> (scope \<Rightarrow> scope) \<Rightarrow> program \<Rightarrow> program" where
  "on_scope i f p = p\<lparr>pg_scopes := (pg_scopes p)[i := f (pg_scopes p ! i)]\<rparr>"

definition add_scope :: "scope \<Rightarrow> program \<Rightarrow> program" where
  "add_scope s p = p\<lparr>pg_scopes := pg_scopes p @ [s]\<rparr>"

text \<open>\<open>qualified\<close>: the names from the outermost host to the scope. A host is read before what it contains, so its index is
  smaller.\<close>

function host_chain :: "program \<Rightarrow> nat \<Rightarrow> nat list" where
  "host_chain p i = i # (case sc_host (pg_scopes p ! i) of Some h \<Rightarrow> (if h < i then host_chain p h else []) | None \<Rightarrow> [])"
  by pat_completeness auto
termination
  by (relation "measure snd") auto

declare host_chain.simps [simp del]

definition qualified_name :: "program \<Rightarrow> nat \<Rightarrow> string" where
  "qualified_name p i = join ''::'' (map (\<lambda>j. sc_name (pg_scopes p ! j)) (rev (host_chain p i)))"

section \<open>Reading a file\<close>

record reader =
  rd_stack :: "nat list"                     \<comment> \<open>the innermost scope first\<close>
  rd_interfaces :: "string option list"      \<comment> \<open>the open interface blocks, the innermost first\<close>
  rd_interface_depth :: nat
  rd_type_depth :: nat
  rd_blocks :: "(nat \<times> nat) list"
  rd_program :: program

definition word_at_start :: "regex \<Rightarrow> regex" where
  "word_at_start r = seqs [Bol, r, Wordb]"

definition end_of :: "string \<Rightarrow> regex" where
  "end_of w = seqs [lit ''end'', many re_space, lit w]"

definition BINDING_RE :: regex where
  "BINDING_RE = seqs [Bol, Grp 1 (alts (map lit [''procedure'', ''generic'', ''final''])), Wordb, many (Cls True [(58, 58)]), lit ''::'',
     many re_space, Grp 2 (many re_dot), Eol]"

definition INTERFACE_RE :: regex where
  "INTERFACE_RE = seqs [Bol, Grp 1 (opt (Seq (lit ''abstract'') (some1 re_space))), lit ''interface'', Wordb, many re_space, Grp 2 (many re_dot), Eol]"

definition INTERFACE_HEAD_RE :: regex where
  "INTERFACE_HEAD_RE = seqs [Bol, opt (Seq (lit ''abstract'') (some1 re_space)), lit ''interface'', Wordb]"

definition MODULE_PROC_RE :: regex where
  "MODULE_PROC_RE = seqs [Bol, opt (Seq (lit ''module'') (some1 re_space)), lit ''procedure'', many re_space, opt_colons, many re_space,
     Grp 1 (many re_dot), Eol]"

definition TYPE_DEF_RE :: regex where
  "TYPE_DEF_RE = seqs [Bol, lit ''type'', many re_space, opt (Seq (chr_re CHR '','') (many (Cls True [(58, 58)]))), opt_colons, many re_space,
     ident_re, many re_space, opt (seqs [chr_re CHR ''('', many re_dot, chr_re CHR '')'']), Eol]"

definition TYPE_USE_RE :: regex where
  "TYPE_USE_RE = Seq Bol (Alt (opens ''type'') (seqs [lit ''type'', some1 re_space, lit ''is'', Wordb]))"

definition MODULE_RE :: regex where
  "MODULE_RE = seqs [Bol, lit ''module'', some1 re_space,
     Look False (alts (map (\<lambda>w. Seq (lit w) Wordb) [''procedure'', ''subroutine'', ''function''])), Grp 1 ident_re, Eol]"

definition PROGRAM_RE :: regex where
  "PROGRAM_RE = seqs [Bol, lit ''program'', some1 re_space, Grp 1 ident_re, Eol]"

definition prefix_re :: regex where
  "prefix_re = many (Alt
     (Seq (alts (map lit [''pure'', ''impure'', ''elemental'', ''recursive'', ''non_recursive'', ''module'', ''simple''])) (some1 re_space))
     (seqs [alts (map lit type_words @ [double_precision, lit ''type'', lit ''class'']), many re_space, opt parens2, many re_space,
        opt (seqs [chr_re CHR ''*'', many re_space, some1 re_digit, many re_space])]))"

definition PROC_START_RE :: regex where
  "PROC_START_RE = seqs [Bol, prefix_re, Grp 1 (Alt (lit ''subroutine'') (lit ''function'')), some1 re_space, Grp 2 ident_re, many re_space,
     opt (seqs [chr_re CHR ''('', Grp 3 (many (Cls True [(41, 41)])), chr_re CHR '')'']), Grp 4 (many re_dot), Eol]"

definition RESULT_RE :: regex where
  "RESULT_RE = seqs [Wordb, lit ''result'', many re_space, chr_re CHR ''('', many re_space, Grp 1 ident_re, many re_space, chr_re CHR '')'']"

definition BIND_C_RE :: regex where
  "BIND_C_RE = seqs [Wordb, lit ''bind'', many re_space, chr_re CHR ''('', many re_space, lit ''c'', Wordb]"

definition END_UNIT_RE :: regex where
  "END_UNIT_RE = seqs [Bol, lit ''end'', many re_space,
     opt (Grp 1 (alts (map lit [''subroutine'', ''function'', ''module'', ''program'', ''submodule'']))), Wordb,
     opt (Grp 2 (Seq (some1 re_space) (some1 re_word))), Eol]"

definition construct_words :: "string list" where
  "construct_words = [''if'', ''do'', ''select'', ''block'', ''where'', ''forall'', ''associate'', ''type'', ''interface'', ''critical'', ''enum'', ''team'']"

definition END_CONSTRUCT_RE :: regex where
  "END_CONSTRUCT_RE = seqs [Bol, lit ''end'', many re_space, Grp 1 (alts (map lit construct_words)), Wordb]"

definition BLOCK_RE :: regex where
  "BLOCK_RE = seqs [Bol, opt (seqs [ident_re, many re_space, chr_re CHR '':'', many re_space]), lit ''block'', Eol]"

text \<open>The specifics a line of a derived type's procedure part binds.\<close>

definition bind_item :: "string \<Rightarrow> program \<Rightarrow> program" where
  "bind_item item p =
     (let (bname, impls) = (case split_once ''=>'' item of Some (a, b) \<Rightarrow> (strip a, strip b) | None \<Rightarrow> (strip item, strip item)) in
      fold (\<lambda>impl p. p\<lparr>pg_bindings := add_member bname impl (pg_bindings p), pg_bound := List.insert impl (pg_bound p)\<rparr>)
        (split_items impls) p)"

definition in_type :: "string \<Rightarrow> reader \<Rightarrow> reader" where
  "in_type s r =
     (if starts (word_at_start (end_of ''type'')) s then r\<lparr>rd_type_depth := rd_type_depth r - 1\<rparr>
      else case re_match BINDING_RE s of
        None \<Rightarrow> r
      | Some m \<Rightarrow> r\<lparr>rd_program := fold bind_item (split_items (grp0 m 2)) (rd_program r)\<rparr>)"

definition name_specific :: "string option \<Rightarrow> string \<Rightarrow> program \<Rightarrow> program" where
  "name_specific generic n p =
     (case generic of
        Some g \<Rightarrow>
          (if startswith g ''operator'' \<or> startswith g ''assignment'' then p\<lparr>pg_bound := List.insert n (pg_bound p)\<rparr>
           else p\<lparr>pg_generics := add_member g n (pg_generics p)\<rparr>)
      | None \<Rightarrow> p\<lparr>pg_bound := List.insert n (pg_bound p)\<rparr>)"

definition in_interface :: "string \<Rightarrow> reader \<Rightarrow> reader" where
  "in_interface s r =
     (if starts (word_at_start (end_of ''interface'')) s
      then r\<lparr>rd_interface_depth := rd_interface_depth r - 1, rd_interfaces := tl (rd_interfaces r)\<rparr>
      else if starts INTERFACE_HEAD_RE s
      then r\<lparr>rd_interface_depth := rd_interface_depth r + 1, rd_interfaces := None # rd_interfaces r\<rparr>
      else case re_match MODULE_PROC_RE s of
        None \<Rightarrow> r
      | Some m \<Rightarrow>
          r\<lparr>rd_program := fold (name_specific (hd (rd_interfaces r))) (filter is_ident (split_items (grp0 m 1))) (rd_program r)\<rparr>)"

definition open_interface :: "statement \<Rightarrow> rmatch \<Rightarrow> reader \<Rightarrow> reader" where
  "open_interface st m r =
     (let spec = filter (\<lambda>c. c \<noteq> CHR '' '') (strip (grp0 m 2));
          r = r\<lparr>rd_interface_depth := 1, rd_interfaces := [if spec = [] then None else Some spec]\<rparr>
      in case rd_stack r of
           [] \<Rightarrow> r
         | i # _ \<Rightarrow> r\<lparr>rd_program := on_scope i (\<lambda>sc. sc\<lparr>sc_statements := sc_statements sc @ [st]\<rparr>) (rd_program r)\<rparr>)"

definition open_unit :: "string \<Rightarrow> scope_kind \<Rightarrow> string \<Rightarrow> nat \<Rightarrow> reader \<Rightarrow> reader" where
  "open_unit name kind file line r =
     (let i = length (pg_scopes (rd_program r)); p = add_scope (new_scope name kind file line) (rd_program r)
      in r\<lparr>rd_stack := [i],
           rd_program := (if kind = Module then p\<lparr>pg_modules := AList.update name i (pg_modules p)\<rparr>
                          else p\<lparr>pg_procedures := pg_procedures p @ [i]\<rparr>)\<rparr>)"

definition dummy_list :: "string \<Rightarrow> string list" where
  "dummy_list args = filter (\<lambda>a. a \<noteq> [] \<and> a \<noteq> ''*'') (map strip (split_on CHR '','' args))"

definition open_procedure :: "string \<Rightarrow> nat \<Rightarrow> rmatch \<Rightarrow> reader \<Rightarrow> reader" where
  "open_procedure file line m r =
     (let p = rd_program r; i = length (pg_scopes p); name = grp0 m 2; rest = grp0 m 4;
          host = (case rd_stack r of [] \<Rightarrow> None | h # _ \<Rightarrow> Some h);
          module = (case host of
                      None \<Rightarrow> None
                    | Some h \<Rightarrow> (if sc_kind (pg_scopes p ! h) = Module then Some h else sc_module (pg_scopes p ! h)));
          order = dummy_list (grp0 m 3);
          kind = (if grp0 m 1 = ''function'' then Function else Subroutine);
          result = (if kind = Function
                    then [case re_search RESULT_RE rest of Some q \<Rightarrow> grp0 q 1 | None \<Rightarrow> name] else []);
          sc = (new_scope name kind file line)\<lparr>sc_module := module, sc_host := host, sc_dummies := remdups order, sc_dummy_order := order,
                 sc_declared := adds (remdups order) result, sc_bind_c := (re_search BIND_C_RE rest \<noteq> None)\<rparr>;
          p = add_scope sc p;
          p = (case host of None \<Rightarrow> p | Some h \<Rightarrow> on_scope h (\<lambda>q. q\<lparr>sc_procedures := sc_procedures q @ [i]\<rparr>) p)
      in r\<lparr>rd_stack := i # rd_stack r, rd_program := p\<lparr>pg_procedures := pg_procedures p @ [i]\<rparr>\<rparr>)"

definition block_count :: "nat \<Rightarrow> reader \<Rightarrow> nat" where
  "block_count i r = (case map_of (rd_blocks r) i of None \<Rightarrow> 0 | Some n \<Rightarrow> n)"

definition count_blocks :: "string \<Rightarrow> nat \<Rightarrow> reader \<Rightarrow> reader" where
  "count_blocks s i r =
     (if starts BLOCK_RE s then r\<lparr>rd_blocks := AList.update i (block_count i r + 1) (rd_blocks r)\<rparr>
      else if starts (word_at_start (end_of ''block'')) s then r\<lparr>rd_blocks := AList.update i (block_count i r - 1) (rd_blocks r)\<rparr>
      else r)"

definition statement_names :: "string \<Rightarrow> string list" where
  "statement_names s =
     (case declared_entities s of
        Some ns \<Rightarrow> ns
      | None \<Rightarrow> (if starts ATTR_STMT_RE s \<and> \<not> starts (any_word [''data'']) s then attr_entities s else []))"

text \<open>A statement of the innermost scope: a use, a declaration or any other.\<close>

definition in_scope :: "statement \<Rightarrow> nat \<Rightarrow> reader \<Rightarrow> reader" where
  "in_scope st i r =
     (let s = st_text st; r = count_blocks s i r; keep = (\<lambda>sc. sc\<lparr>sc_statements := sc_statements sc @ [st]\<rparr>) in
      case parse_use s of
        Some u \<Rightarrow> r\<lparr>rd_program := on_scope i (\<lambda>sc. keep (sc\<lparr>sc_uses := sc_uses sc @ [u]\<rparr>)) (rd_program r)\<rparr>
      | None \<Rightarrow>
          (let names = statement_names s;
               note_names = (if st_guarded st \<or> block_count i r > 0
                           then (\<lambda>sc. sc\<lparr>sc_guarded_declared := adds (sc_guarded_declared sc) names\<rparr>)
                           else (\<lambda>sc. sc\<lparr>sc_declared := adds (sc_declared sc) names\<rparr>))
           in r\<lparr>rd_program := on_scope i (keep \<circ> note_names) (rd_program r)\<rparr>))"

definition read_statement :: "string \<Rightarrow> statement \<Rightarrow> reader \<Rightarrow> reader" where
  "read_statement file st r =
     (let s = st_text st in
      if rd_type_depth r > 0 then in_type s r
      else if rd_interface_depth r > 0 then in_interface s r
      else case re_match INTERFACE_RE s of
        Some m \<Rightarrow> open_interface st m r
      | None \<Rightarrow>
      if starts TYPE_DEF_RE s \<and> \<not> starts TYPE_USE_RE s then r\<lparr>rd_type_depth := 1\<rparr>
      else case re_match MODULE_RE s of
        Some m \<Rightarrow> open_unit (grp0 m 1) Module file (st_line st) r
      | None \<Rightarrow>
      case re_match PROGRAM_RE s of
        Some m \<Rightarrow> open_unit (grp0 m 1) Program file (st_line st) r
      | None \<Rightarrow>
      case (if startswith s ''end'' \<or> startswith s ''call'' then None else re_match PROC_START_RE s) of
        Some m \<Rightarrow> open_procedure file (st_line st) m r
      | None \<Rightarrow>
      if starts END_UNIT_RE s \<and> \<not> starts END_CONSTRUCT_RE s then r\<lparr>rd_stack := tl (rd_stack r)\<rparr>
      else case rd_stack r of
        [] \<Rightarrow> r
      | i # _ \<Rightarrow> (if s = ''contains'' then r else in_scope st i r))"

definition parse_file :: "string \<times> string \<Rightarrow> program \<Rightarrow> program" where
  "parse_file f p =
     rd_program (fold (read_statement (fst f)) (logical_lines (snd f))
       \<lparr>rd_stack = [], rd_interfaces = [], rd_interface_depth = 0, rd_type_depth = 0, rd_blocks = [], rd_program = p\<rparr>)"

definition parse_sources :: "(string \<times> string) list \<Rightarrow> program" where
  "parse_sources files = fold parse_file files empty_program"

end
