(* ===== verification/Call_Tree.thy ===== *)
theory Call_Tree
  imports Fortran_Program
begin

text \<open>
  The two closures of \<open>substitute/outside_refs.py\<close> over the procedures of a program: the procedures that run only inside
  the calls of one routine (\<open>exclusive_procedures\<close>), and the procedures that may keep a pointer to an argument
  (\<open>escaping_procedures\<close>). Both are loops until nothing changes. The order in which Python runs through a set is not
  defined; it is the parameter \<open>ord\<close> of the first.
\<close>

section \<open>Names in statements\<close>

definition ID_RE :: regex where
  "ID_RE = Seq lower_start (many (Cls False [(97, 122), (48, 57), (95, 95)]))"

definition token_at :: "string \<Rightarrow> rmatch \<Rightarrow> bool" where
  "token_at s m =
     (\<not> endswith (rstrip (take (m_start m) s)) ''%'' \<and>
      \<not> (m_start m > 0 \<and> (is_alnum (s ! (m_start m - 1)) \<or> s ! (m_start m - 1) \<in> set ''_.'')))"

definition tokens :: "string \<Rightarrow> (nat \<times> string) list" where
  "tokens s = map (\<lambda>m. (m_start m, m_text m)) (filter (token_at s) (re_finditer ID_RE s))"

definition token_names :: "string \<Rightarrow> string list" where
  "token_names s = map snd (tokens s)"

definition NAMES_ONLY_RE :: regex where
  "NAMES_ONLY_RE = any_word [''public'', ''private'', ''save'', ''target'', ''allocatable'', ''pointer'', ''protected'', ''volatile'',
     ''asynchronous'', ''contiguous'', ''dimension'', ''import'', ''implicit'', ''use'']"

definition PROCEDURE_RE :: regex where
  "PROCEDURE_RE = seqs [Bol, opt (Grp 1 (Seq (lit ''module'') (some1 re_space))), lit ''procedure'', Wordb]"

text \<open>\<open>_top_level\<close>: the first place of an operator outside parentheses and brackets. An equals sign that is part of
  another operator is passed over.\<close>

fun top_from :: "string \<Rightarrow> int \<Rightarrow> char option \<Rightarrow> nat \<Rightarrow> string \<Rightarrow> nat option" where
  "top_from oper depth prev i [] = None"
| "top_from oper depth prev i (c # s) =
     (if c \<in> set ''(['' then top_from oper (depth + 1) (Some c) (i + 1) s
      else if c \<in> set '')]'' then top_from oper (depth - 1) (Some c) (i + 1) s
      else if depth = 0 \<and> startswith (c # s) oper \<and>
        \<not> (oper = ''='' \<and> ((s \<noteq> [] \<and> hd s \<in> set ''=>'') \<or> (case prev of None \<Rightarrow> False | Some x \<Rightarrow> x \<in> set ''=<>/'')))
      then Some i
      else top_from oper depth (Some c) (i + 1) s)"

definition top_level :: "string \<Rightarrow> string \<Rightarrow> nat option" where
  "top_level s oper = top_from oper 0 None 0 s"

definition BASE_RE :: regex where "BASE_RE = Seq (many re_space) (Grp 1 ident_re)"

definition base_name :: "string \<Rightarrow> string option" where
  "base_name e = map_option (\<lambda>m. grp0 m 1) (re_match BASE_RE e)"

definition address_words :: "string list" where "address_words = [''c_loc'', ''loc'', ''c_funloc'']"

definition call_of_re :: "string list \<Rightarrow> regex" where
  "call_of_re fns = seqs [Wordb, Grp 1 (alts (map lit fns)), many re_space, chr_re CHR ''('']"

text \<open>The argument lists of the calls of some functions: the text between the parentheses.\<close>

definition call_arguments :: "string list \<Rightarrow> string \<Rightarrow> string list" where
  "call_arguments fns s =
     map (\<lambda>m. take (matching_paren s (m_end m - 1) - m_end m) (drop (m_end m) s)) (re_finditer (call_of_re fns) s)"

section \<open>Calls\<close>

definition procs_named :: "program \<Rightarrow> string \<Rightarrow> nat list" where
  "procs_named p n = filter (\<lambda>i. sc_name (pg_scopes p ! i) = n) (pg_procedures p)"

definition component_names :: "string \<Rightarrow> string list" where
  "component_names s =
     List.map_filter (\<lambda>m. map_option m_text (re_match ID_RE (drop (m_end m) s)))
       (re_finditer (Seq (chr_re CHR ''%'') (many re_space)) s)"

definition statement_targets :: "program \<Rightarrow> string \<Rightarrow> nat list" where
  "statement_targets p s =
     concat (map (\<lambda>tok. concat (map (procs_named p) (tok # members tok (pg_generics p)))) (token_names s)) @
     concat (map (\<lambda>c. concat (map (procs_named p) (members c (pg_bindings p)))) (component_names s))"

definition callees :: "program \<Rightarrow> nat \<Rightarrow> nat list" where
  "callees p i = remdups (concat (map (\<lambda>st. statement_targets p (st_text st)) (sc_statements (pg_scopes p ! i))))"

text \<open>A procedure's name that is neither called nor followed by its arguments is handed on.\<close>

definition taken_in :: "program \<Rightarrow> string \<Rightarrow> string list" where
  "taken_in p s =
     (if starts NAMES_ONLY_RE s \<or> starts PROCEDURE_RE s then []
      else map snd (filter (\<lambda>(pos, tok). procs_named p tok \<noteq> [] \<and>
          \<not> startswith (lstrip (drop (pos + length tok) s)) ''('' \<and> \<not> endswith (rstrip (take pos s)) ''call'') (tokens s)))"

definition address_taken :: "program \<Rightarrow> string list" where
  "address_taken p =
     concat (map (\<lambda>i. concat (map (\<lambda>st. taken_in p (st_text st)) (sc_statements (pg_scopes p ! i)))) (pg_procedures p))"

definition callers :: "program \<Rightarrow> nat \<Rightarrow> nat list" where
  "callers p t = filter (\<lambda>q. t \<in> set (callees p q)) (pg_procedures p)"

section \<open>The exclusive call tree\<close>

partial_function (option) spread :: "('a \<Rightarrow> 'a list) \<Rightarrow> 'a list \<Rightarrow> 'a list \<Rightarrow> 'a list option" where
  "spread succs inside frontier =
     (case frontier of
        [] \<Rightarrow> Some inside
      | f # fr \<Rightarrow> (let new = filter (\<lambda>t. t \<notin> set inside) (succs f) in spread succs (inside @ new) (rev new @ fr)))"

definition excluded :: "program \<Rightarrow> string list \<Rightarrow> nat \<Rightarrow> bool" where
  "excluded p outside i =
     (let s = pg_scopes p ! i in
      sc_kind s = Program \<or> sc_bind_c s \<or> sc_name s \<in> set (pg_bound p) \<or> sc_name s \<in> set (address_taken p) \<or>
      sc_name s \<in> set (map lower outside))"

text \<open>One procedure of a round, and the round; whether anything changed is whether a procedure went.\<close>

definition prune_one :: "('a \<Rightarrow> bool) \<Rightarrow> ('a \<Rightarrow> 'a list) \<Rightarrow> 'a \<Rightarrow> 'a \<Rightarrow> 'a list \<Rightarrow> 'a list" where
  "prune_one excl callers_of routine i inside =
     (if i = routine then inside
      else if excl i \<or> \<not> set (callers_of i) \<subseteq> set inside then removeAll i inside else inside)"

definition prune_round :: "('a list \<Rightarrow> 'a list) \<Rightarrow> ('a \<Rightarrow> bool) \<Rightarrow> ('a \<Rightarrow> 'a list) \<Rightarrow> 'a \<Rightarrow> 'a list \<Rightarrow> 'a list" where
  "prune_round ord excl callers_of routine inside = fold (prune_one excl callers_of routine) (ord inside) inside"

lemma prune_one_length: "length (prune_one excl cs r i xs) \<le> length xs"
  by (simp add: prune_one_def length_removeAll_less_eq)

lemma prune_fold_length: "length (fold (prune_one excl cs r) is xs) \<le> length xs"
  by (induction "is" arbitrary: xs) (auto intro: order_trans prune_one_length)

function prune :: "('a list \<Rightarrow> 'a list) \<Rightarrow> ('a \<Rightarrow> bool) \<Rightarrow> ('a \<Rightarrow> 'a list) \<Rightarrow> 'a \<Rightarrow> 'a list \<Rightarrow> 'a list" where
  "prune ord excl callers_of routine inside =
     (let next = prune_round ord excl callers_of routine inside in
      if length next < length inside then prune ord excl callers_of routine next else next)"
  by pat_completeness auto
termination
  by (relation "measure (\<lambda>(ord, excl, cs, r, inside). length inside)") auto

declare prune.simps [simp del]

definition exclusive_procedures :: "(nat list \<Rightarrow> nat list) \<Rightarrow> program \<Rightarrow> nat \<Rightarrow> string list \<Rightarrow> nat list option" where
  "exclusive_procedures ord p routine outside =
     map_option (prune ord (excluded p outside) (callers p) routine) (spread (callees p) [routine] [routine])"

section \<open>Escaping procedures\<close>

definition LEAVES_RE :: regex where
  "LEAVES_RE = any_word [''associate'', ''use'', ''procedure'', ''select'']"

text \<open>A statement that points at a dummy or takes its address.\<close>

definition keeps_dummy :: "string list \<Rightarrow> string \<Rightarrow> bool" where
  "keeps_dummy dummies s =
     ((case top_level s ''=>'' of
         None \<Rightarrow> False
       | Some a \<Rightarrow> a > 0 \<and> (case base_name (drop (a + 2) s) of None \<Rightarrow> False | Some b \<Rightarrow> b \<in> set dummies) \<and> \<not> starts LEAVES_RE s) \<or>
      list_ex (\<lambda>args. list_ex (\<lambda>t. t \<in> set dummies) (token_names args)) (call_arguments address_words s))"

definition first_escapes :: "program \<Rightarrow> nat \<Rightarrow> bool" where
  "first_escapes p i =
     (let sc = pg_scopes p ! i in list_ex (\<lambda>st. keeps_dummy (sc_dummies sc) (st_text st)) (sc_statements sc))"

text \<open>A statement that has a dummy and another escaping procedure's name in it.\<close>

definition passes_on :: "program \<Rightarrow> string list \<Rightarrow> nat \<Rightarrow> bool" where
  "passes_on p escaping i =
     (let sc = pg_scopes p ! i in
      list_ex (\<lambda>st. list_ex (\<lambda>t. t \<in> set (sc_dummies sc)) (token_names (st_text st)) \<and>
                    list_ex (\<lambda>t. t \<in> set escaping \<and> t \<noteq> sc_name sc) (token_names (st_text st))) (sc_statements sc))"

definition escape_step :: "program \<Rightarrow> nat \<Rightarrow> string list \<Rightarrow> string list" where
  "escape_step p i escaping =
     (let n = sc_name (pg_scopes p ! i) in
      if n \<in> set escaping \<or> sc_dummies (pg_scopes p ! i) = [] then escaping
      else if passes_on p escaping i then escaping @ [n] else escaping)"

definition escape_round :: "program \<Rightarrow> string list \<Rightarrow> string list" where
  "escape_round p escaping = fold (escape_step p) (pg_procedures p) escaping"

definition proc_names :: "program \<Rightarrow> string set" where
  "proc_names p = (\<lambda>i. sc_name (pg_scopes p ! i)) ` set (pg_procedures p)"

lemma escape_step_grows: "\<exists>new. escape_step p i es = es @ new \<and> set new \<subseteq> {sc_name (pg_scopes p ! i)} - set es"
  by (auto simp: escape_step_def Let_def)

lemma escape_fold_grows:
  "\<exists>new. fold (escape_step p) is es = es @ new \<and> set new \<subseteq> (\<lambda>i. sc_name (pg_scopes p ! i)) ` set is - set es"
proof (induction "is" arbitrary: es)
  case (Cons i "is")
  obtain n1 where n1: "escape_step p i es = es @ n1" "set n1 \<subseteq> {sc_name (pg_scopes p ! i)} - set es" using escape_step_grows by blast
  obtain n2 where n2: "fold (escape_step p) is (es @ n1) = (es @ n1) @ n2"
    "set n2 \<subseteq> (\<lambda>i. sc_name (pg_scopes p ! i)) ` set is - set (es @ n1)" using Cons.IH by blast
  have "fold (escape_step p) (i # is) es = es @ (n1 @ n2)" using n1(1) n2(1) by simp
  moreover have "set (n1 @ n2) \<subseteq> (\<lambda>i. sc_name (pg_scopes p ! i)) ` set (i # is) - set es" using n1(2) n2(2) by auto
  ultimately show ?case by blast
qed simp

function escape_rounds :: "program \<Rightarrow> string list \<Rightarrow> string list" where
  "escape_rounds p escaping =
     (let next = escape_round p escaping in if length escaping < length next then escape_rounds p next else next)"
  by pat_completeness auto
termination
proof (relation "measure (\<lambda>(p, es). card (proc_names p - set es))")
  fix p es x
  assume x: "x = escape_round p es" "length es < length x"
  obtain new where n: "x = es @ new" "set new \<subseteq> proc_names p - set es"
    using escape_fold_grows [of p "pg_procedures p" es] x(1) unfolding escape_round_def proc_names_def by blast
  with x(2) obtain a where "a \<in> set new" by (cases new) auto
  with n have "a \<in> proc_names p - set es" "a \<notin> proc_names p - set x" "proc_names p - set x \<subseteq> proc_names p - set es" by auto
  then have "proc_names p - set x \<subset> proc_names p - set es" by blast
  then show "((p, x), p, es) \<in> measure (\<lambda>(p, es). card (proc_names p - set es))"
    by (simp add: psubset_card_mono proc_names_def)
qed simp

declare escape_rounds.simps [simp del]

definition escaping_procedures :: "program \<Rightarrow> string list" where
  "escaping_procedures p =
     escape_rounds p (remdups (map (\<lambda>i. sc_name (pg_scopes p ! i)) (filter (first_escapes p) (pg_procedures p))))"

section \<open>What the closures are\<close>

definition step_rel :: "('a \<Rightarrow> 'a list) \<Rightarrow> ('a \<times> 'a) set" where
  "step_rel succs = {(a, b). b \<in> set (succs a)}"

lemma spread_closed:
  assumes "finite R" and "set inside \<subseteq> R" and "\<And>a b. a \<in> R \<Longrightarrow> b \<in> set (succs a) \<Longrightarrow> b \<in> R"
    and "set frontier \<subseteq> set inside" and "\<forall>a \<in> set inside - set frontier. set (succs a) \<subseteq> set inside"
  shows "\<exists>S. spread succs inside frontier = Some S \<and> set S = (step_rel succs)\<^sup>* `` set inside"
  using assms(2,4,5)
proof (induction "(card (R - set inside), length frontier)" arbitrary: inside frontier
    rule: wf_induct_rule [where r = "less_than <*lex*> less_than", OF wf_lex_prod [OF wf_less_than wf_less_than]])
  case (1 inside frontier)
  show ?case
  proof (cases frontier)
    case Nil
    have "(step_rel succs)\<^sup>* `` set inside = set inside"
    proof
      show "(step_rel succs)\<^sup>* `` set inside \<subseteq> set inside"
      proof
        fix x assume "x \<in> (step_rel succs)\<^sup>* `` set inside"
        then obtain a where "(a, x) \<in> (step_rel succs)\<^sup>*" "a \<in> set inside" by blast
        then show "x \<in> set inside"
          by (induction rule: rtrancl_induct) (use 1(4) Nil in \<open>auto simp: step_rel_def\<close>)
      qed
    qed blast
    with Nil show ?thesis by (simp add: spread.simps)
  next
    case (Cons f fr)
    define new where "new = filter (\<lambda>t. t \<notin> set inside) (succs f)"
    have eq: "spread succs inside frontier = spread succs (inside @ new) (rev new @ fr)"
      unfolding Cons new_def by (subst spread.simps) (simp add: Let_def)
    have f: "f \<in> set inside" using 1(3) Cons by simp
    have sub: "set (inside @ new) \<subseteq> R" using 1(2) f assms(3) by (auto simp: new_def)
    have fr: "set (rev new @ fr) \<subseteq> set (inside @ new)" using 1(3) Cons by auto
    have cl: "\<forall>a \<in> set (inside @ new) - set (rev new @ fr). set (succs a) \<subseteq> set (inside @ new)"
      using 1(4) Cons by (auto simp: new_def)
    have less: "((card (R - set (inside @ new)), length (rev new @ fr)), (card (R - set inside), length frontier)) \<in> less_than <*lex*> less_than"
    proof (cases "new = []")
      case True
      then show ?thesis using Cons by simp
    next
      case False
      then obtain b where "b \<in> set new" by (cases new) auto
      then have "b \<in> R - set inside" "b \<notin> R - set (inside @ new)" using sub by (auto simp: new_def)
      then have "R - set (inside @ new) \<subset> R - set inside" by auto
      then show ?thesis using assms(1) by (simp add: psubset_card_mono)
    qed
    from 1(1) [OF less sub fr cl] obtain S where S: "spread succs (inside @ new) (rev new @ fr) = Some S"
      "set S = (step_rel succs)\<^sup>* `` set (inside @ new)" by blast
    have "(step_rel succs)\<^sup>* `` set (inside @ new) = (step_rel succs)\<^sup>* `` set inside"
    proof -
      have "set new \<subseteq> (step_rel succs)\<^sup>* `` set inside" using f by (auto simp: new_def step_rel_def)
      then show ?thesis by (auto intro: rtrancl_trans)
    qed
    with S eq show ?thesis by simp
  qed
qed

text \<open>A set of procedures that all run inside: apart from the routine none is excluded, and none has a caller outside.\<close>

definition runs_inside :: "('a \<Rightarrow> bool) \<Rightarrow> ('a \<Rightarrow> 'a list) \<Rightarrow> 'a \<Rightarrow> 'a set \<Rightarrow> bool" where
  "runs_inside excl cs r X \<longleftrightarrow> (\<forall>i \<in> X. i = r \<or> (\<not> excl i \<and> set (cs i) \<subseteq> X))"

lemma prune_one_subset: "set (prune_one excl cs r i xs) \<subseteq> set xs"
  by (auto simp: prune_one_def)

lemma prune_one_keeps: "runs_inside excl cs r X \<Longrightarrow> X \<subseteq> set xs \<Longrightarrow> X \<subseteq> set (prune_one excl cs r i xs)"
  by (fastforce simp: prune_one_def runs_inside_def)

lemma prune_fold_bounds:
  "set (fold (prune_one excl cs r) is xs) \<subseteq> set xs \<and>
   (runs_inside excl cs r X \<longrightarrow> X \<subseteq> set xs \<longrightarrow> X \<subseteq> set (fold (prune_one excl cs r) is xs))"
proof (induction "is" arbitrary: xs)
  case (Cons i "is")
  from Cons.IH [of "prune_one excl cs r i xs"] prune_one_subset [of excl cs r i xs] prune_one_keeps [of excl cs r X xs i]
  show ?case by (auto simp del: prune_one_def)
qed simp

lemma prune_fold_fixed:
  "length (fold (prune_one excl cs r) is xs) = length xs \<Longrightarrow>
     fold (prune_one excl cs r) is xs = xs \<and> (\<forall>i \<in> set is \<inter> set xs. i = r \<or> (\<not> excl i \<and> set (cs i) \<subseteq> set xs))"
proof (induction "is" arbitrary: xs)
  case (Cons i "is")
  let ?ys = "prune_one excl cs r i xs"
  have le: "length (fold (prune_one excl cs r) is ?ys) \<le> length ?ys" "length ?ys \<le> length xs"
    by (rule prune_fold_length, rule prune_one_length)
  with Cons.prems have len: "length ?ys = length xs" by simp
  have ys: "?ys = xs \<and> (i \<in> set xs \<longrightarrow> i = r \<or> (\<not> excl i \<and> set (cs i) \<subseteq> set xs))"
  proof (cases "i \<noteq> r \<and> (excl i \<or> \<not> set (cs i) \<subseteq> set xs)")
    case True
    then have y: "?ys = removeAll i xs" by (auto simp: prune_one_def)
    then have "i \<notin> set xs" using len length_removeAll_less [of i xs] by force
    with y show ?thesis by simp
  next
    case False
    then show ?thesis by (auto simp: prune_one_def)
  qed
  with Cons.IH [of xs] Cons.prems show ?case by auto
qed simp

lemma prune_greatest:
  assumes "\<And>xs. set (ord xs) = set xs"
  shows "set (prune ord excl cs r inside) \<subseteq> set inside \<and> runs_inside excl cs r (set (prune ord excl cs r inside)) \<and>
    (\<forall>X. X \<subseteq> set inside \<longrightarrow> runs_inside excl cs r X \<longrightarrow> X \<subseteq> set (prune ord excl cs r inside))"
  using assms
proof (induction ord excl cs r inside rule: prune.induct)
  case (1 ord excl cs r inside)
  let ?n = "prune_round ord excl cs r inside"
  have b: "set ?n \<subseteq> set inside" "runs_inside excl cs r X \<Longrightarrow> X \<subseteq> set inside \<Longrightarrow> X \<subseteq> set ?n" for X
    using prune_fold_bounds [of excl cs r "ord inside" inside] unfolding prune_round_def by blast+
  show ?case
  proof (cases "length ?n < length inside")
    case True
    then have "prune ord excl cs r inside = prune ord excl cs r ?n" by (subst prune.simps) (simp add: Let_def)
    with "1.IH" [OF refl True "1.prems"] b show ?thesis by auto
  next
    case False
    then have p: "prune ord excl cs r inside = ?n" by (subst prune.simps) (simp add: Let_def)
    have "length ?n = length inside" using False prune_fold_length [of excl cs r "ord inside" inside] by (simp add: prune_round_def)
    from prune_fold_fixed [OF this [unfolded prune_round_def]] have "?n = inside"
      "\<forall>i \<in> set (ord inside) \<inter> set inside. i = r \<or> (\<not> excl i \<and> set (cs i) \<subseteq> set inside)"
      by (simp_all add: prune_round_def)
    with p "1.prems" show ?thesis by (auto simp: runs_inside_def)
  qed
qed

text \<open>The procedures that may keep a pointer to an argument, as a least set.\<close>

inductive_set escapes :: "program \<Rightarrow> string set" for p where
  first: "i \<in> set (pg_procedures p) \<Longrightarrow> first_escapes p i \<Longrightarrow> sc_name (pg_scopes p ! i) \<in> escapes p"
| passed: "i \<in> set (pg_procedures p) \<Longrightarrow> st \<in> set (sc_statements (pg_scopes p ! i)) \<Longrightarrow>
    t \<in> set (token_names (st_text st)) \<Longrightarrow> t \<in> set (sc_dummies (pg_scopes p ! i)) \<Longrightarrow>
    e \<in> set (token_names (st_text st)) \<Longrightarrow> e \<in> escapes p \<Longrightarrow> e \<noteq> sc_name (pg_scopes p ! i) \<Longrightarrow> sc_name (pg_scopes p ! i) \<in> escapes p"

lemma escape_step_sound:
  assumes "i \<in> set (pg_procedures p)" and "set es \<subseteq> escapes p"
  shows "set (escape_step p i es) \<subseteq> escapes p"
proof (cases "sc_name (pg_scopes p ! i) \<in> set es \<or> sc_dummies (pg_scopes p ! i) = [] \<or> \<not> passes_on p es i")
  case True
  with assms(2) show ?thesis by (auto simp: escape_step_def Let_def)
next
  case False
  then obtain st t e where "st \<in> set (sc_statements (pg_scopes p ! i))" "t \<in> set (token_names (st_text st))" "t \<in> set (sc_dummies (pg_scopes p ! i))"
    "e \<in> set (token_names (st_text st))" "e \<in> set es" "e \<noteq> sc_name (pg_scopes p ! i)"
    by (auto simp: passes_on_def list_ex_iff Let_def)
  with assms have "sc_name (pg_scopes p ! i) \<in> escapes p" by (blast intro: escapes.passed)
  with False assms(2) show ?thesis by (simp add: escape_step_def Let_def)
qed

lemma escape_fold_sound: "set is \<subseteq> set (pg_procedures p) \<Longrightarrow> set es \<subseteq> escapes p \<Longrightarrow> set (fold (escape_step p) is es) \<subseteq> escapes p"
proof (induction "is" arbitrary: es)
  case (Cons i "is")
  from Cons.IH [of "escape_step p i es"] escape_step_sound [of i p es] Cons.prems show ?case by simp
qed simp

lemma escape_fold_fixed:
  "length (fold (escape_step p) is es) = length es \<Longrightarrow>
     fold (escape_step p) is es = es \<and> (\<forall>i \<in> set is. sc_name (pg_scopes p ! i) \<in> set es \<or> sc_dummies (pg_scopes p ! i) = [] \<or> \<not> passes_on p es i)"
proof (induction "is" arbitrary: es)
  case (Cons i "is")
  obtain n1 where n1: "escape_step p i es = es @ n1" using escape_step_grows by blast
  obtain n2 where n2: "fold (escape_step p) is (es @ n1) = (es @ n1) @ n2" using escape_fold_grows [of p "is" "es @ n1"] by blast
  have "n1 = []" "n2 = []" using Cons.prems n1 n2 by simp_all
  then have "escape_step p i es = es" using n1 by simp
  then have "sc_name (pg_scopes p ! i) \<in> set es \<or> sc_dummies (pg_scopes p ! i) = [] \<or> \<not> passes_on p es i"
    by (auto simp: escape_step_def Let_def split: if_splits)
  with \<open>escape_step p i es = es\<close> Cons show ?case by simp
qed simp

lemma escape_rounds_fixed:
  "set es \<subseteq> escapes p \<Longrightarrow> set es \<subseteq> set (escape_rounds p es) \<and> set (escape_rounds p es) \<subseteq> escapes p \<and>
    (\<forall>i \<in> set (pg_procedures p). sc_name (pg_scopes p ! i) \<in> set (escape_rounds p es) \<or> sc_dummies (pg_scopes p ! i) = [] \<or>
       \<not> passes_on p (escape_rounds p es) i)"
proof (induction p es rule: escape_rounds.induct)
  case (1 p es)
  let ?n = "escape_round p es"
  obtain new where new: "?n = es @ new" unfolding escape_round_def using escape_fold_grows by blast
  have s: "set ?n \<subseteq> escapes p" unfolding escape_round_def by (rule escape_fold_sound [OF subset_refl "1.prems"])
  show ?case
  proof (cases "length es < length ?n")
    case True
    then have "escape_rounds p es = escape_rounds p ?n" by (subst escape_rounds.simps) (simp add: Let_def)
    with "1.IH" [OF refl True s] new show ?thesis by auto
  next
    case False
    then have e: "escape_rounds p es = ?n" by (subst escape_rounds.simps) (simp add: Let_def)
    from False new have "?n = es" by simp
    with escape_fold_fixed [of p "pg_procedures p" es] e "1.prems" show ?thesis by (simp add: escape_round_def)
  qed
qed

lemma callees_procs: "set (callees p i) \<subseteq> set (pg_procedures p)"
  by (auto simp: callees_def statement_targets_def procs_named_def)

lemma exclusive_set:
  assumes "\<forall>xs. set (ord xs) = set xs"
  obtains R S where "exclusive_procedures ord p routine outside = Some S" "R = (step_rel (callees p))\<^sup>* `` {routine}" "set S \<subseteq> R"
    "runs_inside (excluded p outside) (callers p) routine (set S)"
    "\<And>X. X \<subseteq> R \<Longrightarrow> runs_inside (excluded p outside) (callers p) routine X \<Longrightarrow> X \<subseteq> set S"
proof -
  let ?U = "insert routine (set (pg_procedures p))"
  have "\<exists>I. spread (callees p) [routine] [routine] = Some I \<and> set I = (step_rel (callees p))\<^sup>* `` set [routine]"
    by (rule spread_closed [of ?U]) (use callees_procs in auto)
  then obtain I where I: "spread (callees p) [routine] [routine] = Some I" "set I = (step_rel (callees p))\<^sup>* `` {routine}" by auto
  let ?S = "prune ord (excluded p outside) (callers p) routine I"
  have "\<And>xs. set (ord xs) = set xs" using assms by blast
  note g = prune_greatest [OF this, where excl = "excluded p outside" and cs = "callers p" and r = routine and inside = I]
  have e: "exclusive_procedures ord p routine outside = Some ?S" using I(1) by (simp add: exclusive_procedures_def)
  show ?thesis by (rule that [OF e I(2)]) (use g in blast)+
qed

section \<open>Properties\<close>

text \<open>C29. The exclusive call tree is found whatever the order in which sets are run through: the procedures the routine
  reaches that run inside it, the largest set of them in which, apart from the routine, none is excluded (a program, a
  C procedure, one bound to a type or handed on, one that is to count outside) and none has a caller outside the set.\<close>

theorem exclusive_greatest:
  assumes "\<forall>xs. set (ord xs) = set xs"
  shows "\<exists>S. exclusive_procedures ord p routine outside = Some S \<and> routine \<in> set S \<and>
    set S = \<Union>{X. X \<subseteq> (step_rel (callees p))\<^sup>* `` {routine} \<and> runs_inside (excluded p outside) (callers p) routine X}"
proof (rule exclusive_set [OF assms, of p routine outside])
  fix R S
  assume S: "exclusive_procedures ord p routine outside = Some S" "R = (step_rel (callees p))\<^sup>* `` {routine}" "set S \<subseteq> R"
    "runs_inside (excluded p outside) (callers p) routine (set S)"
    "\<And>X. X \<subseteq> R \<Longrightarrow> runs_inside (excluded p outside) (callers p) routine X \<Longrightarrow> X \<subseteq> set S"
  have "{routine} \<subseteq> set S" by (rule S(5)) (auto simp: S(2) runs_inside_def)
  let ?F = "{X. X \<subseteq> (step_rel (callees p))\<^sup>* `` {routine} \<and> runs_inside (excluded p outside) (callers p) routine X}"
  have "set S \<in> ?F" using S(2-4) by simp
  then have "set S \<subseteq> \<Union>?F" by (rule Union_upper)
  moreover have "\<Union>?F \<subseteq> set S"
  proof (rule Union_least)
    fix X assume "X \<in> ?F"
    then show "X \<subseteq> set S" by (intro S(5)) (simp_all add: S(2))
  qed
  ultimately have "set S = \<Union>?F" by (rule equalityI)
  then show ?thesis using S(1) \<open>{routine} \<subseteq> set S\<close> by (intro exI [of _ S] conjI) simp_all
qed

text \<open>A chain of calls that ends in a procedure of the exclusive call tree and starts outside of it calls the routine on
  its way.\<close>

theorem calls_enter_at_routine:
  assumes "\<forall>xs. set (ord xs) = set xs" and "exclusive_procedures ord p routine outside = Some S"
    and "(q, i) \<in> {(a, b). a \<in> set (pg_procedures p) \<and> b \<in> set (callees p a) \<and> b \<noteq> routine}\<^sup>*" and "i \<in> set S"
  shows "q \<in> set S"
  using assms(3,4)
proof (induction rule: converse_rtrancl_induct)
  case (step a b)
  have "runs_inside (excluded p outside) (callers p) routine (set S)"
    using exclusive_set [OF assms(1), of p routine outside] assms(2) by (metis option.inject)
  with step have "set (callers p b) \<subseteq> set S" by (auto simp: runs_inside_def)
  with step(1) show ?case by (auto simp: callers_def)
qed

definition ex_proc :: "string \<Rightarrow> scope_kind \<Rightarrow> string list \<Rightarrow> string list \<Rightarrow> scope" where
  "ex_proc name kind dummies texts =
     (new_scope name kind ''f.f90'' 1)\<lparr>sc_dummies := dummies, sc_statements := map (\<lambda>t. \<lparr>st_text = t, st_line = 1, st_guarded = False\<rparr>) texts\<rparr>"

definition ex_program :: program where
  "ex_program = empty_program\<lparr>pg_scopes :=
     [ex_proc ''r'' Subroutine [''x''] [''call a(x)'', ''call b''], ex_proc ''a'' Subroutine [''y''] [''p => y''],
      ex_proc ''b'' Subroutine [] [], ex_proc ''m'' Program [] [''call r(v)'', ''call b'']], pg_procedures := [0, 1, 2, 3]\<rparr>"

lemma ex_callees: "callees ex_program 0 = [1, 2]" "callees ex_program 1 = []" "callees ex_program 2 = []" "callees ex_program 3 = [0, 2]"
  by code_simp+

lemma ex_excluded: "\<not> excluded ex_program [] 1" "\<not> excluded ex_program [] 2"
  by code_simp+

lemma ex_callers: "callers ex_program 0 = [3]" "callers ex_program 1 = [0]" "callers ex_program 2 = [0, 3]"
  by (simp_all add: callers_def ex_callees ex_program_def [THEN arg_cong, of pg_procedures] del: One_nat_def)

lemma ex_exclusive: "exclusive_procedures rev ex_program 0 [] = Some [0, 1]"
proof -
  have "spread (callees ex_program) [0] [0] = Some [0, 1, 2]" by (simp add: spread.simps [of _ _ "_ # _"] spread.simps [of _ _ "[]"] ex_callees Let_def del: One_nat_def)
  moreover have "prune rev (excluded ex_program []) (callers ex_program) 0 [0, 1, 2] = [0, 1]"
    using ex_callers ex_excluded
    by (simp add: prune.simps [of _ _ _ _ "[0, 1, 2]"] prune.simps [of _ _ _ _ "[0, 1]"] prune_round_def prune_one_def del: One_nat_def)
  ultimately show ?thesis by (simp add: exclusive_procedures_def)
qed

theorem exclusive_greatest_witness:
  "\<exists>S. exclusive_procedures rev ex_program 0 [] = Some S \<and> set S = {0, 1} \<and>
     set S = \<Union>{X. X \<subseteq> (step_rel (callees ex_program))\<^sup>* `` {0} \<and> runs_inside (excluded ex_program []) (callers ex_program) 0 X}"
proof -
  obtain S where S: "exclusive_procedures rev ex_program 0 [] = Some S"
    "set S = \<Union>{X. X \<subseteq> (step_rel (callees ex_program))\<^sup>* `` {0} \<and> runs_inside (excluded ex_program []) (callers ex_program) 0 X}"
    using exclusive_greatest [of rev ex_program 0 "[]"] by auto
  with ex_exclusive have "set S = {0, 1}" by simp
  with S show ?thesis by blast
qed

theorem calls_enter_at_routine_witness:
  "\<exists>S. exclusive_procedures rev ex_program 0 [] = Some S \<and> 3 \<notin> set S \<and>
     (3, 1) \<notin> {(a, b). a \<in> set (pg_procedures ex_program) \<and> b \<in> set (callees ex_program a) \<and> b \<noteq> 0}\<^sup>*"
proof -
  have "(3, 1) \<notin> {(a, b). a \<in> set (pg_procedures ex_program) \<and> b \<in> set (callees ex_program a) \<and> b \<noteq> 0}\<^sup>*"
    using calls_enter_at_routine [OF _ ex_exclusive, of 3 1] by auto
  with ex_exclusive show ?thesis by simp
qed

text \<open>C30. The escaping procedures are the least set of names with those of the procedures that point at a dummy or take its
  address, and of those that have a dummy and another name of the set in one statement.\<close>

theorem escaping_least: "set (escaping_procedures p) = escapes p"
proof
  let ?es = "remdups (map (\<lambda>i. sc_name (pg_scopes p ! i)) (filter (first_escapes p) (pg_procedures p)))"
  have "set ?es \<subseteq> escapes p" by (auto intro: escapes.first)
  note f = escape_rounds_fixed [OF this]
  show "set (escaping_procedures p) \<subseteq> escapes p" using f by (simp add: escaping_procedures_def)
  show "escapes p \<subseteq> set (escaping_procedures p)"
  proof
    fix n assume "n \<in> escapes p"
    then show "n \<in> set (escaping_procedures p)"
    proof induction
      case (first i)
      then show ?case using f by (auto simp: escaping_procedures_def)
    next
      case (passed i st t e)
      then have "passes_on p (escaping_procedures p) i" "sc_dummies (pg_scopes p ! i) \<noteq> []"
        by (auto simp: passes_on_def list_ex_iff Let_def)
      with f passed(1) show ?case by (auto simp: escaping_procedures_def)
    qed
  qed
qed

lemma ex_escaping: "escaping_procedures ex_program = [''a'', ''r'']"
  by code_simp

end
