(* ===== verification/Outside_Refs.thy ===== *)
theory Outside_Refs
  imports Call_Tree "HOL-Library.Product_Lexorder"
begin

text \<open>
  The rest of \<open>substitute/outside_refs.py\<close>: how a statement uses a variable, under which names a scope knows a module
  variable, and the verdict whether code outside a routine's calls can observe it. The cache of the resolver is passed
  from call to call, as the code fills it.
\<close>

section \<open>Classifying statements\<close>

datatype use_kind = Read | Alias string | Address | Shared | Write

definition INQUIRIES :: "string list" where
  "INQUIRIES = [''allocated'', ''associated'', ''lbound'', ''ubound'', ''size'', ''shape'', ''present'', ''kind'', ''rank'',
     ''is_contiguous'', ''storage_size'', ''len'', ''lcobound'', ''ucobound'']"

text \<open>The places between the parentheses of the calls of some functions; a component of that name is no call.\<close>

definition masked_places :: "string list \<Rightarrow> string \<Rightarrow> nat list" where
  "masked_places fns s =
     concat (map (\<lambda>m. if m_start m > 0 \<and> s ! (m_start m - 1) = CHR ''%'' then []
                       else [m_end m..<matching_paren s (m_end m - 1)]) (re_finditer (call_of_re fns) s))"

definition masked :: "string list \<Rightarrow> string \<Rightarrow> string" where
  "masked fns s = (let ps = masked_places fns s in map (\<lambda>i. if i \<in> set ps then CHR '' '' else s ! i) [0..<length s])"

definition mentions :: "string list \<Rightarrow> string \<Rightarrow> bool" where
  "mentions names s = list_ex (\<lambda>t. t \<in> set names) (token_names s)"

text \<open>\<open>_masked_has\<close>: a declaration names the variable in a specification expression, outside inquiries.\<close>

definition masked_has :: "string \<Rightarrow> string list \<Rightarrow> bool" where
  "masked_has s names =
     (let (head, rest) = (case split_once ''::'' s of Some (a, b) \<Rightarrow> (a, b) | None \<Rightarrow> (s, [])) in
      mentions names (masked INQUIRIES head) \<or>
      list_ex (\<lambda>item. list_ex (\<lambda>t. t \<in> set names) (tl (token_names item))) (split_items (masked INQUIRIES rest)))"

definition harmless :: "string \<Rightarrow> string list \<Rightarrow> bool" where
  "harmless s names = (starts NAMES_ONLY_RE s \<or> (declared_entities s \<noteq> None \<and> \<not> masked_has s names))"

definition SHARED_RE :: regex where "SHARED_RE = any_word [''equivalence'', ''common'']"

definition ALLOCATION_RE :: regex where
  "ALLOCATION_RE = seqs [Bol, Grp 1 (alts (map lit [''allocate'', ''deallocate'', ''nullify''])), many re_space, chr_re CHR ''('']"

definition SOURCE_ARG_RE :: regex where
  "SOURCE_ARG_RE = seqs [Bol, lit ''source'', many re_space, chr_re CHR ''='']"

definition IF_RE :: regex where "IF_RE = seqs [Bol, lit ''if'', many re_space, chr_re CHR ''('']"

definition POINTER_RE :: regex where
  "POINTER_RE = seqs [Bol, ident_re, many re_space, Grp 1 (alts [chr_re CHR ''%'', chr_re CHR ''('', lit ''=>''])]"

definition NO_POINTER_RE :: regex where "NO_POINTER_RE = any_word [''associate'', ''use'', ''procedure'']"

definition ASSIGN_RE :: regex where
  "ASSIGN_RE = seqs [Bol, ident_re, many re_space, Grp 1 (alts [chr_re CHR ''%'', chr_re CHR ''('', chr_re CHR ''=''])]"

definition NO_ASSIGN_RE :: regex where
  "NO_ASSIGN_RE = any_word [''do'', ''if'', ''else'', ''select'', ''case'', ''where'', ''forall'', ''call'', ''print'', ''write'', ''read'',
     ''return'', ''stop'', ''associate'', ''block'']"

text \<open>The first letter or underscore, and whether a name is mentioned behind it.\<close>

definition first_letter :: "string \<Rightarrow> nat option" where
  "first_letter s = map_option m_start (re_search lower_start s)"

definition mentions_inner :: "string list \<Rightarrow> string \<Rightarrow> bool" where
  "mentions_inner names s = list_ex (\<lambda>(pos, t). t \<in> set names \<and> first_letter s \<noteq> Some pos) (tokens s)"

definition addresses :: "string \<Rightarrow> string list \<Rightarrow> use_kind list" where
  "addresses s names = map (\<lambda>_. Address) (filter (mentions names) (call_arguments address_words s))"

definition allocation_uses :: "string \<Rightarrow> string list \<Rightarrow> use_kind list" where
  "allocation_uses q names =
     (let at = length (takeWhile (\<lambda>c. c \<noteq> CHR ''('') q); close = matching_paren q at in
      map (\<lambda>_. Read) (filter (\<lambda>a. starts SOURCE_ARG_RE a \<and> mentions names a) (split_items (take (close - (at + 1)) (drop (at + 1) q)))))"

definition name_or_empty :: "string option \<Rightarrow> string" where
  "name_or_empty b = (case b of None \<Rightarrow> [] | Some n \<Rightarrow> n)"

definition among :: "string option \<Rightarrow> string list \<Rightarrow> bool" where
  "among b names = (case b of None \<Rightarrow> False | Some n \<Rightarrow> n \<in> set names)"

definition pointer_uses :: "string \<Rightarrow> nat \<Rightarrow> string list \<Rightarrow> use_kind list" where
  "pointer_uses q arrow names =
     (let lhs = take arrow q; rhs = drop (arrow + 2) q; lb = base_name lhs; rb = base_name rhs in
      (if among lb names then [Alias (name_or_empty rb)] else []) @ (if among rb names then [Alias (name_or_empty lb)] else []) @
      (if mentions_inner names lhs \<or> mentions_inner names rhs then [Read] else []))"

definition assign_uses :: "string \<Rightarrow> nat \<Rightarrow> string list \<Rightarrow> use_kind list" where
  "assign_uses q eq names =
     (let lhs = take eq q; rhs = drop (eq + 1) q in
      (if mentions names rhs \<or> mentions_inner names lhs then [Read] else []) @ (if among (base_name lhs) names then [Write] else []))"

definition plain_uses :: "string \<Rightarrow> string list \<Rightarrow> use_kind list" where
  "plain_uses q names =
     (case top_level q ''=>'' of
        Some a \<Rightarrow> (if a > 0 \<and> starts POINTER_RE q \<and> \<not> starts NO_POINTER_RE q then pointer_uses q a names
                  else case top_level q ''='' of
                    Some e \<Rightarrow> (if e > 0 \<and> starts ASSIGN_RE q \<and> \<not> starts NO_ASSIGN_RE q then assign_uses q e names
                              else if mentions names q then [Read] else [])
                  | None \<Rightarrow> (if mentions names q then [Read] else []))
      | None \<Rightarrow> (case top_level q ''='' of
                    Some e \<Rightarrow> (if e > 0 \<and> starts ASSIGN_RE q \<and> \<not> starts NO_ASSIGN_RE q then assign_uses q e names
                              else if mentions names q then [Read] else [])
                  | None \<Rightarrow> (if mentions names q then [Read] else [])))"

lemma length_masked [simp]: "length (masked fns s) = length s"
  by (simp add: masked_def Let_def)

lemma length_strip_le: "length (strip s) \<le> length s"
proof -
  have "length (dropWhile P u) \<le> length u" for P :: "char \<Rightarrow> bool" and u by (rule length_dropWhile_le)
  then show ?thesis unfolding strip_def rstrip_def lstrip_def by (metis length_rev order_trans)
qed

text \<open>The guarded statement of a one-line \<open>if\<close>, and its condition.\<close>

definition if_parts :: "string \<Rightarrow> (string \<times> string) option" where
  "if_parts q =
     (case re_match IF_RE q of
        None \<Rightarrow> None
      | Some m \<Rightarrow>
          (let close = matching_paren q (m_end m - 1); rest = strip (drop (close + 1) q) in
           if rest \<noteq> [] \<and> \<not> startswith rest ''then'' then Some (take (close + 1) q, rest) else None))"

lemma if_parts_less: "if_parts q = Some (c, rest) \<Longrightarrow> length rest < length q"
proof -
  assume "if_parts q = Some (c, rest)"
  then obtain k where r: "rest = strip (drop (k + 1) q)" "rest \<noteq> []"
    by (auto simp: if_parts_def Let_def split: option.splits if_splits)
  then have "drop (k + 1) q \<noteq> []" by (auto simp: strip_def lstrip_def rstrip_def)
  then have "length (drop (k + 1) q) < length q" by simp
  with length_strip_le [of "drop (k + 1) q"] r(1) show ?thesis by simp
qed


function classify :: "string \<Rightarrow> string list \<Rightarrow> use_kind list" where
  "classify s names =
     (if \<not> mentions names s \<or> harmless s names then []
      else if starts SHARED_RE s then [Shared]
      else (let q = masked INQUIRIES s in
        addresses s names @
        (if starts ALLOCATION_RE q then allocation_uses q names
         else case if_parts q of
           Some (c, rest) \<Rightarrow> (if mentions names c then [Read] else []) @ classify rest names
         | None \<Rightarrow> plain_uses q names)))"
  by pat_completeness auto
termination
  by (relation "measure (\<lambda>(s, names). length s)") (auto dest!: if_parts_less)

declare classify.simps [simp del]

section \<open>Names of a module variable\<close>

type_synonym key = "string \<times> string"
type_synonym cache = "((string \<times> key) \<times> string list) list"

definition module_scope :: "program \<Rightarrow> string \<Rightarrow> scope option" where
  "module_scope p m = map_option (\<lambda>i. pg_scopes p ! i) (map_of (pg_modules p) m)"

definition modules_left :: "program \<Rightarrow> string list \<Rightarrow> nat" where
  "modules_left p seen = card (fst ` set (pg_modules p) - set seen)"

lemma module_scope_known: "module_scope p m = Some sc \<Longrightarrow> m \<in> fst ` set (pg_modules p)"
  unfolding module_scope_def by (metis (no_types, lifting) domI dom_map_of_conv_image_fst map_option_eq_Some)

lemma modules_left_less: "module_scope p m = Some sc \<Longrightarrow> m \<notin> set seen \<Longrightarrow> modules_left p (m # seen) < modules_left p seen"
  unfolding modules_left_def by (intro psubset_card_mono) (use module_scope_known [of p m sc] in auto)

text \<open>\<open>exported\<close> with the loop over the use statements of a module.\<close>

function exported :: "program \<Rightarrow> string \<Rightarrow> key \<Rightarrow> string list \<Rightarrow> cache \<Rightarrow> string list \<times> cache"
  and exported_uses :: "program \<Rightarrow> use_stmt list \<Rightarrow> key \<Rightarrow> string list \<Rightarrow> string list \<Rightarrow> cache \<Rightarrow> string list \<times> cache" where
  "exported p m key seen memo =
     (case map_of memo (m, key) of
        Some names \<Rightarrow> (names, memo)
      | None \<Rightarrow>
          (if m \<in> set seen then ([], memo)
           else
             (let own = (if m = fst key then [snd key] else []) in
              case module_scope p m of
                None \<Rightarrow> (own, AList.update (m, key) own memo)
              | Some sc \<Rightarrow>
                  (let (names, memo') = exported_uses p (sc_uses sc) key (m # seen) own memo
                   in (names, AList.update (m, key) names memo')))))"
| "exported_uses p [] key seen names memo = (names, memo)"
| "exported_uses p (u # us) key seen names memo =
     (let (ex, memo') = exported p (us_module u) key seen memo
      in exported_uses p us key seen (adds names (local_names u ex)) memo')"
  by pat_completeness auto
termination
proof (relation "measures
    [case_sum (\<lambda>(p, m, key, seen, memo). modules_left p seen) (\<lambda>(p, us, key, seen, names, memo). modules_left p seen),
     case_sum (\<lambda>_. 0) (\<lambda>(p, us, key, seen, names, memo). length us + 1)]", goal_cases)
  case 1
  show ?case by (rule wf_measures)
next
  case (2 p m key seen memo own sc)
  then have "modules_left p (m # seen) < modules_left p seen" by (intro modules_left_less)
  then show ?case by simp
next
  case (3 p u us key seen names memo)
  show ?case by simp
next
  case (4 p u us key seen names memo)
  show ?case by simp
qed

declare exported.simps [simp del]

text \<open>The scope and its hosts, from the inside out.\<close>

definition scope_chain :: "program \<Rightarrow> nat \<Rightarrow> scope list" where
  "scope_chain p i = map (\<lambda>j. pg_scopes p ! j) (host_chain p i)"

definition is_home :: "scope \<Rightarrow> key \<Rightarrow> bool" where
  "is_home s key = (sc_kind s = Module \<and> sc_name s = fst key)"

fun use_candidates :: "program \<Rightarrow> key \<Rightarrow> use_stmt list \<Rightarrow> string list \<times> cache \<Rightarrow> string list \<times> cache" where
  "use_candidates p key [] acc = acc"
| "use_candidates p key (u # us) (names, memo) =
     (let (ex, memo') = exported p (us_module u) key [] memo in use_candidates p key us (adds names (local_names u ex), memo'))"

fun candidates :: "program \<Rightarrow> key \<Rightarrow> scope list \<Rightarrow> string list \<times> cache \<Rightarrow> string list \<times> cache" where
  "candidates p key [] acc = acc"
| "candidates p key (s # ss) (names, memo) =
     candidates p key ss (use_candidates p key (sc_uses s) (if is_home s key then List.insert (snd key) names else names, memo))"

fun any_use :: "program \<Rightarrow> key \<Rightarrow> string \<Rightarrow> use_stmt list \<Rightarrow> cache \<Rightarrow> bool \<times> cache" where
  "any_use p key name [] memo = (False, memo)"
| "any_use p key name (u # us) memo =
     (let (ex, memo') = exported p (us_module u) key [] memo in
      if name \<in> set (local_names u ex) then (True, memo') else any_use p key name us memo')"

fun denotes :: "program \<Rightarrow> key \<Rightarrow> string \<Rightarrow> scope list \<Rightarrow> cache \<Rightarrow> bool \<times> cache" where
  "denotes p key name [] memo = (False, memo)"
| "denotes p key name (s # ss) memo =
     (if is_home s key \<and> name = snd key then (True, memo)
      else (let (used, memo') = any_use p key name (sc_uses s) memo in
            if used then (True, memo') else if name \<in> set (sc_declared s) then (False, memo') else denotes p key name ss memo'))"

fun denoting :: "program \<Rightarrow> key \<Rightarrow> scope list \<Rightarrow> string list \<Rightarrow> cache \<Rightarrow> string list \<times> cache" where
  "denoting p key chain [] memo = ([], memo)"
| "denoting p key chain (n # ns) memo =
     (let (d, memo') = denotes p key n chain memo; (rest, memo'') = denoting p key chain ns memo'
      in (if d then n # rest else rest, memo''))"

definition names_in :: "program \<Rightarrow> nat \<Rightarrow> key \<Rightarrow> cache \<Rightarrow> string list \<times> cache" where
  "names_in p i key memo =
     (let chain = scope_chain p i; (cands, memo') = candidates p key chain ([], memo) in denoting p key chain cands memo')"

text \<open>\<open>_defining_module\<close>, with the loop over the use statements: an \<open>only\<close> item settles the matter.\<close>

function defining :: "program \<Rightarrow> string \<Rightarrow> string \<Rightarrow> string list \<Rightarrow> key option"
  and defining_uses :: "program \<Rightarrow> use_stmt list \<Rightarrow> string \<Rightarrow> string list \<Rightarrow> key option" where
  "defining p m name seen =
     (case module_scope p m of
        None \<Rightarrow> None
      | Some sc \<Rightarrow>
          (if m \<in> set seen then None
           else if name \<in> set (sc_declared sc) \<or> name \<in> set (sc_guarded_declared sc) then Some (m, name)
           else defining_uses p (sc_uses sc) name (m # seen)))"
| "defining_uses p [] name seen = None"
| "defining_uses p (u # us) name seen =
     (case us_only u of
        Some only \<Rightarrow>
          (case map_of only name of
             Some remote \<Rightarrow> defining p (us_module u) remote seen
           | None \<Rightarrow> defining_uses p us name seen)
      | None \<Rightarrow>
          (case defining p (us_module u) (case map_of (us_renames u) name of Some r \<Rightarrow> r | None \<Rightarrow> name) seen of
             Some k \<Rightarrow> Some k
           | None \<Rightarrow> defining_uses p us name seen))"
  by pat_completeness auto
termination
proof (relation "measures
    [case_sum (\<lambda>(p, m, name, seen). modules_left p seen) (\<lambda>(p, us, name, seen). modules_left p seen),
     case_sum (\<lambda>_. 0) (\<lambda>(p, us, name, seen). length us + 1)]", goal_cases)
  case 1
  show ?case by (rule wf_measures)
next
  case (2 p m name seen sc)
  then have "modules_left p (m # seen) < modules_left p seen" by (intro modules_left_less)
  then show ?case by simp
qed simp_all

definition use_key :: "program \<Rightarrow> string \<Rightarrow> use_stmt \<Rightarrow> key option" where
  "use_key p name u =
     (case us_only u of
        Some only \<Rightarrow> (case map_of only name of Some remote \<Rightarrow> defining p (us_module u) remote [] | None \<Rightarrow> None)
      | None \<Rightarrow> defining p (us_module u) (case map_of (us_renames u) name of Some r \<Rightarrow> r | None \<Rightarrow> name) [])"

fun first_key :: "program \<Rightarrow> string \<Rightarrow> use_stmt list \<Rightarrow> key option" where
  "first_key p name [] = None"
| "first_key p name (u # us) = (case use_key p name u of Some k \<Rightarrow> Some k | None \<Rightarrow> first_key p name us)"

fun module_key_from :: "program \<Rightarrow> string \<Rightarrow> scope list \<Rightarrow> key option" where
  "module_key_from p name [] = None"
| "module_key_from p name (s # ss) =
     (if name \<in> set (sc_declared s) \<and> sc_kind s \<noteq> Module then None
      else if sc_kind s = Module \<and> (name \<in> set (sc_declared s) \<or> name \<in> set (sc_guarded_declared s)) then Some (sc_name s, name)
      else case first_key p name (sc_uses s) of Some k \<Rightarrow> Some k | None \<Rightarrow> module_key_from p name ss)"

definition module_key :: "program \<Rightarrow> nat \<Rightarrow> string \<Rightarrow> key option" where
  "module_key p i name = (if name = [] then None else module_key_from p name (scope_chain p i))"

section \<open>Verdicts\<close>

type_synonym location = "string \<times> string \<times> nat"   \<comment> \<open>qualified scope, file, line\<close>

datatype reason =
    NotInSources string
  | PassedTo string location
  | InNamelist string location
  | ReadOutside location
  | AssociatedWith string location
  | AddressTaken location
  | StorageShared string
  | AssociatedOutside key
  | AssociatedNotScratch key

record verdict =
  vd_key :: key
  vd_reasons :: "reason list"
  vd_aliases :: "key list"
  vd_writes :: "location list"

definition scratch :: "verdict \<Rightarrow> bool" where
  "scratch v = (vd_reasons v = [])"

definition add_reason :: "reason \<Rightarrow> verdict \<Rightarrow> verdict" where
  "add_reason r v = v\<lparr>vd_reasons := vd_reasons v @ [r]\<rparr>"

definition location_of :: "program \<Rightarrow> nat \<Rightarrow> statement \<Rightarrow> location" where
  "location_of p i st = (qualified_name p i, sc_file (pg_scopes p ! i), st_line st)"

definition NAMELIST_RE :: regex where "NAMELIST_RE = any_word [''namelist'']"

definition use_verdict :: "program \<Rightarrow> nat \<Rightarrow> bool \<Rightarrow> key \<Rightarrow> statement \<Rightarrow> use_kind \<Rightarrow> verdict \<Rightarrow> verdict" where
  "use_verdict p i inside key st kind v =
     (let is_module = (sc_kind (pg_scopes p ! i) = Module); loc = location_of p i st in
      case kind of
        Write \<Rightarrow> (if \<not> inside \<and> \<not> is_module then v\<lparr>vd_writes := vd_writes v @ [loc]\<rparr> else v)
      | Read \<Rightarrow>
          (if inside \<or> is_module
           then (if is_module \<and> starts NAMELIST_RE (st_text st) then add_reason (InNamelist (sc_name (pg_scopes p ! i)) loc) v else v)
           else add_reason (ReadOutside loc) v)
      | Alias other \<Rightarrow>
          (case module_key p i other of
             None \<Rightarrow> add_reason (AssociatedWith other loc) v
           | Some k \<Rightarrow> (if k \<noteq> key then v\<lparr>vd_aliases := List.insert k (vd_aliases v)\<rparr> else v))
      | Address \<Rightarrow> add_reason (AddressTaken loc) v
      | Shared \<Rightarrow> add_reason (StorageShared (qualified_name p i)) v)"

definition passed_names :: "string list \<Rightarrow> string list \<Rightarrow> statement \<Rightarrow> string list" where
  "passed_names escaping names st =
     (if mentions names (st_text st) then sort (remdups (filter (\<lambda>t. t \<in> set escaping) (token_names (st_text st)))) else [])"

definition statement_verdict :: "program \<Rightarrow> nat \<Rightarrow> bool \<Rightarrow> string list \<Rightarrow> key \<Rightarrow> string list \<Rightarrow> statement \<Rightarrow> verdict \<Rightarrow> verdict" where
  "statement_verdict p i inside escaping key names st v =
     (let v = (case passed_names escaping names st of [] \<Rightarrow> v | n # _ \<Rightarrow> add_reason (PassedTo n (location_of p i st)) v)
      in fold (use_verdict p i inside key st) (classify (st_text st) names) v)"

definition scope_verdict :: "program \<Rightarrow> nat list \<Rightarrow> string list \<Rightarrow> key \<Rightarrow> nat \<Rightarrow> verdict \<times> cache \<Rightarrow> verdict \<times> cache" where
  "scope_verdict p inside escaping key i vm =
     (case vm of (v, memo) \<Rightarrow>
       (let (names, memo') = names_in p i key memo in
        (if names = [] then v
         else fold (statement_verdict p i (i \<in> set inside) escaping key names) (sc_statements (pg_scopes p ! i)) v, memo')))"

definition all_scopes :: "program \<Rightarrow> nat list" where
  "all_scopes p = map snd (pg_modules p) @ pg_procedures p"

definition new_verdict :: "key \<Rightarrow> verdict" where
  "new_verdict key = \<lparr>vd_key = key, vd_reasons = [], vd_aliases = [], vd_writes = []\<rparr>"

definition key_verdict :: "program \<Rightarrow> nat list \<Rightarrow> string list \<Rightarrow> key \<Rightarrow> cache \<Rightarrow> verdict \<times> cache" where
  "key_verdict p inside escaping key memo =
     (if map_of (pg_modules p) (fst key) = None then (add_reason (NotInSources (fst key)) (new_verdict key), memo)
      else fold (scope_verdict p inside escaping key) (all_scopes p) (new_verdict key, memo))"

fun key_verdicts :: "program \<Rightarrow> nat list \<Rightarrow> string list \<Rightarrow> key list \<Rightarrow> cache \<Rightarrow> (key \<times> verdict) list \<Rightarrow> (key \<times> verdict) list" where
  "key_verdicts p inside escaping [] memo vs = vs"
| "key_verdicts p inside escaping (k # ks) memo vs =
     (let key = (lower (fst k), lower (snd k)); (v, memo') = key_verdict p inside escaping key memo
      in key_verdicts p inside escaping ks memo' (AList.update key v vs))"

datatype outside_error = NoProcedure key

definition targets :: "program \<Rightarrow> key \<Rightarrow> nat list" where
  "targets p routine =
     filter (\<lambda>i. sc_name (pg_scopes p ! i) = snd routine \<and>
       (case sc_module (pg_scopes p ! i) of None \<Rightarrow> False | Some m \<Rightarrow> sc_name (pg_scopes p ! m) = fst routine)) (pg_procedures p)"

text \<open>\<open>None\<close> would be a call that does not return.\<close>

definition outside_readers ::
  "(nat list \<Rightarrow> nat list) \<Rightarrow> program \<Rightarrow> key \<Rightarrow> key list \<Rightarrow> string list \<Rightarrow> (outside_error + (key \<times> verdict) list) option" where
  "outside_readers ord p routine ks outside =
     (case targets p routine of
        [] \<Rightarrow> Some (Inl (NoProcedure routine))
      | t # _ \<Rightarrow>
          map_option (\<lambda>inside. Inr (key_verdicts p inside (escaping_procedures p) ks [] [])) (exclusive_procedures ord p t outside))"

section \<open>Groups of aliases\<close>

definition alias_problem :: "(key \<times> verdict) list \<Rightarrow> verdict \<Rightarrow> reason option" where
  "alias_problem vs v =
     (case filter (\<lambda>k. case map_of vs k of None \<Rightarrow> True | Some w \<Rightarrow> \<not> scratch w) (sort (vd_aliases v)) of
        [] \<Rightarrow> None
      | k # _ \<Rightarrow> Some (if map_of vs k = None then AssociatedOutside k else AssociatedNotScratch k))"

definition group_step :: "key \<Rightarrow> (key \<times> verdict) list \<Rightarrow> (key \<times> verdict) list" where
  "group_step k vs =
     (case map_of vs k of
        None \<Rightarrow> vs
      | Some v \<Rightarrow>
          (if \<not> scratch v then vs
           else case alias_problem vs v of None \<Rightarrow> vs | Some r \<Rightarrow> AList.update k (add_reason r v) vs))"

definition group_round :: "(key \<times> verdict) list \<Rightarrow> (key \<times> verdict) list" where
  "group_round vs = fold group_step (map fst vs) vs"

definition scratch_keys :: "(key \<times> verdict) list \<Rightarrow> key set" where
  "scratch_keys vs = {k. \<exists>v. map_of vs k = Some v \<and> scratch v}"

text \<open>A round changed something exactly if a variable stopped being scratch.\<close>

definition unchanged :: "(key \<times> verdict) list \<Rightarrow> (key \<times> verdict) list \<Rightarrow> bool" where
  "unchanged vs ws = list_all (\<lambda>k. map_option scratch (map_of vs k) = map_option scratch (map_of ws k)) (map fst vs)"

text \<open>What a step may do to the verdicts: turn scratch into not scratch by one more reason.\<close>

definition demoted :: "verdict option \<Rightarrow> verdict option \<Rightarrow> bool" where
  "demoted x y \<longleftrightarrow> x = y \<or> (\<exists>v r. x = Some v \<and> scratch v \<and> y = Some (add_reason r v))"

lemma add_reason_simps [simp]: "\<not> scratch (add_reason r v)" "vd_aliases (add_reason r v) = vd_aliases v" "vd_key (add_reason r v) = vd_key v"
  "vd_writes (add_reason r v) = vd_writes v" "vd_reasons (add_reason r v) = vd_reasons v @ [r]"
  by (simp_all add: scratch_def add_reason_def)

lemma map_of_key: "map_of vs k = Some v \<Longrightarrow> k \<in> fst ` set vs"
  by (drule map_of_SomeD) force

lemma demoted_refl [simp]: "demoted x x"
  by (simp add: demoted_def)

lemma demoted_some: "demoted x y \<Longrightarrow> y \<noteq> None \<longleftrightarrow> x \<noteq> None"
  unfolding demoted_def by (elim disjE exE conjE) simp_all

lemma demoted_trans: "demoted x y \<Longrightarrow> demoted y z \<Longrightarrow> demoted x z"
  by (auto simp: demoted_def)

lemma group_step_demotes: "demoted (map_of vs j) (map_of (group_step k vs) j)"
  by (auto simp: group_step_def demoted_def update_conv' split: option.split)

lemma group_fold_demotes: "demoted (map_of vs j) (map_of (fold group_step ks vs) j)"
proof (induction ks arbitrary: vs)
  case (Cons k ks)
  show ?case using demoted_trans [OF group_step_demotes Cons.IH] by simp
qed simp

lemma scratch_keys_less:
  assumes "\<not> unchanged vs (group_round vs)"
  shows "card (scratch_keys (group_round vs)) < card (scratch_keys vs)"
proof (rule psubset_card_mono)
  have "scratch_keys vs \<subseteq> fst ` set vs" unfolding scratch_keys_def by (blast intro: map_of_key)
  then show "finite (scratch_keys vs)" by (rule finite_subset) simp
  note d = group_fold_demotes [of vs _ "map fst vs", folded group_round_def]
  have "scratch_keys (group_round vs) \<subseteq> scratch_keys vs"
  proof
    fix k assume "k \<in> scratch_keys (group_round vs)"
    then obtain v where "map_of (group_round vs) k = Some v" "scratch v" by (auto simp: scratch_keys_def)
    with d [of k] show "k \<in> scratch_keys vs" by (auto simp: demoted_def scratch_keys_def)
  qed
  moreover obtain k where "map_option scratch (map_of vs k) \<noteq> map_option scratch (map_of (group_round vs) k)"
    using assms by (auto simp: unchanged_def list_all_iff)
  with d [of k] have "k \<in> scratch_keys vs" "k \<notin> scratch_keys (group_round vs)" by (auto simp: demoted_def scratch_keys_def)
  ultimately show "scratch_keys (group_round vs) \<subset> scratch_keys vs" by blast
qed

function close_alias_groups :: "(key \<times> verdict) list \<Rightarrow> (key \<times> verdict) list" where
  "close_alias_groups vs = (let ws = group_round vs in if unchanged vs ws then ws else close_alias_groups ws)"
  by pat_completeness auto
termination
  by (relation "measure (\<lambda>vs. card (scratch_keys vs))") (simp_all add: scratch_keys_less)

declare close_alias_groups.simps [simp del]

text \<open>The variables that are not scratch themselves, or are associated with one that is not or is no candidate.\<close>

inductive_set rejected :: "(key \<Rightarrow> verdict option) \<Rightarrow> key set" for g where
  own: "g k = Some v \<Longrightarrow> \<not> scratch v \<Longrightarrow> k \<in> rejected g"
| stranger: "g k = Some v \<Longrightarrow> j \<in> set (vd_aliases v) \<Longrightarrow> g j = None \<Longrightarrow> k \<in> rejected g"
| group: "g k = Some v \<Longrightarrow> j \<in> set (vd_aliases v) \<Longrightarrow> j \<in> rejected g \<Longrightarrow> k \<in> rejected g"

lemma rejected_demote:
  assumes "g k = Some v" and "k \<in> rejected g"
  shows "rejected (g(k \<mapsto> add_reason r v)) = rejected g"
proof
  let ?h = "g(k \<mapsto> add_reason r v)"
  show "rejected ?h \<subseteq> rejected g"
  proof
    fix j assume "j \<in> rejected ?h"
    then show "j \<in> rejected g"
      by induction (use assms in \<open>auto split: if_splits intro: rejected.intros\<close>)
  qed
  have "k \<in> rejected ?h" by (rule rejected.own [of _ _ "add_reason r v"]) simp_all
  show "rejected g \<subseteq> rejected ?h"
  proof
    fix j assume "j \<in> rejected g"
    then show "j \<in> rejected ?h"
    proof induction
      case (own j w)
      then show ?case by (cases "j = k") (auto intro: rejected.own \<open>k \<in> rejected ?h\<close>)
    next
      case (stranger j w i)
      have "i \<noteq> k" using stranger(3) assms(1) by auto
      show ?case
      proof (cases "j = k")
        case True
        then show ?thesis using \<open>k \<in> rejected ?h\<close> by (simp only:)
      next
        case False
        then have "?h j = Some w" using stranger(1) by simp
        moreover have "?h i = None" using stranger(3) \<open>i \<noteq> k\<close> by simp
        ultimately show ?thesis by (rule rejected.stranger [OF _ stranger(2)])
      qed
    next
      case (group j w i)
      show ?case
      proof (cases "j = k")
        case True
        then show ?thesis using \<open>k \<in> rejected ?h\<close> by (simp only:)
      next
        case False
        then have "?h j = Some w" using group(1) by simp
        then show ?thesis by (rule rejected.group [OF _ group(2,4)])
      qed
    qed
  qed
qed

lemma alias_problem_some:
  assumes "alias_problem vs v = Some r"
  obtains j where "j \<in> set (vd_aliases v)" "case map_of vs j of None \<Rightarrow> True | Some w \<Rightarrow> \<not> scratch w"
proof -
  obtain j js where "filter (\<lambda>k. case map_of vs k of None \<Rightarrow> True | Some w \<Rightarrow> \<not> scratch w) (sort (vd_aliases v)) = j # js"
    using assms by (auto simp: alias_problem_def split: list.splits)
  then have "j \<in> set (filter (\<lambda>k. case map_of vs k of None \<Rightarrow> True | Some w \<Rightarrow> \<not> scratch w) (sort (vd_aliases v)))" by simp
  then show ?thesis using that [of j] by simp
qed

lemma alias_problem_none:
  assumes "alias_problem vs v = None" and "j \<in> set (vd_aliases v)"
  obtains w where "map_of vs j = Some w" and "scratch w"
proof -
  have "filter (\<lambda>k. case map_of vs k of None \<Rightarrow> True | Some w \<Rightarrow> \<not> scratch w) (sort (vd_aliases v)) = []"
    using assms(1) by (simp add: alias_problem_def split: list.splits)
  then have "\<not> (case map_of vs j of None \<Rightarrow> True | Some w \<Rightarrow> \<not> scratch w)" using assms(2) by (simp add: filter_empty_conv)
  then show ?thesis using that by (cases "map_of vs j") simp_all
qed

lemma rejected_step: "rejected (map_of (group_step k vs)) = rejected (map_of vs)"
proof (cases "\<exists>v r. map_of vs k = Some v \<and> scratch v \<and> alias_problem vs v = Some r")
  case False
  then have "group_step k vs = vs" by (auto simp: group_step_def split: option.split)
  then show ?thesis by simp
next
  case True
  then obtain v r where v: "map_of vs k = Some v" "scratch v" "alias_problem vs v = Some r" by blast
  obtain j where j: "j \<in> set (vd_aliases v)" "case map_of vs j of None \<Rightarrow> True | Some w \<Rightarrow> \<not> scratch w"
    using alias_problem_some [OF v(3)] .
  have "k \<in> rejected (map_of vs)"
  proof (cases "map_of vs j")
    case None
    with v(1) j(1) show ?thesis by (rule rejected.stranger)
  next
    case (Some w)
    with j(2) have "j \<in> rejected (map_of vs)" by (auto intro: rejected.own)
    with v(1) j(1) show ?thesis by (rule rejected.group)
  qed
  moreover have "map_of (group_step k vs) = (map_of vs)(k \<mapsto> add_reason r v)" using v by (simp add: group_step_def update_conv')
  ultimately show ?thesis using rejected_demote [of "map_of vs" k v r] v(1) by simp
qed

lemma rejected_fold: "rejected (map_of (fold group_step ks vs)) = rejected (map_of vs)"
  by (induction ks arbitrary: vs) (simp_all add: rejected_step)

lemma group_fold_fixed:
  assumes "\<And>k. map_of (fold group_step ks vs) k = map_of vs k" and "k \<in> set ks" and "map_of vs k = Some v" and "scratch v"
  shows "alias_problem vs v = None"
  using assms
proof (induction ks arbitrary: vs)
  case (Cons a ks)
  have "map_of (group_step a vs) j = map_of vs j" for j
    using group_step_demotes [of vs j a] group_fold_demotes [of "group_step a vs" j ks] Cons.prems(1) [of j]
    by (auto simp: demoted_def)
  then have m: "map_of (group_step a vs) = map_of vs" by (rule ext)
  show ?case
  proof (cases "k = a")
    case True
    show ?thesis
    proof (rule ccontr)
      assume "alias_problem vs v \<noteq> None"
      then obtain r where "alias_problem vs v = Some r" by blast
      then have "map_of (group_step a vs) a = Some (add_reason r v)"
        using Cons.prems(3,4) True by (simp add: group_step_def update_conv')
      then have "v = add_reason r v" using m Cons.prems(3) True by simp
      then show False using Cons.prems(4) add_reason_simps(1) by metis
    qed
  next
    case False
    have "map_of (fold group_step ks (group_step a vs)) j = map_of (group_step a vs) j" for j using Cons.prems(1) [of j] m by simp
    from Cons.IH [OF this] False Cons.prems m have "alias_problem (group_step a vs) v = None" by simp
    then show ?thesis unfolding alias_problem_def m .
  qed
qed simp

lemma close_demotes: "demoted (map_of vs k) (map_of (close_alias_groups vs) k)"
proof (induction vs rule: close_alias_groups.induct)
  case (1 vs)
  note d = group_fold_demotes [of vs k "map fst vs", folded group_round_def]
  show ?case
  proof (cases "unchanged vs (group_round vs)")
    case True
    with d show ?thesis by (subst close_alias_groups.simps) (simp add: Let_def)
  next
    case False
    from demoted_trans [OF d 1 [OF refl False]] False show ?thesis by (subst close_alias_groups.simps) (simp add: Let_def)
  qed
qed

lemma close_rejected: "scratch_keys (close_alias_groups vs) = {k. map_of vs k \<noteq> None} - rejected (map_of vs)"
proof (induction vs rule: close_alias_groups.induct)
  case (1 vs)
  let ?ws = "group_round vs"
  have rej: "rejected (map_of ?ws) = rejected (map_of vs)" unfolding group_round_def by (rule rejected_fold)
  have d: "demoted (map_of vs k) (map_of ?ws k)" for k unfolding group_round_def by (rule group_fold_demotes)
  have dom: "map_of ?ws k \<noteq> None \<longleftrightarrow> map_of vs k \<noteq> None" for k by (rule demoted_some [OF d])
  show ?case
  proof (cases "unchanged vs ?ws")
    case False
    then have "close_alias_groups vs = close_alias_groups ?ws" by (subst close_alias_groups.simps) (simp add: Let_def)
    with 1 [OF refl False] rej dom show ?thesis by simp
  next
    case True
    then have c: "close_alias_groups vs = ?ws" by (subst close_alias_groups.simps) (simp add: Let_def)
    have same: "map_of ?ws k = map_of vs k" for k
    proof (cases "map_of vs k")
      case None
      with dom [of k] show ?thesis by (metis option.exhaust)
    next
      case (Some v)
      then have "k \<in> set (map fst vs)" by (simp add: map_of_key)
      with True have "map_option scratch (map_of vs k) = map_option scratch (map_of ?ws k)"
        unfolding unchanged_def list_all_iff by (rule bspec)
      with d [of k] Some show ?thesis by (auto simp: demoted_def)
    qed
    have fix_: "alias_problem vs v = None" if "map_of vs k = Some v" "scratch v" for k v
    proof (rule group_fold_fixed [of "map fst vs"])
      show "map_of (fold group_step (map fst vs) vs) k = map_of vs k" for k using same [of k] by (simp add: group_round_def)
      show "k \<in> set (map fst vs)" using that(1) by (simp add: map_of_key)
    qed (use that in simp_all)
    have "k \<in> rejected (map_of vs) \<Longrightarrow> \<exists>v. map_of vs k = Some v \<and> \<not> scratch v" for k
    proof (induction rule: rejected.induct)
      case (stranger k v j)
      show ?case
      proof (rule ccontr)
        assume "\<not> ?case"
        then have "scratch v" using stranger(1) by blast
        from alias_problem_none [OF fix_ [OF stranger(1) this] stranger(2)] stranger(3) show False by simp
      qed
    next
      case (group k v j)
      show ?case
      proof (rule ccontr)
        assume "\<not> ?case"
        then have "scratch v" using group(1) by blast
        from alias_problem_none [OF fix_ [OF group(1) this] group(2)] group.IH show False by (metis option.inject)
      qed
    qed blast
    then have rej_iff: "k \<in> rejected (map_of vs) \<longleftrightarrow> (\<exists>v. map_of vs k = Some v \<and> \<not> scratch v)" for k
      by (rule iffI) (assumption, elim exE conjE, rule rejected.own)
    have "scratch_keys vs = {k. map_of vs k \<noteq> None} - rejected (map_of vs)"
      unfolding scratch_keys_def set_eq_iff mem_Collect_eq Diff_iff rej_iff by (metis option.distinct(1) option.exhaust option.inject)
    moreover have "scratch_keys ?ws = scratch_keys vs" unfolding scratch_keys_def same ..
    ultimately show ?thesis unfolding c by (rule trans [rotated])
  qed
qed

text \<open>C31. close_alias_groups rejects, besides the variables with a reason of their own, exactly those that are associated,
  directly or through others, with a rejected variable or with one that is no candidate, and keeps every reason, alias
  and write already recorded.\<close>

theorem groups_closed:
  assumes "map_of vs k = Some v"
  shows "\<exists>w. map_of (close_alias_groups vs) k = Some w \<and> (scratch w \<longleftrightarrow> k \<notin> rejected (map_of vs))
       \<and> (w = v \<or> scratch v \<and> (\<exists>r. w = add_reason r v))"
proof -
  have "\<exists>w. map_of (close_alias_groups vs) k = Some w \<and> (w = v \<or> scratch v \<and> (\<exists>r. w = add_reason r v))"
    using close_demotes [of vs k] unfolding assms demoted_def
  proof (elim disjE exE conjE)
    fix u r
    assume "Some v = Some u" "scratch u" "map_of (close_alias_groups vs) k = Some (add_reason r u)"
    then show ?thesis by simp blast
  qed (rule exI [of _ v], simp)
  then obtain w where w: "map_of (close_alias_groups vs) k = Some w" "w = v \<or> scratch v \<and> (\<exists>r. w = add_reason r v)" by blast
  have "scratch w \<longleftrightarrow> k \<in> scratch_keys (close_alias_groups vs)" unfolding scratch_keys_def using w(1) by simp
  also have "\<dots> \<longleftrightarrow> k \<notin> rejected (map_of vs)" unfolding close_rejected using assms by simp
  finally show ?thesis using w by blast
qed

definition scratch_verdict :: "string \<Rightarrow> string list \<Rightarrow> reason list \<Rightarrow> key \<times> verdict" where
  "scratch_verdict n aliases rs =
     ((''m'', n), \<lparr>vd_key = (''m'', n), vd_reasons = rs, vd_aliases = map (\<lambda>a. (''m'', a)) aliases, vd_writes = []\<rparr>)"

text \<open>A pointer whose target is passed outside: both go, and the unrelated variable stays.\<close>

theorem groups_closed_witness:
  "\<exists>w. map_of (close_alias_groups [scratch_verdict ''p'' [''t''] [], scratch_verdict ''t'' [] [StorageShared ''t''],
      scratch_verdict ''u'' [] []]) (''m'', ''p'') = Some w \<and> \<not> scratch w"
proof -
  let ?vs = "[scratch_verdict ''p'' [''t''] [], scratch_verdict ''t'' [] [StorageShared ''t''], scratch_verdict ''u'' [] []]"
  have p: "map_of ?vs (''m'', ''p'') = Some (snd (scratch_verdict ''p'' [''t''] []))"
    and t: "map_of ?vs (''m'', ''t'') = Some (snd (scratch_verdict ''t'' [] [StorageShared ''t'']))"
    by (simp_all add: scratch_verdict_def)
  have "(''m'', ''t'') \<in> rejected (map_of ?vs)" using t by (rule rejected.own) (simp add: scratch_def scratch_verdict_def)
  then have "(''m'', ''p'') \<in> rejected (map_of ?vs)" using rejected.group [of "map_of ?vs", OF p] by (simp add: scratch_verdict_def)
  then show ?thesis using groups_closed [OF p] by blast
qed

end
