(* ===== verification/Startup_Constants.thy ===== *)
theory Startup_Constants
  imports Outside_Refs
begin

text \<open>
  \<open>substitute/startup_constants.py\<close>: which module variables keep the value they have when a routine is first called. The
  analysis is a record with the tables \<open>__init__\<close> builds; a scope is its index in the program. Sets are lists; where
  Python runs through a set the list's order is one of the possible ones, and it only decides which of several
  procedures a message names.
\<close>

section \<open>Calls in a statement\<close>

definition COMPONENT_RE :: regex where
  "COMPONENT_RE = seqs [chr_re CHR ''%'', many re_space, Grp 1 ident_re]"

definition statement_callees :: "program \<Rightarrow> string \<Rightarrow> nat list" where
  "statement_callees p s =
     remdups (concat (map (\<lambda>tok. concat (map (procs_named p) (tok # members tok (pg_generics p)))) (token_names s)) @
              concat (map (\<lambda>m. concat (map (procs_named p) (members (grp0 m 1) (pg_bindings p)))) (re_finditer COMPONENT_RE s)))"

definition NOT_TAKEN_RE :: regex where
  "NOT_TAKEN_RE = seqs [Bol, alts ([lit ''public'', lit ''private'', lit ''use'', lit ''import'', lit ''external'',
     Seq (opt (Seq (lit ''module'') (some1 re_space))) (lit ''procedure''), lit ''interface'', lit ''end'']), Wordb]"

definition taken_ids :: "program \<Rightarrow> string \<Rightarrow> nat list" where
  "taken_ids p s =
     (if starts NOT_TAKEN_RE s then []
      else concat (map (\<lambda>(pos, tok).
             (if \<not> startswith (lstrip (drop (pos + length tok) s)) ''('' \<and> \<not> endswith (rstrip (take pos s)) ''call''
              then procs_named p tok else [])) (tokens s)))"

definition texts :: "program \<Rightarrow> nat \<Rightarrow> string list" where
  "texts p i = map st_text (sc_statements (pg_scopes p ! i))"

definition address_taken_ids :: "program \<Rightarrow> nat list" where
  "address_taken_ids p = remdups (concat (map (\<lambda>i. concat (map (taken_ids p) (texts p i))) (pg_procedures p)))"

definition called_by :: "program \<Rightarrow> nat \<Rightarrow> nat list" where
  "called_by p i = remdups (concat (map (statement_callees p) (texts p i)))"

section \<open>Dummies and namelists\<close>

definition INTENT_IN_RE :: regex where
  "INTENT_IN_RE = seqs [Wordb, lit ''intent'', many re_space, chr_re CHR ''('', many re_space, lit ''in'', many re_space, chr_re CHR '')'']"

definition VALUE_RE :: regex where
  "VALUE_RE = seqs [Grp 1 (Alt Bol (chr_re CHR '','')), many re_space, lit ''value'', Wordb]"

definition DYNAMIC_RE :: regex where
  "DYNAMIC_RE = seqs [Wordb, Grp 1 (alts [lit ''allocatable'', lit ''pointer'']), Wordb]"

definition found :: "regex \<Rightarrow> string \<Rightarrow> bool" where
  "found r s = (re_search r s \<noteq> None)"

text \<open>The names a statement with an attribute gives it to.\<close>

definition attributed :: "string \<Rightarrow> string list" where
  "attributed s =
     (case declared_entities s of
        Some es \<Rightarrow> es
      | None \<Rightarrow>
          (case split_once ''::'' s of
             Some (_, rest) \<Rightarrow> List.map_filter (\<lambda>item. map_option m_text (re_match ID_RE (strip item))) (split_items rest)
           | None \<Rightarrow> []))"

definition dummies_where :: "(string \<Rightarrow> bool) \<Rightarrow> scope \<Rightarrow> string list" where
  "dummies_where test sc =
     remdups (concat (map (\<lambda>st. if test (st_text st) then filter (\<lambda>n. n \<in> set (sc_dummies sc)) (attributed (st_text st)) else [])
       (sc_statements sc)))"

definition read_only_dummies :: "scope \<Rightarrow> string list" where
  "read_only_dummies sc = dummies_where (\<lambda>s. found INTENT_IN_RE s \<or> found VALUE_RE s) sc"

definition dynamic_dummies :: "scope \<Rightarrow> string list" where
  "dynamic_dummies sc = dummies_where (\<lambda>s. found DYNAMIC_RE s \<and> \<not> found INTENT_IN_RE s) sc"

definition GROUP_RE :: regex where
  "GROUP_RE = seqs [chr_re CHR ''/'', many re_space, Grp 1 ident_re, many re_space, chr_re CHR ''/'', Grp 2 (many (Cls True [(47, 47)]))]"

definition group_members :: "string \<Rightarrow> (string \<times> string) list" where
  "group_members s =
     concat (map (\<lambda>m. map (Pair (grp0 m 1)) (filter (\<lambda>n. n \<noteq> []) (map strip (split_on CHR '','' (grp0 m 2)))))
       (re_finditer GROUP_RE (if startswith s ''namelist'' then s else [])))"

definition group_names :: "string \<Rightarrow> string list" where
  "group_names s = map (\<lambda>m. grp0 m 1) (re_finditer GROUP_RE (if startswith s ''namelist'' then s else []))"

text \<open>A dictionary with the empty set for a group whose list names nothing.\<close>

definition namelist_groups :: "program \<Rightarrow> (string \<times> string list) list" where
  "namelist_groups p =
     (let ss = concat (map (texts p) (all_scopes p)) in
      map (\<lambda>g. (g, map snd (filter (\<lambda>m. fst m = g) (concat (map group_members ss))))) (remdups (concat (map group_names ss))))"

section \<open>What runs between two calls\<close>

definition DO_RE :: regex where
  "DO_RE = seqs [Bol, opt (seqs [ident_re, many re_space, chr_re CHR '':'', many re_space]), lit ''do'', Wordb]"

definition END_DO_RE :: regex where
  "END_DO_RE = seqs [Bol, alts [seqs [lit ''end'', many re_space, lit ''do''], lit ''enddo''], Wordb]"

text \<open>The scan of the main program: the loops open, innermost first, the end of each closed loop, and the statements that can
  lead to a call with the outermost loop around each.\<close>

record loop_scan =
  lp_open :: "nat list"
  lp_end :: "(nat \<times> nat) list"
  lp_outermost :: "(nat \<times> nat) list"
  lp_leading :: "nat list"

definition scan_statement :: "(string \<Rightarrow> bool) \<Rightarrow> nat \<times> string \<Rightarrow> loop_scan \<Rightarrow> loop_scan" where
  "scan_statement leads x st =
     (case x of (i, s) \<Rightarrow>
       (if starts END_DO_RE s then
          (case lp_open st of [] \<Rightarrow> st | d # ds \<Rightarrow> st\<lparr>lp_open := ds, lp_end := AList.update d i (lp_end st)\<rparr>)
        else
          (let st = (if leads s
                     then st\<lparr>lp_leading := lp_leading st @ [i],
                             lp_outermost := (if lp_open st = [] then lp_outermost st
                                              else AList.update i (last (lp_open st)) (lp_outermost st))\<rparr>
                     else st)
           in if starts DO_RE s then st\<lparr>lp_open := i # lp_open st\<rparr> else st)))"

definition scan_loops :: "(string \<Rightarrow> bool) \<Rightarrow> string list \<Rightarrow> loop_scan" where
  "scan_loops leads ss =
     fold (scan_statement leads) (List.enumerate 0 ss) \<lparr>lp_open = [], lp_end = [], lp_outermost = [], lp_leading = []\<rparr>"

definition between_calls :: "(string \<Rightarrow> bool) \<Rightarrow> string list \<Rightarrow> nat \<times> nat" where
  "between_calls leads ss =
     (let sc = scan_loops leads ss; leading = lp_leading sc in
      if leading = [] then (length ss, length ss)
      else (case map_of (lp_outermost sc) (hd leading) of Some d \<Rightarrow> d | None \<Rightarrow> hd leading,
            case map_of (lp_outermost sc) (last leading) of
              Some d \<Rightarrow> (case map_of (lp_end sc) d of Some e \<Rightarrow> e | None \<Rightarrow> length ss - 1) + 1
            | None \<Rightarrow> last leading + 1))"

section \<open>The analysis\<close>

text \<open>One round of the search for the procedures that can lead to a call, and the rounds until nothing is added.\<close>

definition lead_step :: "(nat \<Rightarrow> nat list) \<Rightarrow> nat \<Rightarrow> nat list \<Rightarrow> nat list" where
  "lead_step callees_of i leads =
     (if i \<notin> set leads \<and> (\<exists>t \<in> set (callees_of i). t \<in> set leads) then leads @ [i] else leads)"

lemma lead_fold_grows: "\<exists>new. fold (lead_step cs) is leads = leads @ new \<and> set new \<subseteq> set is - set leads \<and> distinct new"
proof (induction "is" arbitrary: leads)
  case (Cons i "is")
  obtain n1 where n1: "lead_step cs i leads = leads @ n1" "set n1 \<subseteq> {i} - set leads" "distinct n1"
    by (cases "i \<notin> set leads \<and> (\<exists>t\<in>set (cs i). t \<in> set leads)") (auto simp: lead_step_def)
  obtain n2 where n2: "fold (lead_step cs) is (leads @ n1) = (leads @ n1) @ n2" "set n2 \<subseteq> set is - set (leads @ n1)" "distinct n2"
    using Cons.IH by blast
  have "fold (lead_step cs) (i # is) leads = leads @ (n1 @ n2)" using n1(1) n2(1) by simp
  moreover have "set (n1 @ n2) \<subseteq> set (i # is) - set leads" "distinct (n1 @ n2)" using n1 n2 by auto
  ultimately show ?case by blast
qed simp

function lead_rounds :: "(nat \<Rightarrow> nat list) \<Rightarrow> nat list \<Rightarrow> nat list \<Rightarrow> nat list" where
  "lead_rounds cs procs leads =
     (let next = fold (lead_step cs) procs leads in if length leads < length next then lead_rounds cs procs next else next)"
  by pat_completeness auto
termination
proof (relation "measure (\<lambda>(cs, procs, leads). card (set procs - set leads))")
  fix cs procs leads x
  assume x: "x = fold (lead_step cs) procs leads" "length leads < length x"
  obtain new where n: "x = leads @ new" "set new \<subseteq> set procs - set leads" using lead_fold_grows [of cs procs leads] x(1) by blast
  with x(2) obtain a where "a \<in> set new" by (cases new) auto
  with n have "set procs - set x \<subset> set procs - set leads" by auto
  then show "((cs, procs, x), cs, procs, leads) \<in> measure (\<lambda>(cs, procs, leads). card (set procs - set leads))"
    by (simp add: psubset_card_mono)
qed simp

declare lead_rounds.simps [simp del]

record analysis =
  an_program :: program
  an_keeps :: "string list"
  an_main :: "nat option"
  an_between :: "(nat \<times> nat \<times> nat) list"
  an_after :: "string list"
  an_escaping :: "string list"
  an_namelists :: "(string \<times> string list) list"

definition main_program :: "program \<Rightarrow> nat option" where
  "main_program p = (case filter (\<lambda>i. sc_kind (pg_scopes p ! i) = Program) (pg_procedures p) of [i] \<Rightarrow> Some i | _ \<Rightarrow> None)"

definition leading_procedures :: "program \<Rightarrow> nat \<Rightarrow> nat list" where
  "leading_procedures p t = lead_rounds (called_by p) (pg_procedures p) [t]"

definition main_range :: "program \<Rightarrow> nat \<Rightarrow> nat \<Rightarrow> nat \<times> nat" where
  "main_range p t m =
     between_calls (\<lambda>s. list_ex (\<lambda>q. q \<in> set (leading_procedures p t)) (statement_callees p s)) (texts p m)"

definition roots :: "program \<Rightarrow> nat \<Rightarrow> nat list" where
  "roots p t =
     (let ps = pg_procedures p in
      remdups (t # address_taken_ids p @
        filter (\<lambda>i. sc_bind_c (pg_scopes p ! i) \<or> sc_name (pg_scopes p ! i) \<in> set (pg_bound p)) ps @
        (case main_program p of
           None \<Rightarrow> ps
         | Some m \<Rightarrow> (case main_range p t m of (a, b) \<Rightarrow> concat (map (statement_callees p) (take (b - a) (drop a (texts p m))))))))"

text \<open>\<open>callees.get\<close> has no entry for what is no procedure of the program.\<close>

definition known_callees :: "program \<Rightarrow> nat \<Rightarrow> nat list" where
  "known_callees p i = (if i \<in> set (pg_procedures p) then called_by p i else [])"

definition whole :: "program \<Rightarrow> nat \<Rightarrow> nat \<times> nat" where
  "whole p i = (0, length (texts p i))"

text \<open>\<open>None\<close> would be an analysis that does not return; \<open>ord\<close> is the order Python lists the roots in.\<close>

definition startup_analysis ::
  "(nat list \<Rightarrow> nat list) \<Rightarrow> program \<Rightarrow> key \<Rightarrow> string list \<Rightarrow> (outside_error + analysis) option" where
  "startup_analysis ord p routine keeps =
     (case targets p routine of
        [] \<Rightarrow> Some (Inl (NoProcedure routine))
      | t # _ \<Rightarrow>
          map_option (\<lambda>reached.
            (let start = (case main_program p of None \<Rightarrow> [] | Some m \<Rightarrow> [(m, main_range p t m)]) in
             Inr \<lparr>an_program = p, an_keeps = keeps, an_main = main_program p,
                  an_between = fold (\<lambda>i. AList.update i (whole p i)) reached start,
                  an_after = remdups (map (qualified_name p) (filter (\<lambda>i. i \<in> set (pg_procedures p)) reached)),
                  an_escaping = escaping_procedures p, an_namelists = namelist_groups p\<rparr>))
            (spread (known_callees p) (roots p t) (rev (ord (roots p t)))))"

section \<open>How a statement changes a variable\<close>

datatype change =
    Allocated string              \<comment> \<open>the verb: allocated, deallocated, nullified\<close>
  | PointerAssociated
  | AssignedWhole
  | PassedMoveAlloc
  | PassedDynamic string string   \<comment> \<open>procedure and dummy\<close>
  | DoVariable
  | SetBy string
  | InternalWrite
  | ReadInto
  | ReadNamelist
  | PassedUnknown string
  | PassedChanged string "string option"
  | Used use_kind
  | MayKeep string
  | Assigned
  | ModuleMissing string

definition stripped_base :: "string \<Rightarrow> string option" where
  "stripped_base e = map_option m_text (re_match ID_RE (strip e))"

definition based :: "string \<Rightarrow> string list \<Rightarrow> bool" where
  "based e names = among (stripped_base e) names"

definition KEYWORD_ARG_RE :: regex where
  "KEYWORD_ARG_RE = seqs [Bol, many re_space, ident_re, many re_space, chr_re CHR ''='', Look False (chr_re CHR ''='')]"

definition CALL_RE :: regex where
  "CALL_RE = seqs [Bol, lit ''call'', some1 re_space, Grp 1 ident_re, many re_space,
     opt (seqs [chr_re CHR ''('', Grp 2 (many re_dot), chr_re CHR '')'']), many re_space, Eol]"

definition DO_VARIABLE_RE :: regex where
  "DO_VARIABLE_RE = seqs [Bol, opt (seqs [ident_re, many re_space, chr_re CHR '':'', many re_space]), lit ''do'', some1 re_space,
     opt (Seq (some1 re_digit) (some1 re_space)), Grp 1 ident_re, many re_space, chr_re CHR ''='']"

definition IO_RE :: regex where
  "IO_RE = seqs [Bol, Grp 1 (alts (map lit [''read'', ''write'', ''open'', ''close'', ''inquire'', ''backspace'', ''rewind'',
     ''endfile'', ''flush'', ''wait''])), many re_space, chr_re CHR ''('']"

definition io_inputs :: "string list" where
  "io_inputs = [''unit'', ''fmt'', ''file'', ''nml'', ''rec'', ''status'', ''access'', ''form'', ''action'', ''position'', ''advance'',
     ''decimal'', ''round'', ''sign'', ''delim'', ''pad'', ''blank'', ''encoding'', ''asynchronous'', ''id'', ''pos'', ''recl'',
     ''err'', ''end'', ''eor'', ''convert'']"

definition subscript_re :: regex where
  "subscript_re = seqs [many re_space, chr_re CHR ''('', many re_dot, chr_re CHR '')'']"

definition DESIGNATOR_RE :: regex where
  "DESIGNATOR_RE = seqs [Bol, ident_re, opt (Grp 1 subscript_re),
     many (Grp 2 (seqs [many re_space, chr_re CHR ''%'', many re_space, ident_re, opt (Grp 3 subscript_re)])), Eol]"

text \<open>\<open>s.partition("=")\<close>: the part in front, whether there is an equals sign, the part behind.\<close>

definition partition_eq :: "string \<Rightarrow> string \<times> bool \<times> string" where
  "partition_eq s = (case split_once ''='' s of Some (a, b) \<Rightarrow> (a, True, b) | None \<Rightarrow> (s, False, []))"

definition verb :: "string \<Rightarrow> change" where
  "verb word = Allocated (if word = ''nullify'' then ''nullified'' else word @ ''d'')"

definition call_parts :: "string \<Rightarrow> (string \<times> string list) option" where
  "call_parts s = map_option (\<lambda>m. (grp0 m 1, split_items (grp0 m 2))) (re_match CALL_RE s)"

definition called_named :: "program \<Rightarrow> string \<Rightarrow> nat list" where
  "called_named p callee = concat (map (procs_named p) (List.insert callee (members callee (pg_generics p))))"

text \<open>The keyword of an actual argument, if it has one, and its value.\<close>

definition argument_parts :: "string \<Rightarrow> string option \<times> string" where
  "argument_parts arg =
     (if starts KEYWORD_ARG_RE arg then (case partition_eq arg of (k, _, v) \<Rightarrow> (Some (strip k), v)) else (None, arg))"

definition dummy_for :: "scope \<Rightarrow> string option \<Rightarrow> nat \<Rightarrow> string option" where
  "dummy_for sc keyword pos =
     (case keyword of
        Some k \<Rightarrow> Some k
      | None \<Rightarrow> (if pos < length (sc_dummy_order sc) then Some (sc_dummy_order sc ! pos) else None))"

definition passes_variable :: "string \<Rightarrow> string list \<Rightarrow> bool" where
  "passes_variable v names = (starts DESIGNATOR_RE (strip v) \<and> based v names)"

definition ALLOC_RE :: regex where
  "ALLOC_RE = seqs [Bol, Grp 1 (alts (map lit [''allocate'', ''deallocate'', ''nullify''])), many re_space, chr_re CHR ''('']"

text \<open>The items between the parentheses that open at the end of a match, and what follows them.\<close>

definition paren_items :: "rmatch \<Rightarrow> string \<Rightarrow> string list" where
  "paren_items m s = split_items (take (matching_paren s (m_end m - 1) - m_end m) (drop (m_end m) s))"

definition POINTER_HEAD_RE :: regex where
  "POINTER_HEAD_RE = any_word [''associate'', ''use'', ''procedure'', ''select'']"

definition first_passed :: "program \<Rightarrow> (scope \<Rightarrow> string option \<Rightarrow> bool) \<Rightarrow> nat list \<Rightarrow> string option \<Rightarrow> nat \<Rightarrow> (nat \<times> string option) option" where
  "first_passed p hit cands keyword pos =
     map_option (\<lambda>q. (q, dummy_for (pg_scopes p ! q) keyword pos))
       (List.find (\<lambda>q. hit (pg_scopes p ! q) (dummy_for (pg_scopes p ! q) keyword pos)) cands)"

definition reshaping_call :: "program \<Rightarrow> string list \<Rightarrow> string \<Rightarrow> string list \<Rightarrow> change list" where
  "reshaping_call p names callee args =
     concat (map (\<lambda>(pos, arg).
       (case argument_parts arg of (keyword, v) \<Rightarrow>
          (if \<not> passes_variable v names then []
           else case first_passed p (\<lambda>q d. among d (dynamic_dummies q)) (called_named p callee) keyword pos of
             Some (q, Some d) \<Rightarrow> [PassedDynamic (qualified_name p q) d]
           | _ \<Rightarrow> []))) (List.enumerate 0 args))"

definition reshaped_by :: "program \<Rightarrow> string \<Rightarrow> string list \<Rightarrow> bool \<Rightarrow> change list" where
  "reshaped_by p s names allocatable =
     (case re_match ALLOC_RE s of
        Some m \<Rightarrow>
          map (\<lambda>_. verb (grp0 m 1)) (filter (\<lambda>a. \<not> starts KEYWORD_ARG_RE a \<and> based a names) (paren_items m s))
      | None \<Rightarrow>
          (if (case top_level s ''=>'' of None \<Rightarrow> False | Some a \<Rightarrow> a > 0 \<and> based (take a s) names) \<and> \<not> starts POINTER_HEAD_RE s
           then [PointerAssociated]
           else if allocatable \<and> (case top_level s ''='' of None \<Rightarrow> False
                  | Some e \<Rightarrow> e > 0 \<and> is_ident (strip (take e s)) \<and> strip (take e s) \<in> set names)
           then [AssignedWhole]
           else case call_parts s of
             None \<Rightarrow> []
           | Some (callee, args) \<Rightarrow>
               (if callee = ''move_alloc''
                then (if list_ex (\<lambda>a. case partition_eq a of (_, _, v) \<Rightarrow> based (if v = [] then a else v) names) args
                      then [PassedMoveAlloc] else [])
                else reshaping_call p names callee args)))"

definition allocation_changes :: "rmatch \<Rightarrow> string \<Rightarrow> string list \<Rightarrow> change list" where
  "allocation_changes m s names =
     concat (map (\<lambda>arg.
       (let changed = (case split_once ''='' arg of
              Some (k, v) \<Rightarrow> (if strip k = ''stat'' \<or> strip k = ''errmsg'' then v else k)
            | None \<Rightarrow> arg)
        in if based changed names then [verb (grp0 m 1)] else [])) (paren_items m s))"

definition specifier_changes :: "string \<Rightarrow> string \<Rightarrow> string list \<Rightarrow> change list" where
  "specifier_changes word spec names =
     (case partition_eq spec of (k, eq, v) \<Rightarrow>
       (let returned = (if word = ''inquire'' then strip k \<notin> {''unit'', ''file'', ''id''} else strip k \<notin> set io_inputs) in
        if eq \<and> returned \<and> starts DESIGNATOR_RE (strip v) \<and> based (strip v) names then [SetBy (strip k)] else []))"

definition namelists_read :: "(string \<times> string list) list \<Rightarrow> string list \<Rightarrow> string list" where
  "namelists_read nls specs =
     List.map_filter (\<lambda>spec. case partition_eq spec of (k, _, v) \<Rightarrow> (if strip k = ''nml'' then Some (strip v) else None)) specs @
     filter (\<lambda>g. map_of nls g \<noteq> None) (map strip (take 1 (drop 1 specs)))"

definition io_changes :: "(string \<times> string list) list \<Rightarrow> rmatch \<Rightarrow> string \<Rightarrow> string list \<Rightarrow> change list" where
  "io_changes nls m s names =
     (let word = grp0 m 1; specs = paren_items m s; items = drop (matching_paren s (m_end m - 1) + 1) s; unit = hd specs in
      concat (map (\<lambda>spec. specifier_changes word spec names) specs) @
      (if word = ''write'' \<and> CHR ''='' \<notin> set unit \<and> passes_variable unit names then [InternalWrite] else []) @
      (if word = ''read''
       then (if list_ex (\<lambda>item. based item names) (split_items items) then [ReadInto] else []) @
            (if list_ex (\<lambda>g. list_ex (\<lambda>n. n \<in> set (case map_of nls g of Some ns \<Rightarrow> ns | None \<Rightarrow> [])) names)
                  (namelists_read nls specs) then [ReadNamelist] else [])
       else []))"

definition changing_call :: "analysis \<Rightarrow> string list \<Rightarrow> string \<Rightarrow> string list \<Rightarrow> change list" where
  "changing_call an names callee args =
     (let p = an_program an; cands = called_named p callee in
      concat (map (\<lambda>(pos, arg).
        (case argument_parts arg of (keyword, v) \<Rightarrow>
           (if \<not> passes_variable v names then []
            else if cands = [] then (if callee \<notin> set (an_keeps an) then [PassedUnknown callee] else [])
            else case first_passed p (\<lambda>q d. \<not> among d (read_only_dummies q)) cands keyword pos of
              Some (q, d) \<Rightarrow> [PassedChanged (qualified_name p q) d]
            | None \<Rightarrow> []))) (List.enumerate 0 args)))"

definition changed_by :: "analysis \<Rightarrow> string \<Rightarrow> string list \<Rightarrow> change list" where
  "changed_by an s names =
     (case re_match ALLOC_RE s of
        Some m \<Rightarrow> allocation_changes m s names
      | None \<Rightarrow>
          (if (case re_match DO_VARIABLE_RE s of None \<Rightarrow> False | Some m \<Rightarrow> grp0 m 1 \<in> set names) then [DoVariable]
           else case re_match IO_RE s of
             Some m \<Rightarrow> io_changes (an_namelists an) m s names
           | None \<Rightarrow>
               (if mentions names s
                then (case call_parts s of None \<Rightarrow> [] | Some (callee, args) \<Rightarrow> changing_call an names callee args)
                else [])))"

section \<open>Where a variable changes\<close>

definition is_allocatable :: "program \<Rightarrow> key \<Rightarrow> bool" where
  "is_allocatable p k =
     (case map_of (pg_modules p) (fst k) of
        None \<Rightarrow> False
      | Some i \<Rightarrow> list_ex (\<lambda>s. found (seqs [Wordb, lit ''allocatable'', Wordb]) s \<and>
                     (case declared_entities s of None \<Rightarrow> False | Some es \<Rightarrow> snd k \<in> set es)) (texts p i))"

definition kind_is :: "use_kind \<Rightarrow> use_kind \<Rightarrow> bool" where
  "kind_is k k' = (case (k, k') of (Alias _, Alias _) \<Rightarrow> True | _ \<Rightarrow> k = k')"

definition statement_changes ::
  "analysis \<Rightarrow> bool \<Rightarrow> bool \<Rightarrow> nat \<Rightarrow> string list \<Rightarrow> bool \<Rightarrow> string \<Rightarrow> change list" where
  "statement_changes an shape allocatable i names between s =
     (if \<not> mentions names s \<and> \<not> startswith s ''read'' then []
      else if shape then (if between then reshaped_by (an_program an) s names allocatable else [])
      else
        (let kinds = classify s names;
             kept = sort (remdups (filter (\<lambda>t. t \<in> set (an_escaping an) \<and> t \<noteq> sc_name (pg_scopes (an_program an) ! i)) (token_names s)))
         in map Used (filter (\<lambda>k. list_ex (kind_is k) kinds) [Alias [], Address, Shared]) @
            (if mentions names s then (case kept of [] \<Rightarrow> [] | n # _ \<Rightarrow> [MayKeep n]) else []) @
            (if \<not> between then []
             else (if Write \<in> set kinds then [Assigned] else []) @ changed_by an s names)))"

definition scope_changes ::
  "analysis \<Rightarrow> key \<Rightarrow> bool \<Rightarrow> bool \<Rightarrow> nat \<Rightarrow> (change \<times> location) list \<times> cache \<Rightarrow> (change \<times> location) list \<times> cache" where
  "scope_changes an key shape allocatable i acc =
     (let p = an_program an; (names, memo) = names_in p i key (snd acc) in
      if names = [] then (fst acc, memo)
      else (let (start, stop) = (case map_of (an_between an) i of Some r \<Rightarrow> r | None \<Rightarrow> (0, 0)) in
            (fst acc @ concat (map (\<lambda>(j, st). map (\<lambda>c. (c, location_of p i st))
               (statement_changes an shape allocatable i names (start \<le> j \<and> j < stop) (st_text st)))
               (List.enumerate 0 (sc_statements (pg_scopes p ! i)))), memo)))"

definition find_changes :: "analysis \<Rightarrow> key \<Rightarrow> bool \<Rightarrow> cache \<Rightarrow> (change \<times> location) list \<times> cache" where
  "find_changes an key shape memo =
     (let p = an_program an in
      if map_of (pg_modules p) (fst key) = None then ([(ModuleMissing (fst key), ([], [], 0))], memo)
      else fold (scope_changes an key shape (shape \<and> is_allocatable p key)) (all_scopes p) ([], memo))"

text \<open>\<open>changes\<close> with its cache, and the cache of the resolver.\<close>

record memory =
  me_changes :: "((key \<times> bool) \<times> (change \<times> location) list) list"
  me_names :: cache

definition changes :: "analysis \<Rightarrow> key \<Rightarrow> bool \<Rightarrow> memory \<Rightarrow> (change \<times> location) list \<times> memory" where
  "changes an k shape me =
     (let key = (lower (fst k), lower (snd k)) in
      case map_of (me_changes me) (key, shape) of
        Some cs \<Rightarrow> (cs, me)
      | None \<Rightarrow> (let (cs, memo) = find_changes an key shape (me_names me)
                in (cs, \<lparr>me_changes = AList.update (key, shape) cs (me_changes me), me_names = memo\<rparr>)))"

section \<open>The range of the main program\<close>

text \<open>The loops around a statement: the DO in front of it, open or with its end behind it.\<close>

definition around :: "loop_scan \<Rightarrow> nat \<Rightarrow> nat \<Rightarrow> bool" where
  "around st d i \<longleftrightarrow> d < i \<and> (d \<in> set (lp_open st) \<or> (\<exists>e. map_of (lp_end st) d = Some e \<and> i < e))"

definition calls_here :: "(string \<Rightarrow> bool) \<Rightarrow> string list \<Rightarrow> nat \<Rightarrow> bool" where
  "calls_here leads ss i \<longleftrightarrow> i < length ss \<and> \<not> starts END_DO_RE (ss ! i) \<and> leads (ss ! i)"

definition outermost_ok :: "loop_scan \<Rightarrow> nat \<Rightarrow> bool" where
  "outermost_ok st i \<longleftrightarrow>
     (case map_of (lp_outermost st) i of
        None \<Rightarrow> \<forall>d. \<not> around st d i
      | Some d \<Rightarrow> around st d i \<and> (\<forall>d'. around st d' i \<longrightarrow> d \<le> d'))"

text \<open>After the first \<open>k\<close> statements: the loops are nested, and the leading statements and their outermost loops are known.\<close>

definition scanned :: "(string \<Rightarrow> bool) \<Rightarrow> string list \<Rightarrow> nat \<Rightarrow> loop_scan \<Rightarrow> bool" where
  "scanned leads ss k st \<longleftrightarrow>
     sorted_wrt (>) (lp_open st) \<and> (\<forall>d \<in> set (lp_open st). d < k) \<and>
     (\<forall>d e. map_of (lp_end st) d = Some e \<longrightarrow> d < e \<and> e < k \<and> d \<notin> set (lp_open st) \<and> starts END_DO_RE (ss ! e)) \<and>
     (\<forall>d e d' e'. map_of (lp_end st) d = Some e \<longrightarrow> map_of (lp_end st) d' = Some e' \<longrightarrow> d < d' \<longrightarrow> e < d' \<or> e' < e) \<and>
     (\<forall>d e d'. map_of (lp_end st) d = Some e \<longrightarrow> d' \<in> set (lp_open st) \<longrightarrow> d < d' \<longrightarrow> e < d') \<and>
     lp_leading st = filter (calls_here leads ss) [0..<k] \<and>
     (\<forall>i \<in> set (lp_leading st). outermost_ok st i) \<and> (\<forall>i. map_of (lp_outermost st) i \<noteq> None \<longrightarrow> i < k)"

lemma around_cong: "(\<And>d. around st d i = around st' d i) \<Longrightarrow> map_of (lp_outermost st) i = map_of (lp_outermost st') i \<Longrightarrow>
    outermost_ok st i = outermost_ok st' i"
  by (simp add: outermost_ok_def split: option.split)

lemma scanned_end:
  assumes "scanned leads ss k st" and "k < length ss" and "starts END_DO_RE (ss ! k)"
  shows "scanned leads ss (Suc k) (scan_statement leads (k, ss ! k) st)"
proof (cases "lp_open st")
  case Nil
  then have "scan_statement leads (k, ss ! k) st = st" using assms(3) by (simp add: scan_statement_def)
  moreover have "\<not> calls_here leads ss k" using assms(3) by (simp add: calls_here_def)
  ultimately show ?thesis using assms(1) Nil unfolding scanned_def by (auto simp: less_Suc_eq)
next
  case (Cons d ds)
  let ?st = "st\<lparr>lp_open := ds, lp_end := AList.update d k (lp_end st)\<rparr>"
  have st: "scan_statement leads (k, ss ! k) st = ?st" using assms(3) Cons by (simp add: scan_statement_def)
  have m: "map_of (lp_end ?st) = (map_of (lp_end st))(d \<mapsto> k)" by (simp add: update_conv')
  have no: "\<not> calls_here leads ss k" using assms(3) by (simp add: calls_here_def)
  note I = assms(1) [unfolded scanned_def]
  have d: "d < k" "d \<notin> set ds" "\<forall>o' \<in> set ds. o' < d" using I Cons by auto
  have ar: "around ?st d' i = around st d' i" if "i < k" for d' i
    unfolding around_def m using Cons d that by (cases "d' = d") (auto simp del: fun_upd_apply simp add: fun_upd_apply)
  have lead: "i < k" if "i \<in> set (lp_leading st)" for i using I that by auto
  have "outermost_ok ?st i = outermost_ok st i" if "i \<in> set (lp_leading st)" for i
    by (rule around_cong) (use ar lead [OF that] in auto)
  then have o: "\<forall>i \<in> set (lp_leading ?st). outermost_ok ?st i" using I by simp
  have c: "d1 < e1 \<and> e1 < Suc k \<and> d1 \<notin> set ds \<and> starts END_DO_RE (ss ! e1)" if "map_of (lp_end ?st) d1 = Some e1" for d1 e1
  proof (cases "d1 = d")
    case True
    then show ?thesis using that d assms(3) by (simp add: update_conv')
  next
    case False
    then have "map_of (lp_end st) d1 = Some e1" using that by (simp add: update_conv')
    then have "d1 < e1 \<and> e1 < k \<and> d1 \<notin> set (lp_open st) \<and> starts END_DO_RE (ss ! e1)" using I by blast
    then show ?thesis using Cons by simp
  qed
  have nest: "e1 < d2 \<or> e2 < e1" if pre: "map_of (lp_end ?st) d1 = Some e1" "map_of (lp_end ?st) d2 = Some e2" "d1 < d2" for d1 e1 d2 e2
  proof -
    have old: "map_of (lp_end st) d' = Some e'" if "map_of (lp_end ?st) d' = Some e'" "d' \<noteq> d" for d' e'
      using that by (simp add: update_conv')
    show ?thesis
    proof (cases "d1 = d")
      case True
      then have "e1 = k" using pre(1) by (simp add: update_conv')
      moreover have "map_of (lp_end st) d2 = Some e2" using old [OF pre(2)] pre(3) True by simp
      then have "e2 < k" using I by blast
      ultimately show ?thesis by simp
    next
      case False
      note o1 = old [OF pre(1) False]
      show ?thesis
      proof (cases "d2 = d")
        case True
        then have "e1 < d" using o1 I Cons pre(3) by (metis list.set_intros(1))
        then show ?thesis using True by simp
      next
        case False
        then show ?thesis using o1 old [OF pre(2)] I pre(3) by blast
      qed
    qed
  qed
  have out: "e1 < d2" if "map_of (lp_end ?st) d1 = Some e1" "d2 \<in> set ds" "d1 < d2" for d1 e1 d2
  proof -
    have "d1 \<noteq> d" using d(3) that by auto
    then have "map_of (lp_end st) d1 = Some e1" using that by (simp add: update_conv')
    then show ?thesis using I Cons that by (metis list.set_intros(2))
  qed
  show ?thesis unfolding st scanned_def
    using I Cons o c nest out no by (auto simp: less_Suc_eq)
qed

text \<open>The innermost open loop is the last one begun, so the outermost is the last of the list.\<close>

lemma last_least: "sorted_wrt (>) xs \<Longrightarrow> d \<in> set xs \<Longrightarrow> last xs \<le> (d :: nat)"
  by (induction xs) (auto simp: less_imp_le)

lemma scanned_other:
  assumes "scanned leads ss k st" and "k < length ss" and "\<not> starts END_DO_RE (ss ! k)"
  shows "scanned leads ss (Suc k) (scan_statement leads (k, ss ! k) st)"
proof -
  note I = assms(1) [unfolded scanned_def]
  define mid where "mid = (if leads (ss ! k)
     then st\<lparr>lp_leading := lp_leading st @ [k],
             lp_outermost := (if lp_open st = [] then lp_outermost st else AList.update k (last (lp_open st)) (lp_outermost st))\<rparr>
     else st)"
  let ?st = "if starts DO_RE (ss ! k) then mid\<lparr>lp_open := k # lp_open mid\<rparr> else mid"
  have st: "scan_statement leads (k, ss ! k) st = ?st" using assms(3) by (simp add: scan_statement_def mid_def Let_def)
  have same: "lp_open mid = lp_open st" "lp_end mid = lp_end st" "lp_end ?st = lp_end st" "lp_leading ?st = lp_leading mid"
    "lp_outermost ?st = lp_outermost mid"
    by (simp_all add: mid_def)
  have lead: "lp_leading mid = filter (calls_here leads ss) [0..<Suc k]"
    using I assms(2,3) by (simp add: mid_def calls_here_def)
  have ar: "around ?st d i = around st d i" if "i \<le> k" for d i
    using that by (auto simp: around_def same)
  have fresh: "map_of (lp_outermost st) k = None" using I by blast
  have om: "map_of (lp_outermost ?st) i = map_of (lp_outermost st) i" if "i \<noteq> k" for i
    using that by (simp add: same mid_def update_conv')
  have o: "outermost_ok ?st i" if "i \<in> set (lp_leading mid)" for i
  proof (cases "i = k")
    case False
    have "i < Suc k" "calls_here leads ss i" using that by (simp_all only: lead set_filter set_upt mem_Collect_eq atLeastLessThan_iff)
    moreover have "set (lp_leading st) = {i. i < k \<and> calls_here leads ss i}" using I by (simp add: Collect_conj_eq lessThan_def)
    ultimately have "i \<in> set (lp_leading st)" "i < k" using False by simp_all
    then have "outermost_ok st i" using I by blast
    then show ?thesis using around_cong [of ?st i st, OF ar om] \<open>i < k\<close> by simp
  next
    case True
    have "calls_here leads ss i" using that by (simp only: lead set_filter mem_Collect_eq)
    then have "leads (ss ! k)" using True by (simp add: calls_here_def)
    have closed: "\<not> k < e" if "map_of (lp_end st) d = Some e" for d e using I that by (meson less_asym)
    have ark: "around st d k \<longleftrightarrow> d \<in> set (lp_open st)" for d
      unfolding around_def using I closed by blast
    show ?thesis
    proof (cases "lp_open st = []")
      case True
      then have "map_of (lp_outermost ?st) k = None" using \<open>leads (ss ! k)\<close> fresh by (simp add: same mid_def)
      then show ?thesis unfolding outermost_ok_def \<open>i = k\<close> using ar [of k] ark True by simp
    next
      case False
      then have "map_of (lp_outermost ?st) k = Some (last (lp_open st))" using \<open>leads (ss ! k)\<close> by (simp add: same mid_def update_conv')
      moreover have "last (lp_open st) \<in> set (lp_open st)" using False by (rule last_in_set)
      moreover have "d \<in> set (lp_open st) \<Longrightarrow> last (lp_open st) \<le> d" for d using last_least I by blast
      ultimately show ?thesis unfolding outermost_ok_def \<open>i = k\<close> using ar [of k] ark by simp
    qed
  qed
  have om_less: "i < Suc k" if "map_of (lp_outermost ?st) i \<noteq> None" for i
    using om [of i] that I by (cases "i = k") (auto intro: less_SucI)
  have opens: "sorted_wrt (>) (lp_open ?st)" "\<forall>d \<in> set (lp_open ?st). d < Suc k" using I by (auto simp: same less_SucI)
  have ends: "\<forall>d e. map_of (lp_end ?st) d = Some e \<longrightarrow> d < e \<and> e < Suc k \<and> d \<notin> set (lp_open ?st) \<and> starts END_DO_RE (ss ! e)"
  proof (intro allI impI)
    fix d e
    assume "map_of (lp_end ?st) d = Some e"
    then have "d < e \<and> e < k \<and> d \<notin> set (lp_open st) \<and> starts END_DO_RE (ss ! e)" using I same(3) by metis
    then show "d < e \<and> e < Suc k \<and> d \<notin> set (lp_open ?st) \<and> starts END_DO_RE (ss ! e)" by (auto simp: same)
  qed
  have out: "\<forall>d e d'. map_of (lp_end ?st) d = Some e \<longrightarrow> d' \<in> set (lp_open ?st) \<longrightarrow> d < d' \<longrightarrow> e < d'"
  proof (intro allI impI)
    fix d e d'
    assume "map_of (lp_end ?st) d = Some e" and d': "d' \<in> set (lp_open ?st)" "d < d'"
    then have e: "map_of (lp_end st) d = Some e" using same(3) by metis
    then have "e < k" using I by blast
    moreover have "d' = k \<or> d' \<in> set (lp_open st)" using d' by (auto simp: same split: if_splits)
    ultimately show "e < d'" using I e d'(2) by blast
  qed
  have nest: "\<forall>d e d' e'. map_of (lp_end ?st) d = Some e \<longrightarrow> map_of (lp_end ?st) d' = Some e' \<longrightarrow> d < d' \<longrightarrow> e < d' \<or> e' < e"
    unfolding same(3) using I by blast
  show ?thesis
    unfolding st scanned_def using opens ends nest out o lead om_less same(4) by simp
qed

lemma scanned_all: "scanned leads ss (length ss) (scan_loops leads ss)"
proof -
  let ?init = "\<lparr>lp_open = [], lp_end = [], lp_outermost = [], lp_leading = []\<rparr>"
  have "k \<le> length ss \<Longrightarrow> scanned leads ss k (fold (scan_statement leads) (List.enumerate 0 (take k ss)) ?init)" for k
  proof (induction k)
    case 0
    show ?case by (simp add: scanned_def)
  next
    case (Suc k)
    then have k: "k < length ss" by simp
    have "List.enumerate 0 (take (Suc k) ss) = List.enumerate 0 (take k ss) @ [(k, ss ! k)]"
      using k by (simp add: take_Suc_conv_app_nth enumerate_append_eq)
    then have "fold (scan_statement leads) (List.enumerate 0 (take (Suc k) ss)) ?init =
        scan_statement leads (k, ss ! k) (fold (scan_statement leads) (List.enumerate 0 (take k ss)) ?init)" by simp
    with Suc k show ?case using scanned_end [OF _ k] scanned_other [OF _ k] by (cases "starts END_DO_RE (ss ! k)") simp_all
  qed
  from this [of "length ss"] show ?thesis by (simp add: scan_loops_def)
qed

section \<open>The statements between two calls\<close>

text \<open>What may run after a statement: any later one, or, inside a counted loop, any of its body again. A loop without an
  end statement of its own reaches to the end.\<close>

definition loops_of :: "(string \<Rightarrow> bool) \<Rightarrow> string list \<Rightarrow> (nat \<times> nat) set" where
  "loops_of leads ss =
     {(d, e). map_of (lp_end (scan_loops leads ss)) d = Some e} \<union> {(d, length ss - 1) | d. d \<in> set (lp_open (scan_loops leads ss))}"

definition may_follow :: "(string \<Rightarrow> bool) \<Rightarrow> string list \<Rightarrow> (nat \<times> nat) set" where
  "may_follow leads ss = {(i, j). j < length ss \<and> (i < j \<or> (\<exists>(d, e) \<in> loops_of leads ss. d < j \<and> j \<le> i \<and> i \<le> e))}"

text \<open>A loop that reaches over a statement that may call is around it.\<close>

lemma loop_around:
  assumes "(d, e) \<in> loops_of leads ss" and "calls_here leads ss i" and "d < i" and "i \<le> e"
  shows "around (scan_loops leads ss) d i"
proof -
  note I = scanned_all [of leads ss, unfolded scanned_def]
  consider "map_of (lp_end (scan_loops leads ss)) d = Some e" | "d \<in> set (lp_open (scan_loops leads ss))"
    using assms(1) by (auto simp: loops_of_def)
  then show ?thesis
  proof cases
    case 1
    then have "starts END_DO_RE (ss ! e)" using I by blast
    then have "i \<noteq> e" using assms(2) by (auto simp: calls_here_def)
    then show ?thesis using 1 assms(3,4) by (auto simp: around_def)
  qed (use assms(3) in \<open>simp add: around_def\<close>)
qed

text \<open>A loop that begins in front of the range and reaches into it would be around the first statement that may call.\<close>

lemma no_loop_over_start:
  assumes first: "calls_here leads ss first" and start: "start = (case map_of (lp_outermost (scan_loops leads ss)) first of Some d \<Rightarrow> d | None \<Rightarrow> first)"
    and loop: "(d, e) \<in> loops_of leads ss"
  shows "\<not> (d < start \<and> start \<le> e)"
proof
  assume d: "d < start \<and> start \<le> e"
  let ?sc = "scan_loops leads ss"
  note I = scanned_all [of leads ss, unfolded scanned_def]
  have ok: "outermost_ok ?sc first" using I first by (auto simp: calls_here_def)
  show False
  proof (cases "map_of (lp_outermost ?sc) first")
    case None
    then have "start = first" using start by simp
    then have "around ?sc d first" using loop_around [OF loop first] d by simp
    then show False using ok None by (auto simp: outermost_ok_def)
  next
    case (Some s)
    then have s: "start = s" "around ?sc s first" "\<And>d'. around ?sc d' first \<Longrightarrow> s \<le> d'" using ok start by (auto simp: outermost_ok_def)
    have "\<not> around ?sc d first" using s(1,3) d by (metis not_le)
    moreover have "d < first" using d s(1,2) by (simp add: around_def)
    ultimately have "e < first" using loop_around [OF loop first] by (meson not_le)
    have closed: "map_of (lp_end ?sc) d = Some e"
      using loop \<open>\<not> around ?sc d first\<close> \<open>d < first\<close> by (auto simp: loops_of_def around_def)
    show False
    proof (cases "s \<in> set (lp_open ?sc)")
      case True
      then have "e < s" using I closed d s(1) by blast
      then show False using d s(1) by simp
    next
      case False
      then obtain f where f: "map_of (lp_end ?sc) s = Some f" "first < f" using s(2) by (auto simp: around_def)
      then have "e < s \<or> f < e" using I closed d s(1) by blast
      then show False using d s(1) f(2) \<open>e < first\<close> by auto
    qed
  qed
qed

text \<open>A loop that begins in the range and reaches behind it would be around the last.\<close>

lemma no_loop_over_stop:
  assumes l: "calls_here leads ss l" and loop: "(d, e) \<in> loops_of leads ss" and "j < stop" and "d < j" and "stop \<le> e"
    and stop: "stop = (case map_of (lp_outermost (scan_loops leads ss)) l of
       Some d \<Rightarrow> (case map_of (lp_end (scan_loops leads ss)) d of Some e \<Rightarrow> e | None \<Rightarrow> length ss - 1) + 1 | None \<Rightarrow> l + 1)"
  shows False
proof -
  let ?sc = "scan_loops leads ss"
  note I = scanned_all [of leads ss, unfolded scanned_def]
  have ok: "outermost_ok ?sc l" using I l by (auto simp: calls_here_def)
  have n: "e < length ss" using loop I l by (auto simp: loops_of_def calls_here_def)
  show False
  proof (cases "map_of (lp_outermost ?sc) l")
    case None
    then have "stop = l + 1" using stop by simp
    then have "around ?sc d l" using loop_around [OF loop l] assms(3-5) by simp
    then show False using ok None by (auto simp: outermost_ok_def)
  next
    case (Some s)
    then have s: "around ?sc s l" "\<And>d'. around ?sc d' l \<Longrightarrow> s \<le> d'" using ok by (auto simp: outermost_ok_def)
    show False
    proof (cases "map_of (lp_end ?sc) s")
      case None
      then show False using stop Some n assms(5) by simp
    next
      case (Some f)
      then have f: "stop = f + 1" using stop \<open>map_of (lp_outermost ?sc) l = Some s\<close> by simp
      then have far: "d \<le> f" "f < e" using assms(3-5) by simp_all
      have "s \<notin> set (lp_open ?sc)" using I Some by blast
      then have "l < f" using s(1) Some by (auto simp: around_def)
      have "d = s \<Longrightarrow> False" using loop Some far \<open>s \<notin> set (lp_open ?sc)\<close> by (auto simp: loops_of_def)
      moreover have "d < s \<Longrightarrow> False"
      proof -
        assume "d < s"
        then have "d < l" "l \<le> e" using s(1) \<open>l < f\<close> far by (auto simp: around_def)
        then have "around ?sc d l" using loop_around [OF loop l] by simp
        then show False using s(2) \<open>d < s\<close> by fastforce
      qed
      moreover have "s < d \<Longrightarrow> False"
      proof -
        assume "s < d"
        consider "map_of (lp_end ?sc) d = Some e" | "d \<in> set (lp_open ?sc)" using loop by (auto simp: loops_of_def)
        then show False
        proof cases
          case 1
          then have "f < d \<or> e < f" using I Some \<open>s < d\<close> by blast
          then show False using far by simp
        next
          case 2
          then have "f < d" using I Some \<open>s < d\<close> by blast
          then show False using far by simp
        qed
      qed
      ultimately show False by (meson linorder_less_linear)
    qed
  qed
qed

lemma between_ends:
  assumes "between_calls leads ss = (start, stop)" and "calls_here leads ss a"
  obtains first l where "calls_here leads ss first" "calls_here leads ss l"
    and "\<forall>c. calls_here leads ss c \<longrightarrow> first \<le> c \<and> c \<le> l"
    and "start = (case map_of (lp_outermost (scan_loops leads ss)) first of Some d \<Rightarrow> d | None \<Rightarrow> first)"
    and "stop = (case map_of (lp_outermost (scan_loops leads ss)) l of
       Some d \<Rightarrow> (case map_of (lp_end (scan_loops leads ss)) d of Some e \<Rightarrow> e | None \<Rightarrow> length ss - 1) + 1 | None \<Rightarrow> l + 1)"
proof -
  let ?L = "filter (calls_here leads ss) [0..<length ss]"
  have L: "lp_leading (scan_loops leads ss) = ?L" using scanned_all [of leads ss] unfolding scanned_def by blast
  have in_L: "c \<in> set ?L \<longleftrightarrow> calls_here leads ss c" for c by (auto simp: calls_here_def)
  have ne: "?L \<noteq> []" using in_L [of a] assms(2) by fastforce
  have "sorted ?L" by (rule sorted_wrt_filter) simp
  then have ordered: "hd ?L \<le> c \<and> c \<le> last ?L" if "calls_here leads ss c" for c
    using that in_L [of c] by (metis hd_conv_nth in_set_conv_nth last_conv_nth le0 ne sorted_nth_mono diff_le_self less_imp_diff_less
        diff_less length_greater_0_conv zero_less_one less_Suc_eq_le Suc_diff_1)
  have "calls_here leads ss (hd ?L)" "calls_here leads ss (last ?L)" using in_L ne by (blast intro: hd_in_set last_in_set)+
  moreover have "(start, stop) = (case map_of (lp_outermost (scan_loops leads ss)) (hd ?L) of Some d \<Rightarrow> d | None \<Rightarrow> hd ?L,
      case map_of (lp_outermost (scan_loops leads ss)) (last ?L) of
       Some d \<Rightarrow> (case map_of (lp_end (scan_loops leads ss)) d of Some e \<Rightarrow> e | None \<Rightarrow> length ss - 1) + 1 | None \<Rightarrow> last ?L + 1)"
    using assms(1) ne unfolding between_calls_def L Let_def by simp
  ultimately show ?thesis using that [of "hd ?L" "last ?L"] ordered by simp
qed


definition ex_main :: "string list" where
  "ex_main = [''n = 1'', ''do i = 1, 3'', ''k = i'', ''call r'', ''m = k'', ''enddo'', ''n = 2'']"


text \<open>The condition of a loop is evaluated again and again: when it leads to the call, the body runs between two calls but is
  not in the range.\<close>

lemma condition_loop_missed: "between_calls (\<lambda>s. s = ''do while (r())'') [''do while (r())'', ''n = 2'', ''end do''] = (0, 1)"
  by code_simp

section \<open>What the analysis reaches\<close>

lemma procs_named_sub: "set (procs_named p n) \<subseteq> set (pg_procedures p)"
  by (auto simp: procs_named_def)

lemma statement_callees_sub: "set (statement_callees p s) \<subseteq> set (pg_procedures p)"
  using procs_named_sub unfolding statement_callees_def by fastforce

lemma known_callees_sub: "set (known_callees p i) \<subseteq> set (pg_procedures p)"
  using statement_callees_sub unfolding known_callees_def called_by_def by fastforce

lemma updated_ranges:
  "map_of (fold (\<lambda>i. AList.update i (f i)) is start) j = (if j \<in> set is then Some (f j) else map_of start j)"
  by (induction "is" arbitrary: start) (auto simp: update_conv')

text \<open>C35. The analysis of a routine the sources define returns, in whatever order the roots are listed; a procedure counts
  with all its statements exactly if calls lead to it from a root, the main program otherwise with the range between its
  calls of the routine, and nothing else counts.\<close>

theorem startup_ranges:
  assumes "\<forall>xs. set (ord xs) = set xs" and "targets p routine = t # ts"
  shows "\<exists>an. startup_analysis ord p routine keeps = Some (Inr an) \<and>
     map_of (an_between an) i =
       (if \<exists>r \<in> set (roots p t). (r, i) \<in> (step_rel (known_callees p))\<^sup>* then Some (whole p i)
        else if main_program p = Some i then Some (main_range p t i) else None)"
proof -
  let ?R = "set (roots p t) \<union> set (pg_procedures p)"
  have "finite ?R" by simp
  moreover have "\<And>a b. a \<in> ?R \<Longrightarrow> b \<in> set (known_callees p a) \<Longrightarrow> b \<in> ?R" using known_callees_sub by blast
  moreover have "set (rev (ord (roots p t))) \<subseteq> set (roots p t)" "\<forall>a \<in> set (roots p t) - set (rev (ord (roots p t))). set (known_callees p a) \<subseteq> set (roots p t)"
    using assms(1) by simp_all
  ultimately obtain S where S: "spread (known_callees p) (roots p t) (rev (ord (roots p t))) = Some S"
    "set S = (step_rel (known_callees p))\<^sup>* `` set (roots p t)"
    using spread_closed [of ?R "roots p t" "known_callees p" "rev (ord (roots p t))"] by blast
  let ?start = "case main_program p of None \<Rightarrow> [] | Some m \<Rightarrow> [(m, main_range p t m)]"
  have start: "map_of ?start i = (if main_program p = Some i then Some (main_range p t i) else None)"
    by (simp split: option.split)
  have "i \<in> set S \<longleftrightarrow> (\<exists>r \<in> set (roots p t). (r, i) \<in> (step_rel (known_callees p))\<^sup>*)" unfolding S(2) by blast
  then show ?thesis
    using updated_ranges [of "whole p" S ?start i] start
    by (simp add: startup_analysis_def assms(2) S(1) Let_def del: fold_simps)
qed

text \<open>The procedures that can lead to a call are those a chain of calls leads from to the routine.\<close>

lemma lead_fold_sound:
  assumes "set leads \<subseteq> {i. (i, t) \<in> (step_rel (known_callees p))\<^sup>*}" and "set is \<subseteq> set (pg_procedures p)"
  shows "set (fold (lead_step (called_by p)) is leads) \<subseteq> {i. (i, t) \<in> (step_rel (known_callees p))\<^sup>*}"
  using assms
proof (induction "is" arbitrary: leads)
  case (Cons i "is")
  have "set (lead_step (called_by p) i leads) \<subseteq> {i. (i, t) \<in> (step_rel (known_callees p))\<^sup>*}"
  proof (cases "i \<notin> set leads \<and> (\<exists>c \<in> set (called_by p i). c \<in> set leads)")
    case True
    then obtain c where c: "c \<in> set (called_by p i)" "c \<in> set leads" by blast
    have "(i, c) \<in> step_rel (known_callees p)" using c(1) Cons.prems(2) by (simp add: step_rel_def known_callees_def)
    moreover have "(c, t) \<in> (step_rel (known_callees p))\<^sup>*" using c(2) Cons.prems(1) by blast
    ultimately have "(i, t) \<in> (step_rel (known_callees p))\<^sup>*" by (rule converse_rtrancl_into_rtrancl)
    then show ?thesis using Cons.prems(1) by (auto simp: lead_step_def)
  next
    case False
    then have "lead_step (called_by p) i leads = leads" unfolding lead_step_def by (simp only: if_False)
    then show ?thesis using Cons.prems(1) by (simp only:)
  qed
  then show ?case using Cons by simp
qed simp

lemma lead_fold_fixed:
  "length (fold (lead_step cs) is leads) = length leads \<Longrightarrow> i \<in> set is \<Longrightarrow> c \<in> set (cs i) \<Longrightarrow> c \<in> set leads \<Longrightarrow> i \<in> set leads"
proof (induction "is" arbitrary: leads)
  case (Cons j "is")
  obtain new where n: "fold (lead_step cs) is (lead_step cs j leads) = lead_step cs j leads @ new" using lead_fold_grows by blast
  show ?case
  proof (cases "j \<notin> set leads \<and> (\<exists>t \<in> set (cs j). t \<in> set leads)")
    case True
    then have "lead_step cs j leads = leads @ [j]" by (simp add: lead_step_def)
    then show ?thesis using Cons.prems(1) n by simp
  next
    case False
    then have same: "lead_step cs j leads = leads" unfolding lead_step_def by (simp only: if_False)
    show ?thesis
    proof (cases "i = j")
      case True
      then show ?thesis using False Cons.prems(3,4) by blast
    next
      case False
      then show ?thesis using Cons.IH [of leads] Cons.prems same by simp
    qed
  qed
qed simp

lemma lead_rounds_closed:
  assumes "set leads \<subseteq> {i. (i, t) \<in> (step_rel (known_callees p))\<^sup>*}" and "t \<in> set leads"
  shows "set (lead_rounds (called_by p) (pg_procedures p) leads) = {i. (i, t) \<in> (step_rel (known_callees p))\<^sup>*}"
  using assms
proof (induction "called_by p" "pg_procedures p" leads rule: lead_rounds.induct)
  case (1 leads)
  let ?n = "fold (lead_step (called_by p)) (pg_procedures p) leads"
  obtain new where new: "?n = leads @ new" using lead_fold_grows by blast
  have sound: "set ?n \<subseteq> {i. (i, t) \<in> (step_rel (known_callees p))\<^sup>*}" using lead_fold_sound [OF 1(2)] by simp
  show ?case
  proof (cases "length leads < length ?n")
    case True
    then show ?thesis using 1(1) [OF refl True sound] new 1(3) by (subst lead_rounds.simps) (simp add: Let_def)
  next
    case False
    then have len: "length ?n = length leads" using new by simp
    then have n: "?n = leads" using new by simp
    have "i \<in> set leads" if "(i, t) \<in> (step_rel (known_callees p))\<^sup>*" for i
      using that
    proof (induction rule: converse_rtrancl_induct)
      case (step a b)
      then have "a \<in> set (pg_procedures p)" "b \<in> set (called_by p a)" by (auto simp: step_rel_def known_callees_def split: if_splits)
      with lead_fold_fixed [OF len this] step show ?case by simp
    qed (rule 1(3))
    then have "set leads = {i. (i, t) \<in> (step_rel (known_callees p))\<^sup>*}" using 1(2) by blast
    then show ?thesis using False n by (subst lead_rounds.simps) (simp add: Let_def)
  qed
qed

lemma leading_procedures_reach: "set (leading_procedures p t) = {i. (i, t) \<in> (step_rel (known_callees p))\<^sup>*}"
  unfolding leading_procedures_def by (rule lead_rounds_closed) simp_all

definition ex_startup :: program where
  "ex_startup = empty_program\<lparr>pg_scopes :=
     [new_scope ''s'' Module ''f.f90'' 1, (ex_proc ''r'' Subroutine [] [])\<lparr>sc_module := Some 0\<rparr>,
      ex_proc ''p'' Program [] [''n = 1'', ''call r'', ''n = 2'']], pg_procedures := [1, 2]\<rparr>"

lemma ex_startup_facts:
  "targets ex_startup (''s'', ''r'') = [1]" "roots ex_startup 1 = [1]" "main_program ex_startup = Some 2"
  "main_range ex_startup 1 2 = (1, 2)" "known_callees ex_startup 1 = []"
  by code_simp+

theorem startup_ranges_witness:
  "\<exists>an. startup_analysis rev ex_startup (''s'', ''r'') [] = Some (Inr an) \<and> map_of (an_between an) 2 = Some (1, 2)"
proof -
  have no: "\<not> (1, 2) \<in> (step_rel (known_callees ex_startup))\<^sup>*"
  proof
    assume "(1, 2) \<in> (step_rel (known_callees ex_startup))\<^sup>*"
    then show False by (cases rule: converse_rtranclE) (simp_all add: step_rel_def ex_startup_facts del: One_nat_def)
  qed
  show ?thesis
    using startup_ranges [of rev ex_startup "(''s'', ''r'')" 1 "[]" "[]" 2] no
    by (simp add: ex_startup_facts del: One_nat_def)
qed

text \<open>Changes the analysis does not see: an allocation behind a one-line IF, a READ without parentheses, and an assignment
  in a one-line WHERE; the variable counts as unchanged.\<close>

theorem guarded_changes_missed:
  "changed_by an ''if (.not. allocated(v)) allocate(v(3))'' [''v''] = [] \<and>
   reshaped_by p ''if (.not. allocated(v)) allocate(v(3))'' [''v''] True = [] \<and>
   changed_by an ''read *, v'' [''v''] = [] \<and> Write \<notin> set (classify ''read *, v'' [''v'']) \<and>
   changed_by an ''where (m) v = 0'' [''v''] = [] \<and> Write \<notin> set (classify ''where (m) v = 0'' [''v''])"
  by (intro conjI; code_simp)

end
