(* ===== verification/Module_Access.thy ===== *)
theory Module_Access
  imports Fortran_Program
begin

text \<open>
  \<open>bindings/module_access.py\<close>: a copy of a module with accessors to its private variables appended, the imports
  another scope needs to declare them, the variables a module makes public, and the comparison of two objects' data
  symbols. The output of \<open>nm\<close> is an argument.
\<close>

section \<open>Statements of a specification part\<close>

fun strip_comment_from :: "char option \<Rightarrow> string \<Rightarrow> string" where
  "strip_comment_from q [] = []"
| "strip_comment_from (Some q) (c # s) = c # strip_comment_from (if c = q then None else Some q) s"
| "strip_comment_from None (c # s) =
     (if c = CHR 0x27 \<or> c = CHR 0x22 then c # strip_comment_from (Some c) s
      else if c = CHR ''!'' then [] else c # strip_comment_from None s)"

definition strip_comment :: "string \<Rightarrow> string" where
  "strip_comment line = strip_comment_from None line"

fun parts_top :: "char \<Rightarrow> int \<Rightarrow> string \<Rightarrow> string \<Rightarrow> string list" where
  "parts_top sep depth cur [] = [strip cur]"
| "parts_top sep depth cur (c # s) =
     (if c = CHR ''('' then parts_top sep (depth + 1) (cur @ [c]) s
      else if c = CHR '')'' then parts_top sep (depth - 1) (cur @ [c]) s
      else if c = sep \<and> depth = 0 then strip cur # parts_top sep depth [] s
      else parts_top sep depth (cur @ [c]) s)"

definition split_top_level :: "string \<Rightarrow> string list" where
  "split_top_level s = parts_top CHR '','' 0 [] s"

definition join_continued :: "string \<Rightarrow> string \<Rightarrow> string" where
  "join_continued pending raw =
     (let line = rstrip (strip_comment raw) in
      if pending = [] then line else (let l = lstrip line in if startswith l ''&'' then tl l else l))"

fun statements_from :: "string \<Rightarrow> string list \<Rightarrow> string list" where
  "statements_from pending [] = []"
| "statements_from pending (raw # ls) =
     (if startswith (lstrip raw) ''#'' then statements_from pending ls
      else (let line = join_continued pending raw in
            if endswith line ''&'' then statements_from (pending @ butlast line) ls
            else filter (\<lambda>s. s \<noteq> []) (parts_top CHR '';'' 0 [] (pending @ line)) @ statements_from [] ls))"

definition module_statements :: "string list \<Rightarrow> string list" where
  "module_statements ls = statements_from [] ls"

section \<open>Type declarations\<close>

record type_decl =
  td_type :: string
  td_attributes :: "string list"
  td_entities :: "string list"

definition TYPE_KEYWORD_RE :: regex where
  "TYPE_KEYWORD_RE = seqs [many re_space,
     Grp 1 (alts (map ilit [''type'', ''class'', ''real'', ''integer'', ''logical'', ''complex'', ''character''] @
                  [seqs [ilit ''double'', some1 re_space, ilit ''precision'']])), Wordb]"

text \<open>How many characters the kind or type selector at the start takes, up to the parenthesis that closes it.\<close>

fun selector_len :: "int \<Rightarrow> string \<Rightarrow> nat option" where
  "selector_len d [] = None"
| "selector_len d (c # s) =
     (let d' = (if c = CHR ''('' then d + 1 else if c = CHR '')'' then d - 1 else d) in
      if d' = 0 \<and> c = CHR '')'' then Some 1 else map_option Suc (selector_len d' s))"

definition type_end :: "string \<Rightarrow> nat \<Rightarrow> nat" where
  "type_end statement at =
     (let rest = drop at statement in
      if startswith (lstrip rest) ''('' then (case selector_len 0 rest of Some n \<Rightarrow> at + n | None \<Rightarrow> at) else at)"

definition parse_declaration :: "string \<Rightarrow> type_decl option" where
  "parse_declaration statement =
     (case re_match TYPE_KEYWORD_RE statement of
        None \<Rightarrow> None
      | Some m \<Rightarrow>
          (let stop = type_end statement (m_end m) in
           case split_once ''::'' (drop stop statement) of
             None \<Rightarrow> None
           | Some (attrs, entities) \<Rightarrow>
               Some \<lparr>td_type = strip (take stop statement),
                     td_attributes = map lower (filter (\<lambda>a. a \<noteq> []) (split_top_level attrs)),
                     td_entities = split_top_level entities\<rparr>))"

text \<open>\<open>spec.rindex(")")\<close> raises ValueError if there is none.\<close>

datatype access_error =
    NoModule string
  | NoEndModule string
  | NamedConstant string string
  | NoVariables "string list" string
  | AlreadyDeclared string "string list"
  | SubstringNotFound
  | NoProvider string string
  | KeyError string

definition rank_of :: "string \<Rightarrow> access_error + nat" where
  "rank_of spec =
     (let s = strip spec in
      if \<not> startswith s ''('' then Inr 0
      else if CHR '')'' \<notin> set s then Inl SubstringNotFound
      else Inr (length (split_top_level (tl (before_last CHR '')'' s)))))"

section \<open>The span of a module\<close>

definition trailing_comment :: regex where
  "trailing_comment = seqs [many re_space, opt (Grp 9 (Seq (chr_re CHR ''!'') (many re_dot))), Eol]"

definition head_re :: "string \<Rightarrow> regex" where
  "head_re module = seqs [Bol, many re_space, ilit ''module'', some1 re_space, ilit module, trailing_comment]"

definition tail_re :: "string \<Rightarrow> regex" where
  "tail_re module = seqs [Bol, many re_space, ilit ''end'', many re_space, ilit ''module'',
     opt (Grp 1 (Seq (some1 re_space) (ilit module))), trailing_comment]"

definition CONTAINS_RE :: regex where
  "CONTAINS_RE = seqs [Bol, many re_space, ilit ''contains'', trailing_comment]"

definition first_line :: "regex \<Rightarrow> nat \<Rightarrow> nat \<Rightarrow> string list \<Rightarrow> nat option" where
  "first_line r a b ls = List.find (\<lambda>i. starts r (ls ! i)) [a..<b]"

definition module_span :: "string list \<Rightarrow> string \<Rightarrow> access_error + nat \<times> nat \<times> nat option" where
  "module_span ls module =
     (case first_line (head_re module) 0 (length ls) ls of
        None \<Rightarrow> Inl (NoModule module)
      | Some start \<Rightarrow>
          (case first_line (tail_re module) (start + 1) (length ls) ls of
             None \<Rightarrow> Inl (NoEndModule module)
           | Some stop \<Rightarrow> Inr (start, stop, first_line CONTAINS_RE (start + 1) stop ls)))"

definition slice :: "nat \<Rightarrow> nat \<Rightarrow> 'a list \<Rightarrow> 'a list" where
  "slice a b xs = take (b - a) (drop a xs)"

text \<open>The lines of the specification part, and its statements.\<close>

definition spec_end :: "nat \<Rightarrow> nat option \<Rightarrow> nat" where
  "spec_end stop con = (case con of Some c \<Rightarrow> c | None \<Rightarrow> stop)"

definition spec_statements :: "string \<Rightarrow> string \<Rightarrow> access_error + string list" where
  "spec_statements source module =
     (let ls = splitlines source in
      rbind (module_span ls module) (\<lambda>(start, stop, con). Inr (module_statements (slice (start + 1) (spec_end stop con) ls))))"

section \<open>Accessors\<close>

record exposed =
  ev_name :: string
  ev_accessor :: string
  ev_type :: string
  ev_rank :: nat
  ev_allocatable :: bool
  ev_pointer :: bool
  ev_c_accessor :: string

definition ACCESSOR_PREFIX :: string where
  "ACCESSOR_PREFIX = ''dace_access_''"

definition colons :: "nat \<Rightarrow> string" where
  "colons n = (if n = 0 then [] else ''('' @ join '', '' (replicate n '':'') @ '')'')"

definition accessor_lines :: "exposed \<Rightarrow> string list" where
  "accessor_lines v =
     [''function '' @ ev_accessor v @ ''() result(p)'',
      ''    '' @ ev_type v @ '', pointer :: p'' @ colons (ev_rank v)] @
     (if ev_allocatable v then
        [''    if (allocated('' @ ev_name v @ '')) then'',
         ''        p => '' @ ev_name v,
         ''    else'',
         ''        nullify(p)'',
         ''    end if'']
      else [''    p => '' @ ev_name v]) @
     [''end function '' @ ev_accessor v]"

definition present_test :: "exposed \<Rightarrow> string" where
  "present_test v =
     (if ev_allocatable v then ''allocated('' @ ev_name v @ '')''
      else if ev_pointer v then ''associated('' @ ev_name v @ '')''
      else ''.true.'')"

definition c_accessor_lines :: "exposed \<Rightarrow> string list" where
  "c_accessor_lines v =
     (let p = ev_accessor v @ ''_c'' in
      [''subroutine '' @ p @ ''(addr, lbounds, ubounds, present) bind(c, name='' @ [CHR 0x27] @ ev_c_accessor v @ [CHR 0x27] @ '')'',
       ''    use, intrinsic :: iso_c_binding, only: c_ptr, c_int, c_int64_t, c_loc, c_null_ptr'',
       ''    type(c_ptr), intent(out) :: addr'',
       ''    integer(c_int64_t), intent(out) :: lbounds(*), ubounds(*)'',
       ''    integer(c_int), intent(out) :: present'',
       ''    addr = c_null_ptr'',
       ''    present = 0'',
       ''    if (.not. '' @ present_test v @ '') return'',
       ''    present = 1'',
       ''    addr = c_loc('' @ ev_name v @ '')''] @
      concat (map (\<lambda>k. [''    lbounds('' @ str_nat k @ '') = lbound('' @ ev_name v @ '', '' @ str_nat k @ '')'',
                        ''    ubounds('' @ str_nat k @ '') = ubound('' @ ev_name v @ '', '' @ str_nat k @ '')''])
                  [1..<ev_rank v + 1]) @
      [''end subroutine '' @ p])"

definition c_accessor_interface :: "exposed \<Rightarrow> string \<Rightarrow> string list" where
  "c_accessor_interface v name =
     [''interface'',
      ''    subroutine '' @ name @ ''(addr, lbounds, ubounds, present) bind(c, name='' @ [CHR 0x27] @ ev_c_accessor v @ [CHR 0x27] @ '')'',
      ''        import :: c_ptr, c_int, c_int64_t'',
      ''        type(c_ptr), intent(out) :: addr'',
      ''        integer(c_int64_t), intent(out) :: lbounds(*), ubounds(*)'',
      ''        integer(c_int), intent(out) :: present'',
      ''    end subroutine '' @ name,
      ''end interface'']"

definition c_accessor_association :: "exposed \<Rightarrow> string \<Rightarrow> string \<Rightarrow> string list" where
  "c_accessor_association v accessor pointer =
     [''call '' @ accessor @ ''(dace_addr, dace_lb, dace_ub, dace_present)'', ''nullify('' @ pointer @ '')''] @
     (if ev_rank v = 0 then [''if (dace_present /= 0) call c_f_pointer(dace_addr, '' @ pointer @ '')'']
      else (let dims = ''1:'' @ str_nat (ev_rank v);
                lower_bounds = join '', '' (map (\<lambda>k. ''dace_lb('' @ str_nat k @ ''):'') [1..<ev_rank v + 1])
            in [''if (dace_present /= 0) then'',
                ''    call c_f_pointer(dace_addr, '' @ pointer @ '', dace_ub('' @ dims @ '') - dace_lb('' @ dims @ '') + 1)'',
                ''    '' @ pointer @ ''('' @ lower_bounds @ '') => '' @ pointer,
                ''end if'']))"

section \<open>Exposing variables\<close>

text \<open>The name an entity of a declaration starts with, and what follows it.\<close>

definition NAME_RE :: regex where
  "NAME_RE = Seq (many re_space) (Grp 1 (Seq re_ident_start (many re_word)))"

definition entity_name :: "string \<Rightarrow> (string \<times> string) option" where
  "entity_name entity = map_option (\<lambda>m. (lower (grp0 m 1), drop (m_end m) entity)) (re_match NAME_RE entity)"

definition dimension_of :: "string list \<Rightarrow> string" where
  "dimension_of attributes =
     (case List.find (\<lambda>a. startswith a ''dimension'') attributes of Some a \<Rightarrow> drop 9 a | None \<Rightarrow> [])"

definition expose_entity :: "string \<Rightarrow> type_decl \<Rightarrow> string \<Rightarrow> string \<Rightarrow> access_error + exposed" where
  "expose_entity module d key rest =
     (if ''parameter'' \<in> set (td_attributes d) then Inl (NamedConstant module key)
      else rbind (rank_of (before_first CHR ''='' rest)) (\<lambda>r.
           rbind (if r = 0 then rank_of (dimension_of (td_attributes d)) else Inr r) (\<lambda>r'.
             Inr \<lparr>ev_name = key, ev_accessor = ACCESSOR_PREFIX @ key, ev_type = td_type d, ev_rank = r',
                  ev_allocatable = (''allocatable'' \<in> set (td_attributes d)),
                  ev_pointer = (''pointer'' \<in> set (td_attributes d)),
                  ev_c_accessor = ACCESSOR_PREFIX @ lower module @ ''_'' @ key\<rparr>)))"

type_synonym found = "(string \<times> exposed) list \<times> string list"

fun collect_entities :: "string \<Rightarrow> string list \<Rightarrow> type_decl \<Rightarrow> string list \<Rightarrow> found \<Rightarrow> access_error + found" where
  "collect_entities module wanted d [] st = Inr st"
| "collect_entities module wanted d (e # es) (vars, targets) =
     (case entity_name e of
        None \<Rightarrow> collect_entities module wanted d es (vars, targets)
      | Some (key, rest) \<Rightarrow>
          (if key \<notin> set wanted then collect_entities module wanted d es (vars, targets)
           else rbind (expose_entity module d key rest) (\<lambda>v.
                  collect_entities module wanted d es
                    (AList.update key v vars, if ''target'' \<in> set (td_attributes d) then List.insert key targets else targets))))"

fun collect :: "string \<Rightarrow> string list \<Rightarrow> string list \<Rightarrow> found \<Rightarrow> access_error + found" where
  "collect module wanted [] st = Inr st"
| "collect module wanted (s # ss) st =
     (case parse_declaration s of
        None \<Rightarrow> collect module wanted ss st
      | Some d \<Rightarrow> rbind (collect_entities module wanted d (td_entities d) st) (collect module wanted ss))"

definition word_in :: "string \<Rightarrow> string \<Rightarrow> bool" where
  "word_in name source = (re_search (seqs [Wordb, ilit name, Wordb]) source \<noteq> None)"

definition accessor_names :: "exposed \<Rightarrow> string list" where
  "accessor_names v = [ev_accessor v, ev_accessor v @ ''_c'']"

definition spec_lines :: "exposed list \<Rightarrow> string list \<Rightarrow> string list" where
  "spec_lines vs targets =
     (let needs_target = map ev_name (filter (\<lambda>v. \<not> ev_pointer v \<and> ev_name v \<notin> set targets) vs) in
      [''    ! ----- dace_fortran.bindings.module_access: accessors to otherwise private variables -----''] @
      (if needs_target = [] then [] else [''    target :: '' @ join '', '' needs_target]) @
      [''    public :: '' @ join '', '' (map ev_accessor vs)])"

definition procedure_lines :: "exposed list \<Rightarrow> string list" where
  "procedure_lines vs = concat (map (\<lambda>v. map (\<lambda>l. ''    '' @ l) (accessor_lines v @ c_accessor_lines v)) vs)"

definition insert_accessors :: "string list \<Rightarrow> nat \<Rightarrow> nat option \<Rightarrow> exposed list \<Rightarrow> string list \<Rightarrow> string list" where
  "insert_accessors ls stop con vs targets =
     (case con of
        None \<Rightarrow> take stop ls @ spec_lines vs targets @ [''contains''] @ procedure_lines vs @ drop stop ls
      | Some c \<Rightarrow> take c ls @ spec_lines vs targets @ slice c stop ls @ procedure_lines vs @ drop stop ls)"

definition expose_module_variables ::
  "string \<Rightarrow> string \<Rightarrow> string list \<Rightarrow> access_error + string \<times> (string \<times> exposed) list" where
  "expose_module_variables source module names =
     (let ls = splitlines source; wanted = map lower names in
      rbind (module_span ls module) (\<lambda>(start, stop, con).
      rbind (collect module wanted (module_statements (slice (start + 1) (spec_end stop con) ls)) ([], [])) (\<lambda>(vars, targets).
        let missing = sort (remdups (filter (\<lambda>n. map_of vars n = None) wanted)) in
        if missing \<noteq> [] then Inl (NoVariables missing module)
        else (let vs = List.map_filter (map_of vars) wanted;
                  taken = filter (\<lambda>n. word_in n source) (concat (map accessor_names vs)) in
              if taken \<noteq> [] then Inl (AlreadyDeclared module taken)
              else Inr (join [LF] (insert_accessors ls stop con vs targets) @ [LF],
                        fold (\<lambda>v. AList.update (ev_name v) v) vs [])))))"

section \<open>Imports for another scope\<close>

definition type_spec_words :: "string list" where
  "type_spec_words = [''real'', ''integer'', ''logical'', ''complex'', ''character'', ''double'', ''precision'', ''type'', ''class'', ''kind'', ''len'']"

type_synonym use_item = "string \<times> (string \<times> string) list option"

definition MODULE_USE_RE :: regex where
  "MODULE_USE_RE = seqs [many re_space, ilit ''use'', Wordb, many re_space,
     opt (seqs [chr_re CHR '','', many re_space, some1 re_word, many re_space, lit ''::'']), many re_space,
     Grp 1 (some1 re_word), many re_space,
     opt (seqs [chr_re CHR '','', many re_space, ilit ''only'', many re_space, chr_re CHR '':'', many re_space,
                Grp 2 (many re_dot)]), Eol]"

definition only_items :: "string \<Rightarrow> (string \<times> string) list" where
  "only_items text =
     fold (\<lambda>item. AList.update (lower (strip (case split_once ''=>'' item of Some (a, _) \<Rightarrow> a | None \<Rightarrow> item))) (strip item))
       (filter (\<lambda>item. item \<noteq> []) (split_top_level text)) []"

definition use_item :: "string \<Rightarrow> use_item option" where
  "use_item statement =
     map_option (\<lambda>m. (lower (grp0 m 1), map_option only_items (grp m 2))) (re_match MODULE_USE_RE statement)"

definition module_uses :: "string \<Rightarrow> string \<Rightarrow> access_error + use_item list" where
  "module_uses source module = rbind (spec_statements source module) (\<lambda>ss. Inr (List.map_filter use_item ss))"

text \<open>\<open>sources\<close> is a dictionary; the recursion of \<open>_provides\<close> goes as deep as \<open>fuel - 1\<close>, its parameter \<open>depth\<close>.\<close>

definition TYPE_HEAD_RE :: "string \<Rightarrow> regex" where
  "TYPE_HEAD_RE name = seqs [many re_space, ilit ''type'', Wordb, many re_space,
     opt (seqs [chr_re CHR '','', many (Cls True [(58, 58)])]), opt (lit ''::''), many re_space, ilit name, many re_space, Eol]"

definition declares_name :: "string \<Rightarrow> string \<Rightarrow> bool" where
  "declares_name name statement =
     (starts (TYPE_HEAD_RE name) statement \<or>
      (case parse_declaration statement of
         None \<Rightarrow> False
       | Some d \<Rightarrow> list_ex (starts (seqs [many re_space, ilit name, Wordb])) (td_entities d)))"

fun any_res :: "('a \<Rightarrow> 'e + bool) \<Rightarrow> 'a list \<Rightarrow> 'e + bool" where
  "any_res f [] = Inr False"
| "any_res f (x # xs) = rbind (f x) (\<lambda>b. if b then Inr True else any_res f xs)"

lemma any_res_cong [fundef_cong]: "xs = ys \<Longrightarrow> (\<And>x. x \<in> set ys \<Longrightarrow> f x = g x) \<Longrightarrow> any_res f xs = any_res g ys"
proof (induction ys arbitrary: xs)
  case (Cons y ys)
  then show ?case by (auto simp: rbind_def split: sum.split)
qed simp

fun provides :: "(string \<times> string) list \<Rightarrow> string \<Rightarrow> nat \<Rightarrow> string \<Rightarrow> access_error + bool" where
  "provides sources name 0 module = Inr False"
| "provides sources name (Suc fuel) module =
     (case map_of sources module of
        None \<Rightarrow> Inr False
      | Some source \<Rightarrow>
          rbind (spec_statements source module) (\<lambda>ss.
            if list_ex (declares_name name) ss then Inr True
            else rbind (module_uses source module) (any_res (\<lambda>(used, only).
                   case only of
                     Some items \<Rightarrow> Inr (map_of items name \<noteq> None)
                   | None \<Rightarrow> provides sources name fuel used))))"

text \<open>The module a name is taken from and the item to import, searched in the order of the use statements.\<close>

fun provider :: "(string \<times> string) list \<Rightarrow> string \<Rightarrow> use_item list \<Rightarrow> access_error + (string \<times> string) option" where
  "provider sources name [] = Inr None"
| "provider sources name ((used, only) # us) =
     (case only of
        Some items \<Rightarrow> (case map_of items name of Some item \<Rightarrow> Inr (Some (used, item)) | None \<Rightarrow> provider sources name us)
      | None \<Rightarrow> rbind (provides sources name 4 used) (\<lambda>b.
                 if b then Inr (Some (used, name)) else provider sources name us))"

definition type_names :: "exposed list \<Rightarrow> string list" where
  "type_names vs =
     sort (remdups (filter (\<lambda>w. w \<notin> set type_spec_words)
       (concat (map (\<lambda>v. map (\<lambda>m. lower (m_text m)) (re_finditer (Seq re_ident_start (many re_word)) (ev_type v))) vs))))"

fun gather_imports :: "(string \<times> string) list \<Rightarrow> string \<Rightarrow> string list \<Rightarrow> (string \<times> string list) list \<Rightarrow>
    access_error + (string \<times> string list) list" where
  "gather_imports sources module [] imports = Inr imports"
| "gather_imports sources module (n # ns) imports =
     (case map_of sources module of
        None \<Rightarrow> Inl (KeyError module)
      | Some source \<Rightarrow>
          rbind (module_uses source module) (\<lambda>us.
          rbind (provider sources n us) (\<lambda>r.
            case r of
              None \<Rightarrow> Inl (NoProvider module n)
            | Some (used, item) \<Rightarrow> gather_imports sources module ns (add_member used item imports))))"

definition import_line :: "string \<times> string list \<Rightarrow> string" where
  "import_line i = ''use '' @ fst i @ '', only: '' @ join '', '' (sort (snd i))"

definition declaration_imports :: "exposed list \<Rightarrow> string \<Rightarrow> (string \<times> string) list \<Rightarrow> access_error + string list" where
  "declaration_imports vs module sources =
     rbind (gather_imports sources module (type_names vs) []) (\<lambda>imports. Inr (map import_line (sort_key fst imports)))"

section \<open>Public variables\<close>

definition ACCESS_RE :: regex where
  "ACCESS_RE = seqs [many re_space, Grp 1 (alts [ilit ''public'', ilit ''private'']), Wordb, many re_space,
     opt (Grp 2 (lit ''::'')), many re_space, Grp 3 (many re_dot), Eol]"

record visibility =
  vi_declared :: "(string \<times> string) list"
  vi_listed :: "(string \<times> string) list"
  vi_default :: string

definition declared_mark :: "type_decl \<Rightarrow> string" where
  "declared_mark d =
     (if ''public'' \<in> set (td_attributes d) then ''public''
      else if ''private'' \<in> set (td_attributes d) then ''private'' else [])"

definition access_step :: "string \<Rightarrow> visibility \<Rightarrow> visibility" where
  "access_step statement v =
     (case re_match ACCESS_RE statement of
        Some m \<Rightarrow>
          (let ns = map lower (filter (\<lambda>n. n \<noteq> []) (split_top_level (grp0 m 3))); word = lower (grp0 m 1) in
           if ns = [] then v\<lparr>vi_default := word\<rparr>
           else v\<lparr>vi_listed := fold (\<lambda>n. AList.update n word) ns (vi_listed v)\<rparr>)
      | None \<Rightarrow>
          (case parse_declaration statement of
             None \<Rightarrow> v
           | Some d \<Rightarrow>
               (if ''parameter'' \<in> set (td_attributes d) then v
                else v\<lparr>vi_declared := fold (\<lambda>e. case entity_name e of None \<Rightarrow> id | Some (n, _) \<Rightarrow> AList.update n (declared_mark d))
                                    (td_entities d) (vi_declared v)\<rparr>)))"

definition is_public :: "visibility \<Rightarrow> string \<times> string \<Rightarrow> bool" where
  "is_public v p =
     ((if snd p \<noteq> [] then snd p else case map_of (vi_listed v) (fst p) of Some w \<Rightarrow> w | None \<Rightarrow> vi_default v) = ''public'')"

definition public_variables :: "string \<Rightarrow> string \<Rightarrow> access_error + string list" where
  "public_variables source module =
     rbind (spec_statements source module) (\<lambda>ss.
       let v = fold access_step ss \<lparr>vi_declared = [], vi_listed = [], vi_default = ''public''\<rparr>
       in Inr (map fst (filter (is_public v) (vi_declared v))))"

section \<open>Data symbols of an object\<close>

text \<open>\<open>int(s, 16)\<close> with its sign, prefix and underscores.\<close>

definition hex_digit :: "char \<Rightarrow> nat option" where
  "hex_digit c =
     (let n = code c in
      if 48 \<le> n \<and> n \<le> 57 then Some (nat (n - 48))
      else if 97 \<le> n \<and> n \<le> 102 then Some (nat (n - 87))
      else if 65 \<le> n \<and> n \<le> 70 then Some (nat (n - 55)) else None)"

definition hex_value :: "string \<Rightarrow> int option" where
  "hex_value u =
     (let gs = split_on CHR ''_'' u in
      if list_all (\<lambda>g. g \<noteq> [] \<and> list_all (\<lambda>c. hex_digit c \<noteq> None) g) gs
      then Some (foldl (\<lambda>v c. 16 * v + int (the (hex_digit c))) 0 (concat gs)) else None)"

definition hex_body :: "string \<Rightarrow> int option" where
  "hex_body u =
     (if lower (take 2 u) = ''0x'' then hex_value (let w = drop 2 u in if startswith w ''_'' then tl w else w) else hex_value u)"

definition hex_int :: "string \<Rightarrow> int option" where
  "hex_int s =
     (case strip s of
        [] \<Rightarrow> None
      | c # u \<Rightarrow> (if c = CHR ''-'' then map_option uminus (hex_body u)
                 else if c = CHR ''+'' then hex_body u else hex_body (c # u)))"

definition symbol_fields :: "string \<Rightarrow> (string \<times> string) option" where
  "symbol_fields l =
     (case split_ws l of
        [_, bytes, letter, name] \<Rightarrow> (if contains letter ''BCDGRS'' then Some (bytes, name) else None)
      | _ \<Rightarrow> None)"

fun data_symbols_from :: "string list \<Rightarrow> (string \<times> int) list \<Rightarrow> string + (string \<times> int) list" where
  "data_symbols_from [] syms = Inr syms"
| "data_symbols_from (l # ls) syms =
     (case symbol_fields l of
        None \<Rightarrow> data_symbols_from ls syms
      | Some (bytes, name) \<Rightarrow>
          (case hex_int bytes of None \<Rightarrow> Inl bytes | Some n \<Rightarrow> data_symbols_from ls (AList.update name n syms)))"

definition global_data_symbols :: "string \<Rightarrow> string + (string \<times> int) list" where
  "global_data_symbols listing = data_symbols_from (splitlines listing) []"

definition changed_global_data_symbols :: "string \<Rightarrow> string \<Rightarrow> string + string list" where
  "changed_global_data_symbols original copy =
     rbind (global_data_symbols original) (\<lambda>olds.
     rbind (global_data_symbols copy) (\<lambda>news.
       Inr (sort (map fst (filter (\<lambda>(name, size). map_of news name \<noteq> Some size) olds)))))"

section \<open>What is exposed\<close>

text \<open>The entities a specification part declares, each with its declaration, its name and what follows the name.\<close>

definition entities_of :: "type_decl \<Rightarrow> (type_decl \<times> string \<times> string) list" where
  "entities_of d = List.map_filter (\<lambda>e. map_option (\<lambda>(k, rest). (d, k, rest)) (entity_name e)) (td_entities d)"

definition declared_entities_of :: "string list \<Rightarrow> (type_decl \<times> string \<times> string) list" where
  "declared_entities_of ss = concat (map (\<lambda>s. case parse_declaration s of None \<Rightarrow> [] | Some d \<Rightarrow> entities_of d) ss)"

definition decl_key :: "type_decl \<times> string \<times> string \<Rightarrow> string" where
  "decl_key x = fst (snd x)"

definition exposure :: "string \<Rightarrow> type_decl \<times> string \<times> string \<Rightarrow> access_error + exposed" where
  "exposure module x = expose_entity module (fst x) (decl_key x) (snd (snd x))"

definition take_decl :: "string \<Rightarrow> type_decl \<times> string \<times> string \<Rightarrow> found \<Rightarrow> access_error + found" where
  "take_decl module x st =
     rbind (exposure module x) (\<lambda>v. Inr (AList.update (decl_key x) v (fst st),
       if ''target'' \<in> set (td_attributes (fst x)) then List.insert (decl_key x) (snd st) else snd st))"

fun take_all :: "string \<Rightarrow> (type_decl \<times> string \<times> string) list \<Rightarrow> found \<Rightarrow> access_error + found" where
  "take_all module [] st = Inr st"
| "take_all module (x # xs) st = rbind (take_decl module x st) (take_all module xs)"

lemma take_all_append: "take_all module (xs @ ys) st = rbind (take_all module xs st) (take_all module ys)"
  by (induction xs arbitrary: st) (simp_all add: rbind_def split: sum.split)

lemma collect_entities_all:
  "collect_entities module wanted d es st =
     take_all module (filter (\<lambda>x. decl_key x \<in> set wanted) (List.map_filter (\<lambda>e. map_option (\<lambda>(k, rest). (d, k, rest)) (entity_name e)) es)) st"
proof (induction es arbitrary: st)
  case (Cons e es)
  obtain vars targets where st: "st = (vars, targets)" by (cases st)
  show ?case
    by (auto simp: st Cons.IH map_filter_simps decl_key_def take_decl_def exposure_def rbind_def split: option.split sum.split)
qed (simp add: map_filter_simps)

lemma collect_all: "collect module wanted ss st = take_all module (filter (\<lambda>x. decl_key x \<in> set wanted) (declared_entities_of ss)) st"
proof (induction ss arbitrary: st)
  case (Cons s ss)
  have IH: "collect module wanted ss = take_all module (filter (\<lambda>x. decl_key x \<in> set wanted) (declared_entities_of ss))"
    by (rule ext) (rule Cons.IH)
  show ?case
    by (simp add: IH declared_entities_of_def entities_of_def collect_entities_all take_all_append split: option.split)
qed (simp add: declared_entities_of_def)

lemma take_all_ok: "is_ok (take_all module xs st) \<longleftrightarrow> (\<forall>x \<in> set xs. is_ok (exposure module x))"
proof (induction xs arbitrary: st)
  case (Cons x xs)
  then show ?case by (cases "exposure module x") (simp_all add: take_decl_def)
qed simp

lemma take_all_last:
  assumes "take_all module xs st = Inr (vars, targets)"
  shows "map_of vars k =
     (let ys = filter (\<lambda>x. decl_key x = k) xs in
      if ys = [] then map_of (fst st) k else case exposure module (last ys) of Inl _ \<Rightarrow> None | Inr v \<Rightarrow> Some v)"
  using assms
proof (induction xs arbitrary: vars targets rule: rev_induct)
  case (snoc x xs)
  from snoc.prems obtain st' where st': "take_all module xs st = Inr st'" "take_decl module x st' = Inr (vars, targets)"
    by (auto simp: take_all_append rbind_Inr_iff)
  obtain vars' targets' where p: "st' = (vars', targets')" by (cases st')
  note IH = snoc.IH [OF st'(1) [unfolded p]]
  from st'(2) p obtain v where v: "exposure module x = Inr v" "vars = AList.update (decl_key x) v vars'"
    by (auto simp: take_decl_def rbind_Inr_iff)
  show ?case
  proof (cases "decl_key x = k")
    case True
    with v show ?thesis by (simp add: update_conv')
  next
    case False
    then show ?thesis using v(2) IH by (simp add: update_conv')
  qed
qed simp

lemma expose_entity_name: "expose_entity module d key rest = Inr v \<Longrightarrow> ev_name v = key"
  by (auto simp: expose_entity_def rbind_Inr_iff split: if_splits)

lemma find_Some_first: "List.find P xs = Some x \<Longrightarrow> x \<in> set xs \<and> P x"
  by (auto simp: find_Some_iff)

lemma module_span_bounds:
  assumes "module_span ls module = Inr (start, stop, con)"
  shows "start < stop" "stop < length ls" "starts (tail_re module) (ls ! stop)"
    "con = Some c \<Longrightarrow> start < c \<and> c < stop \<and> starts CONTAINS_RE (ls ! c)"
  using assms by (auto simp: module_span_def first_line_def split: option.splits dest!: find_Some_first)

lemma slice_parts: "c \<le> stop \<Longrightarrow> stop \<le> length ls \<Longrightarrow> take c ls @ slice c stop ls @ drop stop ls = ls"
proof -
  assume "c \<le> stop" "stop \<le> length ls"
  then have "slice c stop ls @ drop stop ls = drop c ls"
    unfolding slice_def by (metis append_take_drop_id drop_drop le_add_diff_inverse2)
  then show ?thesis by simp
qed

lemma names_of_found:
  "\<forall>n \<in> set ns. \<exists>v. m n = Some v \<and> ev_name v = n \<Longrightarrow> map ev_name (List.map_filter m ns) = ns"
  by (induction ns) (auto simp: map_filter_simps)

lemma found_by_name:
  "\<forall>v \<in> set vs. m (ev_name v) = Some v \<Longrightarrow>
   map_of (fold (\<lambda>v. AList.update (ev_name v) v) vs acc) k = (if k \<in> ev_name ` set vs then m k else map_of acc k)"
proof (induction vs arbitrary: acc)
  case (Cons v vs)
  then show ?case by (auto simp: update_conv')
qed simp

lemma collected:
  assumes "collect module wanted ss ([], []) = Inr (found, targets)" and "map_of found n = Some v" and "n \<in> set wanted"
  shows "exposure module (last (filter (\<lambda>x. decl_key x = n) (declared_entities_of ss))) = Inr v \<and> ev_name v = n"
proof -
  let ?xs = "filter (\<lambda>x. decl_key x \<in> set wanted) (declared_entities_of ss)" and ?ys = "filter (\<lambda>x. decl_key x = n) (declared_entities_of ss)"
  have ys: "filter (\<lambda>x. decl_key x = n) ?xs = ?ys" using assms(3) unfolding filter_filter by (intro filter_cong) auto
  from take_all_last [OF assms(1) [unfolded collect_all], of n] assms(2)
  have ne: "?ys \<noteq> []" and v: "exposure module (last ?ys) = Inr v"
    unfolding ys Let_def by (auto split: if_splits sum.splits)
  have "decl_key (last ?ys) = n" using last_in_set [OF ne] by simp
  then have "ev_name v = n" using v expose_entity_name unfolding exposure_def by metis
  with v show ?thesis by simp
qed

text \<open>C32. A successful exposure keeps every line of the source in its order and adds two blocks: declarations in front of
  the contains statement, or of the end of a module without one, and the procedures in front of the end of the module.
  There is one accessor for every name asked for, in that order, made from the last declaration of the name in the
  specification part.\<close>

theorem expose_appends:
  assumes "expose_module_variables source module names = Inr (out, vars)"
  shows "\<exists>head body rest vs targets ss. splitlines source = head @ body @ rest \<and>
     out = join [LF] (head @ spec_lines vs targets @ (if body = [] then [''contains''] else body) @ procedure_lines vs @ rest) @ [LF] \<and>
     starts (tail_re module) (hd rest) \<and> (body = [] \<or> starts CONTAINS_RE (hd body)) \<and>
     spec_statements source module = Inr ss \<and> map ev_name vs = map lower names \<and>
     list_all (\<lambda>v. map_of vars (ev_name v) = Some v \<and>
       exposure module (last (filter (\<lambda>x. decl_key x = ev_name v) (declared_entities_of ss))) = Inr v) vs"
proof -
  let ?ls = "splitlines source" and ?wanted = "map lower names"
  from assms obtain start stop con where sp: "module_span ?ls module = Inr (start, stop, con)"
    by (auto simp: expose_module_variables_def Let_def rbind_Inr_iff)
  let ?ss = "module_statements (slice (start + 1) (spec_end stop con) ?ls)"
  from assms sp obtain found targets where c: "collect module ?wanted ?ss ([], []) = Inr (found, targets)"
    by (auto simp: expose_module_variables_def Let_def rbind_Inr_iff)
  define vs where "vs = List.map_filter (map_of found) ?wanted"
  from assms sp c have miss: "sort (remdups (filter (\<lambda>n. map_of found n = None) ?wanted)) = []"
    by (simp add: expose_module_variables_def Let_def split: if_splits)
  from assms sp c miss have out: "out = join [LF] (insert_accessors ?ls stop con vs targets) @ [LF]"
    and vars: "vars = fold (\<lambda>v. AList.update (ev_name v) v) vs []"
    by (simp_all add: expose_module_variables_def Let_def vs_def split: if_splits)
  have "set (remdups (filter (\<lambda>n. map_of found n = None) ?wanted)) = {}"
    using arg_cong [OF miss, of set] unfolding set_sort by simp
  then have some: "\<exists>v. map_of found n = Some v" if "n \<in> set ?wanted" for n
    using that by (cases "map_of found n") (auto simp: filter_empty_conv)
  have all: "\<forall>n \<in> set ?wanted. \<exists>v. map_of found n = Some v \<and> ev_name v = n"
  proof
    fix n
    assume n: "n \<in> set ?wanted"
    then obtain v where "map_of found n = Some v" using some by blast
    with collected [OF c this n] show "\<exists>v. map_of found n = Some v \<and> ev_name v = n" by blast
  qed
  have names: "map ev_name vs = ?wanted" unfolding vs_def by (rule names_of_found [OF all])
  have found: "\<forall>v \<in> set vs. map_of found (ev_name v) = Some v \<and> ev_name v \<in> set ?wanted"
    using all unfolding vs_def List.map_filter_def by force
  then have "map_of vars (ev_name v) = Some v" if "v \<in> set vs" for v
    using found_by_name [of vs "map_of found" "[]" "ev_name v"] that by (simp add: vars)
  with found collected [OF c] have each: "list_all (\<lambda>v. map_of vars (ev_name v) = Some v \<and>
       exposure module (last (filter (\<lambda>x. decl_key x = ev_name v) (declared_entities_of ?ss))) = Inr v) vs"
    by (auto simp: list_all_iff)
  note b = module_span_bounds [OF sp]
  have hd: "hd (drop stop ?ls) = ?ls ! stop" using b(2) by (rule hd_drop_conv_nth)
  have ss: "spec_statements source module = Inr ?ss" using sp by (simp add: spec_statements_def Let_def)
  show ?thesis
  proof (cases con)
    case None
    show ?thesis
      by (rule exI [of _ "take stop ?ls"], rule exI [of _ "[]"], rule exI [of _ "drop stop ?ls"], rule exI [of _ vs],
          rule exI [of _ targets], rule exI [of _ ?ss])
        (use None out names each ss hd b in \<open>simp add: insert_accessors_def\<close>)
  next
    case (Some k)
    note k = b(4) [OF Some]
    have body: "slice k stop ?ls \<noteq> []" "hd (slice k stop ?ls) = ?ls ! k"
      using k b(2) by (simp_all add: slice_def hd_drop_conv_nth)
    have parts: "take k ?ls @ slice k stop ?ls @ drop stop ?ls = ?ls" using k b(2) by (intro slice_parts) simp_all
    show ?thesis
      by (rule exI [of _ "take k ?ls"], rule exI [of _ "slice k stop ?ls"], rule exI [of _ "drop stop ?ls"], rule exI [of _ vs],
          rule exI [of _ targets], rule exI [of _ ?ss])
        (use Some out names each ss hd b k body parts in \<open>simp add: insert_accessors_def\<close>)
  qed
qed

definition ex_source :: string where
  "ex_source = ''module m'' @ [LF] @ ''integer::q,q_c'' @ [LF] @ ''end module m''"

definition ex_exposed :: "string \<Rightarrow> exposed" where
  "ex_exposed n =
     \<lparr>ev_name = n, ev_accessor = ''dace_access_'' @ n, ev_type = ''integer'', ev_rank = 0, ev_allocatable = False,
      ev_pointer = False, ev_c_accessor = ''dace_access_m_'' @ n\<rparr>"

lemma ex_module_lines: "splitlines ex_source = [''module m'', ''integer::q,q_c'', ''end module m'']"
  by code_simp

lemma ex_span: "module_span [''module m'', ''integer::q,q_c'', ''end module m''] ''m'' = Inr (0, 2, None)"
  by code_simp

lemma ex_statements: "module_statements (slice (0 + 1) (spec_end 2 None) [''module m'', ''integer::q,q_c'', ''end module m'']) = [''integer::q,q_c'']"
  by code_simp

lemma ex_collect:
  "collect ''m'' [''q''] [''integer::q,q_c''] ([], []) = Inr ([(''q'', ex_exposed ''q'')], [])"
  "collect ''m'' [''q'', ''q_c''] [''integer::q,q_c''] ([], []) = Inr ([(''q'', ex_exposed ''q''), (''q_c'', ex_exposed ''q_c'')], [])"
  by code_simp+

lemma ex_words: "filter (\<lambda>n. word_in n ex_source) [''dace_access_q'', ''dace_access_q_c'', ''dace_access_q_c'', ''dace_access_q_c_c''] = []"
  by code_simp

lemma ex_taken: "\<not> word_in ''dace_access_q'' ex_source" "\<not> word_in ''dace_access_q_c'' ex_source" "\<not> word_in ''dace_access_q_c_c'' ex_source"
  using ex_words by (simp_all split: if_splits)

lemma ex_lower: "map lower [''q''] = [''q'']" "map lower [''q'', ''q_c''] = [''q'', ''q_c'']"
  by code_simp+

lemma ex_missing:
  "sort (remdups (filter (\<lambda>n. map_of [(''q'', ex_exposed ''q'')] n = None) [''q''])) = []"
  "sort (remdups (filter (\<lambda>n. map_of [(''q'', ex_exposed ''q''), (''q_c'', ex_exposed ''q_c'')] n = None) [''q'', ''q_c''])) = []"
  by simp_all

lemma ex_found:
  "List.map_filter (map_of [(''q'', ex_exposed ''q'')]) [''q''] = [ex_exposed ''q'']"
  "List.map_filter (map_of [(''q'', ex_exposed ''q''), (''q_c'', ex_exposed ''q_c'')]) [''q'', ''q_c''] = [ex_exposed ''q'', ex_exposed ''q_c'']"
  by (simp_all add: map_filter_simps)

lemma ex_free:
  "filter (\<lambda>n. word_in n ex_source) (concat (map accessor_names [ex_exposed ''q''])) = []"
  "filter (\<lambda>n. word_in n ex_source) (concat (map accessor_names [ex_exposed ''q'', ex_exposed ''q_c''])) = []"
  by (simp_all add: accessor_names_def ex_exposed_def ex_taken)

lemma ex_expose:
  "expose_module_variables ex_source ''m'' [''q''] =
     Inr (join [LF] (insert_accessors (splitlines ex_source) 2 None [ex_exposed ''q''] []) @ [LF],
          fold (\<lambda>v. AList.update (ev_name v) v) [ex_exposed ''q''] [])"
  "expose_module_variables ex_source ''m'' [''q'', ''q_c''] =
     Inr (join [LF] (insert_accessors (splitlines ex_source) 2 None [ex_exposed ''q'', ex_exposed ''q_c''] []) @ [LF],
          fold (\<lambda>v. AList.update (ev_name v) v) [ex_exposed ''q'', ex_exposed ''q_c''] [])"
  unfolding expose_module_variables_def Let_def ex_module_lines ex_span rbind_simps prod.case ex_statements ex_lower ex_collect
    ex_missing ex_found ex_free
  by (simp_all only: not_True_eq_False if_False refl)

text \<open>The accessors of \<open>q_c\<close> and the C accessor of \<open>q\<close> get one name: the copy declares it twice, and does not compile.\<close>

lemma accessors_clash:
  "\<exists>lines vars. expose_module_variables ex_source ''m'' [''q'', ''q_c''] = Inr (join [LF] lines @ [LF], vars) \<and>
     ''    end function dace_access_q_c'' \<in> set lines \<and> ''    end subroutine dace_access_q_c'' \<in> set lines"
  by (intro exI conjI, rule ex_expose(2))
    (simp_all add: insert_accessors_def procedure_lines_def accessor_lines_def c_accessor_lines_def ex_exposed_def Let_def)

theorem expose_appends_witness:
  "\<exists>out vars head body rest vs targets. expose_module_variables ex_source ''m'' [''q''] = Inr (out, vars) \<and>
     splitlines ex_source = head @ body @ rest \<and> map ev_name vs = [''q''] \<and>
     out = join [LF] (head @ spec_lines vs targets @ (if body = [] then [''contains''] else body) @ procedure_lines vs @ rest) @ [LF]"
proof -
  obtain out vars where e: "expose_module_variables ex_source ''m'' [''q''] = Inr (out, vars)" using ex_expose(1) by blast
  from expose_appends [OF e, unfolded ex_lower] obtain head body rest vs targets where
    r: "splitlines ex_source = head @ body @ rest" "map ev_name vs = [''q'']"
      "out = join [LF] (head @ spec_lines vs targets @ (if body = [] then [''contains''] else body) @ procedure_lines vs @ rest) @ [LF]"
    by (elim exE conjE)
  show ?thesis by (rule exI [of _ out], rule exI [of _ vars], rule exI [of _ head], rule exI [of _ body], rule exI [of _ rest],
        rule exI [of _ vs], rule exI [of _ targets]) (intro conjI e r)
qed

lemma expose_entity_accessor: "expose_entity module d key rest = Inr v \<Longrightarrow> ev_accessor v = ACCESSOR_PREFIX @ key"
  by (auto simp: expose_entity_def rbind_Inr_iff split: if_splits)

lemma taken_all_found:
  assumes "take_all module xs ([], []) = Inr (vars, targets)"
  shows "map_of vars k \<noteq> None \<longleftrightarrow> k \<in> decl_key ` set xs"
proof -
  let ?ys = "filter (\<lambda>x. decl_key x = k) xs"
  have "\<forall>x \<in> set xs. is_ok (exposure module x)" using take_all_ok [of module xs "([], [])"] assms by simp
  then have "?ys \<noteq> [] \<Longrightarrow> \<exists>v. exposure module (last ?ys) = Inr v" using last_in_set [of ?ys] by (auto simp: is_ok_iff)
  moreover have "?ys = [] \<longleftrightarrow> k \<notin> decl_key ` set xs" by (auto simp: filter_empty_conv)
  ultimately show ?thesis unfolding take_all_last [OF assms, of k] by (auto simp: Let_def)
qed

lemma found_accessor:
  assumes "take_all module xs ([], []) = Inr (vars, targets)" and "map_of vars k = Some v"
  shows "ev_accessor v = ACCESSOR_PREFIX @ k"
proof -
  let ?ys = "filter (\<lambda>x. decl_key x = k) xs"
  from take_all_last [OF assms(1), of k] assms(2) have ne: "?ys \<noteq> []" and v: "exposure module (last ?ys) = Inr v"
    by (auto simp: Let_def split: if_splits sum.splits)
  have "decl_key (last ?ys) = k" using last_in_set [OF ne] by simp
  with expose_entity_accessor v show ?thesis unfolding exposure_def by metis
qed

lemma accessors_found:
  "\<forall>n \<in> set ns. \<exists>v. m n = Some v \<and> ev_accessor v = ACCESSOR_PREFIX @ n \<Longrightarrow>
   map ev_accessor (List.map_filter m ns) = map (\<lambda>n. ACCESSOR_PREFIX @ n) ns"
  by (induction ns) (auto simp: map_filter_simps)

lemma wanted_keys: "n \<in> W \<Longrightarrow> n \<in> f ` set (filter (\<lambda>x. f x \<in> W) xs) \<longleftrightarrow> n \<in> f ` set xs"
  unfolding image_iff by auto

lemma filter_nil_iff: "sort (remdups (filter P xs)) = [] \<longleftrightarrow> (\<forall>x \<in> set xs. \<not> P x)"
proof -
  have "sort (remdups (filter P xs)) = [] \<longleftrightarrow> set (sort (remdups (filter P xs))) = {}" by (simp only: set_empty)
  then show ?thesis unfolding set_sort by auto
qed

lemma expose_ok_iff:
  assumes "module_span (splitlines source) module = Inr (start, stop, con)"
    and ds: "ds = declared_entities_of (module_statements (slice (start + 1) (spec_end stop con) (splitlines source)))"
  shows "is_ok (expose_module_variables source module names) \<longleftrightarrow>
     (\<forall>x \<in> set ds. decl_key x \<in> lower ` set names \<longrightarrow> is_ok (exposure module x)) \<and>
     (\<forall>n \<in> set names. lower n \<in> decl_key ` set ds \<and> \<not> word_in (ACCESSOR_PREFIX @ lower n) source \<and>
                       \<not> word_in (ACCESSOR_PREFIX @ lower n @ ''_c'') source)"
proof -
  let ?wanted = "map lower names" and ?ss = "module_statements (slice (start + 1) (spec_end stop con) (splitlines source))"
  let ?xs = "filter (\<lambda>x. decl_key x \<in> set ?wanted) ds"
  have c: "collect module ?wanted ?ss ([], []) = take_all module ?xs ([], [])" by (simp add: collect_all ds)
  show ?thesis
  proof (cases "take_all module ?xs ([], [])")
    case (Inl e)
    then have "\<not> (\<forall>x \<in> set ?xs. is_ok (exposure module x))" using take_all_ok [of module ?xs "([], [])"] by simp
    moreover have "\<not> is_ok (expose_module_variables source module names)"
      using assms(1) c Inl by (simp add: expose_module_variables_def Let_def)
    ultimately show ?thesis by auto
  next
    case (Inr st)
    obtain vars targets where st: "st = (vars, targets)" by (cases st)
    note t = Inr [unfolded st]
    have ok: "\<forall>x \<in> set ?xs. is_ok (exposure module x)" using take_all_ok [of module ?xs "([], [])"] t by simp
    have found_iff: "map_of vars n \<noteq> None \<longleftrightarrow> n \<in> decl_key ` set ds" if "n \<in> set ?wanted" for n
      unfolding taken_all_found [OF t] using that by (rule wanted_keys)
    let ?vs = "List.map_filter (map_of vars) ?wanted"
    have "is_ok (expose_module_variables source module names) \<longleftrightarrow>
       (\<forall>n \<in> set ?wanted. map_of vars n \<noteq> None) \<and> (\<forall>n \<in> set (concat (map accessor_names ?vs)). \<not> word_in n source)"
      using assms(1) c t by (auto simp: expose_module_variables_def Let_def filter_nil_iff filter_empty_conv)
    also have "(\<forall>n \<in> set ?wanted. map_of vars n \<noteq> None) \<longleftrightarrow> (\<forall>n \<in> set names. lower n \<in> decl_key ` set ds)"
      using found_iff by auto
    also have "(\<forall>n \<in> set names. lower n \<in> decl_key ` set ds) \<and> (\<forall>n \<in> set (concat (map accessor_names ?vs)). \<not> word_in n source) \<longleftrightarrow>
       (\<forall>n \<in> set names. lower n \<in> decl_key ` set ds \<and> \<not> word_in (ACCESSOR_PREFIX @ lower n) source \<and>
                         \<not> word_in (ACCESSOR_PREFIX @ lower n @ ''_c'') source)" (is "?D \<and> ?A \<longleftrightarrow> ?B")
    proof (cases ?D)
      case True
      then have "\<forall>n \<in> set ?wanted. map_of vars n \<noteq> None" using found_iff by simp
      then have some: "\<forall>n \<in> set ?wanted. \<exists>v. map_of vars n = Some v \<and> ev_accessor v = ACCESSOR_PREFIX @ n"
        using found_accessor [OF t] by fast
      then have "map ev_accessor ?vs = map (\<lambda>n. ACCESSOR_PREFIX @ n) ?wanted" by (rule accessors_found)
      then have "ev_accessor ` set ?vs = (\<lambda>n. ACCESSOR_PREFIX @ n) ` set ?wanted" by (metis set_map)
      have "?A \<longleftrightarrow> (\<forall>a \<in> ev_accessor ` set ?vs. \<not> word_in a source \<and> \<not> word_in (a @ ''_c'') source)"
        by (auto simp: accessor_names_def)
      also have "\<dots> \<longleftrightarrow> (\<forall>n \<in> set names. \<not> word_in (ACCESSOR_PREFIX @ lower n) source \<and> \<not> word_in (ACCESSOR_PREFIX @ lower n @ ''_c'') source)"
        unfolding \<open>ev_accessor ` set ?vs = _\<close> by simp
      finally show ?thesis using True by blast
    qed blast
    finally show ?thesis using ok by auto
  qed
qed

text \<open>C33. Exposing succeeds exactly when the module is there with its end, every name asked for is declared in the
  specification part, none of its declarations makes it a named constant or has an extent the rank cannot be read from,
  and no accessor's name occurs in the source.\<close>

theorem expose_defined_iff:
  "is_ok (expose_module_variables source module names) \<longleftrightarrow>
     (\<exists>start stop con ds. module_span (splitlines source) module = Inr (start, stop, con) \<and>
        ds = declared_entities_of (module_statements (slice (start + 1) (spec_end stop con) (splitlines source))) \<and>
        (\<forall>x \<in> set ds. decl_key x \<in> lower ` set names \<longrightarrow> is_ok (exposure module x)) \<and>
        (\<forall>n \<in> set names. lower n \<in> decl_key ` set ds \<and> \<not> word_in (ACCESSOR_PREFIX @ lower n) source \<and>
                          \<not> word_in (ACCESSOR_PREFIX @ lower n @ ''_c'') source))"
proof (cases "module_span (splitlines source) module")
  case (Inl e)
  then show ?thesis by (simp add: expose_module_variables_def Let_def)
next
  case (Inr span)
  obtain start stop con where span: "span = (start, stop, con)" by (cases span)
  show ?thesis using expose_ok_iff [OF Inr [unfolded span] refl, of names] Inr span by simp
qed

theorem expose_defined_iff_witness:
  "is_ok (expose_module_variables ex_source ''m'' [''q'']) \<and>
   lower ''q'' \<in> decl_key ` set (declared_entities_of [''integer::q,q_c'']) \<and> \<not> word_in (ACCESSOR_PREFIX @ lower ''q'') ex_source"
proof -
  have ok: "is_ok (expose_module_variables ex_source ''m'' [''q''])" unfolding ex_expose is_ok_simps ..
  from ok [unfolded expose_defined_iff ex_module_lines ex_span] ex_statements show ?thesis using ok by simp
qed

section \<open>The comparison of symbols\<close>

lemma data_symbols_distinct: "data_symbols_from ls syms = Inr out \<Longrightarrow> distinct (map fst syms) \<Longrightarrow> distinct (map fst out)"
  by (induction ls syms rule: data_symbols_from.induct) (auto split: option.splits prod.splits simp: distinct_update)

text \<open>The names reported are, in order and once each, those of the original's data symbols that the copy lacks or has with
  another size; none means that the copy can replace the object.\<close>

lemma changed_symbols:
  assumes "global_data_symbols original = Inr syms" and "global_data_symbols copy = Inr news"
  obtains names where "changed_global_data_symbols original copy = Inr names" and "sorted names" and "distinct names"
    and "set names = {n. map_of syms n \<noteq> None \<and> map_of news n \<noteq> map_of syms n}"
proof -
  let ?names = "sort (map fst (filter (\<lambda>(name, size). map_of news name \<noteq> Some size) syms))"
  have d: "distinct (map fst syms)" using assms(1) data_symbols_distinct unfolding global_data_symbols_def by fastforce
  have "distinct ?names" using distinct_map_filter [OF d] by simp
  moreover have "set ?names = {n. map_of syms n \<noteq> None \<and> map_of news n \<noteq> map_of syms n}"
    using d by (auto simp: image_iff split_def)
  ultimately show ?thesis using that [of ?names] assms by (simp add: changed_global_data_symbols_def)
qed

end
