(* ===== verification/Standin.thy ===== *)
theory Standin
  imports Specialization Module_Access
begin

text \<open>
  \<open>bindings/standin.py\<close>: the external subroutines the linker puts in a procedure's place, one that records module values on
  every call and one that calls a built binding and falls back to the original. The emitted text is a list of lines.
\<close>

section \<open>Errors and values\<close>

datatype standin_error =
    MaybeNoStorage string string
  | PolymorphicScalar string
  | CharacterDummy string
  | UnknownPassing string string
  | NoTypeModule string string
  | NonFinite
  | NotConvertible
  | NoSuchVariable string

record recorded_value =
  rv_module :: string
  rv_name :: string
  rv_type :: string

definition variable_of :: "string \<Rightarrow> string" where
  "variable_of name = takeWhile (\<lambda>c. c \<noteq> CHR ''('' \<and> c \<noteq> CHR ''%'') name"

type_synonym private_access = "(string \<times> (string \<times> exposed) list) list"

definition lowered :: "(string \<times> 'a) list \<Rightarrow> (string \<times> 'a) list" where
  "lowered d = fold (\<lambda>(k, v). AList.update (lower k) v) d []"

definition private_table :: "private_access \<Rightarrow> private_access" where
  "private_table pa = fold (\<lambda>(m, vs). AList.update (lower m) (lowered vs)) pa []"

record module_reads =
  vr_uses :: "string list"
  vr_declarations :: "string list"
  vr_statements :: "string list"
  vr_expressions :: "string list"

type_synonym pointers = "((string \<times> string) \<times> string) list"

definition find_private :: "private_access \<Rightarrow> recorded_value \<Rightarrow> exposed option" where
  "find_private pa v =
     (case map_of pa (lower (rv_module v)) of None \<Rightarrow> None | Some vs \<Rightarrow> map_of vs (lower (variable_of (rv_name v))))"

definition add_pointer :: "string \<Rightarrow> string \<Rightarrow> exposed \<Rightarrow> module_reads \<times> pointers \<Rightarrow> module_reads \<times> pointers" where
  "add_pointer prefix module e st =
     (case st of (r, ps) \<Rightarrow>
       (let key = (lower module, ev_name e) in
        if map_of ps key \<noteq> None then (r, ps)
        else (let j = str_nat (length ps); p = prefix @ ''_ptr_'' @ j; acc = prefix @ ''_acc_'' @ j in
              (r\<lparr>vr_declarations := vr_declarations r @ [ev_type e @ '', pointer :: '' @ p @ colons (ev_rank e)] @ c_accessor_interface e acc,
                 vr_statements := vr_statements r @ c_accessor_association e acc p\<rparr>, ps @ [(key, p)]))))"

fun read_values :: "private_access \<Rightarrow> string \<Rightarrow> nat \<Rightarrow> recorded_value list \<Rightarrow> module_reads \<times> pointers \<Rightarrow>
    standin_error + module_reads \<times> pointers" where
  "read_values pa prefix i [] st = Inr st"
| "read_values pa prefix i (v # vs) st =
     (let var = variable_of (rv_name v); path = drop (length var) (rv_name v) in
      case find_private pa v of
        None \<Rightarrow>
          (case st of (r, ps) \<Rightarrow>
             read_values pa prefix (i + 1) vs
               (r\<lparr>vr_uses := vr_uses r @ [''use '' @ rv_module v @ '', only: '' @ prefix @ ''_'' @ str_nat i @ '' => '' @ var],
                  vr_expressions := vr_expressions r @ [prefix @ ''_'' @ str_nat i @ path]\<rparr>, ps))
      | Some e \<Rightarrow>
          (if ev_allocatable e \<or> ev_pointer e then Inl (MaybeNoStorage (rv_module v) var)
           else (case add_pointer prefix (rv_module v) e st of (r, ps) \<Rightarrow>
             read_values pa prefix (i + 1) vs
               (r\<lparr>vr_expressions := vr_expressions r @ [the (map_of ps (lower (rv_module v), ev_name e)) @ path]\<rparr>, ps))))"

text \<open>The rank looked up again by the variable's own name, as \<open>private[mod][name]\<close>.\<close>

definition pointer_rank :: "private_access \<Rightarrow> (string \<times> string) \<times> string \<Rightarrow> standin_error + nat" where
  "pointer_rank pa p =
     (case map_of pa (fst (fst p)) of
        None \<Rightarrow> Inl (NoSuchVariable (fst (fst p)))
      | Some vs \<Rightarrow> map_sum id ev_rank (of_option (NoSuchVariable (snd (fst p))) (map_of vs (snd (fst p)))))"

definition value_reads ::
  "recorded_value list \<Rightarrow> string \<Rightarrow> private_access \<Rightarrow> string list \<Rightarrow> standin_error + module_reads" where
  "value_reads values prefix access imports =
     (let pa = private_table access in
      rbind (read_values pa prefix 0 values (\<lparr>vr_uses = [], vr_declarations = [], vr_statements = [], vr_expressions = []\<rparr>, []))
        (\<lambda>(r, ps).
          if ps = [] then Inr r
          else rbind (rmap (pointer_rank pa) ps) (\<lambda>ranks.
            let rank = str_nat (Max (set (ranks @ [1]))) in
            Inr (r\<lparr>vr_declarations := vr_declarations r @
                     [''type(c_ptr) :: dace_addr'',
                      ''integer(c_int64_t) :: dace_lb('' @ rank @ ''), dace_ub('' @ rank @ '')'',
                      ''integer(c_int) :: dace_present''],
                   vr_uses := vr_uses r @ map strip imports\<rparr>))))"

section \<open>The dummies\<close>

definition standin_name :: "string \<Rightarrow> string \<Rightarrow> string" where
  "standin_name kind entry = ''dace_'' @ kind @ ''_'' @ entry"

definition explicit_shape :: "original_arg \<Rightarrow> bool" where
  "explicit_shape a =
     (oa_rank a \<noteq> 0 \<and> int (length (oa_shape a)) = oa_rank a \<and>
      list_all (\<lambda>e. strip e \<notin> {[], ''*'', '':'', ''?''}) (oa_shape a))"

definition arg_shape :: "original_arg \<Rightarrow> string" where
  "arg_shape a =
     (if oa_passing a = ''address''
      then (if explicit_shape a then ''('' @ join '', '' (map strip (oa_shape a)) @ '')''
            else if oa_rank a \<noteq> 0 then ''(*)'' else [])
      else if oa_passing a \<in> {''descriptor'', ''allocatable'', ''pointer''}
      then (if oa_rank a \<noteq> 0 then ''('' @ join '', '' (replicate (nat (oa_rank a)) '':'') @ '')'' else [])
      else [])"

definition arg_attributes :: "original_arg \<Rightarrow> string list" where
  "arg_attributes a =
     [oa_fortran_type a] @ (if oa_passing a \<in> {''allocatable'', ''pointer'', ''value''} then [oa_passing a] else []) @
     (if oa_intent a \<noteq> [] \<and> oa_passing a \<noteq> ''value'' then [''intent('' @ oa_intent a @ '')''] else []) @
     (if oa_optional a then [''optional''] else [])"

definition declaration_error :: "original_arg \<Rightarrow> standin_error option" where
  "declaration_error a =
     (if oa_passing a \<in> {''address'', ''allocatable'', ''pointer'', ''value''} then None
      else if oa_passing a = ''descriptor'' then (if oa_rank a = 0 then Some (PolymorphicScalar (oa_name a)) else None)
      else if oa_passing a = ''character'' then Some (CharacterDummy (oa_name a))
      else Some (UnknownPassing (oa_name a) (oa_passing a)))"

definition dummy_declaration :: "original_arg \<Rightarrow> standin_error + string" where
  "dummy_declaration a =
     (case declaration_error a of
        Some e \<Rightarrow> Inl e
      | None \<Rightarrow> Inr (join '', '' (arg_attributes a) @ '' :: '' @ oa_name a @ arg_shape a))"

text \<open>The module of a derived type: the recorded one, else the first used module that names the type.\<close>

definition type_module :: "original_interface \<Rightarrow> string \<Rightarrow> string option" where
  "type_module iface t =
     (case or_None (case map_of (oi_struct_types iface) t of None \<Rightarrow> None | Some l \<Rightarrow> dt_module l) of
        Some m \<Rightarrow> Some m
      | None \<Rightarrow> or_None (map_option fst (List.find (\<lambda>(m, syms). t \<in> set syms) (oi_used_modules iface))))"

definition type_use :: "original_interface \<Rightarrow> original_arg \<Rightarrow> standin_error + string list" where
  "type_use iface a =
     (case or_None (oa_struct_type a) of
        None \<Rightarrow> Inr []
      | Some t \<Rightarrow>
          (case type_module iface t of
             None \<Rightarrow> Inl (NoTypeModule (oa_name a) t)
           | Some m \<Rightarrow> Inr [''use '' @ m @ '', only: '' @ t]))"

definition extent_names :: "original_interface \<Rightarrow> string list" where
  "extent_names iface =
     remdups (concat (map (\<lambda>a. if oa_passing a = ''address'' \<and> explicit_shape a
        then concat (map (\<lambda>e. map (\<lambda>m. lower (m_text m)) (re_finditer (Seq re_ident_start (many re_word)) e)) (oa_shape a)) else [])
       (oi_args iface)))"

definition use_extents :: "string \<times> string list \<Rightarrow> string list \<times> string list \<Rightarrow> string list \<times> string list" where
  "use_extents u st =
     (case st of (uses, extents) \<Rightarrow>
       (let names = sort (filter (\<lambda>s. lower s \<in> set extents) (snd u)) in
        if names = [] then (uses, extents)
        else (uses @ [''use '' @ fst u @ '', only: '' @ join '', '' names],
              filter (\<lambda>e. e \<notin> lower ` set names) extents)))"

definition known_use :: "(string \<times> string) list \<Rightarrow> string \<Rightarrow> string list" where
  "known_use known name =
     (case or_None (map_of known name) of None \<Rightarrow> [] | Some m \<Rightarrow> [''use '' @ m @ '', only: '' @ name])"

text \<open>The keys of \<open>used_modules\<close> are distinct, so \<open>sorted(items())\<close> compares modules only.\<close>

definition render_dummies ::
  "original_interface \<Rightarrow> (string \<times> string) list \<Rightarrow> standin_error + string list \<times> string list" where
  "render_dummies iface known =
     rbind (rmap (type_use iface) (oi_args iface)) (\<lambda>tus.
       let (uses, extents) = fold use_extents (sort_key fst (oi_used_modules iface))
             ([''use iso_c_binding''] @ concat tus, extent_names iface);
           uses = uses @ concat (map (known_use known) (sort extents))
       in rbind (rmap dummy_declaration (oi_args iface)) (\<lambda>decls. Inr (rev (remdups (rev uses)), decls)))"

section \<open>The subroutine\<close>

definition with_arguments :: "string \<Rightarrow> string list \<Rightarrow> string list" where
  "with_arguments head names =
     (if names = [] then [head @ ''()'']
      else [head @ ''( &''] @ map (\<lambda>n. ''    '' @ n @ '', &'') (butlast names) @ [''    '' @ last names @ '')''])"

definition indent :: "string \<Rightarrow> string list \<Rightarrow> string list" where
  "indent by ls = map (\<lambda>l. by @ l) ls"

definition standin_subroutine ::
  "string \<Rightarrow> original_interface \<Rightarrow> string list \<Rightarrow> string list \<Rightarrow> string list \<Rightarrow> (string \<times> string) list \<Rightarrow> standin_error + string list" where
  "standin_subroutine name iface body extra locals known =
     rbind (render_dummies iface known) (\<lambda>(uses, decls).
       let args = map oa_name (oi_args iface); original = standin_name ''original'' (oi_entry iface) in
       Inr (with_arguments (''subroutine '' @ name) args @
            indent ''    '' (uses @ extra) @ [''    implicit none''] @ indent ''    '' decls @ indent ''    '' locals @
            [''    interface''] @ indent ''        '' (with_arguments (''subroutine '' @ original) args) @
            indent ''            '' uses @ [''            implicit none''] @ indent ''            '' decls @
            [''        end subroutine '' @ original, ''    end interface''] @
            indent ''    '' body @ [''end subroutine '' @ name]))"

text \<open>A named character constant in pieces; \<open>chunk\<close> is 50 wherever it is called.\<close>

fun chunks :: "nat \<Rightarrow> string \<Rightarrow> string list" where
  "chunks n s = (if n = 0 \<or> s = [] then [] else take n s # chunks n (drop n s))"

declare chunks.simps [simp del]

definition literal_of :: "string \<Rightarrow> string" where
  "literal_of piece = quote @ replace quote (quote @ quote) piece @ quote"

fun constant_lines :: "string \<Rightarrow> string list \<Rightarrow> string list" where
  "constant_lines cur [] = [cur]"
| "constant_lines cur (l # ls) = (cur @ '' // &'') # constant_lines (''    '' @ l) ls"

definition character_constant :: "string \<Rightarrow> string \<Rightarrow> string list" where
  "character_constant name value =
     (let literals = map literal_of (case chunks 50 value of [] \<Rightarrow> [[]] | ps \<Rightarrow> ps) in
      constant_lines (''character(len=*), parameter :: '' @ name @ '' = '' @ hd literals) (tl literals))"

section \<open>Recording\<close>

definition write_value :: "string \<Rightarrow> string \<Rightarrow> string \<Rightarrow> string" where
  "write_value value ftype label =
     (let fmt = (if startswith ftype ''real'' then ''es25.17e3'' else ''i0'') in
      concat [''write(dace_record_unit, '', quote, ''(a, 1x, '', fmt, '')'', quote, '') '', label, '', '',
        if startswith ftype ''logical'' then ''merge(1, 0, '' @ value @ '')'' else value])"

text \<open>The modules of other variables by name: those given, overridden by the values'.\<close>

definition known_modules :: "(string \<times> string) list \<Rightarrow> recorded_value list \<Rightarrow> (string \<times> string) list" where
  "known_modules known values = fold (\<lambda>v. AList.update (lower (variable_of (rv_name v))) (rv_module v)) values known"

definition label_name :: "nat \<Rightarrow> string" where
  "label_name i = ''dace_label_'' @ str_nat i"

definition recording_standin ::
  "original_interface \<Rightarrow> recorded_value list \<Rightarrow> string \<Rightarrow> private_access \<Rightarrow> string list \<Rightarrow> bool \<Rightarrow> (string \<times> string) list \<Rightarrow>
   standin_error + string" where
  "recording_standin iface values record_path access imports per_rank known =
     rbind (value_reads values ''dace_value'' access imports) (\<lambda>reads.
       let (declarations, opening) = record_open_lines ''dace_record_unit'' ''dace_record_path'' per_rank;
           locals = [''integer :: dace_record_unit''] @ declarations @ character_constant ''dace_record_path'' record_path @
             concat (map (\<lambda>(i, v). character_constant (label_name i) (rv_module v @ ''::'' @ rv_name v)) (List.enumerate 0 values));
           body = vr_statements reads @ opening @
             map (\<lambda>(i, v, e). write_value e (rv_type v) (label_name i)) (List.enumerate 0 (zip values (vr_expressions reads))) @
             [concat [''write(dace_record_unit, '', quote, ''(a)'', quote, '') '', quote, quote], ''close(dace_record_unit)''] @
             with_arguments (''call '' @ standin_name ''original'' (oi_entry iface)) (map oa_name (oi_args iface))
       in rbind (standin_subroutine (standin_name ''record'' (oi_entry iface)) iface body (vr_uses reads)
                  (locals @ vr_declarations reads) (known_modules known values)) (\<lambda>ls. Inr (join [LF] ls @ [LF])))"

section \<open>Substituting\<close>

definition value_literal :: "'f float_ops \<Rightarrow> 'f pyvalue \<Rightarrow> string \<Rightarrow> standin_error + string" where
  "value_literal ops v ftype =
     (if startswith ftype ''logical''
      then Inr (if (case v of VInt i \<Rightarrow> i \<noteq> 0 | VFloat f \<Rightarrow> fo_true ops f) then ''.true.'' else ''.false.'')
      else if startswith ftype ''real''
      then (case (case v of VInt i \<Rightarrow> fo_of_int ops i | VFloat f \<Rightarrow> Some f) of
              None \<Rightarrow> Inl NotConvertible
            | Some f \<Rightarrow>
                (if \<not> fo_finite ops f then Inl NonFinite
                 else (let t = fo_str ops f in Inr (if CHR ''e'' \<in> set t then replace ''e'' ''d'' t else t @ ''d0''))))
      else (case (case v of VInt i \<Rightarrow> Some i | VFloat f \<Rightarrow> fo_to_int ops f) of
              None \<Rightarrow> Inl NotConvertible
            | Some i \<Rightarrow> Inr (str_int i)))"

definition differs_test :: "'f float_ops \<Rightarrow> string \<Rightarrow> 'f pyvalue \<Rightarrow> string \<Rightarrow> standin_error + string" where
  "differs_test ops expr v ftype =
     rbind (value_literal ops v ftype) (\<lambda>l. Inr (concat [expr, if startswith ftype ''logical'' then '' .neqv. '' else '' /= '', l]))"

definition refuse_lines :: "string \<Rightarrow> bool \<Rightarrow> string list" where
  "refuse_lines entry refuse =
     (if \<not> refuse then []
      else [''if (dace_took) then'',
            concat [''    write(0, '', quote, ''(3a)'', quote, '') '', quote, entry, '': the substitute declines ('', quote,
              '', trim(dace_why), '', quote, '') after it took calls; &''],
            concat [''        &its buffers kept between calls are not in the members the original reads: stopping'', quote],
            ''    error stop'', ''end if''])"

definition report_lines :: "string \<Rightarrow> string list" where
  "report_lines entry =
     [''if (declined .and. .not. dace_reported) then'',
      concat [''    write(0, '', quote, ''(3a)'', quote, '') '', quote, entry, '': the substitute declined ('', quote,
        '', trim(dace_why), '', quote, ''); the original runs'', quote],
      ''    dace_reported = .true.'', ''end if'']"

definition baked_check :: "recorded_value \<Rightarrow> string \<Rightarrow> string list" where
  "baked_check v c =
     [''if ('' @ c @ '') then'', ''    declined = .true.'',
      concat [''    if (dace_why == '', quote, quote, '') dace_why = '', quote, ''baked '', rv_module v, ''::'', rv_name v, '' differs'', quote],
      ''end if'']"

definition baked_lines :: "string \<Rightarrow> string list \<Rightarrow> bool \<Rightarrow> string list \<Rightarrow> (recorded_value \<times> string) list \<Rightarrow> string list" where
  "baked_lines entry args refuse statements checks =
     statements @ [''declined = .false.'', ''dace_why = '' @ quote @ quote] @
     concat (map (\<lambda>(v, c). baked_check v c) checks) @
     [''if (declined) then''] @ indent ''    '' (refuse_lines entry refuse) @ indent ''    '' (report_lines entry) @
     indent ''    '' (with_arguments (''call '' @ standin_name ''original'' entry) args) @ [''    return'', ''end if'']"

definition wrapper_lines :: "string \<Rightarrow> string list \<Rightarrow> string \<Rightarrow> bool \<Rightarrow> string list" where
  "wrapper_lines entry args wrapper refuse =
     with_arguments (''call '' @ wrapper) (args @ [''dace_declined=declined'']) @
     [concat [''dace_why = '', quote, ''a check of the binding: members, storage or specialised extents'', quote]] @
     (if refuse then [''if (declined) then''] @ indent ''    '' (refuse_lines entry refuse) @ [''else'', ''    dace_took = .true.'', ''end if''] else []) @
     report_lines entry @
     [''if (.not. declined .and. .not. dace_trace_reported) then'',
      concat [''    call get_environment_variable('', quote, ''DACE_SUBSTITUTE_TRACE'', quote, '', dace_trace, status=dace_trace_status)''],
      concat [''    if (dace_trace_status == 0 .and. dace_trace == '', quote, ''1'', quote, '') then''],
      concat [''        write(0, '', quote, ''(a)'', quote, '') '', quote, ''DACE_SUBSTITUTE_ENGAGED '', entry, quote],
      ''    end if'', ''    dace_trace_reported = .true.'', ''end if''] @
     with_arguments (''if (declined) call '' @ standin_name ''original'' entry) args"

definition substitute_locals :: "bool \<Rightarrow> string list" where
  "substitute_locals refuse =
     [''logical :: declined'', ''character(len=120) :: dace_why'', ''logical, save :: dace_reported = .false.'',
      ''logical, save :: dace_trace_reported = .false.'', ''character(len=1) :: dace_trace'', ''integer :: dace_trace_status''] @
     (if refuse then [''logical, save :: dace_took = .false.''] else [])"

definition baked_reads ::
  "'f float_ops \<Rightarrow> (recorded_value \<times> 'f pyvalue) list \<Rightarrow> private_access \<Rightarrow> string list \<Rightarrow>
   standin_error + module_reads \<times> (recorded_value \<times> string) list" where
  "baked_reads ops baked access imports =
     rbind (value_reads (map fst baked) ''dace_baked'' access imports) (\<lambda>reads.
     rbind (rmap (\<lambda>((v, x), e). rbind (differs_test ops e x (rv_type v)) (\<lambda>c. Inr (v, c))) (zip baked (vr_expressions reads))) (\<lambda>checks.
       Inr (reads, checks)))"

definition substitute_body ::
  "string \<Rightarrow> string list \<Rightarrow> string \<Rightarrow> bool \<Rightarrow> bool \<Rightarrow> module_reads \<Rightarrow> (recorded_value \<times> string) list \<Rightarrow> string list" where
  "substitute_body entry args wrapper refuse any reads checks =
     (if any then baked_lines entry args refuse (vr_statements reads) checks else []) @ wrapper_lines entry args wrapper refuse"

definition substitute_entry ::
  "'f float_ops \<Rightarrow> original_interface \<Rightarrow> string \<Rightarrow> string \<Rightarrow> (recorded_value \<times> 'f pyvalue) list \<Rightarrow> private_access \<Rightarrow>
   string list \<Rightarrow> bool \<Rightarrow> (string \<times> string) list \<Rightarrow> standin_error + string" where
  "substitute_entry ops iface binding_module wrapper baked access imports refuse known =
     (let entry = oi_entry iface; args = map oa_name (oi_args iface);
          none = \<lparr>vr_uses = [], vr_declarations = [], vr_statements = [], vr_expressions = []\<rparr> in
      rbind (if baked = [] then Inr (none, []) else baked_reads ops baked access imports) (\<lambda>(reads, checks).
      rbind (standin_subroutine (standin_name ''sub'' entry) iface
               (substitute_body entry args wrapper refuse (baked \<noteq> []) reads checks)
               ([''use '' @ binding_module @ '', only: '' @ wrapper] @ vr_uses reads)
               (substitute_locals refuse @ vr_declarations reads) (known_modules known (map fst baked))) (\<lambda>ls.
        Inr (join [LF] ls @ [LF]))))"

section \<open>What a substituted call does\<close>

text \<open>The statements of the substitute's body, and the lines they are written as.\<close>

datatype test = Declined | Took | Differs string | Other string

datatype action =
    Inert "string list"
  | SetDeclined bool
  | SetTook
  | CallWrapper
  | CallOriginal
  | OriginalIfDeclined
  | Return
  | ErrorStop
  | When test "action list" "action list"

fun test_text :: "test \<Rightarrow> string" where
  "test_text Declined = ''declined''"
| "test_text Took = ''dace_took''"
| "test_text (Differs c) = c"
| "test_text (Other c) = c"

fun render :: "string \<Rightarrow> string list \<Rightarrow> string \<Rightarrow> action \<Rightarrow> string list" where
  "render entry args wrapper (Inert ls) = ls"
| "render entry args wrapper (SetDeclined b) = [''declined = '' @ (if b then ''.true.'' else ''.false.'')]"
| "render entry args wrapper SetTook = [''dace_took = .true.'']"
| "render entry args wrapper CallWrapper = with_arguments (''call '' @ wrapper) (args @ [''dace_declined=declined''])"
| "render entry args wrapper CallOriginal = with_arguments (''call '' @ standin_name ''original'' entry) args"
| "render entry args wrapper OriginalIfDeclined = with_arguments (''if (declined) call '' @ standin_name ''original'' entry) args"
| "render entry args wrapper Return = [''return'']"
| "render entry args wrapper ErrorStop = [''error stop'']"
| "render entry args wrapper (When t xs ys) =
     [''if ('' @ test_text t @ '') then''] @ indent ''    '' (concat (map (render entry args wrapper) xs)) @
     (if ys = [] then [] else [''else''] @ indent ''    '' (concat (map (render entry args wrapper) ys))) @ [''end if'']"

text \<open>The values of the conditions, whether the wrapper declines the call, and what has happened so far.\<close>

record call_env =
  ce_holds :: "string \<Rightarrow> bool"
  ce_declines :: bool

datatype event = Ran_wrapper | Ran_original | Stopped

record call_state =
  cs_declined :: bool
  cs_took :: bool
  cs_events :: "event list"
  cs_over :: bool

definition happens :: "event \<Rightarrow> call_state \<Rightarrow> call_state" where
  "happens e st = st\<lparr>cs_events := cs_events st @ [e]\<rparr>"

definition passes_test :: "call_env \<Rightarrow> test \<Rightarrow> call_state \<Rightarrow> bool" where
  "passes_test env t st = (case t of Declined \<Rightarrow> cs_declined st | Took \<Rightarrow> cs_took st | Differs c \<Rightarrow> ce_holds env c | Other c \<Rightarrow> ce_holds env c)"

fun act :: "call_env \<Rightarrow> action \<Rightarrow> call_state \<Rightarrow> call_state" where
  "act env (Inert ls) st = st"
| "act env (SetDeclined b) st = (if cs_over st then st else st\<lparr>cs_declined := b\<rparr>)"
| "act env SetTook st = (if cs_over st then st else st\<lparr>cs_took := True\<rparr>)"
| "act env CallWrapper st = (if cs_over st then st else happens Ran_wrapper (st\<lparr>cs_declined := ce_declines env\<rparr>))"
| "act env CallOriginal st = (if cs_over st then st else happens Ran_original st)"
| "act env OriginalIfDeclined st = (if \<not> cs_over st \<and> cs_declined st then happens Ran_original st else st)"
| "act env Return st = st\<lparr>cs_over := True\<rparr>"
| "act env ErrorStop st = (if cs_over st then st else happens Stopped (st\<lparr>cs_over := True\<rparr>))"
| "act env (When t xs ys) st =
     (if cs_over st then st else if passes_test env t st then fold (act env) xs st else fold (act env) ys st)"

definition refuse_actions :: "string \<Rightarrow> bool \<Rightarrow> action list" where
  "refuse_actions entry refuse =
     (if \<not> refuse then []
      else [When Took
             [Inert [concat [''write(0, '', quote, ''(3a)'', quote, '') '', quote, entry, '': the substitute declines ('', quote,
                '', trim(dace_why), '', quote, '') after it took calls; &''],
                concat [''    &its buffers kept between calls are not in the members the original reads: stopping'', quote]],
              ErrorStop] []])"

definition report_actions :: "string \<Rightarrow> action list" where
  "report_actions entry =
     [When (Other ''declined .and. .not. dace_reported'')
        [Inert [concat [''write(0, '', quote, ''(3a)'', quote, '') '', quote, entry, '': the substitute declined ('', quote,
           '', trim(dace_why), '', quote, ''); the original runs'', quote], ''dace_reported = .true.'']] []]"

definition check_action :: "recorded_value \<times> string \<Rightarrow> action" where
  "check_action p =
     When (Differs (snd p))
       [SetDeclined True,
        Inert [concat [''if (dace_why == '', quote, quote, '') dace_why = '', quote, ''baked '', rv_module (fst p), ''::'',
          rv_name (fst p), '' differs'', quote]]] []"

definition trace_actions :: "string \<Rightarrow> action list" where
  "trace_actions entry =
     [When (Other ''.not. declined .and. .not. dace_trace_reported'')
        [Inert [concat [''call get_environment_variable('', quote, ''DACE_SUBSTITUTE_TRACE'', quote, '', dace_trace, status=dace_trace_status)'']],
         When (Other (concat [''dace_trace_status == 0 .and. dace_trace == '', quote, ''1'', quote]))
           [Inert [concat [''write(0, '', quote, ''(a)'', quote, '') '', quote, ''DACE_SUBSTITUTE_ENGAGED '', entry, quote]]] [],
         Inert [''dace_trace_reported = .true.'']] []]"

definition entry_program :: "string \<Rightarrow> bool \<Rightarrow> bool \<Rightarrow> string list \<Rightarrow> (recorded_value \<times> string) list \<Rightarrow> action list" where
  "entry_program entry refuse any statements checks =
     (if any then
        [Inert statements, SetDeclined False, Inert [''dace_why = '' @ quote @ quote]] @ map check_action checks @
        [When Declined (refuse_actions entry refuse @ report_actions entry @ [CallOriginal, Return]) []]
      else []) @
     [CallWrapper, Inert [concat [''dace_why = '', quote, ''a check of the binding: members, storage or specialised extents'', quote]]] @
     (if refuse then [When Declined (refuse_actions entry refuse) [SetTook]] else []) @
     report_actions entry @
     trace_actions entry @ [OriginalIfDeclined]"

definition renders :: "string \<Rightarrow> string list \<Rightarrow> string \<Rightarrow> action list \<Rightarrow> string list" where
  "renders entry args wrapper prog = concat (map (render entry args wrapper) prog)"

lemma renders_append: "renders entry args wrapper (xs @ ys) = renders entry args wrapper xs @ renders entry args wrapper ys"
  by (simp add: renders_def)

lemma indent_append [simp]: "indent b (xs @ ys) = indent b xs @ indent b ys" "indent b (x # xs) = (b @ x) # indent b xs" "indent b [] = []"
  by (simp_all add: indent_def)

lemma render_refuse: "renders entry args wrapper (refuse_actions entry refuse) = refuse_lines entry refuse"
  by (simp add: renders_def refuse_actions_def refuse_lines_def)

lemma render_report: "renders entry args wrapper (report_actions entry) = report_lines entry"
  by (simp add: renders_def report_actions_def report_lines_def)

lemma render_trace:
  "renders entry args wrapper (trace_actions entry) =
     [''if (.not. declined .and. .not. dace_trace_reported) then'',
      concat [''    call get_environment_variable('', quote, ''DACE_SUBSTITUTE_TRACE'', quote, '', dace_trace, status=dace_trace_status)''],
      concat [''    if (dace_trace_status == 0 .and. dace_trace == '', quote, ''1'', quote, '') then''],
      concat [''        write(0, '', quote, ''(a)'', quote, '') '', quote, ''DACE_SUBSTITUTE_ENGAGED '', entry, quote],
      ''    end if'', ''    dace_trace_reported = .true.'', ''end if'']"
  by (simp add: renders_def trace_actions_def)

lemma render_check: "render entry args wrapper (check_action (v, c)) = baked_check v c"
  by (simp add: check_action_def baked_check_def)

lemma render_when: "render entry args wrapper (When t xs []) = [''if ('' @ test_text t @ '') then''] @ indent ''    '' (renders entry args wrapper xs) @ [''end if'']"
  by (simp add: renders_def)

lemma render_when_else: "render entry args wrapper (When t xs [SetTook]) = [''if ('' @ test_text t @ '') then''] @
    indent ''    '' (renders entry args wrapper xs) @ [''else'', ''    dace_took = .true.'', ''end if'']"
  by (simp add: renders_def)

lemma render_checks: "renders entry args wrapper (map check_action checks) = concat (map (\<lambda>(v, c). baked_check v c) checks)"
  by (induction checks) (auto simp: renders_def render_check)

lemma renders_simps:
  "renders entry args wrapper [] = []"
  "renders entry args wrapper (x # xs) = render entry args wrapper x @ renders entry args wrapper xs"
  by (simp_all add: renders_def)

lemma entry_program_text:
  "renders entry args wrapper (entry_program entry refuse any (vr_statements reads) checks) = substitute_body entry args wrapper refuse any reads checks"
proof -
  note simps = renders_append render_checks renders_simps render_refuse render_report render_trace
  have head: "renders entry args wrapper ([Inert (vr_statements reads), SetDeclined False, Inert [''dace_why = '' @ quote @ quote]] @
      map check_action checks @ [When Declined (refuse_actions entry refuse @ report_actions entry @ [CallOriginal, Return]) []]) =
      baked_lines entry args refuse (vr_statements reads) checks"
    unfolding simps render_when by (simp add: baked_lines_def renders_append render_refuse render_report renders_simps indent_def)
  show ?thesis
  proof (cases refuse)
    case True
    then show ?thesis using head
      by (simp add: entry_program_def substitute_body_def wrapper_lines_def simps render_when_else del: render.simps(9))
  next
    case False
    then show ?thesis using head
      by (simp add: entry_program_def substitute_body_def wrapper_lines_def simps del: render.simps(9))
  qed
qed

section \<open>Every call is served\<close>

definition call_start :: "bool \<Rightarrow> call_state" where
  "call_start took = \<lparr>cs_declined = False, cs_took = took, cs_events = [], cs_over = False\<rparr>"

text \<open>How a call that the substitute leaves to the original ends.\<close>

definition left_to_original :: "bool \<Rightarrow> bool \<Rightarrow> event list" where
  "left_to_original refuse took = (if refuse \<and> took then [Stopped] else [Ran_original])"

lemma act_checks:
  "\<not> cs_over st \<Longrightarrow> fold (act env) (map check_action checks) st =
     st\<lparr>cs_declined := (cs_declined st \<or> list_ex (\<lambda>(v, c). ce_holds env c) checks)\<rparr>"
  by (induction checks arbitrary: st) (auto simp: check_action_def passes_test_def)

lemma act_over: "cs_over st \<Longrightarrow> act env a st = st"
  by (cases a) (auto simp: call_state.equality)

lemma acts_over: "cs_over st \<Longrightarrow> fold (act env) as st = st"
  by (induction as) (simp_all add: act_over)

lemma acts_inert:
  "fold (act env) (trace_actions entry) st = st"
  "fold (act env) (report_actions entry) st = st"
  "\<not> cs_over st \<Longrightarrow> fold (act env) (refuse_actions entry refuse) st =
     (if refuse \<and> cs_took st then happens Stopped (st\<lparr>cs_over := True\<rparr>) else st)"
  by (auto simp: report_actions_def refuse_actions_def trace_actions_def passes_test_def)

text \<open>The wrapper, and what follows when it declines.\<close>

lemma act_end:
  "\<not> cs_over st \<Longrightarrow> (let st' = fold (act env) (entry_program entry refuse False ss cs) st in
     cs_events st' = cs_events st @ [Ran_wrapper] @ (if ce_declines env then left_to_original refuse (cs_took st) else []) \<and>
     cs_took st' = (cs_took st \<or> refuse \<and> \<not> ce_declines env))"
  by (auto simp: entry_program_def acts_inert passes_test_def happens_def left_to_original_def Let_def)

lemma act_program:
  "cs_events (fold (act env) (entry_program entry refuse any ss checks) (call_start took)) =
     (if any \<and> list_ex (\<lambda>(v, c). ce_holds env c) checks then left_to_original refuse took
      else [Ran_wrapper] @ (if ce_declines env then left_to_original refuse took else []))"
proof -
  let ?tail = "entry_program entry refuse False ss checks"
  have prog: "entry_program entry refuse True ss checks =
     [Inert ss, SetDeclined False, Inert [''dace_why = '' @ quote @ quote]] @ map check_action checks @
     [When Declined (refuse_actions entry refuse @ report_actions entry @ [CallOriginal, Return]) []] @ ?tail"
    by (simp add: entry_program_def)
  show ?thesis
  proof (cases "any \<and> list_ex (\<lambda>(v, c). ce_holds env c) checks")
    case True
    then show ?thesis
      by (simp add: prog act_checks call_start_def passes_test_def acts_inert acts_over happens_def left_to_original_def)
  next
    case False
    show ?thesis
    proof (cases any)
      case True
      then show ?thesis using False act_end [of "call_start took" env entry refuse ss checks]
        by (simp add: prog act_checks passes_test_def call_start_def Let_def)
    next
      case none: False
      then show ?thesis using act_end [of "call_start took" env entry refuse ss checks]
        by (simp add: call_start_def Let_def)
    qed
  qed
qed

lemma read_values_length:
  "read_values pa prefix i vs st = Inr (r, ps) \<Longrightarrow> length (vr_expressions r) = length (vr_expressions (fst st)) + length vs"
proof (induction vs arbitrary: i st)
  case (Cons v vs)
  obtain r0 ps0 where st: "st = (r0, ps0)" by (cases st)
  have same: "vr_expressions (fst (add_pointer prefix m e st)) = vr_expressions (fst st)" for m e
    by (simp add: add_pointer_def st Let_def)
  show ?case
  proof (cases "find_private pa v")
    case None
    with Cons.prems st have "read_values pa prefix (i + 1) vs
        (r0\<lparr>vr_uses := vr_uses r0 @ [''use '' @ rv_module v @ '', only: '' @ prefix @ ''_'' @ str_nat i @ '' => '' @ variable_of (rv_name v)],
            vr_expressions := vr_expressions r0 @ [prefix @ ''_'' @ str_nat i @ drop (length (variable_of (rv_name v))) (rv_name v)]\<rparr>, ps0) = Inr (r, ps)"
      by (simp add: Let_def)
    from Cons.IH [OF this] show ?thesis using st by simp
  next
    case (Some e)
    obtain r1 ps1 where a: "add_pointer prefix (rv_module v) e st = (r1, ps1)" by (cases "add_pointer prefix (rv_module v) e st")
    from Cons.prems Some a have "read_values pa prefix (i + 1) vs
        (r1\<lparr>vr_expressions := vr_expressions r1 @ [the (map_of ps1 (lower (rv_module v), ev_name e)) @ drop (length (variable_of (rv_name v))) (rv_name v)]\<rparr>, ps1) = Inr (r, ps)"
      by (simp add: Let_def split: if_splits)
    from Cons.IH [OF this] show ?thesis using same [of "rv_module v" e] a by simp
  qed
qed simp

lemma value_reads_length: "value_reads vs prefix access imports = Inr r \<Longrightarrow> length (vr_expressions r) = length vs"
  by (auto simp: value_reads_def Let_def rbind_Inr_iff dest!: read_values_length split: if_splits)

lemma checks_names:
  "rmap (\<lambda>((v, x), e). rbind (f e x v) (\<lambda>c. Inr (v, c))) (zip bs es) = Inr cs \<Longrightarrow> length es = length bs \<Longrightarrow> map fst cs = map fst bs"
proof (induction bs arbitrary: es cs)
  case (Cons b bs)
  then obtain e es' where es: "es = e # es'" by (cases es) auto
  obtain v x where b: "b = (v, x)" by (cases b)
  from Cons.prems(1) es b obtain c cs' where "cs = (v, c) # cs'" "rmap (\<lambda>((v, x), e). rbind (f e x v) (\<lambda>c. Inr (v, c))) (zip bs es') = Inr cs'"
    by (auto simp: rbind_Inr_iff)
  with Cons.IH [of es' cs'] Cons.prems(2) es b show ?case by simp
qed simp

lemma baked_reads_names: "baked_reads ops baked access imports = Inr (reads, checks) \<Longrightarrow> map fst checks = map fst baked"
  unfolding baked_reads_def
  by (auto simp: rbind_Inr_iff dest!: value_reads_length intro!: checks_names [of "\<lambda>e x v. differs_test ops e x (rv_type v)"])


definition ex_entry :: original_interface where
  "ex_entry = \<lparr>oi_entry = ''e'', oi_args = [], oi_struct_types = [], oi_used_modules = [], oi_module_symbol_sources = []\<rparr>"

definition ex_value :: recorded_value where
  "ex_value = \<lparr>rv_module = ''m'', rv_name = ''n'', rv_type = ''integer(4)''\<rparr>"

lemma ex_substitute: "is_ok (substitute_entry (ops :: 'f float_ops) ex_entry ''b'' ''w'' [(ex_value, VInt 3)] [] [] True [])"
proof -
  have t: "\<not> startswith ''integer(4)'' ''logical''" "\<not> startswith ''integer(4)'' ''real''" by code_simp+
  have r: "render_dummies ex_entry k = Inr ([''use iso_c_binding''], [])" for k
    by (simp add: render_dummies_def ex_entry_def extent_names_def)
  have v: "value_reads [ex_value] ''dace_baked'' [] [] = Inr \<lparr>vr_uses = [''use m, only: dace_baked_0 => n''], vr_declarations = [],
      vr_statements = [], vr_expressions = [''dace_baked_0'']\<rparr>" by code_simp
  show ?thesis
    by (simp add: substitute_entry_def Let_def baked_reads_def v differs_test_def value_literal_def ex_value_def [THEN arg_cong, of rv_type] t
        standin_subroutine_def r)
qed


section \<open>Character constants\<close>

text \<open>The value of a character literal: the quotes around it off, a doubled quote inside read as one.\<close>

fun undouble :: "string \<Rightarrow> string" where
  "undouble (c # d # s) = (if c = CHR 0x27 \<and> d = CHR 0x27 then c # undouble s else c # undouble (d # s))"
| "undouble s = s"

definition literal_value :: "string \<Rightarrow> string" where
  "literal_value l = undouble (butlast (tl l))"

lemma replace_quote_simps:
  "replace quote (quote @ quote) [] = []"
  "replace quote (quote @ quote) (c # s) = (if c = CHR 0x27 then [CHR 0x27, CHR 0x27] else [c]) @ replace quote (quote @ quote) s"
  by (simp_all add: replace.simps [of _ _ "_ # _"] replace.simps [of _ _ "[]"] quote_def startswith_def)

lemma undouble_replace: "undouble (replace quote (quote @ quote) s) = s"
proof (induction s)
  case (Cons c s)
  show ?case
  proof (cases "c = CHR 0x27")
    case True
    then show ?thesis using Cons by (simp add: replace_quote_simps)
  next
    case False
    then show ?thesis using Cons by (cases "replace quote (quote @ quote) s") (simp_all add: replace_quote_simps)
  qed
qed (simp add: replace_quote_simps)

lemma literal_value_of: "literal_value (literal_of s) = s"
  by (simp add: literal_value_def literal_of_def undouble_replace quote_def butlast_append)
     (simp add: undouble_replace [unfolded quote_def, simplified])

lemma chunks_concat: "0 < n \<Longrightarrow> concat (chunks n s) = s \<and> list_all (\<lambda>p. length p \<le> n) (chunks n s)"
proof (induction n s rule: chunks.induct)
  case (1 n s)
  then show ?case by (subst (1 2) chunks.simps) auto
qed

lemma length_literal: "CHR 0x27 \<notin> set s \<Longrightarrow> length (literal_of s) = length s + 2"
proof -
  assume "CHR 0x27 \<notin> set s"
  then have "replace quote (quote @ quote) s = s" by (induction s) (auto simp: replace_quote_simps)
  then show ?thesis by (simp add: literal_of_def quote_def)
qed

lemma constant_lines_bound:
  "list_all (\<lambda>l. length l \<le> m) ls \<Longrightarrow> length cur \<le> n + m \<Longrightarrow> 4 \<le> n \<Longrightarrow> list_all (\<lambda>l. length l \<le> n + m + 5) (constant_lines cur ls)"
  by (induction ls arbitrary: cur) auto

text \<open>The constant holds the text whatever is in it, in literals of fifty characters, and without apostrophes its lines keep
  to a limit the name sets.\<close>

lemma character_constant_value:
  "\<exists>pieces. character_constant name value = constant_lines (''character(len=*), parameter :: '' @ name @ '' = '' @ literal_of (hd pieces))
       (map literal_of (tl pieces)) \<and> concat (map (\<lambda>p. literal_value (literal_of p)) pieces) = value \<and>
     (CHR 0x27 \<notin> set value \<longrightarrow> list_all (\<lambda>l. length l \<le> length name + 91) (character_constant name value))"
proof -
  let ?ps = "case chunks 50 value of [] \<Rightarrow> [[]] | ps \<Rightarrow> ps"
  have c: "concat (chunks 50 value) = value" "list_all (\<lambda>p. length p \<le> 50) (chunks 50 value)" using chunks_concat by simp_all
  have ps: "?ps \<noteq> []" "concat ?ps = value" "list_all (\<lambda>p. length p \<le> 50) ?ps"
    using c by (cases "chunks 50 value"; simp)+
  then obtain q qs where q: "?ps = q # qs" by (cases ?ps) auto
  have eq: "character_constant name value = constant_lines (''character(len=*), parameter :: '' @ name @ '' = '' @ literal_of q) (map literal_of qs)"
    unfolding character_constant_def q Let_def by simp
  have "list_all (\<lambda>l. length l \<le> length name + 91) (character_constant name value)" if "CHR 0x27 \<notin> set value"
  proof -
    have "\<forall>p \<in> set ?ps. CHR 0x27 \<notin> set p" using that ps(2) by (metis UN_I set_concat)
    then have "length (literal_of p) \<le> 52" if "p \<in> set ?ps" for p using that ps(3) length_literal [of p] by (auto simp: list_all_iff)
    then have "list_all (\<lambda>l. length l \<le> 52) (map literal_of qs)" "length (literal_of q) \<le> 52" unfolding q by (auto simp: list_all_iff)
    then show ?thesis unfolding eq using constant_lines_bound [of 52 "map literal_of qs" _ "length name + 34"]
      by (simp add: add.commute)
  qed
  moreover have "concat (map (\<lambda>p. literal_value (literal_of p)) ?ps) = value" using ps(2) by (simp add: literal_value_of)
  then have "concat (map (\<lambda>p. literal_value (literal_of p)) (q # qs)) = value" unfolding q .
  ultimately show ?thesis using eq by (intro exI [of _ "q # qs"] conjI) simp_all
qed

end
