(* ===== verification/Span_Sweep.thy ===== *)
theory Span_Sweep
  imports Prelude "HOL-Library.Multiset"
begin

text \<open>
  The module procedures \<open>bindings/storage_guard.py\<close> puts into every binding with a storage guard
  (\<open>STORAGE_GUARD_HELPERS\<close>): the address range of an array, the heapsort of the ranges, the sweep that looks for two that
  overlap, and the lines of the alias record. The array \<open>spans(:, :n)\<close> is the list of its columns, which are counted from 0
  here and from 1 in the source; what \<open>spans\<close> has room for is kept beside it. Addresses are unbounded integers: those of
  objects in memory do not overflow \<open>c_intptr_t\<close>.
\<close>

section \<open>The range of an array\<close>

record span =
  sp_lo :: int
  sp_hi :: int
  sp_kind :: nat
  sp_tag :: nat
  sp_elem :: int

record span_store =
  ss_spans :: "span list"
  ss_room :: "nat option"

definition no_spans :: span_store where
  "no_spans = \<lparr>ss_spans = [], ss_room = None\<rparr>"

text \<open>\<open>corners(1)\<close> is the head; the loop runs over the other corners and the extents together.\<close>

definition span_range :: "int list \<Rightarrow> int list \<Rightarrow> int \<times> int" where
  "span_range corners extents =
     fold (\<lambda>(corner, extent) (lo, hi).
         let reach = (corner - hd corners) * (extent - 1) in (lo + min reach 0, hi + max reach 0))
       (zip (tl corners) extents) (hd corners, hd corners)"

text \<open>\<open>None\<close> would be a column written beyond the room.\<close>

definition span_add :: "nat \<Rightarrow> int \<Rightarrow> int list \<Rightarrow> int list \<Rightarrow> nat \<Rightarrow> int \<Rightarrow> span_store \<Rightarrow> span_store option" where
  "span_add kind bytes corners extents tag elem st =
     (let (lo, hi) = span_range corners extents;
          n = length (ss_spans st);
          room = (case ss_room st of None \<Rightarrow> 16 | Some r \<Rightarrow> r);
          room = (if n = room then 2 * n else room)
      in if n < room
         then Some \<lparr>ss_spans = ss_spans st @ [\<lparr>sp_lo = lo, sp_hi = hi + bytes - 1, sp_kind = kind, sp_tag = tag, sp_elem = elem\<rparr>],
                    ss_room = Some room\<rparr>
         else None)"

section \<open>Sorting\<close>

text \<open>\<open>sift\<close> with the column it holds; the column at \<open>root\<close> is free.\<close>

function sift_down :: "span list \<Rightarrow> span \<Rightarrow> nat \<Rightarrow> nat \<Rightarrow> span list" where
  "sift_down xs held root bound =
     (let child = 2 * root + 1 in
      if bound \<le> child then xs[root := held]
      else (let child = (if child + 1 < bound \<and> sp_lo (xs ! (child + 1)) > sp_lo (xs ! child) then child + 1 else child) in
            if sp_lo (xs ! child) \<le> sp_lo held then xs[root := held]
            else sift_down (xs[root := xs ! child]) held child bound))"
  by pat_completeness auto
termination by (relation "measure (\<lambda>(xs, held, root, bound). bound - root)") (auto simp: Let_def split: if_splits)

declare sift_down.simps [simp del]

definition sift :: "nat \<Rightarrow> nat \<Rightarrow> span list \<Rightarrow> span list" where
  "sift first bound xs = sift_down xs (xs ! first) first bound"

definition build_heap :: "span list \<Rightarrow> span list" where
  "build_heap xs = fold (\<lambda>i. sift i (length xs)) (rev [0..<length xs div 2]) xs"

definition put_last :: "nat \<Rightarrow> span list \<Rightarrow> span list" where
  "put_last k xs = sift 0 k (xs[0 := xs ! k, k := xs ! 0])"

definition heap_sort :: "span list \<Rightarrow> span list" where
  "heap_sort xs = fold put_last (rev [1..<length xs]) (build_heap xs)"

section \<open>The sweep\<close>

text \<open>\<open>reshape\<close> fills a matrix by columns.\<close>

definition clash_table :: "bool list" where
  "clash_table = [False, True, False, True, True, True, True, True,
                  False, True, False, False, True, True, False, False]"

definition clash :: "nat \<Rightarrow> nat \<Rightarrow> bool" where
  "clash j k = clash_table ! (4 * (k - 1) + (j - 1))"

text \<open>Per kind the farthest end so far with its tag and element; \<open>-huge(reach)\<close> to begin with.\<close>

type_synonym reach = "(int \<times> nat \<times> int) list"

definition no_reach :: reach where
  "no_reach = replicate 4 (- (2 ^ 63 - 1), 0, 0)"

definition hits :: "reach \<Rightarrow> span \<Rightarrow> nat \<Rightarrow> bool" where
  "hits reach s j = (clash j (sp_kind s) \<and> sp_lo s \<le> fst (reach ! (j - 1)))"

definition extend_reach :: "span \<Rightarrow> reach \<Rightarrow> reach" where
  "extend_reach s reach =
     (if sp_hi s > fst (reach ! (sp_kind s - 1)) then reach[sp_kind s - 1 := (sp_hi s, sp_tag s, sp_elem s)] else reach)"

type_synonym met = "(nat \<times> int) \<times> (nat \<times> int)"

fun sweep :: "reach \<Rightarrow> span list \<Rightarrow> met option" where
  "sweep reach [] = None"
| "sweep reach (s # ss) =
     (case List.find (hits reach s) [1, 2, 3, 4] of
        Some j \<Rightarrow> Some ((sp_tag s, sp_elem s), snd (reach ! (j - 1)))
      | None \<Rightarrow> sweep (extend_reach s reach) ss)"

definition spans_overlap :: "span list \<Rightarrow> span list \<times> met option" where
  "spans_overlap xs =
     (if length xs < 2 then (xs, None) else (let ys = heap_sort xs in (ys, sweep no_reach ys)))"

section \<open>The alias record\<close>

definition trim :: "string \<Rightarrow> string" where
  "trim s = rev (dropWhile (\<lambda>c. c = CHR '' '') (rev s))"

definition alias_line :: "string list \<Rightarrow> span \<Rightarrow> span \<Rightarrow> bool \<Rightarrow> string list" where
  "alias_line names s t later =
     (let image = trim (names ! (sp_tag s - 1)); other = trim (names ! (sp_tag t - 1)); element = str_int (sp_elem s - 1) in
      if other = [] then []
      else if sp_lo s \<noteq> sp_lo t \<or> sp_hi s \<noteq> sp_hi t then []
      else if sp_kind t \<ge> 3 then [join '' '' [''alias'', image, element, other]]
      else if later \<and> sp_elem t \<ge> 1 then [join '' '' [''same'', image, element, other, str_int (sp_elem t - 1)]]
      else [])"

definition spans_aliases :: "string list \<Rightarrow> span list \<Rightarrow> string list" where
  "spans_aliases names xs =
     concat (map (\<lambda>i.
       (let s = xs ! i in
        if sp_kind s > 2 \<or> sp_elem s < 1 then []
        else if trim (names ! (sp_tag s - 1)) = [] then []
        else concat (map (\<lambda>j. alias_line names s (xs ! j) (i < j)) [0..<length xs]))) [0..<length xs])"

section \<open>Heaps\<close>

definition sorted_by_start :: "span list \<Rightarrow> bool" where
  "sorted_by_start xs = sorted (map sp_lo xs)"

abbreviation lo_at :: "span list \<Rightarrow> nat \<Rightarrow> int" where
  "lo_at xs i \<equiv> sp_lo (xs ! i)"

definition heap_from :: "nat \<Rightarrow> nat \<Rightarrow> span list \<Rightarrow> bool" where
  "heap_from m bound xs = (\<forall>c. 0 < c \<and> c < bound \<and> m \<le> (c - 1) div 2 \<longrightarrow> lo_at xs c \<le> lo_at xs ((c - 1) div 2))"

text \<open>A heap but for one place, whose children may be greater than it and are not greater than its parent.\<close>

definition heap_but :: "nat \<Rightarrow> nat \<Rightarrow> nat \<Rightarrow> span list \<Rightarrow> bool" where
  "heap_but m bound root xs =
     (\<forall>c. 0 < c \<and> c < bound \<and> m \<le> (c - 1) div 2 \<longrightarrow>
        ((c - 1) div 2 \<noteq> root \<longrightarrow> lo_at xs c \<le> lo_at xs ((c - 1) div 2)) \<and>
        ((c - 1) div 2 = root \<and> 0 < root \<and> m \<le> (root - 1) div 2 \<longrightarrow> lo_at xs c \<le> lo_at xs ((root - 1) div 2)))"

definition larger_child :: "span list \<Rightarrow> nat \<Rightarrow> nat \<Rightarrow> nat" where
  "larger_child xs root bound =
     (if 2 * root + 2 < bound \<and> lo_at xs (2 * root + 2) > lo_at xs (2 * root + 1) then 2 * root + 2 else 2 * root + 1)"

lemma sift_down_unfold:
  "sift_down xs held root bound =
     (if bound \<le> 2 * root + 1 \<or> lo_at xs (larger_child xs root bound) \<le> sp_lo held then xs[root := held]
      else sift_down (xs[root := xs ! larger_child xs root bound]) held (larger_child xs root bound) bound)"
  by (subst sift_down.simps) (simp add: Let_def larger_child_def)

lemma larger_child_props:
  assumes "2 * root + 1 < bound"
  shows "larger_child xs root bound < bound" "root < larger_child xs root bound"
    "(larger_child xs root bound - 1) div 2 = root"
    "\<And>c. 0 < c \<Longrightarrow> c < bound \<Longrightarrow> (c - 1) div 2 = root \<Longrightarrow> lo_at xs c \<le> lo_at xs (larger_child xs root bound)"
proof -
  show "larger_child xs root bound < bound" "root < larger_child xs root bound"
    "(larger_child xs root bound - 1) div 2 = root"
    using assms by (auto simp: larger_child_def)
  fix c
  assume "0 < c" "c < bound" "(c - 1) div 2 = root"
  then have "c = 2 * root + 1 \<or> c = 2 * root + 2" by presburger
  then show "lo_at xs c \<le> lo_at xs (larger_child xs root bound)"
    using \<open>c < bound\<close> by (auto simp: larger_child_def)
qed

text \<open>Induction along the path a column sinks.\<close>

lemma sift_induct [case_names sift]:
  assumes "\<And>xs root. (2 * root + 1 < bound \<Longrightarrow> \<not> lo_at xs (larger_child xs root bound) \<le> sp_lo held \<Longrightarrow>
      P (xs[root := xs ! larger_child xs root bound]) (larger_child xs root bound)) \<Longrightarrow> P xs root"
  shows "P xs root"
proof (induction "bound - root" arbitrary: xs root rule: less_induct)
  case less
  show ?case
  proof (rule assms)
    assume b: "2 * root + 1 < bound"
    have "bound - larger_child xs root bound < bound - root" using larger_child_props(1,2) [OF b, of xs] by linarith
    then show "P (xs[root := xs ! larger_child xs root bound]) (larger_child xs root bound)" by (rule less)
  qed
qed

lemma sift_down_length [simp]: "length (sift_down xs held root bound) = length xs"
proof (induction xs root rule: sift_induct [where bound = bound and held = held])
  case (sift xs root)
  then show ?case by (subst sift_down_unfold) simp
qed

lemma sift_down_mset:
  "root < bound \<Longrightarrow> bound \<le> length xs \<Longrightarrow> mset (sift_down xs held root bound) = mset (xs[root := held])"
proof (induction xs root rule: sift_induct [where bound = bound and held = held])
  case (sift xs root)
  show ?case
  proof (cases "bound \<le> 2 * root + 1 \<or> lo_at xs (larger_child xs root bound) \<le> sp_lo held")
    case True
    then show ?thesis by (subst sift_down_unfold) simp
  next
    case False
    let ?c = "larger_child xs root bound" and ?ys = "xs[root := held]"
    from False have b: "2 * root + 1 < bound" by simp
    note c = larger_child_props(1,2) [OF b, of xs]
    have "mset (sift_down xs held root bound) = mset ((xs[root := xs ! ?c])[?c := held])"
      using False sift.IH [OF b] c sift.prems by (subst sift_down_unfold) simp
    also have "(xs[root := xs ! ?c])[?c := held] = ?ys[?c := ?ys ! root, root := ?ys ! ?c]"
      using c sift.prems by (simp add: list_update_swap [of root ?c])
    also have "mset \<dots> = mset ?ys" using c sift.prems by (intro mset_swap) simp_all
    finally show ?thesis .
  qed
qed

lemma sift_down_beyond: "root < bound \<Longrightarrow> drop bound (sift_down xs held root bound) = drop bound xs"
proof (induction xs root rule: sift_induct [where bound = bound and held = held])
  case (sift xs root)
  show ?case
  proof (cases "bound \<le> 2 * root + 1 \<or> lo_at xs (larger_child xs root bound) \<le> sp_lo held")
    case True
    then show ?thesis using sift.prems by (subst sift_down_unfold) simp
  next
    case False
    then have b: "2 * root + 1 < bound" by simp
    show ?thesis using False sift.IH [OF b] larger_child_props(1) [OF b, of xs] sift.prems by (subst sift_down_unfold) simp
  qed
qed

lemma sinks:
  assumes but: "heap_but m bound root (xs[root := held])" and b: "2 * root + 1 < bound" "bound \<le> length xs"
    and less: "sp_lo held < lo_at xs (larger_child xs root bound)"
  shows "heap_but m bound (larger_child xs root bound) ((xs[root := xs ! larger_child xs root bound])[larger_child xs root bound := held])"
    (is "heap_but m bound ?k ?zs")
  unfolding heap_but_def
proof (intro allI impI)
  fix c
  assume c: "0 < c \<and> c < bound \<and> m \<le> (c - 1) div 2"
  let ?p = "(c - 1) div 2" and ?ys = "xs[root := held]"
  note k = larger_child_props(1-3) [OF b(1), of xs] larger_child_props(4) [OF b(1)]
  have parent: "?p < c" using c by (cases c) simp_all
  have at: "?zs ! root = xs ! ?k" "?zs ! ?k = held" "\<And>i. i \<noteq> root \<Longrightarrow> i \<noteq> ?k \<Longrightarrow> ?zs ! i = xs ! i"
    using k(1,2) b by simp_all
  have old: "\<And>i. i \<noteq> root \<Longrightarrow> ?ys ! i = xs ! i" by simp
  have before: "?p \<noteq> root \<Longrightarrow> lo_at ?ys c \<le> lo_at ?ys ?p"
    "?p = root \<Longrightarrow> 0 < root \<Longrightarrow> m \<le> (root - 1) div 2 \<Longrightarrow> lo_at ?ys c \<le> lo_at ?ys ((root - 1) div 2)"
    using but c unfolding heap_but_def by blast+
  have first: "lo_at ?zs c \<le> lo_at ?zs ?p" if np: "?p \<noteq> ?k"
  proof (cases "?p = root")
    case True
    then show ?thesis using k(4) [of c xs] c less at by (cases "c = ?k") (use parent in auto)
  next
    case nr: False
    have "c \<noteq> ?k" using nr k(3) by auto
    show ?thesis
    proof (cases "c = root")
      case True
      have "heap_but m bound root ?ys" by (rule but)
      then have "lo_at ?ys ?k \<le> lo_at ?ys ((root - 1) div 2)"
        using True c k(1,2,3) unfolding heap_but_def by auto
      then show ?thesis using True at nr np old k(2) by auto
    next
      case False
      then show ?thesis using before(1) [OF nr] at \<open>c \<noteq> ?k\<close> nr np old by simp
    qed
  qed
  have second: "lo_at ?zs c \<le> lo_at ?zs ((?k - 1) div 2)" if p: "?p = ?k"
  proof -
    have "c \<noteq> root" "c \<noteq> ?k" using parent p k(2) by auto
    then show ?thesis using before(1) p k(2,3) at old by auto
  qed
  show "(?p \<noteq> ?k \<longrightarrow> lo_at ?zs c \<le> lo_at ?zs ?p) \<and>
      (?p = ?k \<and> 0 < ?k \<and> m \<le> (?k - 1) div 2 \<longrightarrow> lo_at ?zs c \<le> lo_at ?zs ((?k - 1) div 2))"
    using first second by blast
qed

lemma settled:
  assumes but: "heap_but m bound root (xs[root := held])" and "root < bound" "bound \<le> length xs"
    and stop: "bound \<le> 2 * root + 1 \<or> lo_at xs (larger_child xs root bound) \<le> sp_lo held"
  shows "heap_from m bound (xs[root := held])"
  unfolding heap_from_def
proof (intro allI impI)
  fix c
  assume c: "0 < c \<and> c < bound \<and> m \<le> (c - 1) div 2"
  show "lo_at (xs[root := held]) c \<le> lo_at (xs[root := held]) ((c - 1) div 2)"
  proof (cases "(c - 1) div 2 = root")
    case True
    then have "2 * root + 1 \<le> c" using c by presburger
    then have b: "2 * root + 1 < bound" and "c \<noteq> root" using c by simp_all
    from b stop larger_child_props(4) [OF b, of c xs] True c have "lo_at xs c \<le> sp_lo held" by linarith
    then show ?thesis using True \<open>c \<noteq> root\<close> assms(2,3) by simp
  next
    case False
    then show ?thesis using but c unfolding heap_but_def by blast
  qed
qed

lemma sift_down_heap:
  "heap_but m bound root (xs[root := held]) \<Longrightarrow> root < bound \<Longrightarrow> bound \<le> length xs \<Longrightarrow>
     heap_from m bound (sift_down xs held root bound)"
proof (induction xs root rule: sift_induct [where bound = bound and held = held])
  case (sift xs root)
  show ?case
  proof (cases "bound \<le> 2 * root + 1 \<or> lo_at xs (larger_child xs root bound) \<le> sp_lo held")
    case True
    then show ?thesis using settled [OF sift.prems True] by (subst sift_down_unfold) simp
  next
    case False
    then have b: "2 * root + 1 < bound" by simp
    have "heap_from m bound (sift_down (xs[root := xs ! larger_child xs root bound]) held (larger_child xs root bound) bound)"
      using sift.IH [OF b] sinks [OF sift.prems(1) b sift.prems(3)] False larger_child_props(1) [OF b, of xs] sift.prems(3) by simp
    then show ?thesis using False by (subst sift_down_unfold) simp
  qed
qed

lemma sift_facts:
  assumes "first < bound" "bound \<le> length xs"
  shows "length (sift first bound xs) = length xs" "mset (sift first bound xs) = mset xs"
    "drop bound (sift first bound xs) = drop bound xs" "mset (take bound (sift first bound xs)) = mset (take bound xs)"
    "heap_but m bound first xs \<Longrightarrow> heap_from m bound (sift first bound xs)"
proof -
  have same: "xs[first := xs ! first] = xs" by simp
  show len: "length (sift first bound xs) = length xs" by (simp add: sift_def)
  show m: "mset (sift first bound xs) = mset xs"
    unfolding sift_def using sift_down_mset [OF assms, of "xs ! first"] same by simp
  show d: "drop bound (sift first bound xs) = drop bound xs" unfolding sift_def by (rule sift_down_beyond [OF assms(1)])
  have "mset (take bound (sift first bound xs)) + mset (drop bound xs) = mset (take bound xs) + mset (drop bound xs)"
    using m d by (metis append_take_drop_id mset_append)
  then show "mset (take bound (sift first bound xs)) = mset (take bound xs)" by simp
  show "heap_from m bound (sift first bound xs)" if "heap_but m bound first xs"
    unfolding sift_def using that same assms by (intro sift_down_heap) simp_all
qed

lemma heap_but_first: "heap_from (Suc i) bound xs \<Longrightarrow> heap_but i bound i xs"
  unfolding heap_from_def heap_but_def by (auto intro: ccontr)

lemma build_heap_from:
  "i \<le> length xs div 2 \<Longrightarrow> heap_from i (length xs) xs \<Longrightarrow>
     (let ys = fold (\<lambda>i. sift i n) (rev [0..<i]) xs in
      n = length xs \<longrightarrow> heap_from 0 n ys \<and> mset ys = mset xs)"
proof (induction i arbitrary: xs)
  case (Suc i)
  show ?case
  proof (cases "n = length xs")
    case True
    have "i < n" using Suc.prems(1) True by linarith
    note f = sift_facts [OF this, of xs]
    have "heap_from i n (sift i n xs)" using f(5) [of i] heap_but_first [OF Suc.prems(2)] True by simp
    with Suc.IH [of "sift i n xs"] Suc.prems(1) f(1,2) True show ?thesis by (simp add: Let_def)
  qed simp
qed (simp add: Let_def)

lemma build_heap_props: "heap_from 0 (length xs) (build_heap xs)" "mset (build_heap xs) = mset xs"
proof -
  have "heap_from (length xs div 2) (length xs) xs" by (auto simp: heap_from_def)
  from build_heap_from [OF order_refl this, of "length xs"]
  show "heap_from 0 (length xs) (build_heap xs)" "mset (build_heap xs) = mset xs" by (simp_all add: build_heap_def Let_def)
qed

lemma heap_top: "heap_from 0 bound xs \<Longrightarrow> c < bound \<Longrightarrow> lo_at xs c \<le> lo_at xs 0"
proof (induction c rule: less_induct)
  case (less c)
  show ?case
  proof (cases "c = 0")
    case False
    then have "lo_at xs c \<le> lo_at xs ((c - 1) div 2)" using less.prems unfolding heap_from_def by simp
    also have "\<dots> \<le> lo_at xs 0" using False less.prems by (intro less.IH) auto
    finally show ?thesis .
  qed simp
qed

text \<open>The first \<open>k\<close> columns are a heap; behind them every column is at least as great as all in front of it.\<close>

definition half_sorted :: "nat \<Rightarrow> span list \<Rightarrow> bool" where
  "half_sorted k xs = (heap_from 0 k xs \<and> (\<forall>j < length xs. k \<le> j \<longrightarrow> (\<forall>i \<le> j. lo_at xs i \<le> lo_at xs j)))"

lemma put_last_step:
  assumes h: "half_sorted (Suc k) xs" and k: "0 < k" "k < length xs"
  shows "half_sorted k (put_last k xs)" "mset (put_last k xs) = mset xs" "length (put_last k xs) = length xs"
proof -
  let ?ys = "xs[0 := xs ! k, k := xs ! 0]" and ?zs = "put_last k xs"
  have len: "k \<le> length ?ys" using k by simp
  note f = sift_facts [OF k(1) len]
  have m: "mset ?ys = mset xs" using k by (intro mset_swap) auto
  show "mset ?zs = mset xs" unfolding put_last_def using f(2) m by simp
  show length: "length ?zs = length xs" unfolding put_last_def using f(1) by simp
  have heap: "heap_from 0 (Suc k) xs" and rest: "\<And>i j. j < length xs \<Longrightarrow> Suc k \<le> j \<Longrightarrow> i \<le> j \<Longrightarrow> lo_at xs i \<le> lo_at xs j"
    using h unfolding half_sorted_def by blast+
  have "heap_but 0 k 0 ?ys"
    unfolding heap_but_def using heap unfolding heap_from_def by (auto simp: nth_list_update)
  then have "heap_from 0 k ?zs" unfolding put_last_def by (rule f(5))
  moreover have "lo_at ?zs i \<le> lo_at ?zs j" if j: "j < length ?zs" "k \<le> j" "i \<le> j" for i j
  proof -
    have keep: "?zs ! l = ?ys ! l" if "k \<le> l" "l < length xs" for l
    proof -
      have "drop k ?zs ! (l - k) = drop k ?ys ! (l - k)" unfolding put_last_def using f(3) by simp
      then show ?thesis using that k length by simp
    qed
    have zj: "?zs ! j = (if j = k then xs ! 0 else xs ! j)" using keep [of j] j length k by (auto simp: nth_list_update)
    have "xs \<noteq> []" using k by auto
    have origin: "\<exists>i' \<le> k. ?zs ! i = xs ! i'" if "i < k"
    proof -
      have "?zs ! i \<in> set (take k ?zs)" using that k length by (auto simp: in_set_conv_nth intro!: exI [of _ i])
      also have "set (take k ?zs) = set (take k ?ys)" using f(4) unfolding put_last_def by (metis set_mset_mset)
      finally obtain l where "l < k" "?zs ! i = ?ys ! l" using k by (auto simp: in_set_conv_nth)
      moreover have "?ys ! l = (if l = 0 then xs ! k else xs ! l)"
        if "l < k" using that k \<open>xs \<noteq> []\<close> by (simp add: nth_list_update)
      ultimately show ?thesis by (cases "l = 0") (auto intro: exI [of _ k] exI [of _ l])
    qed
    show ?thesis
    proof (cases "i < k")
      case True
      then obtain i' where i': "i' \<le> k" "?zs ! i = xs ! i'" using origin by blast
      show ?thesis using zj i' heap_top [OF heap, of i'] rest [of j i'] j length by (cases "j = k") auto
    next
      case False
      then have zi: "?zs ! i = (if i = k then xs ! 0 else xs ! i)" using keep [of i] j length k by (auto simp: nth_list_update)
      show ?thesis using zi zj rest [of j i] rest [of j 0] False j length by (cases "i = k"; cases "j = k") auto
    qed
  qed
  ultimately show "half_sorted k ?zs" by (simp add: half_sorted_def)
qed

lemma put_all:
  "k \<le> length xs \<Longrightarrow> 0 < k \<Longrightarrow> half_sorted k xs \<Longrightarrow>
     half_sorted 1 (fold put_last (rev [1..<k]) xs) \<and> mset (fold put_last (rev [1..<k]) xs) = mset xs"
proof (induction k arbitrary: xs)
  case (Suc k)
  show ?case
  proof (cases "k = 0")
    case False
    have "k < length xs" using Suc.prems(1) by simp
    note p = put_last_step [OF Suc.prems(3) _ this]
    show ?thesis using False Suc.IH [of "put_last k xs"] p Suc.prems(1) by simp
  qed (use Suc.prems in simp)
qed simp

lemma heap_sort_props: "sorted_by_start (heap_sort xs) \<and> mset (heap_sort xs) = mset xs"
proof (cases "xs = []")
  case False
  let ?ys = "build_heap xs"
  note b = build_heap_props [of xs]
  have len: "length ?ys = length xs" by (rule mset_eq_length [OF b(2)])
  have "half_sorted (length xs) ?ys" using b(1) len by (simp add: half_sorted_def)
  with put_all [of "length xs" ?ys] len False b(2) have s: "half_sorted 1 (heap_sort xs)" and m: "mset (heap_sort xs) = mset xs"
    by (simp_all add: heap_sort_def)
  have "sorted_by_start (heap_sort xs)"
    unfolding sorted_by_start_def sorted_iff_nth_mono
  proof (intro allI impI)
    fix i j
    assume "i \<le> j" "j < length (map sp_lo (heap_sort xs))"
    then show "map sp_lo (heap_sort xs) ! i \<le> map sp_lo (heap_sort xs) ! j"
      using s unfolding half_sorted_def by (cases "j = 0") auto
  qed
  with m show ?thesis by simp
qed (simp add: heap_sort_def build_heap_def sorted_by_start_def)

section \<open>Overlapping ranges\<close>

definition writes :: "span \<Rightarrow> bool" where
  "writes s = (sp_kind s = 2 \<or> sp_kind s = 4)"

definition apart :: "span \<Rightarrow> bool" where
  "apart s = (sp_kind s \<le> 2)"

definition good_span :: "span \<Rightarrow> bool" where
  "good_span s = (1 \<le> sp_kind s \<and> sp_kind s \<le> 4 \<and> sp_lo s \<le> sp_hi s \<and> - (2 ^ 63 - 1) < sp_lo s)"

text \<open>Two arrays must not share storage if one of them is handed over apart from its record and one of them is written.\<close>

definition unsafe_pair :: "span \<Rightarrow> span \<Rightarrow> bool" where
  "unsafe_pair s t = ((apart s \<or> apart t) \<and> (writes s \<or> writes t) \<and>
     (\<exists>a. sp_lo s \<le> a \<and> a \<le> sp_hi s \<and> sp_lo t \<le> a \<and> a \<le> sp_hi t))"

lemma four_kinds: "1 \<le> k \<Longrightarrow> k \<le> 4 \<Longrightarrow> k = 1 \<or> k = 2 \<or> k = 3 \<or> (k :: nat) = 4"
  by linarith

lemma clash_iff:
  assumes "good_span s" "good_span t"
  shows "clash (sp_kind s) (sp_kind t) \<longleftrightarrow> (apart s \<or> apart t) \<and> (writes s \<or> writes t)"
proof -
  have "sp_kind s = 1 \<or> sp_kind s = 2 \<or> sp_kind s = 3 \<or> sp_kind s = 4" using assms(1) four_kinds by (simp add: good_span_def)
  moreover have "sp_kind t = 1 \<or> sp_kind t = 2 \<or> sp_kind t = 3 \<or> sp_kind t = 4" using assms(2) four_kinds by (simp add: good_span_def)
  ultimately show ?thesis by (elim disjE) (simp_all add: clash_def clash_table_def apart_def writes_def)
qed

lemma unsafe_sorted:
  assumes "good_span s" "good_span t" "sp_lo s \<le> sp_lo t"
  shows "unsafe_pair s t \<longleftrightarrow> clash (sp_kind s) (sp_kind t) \<and> sp_lo t \<le> sp_hi s"
  using assms unfolding unsafe_pair_def clash_iff [OF assms(1,2)] good_span_def by (meson order_trans order_refl)

definition reach_of :: "reach \<Rightarrow> span list \<Rightarrow> bool" where
  "reach_of reach ss = (length reach = 4 \<and> (\<forall>k. 1 \<le> k \<and> k \<le> 4 \<longrightarrow>
     (\<forall>s \<in> set ss. sp_kind s = k \<longrightarrow> sp_hi s \<le> fst (reach ! (k - 1))) \<and>
     (fst (reach ! (k - 1)) = - (2 ^ 63 - 1) \<or>
      (\<exists>s \<in> set ss. sp_kind s = k \<and> reach ! (k - 1) = (sp_hi s, sp_tag s, sp_elem s)))))"

lemma reach_of_none: "reach_of no_reach []"
  unfolding reach_of_def no_reach_def by auto

lemma reach_of_extend:
  assumes r: "reach_of reach ss" and s: "good_span s"
  shows "reach_of (extend_reach s reach) (ss @ [s])"
proof -
  let ?new = "extend_reach s reach"
  have k: "1 \<le> sp_kind s" "sp_kind s \<le> 4" using s by (simp_all add: good_span_def)
  have len: "length reach = 4" using r by (simp add: reach_of_def)
  have at: "?new ! (j - 1) = (if j = sp_kind s \<and> fst (reach ! (j - 1)) < sp_hi s then (sp_hi s, sp_tag s, sp_elem s) else reach ! (j - 1))"
    if "1 \<le> j" "j \<le> 4" for j
    using k len that by (auto simp: extend_reach_def nth_list_update)
  have old: "(\<forall>t \<in> set ss. sp_kind t = j \<longrightarrow> sp_hi t \<le> fst (reach ! (j - 1))) \<and>
     (fst (reach ! (j - 1)) = - (2 ^ 63 - 1) \<or> (\<exists>t \<in> set ss. sp_kind t = j \<and> reach ! (j - 1) = (sp_hi t, sp_tag t, sp_elem t)))"
    if "1 \<le> j" "j \<le> 4" for j
    using r that unfolding reach_of_def by blast
  show ?thesis
    unfolding reach_of_def
  proof (intro conjI allI impI ballI)
    show "length ?new = 4" using len by (simp add: extend_reach_def)
  next
    fix j t
    assume j: "1 \<le> j \<and> j \<le> 4" and t: "t \<in> set (ss @ [s])" "sp_kind t = j"
    then show "sp_hi t \<le> fst (?new ! (j - 1))" using at [of j] old [of j] by (cases "t = s") fastforce+
  next
    fix j :: nat
    assume j: "1 \<le> j \<and> j \<le> 4"
    show "fst (?new ! (j - 1)) = - (2 ^ 63 - 1) \<or>
        (\<exists>t \<in> set (ss @ [s]). sp_kind t = j \<and> ?new ! (j - 1) = (sp_hi t, sp_tag t, sp_elem t))"
    proof (cases "j = sp_kind s \<and> fst (reach ! (j - 1)) < sp_hi s")
      case True
      then have "?new ! (j - 1) = (sp_hi s, sp_tag s, sp_elem s)"
        unfolding at [OF conjunct1 [OF j] conjunct2 [OF j]] by (rule if_P)
      then show ?thesis using True by (intro disjI2 bexI [of _ s]) simp_all
    next
      case False
      then have e: "?new ! (j - 1) = reach ! (j - 1)" using at [of j] j by auto
      show ?thesis unfolding e using old [of j] j by auto
    qed
  qed
qed

lemma hits_unsafe:
  assumes r: "reach_of reach ss" and good: "\<forall>t \<in> set (ss @ [s]). good_span t" and order: "\<forall>t \<in> set ss. sp_lo t \<le> sp_lo s"
  shows "1 \<le> j \<and> j \<le> 4 \<and> hits reach s j \<Longrightarrow>
      \<exists>t \<in> set ss. unsafe_pair t s \<and> snd (reach ! (j - 1)) = (sp_tag t, sp_elem t)"
    and "t \<in> set ss \<Longrightarrow> unsafe_pair t s \<Longrightarrow> 1 \<le> sp_kind t \<and> sp_kind t \<le> 4 \<and> hits reach s (sp_kind t)"
proof -
  assume j: "1 \<le> j \<and> j \<le> 4 \<and> hits reach s j"
  have "fst (reach ! (j - 1)) \<noteq> - (2 ^ 63 - 1)" using j good by (auto simp: hits_def good_span_def)
  with r j obtain t where t: "t \<in> set ss" "sp_kind t = j" "reach ! (j - 1) = (sp_hi t, sp_tag t, sp_elem t)"
    unfolding reach_of_def by blast
  then have "unsafe_pair t s" using j good order unsafe_sorted [of t s] by (auto simp: hits_def)
  with t show "\<exists>t \<in> set ss. unsafe_pair t s \<and> snd (reach ! (j - 1)) = (sp_tag t, sp_elem t)" by auto
next
  assume t: "t \<in> set ss" "unsafe_pair t s"
  then have k: "1 \<le> sp_kind t \<and> sp_kind t \<le> 4" using good by (auto simp: good_span_def)
  have "clash (sp_kind t) (sp_kind s)" "sp_lo s \<le> sp_hi t" using t good order unsafe_sorted [of t s] by auto
  moreover have "sp_hi t \<le> fst (reach ! (sp_kind t - 1))" using r k t(1) unfolding reach_of_def by blast
  ultimately show "1 \<le> sp_kind t \<and> sp_kind t \<le> 4 \<and> hits reach s (sp_kind t)" using k by (simp add: hits_def)
qed

lemma find_kind:
  "List.find P [1, 2, 3, 4 :: nat] = Some j \<Longrightarrow> 1 \<le> j \<and> j \<le> 4 \<and> P j"
  "List.find P [1, 2, 3, 4 :: nat] = None \<Longrightarrow> 1 \<le> j \<and> j \<le> 4 \<Longrightarrow> \<not> P j"
proof -
  assume "List.find P [1, 2, 3, 4 :: nat] = Some j"
  then show "1 \<le> j \<and> j \<le> 4 \<and> P j" by (auto split: if_splits)
next
  assume "List.find P [1, 2, 3, 4 :: nat] = None" "1 \<le> j \<and> j \<le> 4"
  then show "\<not> P j" using four_kinds [of j] by (auto split: if_splits)
qed

text \<open>What the sweep of the rest finds, with the ranges already passed.\<close>

fun unsafe_later :: "span list \<Rightarrow> span list \<Rightarrow> bool" where
  "unsafe_later ss [] = False"
| "unsafe_later ss (s # rest) = ((\<exists>t \<in> set ss. unsafe_pair t s) \<or> unsafe_later (ss @ [s]) rest)"

definition met_later :: "span list \<Rightarrow> span list \<Rightarrow> nat \<times> int \<Rightarrow> nat \<times> int \<Rightarrow> bool" where
  "met_later ss rest x y = (\<exists>as s bs. rest = as @ s # bs \<and> x = (sp_tag s, sp_elem s) \<and>
     (\<exists>t \<in> set (ss @ as). unsafe_pair t s \<and> y = (sp_tag t, sp_elem t)))"

lemma met_later_Cons:
  "t \<in> set ss \<Longrightarrow> unsafe_pair t s \<Longrightarrow> met_later ss (s # rest) (sp_tag s, sp_elem s) (sp_tag t, sp_elem t)"
  "met_later (ss @ [s]) rest x y \<Longrightarrow> met_later ss (s # rest) x y"
proof -
  assume "t \<in> set ss" "unsafe_pair t s"
  then show "met_later ss (s # rest) (sp_tag s, sp_elem s) (sp_tag t, sp_elem t)"
    unfolding met_later_def by (intro exI [of _ "[]"] exI [of _ s] exI [of _ rest]) auto
next
  assume "met_later (ss @ [s]) rest x y"
  then obtain as u bs t where "rest = as @ u # bs" "x = (sp_tag u, sp_elem u)" "t \<in> set ((ss @ [s]) @ as)"
    "unsafe_pair t u" "y = (sp_tag t, sp_elem t)" unfolding met_later_def by blast
  then show "met_later ss (s # rest) x y"
    unfolding met_later_def by (intro exI [of _ "s # as"] exI [of _ u] exI [of _ bs]) auto
qed

lemma sweep_finds:
  assumes "reach_of reach ss" and "\<forall>t \<in> set (ss @ rest). good_span t" and "sorted_by_start (ss @ rest)"
  shows "case sweep reach rest of
      None \<Rightarrow> \<not> unsafe_later ss rest
    | Some (x, y) \<Rightarrow> met_later ss rest x y"
  using assms
proof (induction rest arbitrary: reach ss)
  case (Cons s rest)
  have good: "\<forall>t \<in> set (ss @ [s]). good_span t" and order: "\<forall>t \<in> set ss. sp_lo t \<le> sp_lo s"
    using Cons.prems(2,3) by (auto simp: sorted_by_start_def sorted_append)
  note h = hits_unsafe [OF Cons.prems(1) good order]
  show ?case
  proof (cases "List.find (hits reach s) [1, 2, 3, 4]")
    case (Some j)
    have "\<exists>t \<in> set ss. unsafe_pair t s \<and> snd (reach ! (j - 1)) = (sp_tag t, sp_elem t)" by (rule h(1)) (rule find_kind(1) [OF Some])
    then show ?thesis using Some met_later_Cons(1) by (auto simp del: find.simps)
  next
    case None
    have none: "\<not> (\<exists>t \<in> set ss. unsafe_pair t s)" using h(2) find_kind(2) [OF None] by blast
    have "reach_of (extend_reach s reach) (ss @ [s])" using reach_of_extend [OF Cons.prems(1)] good by simp
    from Cons.IH [OF this] Cons.prems(2,3) have ih: "case sweep (extend_reach s reach) rest of
        None \<Rightarrow> \<not> unsafe_later (ss @ [s]) rest
      | Some (x, y) \<Rightarrow> met_later (ss @ [s]) rest x y" by simp
    then show ?thesis using None none met_later_Cons(2)
      by (cases "sweep (extend_reach s reach) rest") (auto simp del: find.simps)
  qed
qed simp

text \<open>In terms of the ranges alone, whatever their order.\<close>

lemma pair_in_mset: "{#s, t#} \<subseteq># mset (as @ s # bs) \<longleftrightarrow> t \<in> set (as @ bs)"
  by auto

lemma unsafe_later_pair: "unsafe_later ss rest \<Longrightarrow> \<exists>s t. {#s, t#} \<subseteq># mset (ss @ rest) \<and> unsafe_pair s t"
proof (induction rest arbitrary: ss)
  case (Cons s rest)
  from Cons.prems consider t where "t \<in> set ss" "unsafe_pair t s" | "unsafe_later (ss @ [s]) rest" by auto
  then show ?case
  proof cases
    case 1
    then have "{#s, t#} \<subseteq># mset (ss @ s # rest)" unfolding pair_in_mset by simp
    then have "{#t, s#} \<subseteq># mset (ss @ s # rest)" by (simp only: add_mset_commute)
    with 1(2) show ?thesis by blast
  next
    case 2
    from Cons.IH [OF this] show ?thesis by simp
  qed
qed simp

lemma unsafe_pair_commute: "unsafe_pair s t = unsafe_pair t s"
  unfolding unsafe_pair_def by blast

lemma pair_unsafe_later: "ys = as @ s # bs @ t # cs \<Longrightarrow> unsafe_pair s t \<Longrightarrow> unsafe_later ss ys"
proof (induction as arbitrary: ss ys)
  case Nil
  have "s \<in> set xs \<Longrightarrow> unsafe_later xs (bs @ t # cs)" for xs
    using Nil(2) by (induction bs arbitrary: xs) auto
  then show ?case using Nil(1) by simp
qed simp

lemma unsafe_later_iff: "unsafe_later [] ys \<longleftrightarrow> (\<exists>s t. {#s, t#} \<subseteq># mset ys \<and> unsafe_pair s t)"
proof
  assume "unsafe_later [] ys"
  from unsafe_later_pair [OF this] show "\<exists>s t. {#s, t#} \<subseteq># mset ys \<and> unsafe_pair s t" by simp
next
  assume "\<exists>s t. {#s, t#} \<subseteq># mset ys \<and> unsafe_pair s t"
  then obtain s t where st: "{#s, t#} \<subseteq># mset ys" "unsafe_pair s t" by blast
  from st(1) have "s \<in># mset ys" by (rule mset_subset_eqD) simp
  then have "s \<in> set ys" by simp
  then obtain as bs where ys: "ys = as @ s # bs" by (auto simp: in_set_conv_decomp)
  have "t \<in> set (as @ bs)" using st(1) unfolding ys pair_in_mset .
  then consider "t \<in> set as" | "t \<in> set bs" by auto
  then show "unsafe_later [] ys"
  proof cases
    case 1
    then obtain cs ds where "as = cs @ t # ds" by (auto simp: in_set_conv_decomp)
    with ys have "ys = cs @ t # ds @ s # bs" by simp
    moreover have "unsafe_pair t s" using st(2) unsafe_pair_commute by blast
    ultimately show ?thesis by (rule pair_unsafe_later)
  next
    case 2
    then obtain cs ds where "bs = cs @ t # ds" by (auto simp: in_set_conv_decomp)
    with ys have "ys = as @ s # cs @ t # ds" by simp
    then show ?thesis using st(2) by (rule pair_unsafe_later)
  qed
qed

lemma met_later_pair: "met_later [] ys x y \<Longrightarrow> \<exists>s t. {#s, t#} \<subseteq># mset ys \<and> unsafe_pair s t \<and> x = (sp_tag s, sp_elem s) \<and> y = (sp_tag t, sp_elem t)"
proof -
  assume "met_later [] ys x y"
  then obtain as s bs t where "ys = as @ s # bs" "x = (sp_tag s, sp_elem s)" "t \<in> set as" "unsafe_pair t s" "y = (sp_tag t, sp_elem t)"
    unfolding met_later_def by auto
  moreover then have "{#s, t#} \<subseteq># mset ys" using pair_in_mset [of s t as bs] by simp
  ultimately show ?thesis using unsafe_pair_commute by blast
qed

lemma spans_overlap_correct_aux:
  assumes "\<forall>s \<in> set xs. good_span s"
  shows "case snd (spans_overlap xs) of
      None \<Rightarrow> \<not> (\<exists>s t. {#s, t#} \<subseteq># mset xs \<and> unsafe_pair s t)
    | Some (x, y) \<Rightarrow> \<exists>s t. {#s, t#} \<subseteq># mset xs \<and> unsafe_pair s t \<and> x = (sp_tag s, sp_elem s) \<and> y = (sp_tag t, sp_elem t)"
proof (cases "length xs < 2")
  case True
  have "\<not> {#s, t#} \<subseteq># mset xs" for s t
  proof
    assume "{#s, t#} \<subseteq># mset xs"
    then have "size {#s, t#} \<le> size (mset xs)" by (rule size_mset_mono)
    with True show False by simp
  qed
  with True show ?thesis by (simp add: spans_overlap_def)
next
  case False
  let ?ys = "heap_sort xs"
  have sorted: "sorted_by_start ?ys" and m: "mset ?ys = mset xs" using heap_sort_props [of xs] by simp_all
  have good: "\<forall>s \<in> set ([] @ ?ys). good_span s" using assms mset_eq_setD [OF m] by simp
  from sweep_finds [OF reach_of_none good] sorted have found: "case sweep no_reach ?ys of
      None \<Rightarrow> \<not> unsafe_later [] ?ys | Some (x, y) \<Rightarrow> met_later [] ?ys x y" by simp
  show ?thesis
  proof (cases "sweep no_reach ?ys")
    case None
    with found have "\<not> unsafe_later [] ?ys" by simp
    then show ?thesis using None False unfolding unsafe_later_iff m by (simp add: spans_overlap_def Let_def)
  next
    case (Some xy)
    obtain x y where xy: "xy = (x, y)" by (cases xy)
    from found Some xy have "met_later [] ?ys x y" by simp
    from met_later_pair [OF this] Some xy False show ?thesis unfolding m by (simp add: spans_overlap_def Let_def)
  qed
qed


definition ex_spans :: "span list" where
  "ex_spans = [\<lparr>sp_lo = 40, sp_hi = 55, sp_kind = 4, sp_tag = 1, sp_elem = 0\<rparr>,
     \<lparr>sp_lo = 8, sp_hi = 15, sp_kind = 3, sp_tag = 2, sp_elem = 0\<rparr>, \<lparr>sp_lo = 16, sp_hi = 40, sp_kind = 1, sp_tag = 3, sp_elem = 2\<rparr>]"


section \<open>The storage of an array\<close>

text \<open>An array in memory: the address of its first element, per dimension the distance of neighbours and the extent, and the
  bytes of an element.\<close>

record array_at =
  aa_base :: int
  aa_dims :: "(int \<times> int) list"
  aa_bytes :: int
  aa_kind :: nat
  aa_tag :: nat
  aa_elem :: int

fun offsets :: "(int \<times> int) list \<Rightarrow> int set" where
  "offsets [] = {0}"
| "offsets ((step, extent) # dims) = {step * i + d | i d. 0 \<le> i \<and> i < extent \<and> d \<in> offsets dims}"

definition bytes_of :: "array_at \<Rightarrow> int set" where
  "bytes_of a = {aa_base a + d + b | d b. d \<in> offsets (aa_dims a) \<and> 0 \<le> b \<and> b < aa_bytes a}"

definition array_wf :: "array_at \<Rightarrow> bool" where
  "array_wf a = (list_all (\<lambda>(step, extent). 1 \<le> extent) (aa_dims a) \<and> 1 \<le> aa_bytes a \<and> 1 \<le> aa_kind a \<and> aa_kind a \<le> 4 \<and>
     (\<forall>b \<in> bytes_of a. 0 \<le> b))"

text \<open>The corners the guard's statements pass: the first element, and along each dimension the next, or the first again.\<close>

definition corners_of :: "array_at \<Rightarrow> int list" where
  "corners_of a = aa_base a # map (\<lambda>(step, extent). aa_base a + step * min 1 (extent - 1)) (aa_dims a)"

definition add_array :: "array_at \<Rightarrow> span_store \<Rightarrow> span_store option" where
  "add_array a = span_add (aa_kind a) (aa_bytes a) (corners_of a) (map snd (aa_dims a)) (aa_tag a) (aa_elem a)"

fun add_arrays :: "array_at list \<Rightarrow> span_store \<Rightarrow> span_store option" where
  "add_arrays [] st = Some st"
| "add_arrays (a # as) st = (case add_array a st of None \<Rightarrow> None | Some st' \<Rightarrow> add_arrays as st')"

definition least_offset :: "(int \<times> int) list \<Rightarrow> int" where
  "least_offset dims = sum_list (map (\<lambda>(step, extent). min (step * (extent - 1)) 0) dims)"

definition greatest_offset :: "(int \<times> int) list \<Rightarrow> int" where
  "greatest_offset dims = sum_list (map (\<lambda>(step, extent). max (step * (extent - 1)) 0) dims)"

lemma one_dim:
  assumes "0 \<le> i" "i < (e :: int)"
  shows "min (s * (e - 1)) 0 \<le> s * i" "s * i \<le> max (s * (e - 1)) 0"
proof -
  have i: "i \<le> e - 1" using assms by simp
  show "min (s * (e - 1)) 0 \<le> s * i"
  proof (cases "0 \<le> s")
    case True
    then show ?thesis using assms by (simp add: min.coboundedI2)
  next
    case False
    then show ?thesis using mult_left_mono_neg [OF i, of s] by (simp add: min.coboundedI1)
  qed
  show "s * i \<le> max (s * (e - 1)) 0"
  proof (cases "0 \<le> s")
    case True
    then show ?thesis using mult_left_mono [OF i, of s] by (simp add: max.coboundedI1)
  next
    case False
    then show ?thesis using assms by (simp add: max.coboundedI2 mult_nonpos_nonneg)
  qed
qed

lemma offsets_bounds: "d \<in> offsets dims \<Longrightarrow> least_offset dims \<le> d \<and> d \<le> greatest_offset dims"
proof (induction dims arbitrary: d)
  case (Cons x dims)
  obtain s e where x: "x = (s, e)" by (cases x)
  with Cons.prems obtain i d' where d: "d = s * i + d'" "0 \<le> i" "i < e" "d' \<in> offsets dims" by auto
  from Cons.IH [OF d(4)] one_dim [OF d(2,3), of s] show ?case by (simp add: x d(1) least_offset_def greatest_offset_def)
qed (simp add: least_offset_def greatest_offset_def)

lemma offsets_ends:
  "list_all (\<lambda>(s, e). 1 \<le> e) dims \<Longrightarrow> least_offset dims \<in> offsets dims \<and> greatest_offset dims \<in> offsets dims"
proof (induction dims)
  case (Cons x dims)
  obtain s e where x: "x = (s, e)" by (cases x)
  have e: "1 \<le> e" and ih: "least_offset dims \<in> offsets dims" "greatest_offset dims \<in> offsets dims" using Cons x by simp_all
  have "\<exists>i. 0 \<le> i \<and> i < e \<and> min (s * (e - 1)) 0 = s * i" by (cases "s * (e - 1) \<le> 0") (use e in \<open>auto simp: min_def intro: exI [of _ "e - 1"] exI [of _ 0]\<close>)
  moreover have "\<exists>i. 0 \<le> i \<and> i < e \<and> max (s * (e - 1)) 0 = s * i" by (cases "s * (e - 1) \<le> 0") (use e in \<open>auto simp: max_def intro: exI [of _ "e - 1"] exI [of _ 0]\<close>)
  ultimately obtain i j where "0 \<le> i" "i < e" "min (s * (e - 1)) 0 = s * i" "0 \<le> j" "j < e" "max (s * (e - 1)) 0 = s * j" by blast
  then show ?case using ih by (auto simp: x least_offset_def greatest_offset_def)
qed (simp_all add: least_offset_def greatest_offset_def)

lemma range_loop:
  "list_all (\<lambda>(s, e). 1 \<le> e) dims \<Longrightarrow>
   fold (\<lambda>(corner, extent) (lo, hi). let reach = (corner - base) * (extent - 1) in (lo + min reach 0, hi + max reach 0))
     (zip (map (\<lambda>(s, e). base + s * min 1 (e - 1)) dims) (map snd dims)) (l, h) = (l + least_offset dims, h + greatest_offset dims)"
proof (induction dims arbitrary: l h)
  case (Cons x dims)
  obtain s e where x: "x = (s, e)" by (cases x)
  have m: "s * min 1 (e - 1) * (e - 1) = s * (e - 1)" using Cons.prems x by (cases "e = 1") (simp_all add: min_def)
  show ?case using Cons.IH Cons.prems x by (simp add: Let_def least_offset_def greatest_offset_def m)
qed (simp add: least_offset_def greatest_offset_def)

definition room_kept :: "span_store \<Rightarrow> bool" where
  "room_kept st = (case ss_room st of None \<Rightarrow> ss_spans st = [] | Some r \<Rightarrow> 0 < r \<and> length (ss_spans st) \<le> r)"

text \<open>An array is always taken, whatever room there is, and with the least range that holds all its bytes.\<close>

lemma add_array_covers:
  assumes a: "array_wf a" and st: "room_kept st"
  shows "\<exists>st' s. add_array a st = Some st' \<and> room_kept st' \<and> ss_spans st' = ss_spans st @ [s] \<and> good_span s \<and>
     sp_kind s = aa_kind a \<and> sp_tag s = aa_tag a \<and> sp_elem s = aa_elem a \<and>
     sp_lo s \<in> bytes_of a \<and> sp_hi s \<in> bytes_of a \<and> (\<forall>b \<in> bytes_of a. sp_lo s \<le> b \<and> b \<le> sp_hi s)"
proof -
  let ?lo = "aa_base a + least_offset (aa_dims a)" and ?hi = "aa_base a + greatest_offset (aa_dims a)"
  let ?s = "\<lparr>sp_lo = ?lo, sp_hi = ?hi + aa_bytes a - 1, sp_kind = aa_kind a, sp_tag = aa_tag a, sp_elem = aa_elem a\<rparr>"
  have wf: "list_all (\<lambda>(step, extent). 1 \<le> extent) (aa_dims a)" "1 \<le> aa_bytes a" using a by (simp_all add: array_wf_def)
  have r: "span_range (corners_of a) (map snd (aa_dims a)) = (?lo, ?hi)"
    unfolding span_range_def corners_of_def list.sel by (rule range_loop [OF wf(1)])
  note ends = offsets_ends [OF wf(1)]
  have lo: "?lo \<in> bytes_of a" unfolding bytes_of_def
    by (rule CollectI, rule exI [of _ "least_offset (aa_dims a)"], rule exI [of _ 0]) (use ends wf(2) in simp)
  have hi: "?hi + aa_bytes a - 1 \<in> bytes_of a"
    unfolding bytes_of_def
    by (rule CollectI, rule exI [of _ "greatest_offset (aa_dims a)"], rule exI [of _ "aa_bytes a - 1"]) (use ends wf(2) in simp)
  have all: "\<forall>b \<in> bytes_of a. ?lo \<le> b \<and> b \<le> ?hi + aa_bytes a - 1"
    unfolding bytes_of_def using offsets_bounds by fastforce
  have good: "good_span ?s" using a lo hi all by (auto simp: array_wf_def good_span_def)
  have room: "length (ss_spans st) < (let room = (case ss_room st of None \<Rightarrow> 16 | Some r \<Rightarrow> r) in
      if length (ss_spans st) = room then 2 * length (ss_spans st) else room)"
    using st by (auto simp: room_kept_def Let_def split: option.splits)
  then obtain st' where "add_array a st = Some st'" "room_kept st'" "ss_spans st' = ss_spans st @ [?s]"
    by (auto simp: add_array_def span_add_def r Let_def room_kept_def split: option.splits)
  then show ?thesis using good lo hi all by (intro exI [of _ st'] exI [of _ ?s]) simp
qed

lemma add_arrays_cover:
  "\<forall>a \<in> set as. array_wf a \<Longrightarrow> room_kept st \<Longrightarrow>
     \<exists>st' ss. add_arrays as st = Some st' \<and> ss_spans st' = ss_spans st @ ss \<and>
       list_all2 (\<lambda>a s. good_span s \<and> sp_kind s = aa_kind a \<and> (\<forall>b \<in> bytes_of a. sp_lo s \<le> b \<and> b \<le> sp_hi s)) as ss"
proof (induction as arbitrary: st)
  case (Cons a as)
  from add_array_covers [of a st] Cons.prems obtain st1 s where one: "add_array a st = Some st1" "room_kept st1"
    "ss_spans st1 = ss_spans st @ [s]" "good_span s" "sp_kind s = aa_kind a" "\<forall>b \<in> bytes_of a. sp_lo s \<le> b \<and> b \<le> sp_hi s" by auto
  from Cons.IH [OF _ one(2)] Cons.prems obtain st' ss where rest: "add_arrays as st1 = Some st'" "ss_spans st' = ss_spans st1 @ ss"
    "list_all2 (\<lambda>a s. good_span s \<and> sp_kind s = aa_kind a \<and> (\<forall>b \<in> bytes_of a. sp_lo s \<le> b \<and> b \<le> sp_hi s)) as ss" by auto
  show ?case by (rule exI [of _ st'], rule exI [of _ "s # ss"]) (use one rest in simp)
qed simp

lemma two_of: "i < j \<Longrightarrow> j < length ss \<Longrightarrow> {#ss ! i, ss ! j#} \<subseteq># mset ss"
proof -
  assume ij: "i < j" "j < length ss"
  have "ss ! j \<in> set (drop (Suc i) ss)" using ij by (auto simp: in_set_conv_nth intro!: exI [of _ "j - Suc i"])
  moreover have "ss = take i ss @ ss ! i # drop (Suc i) ss" using ij by (intro id_take_nth_drop) simp
  ultimately show ?thesis by (metis Un_iff pair_in_mset set_append)
qed

definition clashing :: "array_at \<Rightarrow> array_at \<Rightarrow> bool" where
  "clashing a b = ((aa_kind a \<le> 2 \<or> aa_kind b \<le> 2) \<and> (aa_kind a \<in> {2, 4} \<or> aa_kind b \<in> {2, 4}))"

text \<open>C37. No shared storage is missed: whatever arrays are handed to the guard, contiguous or strided in any direction, if a
  byte of an element of a member handed over apart is a byte of an element of another array, and one of the two is
  written, the call is stopped. The buffer of ranges has always room.\<close>

theorem shared_storage_found:
  assumes "\<forall>a \<in> set arrays. array_wf a"
  shows "\<exists>st. add_arrays arrays no_spans = Some st \<and>
     ((\<exists>i j. i < j \<and> j < length arrays \<and> clashing (arrays ! i) (arrays ! j) \<and> bytes_of (arrays ! i) \<inter> bytes_of (arrays ! j) \<noteq> {})
        \<longrightarrow> snd (spans_overlap (ss_spans st)) \<noteq> None)"
proof -
  have "room_kept no_spans" by (simp add: room_kept_def no_spans_def)
  from add_arrays_cover [OF assms this] obtain st ss where st: "add_arrays arrays no_spans = Some st" "ss_spans st = ss"
    and each: "list_all2 (\<lambda>a s. good_span s \<and> sp_kind s = aa_kind a \<and> (\<forall>b \<in> bytes_of a. sp_lo s \<le> b \<and> b \<le> sp_hi s)) arrays ss"
    by (auto simp: no_spans_def)
  have at: "good_span (ss ! i) \<and> sp_kind (ss ! i) = aa_kind (arrays ! i) \<and>
      (\<forall>b \<in> bytes_of (arrays ! i). sp_lo (ss ! i) \<le> b \<and> b \<le> sp_hi (ss ! i))" if "i < length arrays" for i
    using list_all2_nthD [OF each that] by simp
  have good: "\<forall>s \<in> set ss. good_span s" using each by (auto simp: list_all2_conv_all_nth in_set_conv_nth)
  have "snd (spans_overlap ss) \<noteq> None"
    if ij: "i < j" "j < length arrays" and k: "clashing (arrays ! i) (arrays ! j)"
      and b: "b \<in> bytes_of (arrays ! i)" "b \<in> bytes_of (arrays ! j)" for i j b
  proof
    assume none: "snd (spans_overlap ss) = None"
    have "unsafe_pair (ss ! i) (ss ! j)"
      using k at [of i] at [of j] ij b by (auto simp: clashing_def unsafe_pair_def apart_def writes_def intro!: exI [of _ b])
    moreover have "{#ss ! i, ss ! j#} \<subseteq># mset ss" using two_of [OF ij(1)] ij(2) list_all2_lengthD [OF each] by simp
    ultimately show False using spans_overlap_correct_aux [OF good] none by auto
  qed
  then show ?thesis using st by blast
qed

definition ex_arrays :: "array_at list" where
  "ex_arrays = [\<lparr>aa_base = 100, aa_dims = [(-8, 3)], aa_bytes = 8, aa_kind = 4, aa_tag = 1, aa_elem = 0\<rparr>,
     \<lparr>aa_base = 80, aa_dims = [], aa_bytes = 8, aa_kind = 1, aa_tag = 2, aa_elem = 1\<rparr>]"

theorem shared_storage_found_witness:
  "\<exists>st. add_arrays ex_arrays no_spans = Some st \<and> snd (spans_overlap (ss_spans st)) \<noteq> None"
proof -
  have wf: "\<forall>a \<in> set ex_arrays. array_wf a" by (auto simp: ex_arrays_def array_wf_def bytes_of_def)
  have "-16 \<in> offsets [(-8, 3)]" by (auto intro!: exI [of _ 2])
  then have "84 \<in> bytes_of (ex_arrays ! 0)"
    unfolding bytes_of_def by (intro CollectI exI [of _ "-16"] exI [of _ 0]) (simp add: ex_arrays_def del: offsets.simps)
  moreover have "84 \<in> bytes_of (ex_arrays ! 1)"
    unfolding bytes_of_def by (intro CollectI exI [of _ 0] exI [of _ 4]) (simp add: ex_arrays_def)
  ultimately have "84 \<in> bytes_of (ex_arrays ! 0) \<inter> bytes_of (ex_arrays ! 1)" by (rule IntI)
  then have "\<exists>i j. i < j \<and> j < length ex_arrays \<and> clashing (ex_arrays ! i) (ex_arrays ! j) \<and> bytes_of (ex_arrays ! i) \<inter> bytes_of (ex_arrays ! j) \<noteq> {}"
    by (intro exI [of _ 0] exI [of _ 1]) (auto simp: ex_arrays_def clashing_def)
  with shared_storage_found [OF wf] show ?thesis by blast
qed

end
