(* ===== verification/Storage_Guard.thy ===== *)
theory Storage_Guard
  imports Span_Sweep Record_Image Loop_Copy Specialization
begin

text \<open>
  \<open>bindings/storage_guard.py\<close>: the block a wrapper runs first to decline a call in which a member handed over apart from its
  record shares storage with another array, and the record of such associations a sizing run writes. What its helpers
  compute is in \<open>Span_Sweep\<close>. The table \<open>_NAMES\<close> the module fills while it renders is passed along: a range's tag is the
  length of the table after its entry has been added.
\<close>

section \<open>One range\<close>

definition MEMBER_READ :: nat where "MEMBER_READ = 1"

definition MEMBER_WRITTEN :: nat where "MEMBER_WRITTEN = 2"

definition IN_PLACE_READ :: nat where "IN_PLACE_READ = 3"

definition IN_PLACE_WRITTEN :: nat where "IN_PLACE_WRITTEN = 4"

type_synonym range_names = "(string \<times> string \<times> string) list"

definition first_index :: "string \<Rightarrow> nat \<Rightarrow> string" where
  "first_index expr d = concat [''lbound('', expr, '', '', str_nat d, '')'']"

definition corner_text :: "string \<Rightarrow> string list \<Rightarrow> string" where
  "corner_text expr indices = concat [''loc('', expr, ''('', join '', '' indices, ''))'']"

definition corner_texts :: "string \<Rightarrow> nat \<Rightarrow> string list" where
  "corner_texts expr rank =
     (let first = map (first_index expr) [1..<rank + 1] in
      corner_text expr first #
      map (\<lambda>d. corner_text expr (first[d := concat [''min('', first_index expr (d + 1), '' + 1, ubound('', expr, '', '', str_nat (d + 1), ''))'']]))
        [0..<rank])"

definition span_text :: "string \<Rightarrow> int \<Rightarrow> nat \<Rightarrow> nat \<Rightarrow> string \<Rightarrow> string" where
  "span_text expr rank kind tag elem =
     (let bytes = concat [''storage_size('', expr, '') / 8''] in
      if rank = 0
      then concat [''call dace_span_add(dace_spans, dace_nspans, '', str_nat kind, '', '', bytes, '', [int(loc('', expr, ''), c_intptr_t)], '',
             ''[integer(c_intptr_t) ::], '', str_nat tag, '', '', elem, '')'']
      else concat [''if (size('', expr, '') > 0) call dace_span_add(dace_spans, dace_nspans, '', str_nat kind, '', '', bytes, '', '',
             ''int(['', join '', '' (corner_texts expr (nat rank)), ''], c_intptr_t), ['',
             join '', '' (map (\<lambda>d. concat [''size('', expr, '', '', str_nat d, '', kind=c_intptr_t)'']) [1..<nat rank + 1]),
             ''], '', str_nat tag, '', '', elem, '')''])"

definition take_span :: "string \<Rightarrow> int \<Rightarrow> nat \<Rightarrow> string \<Rightarrow> string \<Rightarrow> range_names \<Rightarrow> string \<times> range_names" where
  "take_span expr rank kind sdfg elem names =
     (let names = names @ [(expr, sdfg, elem)] in (span_text expr rank kind (length names) elem, names))"

definition in_guards :: "string list \<Rightarrow> string list \<Rightarrow> string list" where
  "in_guards conditions ls =
     map (\<lambda>(d, c). concat [spaces (2 * d), ''if ('', c, '') then'']) (List.enumerate 0 conditions) @
     map (\<lambda>l. spaces (2 * length conditions) @ l) ls @
     map (\<lambda>d. spaces (2 * d) @ ''end if'') (rev [0..<length conditions])"

section \<open>Members of module records\<close>

definition module_nest :: "aos_loops \<Rightarrow> string list \<Rightarrow> string list" where
  "module_nest loops inner =
     (let nest = map strip (do_open loops); depth = length nest in
      map (\<lambda>(d, l). spaces (2 * d) @ l) (List.enumerate 0 nest) @
      map (\<lambda>l. spaces (2 * depth) @ l) inner @
      map (\<lambda>(d, l). spaces (2 * d) @ strip l) (zip (rev [0..<depth]) (do_close loops)))"

definition module_member :: "frozen_arg \<Rightarrow> range_names \<Rightarrow> string list list \<times> range_names" where
  "module_member a names =
     (let rank = fa_rank a - aos_lead a in
      if rank = 0 \<or> aos_member_is_static a \<or> fa_global_alloc_inside a then ([], names)
      else
        let kind = (if fa_is_written a then MEMBER_WRITTEN else MEMBER_READ) in
        if aos_lead a = 0 then
          (let member = concat [fa_aos_origin_struct a, ''%'', fa_aos_member_path a];
               (l, names) = take_span member rank kind (fa_sdfg_name a) ''1'' names
           in ([in_guards [present_query member (fa_aos_member_pointer a)] [l]], names))
        else
          (let pieces = aos_loop_pieces_of a; loops = aos_loops_of a pieces; member = accessor pieces;
               elem = (if aos_lead a = 1 \<and> fa_aos_root_rank a = 0 then hd (loop_vars pieces) else ''0'');
               (l, names) = take_span member rank kind (if elem \<noteq> ''0'' then fa_sdfg_name a else []) elem names;
               inner = in_guards [present_query member (fa_aos_member_pointer a)] [l]
           in ([in_guards [al_present loops] (module_nest loops inner)], names)))"

fun module_members :: "frozen_arg list \<Rightarrow> range_names \<Rightarrow> string list list \<times> range_names" where
  "module_members [] names = ([], names)"
| "module_members (a # as) names =
     (let (g, names) = module_member a names; (gs, names) = module_members as names in (g @ gs, names))"

section \<open>Members of a dummy's records\<close>

definition over_records :: "flatten_entry \<Rightarrow> string list \<Rightarrow> string list" where
  "over_records e body =
     (let rank = nat (aos_outer_rank (fe_recipe e)) in
      map (\<lambda>(depth, d). concat [spaces (2 * depth), ''do i'', str_nat d, '' = 1, size('', outer_expr e, '', '', str_nat d, '')''])
        (List.enumerate 0 (rev [1..<rank + 1])) @
      map (\<lambda>l. spaces (2 * rank) @ l) body @
      map (\<lambda>depth. spaces (2 * depth) @ ''end do'') (rev [0..<rank]))"

type_synonym record_groups = "string list list \<times> string list list"

definition dummy_member ::
  "original_interface \<Rightarrow> flatten_entry \<Rightarrow> range_names \<Rightarrow> (record_groups \<times> range_names) py" where
  "dummy_member iface e names =
     (let r = fe_recipe e; written = (writeback_intent e \<in> {''out'', ''inout''}) in
      if aos_alloc r then
        rbind (aos_alloc_member_at_i r) (\<lambda>member.
          let (l, names) = take_span member (int (length (cap_symbols r))) (if written then MEMBER_WRITTEN else MEMBER_READ) [] ''0'' names
          in Inr (([over_records e (in_guards [aos_alloc_presence r member] [l])], []), names))
      else
        let base = (case read_exprs r of [] \<Rightarrow> [] | x # _ \<Rightarrow> strip_index_args x); guard = recipe_presence_guard iface r in
        if base = [] \<or> contains ''$i'' base then Inr (([], []), names)
        else if guard \<noteq> [] then
          (let (l, names) = take_span base (rc_rank r) (if written then MEMBER_WRITTEN else MEMBER_READ) [] ''0'' names
           in Inr (([in_guards [guard] [l]], []), names))
        else
          (let (l, names) = take_span base (rc_rank r) (if written then IN_PLACE_WRITTEN else IN_PLACE_READ) [] ''0'' names
           in Inr (([], [[l]]), names)))"

fun dummy_members :: "original_interface \<Rightarrow> flatten_entry list \<Rightarrow> range_names \<Rightarrow> (record_groups \<times> range_names) py" where
  "dummy_members iface [] names = Inr (([], []), names)"
| "dummy_members iface (e # es) names =
     rbind (dummy_member iface e names) (\<lambda>((out, rec), names).
     rbind (dummy_members iface es names) (\<lambda>((outs, recs), names). Inr ((out @ outs, rec @ recs), names)))"

definition dummy_record_members ::
  "frozen_signature \<Rightarrow> original_interface \<Rightarrow> flatten_plan \<Rightarrow> range_names \<Rightarrow> (record_groups \<times> range_names) py" where
  "dummy_record_members s iface p names =
     rbind (split_entries s p) (\<lambda>splits. dummy_members iface (live_entries s p @ map fst splits) names)"

section \<open>Arrays taken in place\<close>

definition module_array ::
  "(string \<times> string) list \<Rightarrow> frozen_arg \<Rightarrow> range_names \<Rightarrow> string list list \<times> range_names" where
  "module_array members a names =
     (if fa_kind a \<noteq> ARRAY \<or> fa_rank a = 0 \<or> fa_global_alloc_inside a \<or> map_of members (fa_sdfg_name a) \<noteq> None then ([], names)
      else
        let host = module_value_expr (fa_sdfg_name a) members;
            kind = (if fa_is_written a then IN_PLACE_WRITTEN else IN_PLACE_READ);
            (l, names) = take_span host (if fa_shape a = [''1''] then 0 else fa_rank a) kind (fa_sdfg_name a) ''0'' names
        in ([in_guards (if module_arg_may_be_unallocated a then [present_query host (fa_module_origin_pointer a)] else []) [l]], names))"

definition dummy_named :: "original_interface \<Rightarrow> string \<Rightarrow> original_arg option" where
  "dummy_named iface n = map_of (rev (map (\<lambda>a. (lower (oa_name a), a)) (oi_args iface))) n"

definition dummy_array ::
  "frozen_signature \<Rightarrow> original_interface \<Rightarrow> frozen_arg \<Rightarrow> range_names \<Rightarrow> string list list \<times> range_names" where
  "dummy_array s iface a names =
     (case dummy_named iface (lower (if fa_fortran_name a \<noteq> [] then fa_fortran_name a else fa_sdfg_name a)) of
        None \<Rightarrow> ([], names)
      | Some dummy \<Rightarrow>
          (if or_None (oa_struct_type dummy) \<noteq> None \<or> fa_rank a = 0 \<or> oa_rank dummy = 0 then ([], names)
           else
             let n = oa_name dummy; kind = (if lower (oa_intent dummy) = ''in'' then IN_PLACE_READ else IN_PLACE_WRITTEN);
                 pointer = (n \<in> oa_name ` set (filter (\<lambda>d. (oa_name d @ ''_allocated'') \<in> set (fs_free_symbols s)) (oi_args iface)));
                 conditions = (if oa_optional dummy then [concat [''present('', n, '')'']] else []) @
                              (if pointer then [concat [''associated('', n, '')'']] else []);
                 (l, names) = take_span n (oa_rank dummy) kind (fa_sdfg_name a) ''0'' names
             in ([in_guards conditions [l]], names)))"

fun collect_arrays :: "(frozen_arg \<Rightarrow> range_names \<Rightarrow> string list list \<times> range_names) \<Rightarrow> frozen_arg list \<Rightarrow> range_names \<Rightarrow>
    string list list \<times> range_names" where
  "collect_arrays f [] names = ([], names)"
| "collect_arrays f (a # as) names =
     (let (g, names) = f a names; (gs, names) = collect_arrays f as names in (g @ gs, names))"

definition in_place_arrays ::
  "frozen_signature \<Rightarrow> original_interface \<Rightarrow> flatten_plan \<Rightarrow> range_names \<Rightarrow> string list list \<times> range_names" where
  "in_place_arrays s iface p names =
     (let (gs, names) = collect_arrays (module_array (synthetic_members (Some p))) (map fst (orphan_module_args s iface p)) names;
          (hs, names) = collect_arrays (dummy_array s iface) (fs_args s) names
      in (gs @ hs, names))"

section \<open>The guard and the record\<close>

text \<open>What both collect first: the members of module records, those of the dummies' records, and those kept in them.\<close>

definition record_ranges ::
  "frozen_signature \<Rightarrow> original_interface \<Rightarrow> flatten_plan \<Rightarrow> (string list list \<times> record_groups \<times> range_names) py" where
  "record_ranges s iface p =
     (let (modules, names) = module_members (aos_module_args s) [] in
      rbind (dummy_record_members s iface p names) (\<lambda>(dummies, names). Inr (modules, dummies, names)))"

definition all_ranges ::
  "frozen_signature \<Rightarrow> original_interface \<Rightarrow> flatten_plan \<Rightarrow> string list list \<times> record_groups \<times> range_names \<Rightarrow>
   string list \<times> range_names" where
  "all_ranges s iface p x =
     (case x of (modules, (dummies, recs), names) \<Rightarrow>
       (case in_place_arrays s iface p names of (arrays, names) \<Rightarrow> (concat (modules @ dummies @ recs @ arrays), names)))"

definition table_lines :: "string \<Rightarrow> string list \<Rightarrow> string list" where
  "table_lines head ns =
     [head] @ map (\<lambda>(i, n). concat [''        '', quote, n, quote, if i + 1 < length ns then '','' else [], '' &'']) (List.enumerate 0 ns) @
     [''        ]'']"

definition cut_name :: "string \<Rightarrow> string" where
  "cut_name n = take 96 (replace quote (quote @ quote) n)"

definition refusal_lines :: "string \<Rightarrow> string list" where
  "refusal_lines entry =
     [''if (present(dace_declined)) then'',
      concat [''  write(0, '', quote, ''(5a, i0, a, i0, a)'', quote, '') '', quote, entry, ''_dace declines: '', quote,
        '', trim(dace_span_names(dace_tag_a)), &''],
      concat [''    '', quote, '' shares storage with '', quote, '', trim(dace_span_names(dace_tag_b)), &''],
      concat [''    '', quote, '' (a member handed over apart from its record; elements '', quote, '', dace_elem_a - 1, '', quote, '' and '', quote, '', &''],
      concat [''    dace_elem_b - 1, '', quote, '', -1: a whole array)'', quote],
      ''  dace_declined = .true.'', ''  return'', ''end if'']"

definition build_storage_guard ::
  "frozen_signature \<Rightarrow> original_interface \<Rightarrow> flatten_plan \<Rightarrow> bool \<Rightarrow> string list py" where
  "build_storage_guard s iface p declinable =
     rbind (record_ranges s iface p) (\<lambda>x.
       if fst x = [] \<and> fst (fst (snd x)) = [] then Inr []
       else
         let (ls, names) = all_ranges s iface p x; ns = map (\<lambda>(n, _, _). cut_name n) names; ind = (\<lambda>l. ''      '' @ l) in
         Inr ([''    ! ----- Storage guard: members handed over apart share no storage with another array -----'',
               ''    block'',
               ''      integer(c_intptr_t), allocatable :: dace_spans(:, :)'',
               ''      integer :: dace_nspans, dace_tag_a, dace_tag_b, dace_elem_a, dace_elem_b''] @
              table_lines (concat [''      character(len=96), parameter :: dace_span_names('', str_nat (length ns), '') = [character(len=96) :: &'']) ns @
              [''      dace_nspans = 0''] @ map ind ls @
              [''      if (dace_spans_overlap(dace_spans, dace_nspans, dace_tag_a, dace_tag_b, dace_elem_a, dace_elem_b)) then''] @
              map (\<lambda>l. ''        '' @ l) (if declinable then refusal_lines (oi_entry iface) else []) @
              [concat [''        write(0, '', quote, ''(5a)'', quote, '') '', quote, oi_entry iface, ''_dace: '', quote,
                 '', trim(dace_span_names(dace_tag_a)), &''],
               concat [''          '', quote, '' shares storage with '', quote, '', trim(dace_span_names(dace_tag_b)), &''],
               concat [''          '', quote, '' (a member handed over apart from its record)'', quote],
               concat [''        error stop '', quote, oi_entry iface, ''_dace: a member handed over apart from its record shares storage '',
                 ''with another array'', quote],
               ''      end if'', ''    end block'']))"

definition build_alias_record ::
  "frozen_signature \<Rightarrow> original_interface \<Rightarrow> flatten_plan \<Rightarrow> string \<Rightarrow> bool \<Rightarrow> string list py" where
  "build_alias_record s iface p path per_rank =
     rbind (record_ranges s iface p) (\<lambda>x.
       if fst x = [] then Inr []
       else
         let (ls, names) = all_ranges s iface p x; ns = map (\<lambda>(_, n, _). cut_name n) names; ind = map (\<lambda>l. ''      '' @ l);
             (declarations, opening) = record_open_lines ''dace_alias_unit'' (concat [quote, path, ''.aliases'', quote]) per_rank in
         Inr ([''    ! ----- Alias record: members handed over apart that are another array of the SDFG -----'',
               ''    block'',
               ''      integer(c_intptr_t), allocatable :: dace_spans(:, :)'',
               ''      integer :: dace_nspans, dace_alias_unit''] @ ind declarations @
              table_lines (concat [''      character(len=96), parameter :: dace_span_sdfg('', str_nat (length ns), '') = [character(len=96) :: &'']) ns @
              [''      dace_nspans = 0''] @ ind ls @ ind opening @
              [''      call dace_spans_aliases(dace_spans, dace_nspans, dace_alias_unit, dace_span_sdfg)'',
               concat [''      write(dace_alias_unit, '', quote, ''(a)'', quote, '') '', quote, quote],
               ''      close(dace_alias_unit)'', ''    end block'']))"

section \<open>The statements the ranges are collected by\<close>

text \<open>Only the kinds of the lines matter for the nesting.\<close>

lemma block_kinds: "map line_kind xs = map line_kind ys \<Longrightarrow> block xs ts = block ys ts"
proof -
  assume "map line_kind xs = map line_kind ys"
  then have "block_run fs xs = block_run fs ys" for fs
  proof (induction xs arbitrary: ys fs)
    case (Cons x xs)
    then obtain y ys' where ys: "ys = y # ys'" "line_kind x = line_kind y" "map line_kind xs = map line_kind ys'" by auto
    have "block_step fs x = block_step fs y" using ys(2) by (cases fs) auto
    with Cons.IH [OF ys(3)] ys(1) show ?case by (simp split: option.split)
  qed simp
  then show ?thesis by (simp add: block_def)
qed

lemma kinds_indented: "map line_kind (map (\<lambda>(d, l). spaces (f d) @ l) (zip ds ls)) = map line_kind (map snd (zip ds ls))"
  by (induction ds ls rule: list_induct2') simp_all

record range_call =
  rg_expr :: string
  rg_rank :: int
  rg_kind :: nat
  rg_sdfg :: string
  rg_elem :: string

definition call_text :: "nat \<times> range_call \<Rightarrow> string" where
  "call_text x = (case x of (tag, c) \<Rightarrow> span_text (rg_expr c) (rg_rank c) (rg_kind c) tag (rg_elem c))"

definition call_name :: "range_call \<Rightarrow> string \<times> string \<times> string" where
  "call_name c = (rg_expr c, rg_sdfg c, rg_elem c)"

definition statements_of :: "stmt list \<Rightarrow> string list" where
  "statements_of ts = map snd (concat (map leaf_paths ts))"

text \<open>Lines that are nested and whose only statements are the calls for some ranges with their tags; and a table that has got
  those ranges, each at the place of its tag.\<close>

definition emits :: "nat set \<Rightarrow> string list \<Rightarrow> (nat \<times> range_call) list \<Rightarrow> bool" where
  "emits kinds ls tcs = ((\<exists>ts. block ls ts \<and> statements_of ts = map call_text tcs) \<and> (\<forall>(t, c) \<in> set tcs. rg_kind c \<in> kinds))"

definition numbered :: "range_names \<Rightarrow> range_names \<Rightarrow> (nat \<times> range_call) list \<Rightarrow> bool" where
  "numbered names names' tcs =
     (\<exists>calls. names' = names @ map call_name calls \<and> mset tcs = mset (List.enumerate (Suc (length names)) calls))"

definition adds :: "nat set \<Rightarrow> string list \<Rightarrow> range_names \<Rightarrow> range_names \<Rightarrow> bool" where
  "adds kinds ls names names' = (\<exists>tcs. emits kinds ls tcs \<and> numbered names names' tcs)"

lemma emits_Nil: "emits ks [] []"
  unfolding emits_def statements_of_def by (auto intro!: exI [of _ "[]"] simp: block_Nil)

lemma emits_append: "emits ks xs tcs \<Longrightarrow> emits ls ys ucs \<Longrightarrow> emits (ks \<union> ls) (xs @ ys) (tcs @ ucs)"
proof -
  assume "emits ks xs tcs" "emits ls ys ucs"
  then obtain ts us where "block xs ts" "statements_of ts = map call_text tcs" "block ys us" "statements_of us = map call_text ucs"
    and k: "\<forall>(t, c) \<in> set tcs. rg_kind c \<in> ks" "\<forall>(t, c) \<in> set ucs. rg_kind c \<in> ls" unfolding emits_def by blast
  then have "block (xs @ ys) (ts @ us) \<and> statements_of (ts @ us) = map call_text (tcs @ ucs)"
    by (simp add: block_append statements_of_def)
  with k show ?thesis unfolding emits_def by auto
qed

lemma emits_same: "emits ks xs tcs \<Longrightarrow> emits ks ys ucs \<Longrightarrow> emits ks (xs @ ys) (tcs @ ucs)"
  using emits_append [of ks xs tcs ks ys ucs] by simp

lemma numbered_Nil: "numbered names names []"
  unfolding numbered_def by (intro exI [of _ "[]"]) simp

lemma enumerate_append: "List.enumerate n (xs @ ys) = List.enumerate n xs @ List.enumerate (n + length xs) ys"
  by (induction xs arbitrary: n) simp_all

lemma numbered_append: "numbered a b xs \<Longrightarrow> numbered b c ys \<Longrightarrow> mset zs = mset xs + mset ys \<Longrightarrow> numbered a c zs"
proof -
  assume "numbered a b xs" "numbered b c ys" and z: "mset zs = mset xs + mset ys"
  then obtain cs ds where c: "b = a @ map call_name cs" "mset xs = mset (List.enumerate (Suc (length a)) cs)"
    "c = b @ map call_name ds" "mset ys = mset (List.enumerate (Suc (length b)) ds)" unfolding numbered_def by blast
  then have "mset zs = mset (List.enumerate (Suc (length a)) (cs @ ds))" using z by (simp add: enumerate_append)
  with c show ?thesis unfolding numbered_def by (intro exI [of _ "cs @ ds"]) simp
qed

lemma adds_Nil: "adds ks [] names names"
  unfolding adds_def using emits_Nil numbered_Nil by blast

lemma adds_append: "adds ks xs a b \<Longrightarrow> adds ks ys b c \<Longrightarrow> adds ks (xs @ ys) a c"
proof -
  assume "adds ks xs a b" "adds ks ys b c"
  then obtain tcs ucs where "emits ks xs tcs" "numbered a b tcs" "emits ks ys ucs" "numbered b c ucs" unfolding adds_def by blast
  then have "emits ks (xs @ ys) (tcs @ ucs) \<and> numbered a c (tcs @ ucs)"
    using emits_same numbered_append [of a b tcs c ucs "tcs @ ucs"] by simp
  then show ?thesis unfolding adds_def by blast
qed

text \<open>What is wrapped in loops and guards keeps its statements.\<close>

lemma adds_wrapped:
  assumes "adds ks ls a b" and "\<And>ts. block ls ts \<Longrightarrow> \<exists>us. block ls' us \<and> statements_of us = statements_of ts"
  shows "adds ks ls' a b"
proof -
  from assms(1) obtain tcs ts where n: "numbered a b tcs" and k: "\<forall>(t, c) \<in> set tcs. rg_kind c \<in> ks"
    and b: "block ls ts" "statements_of ts = map call_text tcs" unfolding adds_def emits_def by blast
  from assms(2) [OF b(1)] obtain us where "block ls' us" "statements_of us = map call_text tcs" unfolding b(2) by blast
  with n k show ?thesis unfolding adds_def emits_def by blast
qed

lemma wrap_if:
  assumes "line_kind p = Opens_If c" "line_kind q = Closes_If" "block ls ts"
  shows "\<exists>us. block (p # ls @ [q]) us \<and> statements_of us = statements_of ts"
  using block_if [OF assms] by (intro exI [of _ "[If c ts]"]) (simp add: statements_of_def comp_def case_prod_unfold)

lemma wrap_do:
  assumes "line_kind p = Opens_Do c" "line_kind q = Closes_Do" "block ls ts"
  shows "\<exists>us. block (p # ls @ [q]) us \<and> statements_of us = statements_of ts"
  using block_do [OF assms] by (intro exI [of _ "[Do c ts]"]) (simp add: statements_of_def comp_def case_prod_unfold)

lemma nest_statements: "statements_of (nest hs ts) = statements_of ts"
  by (induction hs) (simp_all add: statements_of_def comp_def case_prod_unfold)

lemma wrap_guards:
  "block ls ts \<Longrightarrow> \<exists>us. block (map (\<lambda>c. ''if ('' @ c @ '') then'') cs @ ls @ map (\<lambda>_. ''end if'') cs) us \<and> statements_of us = statements_of ts"
proof (induction cs)
  case (Cons c cs)
  then obtain us where u: "block (map (\<lambda>c. ''if ('' @ c @ '') then'') cs @ ls @ map (\<lambda>_. ''end if'') cs) us"
    "statements_of us = statements_of ts" by blast
  have "map (\<lambda>_. ''end if'') (c # cs) = map (\<lambda>_. ''end if'') cs @ [''end if'']" by (induction cs) simp_all
  with wrap_if [OF kind_if_then line_kind_end(2) u(1), of c] u(2) show ?case by (simp del: map_append)
qed auto

lemma kinds_in_guards:
  "map line_kind (in_guards cs ls) =
     map line_kind (map (\<lambda>c. ''if ('' @ c @ '') then'') cs @ ls @ map (\<lambda>_. ''end if'') cs)"
proof -
  have a: "map line_kind (map (\<lambda>(d, c). concat [spaces (2 * d), ''if ('', c, '') then'']) (List.enumerate n cs)) =
      map line_kind (map (\<lambda>c. ''if ('' @ c @ '') then'') cs)" for n
    by (induction cs arbitrary: n) simp_all
  have b: "map line_kind (map (\<lambda>l. spaces n @ l) ls) = map line_kind ls" for n by (induction ls) simp_all
  have c: "map line_kind (map (\<lambda>d. spaces (2 * d) @ ''end if'') (rev [0..<n])) = replicate n Closes_If" for n
    by (induction n) simp_all
  have d: "map line_kind (map (\<lambda>_. ''end if'') cs) = replicate (length cs) Closes_If" by (induction cs) simp_all
  show ?thesis using a [of 0] b [of "2 * length cs"] c [of "length cs"] d by (simp only: in_guards_def map_append)
qed

lemma adds_in_guards: "adds ks ls a b \<Longrightarrow> adds ks (in_guards cs ls) a b"
proof (erule adds_wrapped)
  fix ts
  assume "block ls ts"
  from wrap_guards [OF this, of cs] show "\<exists>us. block (in_guards cs ls) us \<and> statements_of us = statements_of ts"
    using block_kinds [OF kinds_in_guards] by metis
qed

lemma last_append_cons: "xs @ y # ys \<noteq> []" "last (xs @ y # ys) = last (y # ys)"
  by simp_all

lemma kind_span_text: "line_kind (span_text e r k t el) = Plain (span_text e r k t el)"
proof (cases "r = 0")
  case True
  have "CHR ''c'' \<notin> set ''die''" "\<not> is_space CHR ''c''" by code_simp+
  then show ?thesis using True by (simp add: span_text_def Let_def kind_other)
next
  case False
  then obtain u where u: "span_text e r k t el = ''if ('' @ u @ '')''" by (simp add: span_text_def Let_def)
  have "last (u @ '')'') \<noteq> CHR ''n''" "u @ '')'' \<noteq> []" by simp_all
  from kind_if_line [OF this] u show ?thesis by simp
qed

lemma adds_take_span:
  assumes "take_span e r k sdfg elem names = (l, names')" and "k \<in> ks"
  shows "adds ks [l] names names'"
proof -
  let ?c = "\<lparr>rg_expr = e, rg_rank = r, rg_kind = k, rg_sdfg = sdfg, rg_elem = elem\<rparr>"
  from assms(1) have l: "l = call_text (Suc (length names), ?c)" "names' = names @ map call_name [?c]"
    by (auto simp: take_span_def Let_def call_text_def call_name_def)
  have "block [l] [Leaf l]" using kind_span_text unfolding l(1) call_text_def by (auto intro: block_leaf)
  then show ?thesis
    unfolding adds_def emits_def numbered_def using l assms(2)
    by (intro exI [of _ "[(Suc (length names), ?c)]"] conjI exI [of _ "[Leaf l]"] exI [of _ "[?c]"]) (simp_all add: statements_of_def)
qed

lemma rstrip_solid: "s \<noteq> [] \<Longrightarrow> \<not> is_space (last s) \<Longrightarrow> rstrip s = s"
  by (cases s rule: rev_cases) (simp_all add: rstrip_def)

lemma kind_strip: "l \<noteq> [] \<Longrightarrow> \<not> is_space (last l) \<Longrightarrow> line_kind (strip l) = line_kind l"
proof -
  assume l: "l \<noteq> []" "\<not> is_space (last l)"
  obtain pre where pre: "l = pre @ lstrip l" unfolding lstrip_def by (metis takeWhile_dropWhile_id)
  have "lstrip l \<noteq> []"
  proof
    assume "lstrip l = []"
    then have "\<forall>c \<in> set l. is_space c" by (simp add: lstrip_def dropWhile_eq_Nil_conv)
    with l show False by auto
  qed
  moreover then have "last (lstrip l) = last l" using pre by (metis last_appendR)
  ultimately have "strip l = lstrip l" unfolding strip_def using l(2) by (intro rstrip_solid) simp_all
  moreover have "lstrip (lstrip l) = lstrip l" by (simp add: lstrip_def dropWhile_idem)
  ultimately show ?thesis by (simp add: line_kind_def)
qed

definition ends_solid :: "string \<Rightarrow> bool" where
  "ends_solid l = (l \<noteq> [] \<and> \<not> is_space (last l))"

lemma bound_call_solid: "ends_solid (do_line v lo (bound_call q e k))"
proof -
  have "last (do_line v lo (bound_call q e k)) = CHR '')''" by (simp add: do_line_def bound_call_def)
  moreover have "\<not> is_space CHR '')''" by code_simp
  ultimately show ?thesis by (simp add: ends_solid_def do_line_def)
qed

lemma then_solid: "ends_solid (concat [''      if ('', c, '') then''])"
proof -
  have "\<not> is_space CHR ''n''" by code_simp
  then show ?thesis by (simp add: ends_solid_def)
qed

lemma end_solid: "ends_solid ''      end do''" "ends_solid ''      end if''"
  by code_simp+

lemma loops_solid:
  "\<forall>l \<in> set (do_open (aos_loops_of a pieces)) \<union> set (do_close (aos_loops_of a pieces)). ends_solid l"
  "length (do_open (aos_loops_of a pieces)) = length (do_close (aos_loops_of a pieces))"
  using bound_call_solid then_solid end_solid
  by (auto simp: aos_loops_of_def Let_def case_prod_unfold simp del: concat.simps append.simps)

lemma kinds_stripped: "\<forall>l \<in> set ls. ends_solid l \<Longrightarrow> map line_kind (map strip ls) = map line_kind ls"
  by (induction ls) (simp_all add: ends_solid_def kind_strip)

lemma map_snd_enumerate: "map snd (List.enumerate n xs) = xs"
  by (induction xs arbitrary: n) simp_all

lemma enumerate_zip: "List.enumerate n xs = zip [n..<n + length xs] xs"
  by (simp add: enumerate_eq_zip)

lemma kinds_module_nest:
  "map line_kind (module_nest (aos_loops_of a pieces) inner) =
     map line_kind (do_open (aos_loops_of a pieces) @ inner @ do_close (aos_loops_of a pieces))"
proof -
  let ?l = "aos_loops_of a pieces"
  have o: "map line_kind (map (\<lambda>(d, l). spaces (2 * d) @ l) (List.enumerate 0 (map strip (do_open ?l)))) = map line_kind (do_open ?l)"
    using kinds_stripped [of "do_open ?l"] loops_solid(1) [of a pieces] unfolding enumerate_zip
    by (simp only: kinds_indented) (simp del: map_map)
  have i: "map line_kind (map (\<lambda>l. spaces n @ l) inner) = map line_kind inner" for n by (induction inner) simp_all
  have "map line_kind (map (\<lambda>(d, l). spaces (2 * d) @ strip l) (zip ds ls)) = map line_kind (map (strip \<circ> snd) (zip ds ls))" for ds :: "nat list" and ls
    by (induction ds ls rule: list_induct2') simp_all
  moreover have "map (strip \<circ> snd) (zip ds ls) = map strip ls" if "length ds = length ls" for ds :: "nat list" and ls
    using that by (induction ds ls rule: list_induct2) simp_all
  ultimately have c: "map line_kind (map (\<lambda>(d, l). spaces (2 * d) @ strip l) (zip (rev [0..<length (map strip (do_open ?l))]) (do_close ?l))) =
      map line_kind (do_close ?l)"
    using kinds_stripped [of "do_close ?l"] loops_solid [of a pieces] by (simp del: map_map)
  show ?thesis using o i c unfolding module_nest_def Let_def by (simp only: map_append)
qed

lemma element_nest_statements: "statements_of (element_nest a ts) = statements_of ts"
  by (simp add: element_nest_def Let_def case_prod_unfold nest_statements) (simp add: statements_of_def comp_def case_prod_unfold nest_statements [unfolded statements_of_def comp_def])

lemma adds_module_nest: "adds ks ls x y \<Longrightarrow> adds ks (module_nest (aos_loops_of a (aos_loop_pieces_of a)) ls) x y"
proof (erule adds_wrapped)
  fix ts
  assume "block ls ts"
  from block_element_loops [OF this, of a]
  have "block (module_nest (aos_loops_of a (aos_loop_pieces_of a)) ls) (element_nest a ts)"
    using block_kinds [OF kinds_module_nest] by blast
  then show "\<exists>us. block (module_nest (aos_loops_of a (aos_loop_pieces_of a)) ls) us \<and> statements_of us = statements_of ts"
    using element_nest_statements by blast
qed

lemma kind_numbered_do: "line_kind (concat [spaces n, ''do i'', l]) = Opens_Do (''i'' @ l)"
  using kind_do [of l] by simp

lemma wrap_record_loops:
  "block body ts \<Longrightarrow>
     \<exists>us. block (map (\<lambda>d. ''do i'' @ f d) ds @ body @ map (\<lambda>_. ''end do'') ds) us \<and> statements_of us = statements_of ts"
proof (induction ds)
  case (Cons d ds)
  then obtain us where u: "block (map (\<lambda>d. ''do i'' @ f d) ds @ body @ map (\<lambda>_. ''end do'') ds) us"
    "statements_of us = statements_of ts" by blast
  have "map (\<lambda>_. ''end do'') (d # ds) = map (\<lambda>_. ''end do'') ds @ [''end do'']" by (induction ds) simp_all
  with wrap_do [OF kind_do line_kind_end(1) u(1), of "f d"] u(2) show ?case by (simp del: map_append)
qed auto

lemma kinds_over_records:
  "map line_kind (over_records e body) =
     map line_kind (map (\<lambda>d. ''do i'' @ str_nat d @ '' = 1, size('' @ outer_expr e @ '', '' @ str_nat d @ '')'') (rev [1..<nat (aos_outer_rank (fe_recipe e)) + 1]) @
       body @ map (\<lambda>_. ''end do'') (rev [1..<nat (aos_outer_rank (fe_recipe e)) + 1]))"
proof -
  let ?n = "nat (aos_outer_rank (fe_recipe e))"
  have a: "map line_kind (map (\<lambda>(depth, d). concat [spaces (2 * depth), ''do i'', str_nat d, '' = 1, size('', outer_expr e, '', '', str_nat d, '')''])
      (List.enumerate m ds)) = map line_kind (map (\<lambda>d. ''do i'' @ str_nat d @ '' = 1, size('' @ outer_expr e @ '', '' @ str_nat d @ '')'') ds)" for m ds
    by (induction ds arbitrary: m) simp_all
  have b: "map line_kind (map (\<lambda>l. spaces n @ l) body) = map line_kind body" for n by (induction body) simp_all
  have c: "map line_kind (map (\<lambda>d. spaces (2 * d) @ ''end do'') (rev [0..<n])) = replicate n Closes_Do" for n
    by (induction n) simp_all
  have d: "map line_kind (map (\<lambda>_. ''end do'') ds) = replicate (length ds) Closes_Do" for ds :: "nat list" by (induction ds) simp_all
  have len: "length (rev [1..<?n + 1]) = ?n" by simp
  show ?thesis using a [of 0 "rev [1..<?n + 1]"] b [of "2 * ?n"] c [of ?n] d [of "rev [1..<?n + 1]"]
    unfolding over_records_def Let_def map_append len by (simp only:)
qed

lemma adds_over_records: "adds ks ls x y \<Longrightarrow> adds ks (over_records e ls) x y"
proof (erule adds_wrapped)
  fix ts
  assume "block ls ts"
  from wrap_record_loops [OF this, of "\<lambda>d. str_nat d @ '' = 1, size('' @ outer_expr e @ '', '' @ str_nat d @ '')''"
      "rev [1..<nat (aos_outer_rank (fe_recipe e)) + 1]"]
  show "\<exists>us. block (over_records e ls) us \<and> statements_of us = statements_of ts"
    by (simp only: block_kinds [OF kinds_over_records])
qed

lemma adds_concat: "adds ks (concat gs) x y \<Longrightarrow> adds ks (concat hs) y z \<Longrightarrow> adds ks (concat (gs @ hs)) x z"
  using adds_append [of ks "concat gs" x y "concat hs" z] by simp

definition member_kinds :: "nat set" where
  "member_kinds = {MEMBER_READ, MEMBER_WRITTEN}"

definition place_kinds :: "nat set" where
  "place_kinds = {IN_PLACE_READ, IN_PLACE_WRITTEN}"

lemmas kind_sets = member_kinds_def place_kinds_def

lemma adds_module_member:
  assumes "module_member a names = (gs, names')"
  shows "adds member_kinds (concat gs) names names'"
proof (cases "fa_rank a - aos_lead a = 0 \<or> aos_member_is_static a \<or> fa_global_alloc_inside a")
  case True
  with assms show ?thesis by (simp add: module_member_def Let_def adds_Nil)
next
  case False
  let ?rank = "fa_rank a - aos_lead a" and ?kind = "if fa_is_written a then MEMBER_WRITTEN else MEMBER_READ"
  have k: "?kind \<in> member_kinds" by (simp add: kind_sets)
  show ?thesis
  proof (cases "aos_lead a = 0")
    case True
    let ?m = "concat [fa_aos_origin_struct a, ''%'', fa_aos_member_path a]"
    obtain l n where t: "take_span ?m ?rank ?kind (fa_sdfg_name a) ''1'' names = (l, n)" by (rule prod.exhaust)
    from assms False True t have gs: "gs = [in_guards [present_query ?m (fa_aos_member_pointer a)] [l]]" "names' = n"
      by (simp_all add: module_member_def Let_def)
    show ?thesis unfolding gs using adds_in_guards [OF adds_take_span [OF t k]] by simp
  next
    case lead: False
    let ?p = "aos_loop_pieces_of a"
    let ?elem = "if aos_lead a = 1 \<and> fa_aos_root_rank a = 0 then hd (loop_vars ?p) else ''0''"
    obtain l n where t: "take_span (accessor ?p) ?rank ?kind (if ?elem \<noteq> ''0'' then fa_sdfg_name a else []) ?elem names = (l, n)"
      by (rule prod.exhaust)
    from assms False lead t have gs: "gs = [in_guards [al_present (aos_loops_of a ?p)]
        (module_nest (aos_loops_of a ?p) (in_guards [present_query (accessor ?p) (fa_aos_member_pointer a)] [l]))]" "names' = n"
      unfolding module_member_def Let_def by (simp_all only: if_False prod.case prod.inject)
    show ?thesis unfolding gs using adds_in_guards [OF adds_module_nest [OF adds_in_guards [OF adds_take_span [OF t k]]]] by simp
  qed
qed

lemma adds_module_members: "module_members as names = (gs, names') \<Longrightarrow> adds member_kinds (concat gs) names names'"
proof (induction as arbitrary: names gs)
  case (Cons a as)
  obtain g n1 where a: "module_member a names = (g, n1)" by (rule prod.exhaust)
  obtain h n2 where b: "module_members as n1 = (h, n2)" by (rule prod.exhaust)
  from Cons.prems a b have "gs = g @ h" "names' = n2" by simp_all
  with adds_concat [OF adds_module_member [OF a] Cons.IH [OF b [unfolded \<open>names' = n2\<close> [symmetric]]]] show ?case by simp
qed (simp add: adds_Nil)

text \<open>The ranges of one entry: those of members handed over apart, or one of a member in its record.\<close>

lemma dummy_member_groups:
  assumes "dummy_member iface e names = Inr ((out, rec), names')"
  shows "adds member_kinds (concat out) names names' \<and> rec = [] \<or> out = [] \<and> adds place_kinds (concat rec) names names'"
proof -
  let ?r = "fe_recipe e" and ?w = "writeback_intent e \<in> {''out'', ''inout''}"
  let ?mk = "if ?w then MEMBER_WRITTEN else MEMBER_READ" and ?pk = "if ?w then IN_PLACE_WRITTEN else IN_PLACE_READ"
  have k: "?mk \<in> member_kinds" "?pk \<in> place_kinds" by (simp_all add: kind_sets)
  show ?thesis
  proof (cases "aos_alloc ?r")
    case True
    with assms obtain m where m: "aos_alloc_member_at_i ?r = Inr m" unfolding dummy_member_def Let_def
      by (auto simp: rbind_Inr_iff)
    obtain l n where t: "take_span m (int (length (cap_symbols ?r))) ?mk [] ''0'' names = (l, n)" by (rule prod.exhaust)
    from assms True m t have "out = [over_records e (in_guards [aos_alloc_presence ?r m] [l])]" "rec = []" "names' = n"
      unfolding dummy_member_def Let_def by simp_all
    with adds_over_records [OF adds_in_guards [OF adds_take_span [OF t k(1)]]] show ?thesis by simp
  next
    case False
    define base where "base = (case read_exprs ?r of [] \<Rightarrow> [] | x # _ \<Rightarrow> strip_index_args x)"
    define guard where "guard = recipe_presence_guard iface ?r"
    obtain l n where t: "take_span base (rc_rank ?r) ?mk [] ''0'' names = (l, n)" by (rule prod.exhaust)
    obtain l' n' where t': "take_span base (rc_rank ?r) ?pk [] ''0'' names = (l', n')" by (rule prod.exhaust)
    have eq: "(if base = [] \<or> contains ''$i'' base then Inr (([], []), names)
        else if guard \<noteq> [] then Inr (([in_guards [guard] [l]], []), n) else (Inr (([], [[l']]), n') :: (record_groups \<times> range_names) py)) =
       Inr ((out, rec), names')"
      using assms unfolding dummy_member_def Let_def base_def [symmetric] guard_def [symmetric]
      by (simp only: False if_False t t' prod.case)
    consider (none) "base = [] \<or> contains ''$i'' base" | (apart) "\<not> (base = [] \<or> contains ''$i'' base)" "guard \<noteq> []"
      | (inside) "\<not> (base = [] \<or> contains ''$i'' base)" "guard = []" by blast
    then show ?thesis
    proof cases
      case none
      with eq have "out = []" "rec = []" "names' = names" by simp_all
      then show ?thesis by (simp add: adds_Nil)
    next
      case apart
      with eq have "out = [in_guards [guard] [l]]" "rec = []" "names' = n" by simp_all
      then show ?thesis using adds_in_guards [OF adds_take_span [OF t k(1)]] by simp
    next
      case inside
      with eq have "out = []" "rec = [[l']]" "names' = n'" by simp_all
      then show ?thesis using adds_take_span [OF t' k(2)] by simp
    qed
  qed
qed

definition both_add :: "record_groups \<Rightarrow> range_names \<Rightarrow> range_names \<Rightarrow> bool" where
  "both_add gs names names' =
     (\<exists>tcs ucs. emits member_kinds (concat (fst gs)) tcs \<and> emits place_kinds (concat (snd gs)) ucs \<and> numbered names names' (tcs @ ucs))"

lemma both_add_member: "dummy_member iface e names = Inr (gs, names') \<Longrightarrow> both_add gs names names'"
proof -
  assume "dummy_member iface e names = Inr (gs, names')"
  moreover obtain out rec where gs: "gs = (out, rec)" by (rule prod.exhaust)
  ultimately consider "adds member_kinds (concat out) names names'" "rec = []" | "out = []" "adds place_kinds (concat rec) names names'"
    using dummy_member_groups by blast
  then show ?thesis
  proof cases
    case 1
    then obtain tcs where "emits member_kinds (concat out) tcs" "numbered names names' tcs" unfolding adds_def by blast
    with 1 gs show ?thesis unfolding both_add_def using emits_Nil by (intro exI [of _ tcs] exI [of _ "[]"]) simp
  next
    case 2
    then obtain tcs where "emits place_kinds (concat rec) tcs" "numbered names names' tcs" unfolding adds_def by blast
    with 2 gs show ?thesis unfolding both_add_def using emits_Nil by (intro exI [of _ "[]"] exI [of _ tcs]) simp
  qed
qed

lemma both_add_members: "dummy_members iface es names = Inr (gs, names') \<Longrightarrow> both_add gs names names'"
proof (induction es arbitrary: names gs)
  case Nil
  then show ?case unfolding both_add_def using emits_Nil numbered_Nil by (intro exI [of _ "[]"]) auto
next
  case (Cons e es)
  from Cons.prems obtain out rec n1 outs recs where one: "dummy_member iface e names = Inr ((out, rec), n1)"
    and more: "dummy_members iface es n1 = Inr ((outs, recs), names')" and gs: "gs = (out @ outs, rec @ recs)"
    by (auto simp: rbind_Inr_iff)
  from both_add_member [OF one] obtain t1 u1 where a: "emits member_kinds (concat out) t1" "emits place_kinds (concat rec) u1"
    "numbered names n1 (t1 @ u1)" unfolding both_add_def by auto
  from Cons.IH [OF more] obtain t2 u2 where b: "emits member_kinds (concat outs) t2" "emits place_kinds (concat recs) u2"
    "numbered n1 names' (t2 @ u2)" unfolding both_add_def by auto
  have "numbered names names' ((t1 @ t2) @ u1 @ u2)" by (rule numbered_append [OF a(3) b(3)]) simp
  with emits_same [OF a(1) b(1)] emits_same [OF a(2) b(2)] show ?case
    unfolding both_add_def gs fst_conv snd_conv concat_append by (intro exI [of _ "t1 @ t2"] exI [of _ "u1 @ u2"]) simp
qed

lemma adds_module_array: "module_array members a names = (gs, names') \<Longrightarrow> adds place_kinds (concat gs) names names'"
proof -
  assume h: "module_array members a names = (gs, names')"
  show ?thesis
  proof (cases "fa_kind a \<noteq> ARRAY \<or> fa_rank a = 0 \<or> fa_global_alloc_inside a \<or> map_of members (fa_sdfg_name a) \<noteq> None")
    case True
    with h show ?thesis by (simp add: module_array_def adds_Nil)
  next
    case False
    let ?host = "module_value_expr (fa_sdfg_name a) members" and ?k = "if fa_is_written a then IN_PLACE_WRITTEN else IN_PLACE_READ"
    let ?cs = "if module_arg_may_be_unallocated a then [present_query ?host (fa_module_origin_pointer a)] else []"
    obtain l n where t: "take_span ?host (if fa_shape a = [''1''] then 0 else fa_rank a) ?k (fa_sdfg_name a) ''0'' names = (l, n)"
      by (rule prod.exhaust)
    have k: "?k \<in> place_kinds" by (simp add: kind_sets)
    from h have gs: "gs = [in_guards ?cs [l]]" "names' = n"
      unfolding module_array_def Let_def by (simp_all only: False if_False t prod.case prod.inject)
    show ?thesis unfolding gs using adds_in_guards [OF adds_take_span [OF t k]] by simp
  qed
qed

lemma adds_dummy_array: "dummy_array s iface a names = (gs, names') \<Longrightarrow> adds place_kinds (concat gs) names names'"
proof -
  assume h: "dummy_array s iface a names = (gs, names')"
  show ?thesis
  proof (cases "dummy_named iface (lower (if fa_fortran_name a \<noteq> [] then fa_fortran_name a else fa_sdfg_name a))")
    case None
    with h show ?thesis by (simp add: dummy_array_def adds_Nil)
  next
    case (Some d)
    show ?thesis
    proof (cases "or_None (oa_struct_type d) \<noteq> None \<or> fa_rank a = 0 \<or> oa_rank d = 0")
      case True
      with h Some show ?thesis by (simp add: dummy_array_def adds_Nil)
    next
      case False
      let ?k = "if lower (oa_intent d) = ''in'' then IN_PLACE_READ else IN_PLACE_WRITTEN"
      obtain l n where t: "take_span (oa_name d) (oa_rank d) ?k (fa_sdfg_name a) ''0'' names = (l, n)" by (rule prod.exhaust)
      have k: "?k \<in> place_kinds" by (simp add: kind_sets)
      from h obtain cs where gs: "gs = [in_guards cs [l]]" "names' = n"
        unfolding dummy_array_def Let_def by (simp only: Some option.case False if_False t prod.case prod.inject) blast
      show ?thesis unfolding gs using adds_in_guards [OF adds_take_span [OF t k]] by simp
    qed
  qed
qed

lemma adds_collect:
  assumes "\<And>a names gs names'. f a names = (gs, names') \<Longrightarrow> adds place_kinds (concat gs) names names'"
  shows "collect_arrays f as names = (gs, names') \<Longrightarrow> adds place_kinds (concat gs) names names'"
proof (induction as arbitrary: names gs)
  case (Cons a as)
  obtain g n1 where a: "f a names = (g, n1)" by (rule prod.exhaust)
  obtain h n2 where b: "collect_arrays f as n1 = (h, n2)" by (rule prod.exhaust)
  from Cons.prems a b have "gs = g @ h" "names' = n2" by simp_all
  with adds_concat [OF assms [OF a] Cons.IH [OF b [unfolded \<open>names' = n2\<close> [symmetric]]]] show ?case by simp
qed (simp add: adds_Nil)

lemma adds_in_place: "in_place_arrays s iface p names = (gs, names') \<Longrightarrow> adds place_kinds (concat gs) names names'"
proof -
  assume h: "in_place_arrays s iface p names = (gs, names')"
  obtain g n1 where a: "collect_arrays (module_array (synthetic_members (Some p))) (map fst (orphan_module_args s iface p)) names = (g, n1)"
    by (rule prod.exhaust)
  obtain k n2 where b: "collect_arrays (dummy_array s iface) (fs_args s) n1 = (k, n2)" by (rule prod.exhaust)
  from h a b have "gs = g @ k" "names' = n2" by (simp_all add: in_place_arrays_def)
  with adds_concat [OF adds_collect [OF adds_module_array a] adds_collect [OF adds_dummy_array b]] show ?thesis by simp
qed

text \<open>C39. The part of the guard that collects the ranges is correctly nested, and its statements are one call per array of
  the table of names: the call with tag \<open>k\<close> is for the \<open>k\<close>-th entry, each tag is used once, and the members handed over
  apart come before the arrays taken in place, each with a kind of its own.\<close>

theorem guard_numbers_ranges:
  assumes "record_ranges s iface p = Inr x" and "all_ranges s iface p x = (ls, names)"
  shows "\<exists>ts calls members places. parse_blocks ls = Some ts \<and> names = map call_name calls \<and>
     statements_of ts = map call_text (members @ places) \<and> mset (members @ places) = mset (List.enumerate 1 calls) \<and>
     list_all (\<lambda>(tag, c). rg_kind c = MEMBER_READ \<or> rg_kind c = MEMBER_WRITTEN) members \<and>
     list_all (\<lambda>(tag, c). rg_kind c = IN_PLACE_READ \<or> rg_kind c = IN_PLACE_WRITTEN) places"
proof -
  obtain modules n1 where m: "module_members (aos_module_args s) [] = (modules, n1)" by (rule prod.exhaust)
  from assms(1) m obtain outs recs n2 where d: "dummy_record_members s iface p n1 = Inr ((outs, recs), n2)"
    and x: "x = (modules, (outs, recs), n2)" unfolding record_ranges_def by (auto simp: rbind_Inr_iff)
  obtain arrays n3 where a: "in_place_arrays s iface p n2 = (arrays, n3)" by (rule prod.exhaust)
  from assms(2) x a have ls: "ls = (concat modules @ concat outs) @ (concat recs @ concat arrays)" and names: "names = n3"
    by (simp_all add: all_ranges_def)
  from adds_module_members [OF m] obtain t1 where e1: "emits member_kinds (concat modules) t1" "numbered [] n1 t1"
    unfolding adds_def by blast
  from d have "\<exists>es. dummy_members iface es n1 = Inr ((outs, recs), n2)" unfolding dummy_record_members_def by (auto simp: rbind_Inr_iff)
  with both_add_members obtain t2 u1 where e2: "emits member_kinds (concat outs) t2" "emits place_kinds (concat recs) u1"
    "numbered n1 n2 (t2 @ u1)" unfolding both_add_def by fastforce
  from adds_in_place [OF a] obtain u2 where e3: "emits place_kinds (concat arrays) u2" "numbered n2 n3 u2" unfolding adds_def by blast
  let ?ms = "t1 @ t2" and ?ps = "u1 @ u2"
  have ms: "emits member_kinds (concat modules @ concat outs) ?ms" by (rule emits_same [OF e1(1) e2(1)])
  have ps: "emits place_kinds (concat recs @ concat arrays) ?ps" by (rule emits_same [OF e2(2) e3(1)])
  have "numbered [] n2 (t1 @ t2 @ u1)" by (rule numbered_append [OF e1(2) e2(3)]) simp
  then have "numbered [] n3 (?ms @ ?ps)" by (rule numbered_append [OF _ e3(2)]) simp
  then obtain calls where calls: "names = map call_name calls" "mset (?ms @ ?ps) = mset (List.enumerate 1 calls)"
    unfolding numbered_def names by auto
  from emits_append [OF ms ps] obtain ts where ts: "block ls ts" "statements_of ts = map call_text (?ms @ ?ps)"
    unfolding emits_def ls by blast
  have "list_all (\<lambda>(tag, c). rg_kind c = MEMBER_READ \<or> rg_kind c = MEMBER_WRITTEN) ?ms"
    using ms unfolding emits_def kind_sets list_all_iff by fastforce
  moreover have "list_all (\<lambda>(tag, c). rg_kind c = IN_PLACE_READ \<or> rg_kind c = IN_PLACE_WRITTEN) ?ps"
    using ps unfolding emits_def kind_sets list_all_iff by fastforce
  ultimately show ?thesis using parse_block [OF ts(1)] ts(2) calls by blast
qed

definition ex_guard_sig :: frozen_signature where
  "ex_guard_sig = ex_sig\<lparr>fs_args := [ex_image, ex_arg ''u'' ARRAY ''float64'']\<rparr>"

theorem guard_numbers_ranges_witness:
  "\<exists>x ls ts. record_ranges ex_guard_sig ex_guard_iface ex_plan = Inr x \<and>
     all_ranges ex_guard_sig ex_guard_iface ex_plan x = (ls, [(''q(aos_q_x_i0)%x'', ''q_x'', ''aos_q_x_i0''), (''u'', ''u'', ''0'')]) \<and>
     parse_blocks ls = Some ts \<and> length (statements_of ts) = 2"
proof -
  let ?s = ex_guard_sig and ?names = "[(''q(aos_q_x_i0)%x'', ''q_x'', ''aos_q_x_i0''), (''u'', ''u'', ''0'')]"
  have "case record_ranges ?s ex_guard_iface ex_plan of Inl _ \<Rightarrow> False | Inr x \<Rightarrow> snd (all_ranges ?s ex_guard_iface ex_plan x) = ?names"
    by code_simp
  then obtain x where x: "record_ranges ?s ex_guard_iface ex_plan = Inr x" and n: "snd (all_ranges ?s ex_guard_iface ex_plan x) = ?names"
    by (auto split: sum.splits)
  obtain ls names where ls: "all_ranges ?s ex_guard_iface ex_plan x = (ls, names)" by (rule prod.exhaust)
  with n have names: "names = ?names" by simp
  from guard_numbers_ranges [OF x ls] obtain ts calls members places where t: "parse_blocks ls = Some ts"
    and c: "names = map call_name calls" and s: "statements_of ts = map call_text (members @ places)"
    and m: "mset (members @ places) = mset (List.enumerate 1 calls)" by blast
  have "length calls = 2" using arg_cong [OF c, of length] names by simp
  then have "length (statements_of ts) = 2" using s mset_eq_length [OF m] by simp
  with x ls names t show ?thesis by blast
qed

section \<open>The alias record read back\<close>

datatype alias_item = Alias string int string | Same string int string int

fun item_words :: "alias_item \<Rightarrow> string list" where
  "item_words (Alias m e a) = [''alias'', m, str_int e, a]"
| "item_words (Same m e m' e') = [''same'', m, str_int e, m', str_int e']"

definition named :: "string list \<Rightarrow> span \<Rightarrow> string" where
  "named names s = trim (names ! (sp_tag s - 1))"

definition items_of :: "string list \<Rightarrow> span \<Rightarrow> span \<Rightarrow> bool \<Rightarrow> alias_item list" where
  "items_of names s t later =
     (if named names t = [] \<or> sp_lo s \<noteq> sp_lo t \<or> sp_hi s \<noteq> sp_hi t then []
      else if sp_kind t \<ge> 3 then [Alias (named names s) (sp_elem s - 1) (named names t)]
      else if later \<and> sp_elem t \<ge> 1 then [Same (named names s) (sp_elem s - 1) (named names t) (sp_elem t - 1)] else [])"

definition items :: "string list \<Rightarrow> span list \<Rightarrow> alias_item list" where
  "items names xs =
     concat (map (\<lambda>i. if sp_kind (xs ! i) > 2 \<or> sp_elem (xs ! i) < 1 \<or> named names (xs ! i) = [] then []
       else concat (map (\<lambda>j. items_of names (xs ! i) (xs ! j) (i < j)) [0..<length xs])) [0..<length xs])"

lemma alias_line_items: "alias_line names s t later = map (\<lambda>x. join '' '' (item_words x)) (items_of names s t later)"
  by (simp add: alias_line_def items_of_def named_def Let_def del: join.simps)

lemma spans_aliases_items: "spans_aliases names xs = map (\<lambda>x. join '' '' (item_words x)) (items names xs)"
proof -
  have "(if sp_kind (xs ! i) > 2 \<or> sp_elem (xs ! i) < 1 then [] else if trim (names ! (sp_tag (xs ! i) - 1)) = [] then []
      else concat (map (\<lambda>j. alias_line names (xs ! i) (xs ! j) (i < j)) [0..<length xs])) =
    map (\<lambda>x. join '' '' (item_words x)) (if sp_kind (xs ! i) > 2 \<or> sp_elem (xs ! i) < 1 \<or> named names (xs ! i) = [] then []
       else concat (map (\<lambda>j. items_of names (xs ! i) (xs ! j) (i < j)) [0..<length xs]))" for i
    unfolding alias_line_items by (simp add: named_def map_concat comp_def del: join.simps)
  then show ?thesis unfolding spans_aliases_def items_def Let_def by (simp add: map_concat comp_def del: join.simps)
qed

fun item_ok :: "alias_item \<Rightarrow> bool" where
  "item_ok (Alias m e a) = (word m \<and> word a)"
| "item_ok (Same m e m' e') = (word m \<and> word m')"

lemma item_words_ok: "item_ok x \<Longrightarrow> list_all word (item_words x)"
proof -
  have "word ''alias''" "word ''same''" by code_simp+
  then show "item_ok x \<Longrightarrow> list_all word (item_words x)" by (cases x) (simp_all add: str_int_word)
qed

fun same_of :: "alias_item \<Rightarrow> member_alias list" where
  "same_of (Alias m e a) = []"
| "same_of (Same m e m' e') = [(m, e, m', e')]"

definition sames :: "alias_item list \<Rightarrow> member_alias list" where
  "sames xs = concat (map same_of xs)"

lemma same_lines_call:
  "\<forall>x \<in> set c. item_ok x \<Longrightarrow>
     same_lines (map (\<lambda>x. join '' '' (item_words x)) c @ rest) (prev @ [cur]) =
     same_lines rest (prev @ [foldl (\<lambda>d a. List.insert a d) cur (sames c)])"
proof (induction c arbitrary: cur)
  case (Cons x c)
  then have "split_ws (join '' '' (item_words x)) = item_words x" by (intro split_ws_words item_words_ok) simp
  with Cons show ?case by (cases x) (simp_all add: sames_def del: join.simps)
qed (simp add: sames_def)

lemma same_lines_calls:
  "\<forall>c \<in> set calls. \<forall>x \<in> set c. item_ok x \<Longrightarrow>
     same_lines (concat (map (\<lambda>c. map (\<lambda>x. join '' '' (item_words x)) c @ [[]]) calls)) (prev @ [[]]) =
     Some (prev @ map (\<lambda>c. foldl (\<lambda>d a. List.insert a d) [] (sames c)) calls @ [[]])"
proof (induction calls arbitrary: prev)
  case (Cons c calls)
  have "same_lines (concat (map (\<lambda>c. map (\<lambda>x. join '' '' (item_words x)) c @ [[]]) (c # calls))) (prev @ [[]]) =
      same_lines ([] # concat (map (\<lambda>c. map (\<lambda>x. join '' '' (item_words x)) c @ [[]]) calls)) (prev @ [foldl (\<lambda>d a. List.insert a d) [] (sames c)])"
    using Cons.prems by (simp add: same_lines_call)
  also have "\<dots> = same_lines (concat (map (\<lambda>c. map (\<lambda>x. join '' '' (item_words x)) c @ [[]]) calls))
      ((prev @ [foldl (\<lambda>d a. List.insert a d) [] (sames c)]) @ [[]])"
    by (simp del: join.simps)
  also have "\<dots> = Some ((prev @ [foldl (\<lambda>d a. List.insert a d) [] (sames c)]) @ map (\<lambda>c. foldl (\<lambda>d a. List.insert a d) [] (sames c)) calls @ [[]])"
    using Cons by (intro Cons.IH) simp
  finally show ?case by simp
qed simp

text \<open>The associations of members a call has: two members of named elements with the same storage.\<close>

definition same_storage :: "string list \<Rightarrow> span list \<Rightarrow> member_alias set" where
  "same_storage names xs =
     {(named names s, sp_elem s - 1, named names t, sp_elem t - 1) | s t i j. i < j \<and> j < length xs \<and> s = xs ! i \<and> t = xs ! j \<and>
        sp_kind s \<le> 2 \<and> sp_kind t \<le> 2 \<and> 1 \<le> sp_elem s \<and> 1 \<le> sp_elem t \<and> named names s \<noteq> [] \<and> named names t \<noteq> [] \<and>
        sp_lo s = sp_lo t \<and> sp_hi s = sp_hi t}"

lemma set_sames: "set (sames (items names xs)) = same_storage names xs"
proof -
  have "set (sames (items names xs)) = (\<Union>x \<in> set (items names xs). set (same_of x))" by (simp add: sames_def)
  also have "\<dots> = same_storage names xs"
  proof (intro equalityI subsetI)
    fix a
    assume "a \<in> (\<Union>x \<in> set (items names xs). set (same_of x))"
    then obtain x where x: "x \<in> set (items names xs)" "a \<in> set (same_of x)" by blast
    from x(1) obtain i j where ij: "i < length xs" "j < length xs" "\<not> (sp_kind (xs ! i) > 2 \<or> sp_elem (xs ! i) < 1 \<or> named names (xs ! i) = [])"
      "x \<in> set (items_of names (xs ! i) (xs ! j) (i < j))" unfolding items_def by (auto split: if_splits)
    from ij(4) x(2) have "i < j" "a = (named names (xs ! i), sp_elem (xs ! i) - 1, named names (xs ! j), sp_elem (xs ! j) - 1)"
      "named names (xs ! j) \<noteq> []" "sp_lo (xs ! i) = sp_lo (xs ! j)" "sp_hi (xs ! i) = sp_hi (xs ! j)" "\<not> sp_kind (xs ! j) \<ge> 3" "sp_elem (xs ! j) \<ge> 1"
      unfolding items_of_def by (auto split: if_splits)
    with ij show "a \<in> same_storage names xs" unfolding same_storage_def by (intro CollectI exI [of _ "xs ! i"] exI [of _ "xs ! j"] exI [of _ i] exI [of _ j]) simp
  next
    fix a
    assume "a \<in> same_storage names xs"
    then obtain i j where ij: "i < j" "j < length xs" "a = (named names (xs ! i), sp_elem (xs ! i) - 1, named names (xs ! j), sp_elem (xs ! j) - 1)"
      "sp_kind (xs ! i) \<le> 2" "sp_kind (xs ! j) \<le> 2" "1 \<le> sp_elem (xs ! i)" "1 \<le> sp_elem (xs ! j)" "named names (xs ! i) \<noteq> []"
      "named names (xs ! j) \<noteq> []" "sp_lo (xs ! i) = sp_lo (xs ! j)" "sp_hi (xs ! i) = sp_hi (xs ! j)" unfolding same_storage_def by blast
    let ?x = "Same (named names (xs ! i)) (sp_elem (xs ! i) - 1) (named names (xs ! j)) (sp_elem (xs ! j) - 1)"
    have one: "?x \<in> set (items_of names (xs ! i) (xs ! j) (i < j))" using ij unfolding items_of_def by simp
    have "?x \<in> set (items names xs)"
      unfolding items_def set_concat set_map
      by (rule UnionI, rule imageI, rule imageI [of i]) (use ij one in \<open>auto intro!: bexI [of _ j]\<close>)
    then show "a \<in> (\<Union>x \<in> set (items names xs). set (same_of x))" using ij(3) by (intro UN_I [of ?x]) simp_all
  qed
  finally show ?thesis .
qed

text \<open>What a run of the wrapper appends: the lines of each call and a blank line after them.\<close>

definition alias_text :: "string list \<Rightarrow> span list list \<Rightarrow> string" where
  "alias_text names calls = concat (map (\<lambda>c. concat (map (\<lambda>l. l @ [LF]) (spans_aliases names c @ [[]]))) calls)"

lemma alias_text_run: "alias_text names calls = run_text item_words (map (items names) calls)"
  by (induction calls) (simp_all add: alias_text_def run_text_def spans_aliases_items comp_def del: join.simps)

lemma named_word:
  assumes "\<forall>n \<in> set names. trim n = [] \<or> word (trim n)" and "1 \<le> sp_tag s" and "sp_tag s \<le> length names"
  shows "named names s = [] \<or> word (named names s)"
  using assms unfolding named_def by simp

lemma items_ok:
  assumes "\<forall>n \<in> set names. trim n = [] \<or> word (trim n)"
    and "\<forall>s \<in> set c. 1 \<le> sp_tag s \<and> sp_tag s \<le> length names"
  shows "\<forall>x \<in> set (items names c). item_ok x"
proof
  fix x
  assume "x \<in> set (items names c)"
  then obtain i j where ij: "i < length c" "j < length c" "named names (c ! i) \<noteq> []"
    "x \<in> set (items_of names (c ! i) (c ! j) (i < j))" unfolding items_def by (auto split: if_splits)
  have w: "k < length c \<Longrightarrow> named names (c ! k) \<noteq> [] \<Longrightarrow> word (named names (c ! k))" for k
    using named_word [OF assms(1), of "c ! k"] assms(2) by simp
  from ij(4) w [OF ij(1, 3)] w [OF ij(2)] show "item_ok x" unfolding items_of_def by (auto split: if_splits)
qed

lemma agreed_sets:
  assumes "\<And>c. c \<in> set calls \<Longrightarrow> set (f c) = S c" and "\<And>c. c \<in> set calls \<Longrightarrow> distinct (f c)"
    and "al = (case map f calls of [] \<Rightarrow> [] | c # cs \<Rightarrow> if list_ex (\<lambda>d. set d \<noteq> set c) cs then [] else sort c)"
  shows "sorted al \<and> distinct al \<and> set al = (if \<exists>T. \<forall>c \<in> set calls. S c = T then \<Union>c \<in> set calls. S c else {})"
proof (cases calls)
  case (Cons c cs)
  have ex: "list_ex (\<lambda>d. set d \<noteq> set (f c)) (map f cs) \<longleftrightarrow> \<not> (\<exists>T. \<forall>c \<in> set calls. S c = T)"
    using assms(1) Cons by (auto simp: list_ex_iff)
  show ?thesis
  proof (cases "\<exists>T. \<forall>c \<in> set calls. S c = T")
    case True
    then have "(\<Union>c \<in> set calls. S c) = S c" using Cons by auto
    moreover have "al = sort (f c)" using assms(3) Cons ex True by simp
    ultimately show ?thesis using assms(1) [of c] assms(2) [of c] Cons True by simp
  next
    case False
    then have "al = []" using assms(3) Cons ex by simp
    then show ?thesis using False by (simp only: if_False) simp
  qed
qed (use assms(3) in simp)

text \<open>C40. The associations of members that the run of the wrapper writes are read back: the pairs of members with the same
  storage, sorted and each once, when the calls agree on them, and none when two calls differ.\<close>

theorem member_aliases_read_back:
  assumes "\<forall>n \<in> set names. trim n = [] \<or> word (trim n)"
    and "\<forall>c \<in> set calls. \<forall>s \<in> set c. 1 \<le> sp_tag s \<and> sp_tag s \<le> length names"
  shows "\<exists>al. recorded_member_aliases (Some (alias_text names calls)) = Some al \<and> sorted al \<and> distinct al \<and>
     set al = (if \<exists>T. \<forall>c \<in> set calls. same_storage names c = T then \<Union>c \<in> set calls. same_storage names c else {})"
proof -
  let ?f = "\<lambda>c. foldl (\<lambda>d a. List.insert a d) [] (sames (items names c))"
  have ok: "\<forall>c \<in> set (map (items names) calls). \<forall>x \<in> set c. item_ok x" using items_ok [OF assms(1)] assms(2) by (auto simp del: One_nat_def)
  then have "\<forall>c \<in> set (map (items names) calls). \<forall>x \<in> set c. list_all word (item_words x)" using item_words_ok by blast
  then have "same_lines (splitlines (alias_text names calls)) [[]] = Some (map ?f calls @ [[]])"
    using same_lines_calls [OF ok, of "[]"] by (simp add: alias_text_run splitlines_run_text comp_def)
  then have "recorded_member_aliases (Some (alias_text names calls)) =
      Some (case map ?f calls of [] \<Rightarrow> [] | c # cs \<Rightarrow> if list_ex (\<lambda>d. set d \<noteq> set c) cs then [] else sort c)"
    by (simp add: recorded_member_aliases_def)
  moreover have "set (?f c) = same_storage names c" "distinct (?f c)" for c
    by (simp_all add: foldl_insert_set foldl_insert_distinct set_sames)
  ultimately show ?thesis using agreed_sets [of calls ?f "same_storage names"] by blast
qed

definition ex_alias_names :: "string list" where
  "ex_alias_names = [''q_x '', ''q_y '', ''    '']"

definition ex_alias_call :: "span list" where
  "ex_alias_call = [\<lparr>sp_lo = 8, sp_hi = 15, sp_kind = 1, sp_tag = 1, sp_elem = 1\<rparr>, \<lparr>sp_lo = 8, sp_hi = 15, sp_kind = 2, sp_tag = 2, sp_elem = 3\<rparr>,
     \<lparr>sp_lo = 8, sp_hi = 15, sp_kind = 1, sp_tag = 3, sp_elem = 1\<rparr>]"

theorem member_aliases_read_back_witness:
  "recorded_member_aliases (Some (alias_text ex_alias_names [ex_alias_call, ex_alias_call])) = Some [(''q_x'', 0, ''q_y'', 2)]"
proof -
  have "list_all (\<lambda>n. trim n = [] \<or> word (trim n)) ex_alias_names" by code_simp
  then have n: "\<forall>n \<in> set ex_alias_names. trim n = [] \<or> word (trim n)" by (simp only: list_all_iff)
  have "\<forall>c \<in> set [ex_alias_call, ex_alias_call]. \<forall>s \<in> set c. 1 \<le> sp_tag s \<and> sp_tag s \<le> length ex_alias_names"
    by (simp add: ex_alias_call_def ex_alias_names_def)
  from member_aliases_read_back [OF n this] obtain al where
    r: "recorded_member_aliases (Some (alias_text ex_alias_names [ex_alias_call, ex_alias_call])) = Some al"
    and d: "distinct al" and s: "set al = same_storage ex_alias_names ex_alias_call" by (force split: if_splits)
  have "sames (items ex_alias_names ex_alias_call) = [(''q_x'', 0, ''q_y'', 2)]" by code_simp
  then have "set al = {(''q_x'', 0, ''q_y'', 2)}" using s unfolding set_sames [symmetric] by simp
  then have "al = [(''q_x'', 0, ''q_y'', 2)]" using d by (cases al; cases "tl al") auto
  with r show ?thesis by simp
qed

end
