(* ===== verification/Spec2Isabelle.thy ===== *)
theory Spec2Isabelle
  imports Unformatted Loop_Pack Binding_Text Acc_Transfers Tu_Emit Entry_Names Vacuity Policy Specialization Shim Reshape Abi_Interface
    Power_Rewrite Kind_Params External_Modules Tu_Binding Startup_Constants Standin Storage_Guard
begin

text \<open>
  Verification of the Python sources of dace-fortran (\<open>src/dace_fortran\<close>).

  \<^bold>\<open>The program.\<close> dace-fortran turns Fortran procedures into DaCe dataflow graphs (SDFGs), and the compiled SDFG back
  into something Fortran code can call. Sources are first preprocessed as text (\<open>preprocess.py\<close>), a compiler front end
  builds its intermediate representation, a builder translates that into an SDFG, and a binding generator
  (\<open>bindings/\<close>) writes the Fortran wrapper with the old procedure's interface: it copies records into flat buffers,
  assigns the SDFG's symbols, stages data to the device, calls the SDFG and copies back. Beside it stands a family of
  tools that works on Fortran text alone: discovery and extraction of loop nests (\<open>discovery.py\<close>, \<open>extract.py\<close>),
  translation units for families of nests (\<open>tu.py\<close>, \<open>policy.py\<close>, \<open>reshape.py\<close>), shim normalisation
  (\<open>shim.py\<close>) and guards against vacuous builds (\<open>vacuity.py\<close>). What is modelled here is the part of this that is
  decided in Python on strings, records and dictionaries.

  \<^bold>\<open>The theories\<close>, in the order of the imports; file names are below \<open>src/dace_fortran\<close>.

  Foundations. \<open>Prelude\<close>: the Python string and list operations the sources use, errors as \<open>'e + 'a\<close> with \<open>rbind\<close>
  and \<open>rmap\<close>, and the locale \<open>codec\<close> of a dictionary format with its reader. \<open>Json\<close>: the values of \<open>to_dict\<close> and
  \<open>from_dict\<close>. \<open>Regex\<close>: Python's backtracking matcher, with captures, boundaries and look-ahead. \<open>Fortran_Blocks\<close>:
  which lines open and close blocks, nesting, and what the loops of a text range over; it is the specification side of
  the renderers.

  Interfaces and plans. \<open>Unformatted\<close> (\<open>unformatted.py\<close>), \<open>Flatten_Plan\<close>, \<open>Frozen_Signature\<close>, \<open>Fortran_Interface\<close>
  (\<open>bindings/flatten_plan.py\<close>, \<open>frozen_signature.py\<close>, \<open>fortran_interface.py\<close>), \<open>Abi_Interface\<close>
  (\<open>abi_interface.py\<close>), \<open>Policy\<close> (\<open>policy.py\<close>), \<open>Entry_Names\<close> (\<open>entry_names.py\<close>). Dataclasses are records, enums
  datatypes, \<open>raise\<close> is \<open>Inl\<close>. The lemmas show round trips of the dictionary formats, the exact condition under which
  a drifted SDFG is refused and what refreezing keeps, the well-formedness of interfaces, and when an entry resolves.

  The wrapper. \<open>Loop_Copy\<close>, \<open>Loop_Pack\<close> (\<open>bindings/loop_copy.py\<close>), \<open>Record_Image\<close>, \<open>Binding_Sources\<close>,
  \<open>Symbol_Assigns\<close>, \<open>Binding_Text\<close> (\<open>bindings/block_builders.py\<close>), \<open>Acc_Transfers\<close> (\<open>bindings/acc_transfers.py\<close>),
  \<open>Value_Records\<close>, \<open>Specialization\<close> (\<open>bindings/specialization.py\<close>). The emitted Fortran is a list of lines; the
  lemmas show that copies visit exactly the recipe's box, that copies out mirror copies in, that every emitted block is
  nested, that every symbol passed is assigned on every path and that splitting the assignments keeps every guard in one
  piece, that staging encloses the call, and that a specialisation guard tests every value before it declines.

  Translation units. \<open>Discovery\<close> (\<open>discovery.py\<close>, \<open>extract.py\<close>), \<open>Tu_Arms\<close>, \<open>Tu_Emit\<close> (\<open>tu.py\<close>), \<open>Reshape\<close>
  (\<open>reshape.py\<close>), \<open>Shim\<close> (\<open>shim.py\<close>), \<open>Vacuity\<close> (\<open>vacuity.py\<close>). The lemmas show that a union nest runs both
  arms over their own ranges, that the alias map identifies only what assignments connect, that the derived offsets visit
  the source's planes, that every launch is ordered, and when the vacuity guard passes.

  Preprocessing (\<open>preprocess.py\<close>). \<open>Source_Scan\<close>: comments, literals, lines, edits. \<open>Line_Edits\<close>: the locale
  \<open>edit_pass\<close> of the passes that collect edits from matches, interpreted by \<open>Power_Rewrite\<close> and \<open>Kind_Params\<close>.
  \<open>Cpp_Strip\<close>: the directive filter and the balancing of blocks. \<open>Stub_Bodies\<close>: emptied procedures. \<open>Use_Order\<close> and
  \<open>Module_Merge\<close>: the order in which used modules are spliced, with \<open>external_functions.py\<close>. \<open>External_Modules\<close>:
  \<open>EXTERNAL\<close> declarations turned into imports. The lemmas show that the filter does what the C preprocessor does with
  the macros undefined, that exactly the targets are emptied, that the merge returns exactly without a cycle and then
  orders the modules, and what the rewriting passes replace; they also show where the passes differ from their
  documentation.

  Analyses and bindings for substitution. \<open>Word_Sub\<close> (replacement of whole words) and \<open>Tu_Binding\<close>
  (\<open>tu_bindings.py\<close>): reading, choosing and applying the tables that bind a translation unit's dummies; the lemmas
  show which table is chosen and when successive renamings act at once. \<open>Fortran_Program\<close>, \<open>Call_Tree\<close>,
  \<open>Outside_Refs\<close> (\<open>substitute/outside_refs.py\<close>): the reader of a program's modules and procedures (a scope is its
  index in \<open>pg_scopes\<close>, standing for the object's identity), names through \<open>USE\<close>, the procedures that run inside calls
  of a routine only, and the verdict on each module variable. The lemmas show that the exclusive procedures are the
  greatest set the callers close, that a call chain enters it at the routine, that the escaping procedures are the least
  such set, and which variables the closure of the alias groups rejects. \<open>Startup_Constants\<close>
  (\<open>substitute/startup_constants.py\<close>): which variables may change after a routine's first call; the range of the main
  program between two calls covers every statement that can run there, and the analysis returns. \<open>Module_Access\<close>
  (\<open>bindings/module_access.py\<close>): accessors to a module's private variables; exposing adds lines only, one accessor per
  name, and the exact condition under which it is refused. \<open>Standin\<close> (\<open>bindings/standin.py\<close>): the recording stand-in and
  the substitute entry; the body's lines are shown to be those of a small program of calls and tests, whose run serves
  every call by the wrapper, the original or a stop.

  Shared storage. \<open>Span_Sweep\<close> and \<open>Storage_Guard\<close> (\<open>bindings/storage_guard.py\<close>): the block by which a wrapper declines
  a call in which a member handed over apart from its record shares storage with another array. \<open>Span_Sweep\<close> models the
  Fortran helpers every such binding carries: the address range of a strided array, the heapsort of the ranges and the
  sweep over them. The lemmas show that the heapsort sorts a permutation, that the sweep reports a clashing pair exactly
  when there is one, and that two arrays which share a byte are found. Addresses are unbounded integers, as those of
  objects in memory do not overflow. \<open>Storage_Guard\<close> models the renderers of the guard and of the alias record; the calls
  they emit number the entries of the table of names one to one, and what a run records is what \<open>Value_Records\<close> reads.

  \<^bold>\<open>Loops, fuel and bounds.\<close> Loops are structural recursions or functions with a measure. The star of the matcher has
  the length of the text plus one as fuel, which is enough because an iteration that consumes nothing is refused (as in
  Python); stripping parentheses has the text's length. \<open>find_root\<close> (\<open>Tu_Arms\<close>) and \<open>place\<close> (\<open>Use_Order\<close>) are partial
  functions, and so is \<open>spread\<close> (\<open>Call_Tree\<close>), \<open>None\<close> being a call that does not return: that \<open>alias_map\<close> and the search
  for exclusive procedures always return and when the merge does are theorems. \<open>walk_members\<close> (\<open>Symbol_Assigns\<close>) takes Python's recursion limit as a depth; \<open>member_walk_returns\<close> gives
  the depth that is enough.

  \<^bold>\<open>Parameters.\<close> Code that is not in the repository is an argument: the numpy encodings (the locale \<open>dtype\<close>, interpreted
  at 32-bit integers), Python's floats, whether a pattern compiles, the parsed JSON of a file, the texts of the files in
  a search directory in the order they are visited, the order in which Python lists a set (\<open>ord\<close> in \<open>Call_Tree\<close> and
  \<open>Startup_Constants\<close>), the output of \<open>nm\<close> (\<open>Module_Access\<close>).

  \<^bold>\<open>Not modelled.\<close> Reading and writing files, command lines and processes. Everything that works on objects of
  third-party packages: the builder and the graph passes (DaCe's SDFG and the HLFIR bridge in C++), the inliner and the
  other engine of the merge (fparser's syntax trees), the other scripts of \<open>substitute/\<close>, which drive compilers and rewrite SDFGs.
  Of \<open>bindings/block_builders.py\<close> the builders that fill the module's templates from an SDFG. Characters are code
  points up to 255, so Python's Unicode digits and letters beyond them are left out.
\<close>

end
